(* ===== verification/Prelude.thy ===== *)
theory Prelude
  imports Main "HOL-Library.Word"
begin

text \<open>
  What the components share: the value an operation has when the source reaches
  \<^verbatim>\<open>llvm_unreachable\<close> or a failed \<^verbatim>\<open>assert\<close>, and lemmas on bits of integers and
  words that the lattices rest on.
\<close>

unbundle bit_operations_syntax

subsection \<open>Failures as values\<close>

text \<open>
  A branch of the source that ends in \<^verbatim>\<open>llvm_unreachable\<close> is \<open>Inl Unreachable\<close>, a violated
  \<^verbatim>\<open>assert\<close> is \<open>Inl AssertFailed\<close>, and an access through an iterator or index past the end of a
  container or through a null pointer is \<open>Inl BadIterator\<close>; \<^verbatim>\<open>llvm::report_fatal_error\<close> is \<open>Inl FatalError\<close>.
\<close>

datatype failure = Unreachable | AssertFailed | BadIterator | FatalError

type_synonym 'a result = "failure + 'a"

abbreviation unreachable :: "'a result" where
  "unreachable \<equiv> Inl Unreachable"

abbreviation returns :: "'a \<Rightarrow> 'a result" where
  "returns x \<equiv> Inr x"

definition is_ok :: "'a result \<Rightarrow> bool" where
  "is_ok r = (case r of Inl _ \<Rightarrow> False | Inr _ \<Rightarrow> True)"

lemma is_ok_simps [simp]: "is_ok (Inr x)" "\<not> is_ok (Inl e)"
  by (simp_all add: is_ok_def)

lemma is_ok_iff: "is_ok r \<longleftrightarrow> (\<exists>x. r = Inr x)"
  by (cases r) simp_all

subsection \<open>Collections of rewrite rules\<close>

named_theorems bits_simps \<open>bitwise extensionality and bits of the operations\<close>
named_theorems apint_simps \<open>laws of the arbitrary precision integers\<close>

subsection \<open>Bits of integers\<close>

lemma and_eq_iff_bits [bits_simps]:
  "(x AND k = y AND k) \<longleftrightarrow> (\<forall>n. bit k n \<longrightarrow> bit x n = bit y n)" for x y k :: int
  by (auto simp: bit_eq_iff bit_and_iff)

lemma and_zero_iff_bits: "(x AND k = 0) \<longleftrightarrow> (\<forall>n. \<not> (bit x n \<and> bit k n))" for x k :: int
  by (auto simp: bit_eq_iff bit_and_iff)

lemma bit_of_small:
  assumes "0 \<le> (x::int)" "x < 2 ^ w" "w \<le> n"
  shows "\<not> bit x n"
proof -
  have "take_bit w x = x"
    using assms by (simp add: take_bit_int_eq_self)
  then have "bit x n = bit (take_bit w x) n" by simp
  then show ?thesis using assms(3) by (simp add: bit_take_bit_iff)
qed

lemma small_int_eq_iff_bits:
  assumes "0 \<le> (x::int)" "x < 2 ^ w" "0 \<le> y" "y < 2 ^ w"
  shows "x = y \<longleftrightarrow> (\<forall>n < w. bit x n = bit y n)"
proof
  assume h: "\<forall>n < w. bit x n = bit y n"
  show "x = y"
  proof (rule bit_eqI)
    fix n
    show "bit x n = bit y n"
      using h bit_of_small[of x w n] bit_of_small[of y w n] assms by (cases "n < w") auto
  qed
qed simp

lemma and_small_aligned:
  assumes "2 ^ n dvd (a::int)" "0 \<le> m" "m < 2 ^ n"
  shows "a AND m = 0"
proof -
  have "\<not> (bit a i \<and> bit m i)" for i
  proof (cases "i < n")
    case True
    from assms(1) have "take_bit n a = 0" by (simp add: take_bit_eq_0_iff)
    then have "\<not> bit (take_bit n a) i" by simp
    then show ?thesis using True by (simp add: bit_take_bit_iff)
  next
    case False
    then show ?thesis using bit_of_small[of m n i] assms by simp
  qed
  then show ?thesis by (simp add: and_zero_iff_bits)
qed

lemma or_small_aligned:
  assumes "2 ^ n dvd (a::int)" "0 \<le> m" "m < 2 ^ n"
  shows "a OR m = a + m"
  using plus_and_or [of a m] and_small_aligned [OF assms] by simp

lemma take_bit_add_left: "take_bit n (take_bit n a + b) = take_bit n (a + b)" for a b :: int
  by (simp add: take_bit_eq_mod mod_simps)

lemma take_bit_add_cong: "take_bit n a = take_bit n b \<Longrightarrow> take_bit n (c + a) = take_bit n (c + b)"
  for a b c :: int
  unfolding take_bit_eq_mod by (rule mod_add_cong) simp_all

lemma take_bit_diff_cong: "take_bit n a = take_bit n b \<Longrightarrow> take_bit n (c - a) = take_bit n (c - b)"
  for a b c :: int
  unfolding take_bit_eq_mod by (rule mod_diff_cong) simp_all

subsection \<open>Bits of 64-bit words\<close>

lemma and_word_eq_iff_bits [bits_simps]:
  "(x AND k = y AND k) \<longleftrightarrow> (\<forall>n. bit k n \<longrightarrow> bit x n = bit y n)" for x y k :: "'a::len word"
proof
  assume h: "x AND k = y AND k"
  show "\<forall>n. bit k n \<longrightarrow> bit x n = bit y n"
  proof (intro allI impI)
    fix n
    assume "bit k n"
    moreover have "bit (x AND k) n = bit (y AND k) n" by (simp only: h)
    ultimately show "bit x n = bit y n" by (simp add: bit_and_iff)
  qed
next
  assume "\<forall>n. bit k n \<longrightarrow> bit x n = bit y n"
  then show "x AND k = y AND k" by (auto intro!: bit_word_eqI simp: bit_and_iff)
qed

end
