(* ===== verification/ApInt.thy ===== *)
theory ApInt
  imports Prelude "HOL-Library.Signed_Division"
begin

text \<open>
  The arbitrary precision integers of LLVM (\<^verbatim>\<open>llvm::APInt\<close>) are a library the sources call and do not
  contain, so they are a parameter of every definition that uses them: a record of the operations
  the passes call. The locale \<open>apint\<close> names what the passes rely on, the documented meaning of each
  operation in terms of the unsigned value \<open>uval\<close> and the width of an integer; operations that
  assert equal widths or a proper extension have laws under those conditions only. \<open>bv_ops\<close> is an
  instance by a width and an integer, used to evaluate the model.
\<close>

subsection \<open>The operations the passes call\<close>

record 'i apint_ops =
  ap_width :: "'i \<Rightarrow> nat"
  ap_make :: "nat \<Rightarrow> 64 word \<Rightarrow> bool \<Rightarrow> 'i"
  ap_eq :: "'i \<Rightarrow> 'i \<Rightarrow> bool"
  ap_is_null :: "'i \<Rightarrow> bool"
  ap_is_one :: "'i \<Rightarrow> bool"
  ap_not :: "'i \<Rightarrow> 'i"
  ap_neg :: "'i \<Rightarrow> 'i"
  ap_and :: "'i \<Rightarrow> 'i \<Rightarrow> 'i"
  ap_or :: "'i \<Rightarrow> 'i \<Rightarrow> 'i"
  ap_xor :: "'i \<Rightarrow> 'i \<Rightarrow> 'i"
  ap_add :: "'i \<Rightarrow> 'i \<Rightarrow> 'i"
  ap_sub :: "'i \<Rightarrow> 'i \<Rightarrow> 'i"
  ap_mul :: "'i \<Rightarrow> 'i \<Rightarrow> 'i"
  ap_udiv :: "'i \<Rightarrow> 'i \<Rightarrow> 'i"
  ap_sdiv :: "'i \<Rightarrow> 'i \<Rightarrow> 'i"
  ap_sextOrTrunc :: "nat \<Rightarrow> 'i \<Rightarrow> 'i"
  ap_zextOrTrunc :: "nat \<Rightarrow> 'i \<Rightarrow> 'i"
  ap_sext :: "nat \<Rightarrow> 'i \<Rightarrow> 'i"
  ap_zext :: "nat \<Rightarrow> 'i \<Rightarrow> 'i"
  ap_trunc :: "nat \<Rightarrow> 'i \<Rightarrow> 'i"
  ap_getSExtValue :: "'i \<Rightarrow> 64 word"
  ap_getZExtValue :: "'i \<Rightarrow> 64 word"
  ap_uadd_ov :: "'i \<Rightarrow> 'i \<Rightarrow> bool"
  ap_umul_ov :: "'i \<Rightarrow> 'i \<Rightarrow> bool"
  ap_sadd_ov :: "'i \<Rightarrow> 'i \<Rightarrow> bool"
  ap_shl :: "'i \<Rightarrow> 'i \<Rightarrow> 'i"
  ap_lshr :: "'i \<Rightarrow> 'i \<Rightarrow> 'i"
  ap_ashr :: "'i \<Rightarrow> 'i \<Rightarrow> 'i"
  ap_rotl :: "'i \<Rightarrow> 'i \<Rightarrow> 'i"
  ap_rotr :: "'i \<Rightarrow> 'i \<Rightarrow> 'i"
  ap_slt :: "'i \<Rightarrow> 'i \<Rightarrow> bool"
  ap_ult :: "'i \<Rightarrow> 'i \<Rightarrow> bool"
  ap_sle :: "'i \<Rightarrow> 'i \<Rightarrow> bool"
  ap_ule :: "'i \<Rightarrow> 'i \<Rightarrow> bool"

text \<open>The value of a \<open>w\<close>-bit pattern read as two's complement.\<close>

definition signed_value :: "nat \<Rightarrow> int \<Rightarrow> int" where
  "signed_value w v = signed_take_bit (w - 1) v"

subsection \<open>The documented behaviour\<close>

locale apint =
  fixes A :: "'i apint_ops" and uval :: "'i \<Rightarrow> int"
  assumes uval_nonneg: "0 \<le> uval x"
    and uval_less: "uval x < 2 ^ ap_width A x"
    and width_pos: "0 < ap_width A x"
    and make: "0 < n \<Longrightarrow> ap_width A (ap_make A n v s) = n \<and>
      uval (ap_make A n v s) = take_bit n (if s then sint v else uint v)"
    and eq: "ap_width A x = ap_width A y \<Longrightarrow> ap_eq A x y = (uval x = uval y)"
    and is_null: "ap_is_null A x = (uval x = 0)"
    and is_one: "ap_is_one A x = (uval x = 1)"
    and bit_not: "ap_width A (ap_not A x) = ap_width A x \<and>
      uval (ap_not A x) = take_bit (ap_width A x) (NOT (uval x))"
    and neg: "ap_width A (ap_neg A x) = ap_width A x \<and>
      uval (ap_neg A x) = take_bit (ap_width A x) (- uval x)"
    and bit_and: "ap_width A x = ap_width A y \<Longrightarrow> ap_width A (ap_and A x y) = ap_width A y \<and>
      uval (ap_and A x y) = uval x AND uval y"
    and bit_or: "ap_width A x = ap_width A y \<Longrightarrow> ap_width A (ap_or A x y) = ap_width A y \<and>
      uval (ap_or A x y) = uval x OR uval y"
    and bit_xor: "ap_width A x = ap_width A y \<Longrightarrow> ap_width A (ap_xor A x y) = ap_width A y \<and>
      uval (ap_xor A x y) = uval x XOR uval y"
    and add: "ap_width A x = ap_width A y \<Longrightarrow> ap_width A (ap_add A x y) = ap_width A y \<and>
      uval (ap_add A x y) = take_bit (ap_width A y) (uval x + uval y)"
    and sub: "ap_width A x = ap_width A y \<Longrightarrow> ap_width A (ap_sub A x y) = ap_width A y \<and>
      uval (ap_sub A x y) = take_bit (ap_width A y) (uval x - uval y)"
    and mul: "ap_width A x = ap_width A y \<Longrightarrow> ap_width A (ap_mul A x y) = ap_width A y \<and>
      uval (ap_mul A x y) = take_bit (ap_width A y) (uval x * uval y)"
    and udiv: "ap_width A x = ap_width A y \<Longrightarrow> uval y \<noteq> 0 \<Longrightarrow>
      ap_width A (ap_udiv A x y) = ap_width A y \<and> uval (ap_udiv A x y) = uval x div uval y"
    and sdiv: "ap_width A x = ap_width A y \<Longrightarrow> uval y \<noteq> 0 \<Longrightarrow>
      ap_width A (ap_sdiv A x y) = ap_width A y \<and>
      uval (ap_sdiv A x y) = take_bit (ap_width A y)
        (signed_value (ap_width A y) (uval x) sdiv signed_value (ap_width A y) (uval y))"
    and sextOrTrunc: "0 < n \<Longrightarrow> ap_width A (ap_sextOrTrunc A n x) = n \<and>
      uval (ap_sextOrTrunc A n x) = take_bit n (signed_value (ap_width A x) (uval x))"
    and zextOrTrunc: "0 < n \<Longrightarrow> ap_width A (ap_zextOrTrunc A n x) = n \<and>
      uval (ap_zextOrTrunc A n x) = take_bit n (uval x)"
    and sext: "ap_width A x < n \<Longrightarrow> ap_width A (ap_sext A n x) = n \<and>
      uval (ap_sext A n x) = take_bit n (signed_value (ap_width A x) (uval x))"
    and zext: "ap_width A x < n \<Longrightarrow> ap_width A (ap_zext A n x) = n \<and>
      uval (ap_zext A n x) = uval x"
    and trunc: "0 < n \<Longrightarrow> n < ap_width A x \<Longrightarrow> ap_width A (ap_trunc A n x) = n \<and>
      uval (ap_trunc A n x) = take_bit n (uval x)"
    and getSExtValue: "ap_width A x \<le> 64 \<Longrightarrow>
      ap_getSExtValue A x = word_of_int (signed_value (ap_width A x) (uval x))"
    and getZExtValue: "ap_width A x \<le> 64 \<Longrightarrow> ap_getZExtValue A x = word_of_int (uval x)"
    and uadd_ov: "ap_width A x = ap_width A y \<Longrightarrow>
      ap_uadd_ov A x y = (2 ^ ap_width A y \<le> uval x + uval y)"
    and umul_ov: "ap_width A x = ap_width A y \<Longrightarrow>
      ap_umul_ov A x y = (2 ^ ap_width A y \<le> uval x * uval y)"
    and sadd_ov: "ap_width A x = ap_width A y \<Longrightarrow>
      ap_sadd_ov A x y =
        (let s = signed_value (ap_width A y) (uval x) + signed_value (ap_width A y) (uval y)
         in s < - (2 ^ (ap_width A y - 1)) \<or> 2 ^ (ap_width A y - 1) \<le> s)"
    and shl: "ap_width A (ap_shl A x y) = ap_width A x \<and>
      uval (ap_shl A x y) = take_bit (ap_width A x) (push_bit (nat (uval y)) (uval x))"
    and lshr: "ap_width A (ap_lshr A x y) = ap_width A x \<and>
      uval (ap_lshr A x y) = drop_bit (nat (uval y)) (uval x)"
    and ashr: "ap_width A (ap_ashr A x y) = ap_width A x \<and>
      uval (ap_ashr A x y) = take_bit (ap_width A x)
        (drop_bit (nat (uval y)) (signed_value (ap_width A x) (uval x)))"
    and rotl_width: "ap_width A (ap_rotl A x y) = ap_width A x"
    and rotl_bits: "n < ap_width A x \<Longrightarrow> bit (uval (ap_rotl A x y)) n =
      bit (uval x) ((n + (ap_width A x - nat (uval y) mod ap_width A x)) mod ap_width A x)"
    and rotr_width: "ap_width A (ap_rotr A x y) = ap_width A x"
    and rotr_bits: "n < ap_width A x \<Longrightarrow> bit (uval (ap_rotr A x y)) n =
      bit (uval x) ((n + nat (uval y) mod ap_width A x) mod ap_width A x)"
    and slt: "ap_width A x = ap_width A y \<Longrightarrow> ap_slt A x y =
      (signed_value (ap_width A y) (uval x) < signed_value (ap_width A y) (uval y))"
    and ult: "ap_width A x = ap_width A y \<Longrightarrow> ap_ult A x y = (uval x < uval y)"
    and sle: "ap_width A x = ap_width A y \<Longrightarrow> ap_sle A x y =
      (signed_value (ap_width A y) (uval x) \<le> signed_value (ap_width A y) (uval y))"
    and ule: "ap_width A x = ap_width A y \<Longrightarrow> ap_ule A x y = (uval x \<le> uval y)"
begin

lemmas bool_laws = is_null is_one
lemmas arith_laws = add sub mul neg
lemmas shift_laws = shl lshr ashr rotl_width rotr_width

lemma no_high_bits: "ap_width A x \<le> n \<Longrightarrow> \<not> bit (uval x) n"
  using bit_of_small uval_nonneg uval_less by blast

lemma uval_eq_iff_bits:
  assumes "ap_width A x = ap_width A y"
  shows "uval x = uval y \<longleftrightarrow> (\<forall>n < ap_width A y. bit (uval x) n = bit (uval y) n)"
  using small_int_eq_iff_bits[of "uval x" "ap_width A y" "uval y"] uval_nonneg uval_less assms
  by metis

lemma take_bit_uval [simp]: "take_bit (ap_width A x) (uval x) = uval x"
  by (simp add: take_bit_int_eq_self uval_nonneg uval_less)

lemma bit_not_bits: "bit (uval (ap_not A x)) n \<longleftrightarrow> n < ap_width A x \<and> \<not> bit (uval x) n"
  by (simp add: bit_not bit_take_bit_iff bit_not_iff)

lemma not_width: "ap_width A (ap_not A x) = ap_width A x"
  by (simp add: bit_not)

lemma width_laws:
  "ap_width A x = ap_width A y \<Longrightarrow> ap_width A (ap_and A x y) = ap_width A y"
  "ap_width A x = ap_width A y \<Longrightarrow> ap_width A (ap_or A x y) = ap_width A y"
  "ap_width A x = ap_width A y \<Longrightarrow> ap_width A (ap_xor A x y) = ap_width A y"
  "ap_width A (ap_not A x) = ap_width A x"
  by (simp_all add: bit_and bit_or bit_xor bit_not)

text \<open>Rewriting to single bits; the law of the complement stays folded until its bits are asked for.\<close>

lemmas bit_laws = bit_not_bits not_width bit_and bit_or bit_xor
  bit_and_iff bit_or_iff bit_xor_iff and_eq_iff_bits

lemma make_zero: "0 < n \<Longrightarrow> ap_width A (ap_make A n 0 s) = n \<and> uval (ap_make A n 0 s) = 0"
  by (simp add: make)

lemma make_one: "0 < n \<Longrightarrow> ap_width A (ap_make A n 1 s) = n \<and> uval (ap_make A n 1 s) = 1"
  by (cases n) (simp_all add: make)

lemma signed_value_bits:
  "n < ap_width A x \<Longrightarrow> bit (signed_value (ap_width A x) (uval x)) n = bit (uval x) n"
  by (cases "n = ap_width A x - 1") (auto simp: signed_value_def bit_signed_take_bit_iff min_def)

lemma signed_value_high_bits:
  "ap_width A x \<le> n \<Longrightarrow> bit (signed_value (ap_width A x) (uval x)) n = bit (uval x) (ap_width A x - 1)"
  using width_pos[of x] by (auto simp: signed_value_def bit_signed_take_bit_iff min_def)

text \<open>The mask \<open>(1 << b) - 1\<close>: its bits below \<open>b\<close> are set, also when \<open>b\<close> exceeds the width.\<close>

lemma low_mask_bits:
  assumes "0 < w"
  shows "bit (uval (ap_sub A (ap_shl A (ap_make A w 1 True) b) (ap_make A w 1 True))) n
    \<longleftrightarrow> n < w \<and> n < nat (uval b)"
proof -
  have "uval (ap_sub A (ap_shl A (ap_make A w 1 True) b) (ap_make A w 1 True))
      = take_bit w (take_bit w (2 ^ nat (uval b)) - 1)"
    using make_one[OF assms] by (simp add: sub shl push_bit_eq_mult)
  also have "\<dots> = take_bit w (2 ^ nat (uval b) - 1)"
    by (metis take_bit_diff take_bit_take_bit min.idem)
  also have "\<dots> = take_bit w (mask (nat (uval b)))"
    by (simp add: mask_eq_exp_minus_1)
  finally show ?thesis
    by (simp add: bit_take_bit_iff bit_mask_iff)
qed

lemma low_mask_width:
  "0 < w \<Longrightarrow> ap_width A (ap_sub A (ap_shl A (ap_make A w 1 True) b) (ap_make A w 1 True)) = w"
  using make_one[of w True] by (simp add: sub shl)

end

subsection \<open>An instance\<close>

text \<open>A width and an integer; the value is the integer cut to the width (widths count from 1).\<close>

datatype bv = BV nat int

fun bv_width :: "bv \<Rightarrow> nat" where
  "bv_width (BV w v) = Suc w"

fun bv_uval :: "bv \<Rightarrow> int" where
  "bv_uval (BV w v) = take_bit (Suc w) v"

definition bv_of :: "nat \<Rightarrow> int \<Rightarrow> bv" where
  "bv_of n v = BV (n - 1) (take_bit n v)"

definition bv_sval :: "bv \<Rightarrow> int" where
  "bv_sval x = signed_value (bv_width x) (bv_uval x)"

definition bv_rotate :: "nat \<Rightarrow> bv \<Rightarrow> bv" where
  "bv_rotate r x = (let w = bv_width x in
     bv_of w (drop_bit r (bv_uval x) OR push_bit (w - r) (bv_uval x)))"

definition bv_ops :: "bv apint_ops" where
  "bv_ops = \<lparr>
     ap_width = bv_width,
     ap_make = (\<lambda>n v s. bv_of n (if s then sint v else uint v)),
     ap_eq = (\<lambda>x y. bv_uval x = bv_uval y),
     ap_is_null = (\<lambda>x. bv_uval x = 0),
     ap_is_one = (\<lambda>x. bv_uval x = 1),
     ap_not = (\<lambda>x. bv_of (bv_width x) (NOT (bv_uval x))),
     ap_neg = (\<lambda>x. bv_of (bv_width x) (- bv_uval x)),
     ap_and = (\<lambda>x y. bv_of (bv_width x) (bv_uval x AND bv_uval y)),
     ap_or = (\<lambda>x y. bv_of (bv_width x) (bv_uval x OR bv_uval y)),
     ap_xor = (\<lambda>x y. bv_of (bv_width x) (bv_uval x XOR bv_uval y)),
     ap_add = (\<lambda>x y. bv_of (bv_width x) (bv_uval x + bv_uval y)),
     ap_sub = (\<lambda>x y. bv_of (bv_width x) (bv_uval x - bv_uval y)),
     ap_mul = (\<lambda>x y. bv_of (bv_width x) (bv_uval x * bv_uval y)),
     ap_udiv = (\<lambda>x y. bv_of (bv_width x) (bv_uval x div bv_uval y)),
     ap_sdiv = (\<lambda>x y. bv_of (bv_width x) (bv_sval x sdiv bv_sval y)),
     ap_sextOrTrunc = (\<lambda>n x. bv_of n (bv_sval x)),
     ap_zextOrTrunc = (\<lambda>n x. bv_of n (bv_uval x)),
     ap_sext = (\<lambda>n x. bv_of n (bv_sval x)),
     ap_zext = (\<lambda>n x. bv_of n (bv_uval x)),
     ap_trunc = (\<lambda>n x. bv_of n (bv_uval x)),
     ap_getSExtValue = (\<lambda>x. word_of_int (bv_sval x)),
     ap_getZExtValue = (\<lambda>x. word_of_int (bv_uval x)),
     ap_uadd_ov = (\<lambda>x y. 2 ^ bv_width x \<le> bv_uval x + bv_uval y),
     ap_umul_ov = (\<lambda>x y. 2 ^ bv_width x \<le> bv_uval x * bv_uval y),
     ap_sadd_ov = (\<lambda>x y. bv_sval x + bv_sval y < - (2 ^ (bv_width x - 1)) \<or>
       2 ^ (bv_width x - 1) \<le> bv_sval x + bv_sval y),
     ap_shl = (\<lambda>x y. bv_of (bv_width x) (push_bit (nat (bv_uval y)) (bv_uval x))),
     ap_lshr = (\<lambda>x y. bv_of (bv_width x) (drop_bit (nat (bv_uval y)) (bv_uval x))),
     ap_ashr = (\<lambda>x y. bv_of (bv_width x) (drop_bit (nat (bv_uval y)) (bv_sval x))),
     ap_rotl = (\<lambda>x y. bv_rotate (bv_width x - nat (bv_uval y) mod bv_width x) x),
     ap_rotr = (\<lambda>x y. bv_rotate (nat (bv_uval y) mod bv_width x) x),
     ap_slt = (\<lambda>x y. bv_sval x < bv_sval y),
     ap_ult = (\<lambda>x y. bv_uval x < bv_uval y),
     ap_sle = (\<lambda>x y. bv_sval x \<le> bv_sval y),
     ap_ule = (\<lambda>x y. bv_uval x \<le> bv_uval y)\<rparr>"

lemma bv_of_width [simp]: "0 < n \<Longrightarrow> bv_width (bv_of n v) = n"
  by (simp add: bv_of_def)

lemma bv_of_uval [simp]: "0 < n \<Longrightarrow> bv_uval (bv_of n v) = take_bit n v"
  by (simp add: bv_of_def)

lemma bv_width_pos [simp]: "0 < bv_width x"
  by (cases x) simp

lemma bv_uval_bounds [simp]: "0 \<le> bv_uval x" "bv_uval x < 2 ^ bv_width x"
  by (cases x; simp del: power_Suc)+

lemma bv_take_bit [simp]: "take_bit (bv_width x) (bv_uval x) = bv_uval x"
  by (simp add: take_bit_int_eq_self)

lemma bv_no_high_bits: "bv_width x \<le> n \<Longrightarrow> \<not> bit (bv_uval x) n"
  by (rule bit_of_small) simp_all

lemma bv_rotate_bits:
  assumes "n < bv_width x" "r \<le> bv_width x"
  shows "bit (bv_uval (bv_rotate r x)) n = bit (bv_uval x) ((n + r) mod bv_width x)"
proof -
  let ?w = "bv_width x"
  have *: "bit (bv_uval (bv_rotate r x)) n \<longleftrightarrow>
      bit (bv_uval x) (n + r) \<or> (?w - r \<le> n \<and> bit (bv_uval x) (n - (?w - r)))"
    using assms(1) by (simp add: bv_rotate_def Let_def bit_take_bit_iff bit_or_iff
        bit_drop_bit_eq bit_push_bit_iff add.commute)
  show ?thesis
  proof (cases "n + r < ?w")
    case True
    then show ?thesis using * by auto
  next
    case False
    then have "(n + r) mod ?w = n - (?w - r)"
      using assms by (simp add: mod_if)
    then show ?thesis using * False bv_no_high_bits[of x "n + r"] by auto
  qed
qed

lemma bv_rotate_width [simp]: "bv_width (bv_rotate r x) = bv_width x"
  by (simp add: bv_rotate_def Let_def)


lemma bv_take_bit_eq: "bv_width x = bv_width y \<Longrightarrow> take_bit (bv_width y) (bv_uval x) = bv_uval x"
  by (metis bv_take_bit)

lemma bv_div_less: "bv_width x = bv_width y \<Longrightarrow> bv_uval y \<noteq> 0 \<Longrightarrow> take_bit (bv_width y) (bv_uval x div bv_uval y) = bv_uval x div bv_uval y"
proof -
  assume w: "bv_width x = bv_width y" and "bv_uval y \<noteq> 0"
  then have y: "0 < bv_uval y" by (simp add: less_le)
  then have "bv_uval x div bv_uval y \<le> bv_uval x"
    using zdiv_mono2 [of "bv_uval x" 1 "bv_uval y"] by simp
  then have "bv_uval x div bv_uval y < 2 ^ bv_width x"
    by (rule le_less_trans) simp
  then have "bv_uval x div bv_uval y < 2 ^ bv_width y" using w by simp
  moreover have "0 \<le> bv_uval x div bv_uval y"
    using y by (simp add: pos_imp_zdiv_nonneg_iff)
  ultimately show ?thesis by (simp add: take_bit_int_eq_self)
qed

lemma bv_zext_id:
  assumes "bv_width x < n"
  shows "take_bit n (bv_uval x) = bv_uval x"
proof -
  have "(2::int) ^ bv_width x < 2 ^ n" using assms by simp
  then have "bv_uval x < 2 ^ n" by (rule less_trans [rotated]) simp
  then show ?thesis by (simp add: take_bit_int_eq_self)
qed

lemma bv_drop_less: "take_bit (bv_width x) (drop_bit n (bv_uval x)) = drop_bit n (bv_uval x)"
  by (rule bit_eqI) (auto simp: bit_take_bit_iff bit_drop_bit_eq bv_no_high_bits dest: add_leD1
      intro: ccontr)

interpretation bv: apint bv_ops bv_uval
  by unfold_locales (auto simp: bv_ops_def bv_sval_def bv_rotate_bits bv_take_bit_eq
      bv_div_less bv_drop_less bv_zext_id Let_def)

end
