(* ===== verification/Types.thy ===== *)
theory Types
  imports Prelude
begin

text \<open>
  The value types and condition codes of the IR (\<^verbatim>\<open>core/type.cpp\<close>, \<^verbatim>\<open>core/cond.cpp\<close>)
  and the attributes of global symbols the analyses read (\<^verbatim>\<open>core/global.cpp\<close>).
  A \<^verbatim>\<open>Type\<close>, a \<^verbatim>\<open>Cond\<close> and a \<^verbatim>\<open>Visibility\<close> are datatypes with the source's constructors;
  conditions carry the prefix \<open>C_\<close>.
\<close>

subsection \<open>Types\<close>

datatype ty = I8 | I16 | I32 | I64 | V64 | I128 | F32 | F64 | F80 | F128

fun IsIntegerType :: "ty \<Rightarrow> bool" where
  "IsIntegerType F32 = False"
| "IsIntegerType F64 = False"
| "IsIntegerType F80 = False"
| "IsIntegerType F128 = False"
| "IsIntegerType I8 = True"
| "IsIntegerType I16 = True"
| "IsIntegerType I32 = True"
| "IsIntegerType I64 = True"
| "IsIntegerType V64 = True"
| "IsIntegerType I128 = True"

fun IsPointerType :: "ty \<Rightarrow> bool" where
  "IsPointerType F32 = False"
| "IsPointerType F64 = False"
| "IsPointerType F80 = False"
| "IsPointerType F128 = False"
| "IsPointerType I8 = False"
| "IsPointerType I16 = False"
| "IsPointerType I32 = False"
| "IsPointerType I128 = False"
| "IsPointerType I64 = True"
| "IsPointerType V64 = True"

definition IsFloatType :: "ty \<Rightarrow> bool" where
  "IsFloatType t = (\<not> IsIntegerType t)"

fun GetSize :: "ty \<Rightarrow> nat" where
  "GetSize F32 = 4"
| "GetSize F64 = 8"
| "GetSize F80 = 10"
| "GetSize F128 = 16"
| "GetSize I8 = 1"
| "GetSize I16 = 2"
| "GetSize I32 = 4"
| "GetSize I64 = 8"
| "GetSize V64 = 8"
| "GetSize I128 = 16"

definition GetBitWidth :: "ty \<Rightarrow> nat" where
  "GetBitWidth t = GetSize t * 8"

fun GetAlignment :: "ty \<Rightarrow> nat" where
  "GetAlignment I8 = 1"
| "GetAlignment I16 = 2"
| "GetAlignment I32 = 4"
| "GetAlignment I64 = 8"
| "GetAlignment V64 = 8"
| "GetAlignment I128 = 16"
| "GetAlignment F32 = 4"
| "GetAlignment F64 = 8"
| "GetAlignment F80 = 1"
| "GetAlignment F128 = 16"

fun show_type :: "ty \<Rightarrow> string" where
  "show_type I8 = ''i8''"
| "show_type I16 = ''i16''"
| "show_type I32 = ''i32''"
| "show_type I64 = ''i64''"
| "show_type V64 = ''v64''"
| "show_type I128 = ''i128''"
| "show_type F32 = ''f32''"
| "show_type F64 = ''f64''"
| "show_type F80 = ''f80''"
| "show_type F128 = ''f128''"

lemma GetSize_pos [simp]: "0 < GetSize t"
  by (cases t) simp_all

lemma GetBitWidth_pos [simp]: "0 < GetBitWidth t"
  by (simp add: GetBitWidth_def)

lemma GetBitWidth_simps [simp]:
  "GetBitWidth I8 = 8" "GetBitWidth I16 = 16" "GetBitWidth I32 = 32" "GetBitWidth I64 = 64"
  "GetBitWidth V64 = 64" "GetBitWidth I128 = 128"
  "GetBitWidth F32 = 32" "GetBitWidth F64 = 64" "GetBitWidth F80 = 80" "GetBitWidth F128 = 128"
  by (simp_all add: GetBitWidth_def)

lemma pointer_type_width: "IsPointerType t \<Longrightarrow> IsIntegerType t \<and> GetBitWidth t = 64"
  by (cases t) simp_all

lemma alignment_divides_size: "t \<noteq> F80 \<Longrightarrow> GetAlignment t = GetSize t"
  by (cases t) simp_all

subsection \<open>Type flags\<close>

text \<open>
  A \<^verbatim>\<open>TypeFlag\<close> is a kind with two 16-bit fields, \<open>size_\<close> and \<open>align_\<close>, which only \<^verbatim>\<open>GetByVal\<close>
  writes; the kinds that leave them unset carry no fields here. \<^verbatim>\<open>operator==\<close> ignores both.
\<close>

datatype type_flag = FlagNone | FlagByVal "16 word" "16 word" | FlagSExt | FlagZExt

definition GetByVal :: "nat \<Rightarrow> nat \<Rightarrow> type_flag" where
  "GetByVal sz al = FlagByVal (word_of_nat sz) (word_of_nat al)"

fun GetByValSize :: "type_flag \<Rightarrow> nat result" where
  "GetByValSize (FlagByVal sz al) = returns (unat sz)"
| "GetByValSize _ = Inl AssertFailed"

fun GetByValAlign :: "type_flag \<Rightarrow> nat result" where
  "GetByValAlign (FlagByVal sz al) = returns (unat al)"
| "GetByValAlign _ = Inl AssertFailed"

definition flag_eq :: "type_flag \<Rightarrow> type_flag \<Rightarrow> bool" where
  "flag_eq a b = True"

record flagged_type =
  ft_type :: ty
  ft_flag :: type_flag

definition flagged_type_eq :: "flagged_type \<Rightarrow> flagged_type \<Rightarrow> bool" where
  "flagged_type_eq a b = (ft_type a = ft_type b \<and> flag_eq (ft_flag a) (ft_flag b))"

subsection \<open>Condition codes\<close>

datatype cond =
    C_EQ | C_OEQ | C_UEQ
  | C_NE | C_ONE | C_UNE
  | C_LT | C_OLT | C_ULT
  | C_GT | C_OGT | C_UGT
  | C_LE | C_OLE | C_ULE
  | C_GE | C_OGE | C_UGE
  | C_O | C_UO

fun show_cond :: "cond \<Rightarrow> string" where
  "show_cond C_EQ = ''eq''"
| "show_cond C_OEQ = ''oeq''"
| "show_cond C_UEQ = ''ueq''"
| "show_cond C_NE = ''ne''"
| "show_cond C_ONE = ''one''"
| "show_cond C_UNE = ''une''"
| "show_cond C_LT = ''lt''"
| "show_cond C_OLT = ''olt''"
| "show_cond C_ULT = ''ult''"
| "show_cond C_GT = ''gt''"
| "show_cond C_OGT = ''ogt''"
| "show_cond C_UGT = ''ugt''"
| "show_cond C_LE = ''le''"
| "show_cond C_OLE = ''ole''"
| "show_cond C_ULE = ''ule''"
| "show_cond C_GE = ''ge''"
| "show_cond C_OGE = ''oge''"
| "show_cond C_UGE = ''uge''"
| "show_cond C_O = ''o''"
| "show_cond C_UO = ''uo''"

fun GetInverseCond :: "cond \<Rightarrow> cond" where
  "GetInverseCond C_EQ = C_NE"
| "GetInverseCond C_OEQ = C_ONE"
| "GetInverseCond C_UEQ = C_UNE"
| "GetInverseCond C_NE = C_EQ"
| "GetInverseCond C_ONE = C_OEQ"
| "GetInverseCond C_UNE = C_OEQ"
| "GetInverseCond C_LT = C_GE"
| "GetInverseCond C_OLT = C_OGE"
| "GetInverseCond C_ULT = C_UGE"
| "GetInverseCond C_GT = C_LE"
| "GetInverseCond C_OGT = C_OLE"
| "GetInverseCond C_UGT = C_ULE"
| "GetInverseCond C_LE = C_GT"
| "GetInverseCond C_OLE = C_OGT"
| "GetInverseCond C_ULE = C_UGT"
| "GetInverseCond C_GE = C_LT"
| "GetInverseCond C_OGE = C_OLT"
| "GetInverseCond C_UGE = C_ULT"
| "GetInverseCond C_O = C_UO"
| "GetInverseCond C_UO = C_O"

fun IsOrdered :: "cond \<Rightarrow> bool" where
  "IsOrdered C_OEQ = True"
| "IsOrdered C_ONE = True"
| "IsOrdered C_OLT = True"
| "IsOrdered C_OGT = True"
| "IsOrdered C_OLE = True"
| "IsOrdered C_OGE = True"
| "IsOrdered C_O = True"
| "IsOrdered C_EQ = False"
| "IsOrdered C_UEQ = False"
| "IsOrdered C_NE = False"
| "IsOrdered C_UNE = False"
| "IsOrdered C_LT = False"
| "IsOrdered C_ULT = False"
| "IsOrdered C_GT = False"
| "IsOrdered C_UGT = False"
| "IsOrdered C_LE = False"
| "IsOrdered C_ULE = False"
| "IsOrdered C_GE = False"
| "IsOrdered C_UGE = False"
| "IsOrdered C_UO = False"

fun IsEquality :: "cond \<Rightarrow> bool" where
  "IsEquality C_EQ = True"
| "IsEquality C_UEQ = True"
| "IsEquality C_OEQ = True"
| "IsEquality C_NE = True"
| "IsEquality C_UNE = True"
| "IsEquality C_ONE = True"
| "IsEquality C_OLT = False"
| "IsEquality C_OGT = False"
| "IsEquality C_OLE = False"
| "IsEquality C_OGE = False"
| "IsEquality C_O = False"
| "IsEquality C_LT = False"
| "IsEquality C_ULT = False"
| "IsEquality C_GT = False"
| "IsEquality C_UGT = False"
| "IsEquality C_LE = False"
| "IsEquality C_ULE = False"
| "IsEquality C_GE = False"
| "IsEquality C_UGE = False"
| "IsEquality C_UO = False"

lemma IsEquality_inverse [simp]: "IsEquality (GetInverseCond cc) = IsEquality cc"
  by (cases cc) simp_all

lemma GetInverseCond_involutive: "cc \<noteq> C_UEQ \<Longrightarrow> cc \<noteq> C_UNE \<Longrightarrow> GetInverseCond (GetInverseCond cc) = cc"
  by (cases cc) simp_all

subsection \<open>Global symbols\<close>

datatype visibility = Vis_LOCAL | Vis_GLOBAL_DEFAULT | Vis_GLOBAL_HIDDEN | Vis_WEAK_DEFAULT | Vis_WEAK_HIDDEN

datatype global_kind = G_EXTERN | G_FUNC | G_BLOCK | G_ATOM

text \<open>
  A \<^verbatim>\<open>Global *\<close> is a record whose \<open>g_id\<close> stands for the address of the object: two pointers are equal
  when the records are, and the id keeps symbols with equal attributes apart. \<open>g_align\<close> is the
  result of the virtual \<^verbatim>\<open>GetAlignment\<close>.
\<close>

record global =
  g_id :: nat
  g_kind :: global_kind
  g_visibility :: visibility
  g_align :: "nat option"

definition same_global :: "global \<Rightarrow> global \<Rightarrow> bool" where
  "same_global a b = (a = b)"

definition IsRoot :: "global \<Rightarrow> bool" where
  "IsRoot g = (case g_visibility g of
     Vis_LOCAL \<Rightarrow> False | Vis_GLOBAL_HIDDEN \<Rightarrow> False | Vis_WEAK_HIDDEN \<Rightarrow> False
   | Vis_GLOBAL_DEFAULT \<Rightarrow> True | Vis_WEAK_DEFAULT \<Rightarrow> True)"

definition IsLocal :: "global \<Rightarrow> bool" where
  "IsLocal g = (case g_visibility g of
     Vis_LOCAL \<Rightarrow> True
   | Vis_GLOBAL_DEFAULT \<Rightarrow> False | Vis_GLOBAL_HIDDEN \<Rightarrow> False
   | Vis_WEAK_DEFAULT \<Rightarrow> False | Vis_WEAK_HIDDEN \<Rightarrow> False)"

definition IsWeak :: "global \<Rightarrow> bool" where
  "IsWeak g = (case g_visibility g of
     Vis_LOCAL \<Rightarrow> False | Vis_GLOBAL_DEFAULT \<Rightarrow> False | Vis_GLOBAL_HIDDEN \<Rightarrow> False
   | Vis_WEAK_DEFAULT \<Rightarrow> True | Vis_WEAK_HIDDEN \<Rightarrow> True)"

lemma local_not_root: "IsLocal g \<Longrightarrow> \<not> IsRoot g \<and> \<not> IsWeak g"
  by (simp add: IsLocal_def IsRoot_def IsWeak_def split: visibility.splits)

subsection \<open>Calling conventions\<close>

datatype calling_conv =
    CC_C
  | CC_CAML
  | CC_CAML_ALLOC
  | CC_CAML_GC
  | CC_SETJMP
  | CC_XEN
  | CC_INTR
  | CC_MULTIBOOT
  | CC_WIN64

fun show_calling_conv :: "calling_conv \<Rightarrow> string" where
  "show_calling_conv CC_C = ''c''"
| "show_calling_conv CC_CAML = ''caml''"
| "show_calling_conv CC_CAML_ALLOC = ''caml_alloc''"
| "show_calling_conv CC_CAML_GC = ''caml_gc''"
| "show_calling_conv CC_SETJMP = ''setjmp''"
| "show_calling_conv CC_XEN = ''xen''"
| "show_calling_conv CC_INTR = ''intr''"
| "show_calling_conv CC_MULTIBOOT = ''multiboot''"
| "show_calling_conv CC_WIN64 = ''win64''"

definition IsCamlCall :: "calling_conv \<Rightarrow> bool" where
  "IsCamlCall conv = (case conv of
     CC_CAML \<Rightarrow> True | CC_CAML_ALLOC \<Rightarrow> True | CC_CAML_GC \<Rightarrow> True
   | _ \<Rightarrow> False)"

end
