(* ===== verification/ApFloat.thy ===== *)
theory ApFloat
  imports ApInt Types
begin

text \<open>
  The floating point numbers of LLVM (\<^verbatim>\<open>llvm::APFloat\<close>), a parameter like \<open>ApInt\<close>: the operations
  the passes call, the laws they rely on, and an instance by the bit patterns of IEEE doubles. The
  locale \<open>numbers\<close> joins both libraries.
\<close>

datatype flt_semantics = IEEEsingle | IEEEdouble | X87DoubleExtended | IEEEquad

datatype flt_compare = CmpLessThan | CmpEqual | CmpGreaterThan | CmpUnordered

record ('i, 'f) apfloat_ops =
  af_isZero :: "'f \<Rightarrow> bool"
  af_bitwiseIsEqual :: "'f \<Rightarrow> 'f \<Rightarrow> bool"
  af_compare :: "'f \<Rightarrow> 'f \<Rightarrow> flt_compare"
  af_convert :: "flt_semantics \<Rightarrow> 'f \<Rightarrow> 'f"
  af_bitcastToAPInt :: "'f \<Rightarrow> 'i"
  af_convertToInteger :: "nat \<Rightarrow> 'f \<Rightarrow> 'i \<times> bool"

locale apfloat =
  fixes F :: "('i, 'f) apfloat_ops"
  assumes bitwise_refl: "af_bitwiseIsEqual F x x"
    and bitwise_sym: "af_bitwiseIsEqual F x y \<Longrightarrow> af_bitwiseIsEqual F y x"
    and bitwise_trans: "af_bitwiseIsEqual F x y \<Longrightarrow> af_bitwiseIsEqual F y z \<Longrightarrow> af_bitwiseIsEqual F x z"
    and bitwise_isZero: "af_bitwiseIsEqual F x y \<Longrightarrow> af_isZero F x = af_isZero F y"

locale numbers = apint A uval + apfloat F
  for A :: "'i apint_ops" and uval :: "'i \<Rightarrow> int" and F :: "('i, 'f) apfloat_ops"

subsection \<open>An instance: the bit patterns of doubles\<close>

type_synonym dbl = "64 word"

definition dbl_is_nan :: "dbl \<Rightarrow> bool" where
  "dbl_is_nan x = (0x7FF0000000000000 < take_bit 63 x)"

definition dbl_is_zero :: "dbl \<Rightarrow> bool" where
  "dbl_is_zero x = (take_bit 63 x = 0)"

text \<open>Sign and magnitude as an integer that is ordered as the doubles are.\<close>

definition dbl_rank :: "dbl \<Rightarrow> int" where
  "dbl_rank x = (if bit x 63 then - uint (take_bit 63 x) else uint (take_bit 63 x))"

definition dbl_compare :: "dbl \<Rightarrow> dbl \<Rightarrow> flt_compare" where
  "dbl_compare x y =
     (if dbl_is_nan x \<or> dbl_is_nan y then CmpUnordered
      else if dbl_rank x < dbl_rank y then CmpLessThan
      else if dbl_rank x = dbl_rank y then CmpEqual
      else CmpGreaterThan)"

text \<open>Truncation towards zero of a finite double, and whether it is exact and fits.\<close>

definition dbl_to_int :: "nat \<Rightarrow> dbl \<Rightarrow> bv \<times> bool" where
  "dbl_to_int n x =
     (let e = uint (drop_bit 52 (take_bit 63 x)) - 1075;
          m = uint (take_bit 52 x) + 2 ^ 52;
          mag = (if 0 \<le> e then m * 2 ^ nat e else m div 2 ^ nat (- e));
          exact = (0 \<le> e \<or> 2 ^ nat (- e) dvd m);
          v = (if bit x 63 then - mag else mag)
      in if dbl_is_zero x then (bv_of n 0, True)
         else (bv_of n v, exact \<and> - (2 ^ (n - 1)) \<le> v \<and> v < 2 ^ (n - 1)))"

definition dbl_ops :: "(bv, dbl) apfloat_ops" where
  "dbl_ops = \<lparr>
     af_isZero = dbl_is_zero,
     af_bitwiseIsEqual = (\<lambda>x y. x = y),
     af_compare = dbl_compare,
     af_convert = (\<lambda>_ x. x),
     af_bitcastToAPInt = (\<lambda>x. bv_of 64 (uint x)),
     af_convertToInteger = dbl_to_int\<rparr>"

interpretation dbl: apfloat dbl_ops
  by unfold_locales (simp_all add: dbl_ops_def)

interpretation bvdbl: numbers bv_ops bv_uval dbl_ops
  by unfold_locales

end
