(* ===== verification/SccpLattice.thy ===== *)
theory SccpLattice
  imports ApFloat
begin

text \<open>
  The lattice of sparse conditional constant propagation (\<^verbatim>\<open>passes/sccp/lattice.cpp\<close>): its values,
  equality, the least upper bound, and the truth tests of conditional jumps. \<open>in_gamma\<close> says which
  machine values a lattice value stands for under an environment that places the stack objects and
  the global symbols; the lemmas show that the bound over-approximates both of its arguments, where
  it does not, and that it climbs.
\<close>

subsection \<open>Lattice values\<close>

datatype ('i, 'f) lattice =
    IsUnknown: LUnknown
  | IsOverdefined: LOverdefined
  | IsInt: LInt (GetInt: 'i)
  | IsMask: LMask (GetKnown: 'i) (GetValue: 'i)
  | IsFloat: LFloat (GetFloat: 'f)
  | IsFloatZero: LFloatZero
  | IsFrame: LFrame (GetFrameObject: nat) (GetFrameOffset: "64 word")
  | IsGlobal: LGlobal (GetGlobalSymbol: global) (GetGlobalOffset: "64 word")
  | IsPointer: LPointer
  | IsRange: LRange (GetRange: global)
  | IsUndefined: LUndefined

definition IsPointerLike :: "('i, 'f) lattice \<Rightarrow> bool" where
  "IsPointerLike l = (IsPointer l \<or> IsFrame l \<or> IsGlobal l)"

fun AsInt :: "('i, 'f) lattice \<Rightarrow> 'i option" where
  "AsInt (LInt i) = Some i"
| "AsInt _ = None"

fun AsFloat :: "('i, 'f) lattice \<Rightarrow> 'f option" where
  "AsFloat (LFloat f) = Some f"
| "AsFloat _ = None"

definition CreateInteger64 :: "'i apint_ops \<Rightarrow> 64 word \<Rightarrow> ('i, 'f) lattice" where
  "CreateInteger64 A i = LInt (ap_make A 64 i True)"

fun IsTrue :: "'i apint_ops \<Rightarrow> ('i, 'f) apfloat_ops \<Rightarrow> ('i, 'f) lattice \<Rightarrow> bool result" where
  "IsTrue A F (LInt i) = returns (\<not> ap_is_null A i)"
| "IsTrue A F (LFloat f) = returns (\<not> af_isZero F f)"
| "IsTrue A F (LMask k v) = returns (\<not> ap_is_null A (ap_and A k v))"
| "IsTrue A F (LFrame _ _) = returns True"
| "IsTrue A F (LGlobal _ _) = returns True"
| "IsTrue A F LPointer = returns True"
| "IsTrue A F (LRange _) = returns True"
| "IsTrue A F LUndefined = returns False"
| "IsTrue A F LOverdefined = returns False"
| "IsTrue A F LFloatZero = returns False"
| "IsTrue A F LUnknown = unreachable"

fun IsFalse :: "'i apint_ops \<Rightarrow> ('i, 'f) apfloat_ops \<Rightarrow> ('i, 'f) lattice \<Rightarrow> bool result" where
  "IsFalse A F (LInt i) = returns (ap_is_null A i)"
| "IsFalse A F (LFloat f) = returns (af_isZero F f)"
| "IsFalse A F LFloatZero = returns True"
| "IsFalse A F (LFrame _ _) = returns False"
| "IsFalse A F (LGlobal _ _) = returns False"
| "IsFalse A F LPointer = returns False"
| "IsFalse A F (LMask _ _) = returns False"
| "IsFalse A F (LRange _) = returns False"
| "IsFalse A F LUndefined = returns False"
| "IsFalse A F LOverdefined = returns False"
| "IsFalse A F LUnknown = unreachable"

definition lattice_eq :: "'i apint_ops \<Rightarrow> ('i, 'f) apfloat_ops \<Rightarrow>
    ('i, 'f) lattice \<Rightarrow> ('i, 'f) lattice \<Rightarrow> bool" where
  "lattice_eq A F a b =
     (case a of
        LUnknown \<Rightarrow> IsUnknown b
      | LUndefined \<Rightarrow> IsUndefined b
      | LOverdefined \<Rightarrow> IsOverdefined b
      | LPointer \<Rightarrow> IsPointer b
      | LFloatZero \<Rightarrow> IsFloatZero b
      | LMask ka va \<Rightarrow> IsMask b \<and> ap_eq A ka (GetKnown b) \<and> ap_eq A va (GetValue b)
      | LInt i \<Rightarrow> IsInt b \<and> ap_eq A i (GetInt b)
      | LFloat f \<Rightarrow> IsFloat b \<and> af_bitwiseIsEqual F f (GetFloat b)
      | LFrame obj off \<Rightarrow> IsFrame b \<and> obj = GetFrameObject b \<and> off = GetFrameOffset b
      | LGlobal g off \<Rightarrow> IsGlobal b \<and> same_global g (GetGlobalSymbol b) \<and> off = GetGlobalOffset b
      | LRange g \<Rightarrow> IsRange b \<and> same_global g (GetRange b))"

text \<open>The weak symbol whose address may be null, tested on one of the arguments of the bound.\<close>

definition may_be_null :: "('i, 'f) lattice \<Rightarrow> bool" where
  "may_be_null l = (IsWeak (GetGlobalSymbol l) \<and> GetGlobalOffset l = 0)"

definition LUB :: "'i apint_ops \<Rightarrow> ('i, 'f) apfloat_ops \<Rightarrow>
    ('i, 'f) lattice \<Rightarrow> ('i, 'f) lattice \<Rightarrow> ('i, 'f) lattice" where
  "LUB A F a b =
     (if lattice_eq A F a b then a
      else if IsUnknown b then a
      else if IsUnknown a then b
      else if IsUndefined b then a
      else if IsUndefined a then b
      else if IsInt a \<and> IsInt b then
        (let m = ap_not A (ap_xor A (GetInt a) (GetInt b))
         in if \<not> ap_is_null A m then LMask m (ap_and A (GetInt a) (GetInt b)) else LOverdefined)
      else if IsMask a \<and> IsMask b then
        (let m = ap_and A (ap_and A (GetKnown a) (GetKnown b))
                   (ap_not A (ap_xor A (GetValue b) (GetValue a)))
         in if \<not> ap_is_null A m then LMask m (ap_and A m (GetValue a)) else LOverdefined)
      else if IsInt a \<and> IsMask b then
        (let m = ap_and A (ap_not A (ap_xor A (GetValue b) (GetInt a))) (GetKnown b)
         in if \<not> ap_is_null A m then LMask m (ap_and A m (GetValue b)) else LOverdefined)
      else if IsMask a \<and> IsInt b then
        (let m = ap_and A (ap_not A (ap_xor A (GetValue a) (GetInt b))) (GetKnown a)
         in if \<not> ap_is_null A m then LMask m (ap_and A m (GetValue a)) else LOverdefined)
      else if IsFrame a \<and> IsFrame b then LPointer
      else if IsGlobal a \<and> IsPointerLike b then
        (if may_be_null a then LOverdefined else LPointer)
      else if IsPointerLike a \<and> IsGlobal b then
        (if may_be_null b then LOverdefined else LPointer)
      else if IsPointerLike a \<and> IsPointerLike b then LPointer
      else LOverdefined)"


subsection \<open>What a lattice value stands for\<close>

text \<open>
  A register holds an integer or a float. An environment gives each stack object and each symbol its
  address and says which offsets stay inside of it.
\<close>

datatype ('i, 'f) machine_val = VInt 'i | VFloat 'f

record mem_env =
  frame_base :: "nat \<Rightarrow> int"
  frame_valid :: "nat \<Rightarrow> int \<Rightarrow> bool"
  glob_base :: "global \<Rightarrow> int"
  glob_valid :: "global \<Rightarrow> int \<Rightarrow> bool"

definition frame_addr :: "mem_env \<Rightarrow> nat \<Rightarrow> int \<Rightarrow> int" where
  "frame_addr E obj off = take_bit 64 (frame_base E obj + off)"

definition glob_addr :: "mem_env \<Rightarrow> global \<Rightarrow> int \<Rightarrow> int" where
  "glob_addr E g off = take_bit 64 (glob_base E g + off)"

text \<open>Addresses inside an object are not null, except that of an undefined weak symbol.\<close>

definition env_ok :: "mem_env \<Rightarrow> bool" where
  "env_ok E \<longleftrightarrow>
     (\<forall>obj off. frame_valid E obj off \<longrightarrow> frame_addr E obj off \<noteq> 0) \<and>
     (\<forall>g off. glob_valid E g off \<and> \<not> (IsWeak g \<and> off = 0) \<longrightarrow> glob_addr E g off \<noteq> 0)"

definition in_gamma :: "'i apint_ops \<Rightarrow> ('i \<Rightarrow> int) \<Rightarrow> ('i, 'f) apfloat_ops \<Rightarrow> mem_env \<Rightarrow>
    ('i, 'f) lattice \<Rightarrow> ('i, 'f) machine_val \<Rightarrow> bool" where
  "in_gamma A uval F E l v =
     (case l of
        LUnknown \<Rightarrow> False
      | LUndefined \<Rightarrow> False
      | LOverdefined \<Rightarrow> True
      | LInt i \<Rightarrow> (\<exists>x. v = VInt x \<and> ap_width A x = ap_width A i \<and> uval x = uval i)
      | LMask k m \<Rightarrow> (\<exists>x. v = VInt x \<and> ap_width A x = ap_width A k \<and>
          uval x AND uval k = uval m AND uval k)
      | LFloat f \<Rightarrow> (\<exists>x. v = VFloat x \<and> af_bitwiseIsEqual F x f)
      | LFloatZero \<Rightarrow> (\<exists>x. v = VFloat x \<and> af_isZero F x)
      | LFrame obj off \<Rightarrow> (\<exists>x. v = VInt x \<and> ap_width A x = 64 \<and>
          frame_valid E obj (sint off) \<and> uval x = frame_addr E obj (sint off))
      | LGlobal g off \<Rightarrow> (\<exists>x. v = VInt x \<and> ap_width A x = 64 \<and>
          glob_valid E g (sint off) \<and> uval x = glob_addr E g (sint off))
      | LPointer \<Rightarrow> (\<exists>x. v = VInt x \<and> ap_width A x = 64 \<and> uval x \<noteq> 0)
      | LRange g \<Rightarrow> (\<exists>x off. v = VInt x \<and> ap_width A x = 64 \<and>
          glob_valid E g off \<and> uval x = glob_addr E g off))"

lemma in_gamma_simps [simp]:
  "\<not> in_gamma A uval F E LUnknown v"
  "\<not> in_gamma A uval F E LUndefined v"
  "in_gamma A uval F E LOverdefined v"
  "in_gamma A uval F E (LInt i) v \<longleftrightarrow>
     (\<exists>x. v = VInt x \<and> ap_width A x = ap_width A i \<and> uval x = uval i)"
  "in_gamma A uval F E (LMask k m) v \<longleftrightarrow> (\<exists>x. v = VInt x \<and> ap_width A x = ap_width A k \<and>
     uval x AND uval k = uval m AND uval k)"
  "in_gamma A uval F E (LFloat f) v \<longleftrightarrow> (\<exists>y. v = VFloat y \<and> af_bitwiseIsEqual F y f)"
  "in_gamma A uval F E LFloatZero v \<longleftrightarrow> (\<exists>y. v = VFloat y \<and> af_isZero F y)"
  "in_gamma A uval F E (LFrame obj off) v \<longleftrightarrow> (\<exists>x. v = VInt x \<and> ap_width A x = 64 \<and>
     frame_valid E obj (sint off) \<and> uval x = frame_addr E obj (sint off))"
  "in_gamma A uval F E (LGlobal g off) v \<longleftrightarrow> (\<exists>x. v = VInt x \<and> ap_width A x = 64 \<and>
     glob_valid E g (sint off) \<and> uval x = glob_addr E g (sint off))"
  "in_gamma A uval F E LPointer v \<longleftrightarrow> (\<exists>x. v = VInt x \<and> ap_width A x = 64 \<and> uval x \<noteq> 0)"
  "in_gamma A uval F E (LRange g) v \<longleftrightarrow> (\<exists>x off'. v = VInt x \<and> ap_width A x = 64 \<and>
     glob_valid E g off' \<and> uval x = glob_addr E g off')"
  by (auto simp: in_gamma_def)

text \<open>
  The widths the C++ asserts: the two halves of a mask agree, a mask's value lies under its known
  bits, and two integral arguments of the bound agree.
\<close>

fun wf_lattice :: "'i apint_ops \<Rightarrow> ('i \<Rightarrow> int) \<Rightarrow> ('i, 'f) lattice \<Rightarrow> bool" where
  "wf_lattice A uval (LMask k m) = (ap_width A k = ap_width A m \<and> uval m AND uval k = uval m)"
| "wf_lattice A uval _ = True"

fun int_width :: "'i apint_ops \<Rightarrow> ('i, 'f) lattice \<Rightarrow> nat option" where
  "int_width A (LInt i) = Some (ap_width A i)"
| "int_width A (LMask k m) = Some (ap_width A k)"
| "int_width A _ = None"

definition same_width :: "'i apint_ops \<Rightarrow> ('i, 'f) lattice \<Rightarrow> ('i, 'f) lattice \<Rightarrow> bool" where
  "same_width A a b \<longleftrightarrow>
     (case (int_width A a, int_width A b) of (Some m, Some n) \<Rightarrow> m = n | _ \<Rightarrow> True)"

text \<open>The pairs on which the first test of a symbol hides that the second may be null.\<close>

definition hides_null :: "('i, 'f) lattice \<Rightarrow> ('i, 'f) lattice \<Rightarrow> bool" where
  "hides_null a b \<longleftrightarrow> IsGlobal a \<and> \<not> may_be_null a \<and> IsGlobal b \<and> may_be_null b"

subsection \<open>The bound over-approximates\<close>

context numbers
begin

lemma lattice_eq_gamma:
  assumes "lattice_eq A F a b" "same_width A a b" "wf_lattice A uval a" "wf_lattice A uval b"
  shows "in_gamma A uval F E a v = in_gamma A uval F E b v"
proof (cases a)
  case (LFloat f)
  then show ?thesis using assms
    by (cases b) (auto simp: lattice_eq_def intro: bitwise_trans bitwise_sym)
next
  case (LMask k m)
  then show ?thesis using assms by (cases b) (auto simp: lattice_eq_def same_width_def eq)
next
  case (LInt i)
  then show ?thesis using assms by (cases b) (auto simp: lattice_eq_def same_width_def eq)
qed (use assms in \<open>cases b; auto simp: lattice_eq_def same_global_def glob_addr_def\<close>)+

text \<open>The four bounds of integers and masks.\<close>

lemma agree_int_int:
  assumes "ap_width A l = ap_width A r" "ap_width A x = ap_width A r" "uval x = uval l \<or> uval x = uval r"
  shows "uval x AND uval (ap_not A (ap_xor A l r)) = uval (ap_and A l r) AND uval (ap_not A (ap_xor A l r))"
  using assms by (auto simp: bit_laws)

lemma agree_mask_mask:
  assumes w: "ap_width A k = ap_width A k'" "ap_width A m = ap_width A k" "ap_width A m' = ap_width A k'"
    and x: "uval x AND uval k = uval m AND uval k \<or> uval x AND uval k' = uval m' AND uval k'"
  defines "j \<equiv> ap_and A (ap_and A k k') (ap_not A (ap_xor A m' m))"
  shows "uval x AND uval j = uval (ap_and A j m) AND uval j"
  using assms by (auto simp: bit_laws)

lemma agree_int_mask:
  assumes w: "ap_width A i = ap_width A k" "ap_width A m = ap_width A k"
    and x: "uval x = uval i \<or> uval x AND uval k = uval m AND uval k"
  defines "j \<equiv> ap_and A (ap_not A (ap_xor A m i)) k"
  shows "uval x AND uval j = uval (ap_and A j m) AND uval j"
  using assms by (auto simp: bit_laws)


lemma mask_gamma:
  assumes "\<And>x. v = VInt x \<Longrightarrow> ap_width A x = ap_width A j \<and> uval x AND uval j = uval m AND uval j"
    and "\<exists>x. v = VInt x"
  shows "in_gamma A uval F E (if \<not> ap_is_null A j then LMask j m else LOverdefined) v"
  using assms by auto

lemma LUB_int_sound:
  assumes ne: "\<not> lattice_eq A F a b" and w: "wf_lattice A uval a" "wf_lattice A uval b" "same_width A a b"
    and a: "IsInt a \<or> IsMask a" and b: "IsInt b \<or> IsMask b"
    and v: "in_gamma A uval F E a v \<or> in_gamma A uval F E b v"
  shows "in_gamma A uval F E (LUB A F a b) v"
proof -
  have x: "\<exists>x. v = VInt x" using a b v by (cases a; cases b) auto
  show ?thesis
  proof (cases a)
    case (LInt l)
    show ?thesis
    proof (cases b)
      case (LInt r)
      have "LUB A F a b = (if \<not> ap_is_null A (ap_not A (ap_xor A l r))
          then LMask (ap_not A (ap_xor A l r)) (ap_and A l r) else LOverdefined)"
        using ne \<open>a = LInt l\<close> LInt by (simp add: LUB_def)
      moreover have "ap_width A l = ap_width A r"
        using w(3) \<open>a = LInt l\<close> LInt by (simp add: same_width_def)
      ultimately show ?thesis
        using v x \<open>a = LInt l\<close> LInt
        by (auto intro!: mask_gamma agree_int_int simp: width_laws)
    next
      case (LMask k m)
      have "LUB A F a b = (let j = ap_and A (ap_not A (ap_xor A m l)) k in
          if \<not> ap_is_null A j then LMask j (ap_and A j m) else LOverdefined)"
        using ne LInt LMask by (simp add: LUB_def Let_def)
      moreover have "ap_width A l = ap_width A k" "ap_width A m = ap_width A k"
        using w LInt LMask by (simp_all add: same_width_def)
      ultimately show ?thesis
        using v x LInt LMask
        by (auto intro!: mask_gamma agree_int_mask simp: width_laws Let_def)
    qed (use b in auto)
  next
    case (LMask k m)
    show ?thesis
    proof (cases b)
      case (LInt r)
      have "LUB A F a b = (let j = ap_and A (ap_not A (ap_xor A m r)) k in
          if \<not> ap_is_null A j then LMask j (ap_and A j m) else LOverdefined)"
        using ne LInt LMask by (simp add: LUB_def Let_def)
      moreover have "ap_width A r = ap_width A k" "ap_width A m = ap_width A k"
        using w LInt LMask by (simp_all add: same_width_def)
      ultimately show ?thesis
        using v x LInt LMask
        by (auto intro!: mask_gamma agree_int_mask simp: width_laws Let_def)
    next
      case (LMask k' m')
      have "LUB A F a b = (let j = ap_and A (ap_and A k k') (ap_not A (ap_xor A m' m)) in
          if \<not> ap_is_null A j then LMask j (ap_and A j m) else LOverdefined)"
        using ne \<open>a = LMask k m\<close> LMask by (simp add: LUB_def Let_def)
      moreover have "ap_width A k = ap_width A k'" "ap_width A m = ap_width A k" "ap_width A m' = ap_width A k'"
        using w \<open>a = LMask k m\<close> LMask by (simp_all add: same_width_def)
      ultimately show ?thesis
        using v x \<open>a = LMask k m\<close> LMask
        by (auto intro!: mask_gamma agree_mask_mask simp: width_laws Let_def)
    qed (use b in auto)
  qed (use a in auto)
qed

lemma LUB_other:
  assumes "\<not> lattice_eq A F a b" "\<not> ((IsInt a \<or> IsMask a) \<and> (IsInt b \<or> IsMask b))"
  shows "LUB A F a b = a \<and> (IsUnknown b \<or> IsUndefined b) \<or>
    LUB A F a b = b \<and> (IsUnknown a \<or> IsUndefined a \<and> \<not> IsUnknown b) \<or>
    LUB A F a b = LPointer \<and> IsPointerLike a \<and> IsPointerLike b \<and>
      (IsGlobal a \<longrightarrow> \<not> may_be_null a) \<and> (IsGlobal b \<longrightarrow> IsGlobal a \<or> \<not> may_be_null b) \<or>
    LUB A F a b = LOverdefined"
proof -
  have *: "(IsInt a \<and> IsInt b) = False" "(IsMask a \<and> IsMask b) = False"
    "(IsInt a \<and> IsMask b) = False" "(IsMask a \<and> IsInt b) = False"
    using assms(2) by blast+
  show ?thesis
    using assms(1) unfolding LUB_def * if_False IsPointerLike_def
    by (simp only: if_False if_True simp_thms split: if_split) blast
qed

lemma pointer_like_gamma:
  assumes "IsPointerLike a" "IsGlobal a \<longrightarrow> \<not> may_be_null a" "env_ok E" "in_gamma A uval F E a v"
  shows "in_gamma A uval F E LPointer v"
  using assms by (cases a) (auto simp: IsPointerLike_def may_be_null_def env_ok_def signed_eq_0_iff)

lemma LUB_sound_aux:
  assumes wf: "wf_lattice A uval a" "wf_lattice A uval b" "same_width A a b"
    and env: "env_ok E" and nh: "\<not> hides_null a b"
    and v: "in_gamma A uval F E a v \<or> in_gamma A uval F E b v"
  shows "in_gamma A uval F E (LUB A F a b) v"
proof (cases "lattice_eq A F a b")
  case True
  then show ?thesis using v lattice_eq_gamma[OF True wf(3,1,2)] by (auto simp: LUB_def)
next
  case ne: False
  have bot: "\<not> in_gamma A uval F E l v" if "IsUnknown l \<or> IsUndefined l" for l
    using that by (cases l) auto
  show ?thesis
  proof (cases "(IsInt a \<or> IsMask a) \<and> (IsInt b \<or> IsMask b)")
    case True
    then show ?thesis using LUB_int_sound[OF ne wf] v by blast
  next
    case False
    from LUB_other[OF ne False] show ?thesis
      using v bot pointer_like_gamma env nh in_gamma_simps(3) unfolding hides_null_def by metis
  qed
qed

end

subsection \<open>The bound climbs\<close>

text \<open>
  Every strict step of the bound raises \<open>height\<close>, which is at most \<open>W + 4\<close> on values of at most \<open>W\<close>
  bits; this is what stops the propagation.
\<close>

definition unknown_bits :: "'i apint_ops \<Rightarrow> ('i \<Rightarrow> int) \<Rightarrow> 'i \<Rightarrow> nat" where
  "unknown_bits A uval k = card {n. n < ap_width A k \<and> \<not> bit (uval k) n}"

fun height :: "nat \<Rightarrow> 'i apint_ops \<Rightarrow> ('i \<Rightarrow> int) \<Rightarrow> ('i, 'f) lattice \<Rightarrow> nat" where
  "height W A uval LUnknown = 0"
| "height W A uval LUndefined = 1"
| "height W A uval (LMask k m) = 3 + unknown_bits A uval k"
| "height W A uval LPointer = 3"
| "height W A uval LOverdefined = W + 4"
| "height W A uval _ = 2"

lemma unknown_bits_le: "unknown_bits A uval k \<le> ap_width A k"
proof -
  have "card {n. n < ap_width A k \<and> \<not> bit (uval k) n} \<le> card {..<ap_width A k}"
    by (rule card_mono) auto
  then show ?thesis by (simp add: unknown_bits_def)
qed


context numbers
begin

lemma lattice_eq_refl: "lattice_eq A F a a"
  by (cases a) (auto simp: lattice_eq_def eq bitwise_refl same_global_def)

lemma mask_shrinks:
  assumes w: "ap_width A j = ap_width A k" "ap_width A m = ap_width A k"
    and sub: "\<And>n. bit (uval j) n \<Longrightarrow> bit (uval k) n" and m: "uval m AND uval k = uval m"
  shows "lattice_eq A F (LMask j (ap_and A j m)) (LMask k m) \<or>
    unknown_bits A uval k < unknown_bits A uval j"
proof (cases "uval j = uval k")
  case True
  then have "uval j AND uval m = uval m" using m by (simp add: and.commute)
  then show ?thesis using True w by (simp add: lattice_eq_def eq width_laws bit_and)
next
  case False
  then obtain n where n: "n < ap_width A k" "bit (uval j) n \<noteq> bit (uval k) n"
    using uval_eq_iff_bits[OF w(1)] by blast
  then have "{n. n < ap_width A k \<and> \<not> bit (uval k) n} \<subset> {n. n < ap_width A j \<and> \<not> bit (uval j) n}"
    using sub w(1) by auto
  then have "unknown_bits A uval k < unknown_bits A uval j"
    unfolding unknown_bits_def by (intro psubset_card_mono) auto
  then show ?thesis ..
qed

lemma LUB_climbs_aux:
  assumes wf: "wf_lattice A uval a" "wf_lattice A uval b" "same_width A a b"
    and W: "\<forall>n. int_width A a = Some n \<longrightarrow> n \<le> W"
  shows "lattice_eq A F (LUB A F a b) a \<or> height W A uval a < height W A uval (LUB A F a b)"
proof (cases "lattice_eq A F a b")
  case True
  then show ?thesis by (simp add: LUB_def lattice_eq_refl)
next
  case ne: False
  have top: "height W A uval a < W + 4" if "\<not> IsOverdefined a"
  proof (cases a)
    case (LMask k m)
    then show ?thesis using W unknown_bits_le[of A uval k] by simp
  qed (use that in auto)
  show ?thesis
  proof (cases "(IsInt a \<or> IsMask a) \<and> (IsInt b \<or> IsMask b)")
    case True
    show ?thesis
    proof (cases a)
      case (LInt l)
      then show ?thesis using ne True by (cases b) (auto simp: LUB_def Let_def)
    next
      case (LMask k m)
      have m: "ap_width A m = ap_width A k" "uval m AND uval k = uval m"
        using wf(1) LMask by simp_all
      show ?thesis
      proof (cases b)
        case (LInt r)
        let ?j = "ap_and A (ap_not A (ap_xor A m r)) k"
        have r: "ap_width A r = ap_width A k" using wf(3) LInt LMask by (simp add: same_width_def)
        have "lattice_eq A F (LMask ?j (ap_and A ?j m)) (LMask k m) \<or> unknown_bits A uval k < unknown_bits A uval ?j"
          using r m by (intro mask_shrinks) (auto simp: width_laws bit_laws)
        then show ?thesis using ne LMask LInt W top by (auto simp: LUB_def Let_def)
      next
        case (LMask k' m')
        let ?j = "ap_and A (ap_and A k k') (ap_not A (ap_xor A m' m))"
        have r: "ap_width A k' = ap_width A k" "ap_width A m' = ap_width A k"
          using wf LMask \<open>a = LMask k m\<close> by (auto simp: same_width_def)
        have "lattice_eq A F (LMask ?j (ap_and A ?j m)) (LMask k m) \<or> unknown_bits A uval k < unknown_bits A uval ?j"
          using r m by (intro mask_shrinks) (auto simp: width_laws bit_laws)
        then show ?thesis using ne LMask \<open>a = LMask k m\<close> W top by (auto simp: LUB_def Let_def)
      qed (use True in auto)
    qed (use True in auto)
  next
    case False
    from LUB_other[OF ne False] consider
        "LUB A F a b = a"
      | "LUB A F a b = b" "IsUnknown a \<or> IsUndefined a \<and> \<not> IsUnknown b"
      | "LUB A F a b = LPointer" "IsPointerLike a"
      | "LUB A F a b = LOverdefined" by blast
    then show ?thesis
    proof cases
      case 1
      then show ?thesis by (simp add: lattice_eq_refl)
    next
      case 2
      then show ?thesis using ne by (cases a; cases b) (auto simp: lattice_eq_def)
    next
      case 3
      then show ?thesis by (cases a) (auto simp: lattice_eq_def IsPointerLike_def)
    next
      case 4
      then show ?thesis using top by (cases "IsOverdefined a") (auto simp: lattice_eq_def)
    qed
  qed
qed

end

text \<open>
  The bound of two integers is the least mask that covers both: whatever another mask knows about
  the two, the bound knows too.
\<close>

context numbers
begin

lemma LUB_ints_least_aux:
  assumes w: "ap_width A l = ap_width A r"
    and l: "in_gamma A uval F E (LMask k m) (VInt l)" and r: "in_gamma A uval F E (LMask k m) (VInt r)"
    and v: "in_gamma A uval F E (LUB A F (LInt l) (LInt r)) v" and k: "uval k \<noteq> 0"
  shows "in_gamma A uval F E (LMask k m) v"
proof (cases "lattice_eq A F (LInt l) (LInt r)")
  case True
  then show ?thesis using l v by (auto simp: LUB_def)
next
  case False
  let ?j = "ap_not A (ap_xor A l r)"
  have sub: "bit (uval ?j) n \<and> bit (uval m) n = bit (uval l) n \<and> bit (uval r) n = bit (uval l) n"
    if "bit (uval k) n" for n
  proof -
    have "n < ap_width A l" using that no_high_bits[of k n] l by (cases "n < ap_width A k") auto
    then show ?thesis using that l r w by (auto simp: bit_laws)
  qed
  obtain n where "bit (uval k) n" using k bit_eq_iff[of "uval k" 0] by auto
  then have "uval ?j \<noteq> 0" using sub by (metis bit_0_eq bot_apply bot_bool_def)
  then have "LUB A F (LInt l) (LInt r) = LMask ?j (ap_and A l r)"
    using False by (simp add: LUB_def is_null)
  then obtain x where x: "v = VInt x" "ap_width A x = ap_width A r"
      "uval x AND uval ?j = uval (ap_and A l r) AND uval ?j"
    using v w by (auto simp: width_laws)
  have xj: "bit (uval x) n = bit (uval (ap_and A l r)) n" if "bit (uval ?j) n" for n
    using x(3) that unfolding and_eq_iff_bits by blast
  have "bit (uval x) n = bit (uval m) n" if "bit (uval k) n" for n
    using sub[OF that] xj w by (simp add: bit_and bit_and_iff)
  then have "uval x AND uval k = uval m AND uval k" by (simp add: and_eq_iff_bits)
  then show ?thesis using x(1,2) l w by simp
qed

end

subsection \<open>Truth tests\<close>

fun truthy :: "('i \<Rightarrow> int) \<Rightarrow> ('i, 'f) apfloat_ops \<Rightarrow> ('i, 'f) machine_val \<Rightarrow> bool" where
  "truthy uval F (VInt x) = (uval x \<noteq> 0)"
| "truthy uval F (VFloat f) = (\<not> af_isZero F f)"

text \<open>The values whose address may be null although \<open>IsTrue\<close> answers true.\<close>

definition weak_address :: "('i, 'f) lattice \<Rightarrow> bool" where
  "weak_address l \<longleftrightarrow> IsGlobal l \<and> may_be_null l \<or> IsRange l \<and> IsWeak (GetRange l)"

context numbers
begin

lemma IsTrue_sound_aux:
  assumes "IsTrue A F l = returns True" "in_gamma A uval F E l v" "wf_lattice A uval l"
    "env_ok E" "\<not> weak_address l"
  shows "truthy uval F v"
proof (cases l)
  case (LMask k m)
  then have "uval k AND uval m \<noteq> 0" using assms by (simp add: is_null bit_and)
  then obtain n where "bit (uval k) n" "bit (uval m) n" by (auto simp: and_zero_iff_bits)
  moreover obtain x where "v = VInt x" "\<forall>n. bit (uval k) n \<longrightarrow> bit (uval x) n = bit (uval m) n"
    using assms(2) LMask by (auto simp: and_eq_iff_bits)
  ultimately show ?thesis by auto
qed (use assms in \<open>auto simp: is_null env_ok_def weak_address_def may_be_null_def
      signed_eq_0_iff dest: bitwise_isZero\<close>)

lemma IsFalse_sound_aux:
  assumes "IsFalse A F l = returns True" "in_gamma A uval F E l v"
  shows "\<not> truthy uval F v"
  using assms by (cases l) (auto simp: is_null dest: bitwise_isZero)

end

subsection \<open>Chains of bounds\<close>

definition width_ok :: "'i apint_ops \<Rightarrow> nat \<Rightarrow> ('i, 'f) lattice \<Rightarrow> bool" where
  "width_ok A W l \<longleftrightarrow> int_width A l = None \<or> int_width A l = Some W"

lemma width_ok_same: "width_ok A W a \<Longrightarrow> width_ok A W b \<Longrightarrow> same_width A a b"
  by (auto simp: width_ok_def same_width_def split: option.splits)

text \<open>How often a register changes that absorbs a list of values one after the other.\<close>

fun mark_changes :: "'i apint_ops \<Rightarrow> ('i, 'f) apfloat_ops \<Rightarrow> ('i, 'f) lattice \<Rightarrow> ('i, 'f) lattice list \<Rightarrow> nat" where
  "mark_changes A F a [] = 0"
| "mark_changes A F a (b # bs) =
     (let c = LUB A F a b in (if lattice_eq A F c a then 0 else 1) + mark_changes A F c bs)"

context numbers
begin

lemma mask_wf:
  assumes "ap_width A j = ap_width A m" "ap_width A j = W"
  shows "wf_lattice A uval (if \<not> ap_is_null A j then LMask j (ap_and A j m) else LOverdefined) \<and>
    width_ok A W (if \<not> ap_is_null A j then LMask j (ap_and A j m) else LOverdefined)"
  using assms by (auto simp: width_laws bit_and width_ok_def and.assoc and.commute[of "uval m"])

lemma LUB_wf:
  assumes wf: "wf_lattice A uval a" "wf_lattice A uval b" and W: "width_ok A W a" "width_ok A W b"
  shows "wf_lattice A uval (LUB A F a b) \<and> width_ok A W (LUB A F a b)"
proof (cases "lattice_eq A F a b")
  case True
  then show ?thesis using assms by (simp add: LUB_def)
next
  case ne: False
  show ?thesis
  proof (cases "(IsInt a \<or> IsMask a) \<and> (IsInt b \<or> IsMask b)")
    case False
    have "wf_lattice A uval l \<and> width_ok A W l" if "l = LPointer \<or> l = LOverdefined" for l :: "('i, 'f) lattice"
      using that by (auto simp: width_ok_def)
    then show ?thesis using LUB_other[OF ne False] assms by metis
  next
    case True
    show ?thesis
    proof (cases a)
      case (LInt l)
      show ?thesis
      proof (cases b)
        case (LInt r)
        have *: "uval (ap_and A l r) AND uval (ap_not A (ap_xor A l r)) = uval (ap_and A l r)"
          using W LInt \<open>a = LInt l\<close> no_high_bits[of l]
          by (intro bit_eqI) (auto simp: width_ok_def bit_laws linorder_not_le[symmetric])
        show ?thesis using ne LInt \<open>a = LInt l\<close> W *
          by (auto simp: LUB_def Let_def width_ok_def width_laws)
      next
        case (LMask k m)
        then show ?thesis using ne LInt wf W mask_wf[of "ap_and A (ap_not A (ap_xor A m l)) k" m W]
          by (auto simp: LUB_def Let_def width_ok_def width_laws)
      qed (use True in auto)
    next
      case (LMask k m)
      show ?thesis
      proof (cases b)
        case (LInt r)
        then show ?thesis using ne LMask wf W mask_wf[of "ap_and A (ap_not A (ap_xor A m r)) k" m W]
          by (auto simp: LUB_def Let_def width_ok_def width_laws)
      next
        case (LMask k' m')
        then show ?thesis using ne \<open>a = LMask k m\<close> wf W
            mask_wf[of "ap_and A (ap_and A k k') (ap_not A (ap_xor A m' m))" m W]
          by (auto simp: LUB_def Let_def width_ok_def width_laws)
      qed (use True in auto)
    qed (use True in auto)
  qed
qed

lemma lattice_eq_height:
  assumes "lattice_eq A F a b" "width_ok A W a" "width_ok A W b"
  shows "height W A uval a = height W A uval b"
  using assms by (cases a; cases b) (auto simp: lattice_eq_def width_ok_def eq unknown_bits_def)

lemma height_bound: "width_ok A W a \<Longrightarrow> height W A uval a \<le> W + 4"
proof (cases a)
  case (LMask k m)
  assume "width_ok A W a"
  then show ?thesis using LMask unknown_bits_le[of A uval k] by (simp add: width_ok_def)
qed auto

lemma mark_changes_aux:
  assumes "wf_lattice A uval a" "width_ok A W a" "\<And>b. b \<in> set bs \<Longrightarrow> wf_lattice A uval b \<and> width_ok A W b"
  shows "height W A uval a + mark_changes A F a bs \<le> W + 4"
  using assms
proof (induction bs arbitrary: a)
  case Nil
  then show ?case by (simp add: height_bound)
next
  case (Cons b bs)
  let ?c = "LUB A F a b"
  have b: "wf_lattice A uval b" "width_ok A W b" using Cons.prems(3)[of b] by simp_all
  have c: "wf_lattice A uval ?c" "width_ok A W ?c"
    using LUB_wf[OF Cons.prems(1) b(1) Cons.prems(2) b(2)] by simp_all
  have IH: "height W A uval ?c + mark_changes A F ?c bs \<le> W + 4"
    using Cons.IH[OF c] Cons.prems(3) by simp
  have "lattice_eq A F ?c a \<or> height W A uval a < height W A uval ?c"
    using LUB_climbs_aux[OF Cons.prems(1) b(1) width_ok_same[OF Cons.prems(2) b(2)], of W] Cons.prems(2)
    by (auto simp: width_ok_def)
  then show ?case
    using IH lattice_eq_height[OF _ c(2) Cons.prems(2)] by (auto simp: Let_def)
qed

end

subsection \<open>Properties\<close>

text \<open>An environment with sixteen stack objects and sixteen atoms of 64 bytes each, and one undefined
  weak symbol at address null.\<close>

definition sample_atom :: "nat \<Rightarrow> global" where
  "sample_atom i = \<lparr>g_id = i, g_kind = G_ATOM, g_visibility = Vis_GLOBAL_DEFAULT, g_align = Some 64\<rparr>"

definition strong_symbol :: global where
  "strong_symbol = sample_atom 1"

definition weak_symbol :: global where
  "weak_symbol = \<lparr>g_id = 0, g_kind = G_EXTERN, g_visibility = Vis_WEAK_DEFAULT, g_align = None\<rparr>"

definition sample_env :: mem_env where
  "sample_env = \<lparr>
     frame_base = (\<lambda>obj. 0x7000 + 64 * int obj),
     frame_valid = (\<lambda>obj off. obj < 16 \<and> 0 \<le> off \<and> off < 64),
     glob_base = (\<lambda>g. if IsWeak g then 0 else 0x1000 + 64 * int (g_id g)),
     glob_valid = (\<lambda>g off. if g = weak_symbol then off = 0
       else g = sample_atom (g_id g) \<and> g_id g < 16 \<and> 0 \<le> off \<and> off < 64)\<rparr>"

lemma sample_symbols [simp]: "IsWeak weak_symbol" "\<not> IsWeak (sample_atom i)" "g_align (sample_atom i) = Some 64"
  "g_align weak_symbol = None" "g_id (sample_atom i) = i" "sample_atom i \<noteq> weak_symbol"
  "weak_symbol \<noteq> sample_atom i"
  by (simp_all add: weak_symbol_def sample_atom_def IsWeak_def)

lemma sample_env_no_wrap: "0 \<le> x \<Longrightarrow> x < 0x10000 \<Longrightarrow> take_bit 64 (x::int) = x"
  by (simp add: take_bit_int_eq_self)

lemma sample_env_valid:
  "glob_valid sample_env g off \<longleftrightarrow>
    g = weak_symbol \<and> off = 0 \<or> (\<exists>i < 16. g = sample_atom i \<and> 0 \<le> off \<and> off < 64)"
  by (auto simp: sample_env_def)

lemma sample_env_glob_addr [simp]:
  "glob_addr sample_env weak_symbol 0 = 0"
  "i < 16 \<Longrightarrow> 0 \<le> off \<Longrightarrow> off < 64 \<Longrightarrow>
    glob_addr sample_env (sample_atom i) off = 0x1000 + 64 * int i + off"
  by (simp_all add: sample_env_def glob_addr_def sample_env_no_wrap)

lemma sample_env_ok: "env_ok sample_env"
  by (auto simp: env_ok_def sample_env_valid)
    (simp add: sample_env_def frame_addr_def sample_env_no_wrap)

text \<open>C5: The least upper bound over-approximates both arguments, unless the left one is a symbol
  that cannot be null and the right one a weak symbol that can.\<close>

theorem LUB_sound:
  assumes "numbers A uval F" and "wf_lattice A uval a" "wf_lattice A uval b" "same_width A a b"
    and "env_ok E" and "\<not> hides_null a b"
    and "in_gamma A uval F E a v \<or> in_gamma A uval F E b v"
  shows "in_gamma A uval F E (LUB A F a b) v"
  using numbers.LUB_sound_aux[OF assms(1)] assms(2-) by blast

theorem LUB_sound_witness:
  "in_gamma bv_ops bv_uval dbl_ops sample_env
     (LUB bv_ops dbl_ops (LInt (bv_of 8 12)) (LMask (bv_of 8 0xF) (bv_of 8 10))) (VInt (bv_of 8 0xAA))"
  by (rule LUB_sound [OF bvdbl.numbers_axioms])
    (simp_all add: sample_env_ok same_width_def hides_null_def bv_ops_def)

text \<open>On the pairs where the left symbol hides that the right one may be null the bound claims a
  non-null pointer, so the null address of the undefined weak symbol is lost; with the arguments
  exchanged the bound is overdefined.\<close>

theorem LUB_hides_null:
  assumes "hides_null a b" "in_gamma A uval F E b (VInt x)" "uval x = 0"
  shows "\<not> in_gamma A uval F E (LUB A F a b) (VInt x) \<and> LUB A F b a = LOverdefined"
proof
  show "LUB A F b a = LOverdefined"
  proof -
    have "\<not> lattice_eq A F b a"
      using assms(1) by (auto simp: hides_null_def may_be_null_def lattice_eq_def same_global_def
          split: lattice.splits)
    then show ?thesis
      using assms(1) by (cases a; cases b) (auto simp: hides_null_def LUB_def IsPointerLike_def)
  qed
  have neq: "\<not> lattice_eq A F a b"
    using assms(1) by (auto simp: hides_null_def may_be_null_def lattice_eq_def same_global_def
        split: lattice.splits)
  have "LUB A F a b = LPointer"
    using neq assms(1) by (cases a; cases b) (auto simp: hides_null_def LUB_def IsPointerLike_def)
  then show "\<not> in_gamma A uval F E (LUB A F a b) (VInt x)" using assms(3) by simp
qed

theorem LUB_hides_null_witness:
  "\<not> in_gamma bv_ops bv_uval dbl_ops sample_env
      (LUB bv_ops dbl_ops (LGlobal strong_symbol 0) (LGlobal weak_symbol 0)) (VInt (bv_of 64 0)) \<and>
   LUB bv_ops dbl_ops (LGlobal weak_symbol 0) (LGlobal strong_symbol 0) = LOverdefined"
proof -
  have h: "hides_null (LGlobal strong_symbol 0 :: (bv, dbl) lattice) (LGlobal weak_symbol 0)"
    by (simp add: hides_null_def may_be_null_def strong_symbol_def)
  have v: "in_gamma bv_ops bv_uval dbl_ops sample_env (LGlobal weak_symbol 0) (VInt (bv_of 64 0))"
    by (simp add: sample_env_def glob_addr_def bv_ops_def)
  have z: "bv_uval (bv_of 64 0) = 0" by simp
  show ?thesis using LUB_hides_null [OF h v z] by blast
qed

text \<open>C15: A bound that differs from its left argument lies strictly higher, and no register of width
  \<open>W\<close> changes more than \<open>W + 4\<close> times however many values it absorbs: the propagation stops.\<close>

theorem LUB_chain_bounded:
  assumes "numbers A uval F" and "wf_lattice A uval a" "width_ok A W a"
    and "\<And>b. b \<in> set bs \<Longrightarrow> wf_lattice A uval b \<and> width_ok A W b"
  shows "mark_changes A F a bs \<le> W + 4"
  using numbers.mark_changes_aux[OF assms(1-3), of bs] assms(4) by fastforce

theorem LUB_chain_bounded_witness:
  "mark_changes bv_ops dbl_ops LUnknown
     [LInt (bv_of 8 12), LInt (bv_of 8 10), LMask (bv_of 8 1) (bv_of 8 0), LInt (bv_of 8 3)] \<le> 8 + 4"
  by (rule LUB_chain_bounded [OF bvdbl.numbers_axioms, where W = 8])
    (auto simp: width_ok_def bv_ops_def)

text \<open>The bound of two integers is the most precise mask: a mask that covers both integers and
  knows some bit covers everything the bound covers.\<close>

theorem LUB_ints_least:
  assumes "numbers A uval F" and "ap_width A l = ap_width A r"
    and "in_gamma A uval F E (LMask k m) (VInt l)" "in_gamma A uval F E (LMask k m) (VInt r)"
    and "uval k \<noteq> 0" and "in_gamma A uval F E (LUB A F (LInt l) (LInt r)) v"
  shows "in_gamma A uval F E (LMask k m) v"
  using numbers.LUB_ints_least_aux[OF assms(1-4) assms(6,5)] .

theorem LUB_ints_least_witness:
  "in_gamma bv_ops bv_uval dbl_ops sample_env (LMask (bv_of 8 1) (bv_of 8 0)) (VInt (bv_of 8 8))"
proof -
  have l: "in_gamma bv_ops bv_uval dbl_ops sample_env (LMask (bv_of 8 1) (bv_of 8 0)) (VInt (bv_of 8 12))"
    and r: "in_gamma bv_ops bv_uval dbl_ops sample_env (LMask (bv_of 8 1) (bv_of 8 0)) (VInt (bv_of 8 10))"
    by (simp_all add: bv_ops_def)
  show ?thesis
    by (rule LUB_ints_least [OF bvdbl.numbers_axioms _ l r])
      (simp_all add: LUB_def lattice_eq_def bv_ops_def)
qed

text \<open>A value that tests true is never zero at run time and one that tests false always is, for
  every value but the addresses of weak symbols.\<close>

theorem truth_tests_sound:
  assumes "numbers A uval F" and "wf_lattice A uval l" "env_ok E"
    and "in_gamma A uval F E l v" and "\<not> weak_address l"
  shows "(IsTrue A F l = returns True \<longrightarrow> truthy uval F v) \<and>
    (IsFalse A F l = returns True \<longrightarrow> \<not> truthy uval F v)"
  using numbers.IsTrue_sound_aux[OF assms(1) _ assms(4,2,3,5)]
    numbers.IsFalse_sound_aux[OF assms(1) _ assms(4)] by blast+

theorem truth_tests_sound_witness:
  "truthy bv_uval dbl_ops (VInt (bv_of 8 0xAA)) \<and>
   IsTrue bv_ops dbl_ops (LMask (bv_of 8 0xF) (bv_of 8 10)) = returns True"
proof -
  have t: "IsTrue bv_ops dbl_ops (LMask (bv_of 8 0xF) (bv_of 8 10)) = returns True"
    by (simp add: bv_ops_def)
  have "(IsTrue bv_ops dbl_ops (LMask (bv_of 8 0xF) (bv_of 8 10)) = returns True \<longrightarrow>
      truthy bv_uval dbl_ops (VInt (bv_of 8 0xAA))) \<and>
    (IsFalse bv_ops dbl_ops (LMask (bv_of 8 0xF) (bv_of 8 10)) = returns True \<longrightarrow>
      \<not> truthy bv_uval dbl_ops (VInt (bv_of 8 0xAA)))"
    by (rule truth_tests_sound [OF bvdbl.numbers_axioms, where E = sample_env])
      (simp_all add: sample_env_ok weak_address_def bv_ops_def)
  with t show ?thesis by blast
qed

text \<open>The address of an undefined weak symbol tests true although it is null at run time.\<close>

theorem weak_address_tests_true:
  "\<exists>l v. in_gamma bv_ops bv_uval dbl_ops sample_env l v \<and>
     IsTrue bv_ops dbl_ops l = returns True \<and> \<not> truthy bv_uval dbl_ops v"
proof -
  have "in_gamma bv_ops bv_uval dbl_ops sample_env (LGlobal weak_symbol 0) (VInt (bv_of 64 0))"
    by (simp add: sample_env_def glob_addr_def bv_ops_def)
  moreover have "IsTrue bv_ops dbl_ops (LGlobal weak_symbol 0) = returns True" by simp
  moreover have "\<not> truthy bv_uval dbl_ops (VInt (bv_of 64 0))" by simp
  ultimately show ?thesis by blast
qed

end
