(* ===== verification/SccpEval.thy ===== *)
theory SccpEval
  imports SccpLattice
begin

text \<open>
  Constant evaluation of instructions over the lattice (\<^verbatim>\<open>passes/sccp/eval.cpp\<close>). The overloads of
  \<^verbatim>\<open>SCCPEval::Eval\<close> have one definition each, named after the instruction class; \<open>ty\<close> is
  \<^verbatim>\<open>inst->GetType()\<close> and \<open>OA\<close> gives the alignment of the stack objects of the function the
  instruction is in. A branch that ends in \<^verbatim>\<open>llvm_unreachable\<close> is \<open>unreachable\<close>.
\<close>

subsection \<open>Instruction kinds\<close>

datatype unary_op =
    U_ABS | U_NEG | U_SQRT | U_SIN | U_COS | U_S_EXT | U_Z_EXT | U_F_EXT | U_X_EXT | U_TRUNC
  | U_EXP | U_EXP2 | U_LOG | U_LOG2 | U_LOG10 | U_F_CEIL | U_F_FLOOR | U_POP_COUNT | U_CLZ | U_CTZ
  | U_BYTE_SWAP | U_BIT_CAST

datatype binary_op =
    B_SLL | B_SRA | B_SRL | B_ROTL | B_ROTR | B_ADD | B_SUB | B_AND | B_OR | B_XOR
  | B_U_DIV | B_S_DIV | B_U_REM | B_S_REM | B_MUL | B_MUL_H_S | B_MUL_H_U | B_POW | B_COPY_SIGN
  | B_O_U_ADD | B_O_U_MUL | B_O_U_SUB | B_O_S_ADD | B_O_S_MUL | B_O_S_SUB

datatype bitwise = SRL | SRA | SLL | ROTL | ROTR

subsection \<open>Helpers\<close>

fun getSemantics :: "ty \<Rightarrow> flt_semantics result" where
  "getSemantics F32 = returns IEEEsingle"
| "getSemantics F64 = returns IEEEdouble"
| "getSemantics F80 = returns X87DoubleExtended"
| "getSemantics F128 = returns IEEEquad"
| "getSemantics _ = unreachable"

definition MakeBoolean :: "'i apint_ops \<Rightarrow> bool \<Rightarrow> ty \<Rightarrow> ('i, 'f) lattice result" where
  "MakeBoolean A b ty =
     (if ty \<in> {I8, I16, I32, I64, I128}
      then returns (LInt (ap_make A (GetSize ty * 8) (of_bool b) True))
      else unreachable)"

definition Extend :: "'i apint_ops \<Rightarrow> ('i, 'f) apfloat_ops \<Rightarrow> ('i, 'f) lattice \<Rightarrow> ty \<Rightarrow> ('i, 'f) lattice result" where
  "Extend A F arg ty =
     (case arg of
        LUnknown \<Rightarrow> returns arg
      | LOverdefined \<Rightarrow> returns arg
      | LUndefined \<Rightarrow> returns arg
      | LInt i \<Rightarrow>
          (if ty \<in> {I8, I16, I32, I64, I128, V64} then returns (LInt (ap_sextOrTrunc A (GetSize ty * 8) i))
           else if ty \<in> {F32, F64, F128} then returns LOverdefined
           else unreachable)
      | LFloat f \<Rightarrow>
          (if ty \<in> {I8, I16, I32, I64, I128} then unreachable
           else if ty = V64 then returns LOverdefined
           else (case getSemantics ty of Inl e \<Rightarrow> Inl e | Inr sem \<Rightarrow> returns (LFloat (af_convert F sem f))))
      | LMask k v \<Rightarrow>
          (if ty \<in> {I8, I16, I32, I64, V64, I128} then
             (let b = GetBitWidth ty in
              if ap_width A k \<noteq> ap_width A v then Inl AssertFailed
              else if ap_width A k = b then returns arg
              else returns (LMask (ap_zextOrTrunc A b k) (ap_zextOrTrunc A b v)))
           else unreachable)
      | LFloatZero \<Rightarrow> (if ty \<in> {F32, F64, F80, F128} then returns arg else unreachable)
      | LFrame _ _ \<Rightarrow> (if ty \<in> {V64, I64} then returns arg else unreachable)
      | LGlobal _ _ \<Rightarrow> (if ty \<in> {V64, I64} then returns arg else unreachable)
      | LPointer \<Rightarrow> (if ty \<in> {V64, I64} then returns arg else unreachable)
      | LRange _ \<Rightarrow> (if ty \<in> {V64, I64} then returns arg else unreachable))"

subsection \<open>Unary instructions\<close>

definition EvalBitCast :: "'i apint_ops \<Rightarrow> ('i, 'f) apfloat_ops \<Rightarrow> ty \<Rightarrow> ('i, 'f) lattice \<Rightarrow> ('i, 'f) lattice result" where
  "EvalBitCast A F ty arg =
     (case arg of
        LUnknown \<Rightarrow> returns arg
      | LOverdefined \<Rightarrow> returns arg
      | LUndefined \<Rightarrow> returns arg
      | LPointer \<Rightarrow> returns arg
      | LFloatZero \<Rightarrow> returns LOverdefined
      | LInt i \<Rightarrow>
          (if IsIntegerType ty then returns (LInt (ap_sextOrTrunc A (GetSize ty * 8) i))
           else returns LOverdefined)
      | LMask k v \<Rightarrow>
          (if IsIntegerType ty
           then returns (LMask (ap_zextOrTrunc A (GetBitWidth ty) k) (ap_zextOrTrunc A (GetBitWidth ty) v))
           else returns LOverdefined)
      | LFloat f \<Rightarrow>
          (if IsIntegerType ty
           then returns (LInt (ap_sextOrTrunc A (GetSize ty * 8) (af_bitcastToAPInt F f)))
           else returns LOverdefined)
      | LFrame _ _ \<Rightarrow> (if ty \<in> {V64, I64} then returns arg else unreachable)
      | LGlobal _ _ \<Rightarrow> (if ty \<in> {V64, I64} then returns arg else unreachable)
      | LRange _ \<Rightarrow> (if ty \<in> {V64, I64} then returns arg else unreachable))"

definition EvalAbs :: "('i, 'f) lattice \<Rightarrow> ('i, 'f) lattice result" where
  "EvalAbs arg = returns LOverdefined"

definition EvalNeg :: "'i apint_ops \<Rightarrow> ty \<Rightarrow> ('i, 'f) lattice \<Rightarrow> ('i, 'f) lattice result" where
  "EvalNeg A ty arg =
     (if IsIntegerType ty then
        (case AsInt arg of Some i \<Rightarrow> returns (LInt (ap_neg A i)) | None \<Rightarrow> unreachable)
      else returns LOverdefined)"

definition EvalSqrt :: "ty \<Rightarrow> ('i, 'f) lattice \<Rightarrow> ('i, 'f) lattice result" where
  "EvalSqrt ty arg = (if IsIntegerType ty then unreachable else returns LOverdefined)"

definition EvalSinCos :: "('i, 'f) lattice \<Rightarrow> ('i, 'f) lattice result" where
  "EvalSinCos arg = returns LOverdefined"

definition EvalSExt :: "'i apint_ops \<Rightarrow> ty \<Rightarrow> ('i, 'f) lattice \<Rightarrow> ('i, 'f) lattice result" where
  "EvalSExt A ty arg =
     (if IsIntegerType ty then
        (case AsInt arg of
           Some i \<Rightarrow> returns (LInt (ap_sext A (GetSize ty * 8) i))
         | None \<Rightarrow>
             if IsFloat arg then returns LOverdefined
             else if IsFloatZero arg then returns (CreateInteger64 A 0)
             else if IsMask arg then returns LOverdefined
             else unreachable)
      else returns LOverdefined)"

definition EvalZExt :: "'i apint_ops \<Rightarrow> ('i, 'f) apfloat_ops \<Rightarrow> ty \<Rightarrow> ('i, 'f) lattice \<Rightarrow> ('i, 'f) lattice result" where
  "EvalZExt A F ty arg =
     (if IsIntegerType ty then
        (let bits = GetBitWidth ty in
         case AsInt arg of
           Some i \<Rightarrow> returns (LInt (ap_zext A bits i))
         | None \<Rightarrow>
             (case AsFloat arg of
                Some f \<Rightarrow>
                  (let (v, isExact) = af_convertToInteger F bits f
                   in if isExact then returns (LInt v) else returns LOverdefined)
              | None \<Rightarrow>
                  if IsFloatZero arg then returns (LInt (ap_make A bits 0 True))
                  else if IsMask arg then returns LOverdefined
                  else unreachable))
      else returns LOverdefined)"

definition EvalXExt :: "'i apint_ops \<Rightarrow> ('i, 'f) apfloat_ops \<Rightarrow> ty \<Rightarrow> ('i, 'f) lattice \<Rightarrow> ('i, 'f) lattice result" where
  "EvalXExt A F ty arg =
     (if IsIntegerType ty then
        (case AsInt arg of
           Some i \<Rightarrow> returns (LInt (ap_zext A (GetBitWidth ty) i))
         | None \<Rightarrow>
             (case AsFloat arg of
                Some f \<Rightarrow>
                  (let (v, isExact) = af_convertToInteger F (GetBitWidth ty) f
                   in if isExact then returns (LInt v) else returns LOverdefined)
              | None \<Rightarrow>
                  if IsFloatZero arg then returns (CreateInteger64 A 0)
                  else if IsMask arg then returns LOverdefined
                  else unreachable))
      else returns LOverdefined)"

definition EvalFExt :: "ty \<Rightarrow> ('i, 'f) lattice \<Rightarrow> ('i, 'f) lattice result" where
  "EvalFExt ty arg = (if IsIntegerType ty then unreachable else returns LOverdefined)"

definition EvalTrunc :: "'i apint_ops \<Rightarrow> ty \<Rightarrow> ('i, 'f) lattice \<Rightarrow> ('i, 'f) lattice result" where
  "EvalTrunc A ty arg =
     (if IsIntegerType ty then
        (case AsInt arg of
           Some i \<Rightarrow> returns (LInt (ap_trunc A (GetSize ty * 8) i))
         | None \<Rightarrow> if IsFloat arg then returns LOverdefined else returns LOverdefined)
      else returns LOverdefined)"

definition EvalExp :: "ty \<Rightarrow> ('i, 'f) lattice \<Rightarrow> ('i, 'f) lattice result" where
  "EvalExp ty arg = (if IsIntegerType ty then unreachable else returns LOverdefined)"

text \<open>The rules left to do: \<^verbatim>\<open>Exp2\<close> to \<^verbatim>\<open>ByteSwap\<close>.\<close>

definition EvalUnaryTodo :: "('i, 'f) lattice \<Rightarrow> ('i, 'f) lattice result" where
  "EvalUnaryTodo arg = returns LOverdefined"

definition EvalUnary :: "'i apint_ops \<Rightarrow> ('i, 'f) apfloat_ops \<Rightarrow> unary_op \<Rightarrow> ty \<Rightarrow>
    ('i, 'f) lattice \<Rightarrow> ('i, 'f) lattice result" where
  "EvalUnary A F kind ty arg =
     (if IsUnknown arg then Inl AssertFailed
      else if IsOverdefined arg then returns LOverdefined
      else if IsUndefined arg then returns LUndefined
      else case kind of
        U_ABS \<Rightarrow> EvalAbs arg
      | U_NEG \<Rightarrow> EvalNeg A ty arg
      | U_SQRT \<Rightarrow> EvalSqrt ty arg
      | U_SIN \<Rightarrow> EvalSinCos arg
      | U_COS \<Rightarrow> EvalSinCos arg
      | U_S_EXT \<Rightarrow> EvalSExt A ty arg
      | U_Z_EXT \<Rightarrow> EvalZExt A F ty arg
      | U_F_EXT \<Rightarrow> EvalFExt ty arg
      | U_X_EXT \<Rightarrow> EvalXExt A F ty arg
      | U_TRUNC \<Rightarrow> EvalTrunc A ty arg
      | U_EXP \<Rightarrow> EvalExp ty arg
      | U_EXP2 \<Rightarrow> EvalUnaryTodo arg
      | U_LOG \<Rightarrow> EvalUnaryTodo arg
      | U_LOG2 \<Rightarrow> EvalUnaryTodo arg
      | U_LOG10 \<Rightarrow> EvalUnaryTodo arg
      | U_F_CEIL \<Rightarrow> EvalUnaryTodo arg
      | U_F_FLOOR \<Rightarrow> EvalUnaryTodo arg
      | U_POP_COUNT \<Rightarrow> EvalUnaryTodo arg
      | U_CLZ \<Rightarrow> EvalUnaryTodo arg
      | U_CTZ \<Rightarrow> EvalUnaryTodo arg
      | U_BYTE_SWAP \<Rightarrow> EvalUnaryTodo arg
      | U_BIT_CAST \<Rightarrow> EvalBitCast A F ty arg)"

subsection \<open>Binary instructions\<close>

text \<open>The 64-bit case of an addition, where an operand may be a pointer.\<close>

definition EvalAdd64 :: "'i apint_ops \<Rightarrow> ('i, 'f) lattice \<Rightarrow> ('i, 'f) lattice \<Rightarrow> ('i, 'f) lattice result" where
  "EvalAdd64 A lhs rhs =
     (case lhs of
        LUnknown \<Rightarrow> unreachable
      | LUndefined \<Rightarrow> returns LUndefined
      | LInt l \<Rightarrow>
          (case rhs of
             LFrame obj off \<Rightarrow> returns (LFrame obj (off + ap_getSExtValue A l))
           | LGlobal g off \<Rightarrow> returns (LGlobal g (off + ap_getSExtValue A l))
           | LInt r \<Rightarrow> returns (LInt (ap_add A l r))
           | _ \<Rightarrow> returns LOverdefined)
      | LFrame obj off \<Rightarrow>
          (case rhs of
             LUnknown \<Rightarrow> unreachable
           | LUndefined \<Rightarrow> returns LUndefined
           | LFrame _ _ \<Rightarrow> unreachable
           | LGlobal _ _ \<Rightarrow> unreachable
           | LPointer \<Rightarrow> unreachable
           | LRange _ \<Rightarrow> unreachable
           | LOverdefined \<Rightarrow> returns LPointer
           | LMask _ _ \<Rightarrow> returns LPointer
           | LFloat _ \<Rightarrow> returns LPointer
           | LFloatZero \<Rightarrow> returns LPointer
           | LInt r \<Rightarrow> returns (LFrame obj (off + ap_getSExtValue A r)))
      | LGlobal g off \<Rightarrow>
          (case rhs of
             LUnknown \<Rightarrow> unreachable
           | LUndefined \<Rightarrow> returns LUndefined
           | LFrame _ _ \<Rightarrow> unreachable
           | LGlobal _ _ \<Rightarrow> unreachable
           | LPointer \<Rightarrow> unreachable
           | LRange _ \<Rightarrow> unreachable
           | LOverdefined \<Rightarrow> returns (LRange g)
           | LMask _ _ \<Rightarrow> returns (LRange g)
           | LFloat _ \<Rightarrow> returns (LRange g)
           | LFloatZero \<Rightarrow> returns (LRange g)
           | LInt r \<Rightarrow> returns (LGlobal g (off + ap_getSExtValue A r)))
      | LPointer \<Rightarrow>
          (case rhs of
             LUnknown \<Rightarrow> unreachable
           | LUndefined \<Rightarrow> returns LUndefined
           | LFrame _ _ \<Rightarrow> unreachable
           | LGlobal _ _ \<Rightarrow> unreachable
           | LPointer \<Rightarrow> unreachable
           | LRange _ \<Rightarrow> unreachable
           | _ \<Rightarrow> returns lhs)
      | LRange g \<Rightarrow>
          (case rhs of
             LUnknown \<Rightarrow> unreachable
           | LUndefined \<Rightarrow> returns LUndefined
           | LFrame _ _ \<Rightarrow> unreachable
           | LGlobal _ _ \<Rightarrow> unreachable
           | LPointer \<Rightarrow> unreachable
           | LRange _ \<Rightarrow> unreachable
           | _ \<Rightarrow> returns lhs)
      | _ \<Rightarrow>
          (case rhs of
             LGlobal g _ \<Rightarrow> returns (LRange g)
           | _ \<Rightarrow> returns LOverdefined))"

definition EvalAdd :: "'i apint_ops \<Rightarrow> ty \<Rightarrow> ('i, 'f) lattice \<Rightarrow> ('i, 'f) lattice \<Rightarrow> ('i, 'f) lattice result" where
  "EvalAdd A ty lhs rhs =
     (if ty \<in> {I8, I16, I32, I128} then
        (case (AsInt lhs, AsInt rhs) of
           (Some l, Some r) \<Rightarrow> returns (LInt (ap_add A l r))
         | _ \<Rightarrow> returns LOverdefined)
      else if ty \<in> {V64, I64} then EvalAdd64 A lhs rhs
      else if IsFloatZero lhs then returns rhs
      else if IsFloatZero rhs then returns lhs
      else returns LOverdefined)"

definition EvalSub :: "'i apint_ops \<Rightarrow> ty \<Rightarrow> ('i, 'f) lattice \<Rightarrow> ('i, 'f) lattice \<Rightarrow> ('i, 'f) lattice result" where
  "EvalSub A ty lhs rhs =
     (if ty \<in> {I8, I16, I32, I128} then
        (case (AsInt lhs, AsInt rhs) of
           (Some l, Some r) \<Rightarrow> returns (LInt (ap_sub A l r))
         | _ \<Rightarrow> returns LOverdefined)
      else if ty \<in> {V64, I64} then
        (case (lhs, AsInt rhs) of
           (LInt l, Some r) \<Rightarrow> returns (LInt (ap_sub A l r))
         | (LFrame obj off, Some r) \<Rightarrow> returns (LFrame obj (off - ap_getSExtValue A r))
         | (LGlobal g off, Some r) \<Rightarrow> returns (LGlobal g (off - ap_getSExtValue A r))
         | _ \<Rightarrow> returns LOverdefined)
      else returns LOverdefined)"

definition AndMask :: "'i apint_ops \<Rightarrow> 'i \<Rightarrow> 'i \<Rightarrow> 'i \<Rightarrow> ('i, 'f) lattice" where
  "AndMask A i known v = LMask known (ap_and A (ap_and A v i) known)"

definition EvalAnd :: "'i apint_ops \<Rightarrow> (nat \<Rightarrow> nat) \<Rightarrow> ty \<Rightarrow> ('i, 'f) lattice \<Rightarrow> ('i, 'f) lattice \<Rightarrow>
    ('i, 'f) lattice result" where
  "EvalAnd A OA ty lhs rhs =
     (if ty \<in> {I8, I16, I32, I128} then
        (case (lhs, rhs) of
           (LInt l, LInt r) \<Rightarrow> returns (LInt (ap_and A l r))
         | (LInt l, LMask k v) \<Rightarrow> returns (AndMask A l k v)
         | (LMask k v, LInt r) \<Rightarrow> returns (AndMask A r k v)
         | _ \<Rightarrow> returns LOverdefined)
      else if ty \<in> {V64, I64} then
        (case (lhs, rhs) of
           (LInt l, LInt r) \<Rightarrow> returns (LInt (ap_and A l r))
         | (LInt l, LMask k v) \<Rightarrow> returns (AndMask A l k v)
         | (LFrame obj off, LInt r) \<Rightarrow>
             (if off = 0 \<and> unat (ap_getSExtValue A r) < OA obj then returns (CreateInteger64 A 0)
              else returns LOverdefined)
         | (LGlobal g off, LInt r) \<Rightarrow>
             (case g_align g of
                Some al \<Rightarrow>
                  (if off = 0 \<and> unat (ap_getSExtValue A r) < al mod 2 ^ 32 then returns (CreateInteger64 A 0)
                   else returns LOverdefined)
              | None \<Rightarrow> returns LOverdefined)
         | (LMask k v, LInt r) \<Rightarrow> returns (AndMask A r k v)
         | _ \<Rightarrow> returns LOverdefined)
      else unreachable)"

definition FrameOr :: "'i apint_ops \<Rightarrow> (nat \<Rightarrow> nat) \<Rightarrow> nat \<Rightarrow> 64 word \<Rightarrow> 'i \<Rightarrow> ('i, 'f) lattice" where
  "FrameOr A OA obj off v =
     (let align = OA obj; val = ap_getZExtValue A v
      in if unat off mod align = 0 \<and> unat val < align then LFrame obj (off + val) else LOverdefined)"

definition EvalOr :: "'i apint_ops \<Rightarrow> (nat \<Rightarrow> nat) \<Rightarrow> ty \<Rightarrow> ('i, 'f) lattice \<Rightarrow> ('i, 'f) lattice \<Rightarrow>
    ('i, 'f) lattice result" where
  "EvalOr A OA ty lhs rhs =
     (if ty \<in> {I8, I16, I32, V64, I128} then
        (case (AsInt lhs, AsInt rhs) of
           (Some il, Some ir) \<Rightarrow> returns (LInt (ap_or A il ir))
         | _ \<Rightarrow> returns LOverdefined)
      else if ty = I64 then
        (case (lhs, rhs) of
           (LInt il, LInt ir) \<Rightarrow> returns (LInt (ap_or A il ir))
         | (LInt il, LFrame obj off) \<Rightarrow> returns (FrameOr A OA obj off il)
         | (LFrame obj off, LInt ir) \<Rightarrow> returns (FrameOr A OA obj off ir)
         | _ \<Rightarrow> returns LOverdefined)
      else unreachable)"

definition EvalXor :: "'i apint_ops \<Rightarrow> ty \<Rightarrow> ('i, 'f) lattice \<Rightarrow> ('i, 'f) lattice \<Rightarrow> ('i, 'f) lattice result" where
  "EvalXor A ty lhs rhs =
     (if IsIntegerType ty then
        (case (AsInt lhs, AsInt rhs) of
           (Some il, Some ir) \<Rightarrow> returns (LInt (ap_xor A il ir))
         | _ \<Rightarrow> returns LOverdefined)
      else unreachable)"

text \<open>The rules left to do: powers, copied signs, some overflow tests, remainders and high products.\<close>

definition EvalBinaryTodo :: "('i, 'f) lattice \<Rightarrow> ('i, 'f) lattice \<Rightarrow> ('i, 'f) lattice result" where
  "EvalBinaryTodo lhs rhs = returns LOverdefined"

definition EvalOUAdd :: "'i apint_ops \<Rightarrow> ty \<Rightarrow> ('i, 'f) lattice \<Rightarrow> ('i, 'f) lattice \<Rightarrow> ('i, 'f) lattice result" where
  "EvalOUAdd A ty lhs rhs =
     (case (AsInt lhs, AsInt rhs) of
        (Some l, Some r) \<Rightarrow> MakeBoolean A (ap_uadd_ov A l r) ty
      | _ \<Rightarrow> returns LOverdefined)"

definition EvalOUMul :: "'i apint_ops \<Rightarrow> ty \<Rightarrow> ('i, 'f) lattice \<Rightarrow> ('i, 'f) lattice \<Rightarrow> ('i, 'f) lattice result" where
  "EvalOUMul A ty lhs rhs =
     (case (AsInt lhs, AsInt rhs) of
        (Some l, Some r) \<Rightarrow> MakeBoolean A (ap_umul_ov A l r) ty
      | _ \<Rightarrow> returns LOverdefined)"

definition EvalOSAdd :: "'i apint_ops \<Rightarrow> ty \<Rightarrow> ('i, 'f) lattice \<Rightarrow> ('i, 'f) lattice \<Rightarrow> ('i, 'f) lattice result" where
  "EvalOSAdd A ty lhs rhs =
     (case (AsInt lhs, AsInt rhs) of
        (Some l, Some r) \<Rightarrow> MakeBoolean A (ap_sadd_ov A l r) ty
      | _ \<Rightarrow> returns LOverdefined)"

definition EvalUDiv :: "'i apint_ops \<Rightarrow> ty \<Rightarrow> ('i, 'f) lattice \<Rightarrow> ('i, 'f) lattice \<Rightarrow> ('i, 'f) lattice result" where
  "EvalUDiv A ty lhs rhs =
     (if IsIntegerType ty then
        (case (AsInt lhs, AsInt rhs) of
           (Some il, Some ir) \<Rightarrow>
             (if \<not> ap_is_null A ir then returns (LInt (ap_udiv A il ir)) else returns LUndefined)
         | _ \<Rightarrow> returns LOverdefined)
      else returns LOverdefined)"

definition EvalSDiv :: "'i apint_ops \<Rightarrow> ty \<Rightarrow> ('i, 'f) lattice \<Rightarrow> ('i, 'f) lattice \<Rightarrow> ('i, 'f) lattice result" where
  "EvalSDiv A ty lhs rhs =
     (if IsIntegerType ty then
        (case (AsInt lhs, AsInt rhs) of
           (Some il, Some ir) \<Rightarrow>
             (if \<not> ap_is_null A ir then returns (LInt (ap_sdiv A il ir)) else returns LUndefined)
         | _ \<Rightarrow> returns LOverdefined)
      else returns LOverdefined)"

definition EvalMul :: "'i apint_ops \<Rightarrow> ('i, 'f) apfloat_ops \<Rightarrow> ty \<Rightarrow> ('i, 'f) lattice \<Rightarrow> ('i, 'f) lattice \<Rightarrow>
    ('i, 'f) lattice result" where
  "EvalMul A F ty lhs rhs =
     (if IsIntegerType ty then
        (case (AsInt lhs, AsInt rhs) of
           (Some il, Some ir) \<Rightarrow> returns (LInt (ap_mul A il ir))
         | _ \<Rightarrow> returns LOverdefined)
      else if (case AsFloat lhs of Some il \<Rightarrow> af_isZero F il | None \<Rightarrow> False) then returns LFloatZero
      else if (case AsFloat rhs of Some ir \<Rightarrow> af_isZero F ir | None \<Rightarrow> False) then returns LFloatZero
      else returns LOverdefined)"

definition shift_int :: "'i apint_ops \<Rightarrow> bitwise \<Rightarrow> 'i \<Rightarrow> 'i \<Rightarrow> 'i" where
  "shift_int A kind i b =
     (case kind of
        SRL \<Rightarrow> ap_lshr A i b
      | SRA \<Rightarrow> ap_ashr A i b
      | SLL \<Rightarrow> ap_shl A i b
      | ROTL \<Rightarrow> ap_rotl A i b
      | ROTR \<Rightarrow> ap_rotr A i b)"

definition shifted_in_zeros :: "'i apint_ops \<Rightarrow> ty \<Rightarrow> 'i \<Rightarrow> ('i, 'f) lattice" where
  "shifted_in_zeros A ty b =
     (let bits = GetBitWidth ty; one = ap_make A bits 1 True
      in LMask (ap_sub A (ap_shl A one b) one) (ap_make A bits 0 True))"

definition EvalBitwise :: "'i apint_ops \<Rightarrow> bitwise \<Rightarrow> ty \<Rightarrow> ('i, 'f) lattice \<Rightarrow> ('i, 'f) lattice \<Rightarrow>
    ('i, 'f) lattice result" where
  "EvalBitwise A kind ty lhs rhs =
     (case AsInt rhs of
        None \<Rightarrow> returns LOverdefined
      | Some b \<Rightarrow>
          (if IsIntegerType ty then
             (case lhs of
                LUndefined \<Rightarrow> returns lhs
              | LUnknown \<Rightarrow> returns lhs
              | LOverdefined \<Rightarrow>
                  (if kind = SLL then returns (shifted_in_zeros A ty b) else returns LOverdefined)
              | LInt i \<Rightarrow> returns (LInt (shift_int A kind i b))
              | LMask k v \<Rightarrow> returns (LMask (shift_int A kind k b) (shift_int A kind v b))
              | LFloat _ \<Rightarrow> unreachable
              | LFloatZero \<Rightarrow> unreachable
              | LRange _ \<Rightarrow> unreachable
              | _ \<Rightarrow>
                  (if ap_is_null A b then returns lhs
                   else if kind = SLL then returns (shifted_in_zeros A ty b)
                   else returns LOverdefined))
           else unreachable))"

definition EvalBinary :: "'i apint_ops \<Rightarrow> ('i, 'f) apfloat_ops \<Rightarrow> (nat \<Rightarrow> nat) \<Rightarrow> binary_op \<Rightarrow> ty \<Rightarrow>
    ('i, 'f) lattice \<Rightarrow> ('i, 'f) lattice \<Rightarrow> ('i, 'f) lattice result" where
  "EvalBinary A F OA kind ty l r =
     (if IsUnknown l \<or> IsUnknown r then Inl AssertFailed
      else if IsUndefined l \<or> IsUndefined r then returns LUndefined
      else case kind of
        B_SLL \<Rightarrow> EvalBitwise A SLL ty l r
      | B_SRA \<Rightarrow> EvalBitwise A SRA ty l r
      | B_SRL \<Rightarrow> EvalBitwise A SRL ty l r
      | B_ROTL \<Rightarrow> EvalBitwise A ROTL ty l r
      | B_ROTR \<Rightarrow> EvalBitwise A ROTR ty l r
      | B_ADD \<Rightarrow> EvalAdd A ty l r
      | B_SUB \<Rightarrow> EvalSub A ty l r
      | B_AND \<Rightarrow> EvalAnd A OA ty l r
      | B_OR \<Rightarrow> EvalOr A OA ty l r
      | B_XOR \<Rightarrow> EvalXor A ty l r
      | B_U_DIV \<Rightarrow> EvalUDiv A ty l r
      | B_S_DIV \<Rightarrow> EvalSDiv A ty l r
      | B_U_REM \<Rightarrow> EvalBinaryTodo l r
      | B_S_REM \<Rightarrow> EvalBinaryTodo l r
      | B_MUL \<Rightarrow> EvalMul A F ty l r
      | B_MUL_H_S \<Rightarrow> EvalBinaryTodo l r
      | B_MUL_H_U \<Rightarrow> EvalBinaryTodo l r
      | B_POW \<Rightarrow> EvalBinaryTodo l r
      | B_COPY_SIGN \<Rightarrow> EvalBinaryTodo l r
      | B_O_U_ADD \<Rightarrow> EvalOUAdd A ty l r
      | B_O_U_MUL \<Rightarrow> EvalOUMul A ty l r
      | B_O_U_SUB \<Rightarrow> EvalBinaryTodo l r
      | B_O_S_ADD \<Rightarrow> EvalOSAdd A ty l r
      | B_O_S_MUL \<Rightarrow> EvalBinaryTodo l r
      | B_O_S_SUB \<Rightarrow> EvalBinaryTodo l r)"

end
