(* ===== verification/SccpEvalSound.thy ===== *)
theory SccpEvalSound
  imports SccpEval
begin

text \<open>
  Soundness of the evaluation of \<open>SccpEval\<close>: if the operands of an instruction stand for the
  machine values an execution finds in its registers, the result of the evaluation stands for the
  value the instruction writes. \<open>int_result\<close> is the semantics of the integer instructions;
  the addresses are those of \<open>SccpLattice\<close>.
\<close>

subsection \<open>Semantics of the integer instructions\<close>

text \<open>
  The value of an instruction of width \<open>W\<close> on operands of width \<open>w\<close>; \<open>None\<close> where the instruction
  has no value: a division by zero, or an operation on floats.
\<close>

definition rotate_left :: "nat \<Rightarrow> nat \<Rightarrow> int \<Rightarrow> int" where
  "rotate_left W r x = take_bit W (push_bit r x OR drop_bit (W - r) x)"

definition signed_overflow :: "nat \<Rightarrow> int \<Rightarrow> bool" where
  "signed_overflow w s = (s < - (2 ^ (w - 1)) \<or> 2 ^ (w - 1) \<le> s)"

fun int_result :: "binary_op \<Rightarrow> nat \<Rightarrow> nat \<Rightarrow> int \<Rightarrow> int \<Rightarrow> int option" where
  "int_result B_ADD W w x y = Some (take_bit W (x + y))"
| "int_result B_SUB W w x y = Some (take_bit W (x - y))"
| "int_result B_MUL W w x y = Some (take_bit W (x * y))"
| "int_result B_AND W w x y = Some (x AND y)"
| "int_result B_OR W w x y = Some (x OR y)"
| "int_result B_XOR W w x y = Some (x XOR y)"
| "int_result B_U_DIV W w x y = (if y = 0 then None else Some (x div y))"
| "int_result B_S_DIV W w x y =
     (if y = 0 then None else Some (take_bit W (signed_value W x sdiv signed_value W y)))"
| "int_result B_U_REM W w x y = (if y = 0 then None else Some (x mod y))"
| "int_result B_S_REM W w x y =
     (if y = 0 then None else Some (take_bit W (signed_value W x smod signed_value W y)))"
| "int_result B_MUL_H_U W w x y = Some (drop_bit W (x * y))"
| "int_result B_MUL_H_S W w x y =
     Some (take_bit W (drop_bit W (signed_value W x * signed_value W y)))"
| "int_result B_SLL W w x y = Some (take_bit W (push_bit (nat y) x))"
| "int_result B_SRL W w x y = Some (drop_bit (nat y) x)"
| "int_result B_SRA W w x y = Some (take_bit W (drop_bit (nat y) (signed_value W x)))"
| "int_result B_ROTL W w x y = Some (rotate_left W (nat y mod W) x)"
| "int_result B_ROTR W w x y = Some (rotate_left W (W - nat y mod W) x)"
| "int_result B_O_U_ADD W w x y = Some (of_bool (2 ^ w \<le> x + y))"
| "int_result B_O_U_SUB W w x y = Some (of_bool (x < y))"
| "int_result B_O_U_MUL W w x y = Some (of_bool (2 ^ w \<le> x * y))"
| "int_result B_O_S_ADD W w x y =
     Some (of_bool (signed_overflow w (signed_value w x + signed_value w y)))"
| "int_result B_O_S_SUB W w x y =
     Some (of_bool (signed_overflow w (signed_value w x - signed_value w y)))"
| "int_result B_O_S_MUL W w x y =
     Some (of_bool (signed_overflow w (signed_value w x * signed_value w y)))"
| "int_result B_POW W w x y = None"
| "int_result B_COPY_SIGN W w x y = None"

text \<open>The verifier's rules for the widths: those of an overflow test are the operands' own.\<close>

fun widths_fit :: "binary_op \<Rightarrow> nat \<Rightarrow> nat \<Rightarrow> nat \<Rightarrow> bool" where
  "widths_fit B_O_U_ADD W wx wy = (wx = wy)"
| "widths_fit B_O_U_SUB W wx wy = (wx = wy)"
| "widths_fit B_O_U_MUL W wx wy = (wx = wy)"
| "widths_fit B_O_S_ADD W wx wy = (wx = wy)"
| "widths_fit B_O_S_SUB W wx wy = (wx = wy)"
| "widths_fit B_O_S_MUL W wx wy = (wx = wy)"
| "widths_fit B_SLL W wx wy = (wx = W)"
| "widths_fit B_SRL W wx wy = (wx = W)"
| "widths_fit B_SRA W wx wy = (wx = W)"
| "widths_fit B_ROTL W wx wy = (wx = W)"
| "widths_fit B_ROTR W wx wy = (wx = W)"
| "widths_fit _ W wx wy = (wx = W \<and> wy = W)"

subsection \<open>Where addresses may move\<close>

text \<open>
  Moving a pointer by \<open>d\<close> bytes has a meaning only inside of the object it points into.
\<close>

fun stays_inside :: "mem_env \<Rightarrow> ('i, 'f) lattice \<Rightarrow> int \<Rightarrow> int \<Rightarrow> bool" where
  "stays_inside E (LFrame obj off) x d = frame_valid E obj (sint off + d)"
| "stays_inside E (LGlobal g off) x d = glob_valid E g (sint off + d)"
| "stays_inside E LPointer x d = (take_bit 64 (x + d) \<noteq> 0)"
| "stays_inside E (LRange g) x d =
     (\<forall>off. glob_valid E g off \<and> x = glob_addr E g off \<longrightarrow> glob_valid E g (off + d))"
| "stays_inside E _ x d = True"

fun moves_inside :: "mem_env \<Rightarrow> binary_op \<Rightarrow> ('i, 'f) lattice \<Rightarrow> ('i, 'f) lattice \<Rightarrow> int \<Rightarrow> int \<Rightarrow> bool" where
  "moves_inside E B_ADD l r x y =
     (stays_inside E l x (signed_value 64 y) \<and> stays_inside E r y (signed_value 64 x))"
| "moves_inside E B_SUB l r x y = stays_inside E l x (- signed_value 64 y)"
| "moves_inside E B_OR l r x y =
     (stays_inside E l x (signed_value 64 y) \<and> stays_inside E r y (signed_value 64 x))"
| "moves_inside E _ l r x y = True"

text \<open>
  Offsets inside of an object fit a signed 64-bit integer, and objects lie at multiples of their
  alignments, which are powers of two.
\<close>

definition objects_ok :: "mem_env \<Rightarrow> (nat \<Rightarrow> nat) \<Rightarrow> bool" where
  "objects_ok E OA \<longleftrightarrow>
     (\<forall>obj off. frame_valid E obj off \<longrightarrow> - (2 ^ 63) \<le> off \<and> off < 2 ^ 63) \<and>
     (\<forall>g off. glob_valid E g off \<longrightarrow> - (2 ^ 63) \<le> off \<and> off < 2 ^ 63) \<and>
     (\<forall>obj. \<exists>n \<le> 32. OA obj = 2 ^ n \<and> 2 ^ n dvd frame_base E obj) \<and>
     (\<forall>g off al. glob_valid E g off \<longrightarrow> g_align g = Some al \<longrightarrow>
        (\<exists>n < 32. al = 2 ^ n \<and> 2 ^ n dvd glob_base E g))"

lemma objects_okD:
  assumes "objects_ok E OA"
  shows "frame_valid E obj off \<Longrightarrow> - (2 ^ 63) \<le> off \<and> off < 2 ^ 63"
    and "glob_valid E g off \<Longrightarrow> - (2 ^ 63) \<le> off \<and> off < 2 ^ 63"
    and "\<exists>n \<le> 32. OA obj = 2 ^ n \<and> 2 ^ n dvd frame_base E obj"
    and "glob_valid E g off \<Longrightarrow> g_align g = Some al \<Longrightarrow> \<exists>n < 32. al = 2 ^ n \<and> 2 ^ n dvd glob_base E g"
  using assms unfolding objects_ok_def by blast+

lemma sint_add_exact:
  assumes "- (2 ^ 63) \<le> sint (a::64 word) + d" "sint a + d < 2 ^ 63"
  shows "sint (a + word_of_int d) = sint a + d"
proof -
  have "a + word_of_int d = word_of_int (sint a + d)" by simp
  then have "sint (a + word_of_int d) = signed_take_bit 63 (sint a + d)"
    by (simp only: sint_sbintrunc') simp
  then show ?thesis using assms by (simp add: signed_take_bit_int_eq_self)
qed

lemma sample_objects_ok: "objects_ok sample_env (\<lambda>_. 64)"
proof -
  have "\<exists>n < 32. (64::nat) = 2 ^ n \<and> 2 ^ n dvd glob_base sample_env (sample_atom i)" for i
    by (rule exI[of _ 6]) (simp add: sample_env_def)
  moreover have "\<exists>n \<le> 32. (64::nat) = 2 ^ n \<and> 2 ^ n dvd frame_base sample_env obj" for obj
    by (rule exI[of _ 6]) (simp add: sample_env_def)
  moreover have "frame_valid sample_env obj off \<Longrightarrow> - (2 ^ 63) \<le> off \<and> off < 2 ^ 63" for obj off
    by (simp add: sample_env_def)
  ultimately show ?thesis by (auto simp: objects_ok_def sample_env_valid)
qed

context numbers
begin

subsection \<open>Addresses\<close>

lemma frame_move:
  assumes "objects_ok E OA" "frame_valid E obj (sint (off :: 64 word) + d)"
  shows "sint (off + word_of_int d) = sint off + d \<and>
    frame_addr E obj (sint off + d) = take_bit 64 (frame_addr E obj (sint off) + d)"
  using objects_okD(1)[OF assms] sint_add_exact[of off d] by (simp add: frame_addr_def take_bit_add_left add.assoc)

lemma glob_move:
  assumes "objects_ok E OA" "glob_valid E g (sint (off :: 64 word) + d)"
  shows "sint (off + word_of_int d) = sint off + d \<and>
    glob_addr E g (sint off + d) = take_bit 64 (glob_addr E g (sint off) + d)"
  using objects_okD(2)[OF assms] sint_add_exact[of off d] by (simp add: glob_addr_def take_bit_add_left add.assoc)

lemma range_move: "glob_addr E g (off + d) = take_bit 64 (glob_addr E g off + d)"
  by (simp add: glob_addr_def take_bit_add_left add.assoc)

lemma uval_signed: "ap_width A x = w \<Longrightarrow> take_bit w (signed_value w (uval x)) = uval x"
proof -
  assume w: "ap_width A x = w"
  have "take_bit w (signed_value w (uval x)) = take_bit w (uval x)"
    using width_pos[of x] w by (simp add: signed_value_def take_bit_signed_take_bit)
  then show ?thesis using w take_bit_uval[of x] by simp
qed

text \<open>Adding an integer to an address is adding its signed value.\<close>

lemma take_bit_add_signed:
  "ap_width A x = 64 \<Longrightarrow> take_bit 64 (a + signed_value 64 (uval x)) = take_bit 64 (a + uval x)"
  by (rule take_bit_add_cong) (use uval_signed take_bit_uval in metis)

lemma take_bit_sub_signed:
  "ap_width A x = 64 \<Longrightarrow> take_bit 64 (a + - signed_value 64 (uval x)) = take_bit 64 (a - uval x)"
  unfolding diff_conv_add_uminus[symmetric]
  by (rule take_bit_diff_cong) (use uval_signed take_bit_uval in metis)

subsection \<open>Shifts and rotations\<close>

end

text \<open>The bit of the operand that bit \<open>n\<close> of a shifted or rotated value of width \<open>W\<close> comes from.\<close>

fun source_bit :: "bitwise \<Rightarrow> nat \<Rightarrow> nat \<Rightarrow> nat \<Rightarrow> nat option" where
  "source_bit SRL W b n = Some (n + b)"
| "source_bit SRA W b n = Some (min (n + b) (W - 1))"
| "source_bit SLL W b n = (if b \<le> n then Some (n - b) else None)"
| "source_bit ROTL W b n = Some ((n + (W - b mod W)) mod W)"
| "source_bit ROTR W b n = Some ((n + b mod W) mod W)"

context numbers
begin

lemma shift_width: "ap_width A (shift_int A kind x b) = ap_width A x"
  by (cases kind) (simp_all add: shift_int_def shift_laws)

lemma shift_bits:
  assumes "n < ap_width A x"
  shows "bit (uval (shift_int A kind x b)) n =
    (case source_bit kind (ap_width A x) (nat (uval b)) n of None \<Rightarrow> False | Some m \<Rightarrow> bit (uval x) m)"
proof (cases kind)
  case SRA
  have "bit (signed_value (ap_width A x) (uval x)) m = bit (uval x) (min m (ap_width A x - 1))" for m
    using signed_value_bits[of m x] signed_value_high_bits[of x m] width_pos[of x]
    by (cases "m < ap_width A x") (auto simp: min_def)
  then show ?thesis using assms SRA
    by (simp add: shift_int_def ashr bit_take_bit_iff bit_drop_bit_eq add.commute)
qed (use assms in \<open>auto simp: shift_int_def shl lshr bit_take_bit_iff bit_push_bit_iff bit_drop_bit_eq
       rotl_bits rotr_bits add.commute\<close>)

text \<open>Known bits move along with the value.\<close>

lemma shift_mask:
  assumes "uval x AND uval k = uval m AND uval k" "ap_width A x = ap_width A k" "ap_width A m = ap_width A k"
  shows "uval (shift_int A kind x b) AND uval (shift_int A kind k b) =
    uval (shift_int A kind m b) AND uval (shift_int A kind k b)"
proof -
  have "bit (uval (shift_int A kind x b)) n = bit (uval (shift_int A kind m b)) n"
    if k: "bit (uval (shift_int A kind k b)) n" for n
  proof -
    have n: "n < ap_width A k"
      using k no_high_bits[of "shift_int A kind k b" n] shift_width[of kind k b] by force
    show ?thesis
      using assms(1) n k shift_bits[of n x kind b] shift_bits[of n k kind b] shift_bits[of n m kind b]
        assms(2,3) by (auto simp: and_eq_iff_bits split: option.splits)
  qed
  then show ?thesis by (simp add: and_eq_iff_bits)
qed

lemma shifted_in_zeros_sound:
  assumes "ap_width A z = GetBitWidth t" "uval z = take_bit (GetBitWidth t) (push_bit (nat (uval b)) x)"
  shows "in_gamma A uval F E (shifted_in_zeros A t b) (VInt z)"
  using assms make_zero[of "GetBitWidth t" True]
  by (auto simp: shifted_in_zeros_def Let_def low_mask_width and_zero_iff_bits low_mask_bits
      bit_take_bit_iff bit_push_bit_iff)

subsection \<open>Instruction by instruction\<close>

lemma gamma_AsInt:
  assumes "AsInt l = Some i" "in_gamma A uval F E l (VInt x)"
  shows "ap_width A i = ap_width A x \<and> uval i = uval x"
  using assms by (cases l) auto

lemma gamma_LInt:
  "ap_width A z = ap_width A i \<Longrightarrow> uval z = uval i \<Longrightarrow> in_gamma A uval F E (LInt i) (VInt z)"
  by simp

text \<open>Two constants are folded; the rules answer overdefined when one operand is not a constant.\<close>

lemma constant_operands:
  assumes "in_gamma A uval F E l (VInt x)" "in_gamma A uval F E r (VInt y)"
  obtains (constants) i j where "AsInt l = Some i" "AsInt r = Some j"
    "ap_width A i = ap_width A x" "ap_width A j = ap_width A y" "uval i = uval x" "uval j = uval y"
  | (other) "AsInt l = None \<or> AsInt r = None"
  using gamma_AsInt[OF _ assms(1)] gamma_AsInt[OF _ assms(2)] by (metis not_None_eq)

lemma MakeBoolean_sound:
  assumes "MakeBoolean A b t = Inr res" "ap_width A z = GetBitWidth t" "uval z = of_bool b"
  shows "in_gamma A uval F E res (VInt z)"
  using assms make_one[of "GetBitWidth t" True] make_zero[of "GetBitWidth t" True]
  by (cases b) (auto simp: MakeBoolean_def GetBitWidth_def split: if_splits)

lemma EvalOverflow_sound:
  assumes "in_gamma A uval F E l (VInt x)" "in_gamma A uval F E r (VInt y)" "ap_width A x = ap_width A y"
    and "ap_width A z = GetBitWidth t"
  shows "EvalOUAdd A t l r = Inr res \<Longrightarrow> uval z = of_bool (2 ^ ap_width A y \<le> uval x + uval y) \<Longrightarrow>
      in_gamma A uval F E res (VInt z)"
    and "EvalOUMul A t l r = Inr res \<Longrightarrow> uval z = of_bool (2 ^ ap_width A y \<le> uval x * uval y) \<Longrightarrow>
      in_gamma A uval F E res (VInt z)"
    and "EvalOSAdd A t l r = Inr res \<Longrightarrow> uval z = of_bool (signed_overflow (ap_width A y)
        (signed_value (ap_width A y) (uval x) + signed_value (ap_width A y) (uval y))) \<Longrightarrow>
      in_gamma A uval F E res (VInt z)"
proof -
  note res = MakeBoolean_sound[OF _ assms(4)]
  from assms(1,2) show "in_gamma A uval F E res (VInt z)"
    if "EvalOUAdd A t l r = Inr res" "uval z = of_bool (2 ^ ap_width A y \<le> uval x + uval y)"
  proof (cases rule: constant_operands)
    case (constants i j)
    then show ?thesis using that assms(3) by (intro res) (simp_all add: EvalOUAdd_def uadd_ov)
  qed (use that in \<open>auto simp: EvalOUAdd_def split: option.splits\<close>)
  from assms(1,2) show "in_gamma A uval F E res (VInt z)"
    if "EvalOUMul A t l r = Inr res" "uval z = of_bool (2 ^ ap_width A y \<le> uval x * uval y)"
  proof (cases rule: constant_operands)
    case (constants i j)
    then show ?thesis using that assms(3) by (intro res) (simp_all add: EvalOUMul_def umul_ov)
  qed (use that in \<open>auto simp: EvalOUMul_def split: option.splits\<close>)
  from assms(1,2) show "in_gamma A uval F E res (VInt z)"
    if "EvalOSAdd A t l r = Inr res" "uval z = of_bool (signed_overflow (ap_width A y)
        (signed_value (ap_width A y) (uval x) + signed_value (ap_width A y) (uval y)))"
  proof (cases rule: constant_operands)
    case (constants i j)
    then have "ap_sadd_ov A i j = signed_overflow (ap_width A y)
        (signed_value (ap_width A y) (uval x) + signed_value (ap_width A y) (uval y))"
      using assms(3) by (simp add: sadd_ov signed_overflow_def Let_def)
    then show ?thesis using that constants by (intro res) (simp_all add: EvalOSAdd_def)
  qed (use that in \<open>auto simp: EvalOSAdd_def split: option.splits\<close>)
qed

lemma EvalUDiv_sound:
  assumes "in_gamma A uval F E l (VInt x)" "in_gamma A uval F E r (VInt y)"
    and "ap_width A x = W" "ap_width A y = W" "ap_width A z = W" "uval y \<noteq> 0"
    and "uval z = uval x div uval y" "EvalUDiv A t l r = Inr res"
  shows "in_gamma A uval F E res (VInt z)"
  using assms(1,2)
proof (cases rule: constant_operands)
  case (constants i j)
  then show ?thesis using assms(3-) by (auto simp: EvalUDiv_def is_null udiv split: if_splits)
qed (use assms(8) in \<open>auto simp: EvalUDiv_def split: option.splits if_splits\<close>)

lemma EvalSDiv_sound:
  assumes "in_gamma A uval F E l (VInt x)" "in_gamma A uval F E r (VInt y)"
    and "ap_width A x = W" "ap_width A y = W" "ap_width A z = W" "uval y \<noteq> 0"
    and "uval z = take_bit W (signed_value W (uval x) sdiv signed_value W (uval y))"
    and "EvalSDiv A t l r = Inr res"
  shows "in_gamma A uval F E res (VInt z)"
  using assms(1,2)
proof (cases rule: constant_operands)
  case (constants i j)
  then show ?thesis using assms(3-) by (auto simp: EvalSDiv_def is_null sdiv split: if_splits)
qed (use assms(8) in \<open>auto simp: EvalSDiv_def split: option.splits if_splits\<close>)

lemma EvalXor_sound:
  assumes "in_gamma A uval F E l (VInt x)" "in_gamma A uval F E r (VInt y)"
    and "ap_width A x = ap_width A y" "ap_width A z = ap_width A y" "uval z = uval x XOR uval y"
    and "EvalXor A t l r = Inr res"
  shows "in_gamma A uval F E res (VInt z)"
  using assms(1,2)
proof (cases rule: constant_operands)
  case (constants i j)
  then show ?thesis using assms(3-) by (auto simp: EvalXor_def bit_xor split: if_splits)
qed (use assms(6) in \<open>auto simp: EvalXor_def split: option.splits if_splits\<close>)

lemma EvalMul_sound:
  assumes "in_gamma A uval F E l (VInt x)" "in_gamma A uval F E r (VInt y)" "IsIntegerType t"
    and "ap_width A x = ap_width A y" "ap_width A z = ap_width A y"
    and "uval z = take_bit (ap_width A y) (uval x * uval y)" "EvalMul A F t l r = Inr res"
  shows "in_gamma A uval F E res (VInt z)"
  using assms(1,2)
proof (cases rule: constant_operands)
  case (constants i j)
  then show ?thesis using assms(3-) by (auto simp: EvalMul_def mul)
qed (use assms(3,7) in \<open>auto simp: EvalMul_def split: option.splits\<close>)

lemma shift_cong:
  assumes "ap_width A i = ap_width A x" "uval i = uval x" "uval b = uval y"
  shows "uval (shift_int A kind i b) = uval (shift_int A kind x y)"
proof -
  have "bit (uval (shift_int A kind i b)) n = bit (uval (shift_int A kind x y)) n"
    if "n < ap_width A x" for n
    using that assms shift_bits[of n i kind b] shift_bits[of n x kind y] by (simp split: option.split)
  then show ?thesis
    using assms(1) uval_eq_iff_bits[of "shift_int A kind i b" "shift_int A kind x y"]
    by (simp add: shift_width)
qed

lemma shift_by_zero: "uval b = 0 \<Longrightarrow> uval (shift_int A kind x b) = uval x"
  using uval_eq_iff_bits[of "shift_int A kind x b" x]
  by (cases kind) (auto simp: shift_width shift_bits min_absorb1)

lemma EvalBitwise_sound:
  assumes l: "in_gamma A uval F E l (VInt x)" "wf_lattice A uval l" and r: "in_gamma A uval F E r (VInt y)"
    and w: "ap_width A x = GetBitWidth t" and e: "EvalBitwise A kind t l r = Inr res"
  shows "in_gamma A uval F E res (VInt (shift_int A kind x y))"
proof -
  consider "res = LOverdefined" | b where "AsInt r = Some b" "IsIntegerType t"
    using e by (cases "AsInt r") (auto simp: EvalBitwise_def split: if_splits)
  then show ?thesis
  proof cases
    case (2 b)
    then have b: "uval b = uval y" using gamma_AsInt[OF _ r] by simp
    have zeros: "in_gamma A uval F E (shifted_in_zeros A t b) (VInt (shift_int A SLL x y))"
      by (rule shifted_in_zeros_sound) (use w b in \<open>simp_all add: shift_int_def shl\<close>)
    have moved: "in_gamma A uval F E res (VInt (shift_int A kind x y))"
      if "(if ap_is_null A b then returns l else if kind = SLL then returns (shifted_in_zeros A t b)
        else returns LOverdefined) = Inr res" "in_gamma A uval F E l (VInt (shift_int A kind x y)) \<or> uval y \<noteq> 0"
      using that zeros b by (auto simp: is_null split: if_splits)
    have z: "ap_width A (shift_int A kind x y) = ap_width A x"
        "uval y = 0 \<Longrightarrow> uval (shift_int A kind x y) = uval x"
      by (simp_all add: shift_width shift_by_zero)
    show ?thesis
    proof (cases l)
      case (LMask k m)
      have xk: "ap_width A x = ap_width A k" "ap_width A m = ap_width A k"
          "uval x AND uval k = uval m AND uval k"
        using l LMask by auto
      have "uval (shift_int A kind x y) = uval (shift_int A kind x b)"
        using shift_cong[of x x b y kind] b by simp
      moreover have "res = LMask (shift_int A kind k b) (shift_int A kind m b)"
        using e 2 LMask by (simp add: EvalBitwise_def)
      ultimately show ?thesis using shift_mask[OF xk(3,1,2), of kind b] xk by (simp add: shift_width)
    next
      case (LInt i)
      then have "res = LInt (shift_int A kind i b)" using e 2 by (simp add: EvalBitwise_def)
      then show ?thesis using l LInt shift_cong[of i x b y kind] b by (simp add: shift_width)
    next
      case LOverdefined
      then show ?thesis using e 2 zeros by (auto simp: EvalBitwise_def split: if_splits)
    next
      case (LFrame obj off)
      show ?thesis by (rule moved) (use e 2 l z LFrame in \<open>auto simp: EvalBitwise_def\<close>)
    next
      case (LGlobal g off)
      show ?thesis by (rule moved) (use e 2 l z LGlobal in \<open>auto simp: EvalBitwise_def\<close>)
    next
      case LPointer
      show ?thesis by (rule moved) (use e 2 l z LPointer in \<open>auto simp: EvalBitwise_def\<close>)
    qed (use e 2 l in \<open>auto simp: EvalBitwise_def\<close>)
  qed simp
qed

subsection \<open>Pointer arithmetic\<close>

lemma frame_step:
  assumes "objects_ok E OA" "in_gamma A uval F E (LFrame obj off) (VInt x)" "ap_width A y = 64"
    and "stays_inside E (LFrame obj off) (uval x) (signed_value 64 (uval y))"
    and "ap_width A z = 64" "uval z = take_bit 64 (uval x + uval y)"
  shows "in_gamma A uval F E (LFrame obj (off + word_of_int (signed_value 64 (uval y)))) (VInt z)"
  using assms frame_move[OF assms(1), of obj off "signed_value 64 (uval y)"]
    take_bit_add_signed[OF assms(3), of "uval x"] by auto

lemma glob_step:
  assumes "objects_ok E OA" "in_gamma A uval F E (LGlobal g off) (VInt x)" "ap_width A y = 64"
    and "stays_inside E (LGlobal g off) (uval x) (signed_value 64 (uval y))"
    and "ap_width A z = 64" "uval z = take_bit 64 (uval x + uval y)"
  shows "in_gamma A uval F E (LGlobal g (off + word_of_int (signed_value 64 (uval y)))) (VInt z)"
  using assms glob_move[OF assms(1), of g off "signed_value 64 (uval y)"]
    take_bit_add_signed[OF assms(3), of "uval x"] by auto

text \<open>The range of a symbol covers the address itself; a stack address is a non-null pointer.\<close>

lemma glob_in_range: "in_gamma A uval F E (LGlobal g off) v \<Longrightarrow> in_gamma A uval F E (LRange g) v"
  by auto

lemma frame_in_pointer:
  "env_ok E \<Longrightarrow> in_gamma A uval F E (LFrame obj off) v \<Longrightarrow> in_gamma A uval F E LPointer v"
  by (auto simp: env_ok_def)

lemma range_step:
  assumes "in_gamma A uval F E (LRange g) (VInt x)" "ap_width A y = 64"
    and "stays_inside E (LRange g) (uval x) (signed_value 64 (uval y))"
    and "ap_width A z = 64" "uval z = take_bit 64 (uval x + uval y)"
  shows "in_gamma A uval F E (LRange g) (VInt z)"
  using assms range_move[of E g _ "signed_value 64 (uval y)"]
    take_bit_add_signed[OF assms(2), of "uval x"] by auto

lemma pointer_step:
  assumes "in_gamma A uval F E LPointer (VInt x)" "ap_width A y = 64"
    and "stays_inside E LPointer (uval x) (signed_value 64 (uval y))"
    and "ap_width A z = 64" "uval z = take_bit 64 (uval x + uval y)"
  shows "in_gamma A uval F E LPointer (VInt z)"
  using assms take_bit_add_signed[OF assms(2), of "uval x"] by auto

lemma gamma_getSExt:
  "in_gamma A uval F E (LInt i) (VInt y) \<Longrightarrow> ap_width A y = 64 \<Longrightarrow>
    ap_getSExtValue A i = word_of_int (signed_value 64 (uval y))"
  using getSExtValue[of i] by simp

lemma EvalAdd64_sound:
  assumes l: "in_gamma A uval F E l (VInt x)" and r: "in_gamma A uval F E r (VInt y)"
    and w: "ap_width A x = 64" "ap_width A y = 64"
    and z: "ap_width A z = 64" "uval z = take_bit 64 (uval x + uval y)"
    and E: "objects_ok E OA" "env_ok E"
    and ml: "stays_inside E l (uval x) (signed_value 64 (uval y))"
    and mr: "stays_inside E r (uval y) (signed_value 64 (uval x))"
    and e: "EvalAdd64 A l r = Inr res"
  shows "in_gamma A uval F E res (VInt z)"
proof -
  have z': "uval z = take_bit 64 (uval y + uval x)" using z by (simp add: add.commute)
  have global_right: ?thesis if "r = LGlobal g off" "res = LRange g" for g off
    using glob_in_range[OF glob_step[OF E(1) r[unfolded that(1)] w(1) mr[unfolded that(1)] z(1) z']] that
    by simp
  show ?thesis
  proof (cases l)
    case (LInt i)
    show ?thesis
    proof (cases r)
      case (LInt j)
      then show ?thesis using e l r w z \<open>l = LInt i\<close> by (auto simp: EvalAdd64_def add)
    next
      case (LFrame obj off)
      then show ?thesis
        using e LInt frame_step[OF E(1) r[unfolded LFrame] w(1) mr[unfolded LFrame] z(1) z']
          gamma_getSExt[OF l[unfolded LInt] w(1)] by (auto simp: EvalAdd64_def)
    next
      case (LGlobal g off)
      then show ?thesis
        using e LInt glob_step[OF E(1) r[unfolded LGlobal] w(1) mr[unfolded LGlobal] z(1) z']
          gamma_getSExt[OF l[unfolded LInt] w(1)] by (auto simp: EvalAdd64_def)
    qed (use e LInt in \<open>auto simp: EvalAdd64_def\<close>)
  next
    case (LFrame obj off)
    note step = frame_step[OF E(1) l[unfolded LFrame] w(2) ml[unfolded LFrame] z]
    have "res = LPointer \<or> (\<exists>i. r = LInt i \<and> res = LFrame obj (off + ap_getSExtValue A i))"
      using e r LFrame by (cases r) (auto simp: EvalAdd64_def)
    then show ?thesis
      using step frame_in_pointer[OF E(2) step] gamma_getSExt[OF _ w(2)] r by fastforce
  next
    case (LGlobal g off)
    note step = glob_step[OF E(1) l[unfolded LGlobal] w(2) ml[unfolded LGlobal] z]
    have "res = LRange g \<or> (\<exists>i. r = LInt i \<and> res = LGlobal g (off + ap_getSExtValue A i))"
      using e r LGlobal by (cases r) (auto simp: EvalAdd64_def)
    then show ?thesis
      using step glob_in_range[OF step] gamma_getSExt[OF _ w(2)] r by fastforce
  next
    case LPointer
    then have "res = LPointer" using e r by (cases r) (auto simp: EvalAdd64_def)
    then show ?thesis using pointer_step[OF l[unfolded LPointer] w(2) ml[unfolded LPointer] z] by simp
  next
    case (LRange g)
    then have "res = LRange g" using e r by (cases r) (auto simp: EvalAdd64_def)
    then show ?thesis using range_step[OF l[unfolded LRange] w(2) ml[unfolded LRange] z] by simp
  qed (use e l global_right in \<open>auto simp: EvalAdd64_def split: lattice.splits\<close>)
qed

lemma EvalAdd_sound:
  assumes "in_gamma A uval F E l (VInt x)" "in_gamma A uval F E r (VInt y)"
    and "IsIntegerType t" "ap_width A x = GetBitWidth t" "ap_width A y = GetBitWidth t"
    and "ap_width A z = GetBitWidth t" "uval z = take_bit (GetBitWidth t) (uval x + uval y)"
    and "objects_ok E OA" "env_ok E" "stays_inside E l (uval x) (signed_value 64 (uval y))"
    and "stays_inside E r (uval y) (signed_value 64 (uval x))" "EvalAdd A t l r = Inr res"
  shows "in_gamma A uval F E res (VInt z)"
proof (cases "t \<in> {V64, I64}")
  case True
  then have "GetBitWidth t = 64" "EvalAdd64 A l r = Inr res"
    using assms(12) by (auto simp: EvalAdd_def)
  then show ?thesis using EvalAdd64_sound[OF assms(1,2)] assms(4-11) by simp
next
  case False
  then have t: "t \<in> {I8, I16, I32, I128}" using assms(3) by (cases t) auto
  from assms(1,2) show ?thesis
  proof (cases rule: constant_operands)
    case (constants i j)
    then show ?thesis using assms(4-7,12) t by (auto simp: EvalAdd_def add)
  qed (use assms(12) t in \<open>auto simp: EvalAdd_def split: option.splits\<close>)
qed

lemma move_back:
  assumes "ap_width A y = 64" "in_gamma A uval F E (LInt j) (VInt y)"
  shows "off - ap_getSExtValue A j = off + word_of_int (- signed_value 64 (uval y))"
  using gamma_getSExt[OF assms(2,1)] by simp

lemma EvalSub_sound:
  assumes l: "in_gamma A uval F E l (VInt x)" and r: "in_gamma A uval F E r (VInt y)"
    and w: "ap_width A x = GetBitWidth t" "ap_width A y = GetBitWidth t"
    and z: "ap_width A z = GetBitWidth t" "uval z = take_bit (GetBitWidth t) (uval x - uval y)"
    and E: "objects_ok E OA" and m: "stays_inside E l (uval x) (- signed_value 64 (uval y))"
    and e: "EvalSub A t l r = Inr res"
  shows "in_gamma A uval F E res (VInt z)"
proof (cases "t \<in> {V64, I64}")
  case False
  show ?thesis using l r
  proof (cases rule: constant_operands)
    case (constants i j)
    then show ?thesis using w z e False by (auto simp: EvalSub_def sub split: if_splits)
  qed (use e False in \<open>auto simp: EvalSub_def split: option.splits if_splits\<close>)
next
  case True
  then have W: "GetBitWidth t = 64" by auto
  have y: "ap_width A y = 64" and zs: "uval z = take_bit 64 (uval x + - signed_value 64 (uval y))"
    using w z W take_bit_sub_signed[of y "uval x"] by simp_all
  show ?thesis
  proof (cases "AsInt r")
    case None
    then show ?thesis using e True by (auto simp: EvalSub_def split: lattice.splits)
  next
    case (Some j)
    then have rj: "r = LInt j" by (cases r) auto
    note retreat = move_back[OF y r[unfolded rj]]
    show ?thesis
    proof (cases l)
      case (LInt i)
      then show ?thesis using e l r rj w z True by (auto simp: EvalSub_def sub)
    next
      case (LFrame obj off)
      then have "res = LFrame obj (off - ap_getSExtValue A j)"
        using e rj True by (auto simp: EvalSub_def)
      then show ?thesis
        using frame_move[OF E, of obj off "- signed_value 64 (uval y)"] retreat[of off] zs LFrame l m z(1) W
        by auto
    next
      case (LGlobal g off)
      then have "res = LGlobal g (off - ap_getSExtValue A j)"
        using e rj True by (auto simp: EvalSub_def)
      then show ?thesis
        using glob_move[OF E, of g off "- signed_value 64 (uval y)"] retreat[of off] zs LGlobal l m z(1) W
        by auto
    qed (use e rj True in \<open>auto simp: EvalSub_def\<close>)
  qed
qed

subsection \<open>Masking addresses\<close>

lemma getSExt_unat:
  assumes "ap_width A y = 64" "in_gamma A uval F E (LInt j) (VInt y)"
  shows "int (unat (ap_getSExtValue A j)) = uval y"
proof -
  have "int (unat (ap_getSExtValue A j)) = take_bit 64 (signed_value 64 (uval y))"
    using gamma_getSExt[OF assms(2,1)] by (simp add: uint_word_of_int_eq)
  then show ?thesis using uval_signed[OF assms(1)] by simp
qed

lemma getZExt_unat:
  assumes "ap_width A y = 64" "in_gamma A uval F E (LInt j) (VInt y)"
  shows "ap_getZExtValue A j = ap_getSExtValue A j"
proof -
  have "ap_getZExtValue A j = word_of_int (take_bit 64 (signed_value 64 (uval y)))"
    using assms getZExtValue[of j] uval_signed[OF assms(1)] by simp
  also have "\<dots> = word_of_int (signed_value 64 (uval y))"
    by (rule bit_word_eqI) (simp add: bit_word_of_int_iff bit_take_bit_iff)
  finally show ?thesis using gamma_getSExt[OF assms(2,1)] by simp
qed

lemma aligned_addr:
  assumes "2 ^ n dvd (b::int)" "n \<le> 64" "2 ^ n dvd off"
  shows "2 ^ n dvd take_bit 64 (b + off)"
proof -
  have "(2::int) ^ n dvd 2 ^ 64" using assms(2) by (rule le_imp_power_dvd)
  then show ?thesis using assms by (auto simp: take_bit_eq_mod dvd_mod)
qed

lemma AndMask_sound:
  assumes "in_gamma A uval F E (LMask k v) (VInt x)" "wf_lattice A uval (LMask k v)"
    and "in_gamma A uval F E (LInt i) (VInt y)" "ap_width A x = ap_width A y"
    and "ap_width A z = ap_width A y" "uval z = uval x AND uval y"
  shows "in_gamma A uval F E (AndMask A i k v) (VInt z)"
proof -
  have w: "ap_width A v = ap_width A i" "ap_width A k = ap_width A i" using assms by auto
  then have "uval (ap_and A (ap_and A v i) k) = uval v AND uval i AND uval k"
    by (simp add: bit_and and.assoc)
  then show ?thesis using assms by (auto simp: AndMask_def and_eq_iff_bits bit_and_iff)
qed

lemma and_aligned_sound:
  assumes "2 ^ n dvd b" "n \<le> 64" "uval x = take_bit 64 (b + 0)" "ap_width A y = 64"
    and "in_gamma A uval F E (LInt j) (VInt y)" "unat (ap_getSExtValue A j) < 2 ^ n"
    and "ap_width A z = 64" "uval z = uval x AND uval y"
  shows "in_gamma A uval F E (CreateInteger64 A 0) (VInt z)"
proof -
  have "int (unat (ap_getSExtValue A j)) < int (2 ^ n)" using assms(6) by (simp only: of_nat_less_iff)
  then have "uval y < 2 ^ n" using getSExt_unat[OF assms(4,5)] by simp
  moreover have "2 ^ n dvd uval x" using aligned_addr[OF assms(1,2), of 0] assms(3) by simp
  ultimately have "uval z = 0" using assms(8) and_small_aligned[of n "uval x" "uval y"] uval_nonneg by simp
  then show ?thesis using assms(7) make_zero[of 64 True] by (simp add: CreateInteger64_def)
qed

lemma EvalAnd_sound:
  assumes l: "in_gamma A uval F E l (VInt x)" "wf_lattice A uval l"
    and r: "in_gamma A uval F E r (VInt y)" "wf_lattice A uval r"
    and w: "ap_width A x = GetBitWidth t" "ap_width A y = GetBitWidth t"
    and z: "ap_width A z = GetBitWidth t" "uval z = uval x AND uval y"
    and E: "objects_ok E OA" and e: "EvalAnd A OA t l r = Inr res"
  shows "in_gamma A uval F E res (VInt z)"
proof -
  have wxy: "ap_width A x = ap_width A y" "ap_width A z = ap_width A y" "ap_width A z = ap_width A x"
    and z': "uval z = uval y AND uval x" using w z by (simp_all add: and.commute)
  have W: "GetBitWidth t = 64" if "t \<in> {V64, I64}" using that by auto
  have ty: "t \<in> {I8, I16, I32, I128} \<or> t \<in> {V64, I64}"
    using e by (auto simp: EvalAnd_def split: if_splits)
  show ?thesis
  proof (cases l)
    case (LInt i)
    show ?thesis
    proof (cases r)
      case (LInt j)
      then have "res = LInt (ap_and A i j)" using e ty \<open>l = LInt i\<close> by (auto simp: EvalAnd_def)
      then show ?thesis using \<open>l = LInt i\<close> LInt l r w z by (auto simp: bit_and)
    next
      case (LMask k v)
      then have "res = AndMask A i k v" using e ty LInt by (auto simp: EvalAnd_def)
      then show ?thesis
        using AndMask_sound[OF r(1)[unfolded LMask] r(2)[unfolded LMask] l(1)[unfolded LInt]
            wxy(1)[symmetric] wxy(3) z'] by simp
    qed (use e ty LInt in \<open>auto simp: EvalAnd_def\<close>)
  next
    case (LMask k v)
    then have "res = LOverdefined \<or> (\<exists>j. r = LInt j \<and> res = AndMask A j k v)"
      using e ty by (cases r) (auto simp: EvalAnd_def)
    then show ?thesis
      using AndMask_sound[OF l(1)[unfolded LMask] l(2)[unfolded LMask] _ wxy(1,2) z(2)] r(1) by auto
  next
    case (LFrame obj off)
    obtain n where n: "n \<le> 32" "OA obj = 2 ^ n" "2 ^ n dvd frame_base E obj"
      using objects_okD(3)[OF E] by blast
    have "res = LOverdefined \<or> (\<exists>j. r = LInt j \<and> off = 0 \<and> t \<in> {V64, I64} \<and>
        unat (ap_getSExtValue A j) < 2 ^ n \<and> res = CreateInteger64 A 0)"
      using e ty LFrame n(2) by (cases r) (auto simp: EvalAnd_def split: if_splits)
    then show ?thesis
      using and_aligned_sound[OF n(3), of x y] n(1) LFrame l r w z W by (auto simp: frame_addr_def)
  next
    case (LGlobal g off)
    have "res = LOverdefined \<or> (\<exists>j al. r = LInt j \<and> off = 0 \<and> t \<in> {V64, I64} \<and> g_align g = Some al \<and>
        unat (ap_getSExtValue A j) < al mod 2 ^ 32 \<and> res = CreateInteger64 A 0)"
      using e ty LGlobal by (cases r) (auto simp: EvalAnd_def split: if_splits option.splits)
    then show ?thesis
    proof (elim disjE exE conjE)
      fix j al
      assume h: "r = LInt j" "off = 0" "t \<in> {V64, I64}" "g_align g = Some al"
        "unat (ap_getSExtValue A j) < al mod 2 ^ 32" "res = CreateInteger64 A 0"
      obtain n where n: "n < 32" "al = 2 ^ n" "2 ^ n dvd glob_base E g"
        using objects_okD(4)[OF E _ h(4)] l LGlobal by auto
      have "(2::nat) ^ n < 2 ^ 32" using n(1) by (intro power_strict_increasing) simp_all
      then have "al mod 2 ^ 32 = 2 ^ n" by (simp add: n(2))
      then show ?thesis
        using and_aligned_sound[OF n(3), of x y] n(1) h LGlobal l r w z W by (auto simp: glob_addr_def)
    qed simp
  qed (use e ty in \<open>auto simp: EvalAnd_def\<close>)
qed

lemma FrameOr_sound:
  assumes f: "in_gamma A uval F E (LFrame obj off) (VInt x)" and j: "in_gamma A uval F E (LInt j) (VInt y)"
    and w: "ap_width A x = 64" "ap_width A y = 64" "ap_width A z = 64" and z: "uval z = uval x OR uval y"
    and E: "objects_ok E OA" and m: "stays_inside E (LFrame obj off) (uval x) (signed_value 64 (uval y))"
  shows "in_gamma A uval F E (FrameOr A OA obj off j) (VInt z)"
proof (cases "unat off mod OA obj = 0 \<and> unat (ap_getZExtValue A j) < OA obj")
  case True
  obtain n where n: "n \<le> 32" "OA obj = 2 ^ n" "2 ^ n dvd frame_base E obj"
    using objects_okD(3)[OF E] by blast
  have n64: "(2::int) ^ n dvd 2 ^ 64" using n(1) by (intro le_imp_power_dvd) simp
  have "2 ^ n dvd unat off" using True n(2) by auto
  then have "int (2 ^ n) dvd int (unat off)" by (simp only: of_nat_dvd_iff)
  then have "2 ^ n dvd uint off" by simp
  moreover have "uint off = take_bit 64 (sint off)" by (simp add: take_bit_word_eq_self uint_sint)
  ultimately have "2 ^ n dvd sint off"
    using n64 by (simp add: take_bit_eq_mod dvd_mod_iff)
  then have x: "2 ^ n dvd uval x"
    using f aligned_addr[OF n(3), of "sint off"] n(1) by (auto simp: frame_addr_def)
  have "int (unat (ap_getSExtValue A j)) < int (2 ^ n)"
    using True n(2) getZExt_unat[OF w(2) j] by (simp only: of_nat_less_iff)
  then have y: "uval y < 2 ^ n" using getSExt_unat[OF w(2) j] by simp
  have "uval z = uval x + uval y" using z or_small_aligned[OF x uval_nonneg y] by simp
  moreover have "take_bit 64 (uval z) = uval z" using take_bit_uval[of z] w(3) by simp
  ultimately have "uval z = take_bit 64 (uval x + uval y)" by simp
  then show ?thesis
    using frame_step[OF E f w(2) m w(3)] True getZExt_unat[OF w(2) j] gamma_getSExt[OF j w(2)]
    by (simp add: FrameOr_def Let_def)
qed (auto simp: FrameOr_def Let_def)

lemma EvalOr_sound:
  assumes l: "in_gamma A uval F E l (VInt x)" and r: "in_gamma A uval F E r (VInt y)"
    and w: "ap_width A x = GetBitWidth t" "ap_width A y = GetBitWidth t"
    and z: "ap_width A z = GetBitWidth t" "uval z = uval x OR uval y"
    and E: "objects_ok E OA" and m: "stays_inside E l (uval x) (signed_value 64 (uval y))"
      "stays_inside E r (uval y) (signed_value 64 (uval x))"
    and e: "EvalOr A OA t l r = Inr res"
  shows "in_gamma A uval F E res (VInt z)"
proof -
  have z': "uval z = uval y OR uval x" using z by (simp add: or.commute)
  consider "res = LOverdefined"
    | i j where "l = LInt i" "r = LInt j" "res = LInt (ap_or A i j)"
    | i obj off where "t = I64" "l = LInt i" "r = LFrame obj off" "res = FrameOr A OA obj off i"
    | obj off j where "t = I64" "l = LFrame obj off" "r = LInt j" "res = FrameOr A OA obj off j"
    using e by (cases l; cases r) (auto simp: EvalOr_def split: if_splits)
  then show ?thesis
  proof cases
    case 1
    then show ?thesis by simp
  next
    case (2 i j)
    then show ?thesis using l r w z by (auto simp: bit_or)
  next
    case (3 i obj off)
    then show ?thesis using FrameOr_sound[of E obj off y i x z OA] l r w z(1) z' E m by simp
  next
    case (4 obj off j)
    then show ?thesis using FrameOr_sound[of E obj off x j y z OA] l r w z E m by simp
  qed
qed

subsection \<open>All binary instructions\<close>

lemma gamma_cong:
  "ap_width A z = ap_width A z' \<Longrightarrow> uval z = uval z' \<Longrightarrow>
    in_gamma A uval F E l (VInt z) = in_gamma A uval F E l (VInt z')"
  by (cases l) auto

lemma rotate_left_bits:
  assumes "n < ap_width A x" "r \<le> ap_width A x"
  shows "bit (rotate_left (ap_width A x) r (uval x)) n =
    bit (uval x) ((n + (ap_width A x - r)) mod ap_width A x)"
proof -
  let ?w = "ap_width A x"
  have *: "bit (rotate_left ?w r (uval x)) n \<longleftrightarrow>
      r \<le> n \<and> bit (uval x) (n - r) \<or> bit (uval x) (n + (?w - r))"
    using assms(1) by (simp add: rotate_left_def bit_take_bit_iff bit_or_iff
        bit_drop_bit_eq bit_push_bit_iff add.commute)
  show ?thesis
  proof (cases "n < r")
    case True
    then show ?thesis using * assms by simp
  next
    case False
    then have "(n + (?w - r)) mod ?w = n - r"
      using assms by (simp add: mod_if)
    then show ?thesis using * False no_high_bits[of x "n + (?w - r)"] assms by auto
  qed
qed

text \<open>The instruction's value is that of the shift.\<close>

fun binary_of :: "bitwise \<Rightarrow> binary_op" where
  "binary_of SRL = B_SRL"
| "binary_of SRA = B_SRA"
| "binary_of SLL = B_SLL"
| "binary_of ROTL = B_ROTL"
| "binary_of ROTR = B_ROTR"

lemma shift_result:
  "int_result (binary_of kind) (ap_width A x) w (uval x) (uval y) = Some (uval (shift_int A kind x y))"
proof (cases "kind = ROTL \<or> kind = ROTR")
  case True
  let ?W = "ap_width A x" and ?r = "nat (uval y) mod ap_width A x"
  have r: "?r < ?W" using width_pos[of x] by simp
  have small: "\<not> bit (rotate_left ?W k (uval x)) n" if "?W \<le> n" for k n
    using that by (auto simp: rotate_left_def bit_or_iff bit_take_bit_iff)
  have "uval (shift_int A ROTL x y) = rotate_left ?W ?r (uval x)"
  proof (rule bit_eqI)
    fix n
    show "bit (uval (shift_int A ROTL x y)) n = bit (rotate_left ?W ?r (uval x)) n"
      using r small[of n] shift_bits[of n x ROTL y] rotate_left_bits[of n x ?r]
        no_high_bits[of "shift_int A ROTL x y" n] shift_width[of ROTL x y]
      by (cases "n < ?W") auto
  qed
  moreover have "uval (shift_int A ROTR x y) = rotate_left ?W (?W - ?r) (uval x)"
  proof (rule bit_eqI)
    fix n
    show "bit (uval (shift_int A ROTR x y)) n = bit (rotate_left ?W (?W - ?r) (uval x)) n"
      using r small[of n] shift_bits[of n x ROTR y] rotate_left_bits[of n x "?W - ?r"]
        no_high_bits[of "shift_int A ROTR x y" n] shift_width[of ROTR x y]
      by (cases "n < ?W") auto
  qed
  ultimately show ?thesis using True by auto
qed (cases kind; simp add: shift_int_def shl lshr ashr)

lemma EvalBinary_shift:
  assumes "EvalBinary A F OA (binary_of kind) t l r = Inr res" "in_gamma A uval F E l v" "in_gamma A uval F E r u"
  shows "EvalBitwise A kind t l r = Inr res"
  using assms by (cases kind; cases l; cases r) (simp_all add: EvalBinary_def)

lemma EvalBinary_sound_aux:
  assumes E: "env_ok E" "objects_ok E OA" and t: "IsIntegerType t"
    and l: "in_gamma A uval F E l (VInt x)" "wf_lattice A uval l"
    and r: "in_gamma A uval F E r (VInt y)" "wf_lattice A uval r"
    and w: "widths_fit kind (GetBitWidth t) (ap_width A x) (ap_width A y)"
    and m: "moves_inside E kind l r (uval x) (uval y)"
    and z: "ap_width A z = GetBitWidth t"
      "int_result kind (GetBitWidth t) (ap_width A y) (uval x) (uval y) = Some (uval z)"
    and e: "EvalBinary A F OA kind t l r = Inr res"
  shows "in_gamma A uval F E res (VInt z)"
proof -
  have ne: "\<not> IsUnknown l" "\<not> IsUnknown r" "\<not> IsUndefined l" "\<not> IsUndefined r"
    using l(1) r(1) by (auto simp: IsUnknown_def IsUndefined_def)
  have shift: ?thesis if "kind = binary_of k" for k
  proof -
    have "ap_width A x = GetBitWidth t" using w that by (cases k) auto
    moreover have "EvalBitwise A k t l r = Inr res"
      using EvalBinary_shift[OF _ l(1) r(1)] e that by simp
    moreover have "uval z = uval (shift_int A k x y)"
      using z(2) that shift_result[of k x] calculation(1) by simp
    ultimately show ?thesis
      using EvalBitwise_sound[OF l r(1)] gamma_cong[of z "shift_int A k x y"] z(1) shift_width[of k x y]
      by simp
  qed
  note shifts = shift[of SRL] shift[of SRA] shift[of SLL] shift[of ROTL] shift[of ROTR]
  note ev = e[unfolded EvalBinary_def]
  have todo: ?thesis if "EvalBinaryTodo l r = Inr res"
    using that by (auto simp: EvalBinaryTodo_def)
  show ?thesis
  proof (cases kind)
    case B_ADD
    then show ?thesis using ev ne z w m by (intro EvalAdd_sound[OF l(1) r(1) t _ _ _ _ E(2,1)]) auto
  next
    case B_SUB
    then show ?thesis using ev ne z w m by (intro EvalSub_sound[OF l(1) r(1) _ _ _ _ E(2)]) auto
  next
    case B_AND
    then show ?thesis using ev ne z w by (intro EvalAnd_sound[OF l r _ _ _ _ E(2)]) auto
  next
    case B_OR
    then show ?thesis using ev ne z w m by (intro EvalOr_sound[OF l(1) r(1) _ _ _ _ E(2)]) auto
  next
    case B_XOR
    then show ?thesis using ev ne z w by (intro EvalXor_sound[OF l(1) r(1)]) auto
  next
    case B_MUL
    then show ?thesis using ev ne z w by (intro EvalMul_sound[OF l(1) r(1) t]) auto
  next
    case B_U_DIV
    then show ?thesis using ev ne z w
      by (intro EvalUDiv_sound[OF l(1) r(1), of "GetBitWidth t"]) (auto split: if_splits)
  next
    case B_S_DIV
    then show ?thesis using ev ne z w
      by (intro EvalSDiv_sound[OF l(1) r(1), of "GetBitWidth t"]) (auto split: if_splits)
  next
    case B_O_U_ADD
    then show ?thesis using ev ne z w by (intro EvalOverflow_sound(1)[OF l(1) r(1)]) auto
  next
    case B_O_U_MUL
    then show ?thesis using ev ne z w by (intro EvalOverflow_sound(2)[OF l(1) r(1)]) auto
  next
    case B_O_S_ADD
    then show ?thesis using ev ne z w by (intro EvalOverflow_sound(3)[OF l(1) r(1)]) auto
  qed (use ev ne shifts todo in simp_all)
qed

end

subsection \<open>Unary instructions\<close>

text \<open>
  The value of a unary instruction of width \<open>W\<close> on an operand of width \<open>w\<close>. The upper bits of
  \<^verbatim>\<open>XExt\<close> are unspecified, and the remaining instructions are always overdefined.
\<close>

fun unary_result :: "unary_op \<Rightarrow> nat \<Rightarrow> nat \<Rightarrow> int \<Rightarrow> int option" where
  "unary_result U_NEG W w x = (if w = W then Some (take_bit W (- x)) else None)"
| "unary_result U_S_EXT W w x = (if w < W then Some (take_bit W (signed_value w x)) else None)"
| "unary_result U_Z_EXT W w x = (if w < W then Some x else None)"
| "unary_result U_TRUNC W w x = (if W < w then Some (take_bit W x) else None)"
| "unary_result U_BIT_CAST W w x = (if w = W then Some x else None)"
| "unary_result _ W w x = None"

context numbers
begin

lemma EvalBitCast_sound:
  assumes l: "in_gamma A uval F E l (VInt x)" "wf_lattice A uval l" and t: "IsIntegerType t"
    and w: "ap_width A x = GetBitWidth t" and e: "EvalBitCast A F t l = Inr res"
  shows "in_gamma A uval F E res (VInt x)"
proof (cases l)
  case (LInt i)
  then have "res = LInt (ap_sextOrTrunc A (GetBitWidth t) i)"
    using e t by (simp add: EvalBitCast_def GetBitWidth_def)
  moreover have "take_bit (GetBitWidth t) (signed_value (ap_width A i) (uval i)) = uval x"
    using l LInt w uval_signed[of i] by simp
  ultimately show ?thesis using w by (simp add: sextOrTrunc)
next
  case (LMask k m)
  then have r: "res = LMask (ap_zextOrTrunc A (GetBitWidth t) k) (ap_zextOrTrunc A (GetBitWidth t) m)"
    using e t by (simp add: EvalBitCast_def)
  have "ap_width A k = GetBitWidth t" "ap_width A m = GetBitWidth t" using l w LMask by auto
  then have "take_bit (GetBitWidth t) (uval k) = uval k" "take_bit (GetBitWidth t) (uval m) = uval m"
    using take_bit_uval by metis+
  then have "ap_width A (ap_zextOrTrunc A (GetBitWidth t) k) = GetBitWidth t"
      "uval (ap_zextOrTrunc A (GetBitWidth t) k) = uval k" "uval (ap_zextOrTrunc A (GetBitWidth t) m) = uval m"
    using zextOrTrunc[OF GetBitWidth_pos] by metis+
  then show ?thesis using l LMask w r by simp
qed (use l e in \<open>auto simp: EvalBitCast_def split: if_splits\<close>)

lemma EvalUnary_sound_aux:
  assumes t: "IsIntegerType t" and l: "in_gamma A uval F E l (VInt x)" "wf_lattice A uval l"
    and z: "ap_width A z = GetBitWidth t"
      "unary_result kind (GetBitWidth t) (ap_width A x) (uval x) = Some (uval z)"
    and e: "EvalUnary A F kind t l = Inr res"
  shows "in_gamma A uval F E res (VInt z)"
proof (cases "AsInt l")
  case (Some i)
  then have li: "l = LInt i" by (cases l) auto
  have x: "ap_width A i = ap_width A x" "uval i = uval x" using l li by auto
  have "kind = U_BIT_CAST \<or> res = LInt (case kind of U_NEG \<Rightarrow> ap_neg A i
      | U_S_EXT \<Rightarrow> ap_sext A (GetBitWidth t) i | U_Z_EXT \<Rightarrow> ap_zext A (GetBitWidth t) i
      | _ \<Rightarrow> ap_trunc A (GetBitWidth t) i)"
    using e t z li by (cases kind) (auto simp: EvalUnary_def EvalNeg_def EvalSExt_def EvalZExt_def
        EvalTrunc_def GetBitWidth_def split: if_splits)
  then show ?thesis
    using z x e li t EvalBitCast_sound[OF l t, of res] gamma_cong[of z x]
    by (cases kind) (auto simp: EvalUnary_def neg sext zext trunc split: if_splits)
next
  case None
  show ?thesis
  proof (cases "kind = U_BIT_CAST")
    case True
    then have x: "ap_width A x = GetBitWidth t" "uval z = uval x" using z by (simp_all split: if_splits)
    moreover have "l = LOverdefined \<or> EvalBitCast A F t l = Inr res"
      using e True l by (cases l) (auto simp: EvalUnary_def)
    ultimately show ?thesis
      using EvalBitCast_sound[OF l t, of res] gamma_cong[of z x] z(1) e by (auto simp: EvalUnary_def)
  next
    case False
    then have "res = LOverdefined"
      using e None l z t by (cases kind; cases l) (auto simp: EvalUnary_def EvalNeg_def EvalSExt_def EvalZExt_def
        EvalTrunc_def split: if_splits)
    then show ?thesis by simp
  qed
qed

end

subsection \<open>Constants are folded\<close>

definition folds :: "binary_op \<Rightarrow> bool" where
  "folds kind \<longleftrightarrow> kind \<in> {B_ADD, B_SUB, B_MUL, B_AND, B_OR, B_XOR, B_U_DIV, B_S_DIV,
     B_SLL, B_SRL, B_SRA, B_ROTL, B_ROTR}"

context numbers
begin

lemma EvalBinary_ints:
  assumes "IsIntegerType t" "folds kind" "int_result kind (GetBitWidth t) w (uval i) (uval j) \<noteq> None"
  shows "\<exists>k. EvalBinary A F OA kind t (LInt i) (LInt j) = returns (LInt k)"
  using assms
  by (cases t; cases kind) (auto simp: folds_def EvalBinary_def EvalAdd_def EvalAdd64_def EvalSub_def
      EvalMul_def EvalAnd_def EvalOr_def EvalXor_def EvalUDiv_def EvalSDiv_def EvalBitwise_def is_null
      split: if_splits)

lemma EvalBinary_folds_aux:
  assumes "IsIntegerType t" "folds kind"
    and "widths_fit kind (GetBitWidth t) (ap_width A i) (ap_width A j)"
    and "ap_width A z = GetBitWidth t"
      "int_result kind (GetBitWidth t) (ap_width A j) (uval i) (uval j) = Some (uval z)"
  shows "\<exists>k. EvalBinary A F OA kind t (LInt i) (LInt j) = returns (LInt k) \<and>
    ap_width A k = GetBitWidth t \<and> uval k = uval z"
proof -
  obtain k where k: "EvalBinary A F OA kind t (LInt i) (LInt j) = returns (LInt k)"
    using EvalBinary_ints[OF assms(1,2)] assms(5) by blast
  then have same: "EvalBinary A F (\<lambda>_. 64) kind t (LInt i) (LInt j) = returns (LInt k)"
    by (cases kind) (auto simp: EvalBinary_def EvalAnd_def EvalOr_def split: if_splits)
  have "moves_inside sample_env kind (LInt i :: ('i, 'f) lattice) (LInt j) (uval i) (uval j)"
    by (cases kind) simp_all
  then have "in_gamma A uval F sample_env (LInt k) (VInt z)"
    using EvalBinary_sound_aux[OF sample_env_ok sample_objects_ok assms(1), of "LInt i" i "LInt j" j
        kind z "LInt k"] assms same by simp
  then show ?thesis using k assms(4) by simp
qed

end

subsection \<open>Properties\<close>

text \<open>C3: The evaluation of a binary integer instruction is sound: where the operands stand for the
  machine values of an execution that keeps its addresses inside of their objects, the result stands
  for the value the instruction computes, for masks and addresses as for constants.\<close>

theorem EvalBinary_sound:
  assumes "numbers A uval F" and "env_ok E" "objects_ok E OA" and "IsIntegerType t"
    and "in_gamma A uval F E l (VInt x)" "wf_lattice A uval l"
    and "in_gamma A uval F E r (VInt y)" "wf_lattice A uval r"
    and "widths_fit kind (GetBitWidth t) (ap_width A x) (ap_width A y)"
    and "moves_inside E kind l r (uval x) (uval y)"
    and "ap_width A z = GetBitWidth t"
      "int_result kind (GetBitWidth t) (ap_width A y) (uval x) (uval y) = Some (uval z)"
    and "EvalBinary A F OA kind t l r = returns res"
  shows "in_gamma A uval F E res (VInt z)"
  using numbers.EvalBinary_sound_aux[OF assms] .

text \<open>The stack object 2 of the sample environment lies at 0x7080, and 0x7080 OR 5 is 0x7085.\<close>

theorem EvalBinary_sound_witness:
  "in_gamma bv_ops bv_uval dbl_ops sample_env (LFrame 2 5) (VInt (bv_of 64 0x7085))"
  by (rule EvalBinary_sound [OF bvdbl.numbers_axioms sample_env_ok sample_objects_ok, of I64
        "LFrame 2 0" "bv_of 64 0x7080" "LInt (bv_of 64 5)" "bv_of 64 5" B_OR])
    (simp_all add: bv_ops_def sample_env_def frame_addr_def sample_env_no_wrap signed_value_def
      EvalBinary_def EvalOr_def FrameOr_def)

text \<open>C16: Two constants are folded to the constant the instruction computes, at every integer type,
  wherever the instruction has a value.\<close>

theorem EvalBinary_folds:
  assumes "numbers A uval F" and "IsIntegerType t" "folds kind"
    and "widths_fit kind (GetBitWidth t) (ap_width A i) (ap_width A j)"
    and "ap_width A z = GetBitWidth t"
      "int_result kind (GetBitWidth t) (ap_width A j) (uval i) (uval j) = Some (uval z)"
  shows "\<exists>k. EvalBinary A F OA kind t (LInt i) (LInt j) = returns (LInt k) \<and>
    ap_width A k = GetBitWidth t \<and> uval k = uval z"
  using numbers.EvalBinary_folds_aux[OF assms] .

theorem EvalBinary_folds_witness:
  "\<exists>k. EvalBinary bv_ops dbl_ops (\<lambda>_. 64) B_S_DIV I8 (LInt (bv_of 8 0xF6)) (LInt (bv_of 8 3)) = returns (LInt k) \<and>
    ap_width bv_ops k = GetBitWidth I8 \<and> bv_uval k = bv_uval (bv_of 8 0xFD)"
  by (rule EvalBinary_folds [OF bvdbl.numbers_axioms])
    (simp_all add: folds_def bv_ops_def signed_value_def signed_divide_int_def)

text \<open>C17: The evaluation of a unary integer instruction is sound: negations, extensions, truncations and
  casts of constants, masks and addresses stand for the value the instruction computes.\<close>

theorem EvalUnary_sound:
  assumes "numbers A uval F" and "IsIntegerType t"
    and "in_gamma A uval F E l (VInt x)" "wf_lattice A uval l"
    and "ap_width A z = GetBitWidth t"
      "unary_result kind (GetBitWidth t) (ap_width A x) (uval x) = Some (uval z)"
    and "EvalUnary A F kind t l = returns res"
  shows "in_gamma A uval F E res (VInt z)"
  using numbers.EvalUnary_sound_aux[OF assms] .

theorem EvalUnary_sound_witness:
  "in_gamma bv_ops bv_uval dbl_ops sample_env
     (LInt (ap_sext bv_ops 32 (bv_of 8 0x80))) (VInt (bv_of 32 0xFFFFFF80))"
  by (rule EvalUnary_sound [OF bvdbl.numbers_axioms, of I32 sample_env "LInt (bv_of 8 0x80)" "bv_of 8 0x80" _ U_S_EXT])
    (simp_all add: bv_ops_def EvalUnary_def EvalSExt_def signed_value_def)

text \<open>The rules are not closed under composition: the left shift of an overdefined register is a
  mask, and the negation of a mask reaches the \<^verbatim>\<open>llvm_unreachable\<close> of \<^verbatim>\<open>Eval(NegInst)\<close>.\<close>

theorem neg_of_shift_unreachable:
  "\<exists>m. EvalBinary A F OA B_SLL I32 LOverdefined (LInt b) = returns m \<and>
     EvalUnary A F U_NEG I32 m = unreachable"
  by (simp add: EvalBinary_def EvalBitwise_def shifted_in_zeros_def Let_def EvalUnary_def EvalNeg_def)

text \<open>A sign extension of the float zero is a 64-bit constant whatever the type of the instruction,
  while its zero extension has the width of the type.\<close>

theorem sext_of_float_zero_width:
  assumes "numbers A uval F" and "IsIntegerType t"
  shows "\<exists>i j. EvalUnary A F U_S_EXT t LFloatZero = returns (LInt i) \<and>
    EvalUnary A F U_Z_EXT t LFloatZero = returns (LInt j) \<and>
    ap_width A i = 64 \<and> ap_width A j = GetBitWidth t"
proof -
  have "apint A uval" using assms(1) by (simp add: numbers_def)
  from apint.make_zero[OF this, of 64 True] apint.make_zero[OF this, of "GetBitWidth t" True] show ?thesis
    using assms(2) by (simp add: EvalUnary_def EvalSExt_def EvalZExt_def CreateInteger64_def)
qed

theorem sext_of_float_zero_width_witness:
  "\<exists>i j. EvalUnary bv_ops dbl_ops U_S_EXT I8 LFloatZero = returns (LInt i) \<and>
    EvalUnary bv_ops dbl_ops U_Z_EXT I8 LFloatZero = returns (LInt j) \<and>
    ap_width bv_ops i = 64 \<and> ap_width bv_ops j = GetBitWidth I8"
  by (rule sext_of_float_zero_width [OF bvdbl.numbers_axioms]) simp

end
