(* ===== verification/SccpCompare.thy ===== *)
theory SccpCompare
  imports SccpEvalSound
begin

text \<open>
  Comparisons over the lattice (\<^verbatim>\<open>passes/sccp/compare.cpp\<close>). The \<^verbatim>\<open>Compare\<close> overloads are
  \<open>CompareFloat\<close>, \<open>CompareInt\<close>, \<open>CompareFrame\<close> and \<open>CompareGlobal\<close>; \<open>VisitCmpInst\<close> is the handler
  of the solver with one definition per kind of the left operand. It answers the value the
  instruction is marked with, or \<open>None\<close> when an operand is still unknown and nothing is marked.
\<close>

subsection \<open>Condition codes\<close>

text \<open>The groups of condition codes the switches of the source share.\<close>

definition eq_codes :: "cond set" where "eq_codes = {C_EQ, C_OEQ, C_UEQ}"
definition ne_codes :: "cond set" where "ne_codes = {C_NE, C_ONE, C_UNE}"
definition lt_codes :: "cond set" where "lt_codes = {C_LT, C_OLT, C_ULT}"
definition gt_codes :: "cond set" where "gt_codes = {C_GT, C_OGT, C_UGT}"
definition le_codes :: "cond set" where "le_codes = {C_LE, C_OLE, C_ULE}"
definition ge_codes :: "cond set" where "ge_codes = {C_GE, C_OGE, C_UGE}"

lemmas code_groups = eq_codes_def ne_codes_def lt_codes_def gt_codes_def le_codes_def ge_codes_def

subsection \<open>Comparing constants\<close>

definition CompareFloat :: "('i, 'f) apfloat_ops \<Rightarrow> 'f \<Rightarrow> 'f \<Rightarrow> cond \<Rightarrow> bool" where
  "CompareFloat F lhs rhs cc =
     (let c = af_compare F lhs rhs in
      if cc = C_O \<or> cc = C_UO then (if c = CmpUnordered then cc = C_UO else cc = C_O)
      else if cc \<in> eq_codes then
        (case c of CmpEqual \<Rightarrow> True | CmpLessThan \<Rightarrow> False | CmpGreaterThan \<Rightarrow> False | CmpUnordered \<Rightarrow> cc = C_UEQ)
      else if cc \<in> ne_codes then
        (case c of CmpEqual \<Rightarrow> False | CmpLessThan \<Rightarrow> True | CmpGreaterThan \<Rightarrow> True | CmpUnordered \<Rightarrow> cc = C_UNE)
      else if cc \<in> lt_codes then
        (case c of CmpEqual \<Rightarrow> False | CmpGreaterThan \<Rightarrow> False | CmpLessThan \<Rightarrow> True | CmpUnordered \<Rightarrow> cc = C_ULT)
      else if cc \<in> gt_codes then
        (case c of CmpEqual \<Rightarrow> False | CmpLessThan \<Rightarrow> False | CmpGreaterThan \<Rightarrow> True | CmpUnordered \<Rightarrow> cc = C_UGT)
      else if cc \<in> le_codes then
        (case c of CmpGreaterThan \<Rightarrow> False | CmpLessThan \<Rightarrow> True | CmpEqual \<Rightarrow> True | CmpUnordered \<Rightarrow> cc = C_ULE)
      else
        (case c of CmpLessThan \<Rightarrow> False | CmpEqual \<Rightarrow> True | CmpGreaterThan \<Rightarrow> True | CmpUnordered \<Rightarrow> cc = C_UGE))"

definition CompareInt :: "'i apint_ops \<Rightarrow> 'i \<Rightarrow> 'i \<Rightarrow> cond \<Rightarrow> bool result" where
  "CompareInt A lhs rhs cc =
     (if cc \<in> eq_codes then returns (ap_eq A lhs rhs)
      else if cc \<in> ne_codes then returns (\<not> ap_eq A lhs rhs)
      else if cc \<in> {C_LT, C_OLT} then returns (ap_slt A lhs rhs)
      else if cc = C_ULT then returns (ap_ult A lhs rhs)
      else if cc \<in> {C_GT, C_OGT} then returns (ap_slt A rhs lhs)
      else if cc = C_UGT then returns (ap_ult A rhs lhs)
      else if cc \<in> {C_LE, C_OLE} then returns (ap_sle A lhs rhs)
      else if cc = C_ULE then returns (ap_ule A lhs rhs)
      else if cc \<in> {C_GE, C_OGE} then returns (ap_sle A rhs lhs)
      else if cc = C_UGE then returns (ap_ule A rhs lhs)
      else unreachable)"

subsection \<open>Comparing addresses\<close>

definition CompareFrame :: "'i apint_ops \<Rightarrow> nat \<Rightarrow> 64 word \<Rightarrow> nat \<Rightarrow> 64 word \<Rightarrow> cond \<Rightarrow> ty \<Rightarrow>
    ('i, 'f) lattice result" where
  "CompareFrame A lobj loff robj roff cc ty =
     (let Flag = (\<lambda>v. MakeBoolean A v ty);
          Cmp = (\<lambda>v. if lobj = robj then Flag v else returns LUndefined);
          equal = (lobj = robj \<and> loff = roff)
      in if cc \<in> eq_codes then Flag equal
         else if cc \<in> ne_codes then Flag (\<not> equal)
         else if cc \<in> lt_codes then Cmp (sint loff < sint roff)
         else if cc \<in> gt_codes then Cmp (sint loff > sint roff)
         else if cc \<in> le_codes then Cmp (sint loff \<le> sint roff)
         else if cc \<in> ge_codes then Cmp (sint loff \<ge> sint roff)
         else unreachable)"

definition CompareGlobal :: "'i apint_ops \<Rightarrow> global \<Rightarrow> 64 word \<Rightarrow> global \<Rightarrow> 64 word \<Rightarrow> cond \<Rightarrow> ty \<Rightarrow>
    ('i, 'f) lattice result" where
  "CompareGlobal A lg loff rg roff cc ty =
     (let Flag = (\<lambda>v. MakeBoolean A v ty);
          Cmp = (\<lambda>v. if same_global lg rg then Flag v else returns LOverdefined);
          equal = (same_global lg rg \<and> loff = roff)
      in if IsWeak lg \<or> IsWeak rg then returns LOverdefined
         else if g_kind lg \<noteq> G_ATOM then
           (if cc \<in> eq_codes then Flag equal
            else if cc \<in> ne_codes then Flag (\<not> equal)
            else returns LOverdefined)
         else if g_kind rg \<noteq> G_ATOM then
           (if cc \<in> eq_codes then Flag False
            else if cc \<in> ne_codes then Flag True
            else returns LOverdefined)
         else if cc \<in> eq_codes then Flag equal
         else if cc \<in> ne_codes then Flag (\<not> equal)
         else if cc \<in> lt_codes then Cmp (sint loff < sint roff)
         else if cc \<in> gt_codes then Cmp (sint loff > sint roff)
         else if cc \<in> le_codes then Cmp (sint loff \<le> sint roff)
         else if cc \<in> ge_codes then Cmp (sint loff \<ge> sint roff)
         else unreachable)"

subsection \<open>The handler of a comparison\<close>

definition Unequal :: "'i apint_ops \<Rightarrow> cond \<Rightarrow> ty \<Rightarrow> ('i, 'f) lattice result" where
  "Unequal A cc ty =
     (if cc \<in> eq_codes then MakeBoolean A False ty
      else if cc \<in> ne_codes then MakeBoolean A True ty
      else returns LOverdefined)"

definition IntOrder :: "'i apint_ops \<Rightarrow> cond \<Rightarrow> ty \<Rightarrow> bool \<Rightarrow> ('i, 'f) lattice result" where
  "IntOrder A cc ty Lower =
     (if cc \<in> eq_codes then MakeBoolean A False ty
      else if cc \<in> ne_codes then MakeBoolean A True ty
      else if cc \<in> le_codes \<union> lt_codes then MakeBoolean A Lower ty
      else if cc \<in> ge_codes \<union> gt_codes then MakeBoolean A (\<not> Lower) ty
      else unreachable)"

definition VisitCmpFloat :: "'i apint_ops \<Rightarrow> ('i, 'f) apfloat_ops \<Rightarrow> cond \<Rightarrow> ty \<Rightarrow> 'f \<Rightarrow> ('i, 'f) lattice \<Rightarrow> ('i, 'f) lattice result" where
  "VisitCmpFloat A F cc ty l rhs =
     (case rhs of
        LUnknown \<Rightarrow> unreachable
      | LOverdefined \<Rightarrow> returns LOverdefined
      | LInt i \<Rightarrow> unreachable
      | LMask k v \<Rightarrow> unreachable
      | LFloat r \<Rightarrow> MakeBoolean A (CompareFloat F l r cc) ty
      | LFloatZero \<Rightarrow> unreachable
      | LFrame robj roff \<Rightarrow> unreachable
      | LGlobal rg roff \<Rightarrow> unreachable
      | LPointer \<Rightarrow> unreachable
      | LRange rr \<Rightarrow> unreachable
      | LUndefined \<Rightarrow> returns LUndefined)"

definition VisitCmpInt :: "'i apint_ops \<Rightarrow> cond \<Rightarrow> ty \<Rightarrow> 'i \<Rightarrow> ('i, 'f) lattice \<Rightarrow> ('i, 'f) lattice result" where
  "VisitCmpInt A cc ty l rhs =
     (case rhs of
        LUnknown \<Rightarrow> returns LOverdefined
      | LOverdefined \<Rightarrow> returns LOverdefined
      | LInt i \<Rightarrow> (case CompareInt A l i cc of Inl e \<Rightarrow> Inl e | Inr b \<Rightarrow> MakeBoolean A b ty)
      | LMask k v \<Rightarrow>
          (if ap_is_null A (ap_and A k (ap_xor A v l)) then returns LOverdefined else Unequal A cc ty)
      | LFloat f \<Rightarrow> returns LOverdefined
      | LFloatZero \<Rightarrow> returns LOverdefined
      | LFrame robj roff \<Rightarrow> (if ap_is_null A l then IntOrder A cc ty True else returns LOverdefined)
      | LGlobal rg roff \<Rightarrow>
          (if ap_is_null A l then (if IsWeak rg then returns LOverdefined else IntOrder A cc ty True)
           else returns LOverdefined)
      | LPointer \<Rightarrow> (if ap_is_null A l then IntOrder A cc ty True else returns LOverdefined)
      | LRange rr \<Rightarrow> unreachable
      | LUndefined \<Rightarrow> returns LUndefined)"

definition VisitCmpMask :: "'i apint_ops \<Rightarrow> cond \<Rightarrow> ty \<Rightarrow> 'i \<Rightarrow> 'i \<Rightarrow> ('i, 'f) lattice \<Rightarrow> ('i, 'f) lattice result" where
  "VisitCmpMask A cc ty lk lv rhs =
     (case rhs of
        LUnknown \<Rightarrow> returns LOverdefined
      | LOverdefined \<Rightarrow> returns LOverdefined
      | LInt i \<Rightarrow>
          (if ap_is_null A (ap_and A lk (ap_xor A lv i)) then returns LOverdefined else Unequal A cc ty)
      | LMask k v \<Rightarrow> returns LOverdefined
      | LFloat f \<Rightarrow> returns LOverdefined
      | LFloatZero \<Rightarrow> returns LOverdefined
      | LFrame robj roff \<Rightarrow> returns LOverdefined
      | LGlobal rg roff \<Rightarrow> returns LOverdefined
      | LPointer \<Rightarrow> returns LOverdefined
      | LRange rr \<Rightarrow> unreachable
      | LUndefined \<Rightarrow> returns LUndefined)"

definition VisitCmpFrame :: "'i apint_ops \<Rightarrow> cond \<Rightarrow> ty \<Rightarrow> nat \<Rightarrow> 64 word \<Rightarrow> ('i, 'f) lattice \<Rightarrow> ('i, 'f) lattice result" where
  "VisitCmpFrame A cc ty lobj loff rhs =
     (case rhs of
        LUnknown \<Rightarrow> returns LOverdefined
      | LOverdefined \<Rightarrow> returns LOverdefined
      | LInt i \<Rightarrow> (if ap_is_null A i then IntOrder A cc ty False else returns LOverdefined)
      | LMask k v \<Rightarrow> returns LOverdefined
      | LFloat f \<Rightarrow> returns LOverdefined
      | LFloatZero \<Rightarrow> returns LOverdefined
      | LFrame robj roff \<Rightarrow> CompareFrame A lobj loff robj roff cc ty
      | LGlobal rg roff \<Rightarrow> Unequal A cc ty
      | LPointer \<Rightarrow> returns LOverdefined
      | LRange rr \<Rightarrow> unreachable
      | LUndefined \<Rightarrow> returns LUndefined)"

definition VisitCmpGlobal :: "'i apint_ops \<Rightarrow> cond \<Rightarrow> ty \<Rightarrow> global \<Rightarrow> 64 word \<Rightarrow> ('i, 'f) lattice \<Rightarrow> ('i, 'f) lattice result" where
  "VisitCmpGlobal A cc ty g loff rhs =
     (case rhs of
        LUnknown \<Rightarrow> returns LOverdefined
      | LOverdefined \<Rightarrow> returns LOverdefined
      | LInt i \<Rightarrow>
          (if ap_is_null A i \<or> ap_is_one A i
           then (if IsWeak g then returns LOverdefined else IntOrder A cc ty False)
           else returns LOverdefined)
      | LMask k v \<Rightarrow> unreachable
      | LFloat f \<Rightarrow> returns LOverdefined
      | LFloatZero \<Rightarrow> returns LOverdefined
      | LFrame robj roff \<Rightarrow> returns LOverdefined
      | LGlobal rg roff \<Rightarrow> CompareGlobal A g loff rg roff cc ty
      | LPointer \<Rightarrow> returns LOverdefined
      | LRange rr \<Rightarrow> (if same_global g rr then returns rhs else returns LPointer)
      | LUndefined \<Rightarrow> returns LUndefined)"

definition VisitCmpPointer :: "'i apint_ops \<Rightarrow> cond \<Rightarrow> ty \<Rightarrow> ('i, 'f) lattice \<Rightarrow> ('i, 'f) lattice result" where
  "VisitCmpPointer A cc ty rhs =
     (case rhs of
        LUnknown \<Rightarrow> returns LOverdefined
      | LOverdefined \<Rightarrow> returns LOverdefined
      | LInt i \<Rightarrow> (if ap_is_null A i then IntOrder A cc ty False else returns LOverdefined)
      | LMask k v \<Rightarrow> unreachable
      | LFloat f \<Rightarrow> returns LOverdefined
      | LFloatZero \<Rightarrow> returns LOverdefined
      | LFrame robj roff \<Rightarrow> returns LOverdefined
      | LGlobal rg roff \<Rightarrow> returns LOverdefined
      | LPointer \<Rightarrow> returns LOverdefined
      | LRange rr \<Rightarrow> returns LOverdefined
      | LUndefined \<Rightarrow> returns LUndefined)"

definition VisitCmpRange :: "'i apint_ops \<Rightarrow> cond \<Rightarrow> ty \<Rightarrow> ('i, 'f) lattice \<Rightarrow> ('i, 'f) lattice result" where
  "VisitCmpRange A cc ty rhs =
     (case rhs of
        LUnknown \<Rightarrow> returns LOverdefined
      | LOverdefined \<Rightarrow> returns LOverdefined
      | LInt i \<Rightarrow> (if ap_is_null A i then IntOrder A cc ty False else returns LOverdefined)
      | LMask k v \<Rightarrow> unreachable
      | LFloat f \<Rightarrow> returns LOverdefined
      | LFloatZero \<Rightarrow> returns LOverdefined
      | LFrame robj roff \<Rightarrow> returns LOverdefined
      | LGlobal rg roff \<Rightarrow> returns LOverdefined
      | LPointer \<Rightarrow> returns LOverdefined
      | LRange rr \<Rightarrow> returns LOverdefined
      | LUndefined \<Rightarrow> returns LUndefined)"

definition VisitCmpInst :: "'i apint_ops \<Rightarrow> ('i, 'f) apfloat_ops \<Rightarrow> cond \<Rightarrow> ty \<Rightarrow>
    ('i, 'f) lattice \<Rightarrow> ('i, 'f) lattice \<Rightarrow> ('i, 'f) lattice result option" where
  "VisitCmpInst A F cc ty lhs rhs =
     (if IsUnknown lhs \<or> IsUnknown rhs then None
      else Some (case lhs of
        LUnknown \<Rightarrow> unreachable
      | LOverdefined \<Rightarrow> returns LOverdefined
      | LFloatZero \<Rightarrow> returns LOverdefined
      | LUndefined \<Rightarrow> returns LUndefined
      | LFloat f \<Rightarrow> VisitCmpFloat A F cc ty f rhs
      | LInt i \<Rightarrow> VisitCmpInt A cc ty i rhs
      | LMask k v \<Rightarrow> VisitCmpMask A cc ty k v rhs
      | LFrame obj off \<Rightarrow> VisitCmpFrame A cc ty obj off rhs
      | LGlobal g off \<Rightarrow> VisitCmpGlobal A cc ty g off rhs
      | LPointer \<Rightarrow> VisitCmpPointer A cc ty rhs
      | LRange g \<Rightarrow> VisitCmpRange A cc ty rhs))"

subsection \<open>What a comparison means\<close>

text \<open>On integers of width \<open>w\<close>; the two ordering tests of floats have no meaning there.\<close>

definition int_compare :: "cond \<Rightarrow> nat \<Rightarrow> int \<Rightarrow> int \<Rightarrow> bool option" where
  "int_compare cc w x y =
     (if cc \<in> eq_codes then Some (x = y)
      else if cc \<in> ne_codes then Some (x \<noteq> y)
      else if cc \<in> {C_O, C_UO} then None
      else if cc = C_ULT then Some (x < y)
      else if cc = C_ULE then Some (x \<le> y)
      else if cc = C_UGT then Some (x > y)
      else if cc = C_UGE then Some (x \<ge> y)
      else if cc \<in> lt_codes then Some (signed_value w x < signed_value w y)
      else if cc \<in> le_codes then Some (signed_value w x \<le> signed_value w y)
      else if cc \<in> gt_codes then Some (signed_value w x > signed_value w y)
      else Some (signed_value w x \<ge> signed_value w y))"

text \<open>
  Where the objects lie: in the lower half of the address space, above the two smallest addresses,
  and apart from each other; only weak symbols may be null.
\<close>

definition layout_ok :: "mem_env \<Rightarrow> bool" where
  "layout_ok E \<longleftrightarrow>
     (\<forall>obj off. frame_valid E obj off \<longrightarrow> 1 < frame_base E obj + off \<and> frame_base E obj + off < 2 ^ 63) \<and>
     (\<forall>g off. glob_valid E g off \<and> \<not> IsWeak g \<longrightarrow> 1 < glob_base E g + off \<and> glob_base E g + off < 2 ^ 63) \<and>
     (\<forall>obj off obj' off'. frame_valid E obj off \<and> frame_valid E obj' off' \<and> obj \<noteq> obj' \<longrightarrow>
        frame_addr E obj off \<noteq> frame_addr E obj' off') \<and>
     (\<forall>g off g' off'. glob_valid E g off \<and> glob_valid E g' off' \<and> g \<noteq> g' \<and> \<not> IsWeak g \<and> \<not> IsWeak g' \<longrightarrow>
        glob_addr E g off \<noteq> glob_addr E g' off') \<and>
     (\<forall>obj off g off'. frame_valid E obj off \<and> glob_valid E g off' \<longrightarrow>
        frame_addr E obj off \<noteq> glob_addr E g off')"

lemma layout_frame:
  assumes "layout_ok E" "frame_valid E obj off"
  shows "frame_addr E obj off = frame_base E obj + off \<and> 1 < frame_addr E obj off \<and> frame_addr E obj off < 2 ^ 63"
proof -
  have "1 < frame_base E obj + off \<and> frame_base E obj + off < 2 ^ 63"
    using assms unfolding layout_ok_def by blast
  then show ?thesis by (simp add: frame_addr_def take_bit_int_eq_self)
qed

lemma layout_glob:
  assumes "layout_ok E" "glob_valid E g off" "\<not> IsWeak g"
  shows "glob_addr E g off = glob_base E g + off \<and> 1 < glob_addr E g off \<and> glob_addr E g off < 2 ^ 63"
proof -
  have "1 < glob_base E g + off \<and> glob_base E g + off < 2 ^ 63"
    using assms unfolding layout_ok_def by blast
  then show ?thesis by (simp add: glob_addr_def take_bit_int_eq_self)
qed

lemma layout_apart:
  assumes "layout_ok E"
  shows "frame_valid E obj off \<Longrightarrow> frame_valid E obj' off' \<Longrightarrow> obj \<noteq> obj' \<Longrightarrow>
      frame_addr E obj off \<noteq> frame_addr E obj' off'"
    and "glob_valid E g off \<Longrightarrow> glob_valid E g' off' \<Longrightarrow> g \<noteq> g' \<Longrightarrow> \<not> IsWeak g \<Longrightarrow> \<not> IsWeak g' \<Longrightarrow>
      glob_addr E g off \<noteq> glob_addr E g' off'"
    and "frame_valid E obj off \<Longrightarrow> glob_valid E g off' \<Longrightarrow> frame_addr E obj off \<noteq> glob_addr E g off'"
  using assms unfolding layout_ok_def by blast+

lemma offset_eq_iff: "(a = b) \<longleftrightarrow> sint a = sint b" for a b :: "64 word"
  using signed_word_eqI by auto

text \<open>In the lower half of the address space the signed order is the unsigned one.\<close>

lemma signed_low: "0 \<le> x \<Longrightarrow> x < 2 ^ 63 \<Longrightarrow> signed_value 64 x = x"
  by (simp add: signed_value_def signed_take_bit_int_eq_self)

lemma int_compare_low:
  assumes "0 \<le> x" "x < 2 ^ 63" "0 \<le> y" "y < 2 ^ 63"
  shows "int_compare cc 64 x y =
    (if cc \<in> eq_codes then Some (x = y)
     else if cc \<in> ne_codes then Some (x \<noteq> y)
     else if cc \<in> lt_codes then Some (x < y)
     else if cc \<in> gt_codes then Some (x > y)
     else if cc \<in> le_codes then Some (x \<le> y)
     else if cc \<in> ge_codes then Some (x \<ge> y)
     else None)"
  using assms by (cases cc) (simp_all add: int_compare_def code_groups signed_low)

subsection \<open>Soundness\<close>

definition low_pointer :: "('i, 'f) lattice \<Rightarrow> int \<Rightarrow> bool" where
  "low_pointer l x \<longleftrightarrow> (IsPointer l \<longrightarrow> x < 2 ^ 63) \<and> (IsRange l \<longrightarrow> \<not> IsWeak (GetRange l))"

context numbers
begin

lemma int_compare_codes:
  "cc \<in> eq_codes \<Longrightarrow> int_compare cc w x y = Some (x = y)"
  "cc \<in> ne_codes \<Longrightarrow> int_compare cc w x y = Some (x \<noteq> y)"
  by (auto simp: int_compare_def code_groups)

lemma Unequal_sound:
  assumes "Unequal A cc t = Inr res" "uval x \<noteq> uval y" "int_compare cc w (uval x) (uval y) = Some b"
    and "ap_width A z = GetBitWidth t" "uval z = of_bool b"
  shows "in_gamma A uval F E res (VInt z)"
  using assms MakeBoolean_sound[of False t res z E] MakeBoolean_sound[of True t res z E]
  by (auto simp: Unequal_def int_compare_codes split: if_splits)

text \<open>Comparing null with an address, on either side.\<close>

lemma IntOrder_sound:
  assumes "IntOrder A cc t lower = Inr res" "if lower then uval x < uval y else uval y < uval x"
    and "uval x < 2 ^ 63" "uval y < 2 ^ 63" "int_compare cc 64 (uval x) (uval y) = Some b"
    and "ap_width A z = GetBitWidth t" "uval z = of_bool b"
  shows "in_gamma A uval F E res (VInt z)"
  using assms MakeBoolean_sound[of b t res z E]
  by (cases cc; cases lower)
    (auto simp: IntOrder_def int_compare_low uval_nonneg code_groups split: if_splits)

lemma CompareInt_sound:
  assumes "CompareInt A i j cc = Inr b'" "ap_width A i = w" "ap_width A j = w"
    and "int_compare cc w (uval i) (uval j) = Some b"
  shows "b = b'"
  using assms
  by (cases cc) (auto simp: CompareInt_def int_compare_def code_groups eq slt ult sle ule)

lemma mask_differs:
  assumes "\<not> ap_is_null A (ap_and A k (ap_xor A m i))" "ap_width A k = ap_width A i" "ap_width A m = ap_width A i"
    and "uval x AND uval k = uval m AND uval k"
  shows "uval x \<noteq> uval i"
proof
  assume "uval x = uval i"
  moreover have "uval k AND (uval m XOR uval i) \<noteq> 0"
    using assms(1-3) by (simp add: is_null bit_and bit_xor)
  ultimately show False using assms(4) by (auto simp: and_zero_iff_bits and_eq_iff_bits bit_xor_iff)
qed

lemma CompareFrame_sound:
  assumes E: "layout_ok E" and l: "in_gamma A uval F E (LFrame lobj loff) (VInt x)"
    and r: "in_gamma A uval F E (LFrame robj roff) (VInt y)"
    and e: "CompareFrame A lobj loff robj roff cc t = Inr res" "res \<noteq> LUndefined"
    and b: "int_compare cc 64 (uval x) (uval y) = Some b"
    and z: "ap_width A z = GetBitWidth t" "uval z = of_bool b"
  shows "in_gamma A uval F E res (VInt z)"
proof -
  have lx: "uval x = frame_base E lobj + sint loff" "uval x < 2 ^ 63" "0 \<le> uval x"
    and ry: "uval y = frame_base E robj + sint roff" "uval y < 2 ^ 63" "0 \<le> uval y"
    using l r layout_frame[OF E, of lobj "sint loff"] layout_frame[OF E, of robj "sint roff"]
      uval_nonneg[of x] uval_nonneg[of y] by auto
  have ne: "lobj \<noteq> robj \<Longrightarrow> uval x \<noteq> uval y" using l r layout_apart(1)[OF E] by auto
  have "MakeBoolean A b t = Inr res"
  proof (cases "lobj = robj")
    case True
    then show ?thesis
      using e b lx ry by (cases cc)
        (auto simp: CompareFrame_def int_compare_low code_groups offset_eq_iff[of loff] split: if_splits)
  next
    case False
    then show ?thesis
      using e b ne lx ry by (cases cc)
        (auto simp: CompareFrame_def int_compare_low code_groups split: if_splits)
  qed
  then show ?thesis using MakeBoolean_sound z by blast
qed

lemma CompareGlobal_sound:
  assumes E: "layout_ok E" and l: "in_gamma A uval F E (LGlobal lg loff) (VInt x)"
    and r: "in_gamma A uval F E (LGlobal rg roff) (VInt y)"
    and e: "CompareGlobal A lg loff rg roff cc t = Inr res"
    and b: "int_compare cc 64 (uval x) (uval y) = Some b"
    and z: "ap_width A z = GetBitWidth t" "uval z = of_bool b"
  shows "in_gamma A uval F E res (VInt z)"
proof (cases "IsWeak lg \<or> IsWeak rg")
  case True
  then show ?thesis using e by (auto simp: CompareGlobal_def)
next
  case False
  have lx: "uval x = glob_base E lg + sint loff" "uval x < 2 ^ 63" "0 \<le> uval x"
    and ry: "uval y = glob_base E rg + sint roff" "uval y < 2 ^ 63" "0 \<le> uval y"
    using l r False layout_glob[OF E, of lg "sint loff"] layout_glob[OF E, of rg "sint roff"]
      uval_nonneg[of x] uval_nonneg[of y] by auto
  have ne: "lg \<noteq> rg \<Longrightarrow> uval x \<noteq> uval y" using l r False layout_apart(2)[OF E] by auto
  have "res = LOverdefined \<or> MakeBoolean A b t = Inr res"
  proof (cases "lg = rg")
    case True
    have "MakeBoolean A (sint loff = sint roff) t = Inr res" if "cc \<in> eq_codes"
      using e that False True by (auto simp: CompareGlobal_def same_global_def offset_eq_iff[of loff] Let_def split: if_splits)
    moreover have "MakeBoolean A (sint loff \<noteq> sint roff) t = Inr res" if "cc \<in> ne_codes"
      using e that False True by (auto simp: CompareGlobal_def same_global_def offset_eq_iff[of loff] code_groups Let_def split: if_splits)
    moreover have "res = LOverdefined \<or> MakeBoolean A (
        if cc \<in> lt_codes then sint loff < sint roff else if cc \<in> gt_codes then sint loff > sint roff
        else if cc \<in> le_codes then sint loff \<le> sint roff else sint loff \<ge> sint roff) t = Inr res"
      if "cc \<notin> eq_codes" "cc \<notin> ne_codes"
      using e that False True by (auto simp: CompareGlobal_def same_global_def Let_def split: if_splits)
    ultimately show ?thesis
      using b lx ry True by (cases cc) (auto simp: int_compare_low code_groups)
  next
    case ng: False
    have "MakeBoolean A False t = Inr res" if "cc \<in> eq_codes"
      using e that False ng by (auto simp: CompareGlobal_def same_global_def split: if_splits)
    moreover have "MakeBoolean A True t = Inr res" if "cc \<in> ne_codes"
      using e that False ng by (auto simp: CompareGlobal_def same_global_def code_groups split: if_splits)
    moreover have "res = LOverdefined" if "cc \<notin> eq_codes" "cc \<notin> ne_codes"
      using e that False ng by (auto simp: CompareGlobal_def same_global_def split: if_splits)
    ultimately show ?thesis
      using b ne[OF ng] int_compare_codes by (cases "cc \<in> eq_codes"; cases "cc \<in> ne_codes") auto
  qed
  then show ?thesis using MakeBoolean_sound z by auto
qed

text \<open>The address of a pointer operand is low and not null.\<close>

lemma address_low:
  assumes E: "layout_ok E" and l: "in_gamma A uval F E l (VInt x)" "low_pointer l (uval x)"
    and k: "IsPointer l \<or> IsFrame l \<or> IsRange l \<or> IsGlobal l \<and> \<not> IsWeak (GetGlobalSymbol l)"
  shows "ap_width A x = 64 \<and> 0 < uval x \<and> uval x < 2 ^ 63 \<and> (IsGlobal l \<longrightarrow> 1 < uval x)"
proof (cases l)
  case (LFrame obj off)
  then show ?thesis using l layout_frame[OF E, of obj "sint off"] by auto
next
  case (LGlobal g off)
  then show ?thesis using l k layout_glob[OF E, of g "sint off"] by auto
next
  case (LRange g)
  then obtain off where "glob_valid E g off" "uval x = glob_addr E g off" "\<not> IsWeak g" "ap_width A x = 64"
    using l by (auto simp: low_pointer_def)
  then show ?thesis using layout_glob[OF E, of g off] LRange by auto
qed (use l k uval_nonneg[of x] in \<open>auto simp: low_pointer_def\<close>)

lemma VisitCmpInt_sound:
  assumes E: "layout_ok E" and l: "in_gamma A uval F E (LInt i) (VInt x)"
    and r: "in_gamma A uval F E r (VInt y)" "wf_lattice A uval r" "low_pointer r (uval y)"
    and w: "ap_width A x = ap_width A y" and e: "VisitCmpInt A cc t i r = Inr res"
    and b: "int_compare cc (ap_width A y) (uval x) (uval y) = Some b"
    and z: "ap_width A z = GetBitWidth t" "uval z = of_bool b"
  shows "in_gamma A uval F E res (VInt z)"
proof -
  have null: ?thesis if "IsPointer r \<or> IsFrame r \<or> IsGlobal r \<and> \<not> IsWeak (GetGlobalSymbol r)"
      "(if ap_is_null A i then IntOrder A cc t True else returns LOverdefined) = Inr res"
  proof -
    have y: "ap_width A y = 64" "0 < uval y" "uval y < 2 ^ 63"
      using address_low[OF E r(1,3)] that(1) by blast+
    have "uval i = uval x" using l by simp
    then have "res = LOverdefined \<or> IntOrder A cc t True = Inr res \<and> uval x = 0"
      using that(2) by (auto simp: is_null split: if_splits)
    moreover have "int_compare cc 64 (uval x) (uval y) = Some b" using b y(1) by simp
    ultimately show ?thesis using IntOrder_sound[of cc t True res x y b z E] y(2,3) z by auto
  qed
  show ?thesis
  proof (cases r)
    case (LInt j)
    then obtain b' where "CompareInt A i j cc = Inr b'" "MakeBoolean A b' t = Inr res"
      using e by (auto simp: VisitCmpInt_def split: sum.splits)
    moreover have "ap_width A i = ap_width A y" "uval i = uval x" using l w by simp_all
    moreover have "ap_width A j = ap_width A y" "uval j = uval y" using r(1) LInt by simp_all
    ultimately have "MakeBoolean A b' t = Inr res" "b = b'"
      using CompareInt_sound[of i j cc b' "ap_width A y" b] b by metis+
    then show ?thesis using MakeBoolean_sound z by blast
  next
    case (LMask k m)
    show ?thesis
    proof (cases "ap_is_null A (ap_and A k (ap_xor A m i))")
      case False
      have "uval y \<noteq> uval i"
      proof (rule mask_differs[OF False])
        show "ap_width A k = ap_width A i" "ap_width A m = ap_width A i"
          using l r(1,2) LMask w by (metis in_gamma_simps(4,5) machine_val.inject(1) wf_lattice.simps(1))+
      qed (use r(1) LMask in simp)
      then show ?thesis
        using e LMask False l b z Unequal_sound[of cc t res x y "ap_width A y" b z E]
        by (auto simp: VisitCmpInt_def)
    qed (use e LMask in \<open>auto simp: VisitCmpInt_def\<close>)
  next
    case (LGlobal g off)
    then show ?thesis using null e by (auto simp: VisitCmpInt_def split: if_splits)
  next
    case (LFrame obj off)
    then show ?thesis using null e by (auto simp: VisitCmpInt_def)
  next
    case LPointer
    then show ?thesis using null e by (auto simp: VisitCmpInt_def)
  qed (use e r in \<open>auto simp: VisitCmpInt_def\<close>)
qed

lemma VisitCmp_null_right:
  assumes E: "layout_ok E" and l: "in_gamma A uval F E l (VInt x)" "low_pointer l (uval x)"
    and k: "IsPointer l \<or> IsFrame l \<or> IsRange l \<or> IsGlobal l \<and> \<not> IsWeak (GetGlobalSymbol l)"
    and r: "in_gamma A uval F E (LInt j) (VInt y)" and w: "ap_width A x = ap_width A y"
    and n: "ap_is_null A j \<or> IsGlobal l \<and> ap_is_one A j"
    and e: "IntOrder A cc t False = Inr res"
    and b: "int_compare cc (ap_width A y) (uval x) (uval y) = Some b"
    and z: "ap_width A z = GetBitWidth t" "uval z = of_bool b"
  shows "in_gamma A uval F E res (VInt z)"
proof -
  have x: "ap_width A x = 64" "0 < uval x" "uval x < 2 ^ 63" "IsGlobal l \<longrightarrow> 1 < uval x"
    using address_low[OF E l k] by simp_all
  have "uval y = 0 \<or> IsGlobal l \<and> uval y = 1" using n r by (auto simp: is_null is_one)
  then have y: "uval y < uval x" "uval y < 2 ^ 63" using x by auto
  have "int_compare cc 64 (uval x) (uval y) = Some b" using b w x(1) by simp
  then show ?thesis using IntOrder_sound[OF e _ x(3) y(2) _ z] y(1) by simp
qed

lemma VisitCmpMask_sound:
  assumes l: "in_gamma A uval F E (LMask k m) (VInt x)" "wf_lattice A uval (LMask k m)"
    and r: "in_gamma A uval F E r (VInt y)"
    and w: "ap_width A x = ap_width A y" and e: "VisitCmpMask A cc t k m r = Inr res"
    and b: "int_compare cc (ap_width A y) (uval x) (uval y) = Some b"
    and z: "ap_width A z = GetBitWidth t" "uval z = of_bool b"
  shows "in_gamma A uval F E res (VInt z)"
proof (cases "\<exists>j. r = LInt j \<and> \<not> ap_is_null A (ap_and A k (ap_xor A m j))")
  case True
  then obtain j where j: "r = LInt j" "\<not> ap_is_null A (ap_and A k (ap_xor A m j))" by blast
  have jy: "ap_width A j = ap_width A y" "uval j = uval y" using r j(1) by simp_all
  have "uval x \<noteq> uval j"
  proof (rule mask_differs[OF j(2)])
    show "ap_width A k = ap_width A j" "ap_width A m = ap_width A j"
      using l w jy(1) by (metis in_gamma_simps(5) machine_val.inject(1) wf_lattice.simps(1))+
  qed (use l(1) in simp)
  then show ?thesis
    using e j jy(2) b z Unequal_sound[of cc t res x y "ap_width A y" b z E]
    by (auto simp: VisitCmpMask_def)
qed (use e r in \<open>cases r; auto simp: VisitCmpMask_def split: if_splits\<close>)

lemma VisitCmpAddress_sound:
  assumes E: "layout_ok E" and l: "in_gamma A uval F E l (VInt x)" "low_pointer l (uval x)"
    and r: "in_gamma A uval F E r (VInt y)" "\<not> (IsGlobal l \<and> IsRange r)"
    and w: "ap_width A x = ap_width A y"
    and e: "VisitCmpInst A F cc t l r = Some (Inr res)" "res \<noteq> LUndefined"
    and b: "int_compare cc (ap_width A y) (uval x) (uval y) = Some b"
    and z: "ap_width A z = GetBitWidth t" "uval z = of_bool b"
    and k: "IsPointer l \<or> IsFrame l \<or> IsRange l \<or> IsGlobal l"
  shows "in_gamma A uval F E res (VInt z)"
proof (cases "IsInt r")
  case True
  then obtain j where j: "r = LInt j" by (cases r) auto
  have "res = LOverdefined \<or> (ap_is_null A j \<or> IsGlobal l \<and> ap_is_one A j) \<and>
      IntOrder A cc t False = Inr res \<and> (IsGlobal l \<longrightarrow> \<not> IsWeak (GetGlobalSymbol l))"
    using e(1) j k by (cases l) (auto simp: VisitCmpInst_def VisitCmpFrame_def VisitCmpGlobal_def
        VisitCmpPointer_def VisitCmpRange_def split: if_splits)
  then show ?thesis
    using VisitCmp_null_right[OF E l _ r(1)[unfolded j] w _ _ b z] k by auto
next
  case False
  have frame_glob: "uval x \<noteq> uval y" if "IsFrame l" "IsGlobal r"
    using that l(1) r(1) layout_apart(3)[OF E] by (cases l; cases r) auto
  show ?thesis
  proof (cases l)
    case (LFrame lobj loff)
    have "ap_width A y = 64" using l(1) w LFrame by auto
    then have b64: "int_compare cc 64 (uval x) (uval y) = Some b" using b by simp
    show ?thesis
    proof (cases r)
      case (LFrame robj roff)
      show ?thesis
        by (rule CompareFrame_sound[OF E l(1)[unfolded \<open>l = _\<close>] r(1)[unfolded LFrame] _ e(2) b64 z])
          (use e(1) \<open>l = _\<close> LFrame in \<open>simp add: VisitCmpInst_def VisitCmpFrame_def\<close>)
    next
      case (LGlobal g off)
      then show ?thesis
        using e(1) frame_glob \<open>l = _\<close> b64 z Unequal_sound[of cc t res x y 64 b z E]
        by (simp add: VisitCmpInst_def VisitCmpFrame_def)
    qed (use False e(1) r(1) LFrame in \<open>auto simp: VisitCmpInst_def VisitCmpFrame_def\<close>)
  next
    case (LGlobal lg loff)
    have "ap_width A y = 64" using l(1) w LGlobal by auto
    then have b64: "int_compare cc 64 (uval x) (uval y) = Some b" using b by simp
    show ?thesis
    proof (cases r)
      case (LGlobal rg roff)
      show ?thesis
        by (rule CompareGlobal_sound[OF E l(1)[unfolded \<open>l = _\<close>] r(1)[unfolded LGlobal] _ b64 z])
          (use e(1) \<open>l = _\<close> LGlobal in \<open>simp add: VisitCmpInst_def VisitCmpGlobal_def\<close>)
    qed (use False e(1) r LGlobal in \<open>auto simp: VisitCmpInst_def VisitCmpGlobal_def\<close>)
  next
    case LPointer
    then show ?thesis using False e(1) r(1) by (cases r) (auto simp: VisitCmpInst_def VisitCmpPointer_def)
  next
    case (LRange g)
    then show ?thesis using False e(1) r(1) by (cases r) (auto simp: VisitCmpInst_def VisitCmpRange_def)
  qed (use k in auto)
qed

lemma VisitCmpInst_sound_aux:
  assumes E: "layout_ok E"
    and l: "in_gamma A uval F E l (VInt x)" "wf_lattice A uval l" "low_pointer l (uval x)"
    and r: "in_gamma A uval F E r (VInt y)" "wf_lattice A uval r" "low_pointer r (uval y)"
    and w: "ap_width A x = ap_width A y" and gr: "\<not> (IsGlobal l \<and> IsRange r)"
    and e: "VisitCmpInst A F cc t l r = Some (Inr res)" "res \<noteq> LUndefined"
    and b: "int_compare cc (ap_width A y) (uval x) (uval y) = Some b"
    and z: "ap_width A z = GetBitWidth t" "uval z = of_bool b"
  shows "in_gamma A uval F E res (VInt z)"
proof -
  have known: "\<not> IsUnknown r" using r(1) by (auto simp: IsUnknown_def)
  show ?thesis
  proof (cases "IsPointer l \<or> IsFrame l \<or> IsRange l \<or> IsGlobal l")
    case True
    then show ?thesis using VisitCmpAddress_sound[OF E l(1,3) r(1) gr w e b z] by blast
  next
    case False
    then show ?thesis
    proof (cases l)
      case (LInt i)
      show ?thesis
        by (rule VisitCmpInt_sound[OF E l(1)[unfolded LInt] r w _ b z])
          (use e known LInt in \<open>simp add: VisitCmpInst_def\<close>)
    next
      case (LMask k m)
      show ?thesis
        by (rule VisitCmpMask_sound[OF l(1,2)[unfolded LMask] r(1) w _ b z])
          (use e known LMask in \<open>simp add: VisitCmpInst_def\<close>)
    qed (use l e known in \<open>auto simp: VisitCmpInst_def\<close>)
  qed
qed

end

subsection \<open>Properties\<close>

lemma sample_frame_addr:
  "frame_valid sample_env obj off \<Longrightarrow> frame_addr sample_env obj off = 0x7000 + 64 * int obj + off"
  by (simp add: sample_env_def frame_addr_def sample_env_no_wrap)

lemma sample_glob_addr:
  "glob_valid sample_env g off \<Longrightarrow> glob_addr sample_env g off =
    (if g = weak_symbol then 0 else 0x1000 + 64 * int (g_id g) + off) \<and>
    (g \<noteq> weak_symbol \<longrightarrow> g = sample_atom (g_id g) \<and> g_id g < 16 \<and> 0 \<le> off \<and> off < 64)"
  by (auto simp: sample_env_valid)

lemma sample_layout_ok: "layout_ok sample_env"
  unfolding layout_ok_def
proof (intro conjI allI impI; (elim conjE)?)
  fix obj off obj' off'
  assume v: "frame_valid sample_env obj off" "frame_valid sample_env obj' off'" and ne: "obj \<noteq> obj'"
  then have "0 \<le> off" "off < 64" "0 \<le> off'" "off' < 64" by (simp_all add: sample_env_def)
  then show "frame_addr sample_env obj off \<noteq> frame_addr sample_env obj' off'"
    using sample_frame_addr[OF v(1)] sample_frame_addr[OF v(2)] ne by linarith
next
  fix g off g' off'
  assume v: "glob_valid sample_env g off" "glob_valid sample_env g' off'"
    and ne: "g \<noteq> g'" and w: "\<not> IsWeak g" "\<not> IsWeak g'"
  then have "g \<noteq> weak_symbol" "g' \<noteq> weak_symbol" by auto
  moreover from calculation have "g_id g \<noteq> g_id g'"
    using sample_glob_addr[OF v(1)] sample_glob_addr[OF v(2)] ne by metis
  ultimately show "glob_addr sample_env g off \<noteq> glob_addr sample_env g' off'"
    using sample_glob_addr[OF v(1)] sample_glob_addr[OF v(2)] by auto
next
  fix obj off g off'
  assume v: "frame_valid sample_env obj off" "glob_valid sample_env g off'"
  then have "0 \<le> off" by (simp add: sample_env_def)
  then show "frame_addr sample_env obj off \<noteq> glob_addr sample_env g off'"
    using sample_frame_addr[OF v(1)] sample_glob_addr[OF v(2)] by (simp split: if_splits)
qed (auto simp: sample_env_def split: if_splits)



text \<open>A symbol compared with a range is marked with a range or a pointer, the value of a bound and
  not of a comparison: an equality of different addresses tests true.\<close>

theorem compare_with_range_tests_true:
  "\<exists>x y. in_gamma bv_ops bv_uval dbl_ops sample_env (LGlobal strong_symbol 0) (VInt x) \<and>
     in_gamma bv_ops bv_uval dbl_ops sample_env (LRange (sample_atom 2)) (VInt y) \<and>
     bv_uval x \<noteq> bv_uval y \<and>
     VisitCmpInst bv_ops dbl_ops C_EQ I8 (LGlobal strong_symbol 0) (LRange (sample_atom 2)) =
       Some (returns LPointer) \<and>
     IsTrue bv_ops dbl_ops LPointer = returns True"
proof (intro exI conjI)
  show "in_gamma bv_ops bv_uval dbl_ops sample_env (LGlobal strong_symbol 0) (VInt (bv_of 64 0x1040))"
    by (simp add: sample_env_valid strong_symbol_def bv_ops_def exI[of _ "Suc 0"])
  have "in_gamma bv_ops bv_uval dbl_ops sample_env (LGlobal (sample_atom 2) 0) (VInt (bv_of 64 0x1080))"
    by (simp add: sample_env_valid bv_ops_def exI[of _ "2 :: nat"])
  then show "in_gamma bv_ops bv_uval dbl_ops sample_env (LRange (sample_atom 2)) (VInt (bv_of 64 0x1080))"
    by (rule numbers.glob_in_range[OF bvdbl.numbers_axioms])
qed (simp_all add: VisitCmpInst_def VisitCmpGlobal_def same_global_def strong_symbol_def sample_atom_def)

text \<open>The handler is not symmetric: a mask compared with a symbol is overdefined, the symbol
  compared with the mask reaches an \<^verbatim>\<open>llvm_unreachable\<close>.\<close>

theorem compare_mask_asymmetric:
  "VisitCmpInst A F cc t (LMask k v) (LGlobal g off) = Some (returns LOverdefined) \<and>
   VisitCmpInst A F cc t (LGlobal g off) (LMask k v) = Some unreachable"
  by (simp add: VisitCmpInst_def VisitCmpMask_def VisitCmpGlobal_def)

text \<open>On integers the inverse of a condition code decides the complement, for every code but the
  two ordering tests.\<close>

theorem CompareInt_inverse:
  assumes "apint A uval" and "ap_width A i = ap_width A j" "cc \<noteq> C_O" "cc \<noteq> C_UO"
  shows "\<exists>v. CompareInt A i j cc = returns v \<and> CompareInt A i j (GetInverseCond cc) = returns (\<not> v)"
  using assms(2-) apint.slt[OF assms(1)] apint.ult[OF assms(1)] apint.sle[OF assms(1)] apint.ule[OF assms(1)]
  by (cases cc) (auto simp: CompareInt_def code_groups)

theorem CompareInt_inverse_witness:
  "\<exists>v. CompareInt bv_ops (bv_of 8 0xFF) (bv_of 8 1) C_UEQ = returns v \<and>
    CompareInt bv_ops (bv_of 8 0xFF) (bv_of 8 1) (GetInverseCond C_UEQ) = returns (\<not> v)"
  by (rule CompareInt_inverse [OF bv.apint_axioms]) (simp_all add: bv_ops_def)

text \<open>On floats the inverse of a condition code decides the complement exactly when the operands
  are ordered or the code is one of three; on unordered operands the inverse of any other code decides
  the same as the code.\<close>

theorem CompareFloat_inverse:
  "CompareFloat F f g (GetInverseCond cc) = CompareFloat F f g cc \<longleftrightarrow>
   af_compare F f g = CmpUnordered \<and> cc \<notin> {C_O, C_UO, C_UNE}"
  by (cases cc; cases "af_compare F f g") (simp_all add: CompareFloat_def code_groups)

end
