(* ===== verification/Items.thy ===== *)
theory Items
  imports ApFloat
begin

text \<open>
  The contents of data objects (\<^verbatim>\<open>core/item.cpp\<close>) and the loads and stores of constants that passes
  perform on them at compile time (\<^verbatim>\<open>core/object.cpp\<close>). An atom is the list of its items; inserting an
  item before another and erasing that one replaces it in the list. A double is a value of a parameter
  type, a constant integer is an \<^verbatim>\<open>APInt\<close>. \<open>item_bytes\<close> gives the memory image of an item for either
  byte order; the lemmas compare loads and stores with it.
\<close>

subsection \<open>Items\<close>

datatype expr = SymbolOffset global "64 word"

datatype 'd item =
    ItemInt8 "8 word"
  | ItemInt16 "16 word"
  | ItemInt32 "32 word"
  | ItemInt64 "64 word"
  | ItemFloat64 'd
  | ItemExpr32 expr
  | ItemExpr64 expr
  | ItemSpace "32 word"
  | ItemString "8 word list"

fun item_size :: "'d item \<Rightarrow> 64 word" where
  "item_size (ItemInt8 _) = 1"
| "item_size (ItemInt16 _) = 2"
| "item_size (ItemInt32 _) = 4"
| "item_size (ItemInt64 _) = 8"
| "item_size (ItemFloat64 _) = 8"
| "item_size (ItemSpace n) = ucast n"
| "item_size (ItemExpr32 _) = 4"
| "item_size (ItemExpr64 _) = 8"
| "item_size (ItemString s) = word_of_nat (length s)"

text \<open>
  The search for the item at an offset: the index of the item and the offset into it. The second
  argument is the position the loop has reached.
\<close>

fun find_item :: "'d item list \<Rightarrow> 64 word \<Rightarrow> 64 word \<Rightarrow> (nat \<times> 64 word) option" where
  "find_item [] i offset = None"
| "find_item (it # its) i offset =
     (if i + item_size it \<le> offset
      then map_option (\<lambda>(k, off). (Suc k, off)) (find_item its (i + item_size it) offset)
      else Some (0, offset - i))"

text \<open>An object is the list of its atoms; \<open>GetItem\<close> searches the first one only.\<close>

type_synonym 'd atoms = "'d item list list"

definition GetItem :: "'d atoms \<Rightarrow> 64 word \<Rightarrow> (nat \<times> 64 word) option result" where
  "GetItem obj offset = (case obj of [] \<Rightarrow> Inl BadIterator | its # _ \<Rightarrow> returns (find_item its 0 offset))"

subsection \<open>Loads\<close>

datatype 'd loaded = LoadedInt "64 word" | LoadedFloat 'd | LoadedExpr expr | LoadedSymbol global

definition load_expr :: "expr \<Rightarrow> 'd loaded" where
  "load_expr e = (case e of SymbolOffset g off \<Rightarrow> if off \<noteq> 0 then LoadedExpr e else LoadedSymbol g)"

definition LoadInt :: "'d item \<Rightarrow> 32 word \<Rightarrow> nat \<Rightarrow> 'd loaded option" where
  "LoadInt it off sz =
     (case it of
        ItemInt8 v \<Rightarrow> if sz = 1 \<and> off = 0 then Some (LoadedInt (scast v)) else None
      | ItemInt16 v \<Rightarrow> if sz = 2 \<and> off = 0 then Some (LoadedInt (scast v)) else None
      | ItemInt32 v \<Rightarrow> if sz = 4 \<and> off = 0 then Some (LoadedInt (scast v)) else None
      | ItemInt64 v \<Rightarrow> if sz = 8 \<and> off = 0 then Some (LoadedInt v) else None
      | ItemString s \<Rightarrow> if sz = 1 \<and> off = 0 then Some (LoadedInt (scast (s ! unat off))) else None
      | ItemSpace n \<Rightarrow> if off + word_of_nat sz \<le> n then Some (LoadedInt 0) else None
      | ItemFloat64 _ \<Rightarrow> None
      | ItemExpr32 e \<Rightarrow> if sz = 4 then Some (load_expr e) else None
      | ItemExpr64 e \<Rightarrow> if sz = 8 then Some (load_expr e) else None)"

definition LoadFloat :: "'d item \<Rightarrow> ty \<Rightarrow> 'd loaded option result" where
  "LoadFloat it ty =
     (case ty of
        F64 \<Rightarrow> returns (case it of ItemFloat64 d \<Rightarrow> Some (LoadedFloat d) | _ \<Rightarrow> None)
      | F80 \<Rightarrow> returns None
      | _ \<Rightarrow> unreachable)"

definition ObjectLoad :: "'d atoms \<Rightarrow> 64 word \<Rightarrow> ty \<Rightarrow> 'd loaded option result" where
  "ObjectLoad obj offset ty =
     (case GetItem obj offset of
        Inl e \<Rightarrow> Inl e
      | Inr None \<Rightarrow> returns None
      | Inr (Some (k, off)) \<Rightarrow>
          (let it = hd obj ! k in
           if IsIntegerType ty then returns (LoadInt it (ucast off) (GetSize ty))
           else LoadFloat it ty))"

subsection \<open>Stores\<close>

definition put_item :: "'d item list \<Rightarrow> nat \<Rightarrow> 'd item list \<Rightarrow> 'd item list" where
  "put_item its k new = take k its @ new @ drop (Suc k) its"

text \<open>The item written to unallocated space, between what is left of the space on both sides.\<close>

definition split_space :: "32 word \<Rightarrow> 32 word \<Rightarrow> ty \<Rightarrow> 'd item result \<Rightarrow> 'd item list result" where
  "split_space n off ty new =
     (let before = uint off; after = uint n - uint off - int (GetSize ty) in
      if after < 0 then Inl AssertFailed
      else (case new of
              Inl e \<Rightarrow> Inl e
            | Inr it \<Rightarrow> returns ((if 0 < before then [ItemSpace (word_of_int before)] else []) @ [it] @
                (if 0 < after then [ItemSpace (word_of_int after)] else []))))"

text \<open>The items that take the place of the one stored to, or \<open>None\<close> where the store is refused.\<close>

definition StoreExpr :: "'d item \<Rightarrow> 32 word \<Rightarrow> expr \<Rightarrow> ty \<Rightarrow> 'd item list option result" where
  "StoreExpr it off e ty =
     (case it of
        ItemString _ \<Rightarrow> unreachable
      | ItemSpace n \<Rightarrow>
          map_sum id Some (split_space n off ty
            (case ty of
               I32 \<Rightarrow> returns (ItemExpr32 e)
             | I64 \<Rightarrow> returns (ItemExpr64 e)
             | V64 \<Rightarrow> returns (ItemExpr64 e)
             | _ \<Rightarrow> unreachable))
      | _ \<Rightarrow> returns (if item_size it = word_of_nat (GetSize ty) then Some [ItemExpr64 e] else None))"

definition StoreInt :: "'d item \<Rightarrow> 32 word \<Rightarrow> ty \<Rightarrow> 64 word \<Rightarrow> 'd item list option result" where
  "StoreInt it off ty v =
     (case it of
        ItemInt8 _ \<Rightarrow> if ty = I8 then returns (Some [ItemInt8 (ucast v)]) else unreachable
      | ItemInt16 _ \<Rightarrow> unreachable
      | ItemInt32 _ \<Rightarrow> if ty = I32 then returns (Some [ItemInt32 (ucast v)]) else unreachable
      | ItemExpr32 _ \<Rightarrow> if ty = I32 then returns (Some [ItemInt32 (ucast v)]) else unreachable
      | ItemInt64 _ \<Rightarrow> if ty = I64 \<or> ty = V64 then returns (Some [ItemInt64 v]) else unreachable
      | ItemExpr64 _ \<Rightarrow> if ty = I64 \<or> ty = V64 then returns (Some [ItemInt64 v]) else unreachable
      | ItemString s \<Rightarrow>
          if unat (off + word_of_nat (GetSize ty)) \<le> length s \<and> ty = I8
          then returns (Some [ItemString (s[unat off := ucast v])]) else unreachable
      | ItemSpace n \<Rightarrow>
          map_sum id Some (split_space n off ty
            (case ty of
               I8 \<Rightarrow> returns (ItemInt8 (ucast v))
             | I16 \<Rightarrow> returns (ItemInt16 (ucast v))
             | I32 \<Rightarrow> returns (ItemInt32 (ucast v))
             | I64 \<Rightarrow> returns (ItemInt64 v)
             | V64 \<Rightarrow> returns (ItemInt64 v)
             | _ \<Rightarrow> unreachable))
      | ItemFloat64 _ \<Rightarrow> unreachable)"

datatype 'i stored = StoreInst | StoreGlobal global | StoredExpr expr | StoreConstInt 'i | StoreConstFloat

definition ObjectStore :: "'i apint_ops \<Rightarrow> 'd atoms \<Rightarrow> 64 word \<Rightarrow> 'i stored \<Rightarrow> ty \<Rightarrow> (bool \<times> 'd atoms) result" where
  "ObjectStore A obj offset v ty =
     (case GetItem obj offset of
        Inl e \<Rightarrow> Inl e
      | Inr None \<Rightarrow> returns (False, obj)
      | Inr (Some (k, off)) \<Rightarrow>
          (let it = hd obj ! k in
           case (case v of
                   StoreInst \<Rightarrow> unreachable
                 | StoreGlobal g \<Rightarrow> StoreExpr it (ucast off) (SymbolOffset g 0) ty
                 | StoredExpr e \<Rightarrow> StoreExpr it (ucast off) e ty
                 | StoreConstInt i \<Rightarrow> StoreInt it (ucast off) ty (ap_getSExtValue A i)
                 | StoreConstFloat \<Rightarrow> unreachable) of
             Inl e \<Rightarrow> Inl e
           | Inr None \<Rightarrow> returns (False, obj)
           | Inr (Some new) \<Rightarrow> returns (True, put_item (hd obj) k new # tl obj)))"

subsection \<open>The memory image\<close>

datatype 'd mbyte = MByte "8 word" | MFloat 'd nat | MExpr expr nat nat

definition int_bytes :: "bool \<Rightarrow> nat \<Rightarrow> 64 word \<Rightarrow> 'd mbyte list" where
  "int_bytes le n v =
     (let bs = map (\<lambda>k. MByte (ucast (drop_bit (8 * k) v))) [0..<n] in if le then bs else rev bs)"

definition expr_bytes :: "nat \<Rightarrow> expr \<Rightarrow> 'd mbyte list" where
  "expr_bytes n e = map (MExpr e n) [0..<n]"

fun item_bytes :: "bool \<Rightarrow> 'd item \<Rightarrow> 'd mbyte list" where
  "item_bytes le (ItemInt8 v) = int_bytes le 1 (scast v)"
| "item_bytes le (ItemInt16 v) = int_bytes le 2 (scast v)"
| "item_bytes le (ItemInt32 v) = int_bytes le 4 (scast v)"
| "item_bytes le (ItemInt64 v) = int_bytes le 8 v"
| "item_bytes le (ItemFloat64 d) = map (MFloat d) [0..<8]"
| "item_bytes le (ItemExpr32 e) = expr_bytes 4 e"
| "item_bytes le (ItemExpr64 e) = expr_bytes 8 e"
| "item_bytes le (ItemSpace n) = replicate (unat n) (MByte 0)"
| "item_bytes le (ItemString s) = map MByte s"

definition contents :: "bool \<Rightarrow> 'd item list \<Rightarrow> 'd mbyte list" where
  "contents le its = concat (map (item_bytes le) its)"

fun loaded_bytes :: "bool \<Rightarrow> nat \<Rightarrow> 'd loaded \<Rightarrow> 'd mbyte list" where
  "loaded_bytes le n (LoadedInt v) = int_bytes le n v"
| "loaded_bytes le n (LoadedFloat d) = map (MFloat d) [0..<n]"
| "loaded_bytes le n (LoadedExpr e) = expr_bytes n e"
| "loaded_bytes le n (LoadedSymbol g) = expr_bytes n (SymbolOffset g 0)"

fun stored_bytes :: "'i apint_ops \<Rightarrow> bool \<Rightarrow> nat \<Rightarrow> 'i stored \<Rightarrow> 'd mbyte list" where
  "stored_bytes A le n (StoreGlobal g) = expr_bytes n (SymbolOffset g 0)"
| "stored_bytes A le n (StoredExpr e) = expr_bytes n e"
| "stored_bytes A le n (StoreConstInt i) = int_bytes le n (ap_getSExtValue A i)"
| "stored_bytes A le n _ = []"

definition overwrite :: "'a list \<Rightarrow> nat \<Rightarrow> 'a list \<Rightarrow> 'a list" where
  "overwrite xs n ys = take n xs @ ys @ drop (n + length ys) xs"

lemma length_int_bytes [simp]: "length (int_bytes le n v) = n"
  by (simp add: int_bytes_def Let_def)

lemma length_expr_bytes [simp]: "length (expr_bytes n e) = n"
  by (simp add: expr_bytes_def)

lemma contents_simps [simp]: "contents le [] = []" "contents le (it # its) = item_bytes le it @ contents le its"
    "contents le (xs @ ys) = contents le xs @ contents le ys"
  by (simp_all add: contents_def)

lemma unat_32: "unat (n :: 32 word) < 2 ^ 32"
  using unsigned_less[of n] by simp

lemma unat_ucast_space: "unat (ucast (n :: 32 word) :: 64 word) = unat n"
  using unat_32[of n] by (simp add: unsigned_ucast_eq take_bit_nat_eq_self_iff)

lemma item_size_length: "length (item_bytes le it) < 2 ^ 64 \<Longrightarrow> unat (item_size it) = length (item_bytes le it)"
  by (cases it) (simp_all add: unat_of_nat unat_ucast_space)

lemma length_overwrite: "n + length ys \<le> length xs \<Longrightarrow> length (overwrite xs n ys) = length xs"
  by (simp add: overwrite_def)

lemma overwrite_inside:
  assumes "n + length ys \<le> length xs"
  shows "as @ overwrite xs n ys @ bs = overwrite (as @ xs @ bs) (length as + n) ys"
  using assms by (simp add: overwrite_def)

lemma overwrite_all: "length ys = length xs \<Longrightarrow> overwrite xs 0 ys = ys"
  by (simp add: overwrite_def)

text \<open>The bytes of an integer do not depend on the bits above them.\<close>

lemma int_bytes_cong:
  assumes "take_bit (8 * n) v = take_bit (8 * n) w"
  shows "int_bytes le n v = int_bytes le n w"
proof -
  have "ucast (drop_bit (8 * k) v) = (ucast (drop_bit (8 * k) w) :: 8 word)" if "k < n" for k
  proof (rule bit_word_eqI)
    fix i assume "i < LENGTH(8)"
    then have "8 * k + i < 8 * n" using that by simp
    moreover have "bit (take_bit (8 * n) v) (8 * k + i) = bit (take_bit (8 * n) w) (8 * k + i)"
      using assms by simp
    ultimately have "bit v (8 * k + i) = bit w (8 * k + i)" by (simp add: bit_take_bit_iff)
    then show "bit (ucast (drop_bit (8 * k) v) :: 8 word) i = bit (ucast (drop_bit (8 * k) w) :: 8 word) i"
      using \<open>i < LENGTH(8)\<close> by (simp add: bit_ucast_iff bit_drop_bit_eq)
  qed
  then show ?thesis by (simp add: int_bytes_def Let_def cong: map_cong)
qed

lemma int_bytes_scast:
  "int_bytes le 1 (scast (ucast v :: 8 word)) = int_bytes le 1 v"
  "int_bytes le 2 (scast (ucast v :: 16 word)) = int_bytes le 2 v"
  "int_bytes le 4 (scast (ucast v :: 32 word)) = int_bytes le 4 v"
proof -
  have *: "take_bit n (scast (ucast v :: 'l::len word)) = take_bit n v" if "n \<le> LENGTH('l)" "n \<le> 64" for n
  proof (rule bit_word_eqI)
    fix i
    have "i < n \<Longrightarrow> min (LENGTH('l) - Suc 0) i = i" using that by simp
    then show "bit (take_bit n (scast (ucast v :: 'l word) :: 64 word)) i = bit (take_bit n v) i"
      using that by (auto simp: bit_take_bit_iff bit_signed_iff bit_unsigned_iff simp del: signed_ucast_eq)
  qed
  show "int_bytes le 1 (scast (ucast v :: 8 word)) = int_bytes le 1 v"
    "int_bytes le 2 (scast (ucast v :: 16 word)) = int_bytes le 2 v"
    "int_bytes le 4 (scast (ucast v :: 32 word)) = int_bytes le 4 v"
    by (rule int_bytes_cong, rule *, simp_all)+
qed

lemma int_bytes_scast1: "int_bytes le (Suc 0) (scast (ucast v :: 8 word)) = int_bytes le (Suc 0) v"
  using int_bytes_scast(1) by (simp only: One_nat_def)

lemma int_bytes_1: "int_bytes le (Suc 0) v = [MByte (ucast v)]"
  by (simp add: int_bytes_def Let_def)

lemma int_bytes_0: "int_bytes le n 0 = replicate n (MByte 0)"
  by (auto simp: int_bytes_def Let_def map_replicate_const)

text \<open>Where the search ends.\<close>

lemma find_item_spec:
  assumes "find_item its i offset = Some (k, off)" "i \<le> offset" "unat i + length (contents le its) < 2 ^ 64"
  shows "k < length its \<and> unat i + length (contents le (take k its)) + unat off = unat offset \<and>
    unat off < length (item_bytes le (its ! k))"
  using assms
proof (induction its arbitrary: i k)
  case (Cons it its)
  have sz: "unat (item_size it) = length (item_bytes le it)"
    using Cons.prems(3) by (intro item_size_length) simp
  have sum: "unat (i + item_size it) = unat i + length (item_bytes le it)"
    using Cons.prems(3) sz by (subst unat_add_lem[THEN iffD1]) auto
  show ?case
  proof (cases "i + item_size it \<le> offset")
    case True
    then obtain k' where k: "find_item its (i + item_size it) offset = Some (k', off)" "k = Suc k'"
      using Cons.prems(1) by auto
    show ?thesis
      using Cons.IH[OF k(1) True] Cons.prems(3) k(2) sum by simp
  next
    case False
    then have "k = 0" "off = offset - i" using Cons.prems(1) by auto
    moreover have "unat (offset - i) = unat offset - unat i" using Cons.prems(2) by (rule unat_sub)
    moreover have "unat i \<le> unat offset" "unat offset < unat (i + item_size it)"
      using Cons.prems(2) False by (simp_all add: word_le_nat_alt not_le word_less_nat_alt)
    ultimately show ?thesis using sum by auto
  qed
qed simp

lemma find_item_here:
  assumes "unat i + length (contents le (as @ [it])) < 2 ^ 64" "0 < length (item_bytes le it)"
    and "unat offset = unat i + length (contents le as)"
  shows "find_item (as @ it # bs) i offset = Some (length as, 0)"
  using assms
proof (induction as arbitrary: i)
  case Nil
  have "unat (item_size it) = length (item_bytes le it)" using Nil.prems(1) by (intro item_size_length) simp
  then have "unat (i + item_size it) = unat i + length (item_bytes le it)"
    using Nil.prems(1) by (subst unat_add_lem[THEN iffD1]) auto
  moreover have "offset = i" using Nil.prems(3) by (simp add: word_unat_eq_iff)
  ultimately show ?case using Nil.prems by (simp add: word_le_nat_alt)
next
  case (Cons a as)
  have "unat (item_size a) = length (item_bytes le a)" using Cons.prems(1) by (intro item_size_length) simp
  then have s: "unat (i + item_size a) = unat i + length (item_bytes le a)"
    using Cons.prems(1) by (subst unat_add_lem[THEN iffD1]) auto
  then have "i + item_size a \<le> offset" using Cons.prems by (simp add: word_le_nat_alt)
  moreover have "find_item (as @ it # bs) (i + item_size a) offset = Some (length as, 0)"
    by (rule Cons.IH) (use Cons.prems s in simp_all)
  ultimately show ?case by simp
qed

subsection \<open>Loads and stores on one item\<close>

lemma ucast_scast_byte: "ucast (scast (b :: 8 word) :: 64 word) = b"
proof (rule bit_word_eqI)
  fix i assume "i < LENGTH(8)"
  then have "min (LENGTH(8) - Suc 0) i = i" by simp
  then show "bit (ucast (scast b :: 64 word) :: 8 word) i = bit b i"
    using \<open>i < LENGTH(8)\<close> by (auto simp: bit_signed_iff bit_unsigned_iff)
qed

lemma LoadInt_bytes:
  assumes "LoadInt it off sz = Some l" "off = 0 \<or> (\<exists>n. it = ItemSpace n)" "0 < sz" "sz \<le> 16"
    and "unat off < length (item_bytes le it)" "length (item_bytes le it) < 2 ^ 32 - 16"
  shows "take sz (drop (unat off) (item_bytes le it)) = loaded_bytes le sz l"
proof (cases it)
  case (ItemSpace n)
  then have l: "l = LoadedInt 0" "off + word_of_nat sz \<le> n"
    using assms(1) by (auto simp: LoadInt_def split: if_splits)
  have u: "unat (word_of_nat sz :: 32 word) = sz" using assms(4) by (simp add: unat_of_nat)
  have "unat (off + word_of_nat sz) = unat off + sz"
    using assms(4,5,6) ItemSpace u by (subst unat_add_lem[THEN iffD1]) auto
  then have "unat off + sz \<le> unat n" using l(2) by (simp add: word_le_nat_alt)
  then show ?thesis using ItemSpace l(1) by (simp add: int_bytes_0)
next
  case (ItemString s)
  then show ?thesis using assms
    by (cases s) (auto simp: LoadInt_def int_bytes_def Let_def ucast_scast_byte split: if_splits)
qed (use assms in \<open>auto simp: LoadInt_def load_expr_def split: if_splits expr.splits\<close>)

lemma space_contents: "contents le (if 0 < uint off then [ItemSpace off] else []) = replicate (unat off) (MByte 0)"
  by (cases "unat off = 0") (simp_all add: uint_nat del: of_nat_unat unat_eq_0)

lemma split_space_bytes:
  assumes "split_space n off ty (returns it) = returns new" "length (item_bytes le it) = GetSize ty"
  shows "contents le new = overwrite (replicate (unat n) (MByte 0)) (unat off) (item_bytes le it) \<and>
    unat off + GetSize ty \<le> unat n"
proof -
  define after where "after = uint n - uint off - int (GetSize ty)"
  have le: "0 \<le> after" using assms(1) by (auto simp: split_space_def after_def Let_def split: if_splits)
  have ai: "after = int (unat n) - int (unat off) - int (GetSize ty)" by (simp only: after_def uint_nat)
  have sz: "unat off + GetSize ty \<le> unat n" using le unfolding ai by linarith
  have na: "nat after = unat n - (unat off + GetSize ty)" unfolding ai by linarith
  have "nat after < 2 ^ 32" using na unat_32[of n] by (simp add: less_imp_diff_less)
  then have a: "unat (word_of_int after :: 32 word) = nat after"
    using le by (simp add: unat_eq_nat_uint uint_word_of_int take_bit_int_eq_self)
  have new: "new = (if 0 < uint off then [ItemSpace off] else []) @ [it] @
      (if 0 < after then [ItemSpace (word_of_int after)] else [])"
    using assms(1) le by (auto simp: split_space_def after_def Let_def split: if_splits)
  have "contents le new = replicate (unat off) (MByte 0) @ item_bytes le it @ replicate (nat after) (MByte 0)"
    using space_contents[of le off] space_contents[of le "word_of_int after"] a le
    by (simp add: new uint_nat contents_def del: of_nat_unat)
  then show ?thesis using assms(2) sz na by (simp add: overwrite_def)
qed

lemma StoreInt_bytes:
  assumes "StoreInt it off ty v = returns (Some new)"
    and "off = 0 \<or> (\<exists>n. it = ItemSpace n) \<or> (\<exists>s. it = ItemString s)"
    and "unat off < length (item_bytes le it)" "length (item_bytes le it) < 2 ^ 32"
  shows "contents le new = overwrite (item_bytes le it) (unat off) (int_bytes le (GetSize ty) v) \<and>
    unat off + GetSize ty \<le> length (item_bytes le it) \<and> IsIntegerType ty"
proof (cases it)
  case (ItemSpace n)
  define new_item :: "'a item result" where "new_item = (case ty of
       I8 \<Rightarrow> returns (ItemInt8 (ucast v)) | I16 \<Rightarrow> returns (ItemInt16 (ucast v))
     | I32 \<Rightarrow> returns (ItemInt32 (ucast v)) | I64 \<Rightarrow> returns (ItemInt64 v)
     | V64 \<Rightarrow> returns (ItemInt64 v) | _ \<Rightarrow> unreachable)"
  have sp: "split_space n off ty new_item = returns new"
    using assms(1) ItemSpace
    by (cases "split_space n off ty new_item") (auto simp: StoreInt_def new_item_def[symmetric])
  then obtain i where i: "new_item = returns i"
    by (cases new_item) (auto simp: split_space_def Let_def split: if_splits)
  then have "item_bytes le i = int_bytes le (GetSize ty) v" "IsIntegerType ty"
    by (auto simp: new_item_def int_bytes_scast int_bytes_scast1 simp del: signed_ucast_eq split: ty.splits)
  then show ?thesis using split_space_bytes[OF sp[unfolded i], of le] ItemSpace by simp
next
  case (ItemString s)
  then have t: "ty = I8" "new = [ItemString (s[unat off := ucast v])]" "unat off < length s"
    using assms by (auto simp: StoreInt_def split: if_splits)
  have "map MByte (s[unat off := ucast v]) = overwrite (map MByte s) (unat off) [MByte (ucast v) :: 'a mbyte]"
    using t(3) by (simp add: overwrite_def upd_conv_take_nth_drop take_map drop_map)
  then show ?thesis using ItemString t by (simp add: int_bytes_1)
qed (use assms in \<open>auto simp: StoreInt_def overwrite_all int_bytes_scast int_bytes_scast1 simp del: signed_ucast_eq split: if_splits\<close>)

lemma StoreExpr_bytes:
  assumes "StoreExpr it off e ty = returns (Some new)"
    and "off = 0 \<and> GetSize ty = 8 \<or> (\<exists>n. it = ItemSpace n)"
  shows "contents le new = overwrite (item_bytes le it) (unat off) (expr_bytes (GetSize ty) e) \<and>
    unat off + GetSize ty \<le> length (item_bytes le it)"
proof (cases it)
  case (ItemSpace n)
  define new_item :: "'a item result" where "new_item = (case ty of
       I32 \<Rightarrow> returns (ItemExpr32 e) | I64 \<Rightarrow> returns (ItemExpr64 e)
     | V64 \<Rightarrow> returns (ItemExpr64 e) | _ \<Rightarrow> unreachable)"
  have sp: "split_space n off ty new_item = returns new"
    using assms(1) ItemSpace
    by (cases "split_space n off ty new_item") (auto simp: StoreExpr_def new_item_def[symmetric])
  then obtain i where i: "new_item = returns i"
    by (cases new_item) (auto simp: split_space_def Let_def split: if_splits)
  then have "item_bytes le i = expr_bytes (GetSize ty) e"
    by (auto simp: new_item_def split: ty.splits)
  then show ?thesis using split_space_bytes[OF sp[unfolded i], of le] ItemSpace by simp
qed (use assms in \<open>auto simp: StoreExpr_def overwrite_all split: if_splits\<close>)

subsection \<open>Loads and stores on an object\<close>

lemma contents_split:
  "k < length its \<Longrightarrow> contents le its = contents le (take k its) @ item_bytes le (its ! k) @ contents le (drop (Suc k) its)"
  by (metis contents_simps(2,3) id_take_nth_drop)

text \<open>What the search finds in an object of less than \<open>2 ^ 32\<close> bytes.\<close>

lemma GetItem_spec:
  assumes "GetItem obj offset = returns (Some (k, off))" "length (contents le (hd obj)) < 2 ^ 32"
  defines "it \<equiv> hd obj ! k"
  shows "obj \<noteq> [] \<and> k < length (hd obj) \<and> length (contents le (take k (hd obj))) + unat (ucast off :: 32 word) = unat offset \<and>
    unat (ucast off :: 32 word) < length (item_bytes le it) \<and> length (item_bytes le it) < 2 ^ 32 \<and>
    unat offset < length (contents le (hd obj))"
proof -
  have f: "obj \<noteq> []" "find_item (hd obj) 0 offset = Some (k, off)"
    using assms(1) by (auto simp: GetItem_def split: list.splits)
  have s: "k < length (hd obj)" "length (contents le (take k (hd obj))) + unat off = unat offset"
      "unat off < length (item_bytes le it)"
    using find_item_spec[OF f(2), of le] assms(2) by (simp_all add: it_def)
  then have l: "length (contents le (hd obj)) = length (contents le (take k (hd obj))) + length (item_bytes le it) +
      length (contents le (drop (Suc k) (hd obj)))"
    by (simp add: contents_split[of k "hd obj" le] it_def)
  then have "unat off < 2 ^ 32" using s(3) assms(2) by linarith
  then have "unat (ucast off :: 32 word) = unat off"
    by (simp add: unsigned_ucast_eq take_bit_nat_eq_self_iff)
  then show ?thesis using f(1) s l assms(2) by simp
qed

lemma load_aux:
  assumes load: "ObjectLoad obj offset ty = returns (Some l)" and sz: "length (contents le (hd obj)) < 2 ^ 32 - 16"
    and whole: "\<And>k off. GetItem obj offset = returns (Some (k, off)) \<Longrightarrow>
      off = 0 \<or> (\<exists>n. hd obj ! k = ItemSpace n)"
  shows "take (GetSize ty) (drop (unat offset) (contents le (hd obj))) = loaded_bytes le (GetSize ty) l"
proof -
  obtain k off where g: "GetItem obj offset = returns (Some (k, off))"
      and r: "(if IsIntegerType ty then returns (LoadInt (hd obj ! k) (ucast off) (GetSize ty))
         else LoadFloat (hd obj ! k) ty) = returns (Some l)"
    using load by (auto simp: ObjectLoad_def Let_def split: sum.splits option.splits)
  define it where "it = hd obj ! k"
  have sp: "k < length (hd obj)" "length (contents le (take k (hd obj))) + unat (ucast off :: 32 word) = unat offset"
      "unat (ucast off :: 32 word) < length (item_bytes le it)"
    using GetItem_spec[OF g, of le] sz by (simp_all add: it_def)
  have len: "length (item_bytes le it) < 2 ^ 32 - 16"
    using sz contents_split[OF sp(1), of le] by (simp add: it_def)
  have w: "ucast off = (0 :: 32 word) \<or> (\<exists>n. it = ItemSpace n)" using whole[OF g] by (auto simp: it_def)
  have "take (GetSize ty) (drop (unat (ucast off :: 32 word)) (item_bytes le it)) = loaded_bytes le (GetSize ty) l \<and>
      unat (ucast off :: 32 word) + GetSize ty \<le> length (item_bytes le it)"
  proof (cases "IsIntegerType ty")
    case True
    then have ld: "LoadInt it (ucast off) (GetSize ty) = Some l" using r by (simp add: it_def)
    have "GetSize ty \<le> 16" by (cases ty) simp_all
    then have "take (GetSize ty) (drop (unat (ucast off :: 32 word)) (item_bytes le it)) = loaded_bytes le (GetSize ty) l"
      using LoadInt_bytes[OF ld w _ _ sp(3) len] by simp
    moreover have "length (loaded_bytes le (GetSize ty) l) = GetSize ty" by (cases l) simp_all
    ultimately have t: "take (GetSize ty) (drop (unat (ucast off :: 32 word)) (item_bytes le it)) = loaded_bytes le (GetSize ty) l"
        "length (take (GetSize ty) (drop (unat (ucast off :: 32 word)) (item_bytes le it))) = GetSize ty"
      by simp_all
    have "GetSize ty \<le> length (item_bytes le it) - unat (ucast off :: 32 word)"
      using t(2) unfolding length_take length_drop by linarith
    then show ?thesis using t(1) sp(3) by linarith
  next
    case False
    then have "ty = F64" "\<exists>d. it = ItemFloat64 d \<and> l = LoadedFloat d"
      using r by (auto simp: LoadFloat_def it_def[symmetric] split: ty.splits item.splits)
    then show ?thesis using w by (auto simp del: upt_Suc)
  qed
  moreover have "drop (unat offset) (contents le (hd obj)) =
      drop (unat (ucast off :: 32 word)) (item_bytes le it @ contents le (drop (Suc k) (hd obj)))"
    unfolding sp(2)[symmetric] contents_split[OF sp(1), of le] it_def[symmetric] by simp
  ultimately show ?thesis by auto
qed

definition integral_store :: "'i stored \<Rightarrow> 'd item \<Rightarrow> 64 word \<Rightarrow> ty \<Rightarrow> bool" where
  "integral_store v it off ty \<longleftrightarrow>
     (\<exists>n. it = ItemSpace n) \<or>
     (case v of StoreConstInt i \<Rightarrow> off = 0 \<or> (\<exists>s. it = ItemString s) | _ \<Rightarrow> off = 0 \<and> GetSize ty = 8)"

lemma store_aux:
  fixes obj :: "'d atoms"
  assumes store: "ObjectStore A obj offset v ty = returns (True, obj')" and sz: "length (contents le (hd obj)) < 2 ^ 32"
    and whole: "\<And>k off. GetItem obj offset = returns (Some (k, off)) \<Longrightarrow> integral_store v (hd obj ! k) off ty"
  shows "contents le (hd obj') = overwrite (contents le (hd obj)) (unat offset) (stored_bytes A le (GetSize ty) v) \<and>
    tl obj' = tl obj \<and> length (contents le (hd obj')) = length (contents le (hd obj))"
proof -
  obtain k off new where g: "GetItem obj offset = returns (Some (k, off))"
      and n: "(case v of
            StoreInst \<Rightarrow> unreachable
          | StoreGlobal g \<Rightarrow> StoreExpr (hd obj ! k) (ucast off) (SymbolOffset g 0) ty
          | StoredExpr e \<Rightarrow> StoreExpr (hd obj ! k) (ucast off) e ty
          | StoreConstInt i \<Rightarrow> StoreInt (hd obj ! k) (ucast off) ty (ap_getSExtValue A i)
          | StoreConstFloat \<Rightarrow> unreachable) = returns (Some new)"
      and o: "obj' = put_item (hd obj) k new # tl obj"
    using store by (auto simp: ObjectStore_def Let_def split: sum.splits option.splits)
  define it where "it = hd obj ! k"
  have sp: "k < length (hd obj)" "length (contents le (take k (hd obj))) + unat (ucast off :: 32 word) = unat offset"
      "unat (ucast off :: 32 word) < length (item_bytes le it)" "length (item_bytes le it) < 2 ^ 32"
    using GetItem_spec[OF g, of le] sz by (simp_all add: it_def)
  have w: "integral_store v it off ty" using whole[OF g] by (simp add: it_def)
  have "contents le new = overwrite (item_bytes le it) (unat (ucast off :: 32 word)) (stored_bytes A le (GetSize ty) v) \<and>
      unat (ucast off :: 32 word) + GetSize ty \<le> length (item_bytes le it)"
  proof (cases v)
    case (StoreConstInt i)
    then show ?thesis
      using StoreInt_bytes[of it "ucast off" ty "ap_getSExtValue A i" new le] n w sp(3,4)
      by (auto simp: it_def[symmetric] integral_store_def)
  next
    case (StoreGlobal g)
    then show ?thesis
      using StoreExpr_bytes[of it "ucast off" "SymbolOffset g 0" ty new le] n w
      by (auto simp: it_def[symmetric] integral_store_def)
  next
    case (StoredExpr e)
    then show ?thesis
      using StoreExpr_bytes[of it "ucast off" e ty new le] n w
      by (auto simp: it_def[symmetric] integral_store_def)
  qed (use n in auto)
  then have new: "contents le new = overwrite (item_bytes le it) (unat (ucast off :: 32 word)) (stored_bytes A le (GetSize ty) v)"
    and fits: "unat (ucast off :: 32 word) + GetSize ty \<le> length (item_bytes le it)" by auto
  have l: "length (stored_bytes A le (GetSize ty) v :: 'd mbyte list) = GetSize ty" using n by (cases v) simp_all
  have "contents le (hd obj') = contents le (take k (hd obj)) @
      overwrite (item_bytes le it) (unat (ucast off :: 32 word)) (stored_bytes A le (GetSize ty) v) @
      contents le (drop (Suc k) (hd obj))"
    by (simp add: o put_item_def new)
  also have "\<dots> = overwrite (contents le (hd obj)) (unat offset) (stored_bytes A le (GetSize ty) v)"
    unfolding sp(2)[symmetric] contents_split[OF sp(1), of le] it_def[symmetric]
    by (rule overwrite_inside) (simp add: l fits)
  finally have "contents le (hd obj') = overwrite (contents le (hd obj)) (unat offset) (stored_bytes A le (GetSize ty) v)" .
  moreover have "length (overwrite (contents le (hd obj)) (unat offset) (stored_bytes A le (GetSize ty) v)) = length (contents le (hd obj))"
    using arg_cong[OF contents_split[OF sp(1), of le], of length] sp(2) fits l
    by (intro length_overwrite) (simp add: it_def[symmetric])
  ultimately show ?thesis using o by simp
qed

text \<open>The value a load of the stored type gives back.\<close>

fun reloaded :: "'i apint_ops \<Rightarrow> ty \<Rightarrow> 'i stored \<Rightarrow> 'd loaded" where
  "reloaded A ty (StoreConstInt i) = LoadedInt (signed_take_bit (GetSize ty * 8 - 1) (ap_getSExtValue A i))"
| "reloaded A ty (StoredExpr e) = load_expr e"
| "reloaded A ty (StoreGlobal g) = LoadedSymbol g"
| "reloaded A ty _ = LoadedInt 0"

lemma scast_ucast_signed:
  assumes "LENGTH('l::len) < 64"
  shows "scast (ucast (v :: 64 word) :: 'l word) = (signed_take_bit (LENGTH('l) - 1) v :: 64 word)"
proof (rule bit_word_eqI)
  fix i assume "i < LENGTH(64)"
  then show "bit (scast (ucast v :: 'l word) :: 64 word) i = bit (signed_take_bit (LENGTH('l) - 1) v) i"
    using assms by (cases "i < LENGTH('l) - 1")
      (auto simp: bit_signed_take_bit_iff bit_signed_iff bit_unsigned_iff min_def simp del: signed_ucast_eq)
qed

text \<open>The stored item among those that take the place of the old one.\<close>

definition holds_item :: "bool \<Rightarrow> 'd item list \<Rightarrow> 32 word \<Rightarrow> nat \<Rightarrow> 'd loaded \<Rightarrow> bool" where
  "holds_item le new off sz l \<longleftrightarrow> (\<exists>pre i post. new = pre @ i # post \<and> length (contents le pre) = unat off \<and>
     item_bytes le i \<noteq> [] \<and> LoadInt i 0 sz = Some l)"

lemma holds_itemI: "item_bytes le i \<noteq> [] \<Longrightarrow> LoadInt i 0 sz = Some l \<Longrightarrow> holds_item le [i] 0 sz l"
  unfolding holds_item_def by (rule exI[of _ "[]"]) auto

lemma split_space_shape:
  assumes "split_space n off ty (returns i) = returns new" "item_bytes le i \<noteq> []" "LoadInt i 0 sz = Some l"
  shows "holds_item le new off sz l"
proof -
  define after where "after = uint n - uint off - int (GetSize ty)"
  have "new = (if 0 < uint off then [ItemSpace off] else []) @ i # (if 0 < after then [ItemSpace (word_of_int after)] else [])"
    using assms(1) unfolding split_space_def Let_def after_def[symmetric]
    by (cases "after < 0") (simp_all only: if_True if_False sum.case sum.inject sum.distinct append.simps word_of_int_uint)
  then show ?thesis
    unfolding holds_item_def by (intro exI conjI) (assumption, simp_all only: space_contents length_replicate assms(2,3) not_False_eq_True)
qed

lemma int_bytes_nonempty: "0 < n \<Longrightarrow> int_bytes le n v \<noteq> []" "0 < n \<Longrightarrow> expr_bytes n e \<noteq> []"
  by (simp_all flip: length_greater_0_conv)

lemma map_sum_Some: "map_sum id Some r = returns (Some x) \<longleftrightarrow> r = returns x"
  by (cases r) simp_all

lemma signed_take_bit_all: "signed_take_bit 63 v = v" for v :: "64 word"
  by (rule bit_word_eqI) (auto simp: bit_signed_take_bit_iff min_def dest: le_antisym)

lemma StoreInt_shape:
  assumes "StoreInt it off ty v = returns (Some new)" "off = 0 \<or> (\<exists>n. it = ItemSpace n)"
    and "unat off < length (item_bytes le it)"
  shows "holds_item le new off (GetSize ty) (LoadedInt (signed_take_bit (GetSize ty * 8 - 1) v))"
proof (cases it)
  case (ItemSpace n)
  then show ?thesis
    using assms(1) by (cases ty)
      (auto simp: StoreInt_def map_sum_Some split_space_def[of _ _ _ "Inl _"] Let_def LoadInt_def int_bytes_nonempty
        scast_ucast_signed signed_take_bit_all simp del: signed_ucast_eq split: if_splits elim!: split_space_shape)
next
  case (ItemString s)
  then have "ty = I8" "new = [ItemString (s[0 := ucast v])]" "s \<noteq> []"
    using assms by (auto simp: StoreInt_def split: if_splits)
  then show ?thesis using assms(2) ItemString scast_ucast_signed[of v, where 'l = 8]
    by (auto simp: LoadInt_def list_update_nonempty intro!: holds_itemI simp del: signed_ucast_eq)
qed (use assms in \<open>auto simp: StoreInt_def LoadInt_def int_bytes_nonempty scast_ucast_signed signed_take_bit_all
    intro!: holds_itemI simp del: signed_ucast_eq split: if_splits\<close>)

lemma StoreExpr_shape:
  assumes "StoreExpr it off e ty = returns (Some new)" "off = 0 \<and> GetSize ty = 8 \<or> (\<exists>n. it = ItemSpace n)"
  shows "holds_item le new off (GetSize ty) (load_expr e)"
proof (cases it)
  case (ItemSpace n)
  then show ?thesis
    using assms(1) by (cases ty)
      (auto simp: StoreExpr_def map_sum_Some split_space_def[of _ _ _ "Inl _"] Let_def LoadInt_def int_bytes_nonempty
        split: if_splits elim!: split_space_shape)
qed (use assms in \<open>auto simp: StoreExpr_def LoadInt_def int_bytes_nonempty intro!: holds_itemI split: if_splits\<close>)

lemma store_then_load_aux:
  fixes obj :: "'d atoms"
  assumes store: "ObjectStore A obj offset v ty = returns (True, obj')"
    and ty: "IsIntegerType ty" and sz: "length (contents le (hd obj)) < 2 ^ 32"
    and whole: "\<And>k off. GetItem obj offset = returns (Some (k, off)) \<Longrightarrow>
      integral_store v (hd obj ! k) off ty \<and> (off = 0 \<or> (\<exists>n. hd obj ! k = ItemSpace n))"
  shows "ObjectLoad obj' offset ty = returns (Some (reloaded A ty v))"
proof -
  obtain k off new where g: "GetItem obj offset = returns (Some (k, off))"
      and n: "(case v of
            StoreInst \<Rightarrow> unreachable
          | StoreGlobal g \<Rightarrow> StoreExpr (hd obj ! k) (ucast off) (SymbolOffset g 0) ty
          | StoredExpr e \<Rightarrow> StoreExpr (hd obj ! k) (ucast off) e ty
          | StoreConstInt i \<Rightarrow> StoreInt (hd obj ! k) (ucast off) ty (ap_getSExtValue A i)
          | StoreConstFloat \<Rightarrow> unreachable) = returns (Some new)"
      and o: "obj' = put_item (hd obj) k new # tl obj"
    using store by (auto simp: ObjectStore_def Let_def split: sum.splits option.splits)
  define it where "it = hd obj ! k"
  have sp: "k < length (hd obj)" "length (contents le (take k (hd obj))) + unat (ucast off :: 32 word) = unat offset"
      "unat (ucast off :: 32 word) < length (item_bytes le it)"
    using GetItem_spec[OF g, of le] sz by (simp_all add: it_def)
  have w: "integral_store v it off ty" "off = 0 \<or> (\<exists>n. it = ItemSpace n)" using whole[OF g] by (simp_all add: it_def)
  have "holds_item le new (ucast off) (GetSize ty) (reloaded A ty v)"
  proof (cases v)
    case (StoreConstInt i)
    then show ?thesis using StoreInt_shape[of it "ucast off" ty _ new le] n w sp(3) by (auto simp: it_def[symmetric])
  next
    case (StoreGlobal g)
    then show ?thesis using StoreExpr_shape[of it "ucast off" "SymbolOffset g 0" ty new le] n w
      by (auto simp: it_def[symmetric] integral_store_def load_expr_def)
  next
    case (StoredExpr e)
    then show ?thesis using StoreExpr_shape[of it "ucast off" e ty new le] n w
      by (auto simp: it_def[symmetric] integral_store_def)
  qed (use n in auto)
  then obtain pre i post where new: "new = pre @ i # post" and pre: "length (contents le pre) = unat (ucast off :: 32 word)"
      and i: "item_bytes le i \<noteq> []" "LoadInt i 0 (GetSize ty) = Some (reloaded A ty v)"
    unfolding holds_item_def by blast
  have put: "hd obj' = (take k (hd obj) @ pre) @ i # (post @ drop (Suc k) (hd obj))"
    by (simp add: o put_item_def new)
  have "length (contents le (hd obj')) = length (contents le (hd obj))"
    using store_aux[OF store sz] whole by blast
  then have "find_item (hd obj') 0 offset = Some (length (take k (hd obj) @ pre), 0)"
    unfolding put using i(1) sz sp(2) pre by (intro find_item_here[where le = le]) (simp_all add: put)
  then have "GetItem obj' offset = returns (Some (length (take k (hd obj) @ pre), 0))"
    by (simp add: GetItem_def o)
  moreover have "hd obj' ! length (take k (hd obj) @ pre) = i" unfolding put by (rule nth_append_length)
  ultimately show ?thesis using ty i(2) by (simp add: ObjectLoad_def)
qed

subsection \<open>Properties\<close>


lemma sample_store:
  "ObjectStore bv_ops [[ItemInt32 7, ItemSpace 12 :: dbl item]] 8 (StoreConstInt (bv_of 16 0xBEEF)) I16 =
    returns (True, [[ItemInt32 7, ItemSpace 4, ItemInt16 0xBEEF, ItemSpace 6]])"
  "GetItem [[ItemInt32 7, ItemSpace 12 :: dbl item]] 8 = returns (Some (1, 4))"
  by (simp_all add: ObjectStore_def GetItem_def StoreInt_def split_space_def put_item_def bv_ops_def bv_sval_def signed_value_def)




text \<open>C32: A load that succeeds at the start of an item, or inside of space, gives the bytes of the object
  at the offset, for either byte order.\<close>

theorem load_reads_bytes:
  assumes "ObjectLoad obj offset ty = returns (Some l)" "length (contents le (hd obj)) < 2 ^ 32 - 16"
    and "\<And>k off. GetItem obj offset = returns (Some (k, off)) \<Longrightarrow> off = 0 \<or> (\<exists>n. hd obj ! k = ItemSpace n)"
  shows "take (GetSize ty) (drop (unat offset) (contents le (hd obj))) = loaded_bytes le (GetSize ty) l"
  by (rule load_aux[OF assms])

theorem load_reads_bytes_witness:
  "take 2 (drop 4 (contents False [ItemInt32 7, ItemInt16 0xBEEF :: dbl item])) = int_bytes False 2 0xFFFFFFFFFFFFBEEF"
  using load_reads_bytes[of "[[ItemInt32 7, ItemInt16 0xBEEF :: dbl item]]" 4 I16 "LoadedInt 0xFFFFFFFFFFFFBEEF" False]
  by (simp add: ObjectLoad_def GetItem_def LoadInt_def)

text \<open>A 32-bit store of an address over a 32-bit item makes the object four bytes longer: the item is
  replaced by a 64-bit one, and everything behind it moves.\<close>

theorem store_expr32_grows:
  assumes "it = ItemInt32 w \<or> it = ItemExpr32 e'" "GetItem obj offset = returns (Some (k, off))" "hd obj ! k = it"
  shows "ObjectStore A obj offset (StoredExpr e) I32 = returns (True, put_item (hd obj) k [ItemExpr64 e] # tl obj) \<and>
    length (item_bytes le (ItemExpr64 e)) = length (item_bytes le it) + 4"
  using assms by (auto simp: ObjectStore_def StoreExpr_def)

definition sample_expr :: expr where
  "sample_expr = SymbolOffset \<lparr>g_id = 1, g_kind = G_ATOM, g_visibility = Vis_LOCAL, g_align = None\<rparr> 8"

theorem store_expr32_grows_witness:
  "ObjectStore bv_ops [[ItemInt32 7, ItemInt32 9 :: dbl item]] 0 (StoredExpr sample_expr) I32 =
    returns (True, [[ItemExpr64 sample_expr, ItemInt32 9]])"
  using store_expr32_grows[of "ItemInt32 7" 7 sample_expr "[[ItemInt32 7, ItemInt32 9 :: dbl item]]" 0 0 0 bv_ops
      sample_expr True]
  by (simp add: GetItem_def put_item_def)

end
