(* ===== verification/SccpProg.thy ===== *)
theory SccpProg
  imports SccpEval Items
begin

text \<open>
  The part of a program the solver of sparse conditional constant propagation reads
  (\<^verbatim>\<open>passes/sccp/solver.cpp\<close>, \<^verbatim>\<open>passes/sccp/load.cpp\<close>): instructions with their operands and types, the
  blocks of the functions, the uses of the registers, and the contents of the data atoms. Functions,
  blocks and instructions are numbered, a number standing for the address of the object; a function has
  the number of its symbol. A register is a sub-value of an instruction, \<^verbatim>\<open>Ref<Inst>\<close>.
\<close>

type_synonym reg = "nat \<times> nat"

subsection \<open>Instructions\<close>

datatype ('i, 'f) mov_arg = MovInst reg | MovGlobal global | MovExpr expr | MovConstInt 'i | MovConstFloat 'f

text \<open>
  The classes \<^verbatim>\<open>InstVisitor\<close> dispatches on; \<open>S_OTHER\<close> stands for every class the solver has no visitor of
  its own for, given by the types of its results and its operands. The successors of a conditional
  jump are the true and the false target, those of an invoke the continuation and the landing pad.
\<close>

datatype ('i, 'f) sinst =
    S_ARG nat ty
  | S_CALL reg "reg list" "ty list" nat
  | S_TAIL_CALL reg "reg list" "ty list" calling_conv
  | S_INVOKE reg "reg list" "ty list" nat nat
  | S_FRAME_CALL reg "reg list" "ty list" reg nat
  | S_RETURN "reg list"
  | S_LOAD ty reg
  | S_STORE reg reg
  | S_UNARY unary_op ty reg
  | S_BINARY binary_op ty reg reg
  | S_CMP cond ty reg reg
  | S_JUMP nat
  | S_JUMP_COND reg nat nat
  | S_SWITCH reg "nat list"
  | S_SELECT ty reg reg reg
  | S_FRAME ty nat "64 word"
  | S_MOV ty "('i, 'f) mov_arg"
  | S_UNDEF ty
  | S_PHI ty "(nat \<times> reg) list"
  | S_CPUID "ty list" reg "reg option"
  | S_OTHER "ty list" "reg list"

text \<open>The types of the sub-values; a tail call has types but no sub-values.\<close>

fun ret_types :: "('i, 'f) sinst \<Rightarrow> ty list" where
  "ret_types (S_ARG idx t) = [t]"
| "ret_types (S_CALL callee args ts cont) = ts"
| "ret_types (S_INVOKE callee args ts cont throw) = ts"
| "ret_types (S_FRAME_CALL callee args ts frame cont) = ts"
| "ret_types (S_LOAD t addr) = [t]"
| "ret_types (S_UNARY k t arg) = [t]"
| "ret_types (S_BINARY k t lhs rhs) = [t]"
| "ret_types (S_CMP cc t lhs rhs) = [t]"
| "ret_types (S_SELECT t c a b) = [t]"
| "ret_types (S_FRAME t obj off) = [t]"
| "ret_types (S_MOV t arg) = [t]"
| "ret_types (S_UNDEF t) = [t]"
| "ret_types (S_PHI t ins) = [t]"
| "ret_types (S_CPUID ts leaf subleaf) = ts"
| "ret_types (S_OTHER ts ops) = ts"
| "ret_types _ = []"

definition GetNumRets :: "('i, 'f) sinst \<Rightarrow> nat" where
  "GetNumRets i = length (ret_types i)"

text \<open>The arguments and the types of a call site.\<close>

fun call_args :: "('i, 'f) sinst \<Rightarrow> reg list" where
  "call_args (S_CALL callee args ts cont) = args"
| "call_args (S_TAIL_CALL callee args ts conv) = args"
| "call_args (S_INVOKE callee args ts cont throw) = args"
| "call_args (S_FRAME_CALL callee args ts frame cont) = args"
| "call_args _ = []"

fun call_types :: "('i, 'f) sinst \<Rightarrow> ty list" where
  "call_types (S_CALL callee args ts cont) = ts"
| "call_types (S_TAIL_CALL callee args ts conv) = ts"
| "call_types (S_INVOKE callee args ts cont throw) = ts"
| "call_types (S_FRAME_CALL callee args ts frame cont) = ts"
| "call_types _ = []"

fun operands :: "('i, 'f) sinst \<Rightarrow> reg list" where
  "operands (S_ARG idx t) = []"
| "operands (S_CALL callee args ts cont) = callee # args"
| "operands (S_TAIL_CALL callee args ts conv) = callee # args"
| "operands (S_INVOKE callee args ts cont throw) = callee # args"
| "operands (S_FRAME_CALL callee args ts frame cont) = callee # args @ [frame]"
| "operands (S_RETURN args) = args"
| "operands (S_LOAD t addr) = [addr]"
| "operands (S_STORE addr val) = [addr, val]"
| "operands (S_UNARY k t arg) = [arg]"
| "operands (S_BINARY k t lhs rhs) = [lhs, rhs]"
| "operands (S_CMP cc t lhs rhs) = [lhs, rhs]"
| "operands (S_JUMP b) = []"
| "operands (S_JUMP_COND c t f) = [c]"
| "operands (S_SWITCH idx bs) = [idx]"
| "operands (S_SELECT t c a b) = [c, a, b]"
| "operands (S_FRAME t obj off) = []"
| "operands (S_MOV t arg) = (case arg of MovInst r \<Rightarrow> [r] | _ \<Rightarrow> [])"
| "operands (S_UNDEF t) = []"
| "operands (S_PHI t ins) = map snd ins"
| "operands (S_CPUID ts leaf subleaf) = leaf # (case subleaf of None \<Rightarrow> [] | Some r \<Rightarrow> [r])"
| "operands (S_OTHER ts ops) = ops"

fun is_phi :: "('i, 'f) sinst \<Rightarrow> bool" where
  "is_phi (S_PHI t ins) = True"
| "is_phi _ = False"

subsection \<open>Programs\<close>

record ('i, 'f) sprog =
  p_funcs :: "global list"
  p_address_taken :: "nat \<Rightarrow> bool"
  p_blocks :: "nat \<Rightarrow> nat list"
  p_insts :: "nat \<Rightarrow> nat list"
  p_inst :: "nat \<Rightarrow> ('i, 'f) sinst"
  p_block :: "nat \<Rightarrow> nat"
  p_func :: "nat \<Rightarrow> nat"
  p_uses :: "(reg \<times> nat list) list"
  p_align :: "nat \<Rightarrow> nat"
  p_items :: "nat \<Rightarrow> dbl item list"
  p_object :: "nat \<Rightarrow> global list"
  p_const_data :: "nat \<Rightarrow> bool"
  p_name :: "nat \<Rightarrow> string"
  p_atom_users :: "nat \<Rightarrow> nat option list"
  p_x86 :: "nat \<Rightarrow> (bool \<times> bool) option"

definition reg_type :: "('i, 'f) sprog \<Rightarrow> reg \<Rightarrow> ty" where
  "reg_type p r = ret_types (p_inst p (fst r)) ! snd r"

text \<open>The instructions that use a register, once for each use, in the order of its use list.\<close>

definition reg_users :: "('i, 'f) sprog \<Rightarrow> reg \<Rightarrow> nat list" where
  "reg_users p r = (case map_of (p_uses p) r of None \<Rightarrow> [] | Some is \<Rightarrow> is)"

text \<open>The users of any sub-value of an instruction.\<close>

definition inst_users :: "('i, 'f) sprog \<Rightarrow> nat \<Rightarrow> nat list" where
  "inst_users p i = concat (map snd (filter (\<lambda>(r, _). fst r = i) (p_uses p)))"

definition inst_func :: "('i, 'f) sprog \<Rightarrow> nat \<Rightarrow> nat" where
  "inst_func p i = p_func p (p_block p i)"

definition block_phis :: "('i, 'f) sprog \<Rightarrow> nat \<Rightarrow> nat list" where
  "block_phis p b = takeWhile (\<lambda>i. is_phi (p_inst p i)) (p_insts p b)"

text \<open>
  A program is well formed when the blocks list their own instructions, the PHIs stand in front, and the
  use lists name every instruction at each of its operands.
\<close>

definition prog_ok :: "('i, 'f) sprog \<Rightarrow> bool" where
  "prog_ok p \<longleftrightarrow>
     (\<forall>b. \<forall>i \<in> set (p_insts p b). p_block p i = b) \<and>
     (\<forall>b. \<forall>i \<in> set (p_insts p b). is_phi (p_inst p i) \<longrightarrow> i \<in> set (block_phis p b)) \<and>
     (\<forall>b. \<forall>i \<in> set (p_insts p b). \<forall>r \<in> set (operands (p_inst p i)). i \<in> set (reg_users p r))"

lemma prog_okD:
  assumes "prog_ok p" "i \<in> set (p_insts p b)"
  shows "p_block p i = b" "is_phi (p_inst p i) \<Longrightarrow> i \<in> set (block_phis p b)"
    "r \<in> set (operands (p_inst p i)) \<Longrightarrow> i \<in> set (reg_users p r)"
  using assms unfolding prog_ok_def by blast+

lemma block_phis_subset: "i \<in> set (block_phis p b) \<Longrightarrow> i \<in> set (p_insts p b) \<and> is_phi (p_inst p i)"
  unfolding block_phis_def by (auto dest: set_takeWhileD)

end
