(* ===== verification/SccpLoad.thy ===== *)
theory SccpLoad
  imports SccpProg
begin

text \<open>
  Loads from constant data (\<^verbatim>\<open>passes/sccp/load.cpp\<close>): what the contents of an atom give at a width, which
  atoms count as constant, and the handler of a load up to the value it marks. The constructors of an
  \<^verbatim>\<open>APFloat\<close> from the bits of a C++ \<^verbatim>\<open>double\<close> or \<^verbatim>\<open>float\<close> and from an \<^verbatim>\<open>APInt\<close>, and its conversion with
  the flag for lost digits, are parameters.
\<close>

record ('i, 'f) float_ctors =
  fc_double :: "64 word \<Rightarrow> 'f"
  fc_single :: "32 word \<Rightarrow> 'f"
  fc_of_int :: "'i \<Rightarrow> 'f"
  fc_convert :: "flt_semantics \<Rightarrow> 'f \<Rightarrow> 'f \<times> bool"

subsection \<open>Folding a load from an item\<close>

definition load_symbol :: "expr \<Rightarrow> ('i, 'f) lattice" where
  "load_symbol e = (case e of SymbolOffset g off \<Rightarrow> LGlobal g off)"

definition LoadIntItem :: "'i apint_ops \<Rightarrow> dbl item \<Rightarrow> 32 word \<Rightarrow> nat \<Rightarrow> ('i, 'f) lattice" where
  "LoadIntItem A it off sz =
     (case it of
        ItemInt8 v \<Rightarrow> if sz = 1 then LInt (ap_make A 8 (scast v) True) else LOverdefined
      | ItemInt16 v \<Rightarrow> if sz = 2 then LInt (ap_make A 16 (scast v) True) else LOverdefined
      | ItemInt32 v \<Rightarrow> if sz = 4 then LInt (ap_make A 32 (scast v) True) else LOverdefined
      | ItemInt64 v \<Rightarrow> if sz = 8 then LInt (ap_make A 64 v True) else LOverdefined
      | ItemString s \<Rightarrow> if sz = 1 then LInt (ap_make A 8 (scast (s ! unat off)) True) else LOverdefined
      | ItemSpace n \<Rightarrow> if off + word_of_nat sz \<le> n then LInt (ap_make A (sz * 8) 0 True) else LOverdefined
      | ItemFloat64 _ \<Rightarrow> LOverdefined
      | ItemExpr32 e \<Rightarrow> if word_of_nat sz = item_size it then load_symbol e else LOverdefined
      | ItemExpr64 e \<Rightarrow> if word_of_nat sz = item_size it then load_symbol e else LOverdefined)"

definition LoadFloatItem :: "('i, 'f) float_ctors \<Rightarrow> dbl item \<Rightarrow> nat \<Rightarrow> ('i, 'f) lattice" where
  "LoadFloatItem C it sz =
     (case it of
        ItemFloat64 d \<Rightarrow> if sz = 8 then LFloat (fc_double C d) else LOverdefined
      | ItemInt64 v \<Rightarrow> if sz = 8 then LFloat (fc_double C v) else LOverdefined
      | ItemInt32 v \<Rightarrow> if sz = 4 then LFloat (fc_single C v) else LOverdefined
      | _ \<Rightarrow> LOverdefined)"

subsection \<open>Constant atoms\<close>

text \<open>
  The uses of the address are followed through moves, additions, subtractions and PHIs: the loop over
  the queue \<open>qi\<close> with the set of visited instructions.
\<close>

definition used_insts :: "('i, 'f) sprog \<Rightarrow> nat set" where
  "used_insts p = (fst \<circ> fst) ` set (p_uses p)"

lemma inst_users_none: "i \<notin> used_insts p \<Longrightarrow> inst_users p i = []"
  by (force simp: inst_users_def used_insts_def filter_empty_conv)

lemma finite_used_insts [simp]: "finite (used_insts p)"
  by (simp add: used_insts_def)

lemma visited_measure:
  fixes U :: "nat set"
  assumes "finite U" "i \<notin> visited" "i \<in> U"
  shows "card (U - insert i visited) < card (U - visited)"
  using assms by (intro psubset_card_mono) auto

lemma visited_step:
  assumes "i \<notin> visited"
  shows "card (used_insts p - insert i visited) < card (used_insts p - visited) \<or>
    card (used_insts p - insert i visited) = card (used_insts p - visited) \<and> inst_users p i = []"
proof (cases "i \<in> used_insts p")
  case True
  then show ?thesis using visited_measure[OF finite_used_insts assms] by blast
next
  case False
  then have "used_insts p - insert i visited = used_insts p - visited" by blast
  then show ?thesis using inst_users_none[OF False] by simp
qed

function only_loads :: "('i, 'f) sprog \<Rightarrow> nat list \<Rightarrow> nat set \<Rightarrow> bool" where
  "only_loads p [] visited = True"
| "only_loads p (i # qi) visited =
     (if i \<in> visited then only_loads p qi visited
      else case p_inst p i of
             S_LOAD _ _ \<Rightarrow> only_loads p qi (insert i visited)
           | S_MOV _ _ \<Rightarrow> only_loads p (qi @ inst_users p i) (insert i visited)
           | S_BINARY k _ _ _ \<Rightarrow>
               if k = B_ADD \<or> k = B_SUB then only_loads p (qi @ inst_users p i) (insert i visited) else False
           | S_PHI _ _ \<Rightarrow> only_loads p (qi @ inst_users p i) (insert i visited)
           | _ \<Rightarrow> False)"
  by pat_completeness auto

termination
  by (relation "measures [\<lambda>(p, qi, visited). card (used_insts p - visited), \<lambda>(p, qi, visited). length qi]")
    (use visited_step in \<open>fastforce\<close>)+

definition IsConstantAtom :: "('i, 'f) sprog \<Rightarrow> global \<Rightarrow> bool" where
  "IsConstantAtom p g =
     (p_const_data p (g_id g) \<or>
      (\<forall>a \<in> set (p_object p (g_id g)). IsLocal a \<and> p_name p (g_id a) \<noteq> ''caml_globals'' \<and>
         None \<notin> set (p_atom_users p (g_id a))) \<and>
      only_loads p (concat (map (\<lambda>a. map the (p_atom_users p (g_id a))) (p_object p (g_id g)))) {})"

subsection \<open>The handler of a load\<close>

definition load_at :: "'i apint_ops \<Rightarrow> ('i, 'f) float_ctors \<Rightarrow> ty \<Rightarrow> dbl item \<Rightarrow> 32 word \<Rightarrow> ('i, 'f) lattice" where
  "load_at A C ty it off =
     (case ty of
        I8 \<Rightarrow> LoadIntItem A it off 1
      | I16 \<Rightarrow> LoadIntItem A it off 2
      | I32 \<Rightarrow> LoadIntItem A it off 4
      | I64 \<Rightarrow> LoadIntItem A it off 8
      | V64 \<Rightarrow> LoadIntItem A it off 8
      | F32 \<Rightarrow> LoadFloatItem C it 4
      | F64 \<Rightarrow> LoadFloatItem C it 8
      | _ \<Rightarrow> LOverdefined)"

definition VisitLoadInst :: "'i apint_ops \<Rightarrow> ('i, 'f) float_ctors \<Rightarrow> ('i, 'f) sprog \<Rightarrow> ty \<Rightarrow>
    ('i, 'f) lattice \<Rightarrow> ('i, 'f) lattice result" where
  "VisitLoadInst A C p ty addr =
     (case addr of
        LUnknown \<Rightarrow> returns addr
      | LOverdefined \<Rightarrow> returns addr
      | LUndefined \<Rightarrow> returns addr
      | LInt _ \<Rightarrow> returns LUndefined
      | LRange g \<Rightarrow>
          (case g_kind g of
             G_EXTERN \<Rightarrow> returns LOverdefined
           | G_FUNC \<Rightarrow> unreachable
           | G_BLOCK \<Rightarrow> unreachable
           | G_ATOM \<Rightarrow>
               if \<not> p_const_data p (g_id g) then returns LOverdefined
               else if length (p_object p (g_id g)) \<noteq> 1 \<or> length (p_items p (g_id g)) \<noteq> 1 then returns LOverdefined
               else (case hd (p_items p (g_id g)) of
                       ItemSpace _ \<Rightarrow> returns (LInt (ap_make A (GetBitWidth ty) 0 True))
                     | _ \<Rightarrow> returns LOverdefined))
      | LGlobal g base \<Rightarrow>
          (case g_kind g of
             G_EXTERN \<Rightarrow> returns LOverdefined
           | G_FUNC \<Rightarrow> unreachable
           | G_BLOCK \<Rightarrow> unreachable
           | G_ATOM \<Rightarrow>
               if \<not> IsConstantAtom p g then returns LOverdefined
               else if sint base < 0 then returns LOverdefined
               else (case find_item (p_items p (g_id g)) 0 base of
                       None \<Rightarrow> returns LOverdefined
                     | Some (k, off) \<Rightarrow> returns (load_at A C ty (p_items p (g_id g) ! k) (ucast off))))
      | _ \<Rightarrow> returns LOverdefined)"

end
