(* ===== verification/OrdMap.thy ===== *)
theory OrdMap
  imports Prelude
begin

text \<open>
  \<^verbatim>\<open>std::map\<close> as a list of pairs in ascending order of the keys, which is the order its iterators
  run through: writing through \<^verbatim>\<open>operator[]\<close> is \<open>om_set\<close>, \<^verbatim>\<open>erase\<close> is \<open>om_del\<close> and \<^verbatim>\<open>find\<close> is
  \<open>map_of\<close>. The locale \<open>ordered_map\<close> is the contract the containers rely on.
\<close>

fun om_set :: "'k::linorder \<Rightarrow> 'v \<Rightarrow> ('k \<times> 'v) list \<Rightarrow> ('k \<times> 'v) list" where
  "om_set k v [] = [(k, v)]"
| "om_set k v ((k', v') # m) =
     (if k < k' then (k, v) # (k', v') # m
      else if k = k' then (k, v) # m
      else (k', v') # om_set k v m)"

fun om_del :: "'k::linorder \<Rightarrow> ('k \<times> 'v) list \<Rightarrow> ('k \<times> 'v) list" where
  "om_del k [] = []"
| "om_del k ((k', v') # m) = (if k = k' then m else (k', v') # om_del k m)"

definition om_ok :: "('k::linorder \<times> 'v) list \<Rightarrow> bool" where
  "om_ok m = sorted_wrt (<) (map fst m)"

lemma om_ok_simps [simp]:
  "om_ok []"
  "om_ok ((k, v) # m) \<longleftrightarrow> (\<forall>k' v'. (k', v') \<in> set m \<longrightarrow> k < k') \<and> om_ok m"
  by (auto simp: om_ok_def)

lemma om_set_members: "(k', v') \<in> set (om_set k v m) \<Longrightarrow> (k' = k \<and> v' = v) \<or> (k', v') \<in> set m"
  by (induction m) (auto split: if_splits)

lemma om_set_ok: "om_ok m \<Longrightarrow> om_ok (om_set k v m)"
proof (induction m)
  case (Cons p m)
  then show ?case
    by (cases p) (use om_set_members[of _ _ k v m] in \<open>force simp: not_less intro: less_trans\<close>)
qed simp

lemma om_set_lookup: "map_of (om_set k v m) = (map_of m)(k \<mapsto> v)"
  by (induction m) auto

lemma om_del_members: "(k', v') \<in> set (om_del k m) \<Longrightarrow> (k', v') \<in> set m"
  by (induction m) (auto split: if_splits)

lemma om_del_ok: "om_ok m \<Longrightarrow> om_ok (om_del k m)"
proof (induction m)
  case (Cons p m)
  then show ?case by (cases p) (use om_del_members[of _ _ k m] in force)
qed simp

lemma om_not_member: "(\<And>k' v'. (k', v') \<in> set m \<Longrightarrow> k' \<noteq> k) \<Longrightarrow> map_of m k = None"
  by (force simp: map_of_eq_None_iff)

lemma om_del_lookup: "om_ok m \<Longrightarrow> map_of (om_del k m) = (map_of m)(k := None)"
  by (induction m) (fastforce intro: om_not_member)+

lemma om_ok_distinct: "om_ok m \<Longrightarrow> distinct (map fst m)"
  by (simp add: om_ok_def strict_sorted_iff)

lemma om_lookup_iff: "om_ok m \<Longrightarrow> map_of m k = Some v \<longleftrightarrow> (k, v) \<in> set m"
  by (simp add: om_ok_distinct map_of_eq_Some_iff)

text \<open>Two maps in order with the same entries are the same list.\<close>

lemma om_eqI:
  assumes "om_ok m" "om_ok m'" "map_of m = map_of m'"
  shows "m = m'"
proof -
  have "set m = set m'"
    using om_lookup_iff[OF assms(1)] om_lookup_iff[OF assms(2)] assms(3) by auto
  moreover have "sorted (map fst m)" "sorted (map fst m')"
    using assms by (auto simp: om_ok_def strict_sorted_iff)
  moreover have "inj_on fst (set m)" "distinct m" "distinct m'"
    using om_ok_distinct[OF assms(1)] om_ok_distinct[OF assms(2)]
    by (auto simp: distinct_map)
  ultimately show ?thesis
    using om_ok_distinct[OF assms(1)] om_ok_distinct[OF assms(2)]
    by (intro map_sorted_distinct_set_unique[of fst m m']) auto
qed

subsection \<open>The contract of an ordered map\<close>

locale ordered_map =
  fixes lookup :: "'m \<Rightarrow> 'k::linorder \<Rightarrow> 'v option"
    and update :: "'k \<Rightarrow> 'v \<Rightarrow> 'm \<Rightarrow> 'm"
    and erase :: "'k \<Rightarrow> 'm \<Rightarrow> 'm"
    and valid :: "'m \<Rightarrow> bool"
  assumes update_lookup: "valid m \<Longrightarrow> lookup (update k v m) = (lookup m)(k \<mapsto> v)"
    and update_valid: "valid m \<Longrightarrow> valid (update k v m)"
    and erase_lookup: "valid m \<Longrightarrow> lookup (erase k m) = (lookup m)(k := None)"
    and erase_valid: "valid m \<Longrightarrow> valid (erase k m)"
    and extensional: "valid m \<Longrightarrow> valid m' \<Longrightarrow> lookup m = lookup m' \<Longrightarrow> m = m'"
begin

lemma update_absorbs: "valid m \<Longrightarrow> update k v (update k v' m) = update k v m"
  by (rule extensional) (simp_all add: update_valid update_lookup)

lemma erase_update: "valid m \<Longrightarrow> lookup m k = None \<Longrightarrow> erase k (update k v m) = m"
  by (rule extensional) (simp_all add: update_valid erase_valid update_lookup erase_lookup fun_upd_idem)

lemma update_same: "valid m \<Longrightarrow> lookup m k = Some v \<Longrightarrow> update k v m = m"
  by (rule extensional) (simp_all add: update_valid update_lookup fun_upd_idem)

end

interpretation om: ordered_map map_of om_set om_del om_ok
  by unfold_locales (auto simp: om_set_lookup om_set_ok om_del_lookup om_del_ok om_eqI)

end
