(* ===== verification/SccpSolver.thy ===== *)
theory SccpSolver
  imports SccpLoad SccpCompare OrdMap "HOL-Library.Product_Lexorder" "HOL-Library.Option_ord"
begin

text \<open>
  The solver of sparse conditional constant propagation (\<^verbatim>\<open>passes/sccp/solver.cpp\<close>,
  \<^verbatim>\<open>passes/sccp/x86.cpp\<close>): its state, the operations that mark values, edges and blocks, one visitor for
  each class of instructions, the propagation through call sites, tail calls and returns, and the three
  worklists. An operation that fails an assertion or reaches \<^verbatim>\<open>llvm_unreachable\<close> has no state. Sets
  ordered by the addresses of their elements are sorted lists.
\<close>

subsection \<open>State\<close>

type_synonym ('i, 'f) result_map = "(nat \<times> ty \<times> ('i, 'f) lattice) list"

text \<open>A call site with its continuation, \<open>None\<close> for the null pointer of a tail call.\<close>

type_synonym call_edge = "nat \<times> nat option"

record ('i, 'f) sccp_state =
  bottomList :: "nat list"
  blockList :: "nat list"
  instList :: "nat list"
  vals :: "reg \<Rightarrow> ('i, 'f) lattice"
  edges :: "(nat \<times> nat) set"
  executable :: "nat set"
  calls :: "(nat \<times> call_edge list) list"
  rets :: "nat \<Rightarrow> ('i, 'f) result_map option"

definition initial_state :: "('i, 'f) sccp_state" where
  "initial_state = \<lparr>bottomList = [], blockList = [], instList = [], vals = \<lambda>_. LUnknown, edges = {},
     executable = {}, calls = [], rets = \<lambda>_. None\<rparr>"

text \<open>Statements in sequence, over the elements of a container.\<close>

definition andThen :: "'a result \<Rightarrow> ('a \<Rightarrow> 'b result) \<Rightarrow> 'b result" where
  "andThen r f = (case r of Inl e \<Rightarrow> Inl e | Inr x \<Rightarrow> f x)"

lemma andThen_simps [simp]: "andThen (Inl e) f = Inl e" "andThen (Inr x) f = f x"
  by (simp_all add: andThen_def)

lemma andThen_returns: "andThen r f = returns y \<longleftrightarrow> (\<exists>x. r = returns x \<and> f x = returns y)"
  by (cases r) simp_all

lemma andThen_cong [fundef_cong]: "r = r' \<Longrightarrow> (\<And>x. r' = Inr x \<Longrightarrow> f x = f' x) \<Longrightarrow> andThen r f = andThen r' f'"
  by (cases r') simp_all

fun each :: "('a \<Rightarrow> 's \<Rightarrow> 's result) \<Rightarrow> 'a list \<Rightarrow> 's \<Rightarrow> 's result" where
  "each f [] s = returns s"
| "each f (x # xs) s = andThen (f x s) (each f xs)"

definition set_insert :: "'a::linorder \<Rightarrow> 'a list \<Rightarrow> 'a list" where
  "set_insert x xs = (if x \<in> set xs then xs else insort x xs)"

definition calls_of :: "('i, 'f) sccp_state \<Rightarrow> nat \<Rightarrow> call_edge list" where
  "calls_of s f = (case map_of (calls s) f of None \<Rightarrow> [] | Some cs \<Rightarrow> cs)"

subsection \<open>Marking values, blocks and edges\<close>

definition Mark :: "'i apint_ops \<Rightarrow> ('i, 'f) apfloat_ops \<Rightarrow> ('i, 'f) sprog \<Rightarrow> reg \<Rightarrow> ('i, 'f) lattice \<Rightarrow>
    ('i, 'f) sccp_state \<Rightarrow> ('i, 'f) sccp_state result" where
  "Mark A F p r newValue s =
     (let oldValue = vals s r in
      if lattice_eq A F oldValue newValue then returns s
      else if IsOverdefined oldValue \<and> \<not> IsOverdefined newValue then Inl AssertFailed
      else
        (let queued = filter (\<lambda>i. p_block p i \<in> executable s) (reg_users p r);
             s' = s\<lparr>vals := (vals s)(r := newValue)\<rparr>
         in returns (if IsOverdefined newValue then s'\<lparr>bottomList := bottomList s @ queued\<rparr>
                     else s'\<lparr>instList := instList s @ queued\<rparr>)))"

definition MarkOverdefined :: "'i apint_ops \<Rightarrow> ('i, 'f) apfloat_ops \<Rightarrow> ('i, 'f) sprog \<Rightarrow> nat \<Rightarrow>
    ('i, 'f) sccp_state \<Rightarrow> ('i, 'f) sccp_state result" where
  "MarkOverdefined A F p i s = each (\<lambda>k. Mark A F p (i, k) LOverdefined) [0..<GetNumRets (p_inst p i)] s"

definition MarkBlock :: "nat \<Rightarrow> ('i, 'f) sccp_state \<Rightarrow> ('i, 'f) sccp_state \<times> bool" where
  "MarkBlock b s =
     (if b \<in> executable s then (s, False)
      else (s\<lparr>executable := insert b (executable s), blockList := blockList s @ [b]\<rparr>, True))"

definition phi_value :: "'i apint_ops \<Rightarrow> ('i, 'f) apfloat_ops \<Rightarrow> nat \<Rightarrow> (nat \<times> reg) list \<Rightarrow>
    ('i, 'f) sccp_state \<Rightarrow> ('i, 'f) lattice" where
  "phi_value A F b ins s =
     foldl (\<lambda>l (from, r). if (from, b) \<in> edges s then LUB A F l (vals s r) else l) LUnknown ins"

definition VisitPhiInst :: "'i apint_ops \<Rightarrow> ('i, 'f) apfloat_ops \<Rightarrow> ('i, 'f) sprog \<Rightarrow> nat \<Rightarrow>
    ('i, 'f) sccp_state \<Rightarrow> ('i, 'f) sccp_state result" where
  "VisitPhiInst A F p i s =
     (case p_inst p i of
        S_PHI t ins \<Rightarrow>
          if IsOverdefined (vals s (i, 0)) then returns s
          else Mark A F p (i, 0) (phi_value A F (p_block p i) ins s) s
      | _ \<Rightarrow> unreachable)"

definition MarkEdge :: "'i apint_ops \<Rightarrow> ('i, 'f) apfloat_ops \<Rightarrow> ('i, 'f) sprog \<Rightarrow> nat \<Rightarrow> nat \<Rightarrow>
    ('i, 'f) sccp_state \<Rightarrow> ('i, 'f) sccp_state result" where
  "MarkEdge A F p i to s =
     (if (p_block p i, to) \<in> edges s then returns s
      else case MarkBlock to (s\<lparr>edges := insert (p_block p i, to) (edges s)\<rparr>) of
             (s', True) \<Rightarrow> returns s'
           | (s', False) \<Rightarrow> each (VisitPhiInst A F p) (block_phis p to) s')"

subsection \<open>What the operations keep\<close>

lemma each_preserves:
  assumes "each f xs s = returns s'" "P s"
    and "\<And>x s s'. x \<in> set xs \<Longrightarrow> P s \<Longrightarrow> f x s = returns s' \<Longrightarrow> P s'"
  shows "P s'"
  using assms
proof (induction xs arbitrary: s)
  case (Cons x xs)
  then obtain s1 where "f x s = returns s1" "each f xs s1 = returns s'" by (auto simp: andThen_returns)
  then show ?case using Cons.IH[of s1] Cons.prems(2,3) by (meson list.set_intros)
qed simp

text \<open>None of them touches the call graph and the returned values.\<close>

definition same_calls :: "('i, 'f) sccp_state \<Rightarrow> ('i, 'f) sccp_state \<Rightarrow> bool" where
  "same_calls s s' \<longleftrightarrow> calls s' = calls s \<and> rets s' = rets s"

lemma same_calls_refl [simp]: "same_calls s s"
  by (simp add: same_calls_def)

lemma same_calls_trans: "same_calls s s1 \<Longrightarrow> same_calls s1 s' \<Longrightarrow> same_calls s s'"
  by (simp add: same_calls_def)

lemma Mark_calls: "Mark A F p r v s = returns s' \<Longrightarrow> same_calls s s'"
  by (auto simp: Mark_def Let_def same_calls_def split: if_splits)

lemma each_calls:
  assumes "each f xs s = returns s'" "\<And>x s s'. f x s = returns s' \<Longrightarrow> same_calls s s'"
  shows "same_calls s s'"
  by (rule each_preserves[OF assms(1), where P = "same_calls s"]) (auto intro: same_calls_trans dest: assms(2))

lemma VisitPhiInst_calls: "VisitPhiInst A F p i s = returns s' \<Longrightarrow> same_calls s s'"
  by (auto simp: VisitPhiInst_def split: sinst.splits if_splits dest: Mark_calls)

lemma MarkEdge_calls:
  assumes "MarkEdge A F p i b s = returns s'"
  shows "same_calls s s'"
proof -
  have "each (VisitPhiInst A F p) xs s1 = returns s' \<Longrightarrow> same_calls s s1 \<Longrightarrow> same_calls s s'" for xs s1
    by (rule same_calls_trans, assumption, erule each_calls, erule VisitPhiInst_calls)
  then show ?thesis using assms
    by (auto simp: MarkEdge_def MarkBlock_def same_calls_def split: if_splits)
qed

subsection \<open>Calls\<close>

definition LUBType :: "ty \<Rightarrow> ty \<Rightarrow> ty result" where
  "LUBType a b =
     (if a = b then returns a
      else if IsIntegerType a \<and> IsIntegerType b then returns (if GetBitWidth a < GetBitWidth b then b else a)
      else unreachable)"

text \<open>\<^verbatim>\<open>pv = Extend(pv, pt).LUB(Extend(v, pt))\<close>\<close>

definition join_as :: "'i apint_ops \<Rightarrow> ('i, 'f) apfloat_ops \<Rightarrow> ty \<Rightarrow> ('i, 'f) lattice \<Rightarrow> ('i, 'f) lattice \<Rightarrow>
    ('i, 'f) lattice result" where
  "join_as A F t a b = andThen (Extend A F a t) (\<lambda>a'. andThen (Extend A F b t) (\<lambda>b'. returns (LUB A F a' b')))"

definition result_map_eq :: "'i apint_ops \<Rightarrow> ('i, 'f) apfloat_ops \<Rightarrow> ('i, 'f) result_map \<Rightarrow> ('i, 'f) result_map \<Rightarrow> bool" where
  "result_map_eq A F m m' = list_all2 (\<lambda>(i, t, v) (i', t', v'). i = i' \<and> t = t' \<and> lattice_eq A F v v') m m'"

text \<open>The values a call site takes from the returned ones: the bound with what it had.\<close>

definition take_result :: "'i apint_ops \<Rightarrow> ('i, 'f) apfloat_ops \<Rightarrow> ('i, 'f) sprog \<Rightarrow> ('i, 'f) result_map \<Rightarrow> nat \<Rightarrow>
    nat \<Rightarrow> ('i, 'f) sccp_state \<Rightarrow> ('i, 'f) sccp_state result" where
  "take_result A F p rs ci k s =
     (let val = vals s (ci, k) in
      case map_of rs k of
        Some (vt, vv) \<Rightarrow> andThen (Extend A F vv (ret_types (p_inst p ci) ! k)) (\<lambda>v. Mark A F p (ci, k) (LUB A F val v) s)
      | None \<Rightarrow> Mark A F p (ci, k) val s)"

definition return_to :: "'i apint_ops \<Rightarrow> ('i, 'f) apfloat_ops \<Rightarrow> ('i, 'f) sprog \<Rightarrow> ('i, 'f) result_map \<Rightarrow> nat \<Rightarrow> nat \<Rightarrow>
    ('i, 'f) sccp_state \<Rightarrow> ('i, 'f) sccp_state result" where
  "return_to A F p rs ci cont s =
     andThen (each (take_result A F p rs ci) [0..<GetNumRets (p_inst p ci)] s) (MarkEdge A F p ci cont)"

lemma return_to_calls: "return_to A F p rs ci cont s = returns s' \<Longrightarrow> same_calls s s'"
proof -
  have "same_calls s s'" if "take_result A F p rs ci k s = returns s'" for k s s'
    using that by (auto simp: take_result_def Let_def andThen_returns split: option.splits dest: Mark_calls)
  then have "each (take_result A F p rs ci) xs s = returns s' \<Longrightarrow> same_calls s s'" for xs s s'
    using each_calls by blast
  then show "return_to A F p rs ci cont s = returns s' \<Longrightarrow> same_calls s s'"
    unfolding return_to_def andThen_returns by (blast intro: same_calls_trans MarkEdge_calls)
qed

text \<open>The results of a tail caller, extended by those of the function it jumps to.\<close>

definition merge_result :: "'i apint_ops \<Rightarrow> ('i, 'f) apfloat_ops \<Rightarrow> ty list \<Rightarrow> nat \<times> ty \<times> ('i, 'f) lattice \<Rightarrow>
    ('i, 'f) result_map \<Rightarrow> ('i, 'f) result_map result" where
  "merge_result A F ts entry rs =
     (case entry of (idx, vt, vv) \<Rightarrow>
        if idx < length ts then
          andThen (Extend A F vv (ts ! idx)) (\<lambda>v.
            case map_of rs idx of
              None \<Rightarrow> returns (om_set idx (ts ! idx, v) rs)
            | Some (pt, pv) \<Rightarrow>
                andThen (LUBType pt vt) (\<lambda>pt'. andThen (join_as A F pt' pv vv) (\<lambda>pv'.
                  returns (om_set idx (pt', pv') rs))))
        else returns rs)"

text \<open>
  The loops over the callers. The functions a loop may meet are those \<open>fs\<close> of its queue and the callers in
  the call graph; each is visited once.
\<close>

definition tail_sites :: "call_edge list \<Rightarrow> nat list" where
  "tail_sites cs = map fst (filter (\<lambda>(_, cont). cont = None) cs)"

definition site_funcs :: "('i, 'f) sprog \<Rightarrow> nat list \<Rightarrow> ('i, 'f) sccp_state \<Rightarrow> nat set" where
  "site_funcs p fs s = set fs \<union> (\<lambda>(ci, _). inst_func p ci) ` (\<Union>(_, cs) \<in> set (calls s). set cs)"

lemma finite_site_funcs [simp]: "finite (site_funcs p fs s)"
  by (auto simp: site_funcs_def)

lemma calls_of_subset: "set (calls_of s f) \<subseteq> (\<Union>(_, cs) \<in> set (calls s). set cs)"
proof (cases "map_of (calls s) f")
  case (Some cs)
  then have "(f, cs) \<in> set (calls s)" by (rule map_of_SomeD)
  then show ?thesis using Some by (auto simp: calls_of_def intro!: bexI[of _ "(f, cs)"])
qed (simp add: calls_of_def)

lemma site_funcs_mono:
  assumes "calls s' = calls s" "set fs' \<subseteq> set fs \<union> (\<lambda>(ci, _). inst_func p ci) ` set (calls_of s f)"
  shows "site_funcs p fs' s' \<subseteq> site_funcs p fs s"
proof -
  have "(\<lambda>(ci, _). inst_func p ci) ` set (calls_of s f) \<subseteq>
      (\<lambda>(ci, _). inst_func p ci) ` (\<Union>(_, cs) \<in> set (calls s). set cs)"
    by (rule image_mono[OF calls_of_subset])
  note order_trans[OF assms(2) Un_mono[OF subset_refl this]]
  then show ?thesis unfolding site_funcs_def assms(1) by (rule Un_least) (rule Un_upper2)
qed

lemma site_funcs_visit:
  assumes "f \<in> set fs" "f \<notin> visited"
    and "calls s' = calls s" "set fs' \<subseteq> set fs \<union> (\<lambda>(ci, _). inst_func p ci) ` set (calls_of s f)"
  shows "card (site_funcs p fs' s' - insert f visited) < card (site_funcs p fs s - visited)"
proof (rule psubset_card_mono)
  have "f \<in> site_funcs p fs s" using assms(1) by (simp add: site_funcs_def)
  then show "site_funcs p fs' s' - insert f visited \<subset> site_funcs p fs s - visited"
    using site_funcs_mono[OF assms(3,4)] assms(2) by blast
qed simp

lemma site_funcs_drop:
  assumes "calls s' = calls s"
  shows "card (site_funcs p fs s' - visited) < card (site_funcs p (f # fs) s - visited) \<or>
    card (site_funcs p fs s' - visited) = card (site_funcs p (f # fs) s - visited)"
proof -
  have "site_funcs p fs s' - visited \<subseteq> site_funcs p (f # fs) s - visited"
    using assms by (auto simp: site_funcs_def)
  then have "card (site_funcs p fs s' - visited) \<le> card (site_funcs p (f # fs) s - visited)"
    by (intro card_mono) auto
  then show ?thesis by linarith
qed

text \<open>The loop of \<^verbatim>\<open>MarkCall\<close> over the call sites that receive the results \<open>src\<close> of the callee.\<close>

abbreviation queue_funcs :: "('i, 'f) sprog \<Rightarrow> call_edge list \<Rightarrow> nat list" where
  "queue_funcs p q \<equiv> map (\<lambda>(ci, _). inst_func p ci) q"

function call_loop :: "'i apint_ops \<Rightarrow> ('i, 'f) apfloat_ops \<Rightarrow> ('i, 'f) sprog \<Rightarrow> ('i, 'f) result_map \<Rightarrow>
    call_edge list \<Rightarrow> nat set \<Rightarrow> ('i, 'f) sccp_state \<Rightarrow> ('i, 'f) sccp_state result" where
  "call_loop A F p src [] visited s = returns s"
| "call_loop A F p src ((ci, Some cont) # q) visited s =
     andThen (return_to A F p src ci cont s) (call_loop A F p src q visited)"
| "call_loop A F p src ((ci, None) # q) visited s =
     (let caller = inst_func p ci in
      if caller \<in> visited then call_loop A F p src q visited s
      else
        (let old = rets s caller; rs = (case old of None \<Rightarrow> [] | Some m \<Rightarrow> m) in
         if old = None \<or> \<not> result_map_eq A F rs src then
           andThen (each (merge_result A F (call_types (p_inst p ci))) src rs) (\<lambda>rs'.
             call_loop A F p src (q @ calls_of s caller) (insert caller visited)
               (s\<lparr>rets := (rets s)(caller \<mapsto> rs')\<rparr>))
         else call_loop A F p src q (insert caller visited) s))"
  by pat_completeness auto

termination
proof (relation "measures [\<lambda>(A, F, p, src, q, visited, s). card (site_funcs p (queue_funcs p q) s - visited),
    \<lambda>(A, F, p, src, q, visited, s). length q]", goal_cases)
  case (2 A F p src ci cont q visited s s')
  have "calls s' = calls s" using return_to_calls[OF 2] by (simp add: same_calls_def)
  then show ?case using site_funcs_drop[of s' s p "queue_funcs p q" visited "inst_func p ci"] by simp
next
  case (3 A F p src ci q visited s caller)
  then show ?case using site_funcs_drop[of s s p "queue_funcs p q" visited "inst_func p ci"] by simp
next
  case (4 A F p src ci q visited s caller old rs rs')
  then show ?case
    using site_funcs_visit[of caller "queue_funcs p ((ci, None) # q)" visited
        "s\<lparr>rets := (rets s)(caller \<mapsto> rs')\<rparr>" s "queue_funcs p (q @ calls_of s caller)" p] by auto
next
  case (5 A F p src ci q visited s caller old rs)
  then show ?case
    using site_funcs_visit[of caller "queue_funcs p ((ci, None) # q)" visited s s "queue_funcs p q" p] by auto
qed simp

text \<open>The operands reach the arguments of the callee, and the results of the callee the call site.\<close>

definition func_args :: "('i, 'f) sprog \<Rightarrow> nat \<Rightarrow> (nat \<times> nat list) list" where
  "func_args p f =
     fold (\<lambda>i m. case p_inst p i of
         S_ARG idx _ \<Rightarrow> om_set idx (set_insert i (case map_of m idx of None \<Rightarrow> [] | Some is \<Rightarrow> is)) m
       | _ \<Rightarrow> m) (concat (map (p_insts p) (p_blocks p f))) []"

definition mark_arg :: "'i apint_ops \<Rightarrow> ('i, 'f) apfloat_ops \<Rightarrow> ('i, 'f) sprog \<Rightarrow> ('i, 'f) lattice \<Rightarrow> nat \<Rightarrow>
    ('i, 'f) sccp_state \<Rightarrow> ('i, 'f) sccp_state result" where
  "mark_arg A F p argVal arg s =
     andThen (Extend A F argVal (reg_type p (arg, 0))) (\<lambda>v.
       let lub = LUB A F (vals s (arg, 0)) v in
       Mark A F p (arg, 0) (if IsFrame lub then LPointer else lub) s)"

definition mark_args :: "'i apint_ops \<Rightarrow> ('i, 'f) apfloat_ops \<Rightarrow> ('i, 'f) sprog \<Rightarrow> reg list \<Rightarrow> nat \<times> nat list \<Rightarrow>
    ('i, 'f) sccp_state \<Rightarrow> ('i, 'f) sccp_state result" where
  "mark_args A F p ops entry s =
     (case entry of (idx, args) \<Rightarrow>
        let argVal = (if idx < length ops then vals s (ops ! idx) else LUndefined)
        in each (mark_arg A F p argVal) args s)"

definition MarkEntry :: "('i, 'f) sprog \<Rightarrow> nat \<Rightarrow> ('i, 'f) sccp_state \<Rightarrow> ('i, 'f) sccp_state result" where
  "MarkEntry p f s = (case p_blocks p f of [] \<Rightarrow> Inl BadIterator | b # _ \<Rightarrow> returns (fst (MarkBlock b s)))"

definition add_call :: "nat \<Rightarrow> call_edge \<Rightarrow> ('i, 'f) sccp_state \<Rightarrow> ('i, 'f) sccp_state" where
  "add_call f c s = s\<lparr>calls := om_set f (set_insert c (calls_of s f)) (calls s)\<rparr>"

definition MarkCall :: "'i apint_ops \<Rightarrow> ('i, 'f) apfloat_ops \<Rightarrow> ('i, 'f) sprog \<Rightarrow> nat \<Rightarrow> nat \<Rightarrow> nat option \<Rightarrow>
    ('i, 'f) sccp_state \<Rightarrow> ('i, 'f) sccp_state result" where
  "MarkCall A F p c callee cont s =
     andThen (each (mark_args A F p (call_args (p_inst p c))) (func_args p callee) s) (\<lambda>s1.
       andThen (MarkEntry p callee s1) (\<lambda>s2.
         andThen (case rets s2 callee of
                    None \<Rightarrow> returns s2
                  | Some src \<Rightarrow> call_loop A F p src [(c, cont)] {} s2) (\<lambda>s3.
           returns (add_call callee (c, cont) s3))))"

text \<open>
  A tail call whose target is unknown returns overdefined values from its function and from the functions
  that reached it by tail calls.
\<close>

definition over_results :: "ty list \<Rightarrow> ('i, 'f) result_map \<Rightarrow> ('i, 'f) result_map \<times> bool" where
  "over_results ts rs =
     fold (\<lambda>i (rs, changed).
         case map_of rs i of
           Some (vt, vv) \<Rightarrow> if IsOverdefined vv then (rs, changed) else (om_set i (vt, LOverdefined) rs, True)
         | None \<Rightarrow> (om_set i (ts ! i, LOverdefined) rs, True)) [0..<length ts] (rs, False)"

definition over_return :: "'i apint_ops \<Rightarrow> ('i, 'f) apfloat_ops \<Rightarrow> ('i, 'f) sprog \<Rightarrow> ('i, 'f) result_map \<Rightarrow> call_edge \<Rightarrow>
    ('i, 'f) sccp_state \<Rightarrow> ('i, 'f) sccp_state result" where
  "over_return A F p rs c s =
     (case c of
        (ci, Some cont) \<Rightarrow>
          andThen (each (\<lambda>k s. Mark A F p (ci, k) (if map_of rs k = None then vals s (ci, k) else LOverdefined) s)
            [0..<GetNumRets (p_inst p ci)] s) (MarkEdge A F p ci cont)
      | (ci, None) \<Rightarrow> returns s)"

lemma over_return_calls: "over_return A F p rs c s = returns s' \<Longrightarrow> same_calls s s'"
  unfolding over_return_def
  by (auto simp: andThen_returns split: prod.splits option.splits
      dest!: each_calls[OF _ Mark_calls] MarkEdge_calls intro: same_calls_trans)

lemma each_over_return_calls: "each (over_return A F p rs) cs s = returns s' \<Longrightarrow> same_calls s s'"
  by (erule each_calls) (rule over_return_calls)

lemma tail_sites_subset: "inst_func p ` set (tail_sites cs) \<subseteq> (\<lambda>(ci, _). inst_func p ci) ` set cs"
  by (force simp: tail_sites_def)

function over_loop :: "'i apint_ops \<Rightarrow> ('i, 'f) apfloat_ops \<Rightarrow> ('i, 'f) sprog \<Rightarrow> ty list \<Rightarrow>
    nat list \<Rightarrow> nat set \<Rightarrow> ('i, 'f) sccp_state \<Rightarrow> ('i, 'f) sccp_state result" where
  "over_loop A F p ts [] visited s = returns s"
| "over_loop A F p ts (f # q) visited s =
     (if f \<in> visited then over_loop A F p ts q visited s
      else
        (let old = rets s f;
             (rs, changed) = over_results ts (case old of None \<Rightarrow> [] | Some m \<Rightarrow> m);
             s1 = s\<lparr>rets := (rets s)(f \<mapsto> rs)\<rparr>
         in if old = None \<or> changed then
              andThen (each (over_return A F p rs) (calls_of s f) s1)
                (over_loop A F p ts (q @ map (inst_func p) (tail_sites (calls_of s f))) (insert f visited))
            else over_loop A F p ts q (insert f visited) s1))"
  by pat_completeness auto

termination
proof (relation "measures [\<lambda>(A, F, p, ts, q, visited, s). card (site_funcs p q s - visited),
    \<lambda>(A, F, p, ts, q, visited, s). length q]", goal_cases)
  case (2 A F p ts f q visited s)
  then show ?case using site_funcs_drop[of s s p q visited f] by simp
next
  case (3 A F p ts f q visited s old prs rs changed s1 s2)
  have "calls s2 = calls s" using each_over_return_calls[OF 3(7)] 3(5) by (simp add: same_calls_def)
  then have "card (site_funcs p (q @ map (inst_func p) (tail_sites (calls_of s f))) s2 - insert f visited) <
      card (site_funcs p (f # q) s - visited)"
    using 3(1) tail_sites_subset[of p "calls_of s f"] by (intro site_funcs_visit[where f = f]) auto
  then show ?case by simp
next
  case (4 A F p ts f q visited s old prs rs changed s1)
  then show ?case using site_funcs_visit[of f "f # q" visited s1 s q p] by auto
qed simp

text \<open>A return updates the results of its function and of the functions that reached it by tail calls.\<close>

definition add_result :: "'i apint_ops \<Rightarrow> ('i, 'f) apfloat_ops \<Rightarrow> ('i, 'f) sprog \<Rightarrow> ('i, 'f) sccp_state \<Rightarrow> bool \<Rightarrow>
    nat option \<Rightarrow> nat \<times> reg \<Rightarrow> ('i, 'f) result_map \<Rightarrow> ('i, 'f) result_map result" where
  "add_result A F p s first tcall entry rs =
     (case entry of (k, arg) \<Rightarrow>
        let ty = reg_type p arg; v = vals s arg in
        if \<not> (case tcall of None \<Rightarrow> True | Some tc \<Rightarrow> k < length (call_types (p_inst p tc))) then returns rs
        else if first then returns (om_set k (ty, v) rs)
        else case map_of rs k of
               Some (pt, pv) \<Rightarrow>
                 andThen (LUBType pt ty) (\<lambda>pt'. andThen (join_as A F pt' pv v) (\<lambda>pv'. returns (om_set k (pt', pv') rs)))
             | None \<Rightarrow> returns (if IsUndefined v then rs else om_set k (ty, v) rs))"

definition return_edge :: "'i apint_ops \<Rightarrow> ('i, 'f) apfloat_ops \<Rightarrow> ('i, 'f) sprog \<Rightarrow> ('i, 'f) result_map \<Rightarrow> call_edge \<Rightarrow>
    ('i, 'f) sccp_state \<Rightarrow> ('i, 'f) sccp_state result" where
  "return_edge A F p rs c s =
     (case c of (ci, Some cont) \<Rightarrow> return_to A F p rs ci cont s | (ci, None) \<Rightarrow> returns s)"

lemma return_edge_calls: "return_edge A F p rs c s = returns s' \<Longrightarrow> same_calls s s'"
  by (auto simp: return_edge_def split: prod.splits option.splits dest: return_to_calls)

lemma each_return_edge_calls: "each (return_edge A F p rs) cs s = returns s' \<Longrightarrow> same_calls s s'"
  by (erule each_calls) (rule return_edge_calls)

function return_loop :: "'i apint_ops \<Rightarrow> ('i, 'f) apfloat_ops \<Rightarrow> ('i, 'f) sprog \<Rightarrow> reg list \<Rightarrow>
    (nat option \<times> nat) list \<Rightarrow> nat set \<Rightarrow> ('i, 'f) sccp_state \<Rightarrow> ('i, 'f) sccp_state result" where
  "return_loop A F p args [] visited s = returns s"
| "return_loop A F p args ((tcall, f) # q) visited s =
     (if f \<in> visited then return_loop A F p args q visited s
      else
        (let old = rets s f in
         andThen (each (add_result A F p s (old = None) tcall) (enumerate 0 args) (case old of None \<Rightarrow> [] | Some m \<Rightarrow> m))
           (\<lambda>rs. andThen (each (return_edge A F p rs) (calls_of s f) (s\<lparr>rets := (rets s)(f \<mapsto> rs)\<rparr>))
             (return_loop A F p args (q @ map (\<lambda>ci. (Some ci, inst_func p ci)) (tail_sites (calls_of s f)))
               (insert f visited)))))"
  by pat_completeness auto

termination
proof (relation "measures [\<lambda>(A, F, p, args, q, visited, s). card (site_funcs p (map snd q) s - visited),
    \<lambda>(A, F, p, args, q, visited, s). length q]", goal_cases)
  case (2 A F p args tcall f q visited s)
  then show ?case using site_funcs_drop[of s s p "map snd q" visited f] by simp
next
  case (3 A F p args tcall f q visited s old rs s2)
  have "calls s2 = calls s" using each_return_edge_calls[OF 3(4)] by (simp add: same_calls_def)
  then have "card (site_funcs p (map snd (q @ map (\<lambda>ci. (Some ci, inst_func p ci)) (tail_sites (calls_of s f)))) s2 - insert f visited) <
      card (site_funcs p (f # map snd q) s - visited)"
    using 3(1) tail_sites_subset[of p "calls_of s f"] by (intro site_funcs_visit[where f = f]) auto
  then show ?case by simp
qed simp

subsection \<open>Visitors\<close>

definition CanEvaluate :: "('i, 'f) sccp_state \<Rightarrow> reg \<Rightarrow> reg list \<Rightarrow> bool" where
  "CanEvaluate s callee args = (\<not> IsUnknown (vals s callee) \<and> (\<forall>arg \<in> set args. \<not> IsUnknown (vals s arg)))"

definition VisitCallInst :: "'i apint_ops \<Rightarrow> ('i, 'f) apfloat_ops \<Rightarrow> ('i, 'f) sprog \<Rightarrow> nat \<Rightarrow> reg \<Rightarrow> reg list \<Rightarrow> nat \<Rightarrow>
    ('i, 'f) sccp_state \<Rightarrow> ('i, 'f) sccp_state result" where
  "VisitCallInst A F p i callee args cont s =
     (if \<not> CanEvaluate s callee args then returns s
      else case vals s callee of
             LGlobal g _ \<Rightarrow>
               (case g_kind g of
                  G_FUNC \<Rightarrow> MarkCall A F p i (g_id g) (Some cont) s
                | G_EXTERN \<Rightarrow> andThen (MarkOverdefined A F p i s) (MarkEdge A F p i cont)
                | G_BLOCK \<Rightarrow> returns s
                | G_ATOM \<Rightarrow> returns s)
           | _ \<Rightarrow> andThen (MarkOverdefined A F p i s) (MarkEdge A F p i cont))"

definition VisitTailCallInst :: "'i apint_ops \<Rightarrow> ('i, 'f) apfloat_ops \<Rightarrow> ('i, 'f) sprog \<Rightarrow> nat \<Rightarrow> reg \<Rightarrow> reg list \<Rightarrow>
    ty list \<Rightarrow> calling_conv \<Rightarrow> ('i, 'f) sccp_state \<Rightarrow> ('i, 'f) sccp_state result" where
  "VisitTailCallInst A F p i callee args ts conv s =
     (if \<not> CanEvaluate s callee args then returns s
      else if IsGlobal (vals s callee) \<and> conv \<noteq> CC_SETJMP then
        (let g = GetGlobalSymbol (vals s callee) in
         case g_kind g of
           G_FUNC \<Rightarrow> MarkCall A F p i (g_id g) None s
         | G_EXTERN \<Rightarrow> over_loop A F p ts [inst_func p i] {} s
         | G_BLOCK \<Rightarrow> returns s
         | G_ATOM \<Rightarrow> returns s)
      else over_loop A F p ts [inst_func p i] {} s)"

definition VisitInvokeInst :: "'i apint_ops \<Rightarrow> ('i, 'f) apfloat_ops \<Rightarrow> ('i, 'f) sprog \<Rightarrow> nat \<Rightarrow> reg \<Rightarrow> reg list \<Rightarrow>
    nat \<Rightarrow> nat \<Rightarrow> ('i, 'f) sccp_state \<Rightarrow> ('i, 'f) sccp_state result" where
  "VisitInvokeInst A F p i callee args cont throw s =
     (if \<not> CanEvaluate s callee args then returns s
      else case vals s callee of
             LGlobal g _ \<Rightarrow>
               (case g_kind g of
                  G_FUNC \<Rightarrow> andThen (MarkCall A F p i (g_id g) (Some cont) s) (MarkEdge A F p i throw)
                | G_EXTERN \<Rightarrow> andThen (MarkOverdefined A F p i s) (\<lambda>s.
                    andThen (MarkEdge A F p i throw s) (MarkEdge A F p i cont))
                | G_BLOCK \<Rightarrow> returns s
                | G_ATOM \<Rightarrow> returns s)
           | _ \<Rightarrow> andThen (MarkOverdefined A F p i s) (\<lambda>s.
               andThen (MarkEdge A F p i cont s) (MarkEdge A F p i throw)))"

text \<open>The value of the condition is read through a reference: the second test sees the marks of the first.\<close>

definition VisitJumpCondInst :: "'i apint_ops \<Rightarrow> ('i, 'f) apfloat_ops \<Rightarrow> ('i, 'f) sprog \<Rightarrow> nat \<Rightarrow> reg \<Rightarrow> nat \<Rightarrow> nat \<Rightarrow>
    ('i, 'f) sccp_state \<Rightarrow> ('i, 'f) sccp_state result" where
  "VisitJumpCondInst A F p i c bt bf s =
     (if IsUnknown (vals s c) then returns s
      else if IsUndefined (vals s c) then MarkEdge A F p i bf s
      else andThen (IsTrue A F (vals s c)) (\<lambda>isTrue.
        andThen (if \<not> isTrue then MarkEdge A F p i bf s else returns s) (\<lambda>s.
        andThen (IsFalse A F (vals s c)) (\<lambda>isFalse.
          if \<not> isFalse then MarkEdge A F p i bt s else returns s))))"

text \<open>A negative index is below the number of successors, and not the index of one.\<close>

definition VisitSwitchInst :: "'i apint_ops \<Rightarrow> ('i, 'f) apfloat_ops \<Rightarrow> ('i, 'f) sprog \<Rightarrow> nat \<Rightarrow> reg \<Rightarrow> nat list \<Rightarrow>
    ('i, 'f) sccp_state \<Rightarrow> ('i, 'f) sccp_state result" where
  "VisitSwitchInst A F p i idx bs s =
     (case vals s idx of
        LUnknown \<Rightarrow> returns s
      | LInt k \<Rightarrow>
          (let index = sint (ap_getSExtValue A k) in
           if index < int (length bs) then
             (if index < 0 then Inl BadIterator else MarkEdge A F p i (bs ! nat index) s)
           else returns s)
      | LUndefined \<Rightarrow> (case bs of [] \<Rightarrow> Inl BadIterator | b # _ \<Rightarrow> MarkEdge A F p i b s)
      | _ \<Rightarrow> each (MarkEdge A F p i) bs s)"

definition select_value :: "'i apint_ops \<Rightarrow> ('i, 'f) apfloat_ops \<Rightarrow> ('i, 'f) lattice \<Rightarrow> ('i, 'f) lattice \<Rightarrow>
    ('i, 'f) lattice \<Rightarrow> ('i, 'f) lattice result" where
  "select_value A F c vt vf =
     andThen (IsTrue A F c) (\<lambda>isTrue.
       if isTrue then returns vt
       else andThen (IsFalse A F c) (\<lambda>isFalse.
         returns (if isFalse then vf else if IsUndefined c then LUndefined else LUB A F vt vf)))"

definition FloatFromInt :: "'i apint_ops \<Rightarrow> ('i, 'f) float_ctors \<Rightarrow> 'i \<Rightarrow> flt_semantics \<Rightarrow> ('i, 'f) lattice result" where
  "FloatFromInt A C i sem =
     (if ap_width A i = 64 then
        (let (f, lossy) = fc_convert C sem (fc_of_int C i) in returns (if lossy then LOverdefined else LFloat f))
      else unreachable)"

definition mov_value :: "'i apint_ops \<Rightarrow> ('i, 'f) apfloat_ops \<Rightarrow> ('i, 'f) float_ctors \<Rightarrow> ty \<Rightarrow> ('i, 'f) mov_arg \<Rightarrow>
    ('i, 'f) sccp_state \<Rightarrow> ('i, 'f) lattice result" where
  "mov_value A F C ty arg s =
     (case arg of
        MovInst r \<Rightarrow> returns (vals s r)
      | MovGlobal g \<Rightarrow> returns (LGlobal g 0)
      | MovExpr e \<Rightarrow> (case e of SymbolOffset g off \<Rightarrow> returns (LGlobal g off))
      | MovConstInt i \<Rightarrow>
          (if IsIntegerType ty then Extend A F (LInt i) ty
           else if ty = F32 then FloatFromInt A C i IEEEsingle
           else if ty = F64 then FloatFromInt A C i IEEEdouble
           else returns LOverdefined)
      | MovConstFloat f \<Rightarrow> if IsIntegerType ty then unreachable else Extend A F (LFloat f) ty)"

text \<open>
  \<^verbatim>\<open>cpuid\<close>: the features the target guarantees are known bits. \<open>p_x86\<close> gives, for a function compiled for
  x86, whether the subtarget has AVX and XSAVEOPT.
\<close>

definition GetFeatureFlags :: "bool \<times> bool \<Rightarrow> 32 word \<times> 32 word" where
  "GetFeatureFlags sti = (if fst sti then push_bit 27 1 else 0, 0)"

definition feature_mask :: "'i apint_ops \<Rightarrow> 32 word \<Rightarrow> ('i, 'f) lattice" where
  "feature_mask A w = (if w \<noteq> 0 then LMask (ap_make A 32 (ucast w) True) (ap_make A 32 (ucast w) True) else LOverdefined)"

definition cpuid_features :: "'i apint_ops \<Rightarrow> ('i, 'f) apfloat_ops \<Rightarrow> ('i, 'f) sprog \<Rightarrow> nat \<Rightarrow> bool \<times> bool \<Rightarrow>
    ('i, 'f) sccp_state \<Rightarrow> ('i, 'f) sccp_state result" where
  "cpuid_features A F p i sti s =
     (let (rcx, rdx) = GetFeatureFlags sti; ty = reg_type p (i, 2) in
      andThen (Mark A F p (i, 0) LOverdefined s) (\<lambda>s.
      andThen (Mark A F p (i, 1) LOverdefined s) (\<lambda>s.
      andThen (Extend A F (feature_mask A rcx) ty) (\<lambda>vc.
      andThen (Mark A F p (i, 2) vc s) (\<lambda>s.
      andThen (Extend A F (feature_mask A rdx) ty) (\<lambda>vd. Mark A F p (i, 3) vd s))))))"

definition cpuid_xsave :: "'i apint_ops \<Rightarrow> ('i, 'f) apfloat_ops \<Rightarrow> ('i, 'f) sprog \<Rightarrow> nat \<Rightarrow> bool \<times> bool \<Rightarrow>
    ('i, 'f) sccp_state \<Rightarrow> ('i, 'f) sccp_state result" where
  "cpuid_xsave A F p i sti s =
     andThen (Mark A F p (i, 0) (feature_mask A (of_bool (snd sti))) s)
       (each (\<lambda>k. Mark A F p (i, k) LOverdefined) [1, 2, 3])"

definition VisitCpuIdInst :: "'i apint_ops \<Rightarrow> ('i, 'f) apfloat_ops \<Rightarrow> ('i, 'f) sprog \<Rightarrow> nat \<Rightarrow> reg \<Rightarrow> reg option \<Rightarrow>
    ('i, 'f) sccp_state \<Rightarrow> ('i, 'f) sccp_state result" where
  "VisitCpuIdInst A F p i leaf sub s =
     (let narrow = (\<lambda>l. case AsInt l of None \<Rightarrow> None
           | Some k \<Rightarrow> if 64 \<le> ap_width A k then None else Some (ap_getZExtValue A k)) in
      if IsUnknown (vals s leaf) then returns s
      else case narrow (vals s leaf) of
             None \<Rightarrow> MarkOverdefined A F p i s
           | Some v \<Rightarrow>
               if v = 1 then
                 (case p_x86 p (inst_func p i) of
                    Some sti \<Rightarrow> cpuid_features A F p i sti s
                  | None \<Rightarrow> MarkOverdefined A F p i s)
               else if v = 0xD then
                 (case sub of
                    None \<Rightarrow> returns s
                  | Some r \<Rightarrow>
                      if IsUnknown (vals s r) then returns s
                      else case narrow (vals s r) of
                             None \<Rightarrow> MarkOverdefined A F p i s
                           | Some ecx \<Rightarrow>
                               if (ucast ecx :: 32 word) = 1 then
                                 (case p_x86 p (inst_func p i) of
                                    Some sti \<Rightarrow> cpuid_xsave A F p i sti s
                                  | None \<Rightarrow> MarkOverdefined A F p i s)
                               else MarkOverdefined A F p i s)
               else MarkOverdefined A F p i s)"

subsection \<open>The dispatch\<close>

definition Dispatch :: "'i apint_ops \<Rightarrow> ('i, 'f) apfloat_ops \<Rightarrow> ('i, 'f) float_ctors \<Rightarrow> ('i, 'f) sprog \<Rightarrow> nat \<Rightarrow>
    ('i, 'f) sccp_state \<Rightarrow> ('i, 'f) sccp_state result" where
  "Dispatch A F C p i s =
     (case p_inst p i of
        S_ARG idx t \<Rightarrow> if IsUnknown (vals s (i, 0)) then Inl AssertFailed else returns s
      | S_CALL callee args ts cont \<Rightarrow> VisitCallInst A F p i callee args cont s
      | S_TAIL_CALL callee args ts conv \<Rightarrow> VisitTailCallInst A F p i callee args ts conv s
      | S_INVOKE callee args ts cont throw \<Rightarrow> VisitInvokeInst A F p i callee args cont throw s
      | S_RETURN args \<Rightarrow> return_loop A F p args [(None, inst_func p i)] {} s
      | S_LOAD t addr \<Rightarrow> andThen (VisitLoadInst A C p t (vals s addr)) (\<lambda>v. Mark A F p (i, 0) v s)
      | S_UNARY k t arg \<Rightarrow>
          if IsUnknown (vals s arg) then returns s
          else andThen (EvalUnary A F k t (vals s arg)) (\<lambda>v. Mark A F p (i, 0) v s)
      | S_BINARY k t lhs rhs \<Rightarrow>
          if IsUnknown (vals s lhs) \<or> IsUnknown (vals s rhs) then returns s
          else andThen (EvalBinary A F (p_align p) k t (vals s lhs) (vals s rhs)) (\<lambda>v. Mark A F p (i, 0) v s)
      | S_CMP cc t lhs rhs \<Rightarrow>
          (case VisitCmpInst A F cc t (vals s lhs) (vals s rhs) of
             None \<Rightarrow> returns s
           | Some r \<Rightarrow> andThen r (\<lambda>v. Mark A F p (i, 0) v s))
      | S_JUMP b \<Rightarrow> MarkEdge A F p i b s
      | S_JUMP_COND c bt bf \<Rightarrow> VisitJumpCondInst A F p i c bt bf s
      | S_SWITCH idx bs \<Rightarrow> VisitSwitchInst A F p i idx bs s
      | S_SELECT t c vt vf \<Rightarrow>
          if IsUnknown (vals s c) \<or> IsUnknown (vals s vt) \<or> IsUnknown (vals s vf) then returns s
          else andThen (select_value A F (vals s c) (vals s vt) (vals s vf)) (\<lambda>v. Mark A F p (i, 0) v s)
      | S_FRAME t obj off \<Rightarrow> Mark A F p (i, 0) (LFrame obj off) s
      | S_MOV t arg \<Rightarrow> andThen (mov_value A F C t arg s) (\<lambda>v. Mark A F p (i, 0) v s)
      | S_UNDEF t \<Rightarrow> Mark A F p (i, 0) LUndefined s
      | S_PHI t ins \<Rightarrow> VisitPhiInst A F p i s
      | S_CPUID ts leaf sub \<Rightarrow> VisitCpuIdInst A F p i leaf sub s
      | _ \<Rightarrow> MarkOverdefined A F p i s)"

definition Visit :: "'i apint_ops \<Rightarrow> ('i, 'f) apfloat_ops \<Rightarrow> ('i, 'f) float_ctors \<Rightarrow> ('i, 'f) sprog \<Rightarrow> nat \<Rightarrow>
    ('i, 'f) sccp_state \<Rightarrow> ('i, 'f) sccp_state result" where
  "Visit A F C p i s = (if p_block p i \<in> executable s then Dispatch A F C p i s else Inl AssertFailed)"

definition VisitBlock :: "'i apint_ops \<Rightarrow> ('i, 'f) apfloat_ops \<Rightarrow> ('i, 'f) float_ctors \<Rightarrow> ('i, 'f) sprog \<Rightarrow> nat \<Rightarrow>
    ('i, 'f) sccp_state \<Rightarrow> ('i, 'f) sccp_state result" where
  "VisitBlock A F C p b s = each (Visit A F C p) (p_insts p b) s"

subsection \<open>The worklists\<close>

definition pop_bottom :: "'i apint_ops \<Rightarrow> ('i, 'f) apfloat_ops \<Rightarrow> ('i, 'f) float_ctors \<Rightarrow> ('i, 'f) sprog \<Rightarrow>
    ('i, 'f) sccp_state \<Rightarrow> ('i, 'f) sccp_state result" where
  "pop_bottom A F C p s = Visit A F C p (hd (bottomList s)) (s\<lparr>bottomList := tl (bottomList s)\<rparr>)"

definition pop_inst :: "'i apint_ops \<Rightarrow> ('i, 'f) apfloat_ops \<Rightarrow> ('i, 'f) float_ctors \<Rightarrow> ('i, 'f) sprog \<Rightarrow>
    ('i, 'f) sccp_state \<Rightarrow> ('i, 'f) sccp_state result" where
  "pop_inst A F C p s = Visit A F C p (hd (instList s)) (s\<lparr>instList := tl (instList s)\<rparr>)"

definition pop_block :: "'i apint_ops \<Rightarrow> ('i, 'f) apfloat_ops \<Rightarrow> ('i, 'f) float_ctors \<Rightarrow> ('i, 'f) sprog \<Rightarrow>
    ('i, 'f) sccp_state \<Rightarrow> ('i, 'f) sccp_state result" where
  "pop_block A F C p s = VisitBlock A F C p (hd (blockList s)) (s\<lparr>blockList := tl (blockList s)\<rparr>)"

text \<open>A loop that empties one list; the loops may run forever, \<open>None\<close>.\<close>

partial_function (option) drain :: "('s \<Rightarrow> 'a list) \<Rightarrow> ('s \<Rightarrow> 's result) \<Rightarrow> 's \<Rightarrow> 's result option" where
  "drain lst pop s =
     (if lst s = [] then Some (returns s)
      else case pop s of Inl e \<Rightarrow> Some (Inl e) | Inr s' \<Rightarrow> drain lst pop s')"

partial_function (option) solve_loop :: "'i apint_ops \<Rightarrow> ('i, 'f) apfloat_ops \<Rightarrow> ('i, 'f) float_ctors \<Rightarrow>
    ('i, 'f) sprog \<Rightarrow> ('i, 'f) sccp_state \<Rightarrow> ('i, 'f) sccp_state result option" where
  "solve_loop A F C p s =
     (if bottomList s = [] \<and> blockList s = [] \<and> instList s = [] then Some (returns s)
      else case drain bottomList (pop_bottom A F C p) s of
             None \<Rightarrow> None
           | Some (Inl e) \<Rightarrow> Some (Inl e)
           | Some (Inr s1) \<Rightarrow>
               (case drain instList (pop_inst A F C p) s1 of
                  None \<Rightarrow> None
                | Some (Inl e) \<Rightarrow> Some (Inl e)
                | Some (Inr s2) \<Rightarrow>
                    (case drain blockList (pop_block A F C p) s2 of
                       None \<Rightarrow> None
                     | Some (Inl e) \<Rightarrow> Some (Inl e)
                     | Some (Inr s3) \<Rightarrow> solve_loop A F C p s3)))"

text \<open>The roots: functions visible outside or whose address is taken.\<close>

definition init_func :: "'i apint_ops \<Rightarrow> ('i, 'f) apfloat_ops \<Rightarrow> ('i, 'f) sprog \<Rightarrow> global \<Rightarrow>
    ('i, 'f) sccp_state \<Rightarrow> ('i, 'f) sccp_state result" where
  "init_func A F p g s =
     (if \<not> IsRoot g \<and> \<not> p_address_taken p (g_id g) then returns s
      else andThen (MarkEntry p (g_id g) s)
        (each (MarkOverdefined A F p) (concat (map snd (func_args p (g_id g))))))"

definition solve :: "'i apint_ops \<Rightarrow> ('i, 'f) apfloat_ops \<Rightarrow> ('i, 'f) float_ctors \<Rightarrow> ('i, 'f) sprog \<Rightarrow>
    ('i, 'f) sccp_state result option" where
  "solve A F C p =
     (case each (init_func A F p) (p_funcs p) initial_state of
        Inl e \<Rightarrow> Some (Inl e)
      | Inr s \<Rightarrow> solve_loop A F C p s)"

end
