(* ===== verification/SccpSolved.thy ===== *)
theory SccpSolved
  imports SccpSolver
begin

text \<open>
  What every operation of the solver of \<open>SccpSolver\<close> keeps. The sets of edges and blocks grow, the users
  of each register that changes are queued, the lists stay inside of the executable blocks, so the
  assertion that an instruction is visited in an executable block cannot fail, and the call graph is well
  formed. The locale \<open>step_invariant\<close> states what the three kinds of small steps have to keep and carries it
  through the visitors.
\<close>

subsection \<open>Worklists and executable blocks\<close>

definition queued :: "('i, 'f) sccp_state \<Rightarrow> nat set" where
  "queued s = set (bottomList s) \<union> set (instList s)"

definition solver_ok :: "('i, 'f) sprog \<Rightarrow> ('i, 'f) sccp_state \<Rightarrow> bool" where
  "solver_ok p s \<longleftrightarrow> (\<forall>i \<in> queued s. p_block p i \<in> executable s) \<and> set (blockList s) \<subseteq> executable s \<and>
     (\<forall>(from, to) \<in> edges s. to \<in> executable s)"

definition wakes :: "('i, 'f) sprog \<Rightarrow> ('i, 'f) sccp_state \<Rightarrow> ('i, 'f) sccp_state \<Rightarrow> bool" where
  "wakes p s s' \<longleftrightarrow> edges s \<subseteq> edges s' \<and> executable s \<subseteq> executable s' \<and> queued s \<subseteq> queued s' \<and>
     set (blockList s) \<subseteq> set (blockList s') \<and> executable s' \<subseteq> executable s \<union> set (blockList s') \<and>
     (\<forall>r j. vals s' r \<noteq> vals s r \<longrightarrow> j \<in> set (reg_users p r) \<longrightarrow> p_block p j \<in> executable s \<longrightarrow> j \<in> queued s')"

text \<open>A step that keeps the invariant and wakes what it changes; \<open>own\<close> bounds the registers it changes.\<close>

definition good_step :: "('i, 'f) sprog \<Rightarrow> (nat \<Rightarrow> bool) \<Rightarrow> ('i, 'f) sccp_state \<Rightarrow> ('i, 'f) sccp_state \<Rightarrow> bool" where
  "good_step p own s s' \<longleftrightarrow> (solver_ok p s \<longrightarrow> solver_ok p s') \<and> wakes p s s' \<and>
     (\<forall>r. vals s' r \<noteq> vals s r \<longrightarrow> own (fst r))"

lemma good_step_refl [simp, intro]: "good_step p own s s"
  by (simp add: good_step_def wakes_def)

lemma good_step_trans:
  assumes "good_step p own s s1" "good_step p own s1 s'"
  shows "good_step p own s s'"
proof -
  have "wakes p s s'" unfolding wakes_def
  proof (intro conjI allI impI)
    fix r j assume r: "vals s' r \<noteq> vals s r" "j \<in> set (reg_users p r)" "p_block p j \<in> executable s"
    show "j \<in> queued s'"
    proof (cases "vals s1 r = vals s r")
      case True
      then show ?thesis using r assms unfolding good_step_def wakes_def by (metis subsetD)
    next
      case False
      then show ?thesis using r assms unfolding good_step_def wakes_def by blast
    qed
  qed (use assms in \<open>unfold good_step_def wakes_def, blast+\<close>)
  moreover have "own (fst r)" if "vals s' r \<noteq> vals s r" for r
    using that assms unfolding good_step_def by metis
  ultimately show ?thesis using assms unfolding good_step_def by blast
qed

lemma good_step_weaken: "good_step p own s s' \<Longrightarrow> (\<And>i. own i \<Longrightarrow> own' i) \<Longrightarrow> good_step p own' s s'"
  unfolding good_step_def by blast

text \<open>The operations are built from marks, new blocks and edges, and steps that touch only the call graph.\<close>

lemma Mark_good:
  assumes "Mark A F p r v s = returns s'" "own (fst r)"
  shows "good_step p own s s'"
proof (cases "lattice_eq A F (vals s r) v")
  case False
  let ?q = "filter (\<lambda>i. p_block p i \<in> executable s) (reg_users p r)"
  have s': "vals s' = (vals s)(r := v)" "edges s' = edges s" "executable s' = executable s" "blockList s' = blockList s"
      "queued s' = queued s \<union> set ?q"
    using assms(1) False by (auto simp: Mark_def Let_def queued_def split: if_splits)
  then show ?thesis using assms(2) by (auto simp: good_step_def solver_ok_def wakes_def)
qed (use assms in \<open>simp add: Mark_def\<close>)

lemma MarkBlock_good: "good_step p own s (fst (MarkBlock b s))"
  by (auto simp: MarkBlock_def good_step_def solver_ok_def wakes_def queued_def)

lemma other_good:
  assumes "vals s' = vals s" "edges s' = edges s" "executable s' = executable s" "blockList s' = blockList s"
    "bottomList s' = bottomList s" "instList s' = instList s"
  shows "good_step p own s s'"
  using assms by (auto simp: good_step_def solver_ok_def wakes_def queued_def)

lemma each_good:
  assumes "each f xs s = returns s'" "\<And>x s s'. x \<in> set xs \<Longrightarrow> f x s = returns s' \<Longrightarrow> good_step p own s s'"
  shows "good_step p own s s'"
  by (rule each_preserves[OF assms(1), where P = "good_step p own s"]) (auto intro: good_step_trans assms(2))

lemma VisitPhiInst_good:
  assumes "VisitPhiInst A F p i s = returns s'" "own i"
  shows "good_step p own s s'"
  using assms by (auto simp: VisitPhiInst_def split: sinst.splits if_splits intro: Mark_good)

text \<open>A new edge revisits the PHIs of its target, or queues the target.\<close>

lemma MarkEdge_good:
  assumes "MarkEdge A F p i b s = returns s'" "\<And>j. j \<in> set (block_phis p b) \<Longrightarrow> own j"
  shows "good_step p own s s'"
proof (cases "(p_block p i, b) \<in> edges s")
  case False
  let ?s1 = "s\<lparr>edges := insert (p_block p i, b) (edges s)\<rparr>"
  show ?thesis
  proof (cases "b \<in> executable s")
    case True
    then have e: "each (VisitPhiInst A F p) (block_phis p b) ?s1 = returns s'"
      using assms(1) False by (simp add: MarkEdge_def MarkBlock_def)
    have "good_step p own s ?s1"
      using True by (auto simp: good_step_def solver_ok_def wakes_def queued_def)
    moreover have "good_step p own ?s1 s'"
      using e by (rule each_good) (rule VisitPhiInst_good, assumption, rule assms(2))
    ultimately show ?thesis by (rule good_step_trans)
  next
    case new: False
    then have "s' = ?s1\<lparr>executable := insert b (executable s), blockList := blockList s @ [b]\<rparr>"
      using assms(1) False by (simp add: MarkEdge_def MarkBlock_def)
    then show ?thesis by (auto simp: good_step_def solver_ok_def wakes_def queued_def)
  qed
qed (use assms in \<open>simp add: MarkEdge_def\<close>)

subsection \<open>Call graphs\<close>

text \<open>The arguments and call sites, whose values the propagation through calls marks.\<close>

definition outer_inst :: "('i, 'f) sinst \<Rightarrow> bool" where
  "outer_inst i = (case i of S_ARG _ _ \<Rightarrow> True | S_CALL _ _ _ _ \<Rightarrow> True | S_INVOKE _ _ _ _ _ \<Rightarrow> True | _ \<Rightarrow> False)"

text \<open>The sites with a continuation are calls and invokes.\<close>

definition sites_ok :: "('i, 'f) sprog \<Rightarrow> call_edge list \<Rightarrow> bool" where
  "sites_ok p cs \<longleftrightarrow> (\<forall>c \<in> set cs. snd c \<noteq> None \<longrightarrow> outer_inst (p_inst p (fst c)))"

lemma sites_ok_simps [simp]: "sites_ok p []"
    "sites_ok p (c # cs) \<longleftrightarrow> (snd c \<noteq> None \<longrightarrow> outer_inst (p_inst p (fst c))) \<and> sites_ok p cs"
    "sites_ok p (cs @ cs') \<longleftrightarrow> sites_ok p cs \<and> sites_ok p cs'"
  by (auto simp: sites_ok_def)

definition calls_ok :: "('i, 'f) sprog \<Rightarrow> ('i, 'f) sccp_state \<Rightarrow> bool" where
  "calls_ok p s \<longleftrightarrow> (\<forall>f. sites_ok p (calls_of s f))"

lemma calls_ok_same: "calls s' = calls s \<Longrightarrow> calls_ok p s \<Longrightarrow> calls_ok p s'"
  by (simp add: calls_ok_def calls_of_def)

lemma calls_ok_add:
  assumes "calls_ok p s" "cont \<noteq> None \<Longrightarrow> outer_inst (p_inst p c)"
  shows "calls_ok p (add_call callee (c, cont) s)"
proof -
  have "set (calls_of (add_call callee (c, cont) s) f) \<subseteq> set (calls_of s f) \<union> {(c, cont)}" for f
    by (auto simp: add_call_def calls_of_def om_set_lookup set_insert_def set_insort_key split: option.splits if_splits)
  then show ?thesis using assms unfolding calls_ok_def sites_ok_def by fastforce
qed

lemma func_args_insts:
  assumes "(idx, is) \<in> set (func_args p f)" "i \<in> set is"
  shows "outer_inst (p_inst p i)"
proof -
  let ?step = "\<lambda>i m. case p_inst p i of
      S_ARG idx _ \<Rightarrow> om_set idx (set_insert i (case map_of m idx of None \<Rightarrow> [] | Some is \<Rightarrow> is)) m | _ \<Rightarrow> m"
  define P where "P m \<longleftrightarrow> (\<forall>(idx :: nat) is. (idx, is) \<in> set m \<longrightarrow> (\<forall>i \<in> set is. outer_inst (p_inst p i)))" for m
  have step: "P (?step i m)" if m: "P m" for i m
  proof (cases "p_inst p i")
    case (S_ARG k t)
    then have "outer_inst (p_inst p i)" by (simp add: outer_inst_def)
    moreover have "\<forall>j \<in> set (case map_of m k of None \<Rightarrow> [] | Some is \<Rightarrow> is). outer_inst (p_inst p j)"
      using m unfolding P_def by (cases "map_of m k") (auto dest: map_of_SomeD)
    ultimately have "\<forall>j \<in> set (set_insert i (case map_of m k of None \<Rightarrow> [] | Some is \<Rightarrow> is)). outer_inst (p_inst p j)"
      by (auto simp: set_insert_def set_insort_key)
    then show ?thesis using m S_ARG unfolding P_def by (fastforce dest: om_set_members)
  qed (use m in simp_all)
  have "P (fold ?step xs m)" if "P m" for xs m
    using that by (induction xs arbitrary: m) (auto intro: step)
  moreover have "P []" by (simp add: P_def)
  ultimately have "P (func_args p f)" unfolding func_args_def by blast
  then show ?thesis using assms unfolding P_def by blast
qed

lemma MarkEntry_calls: "MarkEntry p f s = returns s' \<Longrightarrow> same_calls s s'"
  by (auto simp: MarkEntry_def MarkBlock_def same_calls_def split: list.splits)

lemma mark_args_calls: "mark_args A F p ops entry s = returns s' \<Longrightarrow> same_calls s s'"
  unfolding mark_args_def Let_def
  by (auto split: prod.splits elim!: each_calls simp: mark_arg_def andThen_returns Let_def intro: Mark_calls)

subsection \<open>What every visit keeps\<close>

text \<open>
  A property of the state is kept by the visitors when it is kept by the operations they are made of: marks
  of the instructions in \<open>may\<close>, new edges and blocks, and updates of the call graph and the results.
\<close>

locale step_invariant =
  fixes A :: "'i apint_ops" and F :: "('i, 'f) apfloat_ops" and p :: "('i, 'f) sprog"
    and may :: "nat \<Rightarrow> bool" and I :: "('i, 'f) sccp_state \<Rightarrow> bool"
  assumes mark: "I s \<Longrightarrow> may (fst r) \<Longrightarrow> Mark A F p r v s = returns s' \<Longrightarrow> I s'"
    and edge: "I s \<Longrightarrow> MarkEdge A F p i b s = returns s' \<Longrightarrow> I s'"
    and block: "I s \<Longrightarrow> I (fst (MarkBlock b s))"
    and graph: "I s \<Longrightarrow> vals s' = vals s \<Longrightarrow> edges s' = edges s \<Longrightarrow> executable s' = executable s \<Longrightarrow>
      blockList s' = blockList s \<Longrightarrow> bottomList s' = bottomList s \<Longrightarrow> instList s' = instList s \<Longrightarrow>
      calls s' = calls s \<Longrightarrow> I s'"
    and add: "I s \<Longrightarrow> (cont \<noteq> None \<Longrightarrow> outer_inst (p_inst p c)) \<Longrightarrow> I (add_call f (c, cont) s)"
    and outer_may: "outer_inst (p_inst p j) \<Longrightarrow> may j"
begin

lemma each_keeps: "each f xs s = returns s' \<Longrightarrow> I s \<Longrightarrow> (\<And>x s s'. x \<in> set xs \<Longrightarrow> I s \<Longrightarrow> f x s = returns s' \<Longrightarrow> I s') \<Longrightarrow> I s'"
  by (rule each_preserves[where P = I])

lemma mark_own: "Mark A F p (i, k) v s = returns s' \<Longrightarrow> I s \<Longrightarrow> may i \<Longrightarrow> I s'"
  by (rule mark[where r = "(i, k)"]) simp_all

lemma edge_own: "MarkEdge A F p i b s = returns s' \<Longrightarrow> I s \<Longrightarrow> I s'"
  by (rule edge)

lemma each_mark_own: "each (\<lambda>k. Mark A F p (i, k) v) ks s = returns s' \<Longrightarrow> I s \<Longrightarrow> may i \<Longrightarrow> I s'"
  by (erule each_keeps) (auto intro: mark_own)

lemma over_keeps: "MarkOverdefined A F p i s = returns s' \<Longrightarrow> I s \<Longrightarrow> may i \<Longrightarrow> I s'"
  unfolding MarkOverdefined_def by (rule each_mark_own)

lemma each_edge: "each (MarkEdge A F p i) bs s = returns s' \<Longrightarrow> I s \<Longrightarrow> I s'"
  by (erule each_keeps) (auto intro: edge_own)

lemma phi_keeps: "VisitPhiInst A F p i s = returns s' \<Longrightarrow> I s \<Longrightarrow> may i \<Longrightarrow> I s'"
  by (auto simp: VisitPhiInst_def split: sinst.splits if_splits intro: mark_own)

lemma jump_cond_keeps: "VisitJumpCondInst A F p i c bt bf s = returns s' \<Longrightarrow> I s \<Longrightarrow> I s'"
  unfolding VisitJumpCondInst_def andThen_returns by (auto simp: andThen_returns split: if_splits intro: edge_own)

lemma switch_keeps: "VisitSwitchInst A F p i idx bs s = returns s' \<Longrightarrow> I s \<Longrightarrow> I s'"
  unfolding VisitSwitchInst_def Let_def
  by (auto split: lattice.splits if_splits list.splits intro: edge_own each_edge)

lemma cpuid_keeps:
  assumes "VisitCpuIdInst A F p i leaf sub s = returns s'" "I s" "may i"
  shows "I s'"
proof -
  have f: "cpuid_features A F p i sti s = returns s' \<Longrightarrow> I s'" for sti
    using assms(2) unfolding cpuid_features_def Let_def
    by (auto simp: andThen_returns split: prod.splits dest!: mark_own[OF _ _ assms(3)])
  have x: "cpuid_xsave A F p i sti s = returns s' \<Longrightarrow> I s'" for sti
    using assms(2) unfolding cpuid_xsave_def
    by (auto simp: andThen_returns simp del: each.simps intro: mark_own[OF _ _ assms(3)] each_mark_own[OF _ _ assms(3)])
  show ?thesis using assms(1,2) unfolding VisitCpuIdInst_def Let_def
    by (auto split: if_splits option.splits intro: f x over_keeps[OF _ _ assms(3)])
qed

lemma return_to_keeps:
  assumes "return_to A F p rs ci cont s = returns s'" "I s" "outer_inst (p_inst p ci)"
  shows "I s'"
proof -
  obtain s1 where s1: "each (take_result A F p rs ci) [0..<GetNumRets (p_inst p ci)] s = returns s1"
      "MarkEdge A F p ci cont s1 = returns s'"
    using assms(1) by (auto simp: return_to_def andThen_returns)
  have "I s1" using s1(1) assms(2)
    by (rule each_keeps)
      (auto simp: take_result_def Let_def andThen_returns split: option.splits
        elim!: mark_own intro!: outer_may assms(3))
  then show ?thesis using s1(2) by (rule edge)
qed

lemma call_loop_keeps:
  assumes "call_loop A' F' p' src q visited s = returns s'" "A' = A" "F' = F" "p' = p"
    and "calls_ok p s" "sites_ok p q" "I s"
  shows "I s'"
  using assms
proof (induction A' F' p' src q visited s rule: call_loop.induct)
  case (2 A' F' p' src ci cont q visited s)
  then obtain s1 where s1: "return_to A F p src ci cont s = returns s1" "call_loop A' F' p' src q visited s1 = returns s'"
    by (auto simp: andThen_returns)
  have "calls_ok p s1" using return_to_calls[OF s1(1)] 2(6) by (auto simp: same_calls_def intro: calls_ok_same)
  moreover have "I s1" using return_to_keeps[OF s1(1) 2(8)] 2(7) by simp
  ultimately show ?case using 2(1)[OF _ s1(2)] s1(1) 2(3-7) by simp
next
  case (3 A' F' p' src ci q visited s)
  let ?caller = "inst_func p' ci"
  let ?rs = "case rets s ?caller of None \<Rightarrow> [] | Some m \<Rightarrow> m"
  consider (visited) "?caller \<in> visited"
    | (same) "?caller \<notin> visited" "\<not> (rets s ?caller = None \<or> \<not> result_map_eq A' F' ?rs src)"
    | (merge) "?caller \<notin> visited" "rets s ?caller = None \<or> \<not> result_map_eq A' F' ?rs src" by blast
  then show ?case
  proof cases
    case visited
    then have "call_loop A' F' p' src q visited s = returns s'" using 3(4) by (simp add: Let_def)
    then show ?thesis using 3(1)[OF refl visited _ 3(5-8)] 3(9,10) by simp
  next
    case same
    then have "call_loop A' F' p' src q (insert ?caller visited) s = returns s'" using 3(4) by (auto simp: Let_def)
    then show ?thesis using 3(3)[OF refl same(1) refl refl same(2)] 3(5-) by simp
  next
    case merge
    then obtain rs' where rs': "each (merge_result A' F' (call_types (p_inst p' ci))) src ?rs = returns rs'"
        "call_loop A' F' p' src (q @ calls_of s ?caller) (insert ?caller visited) (s\<lparr>rets := (rets s)(?caller \<mapsto> rs')\<rparr>) = returns s'"
      using 3(4) by (auto simp: Let_def andThen_returns)
    let ?s1 = "s\<lparr>rets := (rets s)(?caller \<mapsto> rs')\<rparr>"
    have "calls_ok p ?s1" using 3(8) by (rule calls_ok_same[rotated]) simp
    moreover have "sites_ok p (q @ calls_of s ?caller)" using 3(8,9) by (simp add: calls_ok_def)
    moreover have "I ?s1" using 3(10) by (rule graph) simp_all
    ultimately show ?thesis using 3(2)[OF refl merge(1) refl refl merge(2) rs' 3(5-7)] by simp
  qed
qed simp

lemma over_return_keeps:
  assumes "over_return A F p rs c s = returns s'" "I s" "snd c \<noteq> None \<longrightarrow> outer_inst (p_inst p (fst c))"
  shows "I s'"
proof (cases c)
  case (Pair ci cont)
  show ?thesis
  proof (cases cont)
    case (Some b)
    obtain s1 where s1: "each (\<lambda>k s. Mark A F p (ci, k) (if map_of rs k = None then vals s (ci, k) else LOverdefined) s)
        [0..<GetNumRets (p_inst p ci)] s = returns s1" "MarkEdge A F p ci b s1 = returns s'"
      using assms(1) Pair Some by (auto simp: over_return_def andThen_returns)
    have m: "may ci" using assms(3) Pair Some by (intro outer_may) simp
    have "I s1" using s1(1) assms(2) by (rule each_keeps) (rule mark_own[OF _ _ m])
    then show ?thesis by (rule edge_own[OF s1(2)])
  qed (use assms(1,2) Pair in \<open>simp add: over_return_def\<close>)
qed

lemma each_site:
  assumes "each f cs s = returns s'" "sites_ok p cs" "I s"
    and "\<And>c s s'. f c s = returns s' \<Longrightarrow> I s \<Longrightarrow> snd c \<noteq> None \<longrightarrow> outer_inst (p_inst p (fst c)) \<Longrightarrow> I s'"
  shows "I s'"
  using assms(1,3) by (rule each_keeps) (use assms(2,4) in \<open>auto simp: sites_ok_def\<close>)

lemma over_loop_keeps:
  assumes "over_loop A' F' p' ts q visited s = returns s'" "A' = A" "F' = F" "p' = p" "calls_ok p s" "I s"
  shows "I s'"
  using assms
proof (induction A' F' p' ts q visited s rule: over_loop.induct)
  case (2 A' F' p' ts f q visited s)
  define old where "old = rets s f"
  obtain rs changed where r: "over_results ts (case old of None \<Rightarrow> [] | Some m \<Rightarrow> m) = (rs, changed)" by fastforce
  define s1 where "s1 = s\<lparr>rets := (rets s)(f \<mapsto> rs)\<rparr>"
  have s1: "I s1" by (rule graph[OF 2(9)]) (simp_all add: s1_def)
  have c1: "calls s1 = calls s" by (simp add: s1_def)
  have ok1: "calls_ok p s1" by (rule calls_ok_same[OF c1 2(8)])
  show ?case
  proof (cases "f \<in> visited")
    case True
    then have "over_loop A' F' p' ts q visited s = returns s'" using 2(4) by simp
    then show ?thesis by (rule 2(1)[OF True _ 2(5-9)])
  next
    case new: False
    show ?thesis
    proof (cases "old = None \<or> changed")
      case True
      then obtain s2 where s2: "each (over_return A' F' p' rs) (calls_of s f) s1 = returns s2"
          "over_loop A' F' p' ts (q @ map (inst_func p') (tail_sites (calls_of s f))) (insert f visited) s2 = returns s'"
        using 2(4) new r by (auto simp: old_def[symmetric] s1_def[symmetric] andThen_returns)
      have "I s2"
        by (rule each_site[OF s2(1)[unfolded 2(5-7)] _ s1]) (use 2(8) in \<open>auto simp: calls_ok_def intro: over_return_keeps\<close>)
      moreover have "calls_ok p s2"
        using each_over_return_calls[OF s2(1)] ok1 by (auto simp: same_calls_def intro: calls_ok_same)
      ultimately show ?thesis using 2(2)[OF new old_def r[symmetric] refl s1_def True s2 2(5-7)] by simp
    next
      case False
      then have "over_loop A' F' p' ts q (insert f visited) s1 = returns s'"
        using 2(4) new r by (auto simp: old_def[symmetric] s1_def[symmetric])
      then show ?thesis using 2(3)[OF new old_def r[symmetric] refl s1_def False] s1 ok1 2(5-7) by simp
    qed
  qed
qed simp

lemma return_edge_keeps:
  assumes "return_edge A F p rs c s = returns s'" "I s" "snd c \<noteq> None \<longrightarrow> outer_inst (p_inst p (fst c))"
  shows "I s'"
  using assms by (auto simp: return_edge_def split: prod.splits option.splits intro: return_to_keeps)

lemma return_loop_keeps:
  assumes "return_loop A' F' p' args q visited s = returns s'" "A' = A" "F' = F" "p' = p" "calls_ok p s" "I s"
  shows "I s'"
  using assms
proof (induction A' F' p' args q visited s rule: return_loop.induct)
  case (2 A' F' p' args tcall f q visited s)
  show ?case
  proof (cases "f \<in> visited")
    case True
    then have "return_loop A' F' p' args q visited s = returns s'" using 2(3) by simp
    then show ?thesis by (rule 2(1)[OF True _ 2(4-8)])
  next
    case False
    then obtain rs s2 where rs: "each (add_result A' F' p' s (rets s f = None) tcall) (enumerate 0 args)
          (case rets s f of None \<Rightarrow> [] | Some m \<Rightarrow> m) = returns rs"
        "each (return_edge A' F' p' rs) (calls_of s f) (s\<lparr>rets := (rets s)(f \<mapsto> rs)\<rparr>) = returns s2"
        "return_loop A' F' p' args (q @ map (\<lambda>ci. (Some ci, inst_func p' ci)) (tail_sites (calls_of s f)))
           (insert f visited) s2 = returns s'"
      using 2(3) by (auto simp: Let_def andThen_returns)
    have "I (s\<lparr>rets := (rets s)(f \<mapsto> rs)\<rparr>)" using 2(8) by (rule graph) simp_all
    then have "I s2"
      by (rule each_site[OF rs(2)[unfolded 2(4-6)], rotated]) (use 2(7) in \<open>auto simp: calls_ok_def intro: return_edge_keeps\<close>)
    moreover have "calls_ok p s2"
      using each_return_edge_calls[OF rs(2)] 2(7) by (auto simp: same_calls_def intro: calls_ok_same)
    ultimately show ?thesis using 2(2)[OF False refl rs 2(4-6)] by simp
  qed
qed simp

lemma entry_keeps: "MarkEntry p f s = returns s' \<Longrightarrow> I s \<Longrightarrow> I s'"
  by (auto simp: MarkEntry_def split: list.splits intro: block)

lemma mark_args_keeps:
  assumes "mark_args A F p ops entry s = returns s'" "I s" "\<And>i. i \<in> set (snd entry) \<Longrightarrow> may i"
  shows "I s'"
proof (cases entry)
  case (Pair idx args)
  then have e: "each (mark_arg A F p (if idx < length ops then vals s (ops ! idx) else LUndefined)) args s = returns s'"
    using assms(1) by (simp add: mark_args_def Let_def)
  show ?thesis using e assms(2)
  proof (rule each_keeps)
    fix i s s' v assume "i \<in> set args" "I s" "mark_arg A F p v i s = returns s'"
    then show "I s'" using assms(3) Pair by (auto simp: mark_arg_def andThen_returns Let_def elim!: mark_own)
  qed
qed

lemma MarkCall_keeps:
  assumes "MarkCall A F p c callee cont s = returns s'" "I s" "calls_ok p s"
    and "cont \<noteq> None \<Longrightarrow> outer_inst (p_inst p c)"
  shows "I s'"
proof -
  obtain s1 s2 s3 where s: "each (mark_args A F p (call_args (p_inst p c))) (func_args p callee) s = returns s1"
      "MarkEntry p callee s1 = returns s2"
      "(case rets s2 callee of None \<Rightarrow> returns s2 | Some src \<Rightarrow> call_loop A F p src [(c, cont)] {} s2) = returns s3"
      "s' = add_call callee (c, cont) s3"
    using assms(1) by (auto simp: MarkCall_def andThen_returns)
  have "I s1" using s(1) assms(2)
    by (rule each_keeps) (erule mark_args_keeps, assumption, metis func_args_insts outer_may prod.collapse)
  then have i2: "I s2" by (rule entry_keeps[OF s(2)])
  have "same_calls s s1" using s(1) by (rule each_calls) (rule mark_args_calls)
  then have ok2: "calls_ok p s2"
    using assms(3) MarkEntry_calls[OF s(2)] by (auto simp: same_calls_def intro: calls_ok_same)
  have "I s3"
    using s(3) i2 call_loop_keeps[of A F p _ "[(c, cont)]" "{}" s2 s3] ok2 assms(4) by (auto split: option.splits)
  then show ?thesis unfolding s(4) by (rule add) (rule assms(4))
qed

text \<open>One visit. The call sites of the program are calls and invokes when they have a continuation.\<close>

lemma call_keeps:
  assumes "VisitCallInst A F p i callee args cont s = returns s'" "I s" "calls_ok p s" "outer_inst (p_inst p i)"
  shows "I s'"
proof -
  have o: "I s'" if h: "andThen (MarkOverdefined A F p i s) (MarkEdge A F p i cont) = returns s'"
    using h assms(2) outer_may[OF assms(4)] by (auto simp: andThen_returns dest!: over_keeps intro: edge_own)
  show ?thesis using assms unfolding VisitCallInst_def
    by (cases "vals s callee") (auto split: if_splits global_kind.splits dest: o MarkCall_keeps)
qed

lemma tail_call_keeps:
  assumes "VisitTailCallInst A F p i callee args ts conv s = returns s'" "I s" "calls_ok p s"
  shows "I s'"
proof -
  have o: "I s'" if h: "over_loop A F p ts [inst_func p i] {} s = returns s'"
    by (rule over_loop_keeps[OF h refl refl refl assms(3,2)])
  have c: "I s'" if h: "MarkCall A F p i f None s = returns s'" for f
    by (rule MarkCall_keeps[OF h assms(2,3)]) simp
  show ?thesis using assms(1,2) unfolding VisitTailCallInst_def Let_def
    by (auto split: if_splits global_kind.splits dest: o c simp del: over_loop.simps)
qed

lemma invoke_keeps:
  assumes "VisitInvokeInst A F p i callee args cont throw s = returns s'" "I s" "calls_ok p s" "outer_inst (p_inst p i)"
  shows "I s'"
proof -
  have o: "I s'" if h: "andThen (MarkOverdefined A F p i s) (\<lambda>s. andThen (MarkEdge A F p i a s) (MarkEdge A F p i b)) = returns s'" for a b
    using h assms(2) outer_may[OF assms(4)] by (auto simp: andThen_returns dest!: over_keeps dest: edge_own)
  have c: "I s'" if h: "andThen (MarkCall A F p i f (Some cont) s) (MarkEdge A F p i throw) = returns s'" for f
    using h assms(2-4) by (auto simp: andThen_returns dest!: MarkCall_keeps intro: edge_own)
  show ?thesis using assms(1,2) unfolding VisitInvokeInst_def
    by (cases "vals s callee") (auto split: if_splits global_kind.splits dest: o c)
qed

lemma Dispatch_keeps:
  assumes "Dispatch A F C p i s = returns s'" "I s" "calls_ok p s" "may i"
  shows "I s'"
proof (cases "p_inst p i")
  case (S_CALL callee args ts cont)
  then show ?thesis using assms call_keeps[of i callee args cont s s'] by (simp add: Dispatch_def outer_inst_def)
next
  case (S_INVOKE callee args ts cont throw)
  then show ?thesis using assms invoke_keeps[of i callee args cont throw s s'] by (simp add: Dispatch_def outer_inst_def)
next
  case (S_TAIL_CALL callee args ts conv)
  then show ?thesis using assms tail_call_keeps[of i callee args ts conv s s'] by (simp add: Dispatch_def)
next
  case (S_RETURN args)
  then show ?thesis using assms return_loop_keeps[of A F p args "[(None, inst_func p i)]" "{}" s s']
    by (simp add: Dispatch_def del: return_loop.simps)
qed (use assms in \<open>auto simp: Dispatch_def andThen_returns split: if_splits option.splits
    intro: mark_own over_keeps edge_own phi_keeps jump_cond_keeps switch_keeps cpuid_keeps\<close>)

lemma init_func_keeps:
  assumes "init_func A F p g s = returns s'" "I s"
  shows "I s'"
proof -
  have "may i" if "i \<in> set (concat (map snd (func_args p f)))" for i f
    using that func_args_insts outer_may by fastforce
  then show ?thesis
    using assms unfolding init_func_def
    by (auto simp: andThen_returns split: if_splits dest!: entry_keeps elim!: each_keeps intro: over_keeps)
qed

end

text \<open>The call graph stays well formed, and a visit is a step that wakes what it changes.\<close>

lemma same_calls_ok: "same_calls s s' \<Longrightarrow> calls_ok p s \<Longrightarrow> calls_ok p s'"
  by (auto simp: same_calls_def intro: calls_ok_same)

interpretation graph: step_invariant A F p "\<lambda>_. True" "calls_ok p"
  for A :: "'i apint_ops" and F :: "('i, 'f) apfloat_ops" and p
proof unfold_locales
  show "calls_ok p s \<Longrightarrow> Mark A F p r v s = returns s' \<Longrightarrow> calls_ok p s'" for r v s s'
    by (rule same_calls_ok[OF Mark_calls])
  show "calls_ok p s \<Longrightarrow> MarkEdge A F p i b s = returns s' \<Longrightarrow> calls_ok p s'" for i b s s'
    by (rule same_calls_ok[OF MarkEdge_calls])
  show "calls_ok p s \<Longrightarrow> calls_ok p (fst (MarkBlock b s))" for b s
    by (rule calls_ok_same) (simp_all add: MarkBlock_def)
qed (auto intro: calls_ok_same calls_ok_add)

definition visit_own :: "('i, 'f) sprog \<Rightarrow> nat \<Rightarrow> nat \<Rightarrow> bool" where
  "visit_own p i j \<longleftrightarrow> j = i \<or> is_phi (p_inst p j) \<or> outer_inst (p_inst p j)"

lemma visit_own_simps [simp]: "visit_own p i i" "outer_inst (p_inst p j) \<Longrightarrow> visit_own p i j"
    "is_phi (p_inst p j) \<Longrightarrow> visit_own p i j"
  by (auto simp: visit_own_def)

interpretation wake: step_invariant A F p "visit_own p i" "good_step p (visit_own p i) s0"
  for A :: "'i apint_ops" and F :: "('i, 'f) apfloat_ops" and p i and s0 :: "('i, 'f) sccp_state"
proof unfold_locales
  show "good_step p (visit_own p i) s0 s'" if "good_step p (visit_own p i) s0 s" "visit_own p i (fst r)"
      "Mark A F p r v s = returns s'" for r v s s'
    using that(1) by (rule good_step_trans) (rule Mark_good[OF that(3)], rule that(2))
  show "good_step p (visit_own p i) s0 s'" if "good_step p (visit_own p i) s0 s" "MarkEdge A F p j b s = returns s'"
    for j b s s'
    using that(1) by (rule good_step_trans)
      (rule MarkEdge_good[OF that(2)], auto dest: block_phis_subset)
  show "good_step p (visit_own p i) s0 (fst (MarkBlock b s))" if "good_step p (visit_own p i) s0 s" for b s
    using that by (rule good_step_trans) (rule MarkBlock_good)
  show "good_step p (visit_own p i) s0 s'" if "good_step p (visit_own p i) s0 s" "vals s' = vals s"
      "edges s' = edges s" "executable s' = executable s" "blockList s' = blockList s"
      "bottomList s' = bottomList s" "instList s' = instList s" for s s'
    using that(1) by (rule good_step_trans) (rule other_good[OF that(2-)])
  show "good_step p (visit_own p i) s0 (add_call f (c, cont) s)" if "good_step p (visit_own p i) s0 s" for s c cont f
    using that by (rule good_step_trans) (rule other_good, simp_all add: add_call_def)
qed simp

lemma Dispatch_calls_ok: "Dispatch A F C p i s = returns s' \<Longrightarrow> calls_ok p s \<Longrightarrow> calls_ok p s'"
  by (rule graph.Dispatch_keeps) simp_all

lemma Dispatch_good: "Dispatch A F C p i s = returns s' \<Longrightarrow> calls_ok p s \<Longrightarrow> good_step p (visit_own p i) s s'"
  by (erule wake.Dispatch_keeps) (auto simp: visit_own_def)

end
