(* ===== verification/SccpSettled.thy ===== *)
theory SccpSettled
  imports SccpSolved
begin

text \<open>
  What the solver of \<open>SccpSolver\<close> establishes: when the worklists are empty, every instruction of an
  executable block is settled, its value is that of its transfer function on the values of its operands,
  and the edges its terminator can take are marked.
\<close>

subsection \<open>Settled instructions\<close>

text \<open>The instructions without a part in the propagation through calls.\<close>

definition plain_inst :: "('i, 'f) sinst \<Rightarrow> bool" where
  "plain_inst i = (case i of
     S_CALL _ _ _ _ \<Rightarrow> False | S_TAIL_CALL _ _ _ _ \<Rightarrow> False | S_INVOKE _ _ _ _ _ \<Rightarrow> False | S_RETURN _ \<Rightarrow> False
   | _ \<Rightarrow> True)"

text \<open>
  The value of an instruction is that of its transfer function on the current values of its operands, or
  an operand is unknown; the edges the terminator may take are marked. Nothing is said of the instructions
  whose values come from other functions, and of \<^verbatim>\<open>cpuid\<close>.
\<close>

definition has_value :: "'i apint_ops \<Rightarrow> ('i, 'f) apfloat_ops \<Rightarrow> ('i, 'f) sccp_state \<Rightarrow> reg \<Rightarrow>
    ('i, 'f) lattice result \<Rightarrow> bool" where
  "has_value A F s r res \<longleftrightarrow> (\<exists>v. res = returns v \<and> lattice_eq A F (vals s r) v)"

definition open_inst :: "('i, 'f) sinst \<Rightarrow> bool" where
  "open_inst i \<longleftrightarrow> \<not> plain_inst i \<or> outer_inst i \<or> (\<exists>ts leaf sub. i = S_CPUID ts leaf sub)"

definition jump_cond_settled :: "'i apint_ops \<Rightarrow> ('i, 'f) apfloat_ops \<Rightarrow> nat \<Rightarrow> ('i, 'f) lattice \<Rightarrow> nat \<Rightarrow> nat \<Rightarrow>
    ('i, 'f) sccp_state \<Rightarrow> bool" where
  "jump_cond_settled A F b c bt bf s \<longleftrightarrow>
     (if IsUnknown c then True
      else if IsUndefined c then (b, bf) \<in> edges s
      else \<exists>t f. IsTrue A F c = returns t \<and> IsFalse A F c = returns f \<and>
        (\<not> t \<longrightarrow> (b, bf) \<in> edges s) \<and> (\<not> f \<longrightarrow> (b, bt) \<in> edges s))"

definition switch_settled :: "'i apint_ops \<Rightarrow> nat \<Rightarrow> ('i, 'f) lattice \<Rightarrow> nat list \<Rightarrow> ('i, 'f) sccp_state \<Rightarrow> bool" where
  "switch_settled A b v bs s \<longleftrightarrow>
     (case v of
        LUnknown \<Rightarrow> True
      | LInt k \<Rightarrow>
          (let index = sint (ap_getSExtValue A k) in
           index < int (length bs) \<longrightarrow> 0 \<le> index \<and> (b, bs ! nat index) \<in> edges s)
      | LUndefined \<Rightarrow> bs \<noteq> [] \<and> (b, hd bs) \<in> edges s
      | _ \<Rightarrow> \<forall>t \<in> set bs. (b, t) \<in> edges s)"

definition settled :: "'i apint_ops \<Rightarrow> ('i, 'f) apfloat_ops \<Rightarrow> ('i, 'f) float_ctors \<Rightarrow> ('i, 'f) sprog \<Rightarrow> nat \<Rightarrow>
    ('i, 'f) sccp_state \<Rightarrow> bool" where
  "settled A F C p i s \<longleftrightarrow>
     (case p_inst p i of
        S_LOAD t addr \<Rightarrow> has_value A F s (i, 0) (VisitLoadInst A C p t (vals s addr))
      | S_UNARY k t arg \<Rightarrow> IsUnknown (vals s arg) \<or> has_value A F s (i, 0) (EvalUnary A F k t (vals s arg))
      | S_BINARY k t lhs rhs \<Rightarrow> IsUnknown (vals s lhs) \<or> IsUnknown (vals s rhs) \<or>
          has_value A F s (i, 0) (EvalBinary A F (p_align p) k t (vals s lhs) (vals s rhs))
      | S_CMP cc t lhs rhs \<Rightarrow>
          (case VisitCmpInst A F cc t (vals s lhs) (vals s rhs) of None \<Rightarrow> True | Some r \<Rightarrow> has_value A F s (i, 0) r)
      | S_JUMP b \<Rightarrow> (p_block p i, b) \<in> edges s
      | S_JUMP_COND c bt bf \<Rightarrow> jump_cond_settled A F (p_block p i) (vals s c) bt bf s
      | S_SWITCH idx bs \<Rightarrow> switch_settled A (p_block p i) (vals s idx) bs s
      | S_SELECT t c vt vf \<Rightarrow> IsUnknown (vals s c) \<or> IsUnknown (vals s vt) \<or> IsUnknown (vals s vf) \<or>
          has_value A F s (i, 0) (select_value A F (vals s c) (vals s vt) (vals s vf))
      | S_FRAME t obj off \<Rightarrow> has_value A F s (i, 0) (returns (LFrame obj off))
      | S_MOV t arg \<Rightarrow> has_value A F s (i, 0) (mov_value A F C t arg s)
      | S_UNDEF t \<Rightarrow> has_value A F s (i, 0) (returns LUndefined)
      | S_PHI t ins \<Rightarrow> IsOverdefined (vals s (i, 0)) \<or>
          has_value A F s (i, 0) (returns (phi_value A F (p_block p i) ins s))
      | inst \<Rightarrow> open_inst inst \<or> (\<forall>k < GetNumRets inst. has_value A F s (i, k) (returns LOverdefined)))"

lemma settled_open: "open_inst (p_inst p i) \<Longrightarrow> settled A F C p i s"
  by (cases "p_inst p i") (auto simp: settled_def open_inst_def plain_inst_def outer_inst_def)

text \<open>It lasts while operands, value and the edges into the block of a PHI do not change.\<close>

lemma phi_value_cong:
  assumes "\<And>from r. (from, r) \<in> set ins \<Longrightarrow> vals s' r = vals s r" "\<And>from. (from, b) \<in> edges s' \<longleftrightarrow> (from, b) \<in> edges s"
  shows "phi_value A F b ins s' = phi_value A F b ins s"
  unfolding phi_value_def using assms by (intro foldl_cong) auto

lemma settled_stable:
  assumes "settled A F C p i s" "edges s \<subseteq> edges s'"
    and "\<And>r. r \<in> set (operands (p_inst p i)) \<Longrightarrow> vals s' r = vals s r" "\<And>k. vals s' (i, k) = vals s (i, k)"
    and "\<And>from. is_phi (p_inst p i) \<Longrightarrow> (from, p_block p i) \<in> edges s' \<longleftrightarrow> (from, p_block p i) \<in> edges s"
  shows "settled A F C p i s'"
proof (cases "p_inst p i")
  case (S_PHI t ins)
  then have "phi_value A F (p_block p i) ins s' = phi_value A F (p_block p i) ins s"
    using assms(3,5) by (intro phi_value_cong) force+
  then show ?thesis using assms(1,4) S_PHI by (simp add: settled_def has_value_def)
next
  case (S_JUMP_COND c bt bf)
  then show ?thesis using assms(1,2,3) by (auto simp: settled_def jump_cond_settled_def split: if_splits)
next
  case (S_SWITCH idx bs)
  then show ?thesis using assms(1,2,3) by (auto simp: settled_def switch_settled_def Let_def split: lattice.splits)
next
  case (S_MOV t arg)
  then have "mov_value A F C t arg s' = mov_value A F C t arg s"
    using assms(3) by (auto simp: mov_value_def split: mov_arg.splits)
  then show ?thesis using assms(1,4) S_MOV by (simp add: settled_def has_value_def)
qed (use assms in \<open>auto simp: settled_def has_value_def split: option.splits\<close>)

subsection \<open>Progress\<close>

text \<open>In the executable blocks that are not queued, every instruction is settled, pending or queued.\<close>

definition progress :: "'i apint_ops \<Rightarrow> ('i, 'f) apfloat_ops \<Rightarrow> ('i, 'f) float_ctors \<Rightarrow> ('i, 'f) sprog \<Rightarrow> nat set \<Rightarrow>
    ('i, 'f) sccp_state \<Rightarrow> bool" where
  "progress A F C p P s \<longleftrightarrow>
     (\<forall>b i. b \<in> executable s \<longrightarrow> b \<notin> set (blockList s) \<longrightarrow> i \<in> set (p_insts p b) \<longrightarrow>
        settled A F C p i s \<or> i \<in> P \<or> i \<in> queued s)"

lemma progressI:
  assumes "\<And>b i. b \<in> executable s \<Longrightarrow> b \<notin> set (blockList s) \<Longrightarrow> i \<in> set (p_insts p b) \<Longrightarrow> i \<notin> P \<Longrightarrow>
    i \<notin> queued s \<Longrightarrow> settled A F C p i s"
  shows "progress A F C p P s"
  using assms unfolding progress_def by blast

lemma progressD:
  "progress A F C p P s \<Longrightarrow> b \<in> executable s \<Longrightarrow> b \<notin> set (blockList s) \<Longrightarrow> i \<in> set (p_insts p b) \<Longrightarrow> i \<notin> P \<Longrightarrow>
    i \<notin> queued s \<Longrightarrow> settled A F C p i s"
  unfolding progress_def by blast

lemma Mark_fields:
  assumes "Mark A F p r v s = returns s'"
  shows "edges s' = edges s" "executable s' = executable s" "blockList s' = blockList s" "queued s \<subseteq> queued s'"
    "\<And>r'. r' \<noteq> r \<Longrightarrow> vals s' r' = vals s r'"
    "\<And>j. vals s' r \<noteq> vals s r \<Longrightarrow> j \<in> set (reg_users p r) \<Longrightarrow> p_block p j \<in> executable s \<Longrightarrow> j \<in> queued s'"
    "vals s' r = vals s r \<and> lattice_eq A F (vals s r) v \<or> vals s' r = v"
  using assms by (auto simp: Mark_def Let_def queued_def split: if_splits)

lemma progress_mark:
  assumes "prog_ok p" "progress A F C p P s" "Mark A F p r v s = returns s'"
    and "fst r \<in> P \<or> open_inst (p_inst p (fst r))"
  shows "progress A F C p P s'"
proof (rule progressI)
  fix b i assume b: "b \<in> executable s'" "b \<notin> set (blockList s')" "i \<in> set (p_insts p b)" "i \<notin> P" "i \<notin> queued s'"
  note f = Mark_fields[OF assms(3)]
  show "settled A F C p i s'"
  proof (cases "open_inst (p_inst p i)")
    case False
    then have i: "i \<noteq> fst r" using b(4) assms(4) by blast
    have "settled A F C p i s" by (rule progressD[OF assms(2)]) (use b f(2,3,4) in auto)
    then show ?thesis
    proof (rule settled_stable)
      fix r' assume "r' \<in> set (operands (p_inst p i))"
      then have "i \<in> set (reg_users p r')" "p_block p i = b" using prog_okD[OF assms(1) b(3)] by auto
      then show "vals s' r' = vals s r'" using f(5)[of r'] f(6)[of i] b f(2) by (cases "r' = r") auto
    next
      show "vals s' (i, k) = vals s (i, k)" for k using f(5)[of "(i, k)"] i by (cases r) auto
    qed (use f in auto)
  qed (rule settled_open)
qed

definition solver_inv :: "'i apint_ops \<Rightarrow> ('i, 'f) apfloat_ops \<Rightarrow> ('i, 'f) float_ctors \<Rightarrow> ('i, 'f) sprog \<Rightarrow>
    ('i, 'f) sccp_state \<Rightarrow> bool" where
  "solver_inv A F C p s \<longleftrightarrow> solver_ok p s \<and> calls_ok p s \<and> progress A F C p {} s"

text \<open>A block becomes executable only when it is queued.\<close>

lemma progress_block:
  assumes "progress A F C p P s"
  shows "progress A F C p P (fst (MarkBlock b s))"
proof (rule progressI)
  fix b' i assume b: "b' \<in> executable (fst (MarkBlock b s))" "b' \<notin> set (blockList (fst (MarkBlock b s)))"
    "i \<in> set (p_insts p b')" "i \<notin> P" "i \<notin> queued (fst (MarkBlock b s))"
  then have "settled A F C p i s"
    by (intro progressD[OF assms, of b']) (auto simp: MarkBlock_def queued_def split: if_splits)
  then show "settled A F C p i (fst (MarkBlock b s))"
    by (rule settled_stable) (auto simp: MarkBlock_def)
qed

context numbers
begin

lemma VisitPhi_settles:
  assumes "VisitPhiInst A F p i s = returns s'" "prog_ok p" "i \<in> set (p_insts p b)" "b \<in> executable s" "i \<notin> queued s'"
  shows "settled A F C p i s'"
proof -
  obtain t ins where i: "p_inst p i = S_PHI t ins" using assms(1) by (auto simp: VisitPhiInst_def split: sinst.splits)
  show ?thesis
  proof (cases "IsOverdefined (vals s (i, 0))")
    case True
    then show ?thesis using assms(1) i by (simp add: VisitPhiInst_def settled_def)
  next
    case False
    let ?v = "phi_value A F (p_block p i) ins s"
    have m: "Mark A F p (i, 0) ?v s = returns s'" using assms(1) i False by (simp add: VisitPhiInst_def)
    note f = Mark_fields[OF m]
    have same: "vals s' r = vals s r" if "r \<in> set (operands (p_inst p i))" for r
      using f(5)[of r] f(6)[of i] prog_okD[OF assms(2,3)] that assms(4,5) by (cases "r = (i, 0)") auto
    have "phi_value A F (p_block p i) ins s' = ?v" using same i f(1) by (intro phi_value_cong) force+
    moreover have "lattice_eq A F (vals s' (i, 0)) ?v" using f(7) lattice_eq_refl by metis
    ultimately show ?thesis using i by (simp add: settled_def has_value_def)
  qed
qed

lemma progress_phi:
  assumes "prog_ok p" "progress A F C p (insert i P) s" "VisitPhiInst A F p i s = returns s'"
  shows "progress A F C p P s'"
proof (rule progressI)
  fix b j assume b: "b \<in> executable s'" "b \<notin> set (blockList s')" "j \<in> set (p_insts p b)" "j \<notin> P" "j \<notin> queued s'"
  have e: "executable s' = executable s"
    using assms(3) by (auto simp: VisitPhiInst_def split: sinst.splits if_splits dest: Mark_fields(2))
  have "progress A F C p (insert i P) s'"
    using assms(3) assms(2) by (auto simp: VisitPhiInst_def split: sinst.splits if_splits dest: progress_mark[OF assms(1)])
  show "settled A F C p j s'"
  proof (cases "j = i")
    case True
    then show ?thesis using VisitPhi_settles[OF assms(3,1)] b e by blast
  next
    case False
    then show ?thesis using b by (intro progressD[OF \<open>progress A F C p (insert i P) s'\<close>]) auto
  qed
qed

lemma progress_phis:
  assumes "prog_ok p" "each (VisitPhiInst A F p) xs s = returns s'" "progress A F C p (set xs \<union> P) s"
  shows "progress A F C p P s'"
  using assms(2,3)
proof (induction xs arbitrary: s)
  case (Cons x xs)
  then obtain s1 where "VisitPhiInst A F p x s = returns s1" "each (VisitPhiInst A F p) xs s1 = returns s'"
    by (auto simp: andThen_returns)
  then show ?case using Cons.IH progress_phi[OF assms(1)] Cons.prems(2) by simp
qed simp

lemma progress_edge:
  assumes ok: "prog_ok p" and pr: "progress A F C p P s" and e: "MarkEdge A F p i b s = returns s'"
  shows "progress A F C p P s'"
proof (cases "(p_block p i, b) \<in> edges s")
  case False
  let ?s1 = "s\<lparr>edges := insert (p_block p i, b) (edges s)\<rparr>"
  have s1: "progress A F C p (set (block_phis p b) \<union> P) ?s1"
  proof (rule progressI)
    fix b' j assume b': "b' \<in> executable ?s1" "b' \<notin> set (blockList ?s1)" "j \<in> set (p_insts p b')"
      "j \<notin> set (block_phis p b) \<union> P" "j \<notin> queued ?s1"
    then have "settled A F C p j s" by (intro progressD[OF pr]) (auto simp: queued_def)
    then show "settled A F C p j ?s1"
    proof (rule settled_stable)
      fix a assume "is_phi (p_inst p j)"
      then have "p_block p j \<noteq> b" using b' prog_okD[OF ok b'(3)] by auto
      then show "(a, p_block p j) \<in> edges ?s1 \<longleftrightarrow> (a, p_block p j) \<in> edges s" by simp
    qed auto
  qed
  show ?thesis
  proof (cases "b \<in> executable s")
    case True
    then have "each (VisitPhiInst A F p) (block_phis p b) ?s1 = returns s'"
      using e False by (simp add: MarkEdge_def MarkBlock_def)
    then show ?thesis using progress_phis[OF ok _ s1] by blast
  next
    case new: False
    then have s': "s' = fst (MarkBlock b ?s1)" using e False by (simp add: MarkEdge_def MarkBlock_def)
    have "progress A F C p P ?s1"
    proof (rule progressI)
      fix b' j assume b': "b' \<in> executable ?s1" "b' \<notin> set (blockList ?s1)" "j \<in> set (p_insts p b')"
        "j \<notin> P" "j \<notin> queued ?s1"
      have "j \<notin> set (block_phis p b)"
        using b'(1,3) new prog_okD(1)[OF ok] block_phis_subset[of j p b] by auto
      then show "settled A F C p j ?s1" using b' by (intro progressD[OF s1]) auto
    qed
    then show ?thesis unfolding s' by (rule progress_block)
  qed
qed (use e pr in \<open>simp add: MarkEdge_def\<close>)

lemma progress_invariant:
  assumes "prog_ok p"
  shows "step_invariant A F p (\<lambda>j. j \<in> P \<or> open_inst (p_inst p j)) (progress A F C p P)"
proof
  show "progress A F C p P s'" if "progress A F C p P s" "vals s' = vals s" "edges s' = edges s"
      "executable s' = executable s" "blockList s' = blockList s" "bottomList s' = bottomList s" "instList s' = instList s" for s s'
  proof (rule progressI)
    fix b i assume b: "b \<in> executable s'" "b \<notin> set (blockList s')" "i \<in> set (p_insts p b)" "i \<notin> P" "i \<notin> queued s'"
    then have "settled A F C p i s" using that by (intro progressD[OF that(1)]) (auto simp: queued_def)
    then show "settled A F C p i s'" by (rule settled_stable) (use that in auto)
  qed
  then show "progress A F C p P (add_call f (c, cont) s)" if "progress A F C p P s" for s f c cont
    using that by (simp add: add_call_def)
next
  show "progress A F C p P s'" if "progress A F C p P s" "fst r \<in> P \<or> open_inst (p_inst p (fst r))"
      "Mark A F p r v s = returns s'" for s r v s'
    by (rule progress_mark[OF assms that(1,3,2)])
  show "progress A F C p P s'" if "progress A F C p P s" "MarkEdge A F p i b s = returns s'" for s i b s'
    by (rule progress_edge[OF assms that])
qed (auto simp: open_inst_def intro: progress_block)

text \<open>A visit settles its instruction, unless it queues it again.\<close>

lemma Mark_has: "Mark A F p r v s = returns s' \<Longrightarrow> has_value A F s' r (returns v)"
  using Mark_fields(7)[of A F p r v s s'] lattice_eq_refl by (auto simp: has_value_def)

lemma each_Mark_has:
  assumes "each (\<lambda>k. Mark A F p (i, k) v) ks s = returns s'" "k \<in> set ks \<or> has_value A F s (i, k) (returns v)"
  shows "has_value A F s' (i, k) (returns v)"
  using assms
proof (induction ks arbitrary: s)
  case (Cons x ks)
  then obtain s1 where s1: "Mark A F p (i, x) v s = returns s1" "each (\<lambda>k. Mark A F p (i, k) v) ks s1 = returns s'"
    by (auto simp: andThen_returns)
  have "k \<in> set ks \<or> has_value A F s1 (i, k) (returns v)"
  proof (cases "k = x")
    case False
    then show ?thesis using Cons.prems(2) Mark_fields(5)[OF s1(1), of "(i, k)"] by (auto simp: has_value_def)
  qed (use Mark_has[OF s1(1)] in simp)
  then show ?case using Cons.IH[OF s1(2)] by blast
qed simp

lemma MarkEdge_has: "MarkEdge A F p i b s = returns s' \<Longrightarrow> (p_block p i, b) \<in> edges s'"
proof -
  assume e: "MarkEdge A F p i b s = returns s'"
  have "edges s1 \<subseteq> edges s2" if "each (VisitPhiInst A F p) xs s1 = returns s2" for xs s1 s2
    by (rule each_preserves[OF that, where P = "\<lambda>s. edges s1 \<subseteq> edges s"])
      (auto simp: VisitPhiInst_def split: sinst.splits if_splits dest: Mark_fields(1))
  then show ?thesis using e by (fastforce simp: MarkEdge_def MarkBlock_def split: if_splits)
qed

lemma good_edges: "good_step p own s s' \<Longrightarrow> edges s \<subseteq> edges s'"
  by (simp add: good_step_def wakes_def)

lemma each_MarkEdge_has:
  assumes "each (MarkEdge A F p i) bs s = returns s'" "b \<in> set bs \<or> (p_block p i, b) \<in> edges s"
  shows "(p_block p i, b) \<in> edges s'"
  using assms
proof (induction bs arbitrary: s)
  case (Cons x bs)
  then obtain s1 where s1: "MarkEdge A F p i x s = returns s1" "each (MarkEdge A F p i) bs s1 = returns s'"
    by (auto simp: andThen_returns)
  have "edges s \<subseteq> edges s1" by (rule good_edges[OF MarkEdge_good[OF s1(1), of "\<lambda>_. True"]]) simp
  then show ?case using Cons.IH[OF s1(2)] Cons.prems(2) MarkEdge_has[OF s1(1)] by auto
qed simp

lemma operands_same:
  assumes "good_step p own s s'" "prog_ok p" "i \<in> set (p_insts p b)" "b \<in> executable s" "i \<notin> queued s'"
    and "r \<in> set (operands (p_inst p i))"
  shows "vals s' r = vals s r"
  using assms prog_okD[OF assms(2,3)] unfolding good_step_def wakes_def by metis

lemma jump_cond_settles:
  assumes v: "VisitJumpCondInst A F p i c bt bf s = returns s'" and p: "prog_ok p" "p_inst p i = S_JUMP_COND c bt bf"
    and b: "i \<in> set (p_insts p b)" "b \<in> executable s" "i \<notin> queued s'"
  shows "settled A F C p i s'"
proof -
  have same: "vals s2 c = vals s1 c" if "good_step p (visit_own p i) s1 s2" "b \<in> executable s1" "i \<notin> queued s2" for s1 s2
    using operands_same[OF that(1) p(1) b(1) that(2,3)] p(2) by simp
  have edge: "good_step p (visit_own p i) s1 s2 \<and> (p_block p i, t) \<in> edges s2" if "MarkEdge A F p i t s1 = returns s2" for t s1 s2
    using wake.edge_own[OF that good_step_refl] MarkEdge_has[OF that] by simp
  note step = good_step_def wakes_def
  consider (unknown) "IsUnknown (vals s c)" "s' = s"
    | (undefined) "\<not> IsUnknown (vals s c)" "IsUndefined (vals s c)" "MarkEdge A F p i bf s = returns s'"
    | (test) t s1 f where "\<not> IsUnknown (vals s c)" "\<not> IsUndefined (vals s c)" "IsTrue A F (vals s c) = returns t"
        "(if \<not> t then MarkEdge A F p i bf s else returns s) = returns s1" "IsFalse A F (vals s1 c) = returns f"
        "(if \<not> f then MarkEdge A F p i bt s1 else returns s1) = returns s'"
    using v unfolding VisitJumpCondInst_def andThen_returns
    by (cases "IsUnknown (vals s c)"; cases "IsUndefined (vals s c)"; simp only: if_True if_False not_True_eq_False
        simp_thms sum.inject andThen_returns) blast+
  then show ?thesis
  proof cases
    case unknown
    then show ?thesis by (simp add: settled_def p(2) jump_cond_settled_def)
  next
    case undefined
    then show ?thesis using edge[OF undefined(3)] same[of s s'] b by (simp add: settled_def p(2) jump_cond_settled_def)
  next
    case test
    have g1: "good_step p (visit_own p i) s s1" and e1: "\<not> t \<longrightarrow> (p_block p i, bf) \<in> edges s1"
      using test(4) edge by (auto split: if_splits)
    have g2: "good_step p (visit_own p i) s1 s'" and e2: "\<not> f \<longrightarrow> (p_block p i, bt) \<in> edges s'"
      using test(6) edge by (auto split: if_splits)
    have "b \<in> executable s1" "queued s1 \<subseteq> queued s'" using g1 g2 b(2) unfolding step by blast+
    then have "vals s1 c = vals s c" "vals s' c = vals s1 c" using same g1 g2 b by blast+
    then show ?thesis using test e1 e2 good_edges[OF g2] by (auto simp: settled_def p(2) jump_cond_settled_def)
  qed
qed

lemma switch_settles:
  assumes "VisitSwitchInst A F p i idx bs s = returns s'" "p_inst p i = S_SWITCH idx bs" "vals s' idx = vals s idx"
  shows "settled A F C p i s'"
proof -
  have all: "\<forall>t \<in> set bs. (p_block p i, t) \<in> edges s'" if "each (MarkEdge A F p i) bs s = returns s'"
    using each_MarkEdge_has[OF that] by blast
  have settled: "settled A F C p i s' \<longleftrightarrow> switch_settled A (p_block p i) (vals s idx) bs s'"
    by (simp add: settled_def assms(2,3))
  show ?thesis
  proof (cases "vals s idx")
    case LUndefined
    then show ?thesis using assms(1) unfolding settled
      by (cases bs) (auto simp: VisitSwitchInst_def switch_settled_def dest: MarkEdge_has)
  next
    case (LInt k)
    then show ?thesis using assms(1) unfolding settled
      by (auto simp: VisitSwitchInst_def switch_settled_def Let_def split: if_splits dest: MarkEdge_has)
  qed (use assms(1) all in \<open>simp_all add: settled VisitSwitchInst_def switch_settled_def\<close>)
qed

lemma Dispatch_settles:
  assumes d: "Dispatch A F C p i s = returns s'" and ok: "calls_ok p s" "prog_ok p"
    and b: "i \<in> set (p_insts p b)" "b \<in> executable s" "i \<notin> queued s'"
  shows "settled A F C p i s'"
proof -
  have same: "vals s' r = vals s r" if "r \<in> set (operands (p_inst p i))" for r
    by (rule operands_same[OF Dispatch_good[OF d ok(1)] ok(2) b that])
  have over: "MarkOverdefined A F p i s = returns s' \<Longrightarrow> k < GetNumRets (p_inst p i) \<Longrightarrow>
      has_value A F s' (i, k) (returns LOverdefined)" for k
    unfolding MarkOverdefined_def by (erule each_Mark_has) simp
  show ?thesis
  proof (cases "open_inst (p_inst p i)")
    case False
    show ?thesis
    proof (cases "p_inst p i")
      case (S_PHI t ins)
      then show ?thesis using d VisitPhi_settles[OF _ ok(2) b] by (simp add: Dispatch_def)
    next
      case (S_JUMP_COND c bt bf)
      then show ?thesis using d jump_cond_settles[OF _ ok(2) _ b] by (simp add: Dispatch_def)
    next
      case (S_SWITCH idx bs)
      then show ?thesis using d switch_settles[OF _ S_SWITCH same[of idx]] by (simp add: Dispatch_def)
    next
      case (S_MOV t arg)
      then have "mov_value A F C t arg s' = mov_value A F C t arg s"
        using same by (auto simp: mov_value_def split: mov_arg.splits)
      then show ?thesis using d S_MOV by (auto simp: Dispatch_def settled_def andThen_returns dest!: Mark_has)
    next
      case (S_CMP cc t lhs rhs)
      then show ?thesis using d same
        by (auto simp: Dispatch_def settled_def andThen_returns split: option.splits dest!: Mark_has)
    qed (use d same False over MarkEdge_has in \<open>auto simp: Dispatch_def settled_def andThen_returns open_inst_def
        plain_inst_def outer_inst_def split: if_splits dest!: Mark_has\<close>)
  qed (rule settled_open)
qed

lemma progress_visit:
  assumes "Dispatch A F C p i s = returns s'" "calls_ok p s" "prog_ok p" "progress A F C p (insert i P) s"
    and "i \<in> set (p_insts p (p_block p i)) \<Longrightarrow> p_block p i \<in> executable s"
  shows "progress A F C p P s'"
proof (rule progressI)
  fix b j assume b: "b \<in> executable s'" "b \<notin> set (blockList s')" "j \<in> set (p_insts p b)" "j \<notin> P" "j \<notin> queued s'"
  have pr: "progress A F C p (insert i P) s'"
    by (rule step_invariant.Dispatch_keeps[OF progress_invariant[OF assms(3)] assms(1,4,2)]) simp
  show "settled A F C p j s'"
  proof (cases "j = i")
    case True
    have "p_block p i = b" using prog_okD(1)[OF assms(3)] b(3) True by blast
    then show ?thesis using Dispatch_settles[OF assms(1-3), of b] b assms(5) True by simp
  next
    case False
    then show ?thesis using b by (intro progressD[OF pr]) auto
  qed
qed

lemma Visit_keeps:
  assumes "Visit A F C p i s = returns s'" "prog_ok p" "solver_ok p s" "calls_ok p s" "progress A F C p (insert i P) s"
  shows "solver_ok p s' \<and> calls_ok p s' \<and> progress A F C p P s'"
proof -
  have d: "Dispatch A F C p i s = returns s'" "p_block p i \<in> executable s"
    using assms(1) by (auto simp: Visit_def split: if_splits)
  have "solver_ok p s'" using Dispatch_good[OF d(1) assms(4)] assms(3) by (simp add: good_step_def)
  then show ?thesis
    using Dispatch_calls_ok[OF d(1) assms(4)] progress_visit[OF d(1) assms(4,2,5)] d(2) by blast
qed

lemma popped_progress:
  assumes "progress A F C p {} s" "executable s0 = executable s" "blockList s0 = blockList s" "edges s0 = edges s"
    "vals s0 = vals s" "queued s \<subseteq> insert i (queued s0)"
  shows "progress A F C p {i} s0"
proof (rule progressI)
  fix b j assume "b \<in> executable s0" "b \<notin> set (blockList s0)" "j \<in> set (p_insts p b)" "j \<notin> {i}" "j \<notin> queued s0"
  then have "settled A F C p j s" using assms by (intro progressD[OF assms(1)]) auto
  then show "settled A F C p j s0" by (rule settled_stable) (simp_all add: assms)
qed

lemma pop_bottom_keeps:
  assumes "pop_bottom A F C p s = returns s'" "prog_ok p" "solver_inv A F C p s" "bottomList s \<noteq> []"
  shows "solver_inv A F C p s'"
proof -
  obtain i q where l: "bottomList s = i # q" using assms(4) by (auto simp: neq_Nil_conv)
  let ?s0 = "s\<lparr>bottomList := q\<rparr>"
  have "progress A F C p {i} ?s0"
    using assms(3) l by (intro popped_progress[of C p s]) (auto simp: solver_inv_def queued_def)
  moreover have "solver_ok p ?s0" "calls_ok p ?s0"
    using assms(3) l by (auto simp: solver_inv_def solver_ok_def queued_def intro: calls_ok_same)
  ultimately show ?thesis
    using Visit_keeps[of C p i ?s0 s' "{}"] assms(1,2) l by (simp add: pop_bottom_def solver_inv_def)
qed

lemma pop_inst_keeps:
  assumes "pop_inst A F C p s = returns s'" "prog_ok p" "solver_inv A F C p s" "instList s \<noteq> []"
  shows "solver_inv A F C p s'"
proof -
  obtain i q where l: "instList s = i # q" using assms(4) by (auto simp: neq_Nil_conv)
  let ?s0 = "s\<lparr>instList := q\<rparr>"
  have "progress A F C p {i} ?s0"
    using assms(3) l by (intro popped_progress[of C p s]) (auto simp: solver_inv_def queued_def)
  moreover have "solver_ok p ?s0" "calls_ok p ?s0"
    using assms(3) l by (auto simp: solver_inv_def solver_ok_def queued_def intro: calls_ok_same)
  ultimately show ?thesis
    using Visit_keeps[of C p i ?s0 s' "{}"] assms(1,2) l by (simp add: pop_inst_def solver_inv_def)
qed

lemma each_visit_keeps:
  assumes "each (Visit A F C p) xs s = returns s'" "prog_ok p" "solver_ok p s" "calls_ok p s"
    "progress A F C p (set xs) s"
  shows "solver_inv A F C p s'"
  using assms(1,3-)
proof (induction xs arbitrary: s)
  case (Cons x xs)
  then obtain s1 where s1: "Visit A F C p x s = returns s1" "each (Visit A F C p) xs s1 = returns s'"
    by (auto simp: andThen_returns)
  then show ?case using Cons.IH[OF s1(2)] Visit_keeps[OF s1(1) assms(2) Cons.prems(2,3), of "set xs"] Cons.prems(4) by simp
qed (simp add: solver_inv_def)

lemma pop_block_keeps:
  assumes "pop_block A F C p s = returns s'" "prog_ok p" "solver_inv A F C p s" "blockList s \<noteq> []"
  shows "solver_inv A F C p s'"
proof -
  obtain b q where l: "blockList s = b # q" using assms(4) by (auto simp: neq_Nil_conv)
  let ?s0 = "s\<lparr>blockList := q\<rparr>"
  have "progress A F C p (set (p_insts p b)) ?s0"
  proof (rule progressI)
    fix b' j assume b': "b' \<in> executable ?s0" "b' \<notin> set (blockList ?s0)" "j \<in> set (p_insts p b')"
      "j \<notin> set (p_insts p b)" "j \<notin> queued ?s0"
    have "b' \<noteq> b" using b'(3,4) by blast
    then have "settled A F C p j s"
      using b' l assms(3) by (intro progressD[of A F C p "{}" s b']) (auto simp: solver_inv_def queued_def)
    then show "settled A F C p j ?s0" by (rule settled_stable) simp_all
  qed
  moreover have "solver_ok p ?s0" "calls_ok p ?s0"
    using assms(3) l by (auto simp: solver_inv_def solver_ok_def queued_def intro: calls_ok_same)
  ultimately show ?thesis
    using each_visit_keeps[of C p "p_insts p b" ?s0 s'] assms(1,2) l by (simp add: pop_block_def VisitBlock_def)
qed

end

lemma drain_keeps:
  assumes "drain lst pop s = Some r" "r = returns s'" "I s"
    and "\<And>s s'. pop s = returns s' \<Longrightarrow> lst s \<noteq> [] \<Longrightarrow> I s \<Longrightarrow> I s'"
  shows "I s' \<and> lst s' = []"
  using assms
proof (induction rule: drain.raw_induct[rotated, consumes 1])
  case (1 drn lst pop s r)
  show ?case
  proof (cases "lst s = []")
    case False
    then obtain s1 where s1: "pop s = returns s1" "drn lst pop s1 = Some r"
      using 1(2,3) by (auto split: sum.splits)
    show ?thesis by (rule 1(1)[OF s1(2) 1(3) 1(5)[OF s1(1) False 1(4)] 1(5)])
  qed (use 1 in auto)
qed

lemma solve_loop_preserves:
  assumes "solve_loop A' F' C' p' s = Some r" "r = returns s'" "A' = A" "F' = F" "C' = C" "p' = p" "I s"
    and "\<And>s s'. pop_bottom A F C p s = returns s' \<Longrightarrow> bottomList s \<noteq> [] \<Longrightarrow> I s \<Longrightarrow> I s'"
    and "\<And>s s'. pop_inst A F C p s = returns s' \<Longrightarrow> instList s \<noteq> [] \<Longrightarrow> I s \<Longrightarrow> I s'"
    and "\<And>s s'. pop_block A F C p s = returns s' \<Longrightarrow> blockList s \<noteq> [] \<Longrightarrow> I s \<Longrightarrow> I s'"
  shows "I s' \<and> bottomList s' = [] \<and> instList s' = [] \<and> blockList s' = []"
  using assms(1-7)
proof (induction rule: solve_loop.raw_induct[rotated, consumes 1])
  case (1 loop A' F' C' p' s r)
  show ?case
  proof (cases "bottomList s = [] \<and> blockList s = [] \<and> instList s = []")
    case False
    then obtain s1 s2 s3 where d: "drain bottomList (pop_bottom A F C p) s = Some (Inr s1)"
        "drain instList (pop_inst A F C p) s1 = Some (Inr s2)" "drain blockList (pop_block A F C p) s2 = Some (Inr s3)"
        "loop A' F' C' p' s3 = Some r"
      using 1(2-7) by (auto split: option.splits sum.splits)
    have "I s1" using drain_keeps[OF d(1) refl, of I] 1(8) assms(8) by blast
    then have "I s2" using drain_keeps[OF d(2) refl, of I] assms(9) by blast
    then have "I s3" using drain_keeps[OF d(3) refl, of I] assms(10) by blast
    then show ?thesis by (rule 1(1)[OF d(4) 1(3-7)])
  qed (use 1 in auto)
qed

text \<open>An invariant of the visits that does not read the worklists holds through the loop.\<close>

lemma solve_loop_visits:
  assumes "solve_loop A F C p s = Some (returns s')" "I s"
    and visit: "\<And>i s s'. Visit A F C p i s = returns s' \<Longrightarrow> I s \<Longrightarrow> I s'"
    and lists: "\<And>s l. I s \<Longrightarrow> I (s\<lparr>bottomList := l\<rparr>) \<and> I (s\<lparr>instList := l\<rparr>) \<and> I (s\<lparr>blockList := l\<rparr>)"
  shows "I s'"
proof -
  have e: "each (Visit A F C p) xs s = returns s' \<Longrightarrow> I s \<Longrightarrow> I s'" for xs s s'
    by (erule each_preserves[where P = I]) (auto intro: visit)
  have "I s' \<and> bottomList s' = [] \<and> instList s' = [] \<and> blockList s' = []"
    by (rule solve_loop_preserves[where I = I, OF assms(1) refl refl refl refl refl assms(2)];
        unfold pop_bottom_def pop_inst_def pop_block_def VisitBlock_def)
      (blast dest: visit lists, blast dest: visit lists, blast dest: e lists)
  then show ?thesis by blast
qed

context numbers
begin

lemma initial_inv: "solver_inv A F C p initial_state"
  by (simp add: solver_inv_def initial_state_def solver_ok_def queued_def calls_ok_def calls_of_def progress_def)

lemma init_keeps:
  assumes "each (init_func A F p) gs s = returns s'" "prog_ok p" "solver_inv A F C p s"
  shows "solver_inv A F C p s'"
proof (rule each_preserves[where P = "solver_inv A F C p", OF assms(1,3)])
  fix g s s' assume "g \<in> set gs" "solver_inv A F C p s" "init_func A F p g s = returns s'"
  then show "solver_inv A F C p s'"
    using wake.init_func_keeps[of A F p g s s' 0 s] graph.init_func_keeps[of A F p g s s']
      step_invariant.init_func_keeps[OF progress_invariant[where P = "{}" and C = C, OF assms(2)], of g s s']
    by (auto simp: solver_inv_def good_step_def)
qed

lemma solve_inv:
  assumes "solve A F C p = Some (returns s)" "prog_ok p"
  shows "solver_inv A F C p s" "bottomList s = []" "instList s = []" "blockList s = []"
proof -
  obtain s0 where s0: "each (init_func A F p) (p_funcs p) initial_state = returns s0"
      "solve_loop A F C p s0 = Some (returns s)"
    using assms(1) by (auto simp: solve_def split: sum.splits)
  have "solver_inv A F C p s0" by (rule init_keeps[OF s0(1) assms(2) initial_inv])
  then show "solver_inv A F C p s" "bottomList s = []" "instList s = []" "blockList s = []"
    using solve_loop_preserves[OF s0(2) refl refl refl refl refl, of "solver_inv A F C p"]
      pop_bottom_keeps[OF _ assms(2)] pop_inst_keeps[OF _ assms(2)] pop_block_keeps[OF _ assms(2)] by blast+
qed

end

subsection \<open>Roots\<close>

lemma Mark_over:
  assumes "Mark A F p r' v s = returns s'" "IsOverdefined (vals s r)"
  shows "IsOverdefined (vals s' r)"
  using assms by (auto simp: Mark_def Let_def split: if_splits)

lemma each_Mark_over:
  assumes "each (\<lambda>k. Mark A F p (i, k) v) ks s = returns s'" "k \<in> set ks" "IsOverdefined v"
  shows "IsOverdefined (vals s' (i, k))"
  using assms(1,2)
proof (induction ks arbitrary: s)
  case (Cons x ks)
  then obtain s1 where s1: "Mark A F p (i, x) v s = returns s1" "each (\<lambda>k. Mark A F p (i, k) v) ks s1 = returns s'"
    by (auto simp: andThen_returns)
  show ?case
  proof (cases "k \<in> set ks")
    case False
    then have "k = x" using Cons.prems(2) by simp
    then have "IsOverdefined (vals s1 (i, k))" using s1(1) assms(3)
      by (cases v; cases "vals s (i, k)") (auto simp: Mark_def Let_def lattice_eq_def split: if_splits)
    then show ?thesis
      by (rule each_preserves[where P = "\<lambda>u. IsOverdefined (vals u (i, k))", OF s1(2)]) (rule Mark_over)
  qed (use Cons.IH[OF s1(2)] in blast)
qed simp

interpretation over: step_invariant A F p "\<lambda>_. True" "\<lambda>s. IsOverdefined (vals s r)"
  for A :: "'i apint_ops" and F :: "('i, 'f) apfloat_ops" and p r
proof unfold_locales
  show "IsOverdefined (vals s' r)" if "IsOverdefined (vals s r)" "MarkEdge A F p i b s = returns s'" for i b s s'
  proof -
    have "IsOverdefined (vals s2 r)" if "each (VisitPhiInst A F p) xs s1 = returns s2" "IsOverdefined (vals s1 r)" for xs s1 s2
      using that(1,2) by (rule each_preserves)
        (auto simp: VisitPhiInst_def split: sinst.splits if_splits intro: Mark_over)
    then show ?thesis using that by (fastforce simp: MarkEdge_def MarkBlock_def split: if_splits)
  qed
qed (auto simp: MarkBlock_def add_call_def intro: Mark_over)

text \<open>What the constructor marks lasts: blocks stay executable and values overdefined.\<close>

lemma Visit_lasts:
  assumes "Visit A F C p i s = returns s'" "calls_ok p s \<and> B \<subseteq> executable s \<and> (\<forall>r \<in> R. IsOverdefined (vals s r))"
  shows "calls_ok p s' \<and> B \<subseteq> executable s' \<and> (\<forall>r \<in> R. IsOverdefined (vals s' r))"
proof -
  have d: "Dispatch A F C p i s = returns s'" using assms(1) by (auto simp: Visit_def split: if_splits)
  show ?thesis
    using Dispatch_calls_ok[OF d] Dispatch_good[OF d] over.Dispatch_keeps[OF d] assms(2)
    unfolding good_step_def wakes_def by blast
qed

lemma solve_loop_lasts:
  assumes "solve_loop A F C p s = Some (returns s')" "calls_ok p s"
  shows "executable s \<subseteq> executable s'" "IsOverdefined (vals s r) \<Longrightarrow> IsOverdefined (vals s' r)"
proof -
  have l: "calls_ok p s' \<and> B \<subseteq> executable s' \<and> (\<forall>r \<in> R. IsOverdefined (vals s' r))"
    if "B \<subseteq> executable s" "\<forall>r \<in> R. IsOverdefined (vals s r)" for B R
    by (rule solve_loop_visits[OF assms(1) _ Visit_lasts]) (use that assms(2) in \<open>auto intro: calls_ok_same[rotated]\<close>)
  show "executable s \<subseteq> executable s'" using l[of "executable s" "{}"] by simp
  show "IsOverdefined (vals s r) \<Longrightarrow> IsOverdefined (vals s' r)" using l[of "{}" "{r}"] by simp
qed

lemma init_func_lasts:
  assumes "init_func A F p g s = returns s'"
  shows "executable s \<subseteq> executable s'" "IsOverdefined (vals s r) \<Longrightarrow> IsOverdefined (vals s' r)"
    "calls_ok p s \<Longrightarrow> calls_ok p s'"
  using wake.init_func_keeps[OF assms good_step_refl, of 0] over.init_func_keeps[OF assms] graph.init_func_keeps[OF assms]
  by (auto simp: good_step_def wakes_def)

lemma each_init_lasts:
  assumes "each (init_func A F p) gs s = returns s'"
  shows "executable s \<subseteq> executable s' \<and> (\<forall>r. IsOverdefined (vals s r) \<longrightarrow> IsOverdefined (vals s' r)) \<and>
    (calls_ok p s \<longrightarrow> calls_ok p s')"
  by (rule each_preserves[OF assms, where P = "\<lambda>t. executable s \<subseteq> executable t \<and>
      (\<forall>r. IsOverdefined (vals s r) \<longrightarrow> IsOverdefined (vals t r)) \<and> (calls_ok p s \<longrightarrow> calls_ok p t)"])
    (auto dest: init_func_lasts)

lemma init_func_marks:
  assumes "init_func A F p g s = returns s'" "IsRoot g \<or> p_address_taken p (g_id g)"
  shows "hd (p_blocks p (g_id g)) \<in> executable s' \<and>
    (\<forall>is \<in> snd ` set (func_args p (g_id g)). \<forall>i \<in> set is. 0 < GetNumRets (p_inst p i) \<longrightarrow> IsOverdefined (vals s' (i, 0)))"
proof -
  let ?xs = "concat (map snd (func_args p (g_id g)))"
  obtain s1 where s1: "MarkEntry p (g_id g) s = returns s1" "each (MarkOverdefined A F p) ?xs s1 = returns s'"
    using assms by (auto simp: init_func_def andThen_returns)
  have e: "hd (p_blocks p (g_id g)) \<in> executable s1"
    using s1(1) by (auto simp: MarkEntry_def MarkBlock_def split: list.splits)
  have mark: "Mark A F p r v t = returns t' \<Longrightarrow> executable t \<subseteq> executable t'" for r v t t'
    by (auto simp: Mark_def Let_def split: if_splits)
  have over: "executable t \<subseteq> executable t'" if h: "MarkOverdefined A F p i t = returns t'" for i t t'
    using h unfolding MarkOverdefined_def
    by (rule each_preserves[where P = "\<lambda>u. executable t \<subseteq> executable u"]) (auto dest: mark)
  have mono: "executable s1 \<subseteq> executable s'" using s1(2)
    by (rule each_preserves[where P = "\<lambda>u. executable s1 \<subseteq> executable u"]) (auto dest: over)
  have all: "IsOverdefined (vals s' (i, 0))" if i: "i \<in> set xs" "0 < GetNumRets (p_inst p i)"
      "each (MarkOverdefined A F p) xs t = returns s'" for xs t i
    using i
  proof (induction xs arbitrary: t)
    case (Cons x xs)
    then obtain t1 where t1: "MarkOverdefined A F p x t = returns t1" "each (MarkOverdefined A F p) xs t1 = returns s'"
      by (auto simp: andThen_returns)
    show ?case
    proof (cases "i \<in> set xs")
      case False
      have "IsOverdefined (vals t1 (i, 0))"
        using t1(1) False Cons.prems(1,2) unfolding MarkOverdefined_def
        by (intro each_Mark_over[of A F p i LOverdefined "[0..<GetNumRets (p_inst p i)]" t t1 0]) auto
      then show ?thesis
        by (rule each_preserves[where P = "\<lambda>u. IsOverdefined (vals u (i, 0))", OF t1(2)]) (erule over.over_keeps, simp_all)
    qed (use Cons.IH[OF _ Cons.prems(2) t1(2)] in simp)
  qed simp
  show ?thesis
  proof (intro conjI ballI impI)
    fix xs i assume "xs \<in> snd ` set (func_args p (g_id g))" "i \<in> set xs" "0 < GetNumRets (p_inst p i)"
    then show "IsOverdefined (vals s' (i, 0))" by (intro all[OF _ _ s1(2)]) auto
  qed (use e mono in blast)
qed

lemma solve_roots_aux:
  assumes "solve A F C p = Some (returns s)" "g \<in> set (p_funcs p)" "IsRoot g \<or> p_address_taken p (g_id g)"
  shows "hd (p_blocks p (g_id g)) \<in> executable s \<and>
    (\<forall>is \<in> snd ` set (func_args p (g_id g)). \<forall>i \<in> set is. 0 < GetNumRets (p_inst p i) \<longrightarrow> IsOverdefined (vals s (i, 0)))"
proof -
  let ?R = "\<lambda>s. hd (p_blocks p (g_id g)) \<in> executable s \<and>
    (\<forall>is \<in> snd ` set (func_args p (g_id g)). \<forall>i \<in> set is. 0 < GetNumRets (p_inst p i) \<longrightarrow> IsOverdefined (vals s (i, 0)))"
  obtain s0 where s0: "each (init_func A F p) (p_funcs p) initial_state = returns s0" "solve_loop A F C p s0 = Some (returns s)"
    using assms(1) by (auto simp: solve_def split: sum.splits)
  have "?R s'" if h: "g \<in> set gs" "each (init_func A F p) gs t = returns s'" for gs t s'
    using h
  proof (induction gs arbitrary: t)
    case (Cons x gs)
    then obtain t1 where t1: "init_func A F p x t = returns t1" "each (init_func A F p) gs t1 = returns s'"
      by (auto simp: andThen_returns)
    show ?case
    proof (cases "g \<in> set gs")
      case False
      then have "?R t1" using Cons.prems(1) init_func_marks[OF t1(1)] assms(3) by simp
      then show ?thesis using each_init_lasts[OF t1(2)] by blast
    qed (use Cons.IH[OF _ t1(2)] in blast)
  qed simp
  then have r: "?R s0" using assms(2) s0(1) by blast
  have "calls_ok p s0"
    using each_init_lasts[OF s0(1)] by (simp add: initial_state_def calls_ok_def calls_of_def)
  then show ?thesis using r solve_loop_lasts[OF s0(2)] by blast
qed

end
