(* ===== verification/SccpRun.thy ===== *)
theory SccpRun
  imports SccpSettled SccpEvalSound
begin

text \<open>
  Runs of a function against the solution of the solver. A run is inside of one activation: registers hold
  machine values or nothing, an instruction without a meaning of its own here (loads, arguments, results of
  calls) takes its value from outside. The runs are those on which the transfer functions are sound: the
  limits found for each of them are the guards \<open>safe_at\<close>.
\<close>

subsection \<open>Execution\<close>

type_synonym ('i, 'f) regs = "reg \<Rightarrow> ('i, 'f) machine_val option"

text \<open>The value of the sub-value \<open>k\<close> of an instruction; \<open>None\<close> is the undefined value.\<close>

inductive computes :: "'i apint_ops \<Rightarrow> ('i \<Rightarrow> int) \<Rightarrow> ('i, 'f) apfloat_ops \<Rightarrow> mem_env \<Rightarrow>
    (nat \<Rightarrow> nat \<Rightarrow> ('i, 'f) machine_val \<Rightarrow> bool) \<Rightarrow> ('i, 'f) regs \<Rightarrow> nat \<Rightarrow> ('i, 'f) sinst \<Rightarrow> nat \<Rightarrow>
    ('i, 'f) machine_val option \<Rightarrow> bool"
  for A uval F E ext \<rho> i where
  undefined: "computes A uval F E ext \<rho> i inst k None"
| unary: "\<rho> a = Some (VInt x) \<Longrightarrow> IsIntegerType t \<Longrightarrow> ap_width A z = GetBitWidth t \<Longrightarrow>
    unary_result kd (GetBitWidth t) (ap_width A x) (uval x) = Some (uval z) \<Longrightarrow>
    computes A uval F E ext \<rho> i (S_UNARY kd t a) 0 (Some (VInt z))"
| binary: "\<rho> l = Some (VInt x) \<Longrightarrow> \<rho> r = Some (VInt y) \<Longrightarrow> IsIntegerType t \<Longrightarrow> ap_width A z = GetBitWidth t \<Longrightarrow>
    widths_fit kd (GetBitWidth t) (ap_width A x) (ap_width A y) \<Longrightarrow>
    int_result kd (GetBitWidth t) (ap_width A y) (uval x) (uval y) = Some (uval z) \<Longrightarrow>
    computes A uval F E ext \<rho> i (S_BINARY kd t l r) 0 (Some (VInt z))"
| compare: "\<rho> l = Some (VInt x) \<Longrightarrow> \<rho> r = Some (VInt y) \<Longrightarrow> ap_width A x = ap_width A y \<Longrightarrow>
    int_compare cc (ap_width A y) (uval x) (uval y) = Some v \<Longrightarrow> ap_width A z = GetBitWidth t \<Longrightarrow>
    uval z = of_bool v \<Longrightarrow> computes A uval F E ext \<rho> i (S_CMP cc t l r) 0 (Some (VInt z))"
| select: "\<rho> c = Some v \<Longrightarrow>
    computes A uval F E ext \<rho> i (S_SELECT t c a b) 0 (if truthy uval F v then \<rho> a else \<rho> b)"
| frame: "ap_width A x = 64 \<Longrightarrow> frame_valid E obj (sint off) \<Longrightarrow> uval x = frame_addr E obj (sint off) \<Longrightarrow>
    computes A uval F E ext \<rho> i (S_FRAME t obj off) 0 (Some (VInt x))"
| move: "computes A uval F E ext \<rho> i (S_MOV t (MovInst r)) 0 (\<rho> r)"
| move_int: "IsIntegerType t \<Longrightarrow> ap_width A x = GetBitWidth t \<Longrightarrow>
    uval x = take_bit (GetBitWidth t) (signed_value (ap_width A c) (uval c)) \<Longrightarrow>
    computes A uval F E ext \<rho> i (S_MOV t (MovConstInt c)) 0 (Some (VInt x))"
| move_global: "ap_width A x = 64 \<Longrightarrow> glob_valid E g 0 \<Longrightarrow> uval x = glob_addr E g 0 \<Longrightarrow>
    computes A uval F E ext \<rho> i (S_MOV t (MovGlobal g)) 0 (Some (VInt x))"
| move_expr: "ap_width A x = 64 \<Longrightarrow> glob_valid E g (sint off) \<Longrightarrow> uval x = glob_addr E g (sint off) \<Longrightarrow>
    computes A uval F E ext \<rho> i (S_MOV t (MovExpr (SymbolOffset g off))) 0 (Some (VInt x))"
| external: "open_inst inst \<or> (\<exists>t a. inst = S_LOAD t a) \<Longrightarrow> ext i k v \<Longrightarrow>
    computes A uval F E ext \<rho> i inst k (Some v)"
| other: "(\<exists>ts ops. inst = S_OTHER ts ops) \<or> (\<exists>c as ts f b. inst = S_FRAME_CALL c as ts f b) \<Longrightarrow> k < GetNumRets inst \<Longrightarrow>
    computes A uval F E ext \<rho> i inst k (Some v)"

inductive goes_to :: "'i apint_ops \<Rightarrow> ('i \<Rightarrow> int) \<Rightarrow> ('i, 'f) apfloat_ops \<Rightarrow> (nat \<Rightarrow> nat \<Rightarrow> bool) \<Rightarrow> ('i, 'f) regs \<Rightarrow> nat \<Rightarrow>
    ('i, 'f) sinst \<Rightarrow> nat \<Rightarrow> bool"
  for A uval F ext_edge \<rho> i where
  "goes_to A uval F ext_edge \<rho> i (S_JUMP b) b"
| "\<rho> c = Some v \<Longrightarrow> goes_to A uval F ext_edge \<rho> i (S_JUMP_COND c bt bf) (if truthy uval F v then bt else bf)"
| "\<rho> idx = Some (VInt x) \<Longrightarrow> signed_value (ap_width A x) (uval x) = int n \<Longrightarrow> n < length bs \<Longrightarrow>
    goes_to A uval F ext_edge \<rho> i (S_SWITCH idx bs) (bs ! n)"
| "open_inst inst \<Longrightarrow> ext_edge i b \<Longrightarrow> goes_to A uval F ext_edge \<rho> i inst b"

subsection \<open>Where the transfer functions are sound\<close>

definition join_ok :: "'i apint_ops \<Rightarrow> ('i \<Rightarrow> int) \<Rightarrow> ('i, 'f) lattice \<Rightarrow> ('i, 'f) lattice \<Rightarrow> bool" where
  "join_ok A uval a b \<longleftrightarrow> wf_lattice A uval a \<and> wf_lattice A uval b \<and> same_width A a b \<and> \<not> hides_null a b"

fun joins_ok :: "'i apint_ops \<Rightarrow> ('i \<Rightarrow> int) \<Rightarrow> ('i, 'f) apfloat_ops \<Rightarrow> ('i, 'f) lattice \<Rightarrow> ('i, 'f) lattice list \<Rightarrow> bool" where
  "joins_ok A uval F l [] = True"
| "joins_ok A uval F l (x # xs) = (join_ok A uval l x \<and> joins_ok A uval F (LUB A F l x) xs)"

text \<open>The values that reach a PHI.\<close>

definition phi_values :: "nat \<Rightarrow> (nat \<times> reg) list \<Rightarrow> ('i, 'f) sccp_state \<Rightarrow> ('i, 'f) lattice list" where
  "phi_values b ins s = map (\<lambda>(from, r). vals s r) (filter (\<lambda>(from, r). (from, b) \<in> edges s) ins)"

definition safe_at :: "'i apint_ops \<Rightarrow> ('i \<Rightarrow> int) \<Rightarrow> ('i, 'f) apfloat_ops \<Rightarrow> mem_env \<Rightarrow> ('i, 'f) sprog \<Rightarrow>
    ('i, 'f) sccp_state \<Rightarrow> ('i, 'f) regs \<Rightarrow> nat \<Rightarrow> bool" where
  "safe_at A uval F E p s \<rho> i =
     (case p_inst p i of
        S_BINARY kd t l r \<Rightarrow> (\<forall>x y. \<rho> l = Some (VInt x) \<longrightarrow> \<rho> r = Some (VInt y) \<longrightarrow>
          moves_inside E kd (vals s l) (vals s r) (uval x) (uval y))
      | S_CMP cc t l r \<Rightarrow> \<not> (IsGlobal (vals s l) \<and> IsRange (vals s r)) \<and>
          VisitCmpInst A F cc t (vals s l) (vals s r) \<noteq> Some (returns LUndefined) \<and>
          (\<forall>x. \<rho> l = Some (VInt x) \<longrightarrow> low_pointer (vals s l) (uval x)) \<and>
          (\<forall>x. \<rho> r = Some (VInt x) \<longrightarrow> low_pointer (vals s r) (uval x))
      | S_SELECT t c a b \<Rightarrow> \<not> weak_address (vals s c) \<and> \<not> IsUnknown (vals s a) \<and> \<not> IsUnknown (vals s b) \<and>
          join_ok A uval (vals s a) (vals s b)
      | S_JUMP_COND c bt bf \<Rightarrow> \<not> weak_address (vals s c)
      | S_SWITCH idx bs \<Rightarrow> (\<forall>k. vals s idx = LInt k \<longrightarrow> ap_width A k \<le> 64)
      | S_PHI t ins \<Rightarrow> joins_ok A uval F LUnknown (phi_values (p_block p i) ins s)
      | _ \<Rightarrow> True)"

text \<open>The value a visitor marks, where it marks one.\<close>

definition transfer :: "'i apint_ops \<Rightarrow> ('i, 'f) apfloat_ops \<Rightarrow> ('i, 'f) float_ctors \<Rightarrow> ('i, 'f) sprog \<Rightarrow> nat \<Rightarrow>
    ('i, 'f) sccp_state \<Rightarrow> ('i, 'f) lattice result option" where
  "transfer A F C p i s =
     (case p_inst p i of
        S_UNARY k t arg \<Rightarrow> if IsUnknown (vals s arg) then None else Some (EvalUnary A F k t (vals s arg))
      | S_BINARY k t lhs rhs \<Rightarrow> if IsUnknown (vals s lhs) \<or> IsUnknown (vals s rhs) then None
          else Some (EvalBinary A F (p_align p) k t (vals s lhs) (vals s rhs))
      | S_CMP cc t lhs rhs \<Rightarrow> VisitCmpInst A F cc t (vals s lhs) (vals s rhs)
      | S_SELECT t c vt vf \<Rightarrow> if IsUnknown (vals s c) \<or> IsUnknown (vals s vt) \<or> IsUnknown (vals s vf) then None
          else Some (select_value A F (vals s c) (vals s vt) (vals s vf))
      | S_FRAME t obj off \<Rightarrow> Some (returns (LFrame obj off))
      | S_MOV t arg \<Rightarrow> Some (mov_value A F C t arg s)
      | S_PHI t ins \<Rightarrow> if IsOverdefined (vals s (i, 0)) then None else Some (returns (phi_value A F (p_block p i) ins s))
      | _ \<Rightarrow> None)"

text \<open>The values of the solution are well formed and have the widths of their registers.\<close>

definition typed_solution :: "'i apint_ops \<Rightarrow> ('i \<Rightarrow> int) \<Rightarrow> ('i, 'f) apfloat_ops \<Rightarrow> ('i, 'f) float_ctors \<Rightarrow>
    ('i, 'f) sprog \<Rightarrow> ('i, 'f) sccp_state \<Rightarrow> bool" where
  "typed_solution A uval F C p s \<longleftrightarrow>
     (\<forall>b \<in> executable s. \<forall>i \<in> set (p_insts p b).
        (\<forall>r \<in> set ((i, 0) # operands (p_inst p i)). wf_lattice A uval (vals s r)) \<and>
        (case transfer A F C p i s of
           Some (Inr res) \<Rightarrow> wf_lattice A uval res \<and> same_width A (vals s (i, 0)) res
         | _ \<Rightarrow> True))"

lemma typed_solutionD:
  assumes "typed_solution A uval F C p s" "b \<in> executable s" "i \<in> set (p_insts p b)"
  shows "r \<in> set ((i, 0) # operands (p_inst p i)) \<Longrightarrow> wf_lattice A uval (vals s r)"
    "transfer A F C p i s = Some (returns res) \<Longrightarrow> wf_lattice A uval res \<and> same_width A (vals s (i, 0)) res"
  using assms unfolding typed_solution_def by (blast, force)

text \<open>What comes from outside is covered by the solution.\<close>

definition ext_covered :: "'i apint_ops \<Rightarrow> ('i \<Rightarrow> int) \<Rightarrow> ('i, 'f) apfloat_ops \<Rightarrow> mem_env \<Rightarrow> ('i, 'f) sprog \<Rightarrow>
    ('i, 'f) sccp_state \<Rightarrow> (nat \<Rightarrow> nat \<Rightarrow> ('i, 'f) machine_val \<Rightarrow> bool) \<Rightarrow> (nat \<Rightarrow> nat \<Rightarrow> bool) \<Rightarrow> bool" where
  "ext_covered A uval F E p s ext ext_edge \<longleftrightarrow>
     (\<forall>i k v. ext i k v \<longrightarrow> in_gamma A uval F E (vals s (i, k)) v) \<and>
     (\<forall>i b. ext_edge i b \<longrightarrow> (p_block p i, b) \<in> edges s)"

subsection \<open>Runs\<close>

text \<open>A point of a run: the block, the instructions left in it and the registers. PHIs are taken on the edge.\<close>

type_synonym ('i, 'f) point = "nat \<times> nat list \<times> ('i, 'f) regs"

definition enter_block :: "('i, 'f) sprog \<Rightarrow> nat \<Rightarrow> nat \<Rightarrow> ('i, 'f) regs \<Rightarrow> ('i, 'f) regs \<Rightarrow> bool" where
  "enter_block p a b \<rho> \<rho>' \<longleftrightarrow>
     (\<forall>i k. if i \<in> set (block_phis p b) \<and> k = 0
        then \<exists>t ins r. p_inst p i = S_PHI t ins \<and> (a, r) \<in> set ins \<and> \<rho>' (i, 0) = \<rho> r
        else \<rho>' (i, k) = \<rho> (i, k))"

definition block_body :: "('i, 'f) sprog \<Rightarrow> nat \<Rightarrow> nat list" where
  "block_body p b = dropWhile (\<lambda>i. is_phi (p_inst p i)) (p_insts p b)"

inductive run_step :: "'i apint_ops \<Rightarrow> ('i \<Rightarrow> int) \<Rightarrow> ('i, 'f) apfloat_ops \<Rightarrow> mem_env \<Rightarrow> ('i, 'f) sprog \<Rightarrow>
    ('i, 'f) sccp_state \<Rightarrow> (nat \<Rightarrow> nat \<Rightarrow> ('i, 'f) machine_val \<Rightarrow> bool) \<Rightarrow> (nat \<Rightarrow> nat \<Rightarrow> bool) \<Rightarrow>
    ('i, 'f) point \<Rightarrow> ('i, 'f) point \<Rightarrow> bool"
  for A uval F E p s ext ext_edge where
  exec: "safe_at A uval F E p s \<rho> i \<Longrightarrow> (\<And>r. fst r \<noteq> i \<Longrightarrow> \<rho>' r = \<rho> r) \<Longrightarrow>
    (\<And>k. computes A uval F E ext \<rho> i (p_inst p i) k (\<rho>' (i, k))) \<Longrightarrow>
    run_step A uval F E p s ext ext_edge (b, i # is, \<rho>) (b, is, \<rho>')"
| jump: "safe_at A uval F E p s \<rho> i \<Longrightarrow> goes_to A uval F ext_edge \<rho> i (p_inst p i) b' \<Longrightarrow>
    (\<And>j. j \<in> set (block_phis p b') \<Longrightarrow> safe_at A uval F E p s \<rho> j) \<Longrightarrow> enter_block p b b' \<rho> \<rho>' \<Longrightarrow>
    run_step A uval F E p s ext ext_edge (b, [i], \<rho>) (b', block_body p b', \<rho>')"

definition covered :: "'i apint_ops \<Rightarrow> ('i \<Rightarrow> int) \<Rightarrow> ('i, 'f) apfloat_ops \<Rightarrow> mem_env \<Rightarrow> ('i, 'f) sccp_state \<Rightarrow>
    ('i, 'f) regs \<Rightarrow> bool" where
  "covered A uval F E s \<rho> \<longleftrightarrow> (\<forall>r v. \<rho> r = Some v \<longrightarrow> in_gamma A uval F E (vals s r) v)"

lemma len64: "LENGTH(64) - 1 = 63"
  by simp

subsection \<open>Covered registers stay covered\<close>

lemma transfer_settled:
  assumes "settled A F C p i s" "transfer A F C p i s = Some r"
  shows "has_value A F s (i, 0) r"
  using assms by (auto simp: settled_def transfer_def split: sinst.splits if_splits option.splits)

lemma phi_value_fold: "phi_value A F b ins s = foldl (LUB A F) LUnknown (phi_values b ins s)"
proof -
  have "foldl (\<lambda>l (from, r). if (from, b) \<in> edges s then LUB A F l (vals s r) else l) l ins =
      foldl (LUB A F) l (phi_values b ins s)" for l
    by (induction ins arbitrary: l) (auto simp: phi_values_def)
  then show ?thesis by (simp add: phi_value_def)
qed

text \<open>The points of a run the solution covers.\<close>

definition run_ok :: "'i apint_ops \<Rightarrow> ('i \<Rightarrow> int) \<Rightarrow> ('i, 'f) apfloat_ops \<Rightarrow> mem_env \<Rightarrow> ('i, 'f) sprog \<Rightarrow>
    ('i, 'f) sccp_state \<Rightarrow> ('i, 'f) point \<Rightarrow> bool" where
  "run_ok A uval F E p s pt \<longleftrightarrow> (case pt of (b, is, \<rho>) \<Rightarrow>
     b \<in> executable s \<and> set is \<subseteq> set (p_insts p b) \<and> covered A uval F E s \<rho>)"

context numbers
begin

lemma joins_sound:
  assumes "joins_ok A uval F l xs" "env_ok E" "in_gamma A uval F E l v \<or> (\<exists>x \<in> set xs. in_gamma A uval F E x v)"
  shows "in_gamma A uval F E (foldl (LUB A F) l xs) v"
  using assms
proof (induction xs arbitrary: l)
  case (Cons x xs)
  then have "in_gamma A uval F E (LUB A F l x) v \<or> (\<exists>x \<in> set xs. in_gamma A uval F E x v)"
    using LUB_sound_aux[of l x E v] by (auto simp: join_ok_def)
  then show ?case using Cons by simp
qed simp

lemma transfer_gamma:
  assumes "settled A F C p i s" "transfer A F C p i s = Some (returns res)" "typed_solution A uval F C p s"
    and "b \<in> executable s" "i \<in> set (p_insts p b)" "in_gamma A uval F E res v"
  shows "in_gamma A uval F E (vals s (i, 0)) v"
proof -
  have "lattice_eq A F (vals s (i, 0)) res" using transfer_settled[OF assms(1,2)] by (simp add: has_value_def)
  moreover have "wf_lattice A uval res" "same_width A (vals s (i, 0)) res" "wf_lattice A uval (vals s (i, 0))"
    using typed_solutionD[OF assms(3-5)] assms(2) by auto
  ultimately show ?thesis using lattice_eq_gamma assms(6) by blast
qed

lemma transfer_returns:
  assumes "settled A F C p i s" "transfer A F C p i s = Some r"
  obtains res where "transfer A F C p i s = Some (returns res)" "r = returns res"
  using transfer_settled[OF assms] assms(2) by (auto simp: has_value_def)

lemma gamma_known: "in_gamma A uval F E l v \<Longrightarrow> \<not> IsUnknown l \<and> \<not> IsUndefined l"
  by (cases l) auto

lemma computes_covered:
  assumes c: "computes A uval F E ext \<rho> i (p_inst p i) k (Some v)"
    and st: "settled A F C p i s" and ty: "typed_solution A uval F C p s"
    and b: "b \<in> executable s" "i \<in> set (p_insts p b)"
    and env: "env_ok E" "objects_ok E (p_align p)" "layout_ok E" and x: "ext_covered A uval F E p s ext ext_edge"
    and sf: "safe_at A uval F E p s \<rho> i" and cov: "covered A uval F E s \<rho>"
  shows "in_gamma A uval F E (vals s (i, k)) v"
proof -
  have reg: "in_gamma A uval F E (vals s r) w" if "\<rho> r = Some w" for r w
    using cov that unfolding covered_def by blast
  have wf: "wf_lattice A uval (vals s r)" if "r \<in> set (operands (p_inst p i))" for r
    using typed_solutionD(1)[OF ty b] that by simp
  note tg = transfer_gamma[OF st _ ty b]
  show ?thesis using c
  proof cases
    case (unary a x t z kd)
    note a = reg[OF unary(4)]
    obtain res where "transfer A F C p i s = Some (returns res)" "EvalUnary A F kd t (vals s a) = returns res"
      by (rule transfer_returns[OF st, of "EvalUnary A F kd t (vals s a)"])
        (use unary gamma_known[OF a] in \<open>auto simp: transfer_def\<close>)
    then show ?thesis using tg EvalUnary_sound_aux[OF unary(5) a wf unary(6,7)] unary by simp
  next
    case (binary l x r y t z kd)
    note l = reg[OF binary(4)] and r = reg[OF binary(5)]
    obtain res where "transfer A F C p i s = Some (returns res)"
        "EvalBinary A F (p_align p) kd t (vals s l) (vals s r) = returns res"
      by (rule transfer_returns[OF st, of "EvalBinary A F (p_align p) kd t (vals s l) (vals s r)"])
        (use binary gamma_known[OF l] gamma_known[OF r] in \<open>auto simp: transfer_def\<close>)
    moreover have "moves_inside E kd (vals s l) (vals s r) (uval x) (uval y)"
      using sf binary by (simp add: safe_at_def)
    ultimately show ?thesis
      using tg EvalBinary_sound_aux[OF env(1,2) binary(6) l wf r wf binary(8)] binary by simp
  next
    case (compare l x r y cc w z t)
    note l = reg[OF compare(4)] and r = reg[OF compare(5)]
    obtain q where q: "VisitCmpInst A F cc t (vals s l) (vals s r) = Some q"
      using gamma_known[OF l] gamma_known[OF r] by (auto simp: VisitCmpInst_def)
    obtain res where res: "transfer A F C p i s = Some (returns res)" "q = returns res"
      by (rule transfer_returns[OF st, of q]) (use compare q in \<open>auto simp: transfer_def\<close>)
    moreover have "low_pointer (vals s l) (uval x)" "low_pointer (vals s r) (uval y)" "res \<noteq> LUndefined"
        "\<not> (IsGlobal (vals s l) \<and> IsRange (vals s r))"
      using sf compare q res by (auto simp: safe_at_def)
    ultimately show ?thesis
      using tg VisitCmpInst_sound_aux[OF env(3) l wf _ r wf _ compare(6)] compare q by simp
  next
    case (select c w t a b')
    note cw = reg[OF select(4)]
    have ab: "truthy uval F w \<Longrightarrow> in_gamma A uval F E (vals s a) v" "\<not> truthy uval F w \<Longrightarrow> in_gamma A uval F E (vals s b') v"
      using select reg by (auto split: if_splits)
    have s': "\<not> weak_address (vals s c)" "\<not> IsUnknown (vals s a)" "\<not> IsUnknown (vals s b')"
        "join_ok A uval (vals s a) (vals s b')"
      using sf select by (simp_all add: safe_at_def)
    let ?q = "select_value A F (vals s c) (vals s a) (vals s b')"
    obtain res where res: "transfer A F C p i s = Some (returns res)" "?q = returns res"
      by (rule transfer_returns[OF st, of ?q]) (use select s' gamma_known[OF cw] in \<open>auto simp: transfer_def\<close>)
    have "in_gamma A uval F E (LUB A F (vals s a) (vals s b')) v"
      using LUB_sound_aux[of "vals s a" "vals s b'" E v] s'(4) ab env(1) by (auto simp: join_ok_def)
    moreover have "IsTrue A F (vals s c) = returns True \<Longrightarrow> truthy uval F w"
      by (rule IsTrue_sound_aux[OF _ cw _ env(1) s'(1)]) (simp_all add: wf select)
    moreover have "IsFalse A F (vals s c) = returns True \<Longrightarrow> \<not> truthy uval F w"
      by (rule IsFalse_sound_aux[OF _ cw])
    ultimately have "in_gamma A uval F E res v"
      using res(2) ab gamma_known[OF cw] by (auto simp: select_value_def andThen_returns split: if_splits)
    then show ?thesis using tg[OF res(1)] select by simp
  next
    case (frame x obj off t)
    then show ?thesis using tg[of "LFrame obj off"] by (simp add: transfer_def)
  next
    case (move t r)
    then show ?thesis using tg[of "vals s r"] reg by (simp add: transfer_def mov_value_def)
  next
    case (move_int t x c)
    then have t: "t \<in> {I8, I16, I32, I64, I128, V64}" "GetBitWidth t = GetSize t * 8" "0 < GetSize t"
      by (cases t; simp)+
    then have "mov_value A F C t (MovConstInt c) s = returns (LInt (ap_sextOrTrunc A (GetSize t * 8) c))"
      using move_int by (simp add: mov_value_def Extend_def)
    then show ?thesis
      using tg[of "LInt (ap_sextOrTrunc A (GetSize t * 8) c)"] move_int t sextOrTrunc[of "GetSize t * 8" c]
      by (simp add: transfer_def)
  next
    case (move_global x g t)
    then show ?thesis using tg[of "LGlobal g 0"] by (simp add: transfer_def mov_value_def)
  next
    case (move_expr x g off t)
    then show ?thesis using tg[of "LGlobal g off"] by (simp add: transfer_def mov_value_def)
  next
    case external
    then show ?thesis using x by (simp add: ext_covered_def)
  next
    case other
    then have "has_value A F s (i, k) (returns LOverdefined)"
      using st by (auto simp: settled_def open_inst_def plain_inst_def outer_inst_def)
    then show ?thesis by (cases "vals s (i, k)") (auto simp: has_value_def lattice_eq_def)
  qed
qed

lemma goes_to_edge:
  assumes g: "goes_to A uval F ext_edge \<rho> i (p_inst p i) t"
    and st: "settled A F C p i s" and ty: "typed_solution A uval F C p s" and env: "env_ok E"
    and b: "b \<in> executable s" "i \<in> set (p_insts p b)"
    and x: "ext_covered A uval F E p s ext ext_edge" and sf: "safe_at A uval F E p s \<rho> i" and cov: "covered A uval F E s \<rho>"
  shows "(p_block p i, t) \<in> edges s"
proof -
  have reg: "in_gamma A uval F E (vals s r) w" if "\<rho> r = Some w" for r w
    using cov that unfolding covered_def by blast
  have wf: "wf_lattice A uval (vals s r)" if "r \<in> set (operands (p_inst p i))" for r
    using typed_solutionD(1)[OF ty b] that by simp
  show ?thesis using g
  proof cases
    case 1
    then show ?thesis using st by (simp add: settled_def)
  next
    case (2 c v bt bf)
    note cv = reg[OF 2(3)]
    have "\<not> weak_address (vals s c)" using sf 2 by (simp add: safe_at_def)
    then have "IsTrue A F (vals s c) = returns True \<Longrightarrow> truthy uval F v"
        "IsFalse A F (vals s c) = returns True \<Longrightarrow> \<not> truthy uval F v"
      using IsTrue_sound_aux[OF _ cv wf env] IsFalse_sound_aux[OF _ cv] 2(1) by simp_all
    then show ?thesis using 2 st gamma_known[OF cv] by (auto simp: settled_def jump_cond_settled_def)
  next
    case (3 idx x n bs)
    note v = reg[OF 3(3)]
    have sw: "switch_settled A (p_block p i) (vals s idx) bs s" using st 3 by (simp add: settled_def)
    show ?thesis
    proof (cases "vals s idx")
      case (LInt k)
      have k: "uval x = uval k" "ap_width A x = ap_width A k" "ap_width A k \<le> 64"
        using v LInt sf 3 by (auto simp: safe_at_def)
      have "sint (ap_getSExtValue A k) = int n"
      proof -
        have w: "0 < ap_width A k" by (rule width_pos)
        have "sint (ap_getSExtValue A k) = signed_take_bit 63 (int n)"
          using getSExtValue[OF k(3)] 3(4) k by (simp only: sint_sbintrunc' len64)
        moreover have "int n < 2 ^ 63"
        proof -
          have "signed_value (ap_width A k) (uval k) < 2 ^ (ap_width A k - 1)"
            unfolding signed_value_def by (rule signed_take_bit_int_less_exp)
          also have "\<dots> \<le> 2 ^ 63" using k(3) by (intro power_increasing) auto
          finally show ?thesis using 3(4) k by simp
        qed
        ultimately show ?thesis by (simp add: signed_take_bit_int_eq_self)
      qed
      then show ?thesis using sw LInt 3 by (simp add: switch_settled_def)
    qed (use sw v 3 in \<open>auto simp: switch_settled_def\<close>)
  next
    case 4
    then show ?thesis using x by (simp add: ext_covered_def)
  qed
qed

lemma phi_covered:
  assumes st: "settled A F C p j s" and ty: "typed_solution A uval F C p s" and env: "env_ok E"
    and b: "b \<in> executable s" "j \<in> set (p_insts p b)" "p_block p j = b"
    and j: "p_inst p j = S_PHI t ins" "(a, r) \<in> set ins" "(a, b) \<in> edges s"
    and sf: "safe_at A uval F E p s \<rho> j" and v: "in_gamma A uval F E (vals s r) v"
  shows "in_gamma A uval F E (vals s (j, 0)) v"
proof (cases "IsOverdefined (vals s (j, 0))")
  case True
  then show ?thesis by (cases "vals s (j, 0)") simp_all
next
  case False
  have "vals s r \<in> set (phi_values b ins s)" using j by (force simp: phi_values_def)
  then have "in_gamma A uval F E (phi_value A F b ins s) v"
    using sf j(1) b(3) v env joins_sound[of LUnknown "phi_values b ins s" E v]
    unfolding phi_value_fold by (auto simp: safe_at_def)
  then show ?thesis
    using transfer_gamma[OF st _ ty b(1,2), of "phi_value A F b ins s"] False j(1) b(3) by (simp add: transfer_def)
qed

lemma run_step_ok:
  assumes "run_step A uval F E p s ext ext_edge pt pt'" "run_ok A uval F E p s pt"
    and pr: "prog_ok p" and inv: "solver_inv A F C p s" "blockList s = []" "queued s = {}"
    and ty: "typed_solution A uval F C p s"
    and env: "env_ok E" "objects_ok E (p_align p)" "layout_ok E" and x: "ext_covered A uval F E p s ext ext_edge"
  shows "run_ok A uval F E p s pt'"
proof -
  have st: "settled A F C p i s" if "b \<in> executable s" "i \<in> set (p_insts p b)" for b i
    using progressD[of A F C p "{}" s b i] inv that by (simp add: solver_inv_def)
  show ?thesis using assms(1,2)
  proof cases
    case (exec \<rho> i \<rho>' b xs)
    then have b: "b \<in> executable s" "i \<in> set (p_insts p b)" "covered A uval F E s \<rho>"
      using assms(2) by (auto simp: run_ok_def)
    have "in_gamma A uval F E (vals s r) v" if "\<rho>' r = Some v" for r v
    proof (cases "fst r = i")
      case True
      then have "computes A uval F E ext \<rho> i (p_inst p i) (snd r) (Some v)" using exec(5)[of "snd r"] that by force
      then show ?thesis
        using computes_covered[OF _ st[OF b(1,2)] ty b(1,2) env x exec(3) b(3)] True by force
    next
      case False
      then show ?thesis using exec(4)[of r] that b(3) unfolding covered_def by metis
    qed
    then show ?thesis using exec assms(2) by (simp add: run_ok_def covered_def)
  next
    case (jump \<rho> i b' b \<rho>')
    then have b: "b \<in> executable s" "i \<in> set (p_insts p b)" "covered A uval F E s \<rho>"
      using assms(2) by (auto simp: run_ok_def)
    have e: "(b, b') \<in> edges s"
      using goes_to_edge[OF jump(4) st[OF b(1,2)] ty env(1) b(1,2) x jump(3) b(3)] prog_okD(1)[OF pr b(2)] by simp
    then have b': "b' \<in> executable s" using inv(1) by (auto simp: solver_inv_def solver_ok_def)
    have "in_gamma A uval F E (vals s (j, k)) v" if v: "\<rho>' (j, k) = Some v" for j k v
    proof (cases "j \<in> set (block_phis p b') \<and> k = 0")
      case True
      then obtain t ins r where j: "p_inst p j = S_PHI t ins" "(b, r) \<in> set ins" "\<rho>' (j, 0) = \<rho> r"
        using jump(6) unfolding enter_block_def by metis
      have jb: "j \<in> set (p_insts p b')" using block_phis_subset True by blast
      have "in_gamma A uval F E (vals s r) v" using j(3) v True b(3) unfolding covered_def by metis
      then show ?thesis
        using phi_covered[OF st[OF b' jb] ty env(1) b' jb prog_okD(1)[OF pr jb] j(1,2) e jump(5)] True by blast
    next
      case False
      then have "\<rho>' (j, k) = \<rho> (j, k)" using jump(6) unfolding enter_block_def by metis
      then show ?thesis using v b(3) unfolding covered_def by metis
    qed
    then show ?thesis using jump b' by (auto simp: run_ok_def covered_def block_body_def dest: set_dropWhileD)
  qed
qed

end

end
