(* ===== verification/SccpLoadSound.thy ===== *)
theory SccpLoadSound
  imports SccpLoad
begin

text \<open>
  What the loads of \<open>SccpLoad\<close> promise: the instructions an atom without stores is constant under, the
  bytes a folded load stands for, and the loads that ignore the offset into an item.
\<close>

subsection \<open>The uses of a constant atom\<close>

text \<open>The instructions the address of an atom reaches through moves, additions, subtractions and PHIs.\<close>

definition passes_on :: "('i, 'f) sinst \<Rightarrow> bool" where
  "passes_on i = (case i of S_MOV _ _ \<Rightarrow> True | S_BINARY k _ _ _ \<Rightarrow> k = B_ADD \<or> k = B_SUB | S_PHI _ _ \<Rightarrow> True | _ \<Rightarrow> False)"

definition is_load :: "('i, 'f) sinst \<Rightarrow> bool" where
  "is_load i = (case i of S_LOAD _ _ \<Rightarrow> True | _ \<Rightarrow> False)"

inductive flows :: "('i, 'f) sprog \<Rightarrow> nat set \<Rightarrow> nat \<Rightarrow> bool" for p start where
  "i \<in> start \<Longrightarrow> flows p start i"
| "flows p start i \<Longrightarrow> passes_on (p_inst p i) \<Longrightarrow> j \<in> set (inst_users p i) \<Longrightarrow> flows p start j"

definition closed_under_uses :: "('i, 'f) sprog \<Rightarrow> nat set \<Rightarrow> nat set \<Rightarrow> bool" where
  "closed_under_uses p V W \<longleftrightarrow> (\<forall>i \<in> V. is_load (p_inst p i) \<or>
     passes_on (p_inst p i) \<and> set (inst_users p i) \<subseteq> W)"

lemma only_loads_closed:
  assumes "only_loads p qi visited" "closed_under_uses p visited (visited \<union> set qi)"
  shows "\<exists>V. visited \<union> set qi \<subseteq> V \<and> closed_under_uses p V V"
  using assms
proof (induction p qi visited rule: only_loads.induct)
  case (2 p i qi visited)
  note prems = "2.prems"
  show ?case
  proof (cases "i \<in> visited")
    case True
    then show ?thesis using 2 by (simp add: insert_absorb)
  next
      case False
    have grow: "closed_under_uses p (insert i visited) (insert i visited \<union> set q)"
      if "set qi \<subseteq> set q" "is_load (p_inst p i) \<or> passes_on (p_inst p i) \<and> set (inst_users p i) \<subseteq> set q" for q
      unfolding closed_under_uses_def
    proof
      fix j assume "j \<in> insert i visited"
      then show "is_load (p_inst p j) \<or> passes_on (p_inst p j) \<and> set (inst_users p j) \<subseteq> insert i visited \<union> set q"
      proof (cases "j = i")
        case False
        then have "j \<in> visited" using \<open>j \<in> insert i visited\<close> by simp
        then have "is_load (p_inst p j) \<or> passes_on (p_inst p j) \<and> set (inst_users p j) \<subseteq> visited \<union> set (i # qi)"
          using prems(2) unfolding closed_under_uses_def by blast
        then show ?thesis using that(1) by (simp only: set_simps) blast
      qed (use that(2) in blast)
    qed
    have fin: ?thesis if h: "\<exists>V. insert i visited \<union> set q \<subseteq> V \<and> closed_under_uses p V V" "set qi \<subseteq> set q" for q
    proof -
      obtain V where V: "insert i visited \<union> set q \<subseteq> V" "closed_under_uses p V V" using h(1) by blast
      have "visited \<union> set (i # qi) \<subseteq> V" using V(1) h(2) by auto
      then show ?thesis using V(2) by (intro exI[of _ V] conjI)
    qed
    let ?q = "qi @ inst_users p i"
    show ?thesis
    proof (cases "p_inst p i")
      case (S_LOAD t a)
      have "only_loads p qi (insert i visited)" using prems(1) False S_LOAD by simp
      from 2(2)[OF False S_LOAD this grow[of qi]] show ?thesis by (intro fin[of qi]) (simp_all add: is_load_def S_LOAD)
    next
      case (S_MOV t a)
      have "only_loads p ?q (insert i visited)" using prems(1) False S_MOV by simp
      from 2(4)[OF False S_MOV this grow[of ?q]] show ?thesis by (intro fin[of ?q]) (simp_all add: passes_on_def S_MOV)
    next
      case (S_PHI t a)
      have "only_loads p ?q (insert i visited)" using prems(1) False S_PHI by simp
      from 2(5)[OF False S_PHI this grow[of ?q]] show ?thesis by (intro fin[of ?q]) (simp_all add: passes_on_def S_PHI)
    next
      case (S_BINARY k t l r)
      then have k: "k = B_ADD \<or> k = B_SUB" using prems(1) False by (simp split: if_splits)
      have "only_loads p ?q (insert i visited)" using prems(1) False S_BINARY k by simp
      from 2(3)[OF False S_BINARY k this grow[of ?q]] show ?thesis
        by (intro fin[of ?q]) (use k in \<open>simp_all add: passes_on_def S_BINARY\<close>)
    qed (use prems(1) False in simp_all)
  qed
qed (auto simp: closed_under_uses_def)

lemma flows_closed:
  assumes "flows p start i" "start \<subseteq> V" "closed_under_uses p V V"
  shows "i \<in> V"
  using assms(1,2)
proof induction
  case (2 i j)
  then have "i \<in> V" by blast
  then have "is_load (p_inst p i) \<or> set (inst_users p i) \<subseteq> V" using assms(3) unfolding closed_under_uses_def by blast
  moreover have "\<not> is_load (p_inst p i)" using 2(2) by (cases "p_inst p i") (simp_all add: passes_on_def is_load_def)
  ultimately show ?case using 2(3) by blast
qed auto

subsection \<open>The bytes of a folded load\<close>

fun folded_bytes :: "('i \<Rightarrow> int) \<Rightarrow> bool \<Rightarrow> nat \<Rightarrow> ('i, 'f) lattice \<Rightarrow> 'd mbyte list option" where
  "folded_bytes uval le n (LInt i) = Some (int_bytes le n (word_of_int (uval i)))"
| "folded_bytes uval le n (LGlobal g off) = Some (expr_bytes n (SymbolOffset g off))"
| "folded_bytes uval le n _ = None"

context apint
begin

lemma made_bytes:
  assumes "0 < n" "n \<le> 8"
  shows "int_bytes le n (word_of_int (uval (ap_make A (8 * n) v True))) = int_bytes le n v"
proof (rule int_bytes_cong)
  have "uval (ap_make A (8 * n) v True) = take_bit (8 * n) (sint v)" using make[of "8 * n" v True] assms by simp
  then show "take_bit (8 * n) (word_of_int (uval (ap_make A (8 * n) v True))) = take_bit (8 * n) v"
    by (intro bit_word_eqI) (auto simp: bit_simps min_def, (subgoal_tac "na = 63"; simp)+)
qed

lemma LoadIntItem_bytes:
  assumes "LoadIntItem A it off sz = l" "folded_bytes uval le sz l = Some bs" "0 < sz" "sz \<le> 8"
    and "off = 0 \<or> (\<exists>n. it = ItemSpace n) \<or> (\<exists>s. it = ItemString s)"
    and "unat off < length (item_bytes le it)" "length (item_bytes le it) < 2 ^ 32 - 16"
  shows "take sz (drop (unat off) (item_bytes le it)) = bs"
proof (cases it)
  case (ItemSpace n)
  then have l: "l = LInt (ap_make A (8 * sz) 0 True)" "LoadInt it off sz = Some (LoadedInt 0)"
    using assms(1,2) by (auto simp: LoadIntItem_def LoadInt_def mult.commute split: if_splits)
  have "take sz (drop (unat off) (item_bytes le it)) = int_bytes le sz 0"
    using LoadInt_bytes[OF l(2) _ assms(3) _ assms(6,7)] ItemSpace assms(4) by auto
  moreover have "bs = int_bytes le sz (word_of_int (uval (ap_make A (8 * sz) 0 True)))" using assms(2) l(1) by simp
  ultimately show ?thesis by (simp add: made_bytes[OF assms(3,4)])
next
  case (ItemString s)
  then have "sz = 1" "l = LInt (ap_make A (8 * 1) (scast (s ! unat off)) True)"
    using assms(1,2) by (auto simp: LoadIntItem_def split: if_splits)
  then have "bs = int_bytes le 1 (scast (s ! unat off))" using assms(2) by (simp add: made_bytes[of 1, simplified])
  also have "\<dots> = [MByte (s ! unat off)]" by (simp add: int_bytes_1 ucast_scast_byte)
  finally show ?thesis using ItemString assms(6) \<open>sz = 1\<close>
    by (simp add: take_Suc_conv_app_nth drop_map hd_drop_conv_nth take_Suc)
next
  case (ItemExpr32 e)
  then have "unat (word_of_nat sz :: 64 word) = 4" using assms(1,2) by (auto simp: LoadIntItem_def split: if_splits)
  then have "sz = 4" using assms(4) by (simp add: unat_of_nat)
  then show ?thesis using ItemExpr32 assms by (auto simp: LoadIntItem_def load_symbol_def split: expr.splits)
next
  case (ItemExpr64 e)
  then have "unat (word_of_nat sz :: 64 word) = 8" using assms(1,2) by (auto simp: LoadIntItem_def split: if_splits)
  then have "sz = 8" using assms(4) by (simp add: unat_of_nat)
  then show ?thesis using ItemExpr64 assms by (auto simp: LoadIntItem_def load_symbol_def split: expr.splits)
qed (use assms in \<open>auto simp: made_bytes[of 1, simplified] made_bytes[of 2, simplified] made_bytes[of 4, simplified]
    made_bytes[of 8, simplified] LoadIntItem_def load_symbol_def split: if_splits expr.splits\<close>)

lemma load_folds_aux:
  assumes "VisitLoadInst A C p ty (LGlobal g base) = returns l" "IsIntegerType ty"
    and "folded_bytes uval le (GetSize ty) l = Some bs" "length (contents le (p_items p (g_id g))) < 2 ^ 32 - 16"
    and "\<And>k off. find_item (p_items p (g_id g)) 0 base = Some (k, off) \<Longrightarrow> off = 0 \<or>
      (\<exists>n. p_items p (g_id g) ! k = ItemSpace n) \<or> (\<exists>s. p_items p (g_id g) ! k = ItemString s)"
  shows "take (GetSize ty) (drop (unat base) (contents le (p_items p (g_id g)))) = bs"
proof -
  let ?its = "p_items p (g_id g)"
  obtain k off where f: "find_item ?its 0 base = Some (k, off)" "load_at A C ty (?its ! k) (ucast off) = l"
    using assms(1,3) by (auto simp: VisitLoadInst_def split: global_kind.splits if_splits option.splits)
  define it where "it = ?its ! k"
  have g: "GetItem [?its] base = returns (Some (k, off))" using f(1) by (simp add: GetItem_def)
  have sp: "k < length ?its" "length (contents le (take k ?its)) + unat (ucast off :: 32 word) = unat base"
      "unat (ucast off :: 32 word) < length (item_bytes le it)"
    using GetItem_spec[OF g, of le] assms(4) by (simp_all add: it_def)
  have len: "length (item_bytes le it) < 2 ^ 32 - 16"
    using assms(4) contents_split[OF sp(1), of le] by (simp add: it_def)
  have sz: "0 < GetSize ty" "GetSize ty \<le> 8" "LoadIntItem A it (ucast off) (GetSize ty) = l"
    using f(2) assms(2,3) by (cases ty; auto simp: load_at_def it_def)+
  have off: "ucast off = (0 :: 32 word) \<or> (\<exists>n. it = ItemSpace n) \<or> (\<exists>s. it = ItemString s)"
    using assms(5)[OF f(1)] by (auto simp: it_def)
  have bytes: "take (GetSize ty) (drop (unat (ucast off :: 32 word)) (item_bytes le it)) = bs"
    by (rule LoadIntItem_bytes[OF sz(3) assms(3) sz(1,2) off sp(3) len])
  have "length bs = GetSize ty" using assms(3) by (cases l) auto
  then have "unat (ucast off :: 32 word) + GetSize ty \<le> length (item_bytes le it)"
    using arg_cong[OF bytes, of length] sp(3) by simp
  then show ?thesis
    using bytes sp(2) contents_split[OF sp(1), of le] by (simp add: it_def flip: sp(2))
qed

end

subsection \<open>Properties\<close>

text \<open>C19: The contents of an atom outside of a constant segment are taken for constant only when the
  atoms of its object are local and their addresses reach nothing but loads: no store, no call and no
  comparison through any chain of moves, additions, subtractions and PHIs.\<close>

theorem constant_atom_only_loaded:
  assumes "IsConstantAtom p g" "\<not> p_const_data p (g_id g)" "a \<in> set (p_object p (g_id g))"
    and "flows p (the ` set (p_atom_users p (g_id a))) i"
  shows "IsLocal a \<and> None \<notin> set (p_atom_users p (g_id a)) \<and> (is_load (p_inst p i) \<or> passes_on (p_inst p i))"
proof -
  define us where "us = concat (map (\<lambda>a. map the (p_atom_users p (g_id a))) (p_object p (g_id g)))"
  have "only_loads p us {}" using assms(1,2) by (simp add: IsConstantAtom_def us_def)
  then obtain V where V: "set us \<subseteq> V" "closed_under_uses p V V"
    using only_loads_closed[of p us "{}"] by (auto simp: closed_under_uses_def)
  have "the ` set (p_atom_users p (g_id a)) \<subseteq> set us" using assms(3) by (auto simp: us_def)
  then have "i \<in> V" using flows_closed[OF assms(4) _ V(2)] V(1) by blast
  then show ?thesis using assms(1-3) V(2) by (auto simp: IsConstantAtom_def closed_under_uses_def)
qed

definition sample_floats :: "(bv, dbl) float_ctors" where
  "sample_floats = \<lparr>fc_double = (\<lambda>x. x), fc_single = (\<lambda>x. ucast x), fc_of_int = (\<lambda>i. word_of_int (bv_uval i)),
     fc_convert = (\<lambda>_ x. (x, False))\<rparr>"

definition data_symbol :: "nat \<Rightarrow> global" where
  "data_symbol i = \<lparr>g_id = i, g_kind = G_ATOM, g_visibility = Vis_LOCAL, g_align = None\<rparr>"

lemma data_symbol_simps [simp]: "g_kind (data_symbol i) = G_ATOM" "g_id (data_symbol i) = i" "IsLocal (data_symbol i)"
  by (simp_all add: data_symbol_def IsLocal_def)

definition sample_data :: "dbl item list \<Rightarrow> (bv, dbl) sprog" where
  "sample_data its = \<lparr>p_funcs = [], p_address_taken = (\<lambda>_. False), p_blocks = (\<lambda>_. []), p_insts = (\<lambda>_. []),
     p_inst = (\<lambda>i. if i = 1 then S_MOV I64 (MovGlobal (data_symbol 3)) else S_LOAD I32 (1, 0)), p_block = (\<lambda>_. 0),
     p_func = (\<lambda>_. 0), p_uses = [((1, 0), [2])], p_align = (\<lambda>_. 1), p_items = (\<lambda>_. its),
     p_object = (\<lambda>_. [data_symbol 3]), p_const_data = (\<lambda>_. False), p_name = (\<lambda>_. []), p_atom_users = (\<lambda>_. [Some 1]),
     p_x86 = (\<lambda>_. None)\<rparr>"

lemma sample_data_constant: "IsConstantAtom (sample_data its) (data_symbol 3)"
  by (simp add: IsConstantAtom_def sample_data_def inst_users_def)

theorem constant_atom_only_loaded_witness:
  "is_load (p_inst (sample_data []) 2) \<or> passes_on (p_inst (sample_data []) 2)"
proof -
  have "flows (sample_data []) {1} 2"
    by (rule flows.intros(2)[OF flows.intros(1)]) (simp_all add: sample_data_def passes_on_def inst_users_def)
  then show ?thesis
    using constant_atom_only_loaded[OF sample_data_constant, of "[]" "data_symbol 3" 2] by (simp add: sample_data_def)
qed



text \<open>A folded load of four bytes at any offset into a 32-bit integer gives the whole integer: the
  offset into the item is not tested, so a load across the end of the integer is folded to a wrong value.\<close>

theorem load_ignores_offset:
  assumes "g_kind g = G_ATOM" "IsConstantAtom p g" "0 \<le> sint base"
    and "find_item (p_items p (g_id g)) 0 base = Some (k, off)" "p_items p (g_id g) ! k = ItemInt32 v"
  shows "VisitLoadInst A C p I32 (LGlobal g base) = returns (LInt (ap_make A 32 (scast v) True))"
  using assms by (simp add: VisitLoadInst_def load_at_def LoadIntItem_def)

theorem load_ignores_offset_witness:
  "VisitLoadInst bv_ops sample_floats (sample_data [ItemInt32 1, ItemInt32 2]) I32 (LGlobal (data_symbol 3) 2) =
     returns (LInt (bv_of 32 1)) \<and>
   take 4 (drop 2 (contents True [ItemInt32 1, ItemInt32 2 :: dbl item])) = (int_bytes True 4 0x20000 :: dbl mbyte list)"
proof
  show "VisitLoadInst bv_ops sample_floats (sample_data [ItemInt32 1, ItemInt32 2]) I32 (LGlobal (data_symbol 3) 2) =
     returns (LInt (bv_of 32 1))"
    by (subst load_ignores_offset[OF _ sample_data_constant, where k = 0 and off = 2 and v = 1])
      (simp_all add: sample_data_def bv_ops_def)
qed (simp add: int_bytes_def upt_rec)

end
