(* ===== verification/SccpSolution.thy ===== *)
theory SccpSolution
  imports SccpRun SccpLoadSound
begin

text \<open>
  The properties of the solver as a whole, with a sample program on which they are applied: a function
  with one argument, a comparison that folds, a branch with one live side and a PHI.
\<close>

declare drain.simps [code] solve_loop.simps [code]

subsection \<open>A sample program\<close>

definition sample_func :: "nat \<Rightarrow> global" where
  "sample_func i = \<lparr>g_id = i, g_kind = G_FUNC, g_visibility = Vis_GLOBAL_DEFAULT, g_align = None\<rparr>"

definition sample_insts :: "nat \<Rightarrow> (bv, dbl) sinst" where
  "sample_insts i =
     (if i = 100 then S_ARG 0 I8
      else if i = 101 then S_MOV I8 (MovConstInt (bv_of 8 6))
      else if i = 102 then S_CMP C_ULT I8 (101, 0) (101, 0)
      else if i = 103 then S_JUMP_COND (102, 0) 11 12
      else if i = 110 then S_JUMP 12
      else if i = 120 then S_PHI I8 [(10, (101, 0)), (11, (100, 0))]
      else S_RETURN [(120, 0)])"

definition sample_prog :: "(bv, dbl) sprog" where
  "sample_prog = \<lparr>p_funcs = [sample_func 1], p_address_taken = (\<lambda>_. False), p_blocks = (\<lambda>_. [10, 11, 12]),
     p_insts = (\<lambda>b. if b = 10 then [100, 101, 102, 103] else if b = 11 then [110] else if b = 12 then [120, 121] else []),
     p_inst = sample_insts, p_block = (\<lambda>i. i div 10), p_func = (\<lambda>_. 1),
     p_uses = [((100, 0), [120]), ((101, 0), [102, 102, 120]), ((102, 0), [103]), ((120, 0), [121])],
     p_align = (\<lambda>_. 64), p_items = (\<lambda>_. []), p_object = (\<lambda>_. []), p_const_data = (\<lambda>_. False), p_name = (\<lambda>_. []),
     p_atom_users = (\<lambda>_. []), p_x86 = (\<lambda>_. None)\<rparr>"

definition solution_of :: "(bv, dbl) sprog \<Rightarrow> (bv, dbl) sccp_state" where
  "solution_of p = (case solve bv_ops dbl_ops sample_floats p of Some (Inr s) \<Rightarrow> s | _ \<Rightarrow> initial_state)"

lemma solution_ofI:
  assumes "map_option (\<lambda>r. case r of Inr _ \<Rightarrow> True | Inl _ \<Rightarrow> False) (solve bv_ops dbl_ops sample_floats p) = Some True"
  shows "solve bv_ops dbl_ops sample_floats p = Some (returns (solution_of p))"
proof (cases "solve bv_ops dbl_ops sample_floats p")
  case (Some r)
  then show ?thesis using assms by (cases r) (simp_all add: solution_of_def)
qed (use assms in simp)

lemma sample_solved: "solve bv_ops dbl_ops sample_floats sample_prog = Some (returns (solution_of sample_prog))"
  by (rule solution_ofI) code_simp

lemma prog_okI:
  assumes "\<And>b. b \<notin> set bs \<Longrightarrow> p_insts p b = []"
    and "\<forall>b \<in> set bs. \<forall>i \<in> set (p_insts p b). p_block p i = b \<and> (is_phi (p_inst p i) \<longrightarrow> i \<in> set (block_phis p b)) \<and>
      (\<forall>r \<in> set (operands (p_inst p i)). i \<in> set (reg_users p r))"
  shows "prog_ok p"
proof -
  have "b \<in> set bs" if "i \<in> set (p_insts p b)" for b i using assms(1)[of b] that by (cases "b \<in> set bs") simp_all
  then show ?thesis using assms(2) unfolding prog_ok_def by blast
qed

lemma sample_prog_ok: "prog_ok sample_prog"
  by (rule prog_okI[where bs = "[10, 11, 12]"]) (simp add: sample_prog_def, code_simp)

lemma sample_executable: "executable (solution_of sample_prog) = {10, 12}"
  by code_simp

lemma sample_typed: "typed_solution bv_ops bv_uval dbl_ops sample_floats sample_prog (solution_of sample_prog)"
  by code_simp

lemma sample_values: "vals (solution_of sample_prog) (100, 0) = LOverdefined"
    "vals (solution_of sample_prog) (101, 0) = LInt (bv_of 8 6)" "vals (solution_of sample_prog) (102, 0) = LInt (bv_of 8 0)"
    "vals (solution_of sample_prog) (120, 0) = LInt (bv_of 8 6)"
  by code_simp+

lemma sample_joins: "joins_ok bv_ops bv_uval dbl_ops LUnknown
    (phi_values (p_block sample_prog 120) [(10, (101, 0)), (11, (100, 0))] (solution_of sample_prog))"
  by code_simp

subsection \<open>Properties\<close>




lemma exec_one:
  assumes "safe_at A uval F E p s \<rho> i" "computes A uval F E ext \<rho> i (p_inst p i) 0 w" "\<And>k. \<rho> (i, k) = None"
  shows "run_step A uval F E p s ext ext_edge (b, i # is, \<rho>) (b, is, \<rho>((i, 0) := w))"
proof (rule exec[OF assms(1)])
  show "computes A uval F E ext \<rho> i (p_inst p i) k ((\<rho>((i, 0) := w)) (i, k))" for k
    using assms(2,3) undefined by (cases k) simp_all
qed auto

definition sample_ext :: "nat \<Rightarrow> nat \<Rightarrow> (bv, dbl) machine_val \<Rightarrow> bool" where
  "sample_ext i k v \<longleftrightarrow> i = 100 \<and> k = 0 \<and> v = VInt (bv_of 8 3)"

abbreviation sample_run :: "(bv, dbl) point \<Rightarrow> (bv, dbl) point \<Rightarrow> bool" where
  "sample_run \<equiv> run_step bv_ops bv_uval dbl_ops sample_env sample_prog (solution_of sample_prog) sample_ext (\<lambda>_ _. False)"

lemma sample_runs:
  "\<exists>\<rho>. sample_run\<^sup>*\<^sup>* (10, p_insts sample_prog 10, \<lambda>_. None) (12, [121], \<rho>) \<and> \<rho> (120, 0) = Some (VInt (bv_of 8 6))"
proof -
  let ?v = "\<lambda>n. Some (VInt (bv_of 8 n)) :: (bv, dbl) machine_val option"
  let ?r0 = "\<lambda>_. None :: (bv, dbl) machine_val option"
  let ?r1 = "?r0((100, 0) := ?v 3)"
  let ?r2 = "?r1((101, 0) := ?v 6)"
  let ?r3 = "?r2((102, 0) := ?v 0)"
  let ?r4 = "?r3((120, 0) := ?v 6)"
  note inst = sample_prog_def sample_insts_def
  have i: "p_inst sample_prog 100 = S_ARG 0 I8" "p_inst sample_prog 101 = S_MOV I8 (MovConstInt (bv_of 8 6))"
    "p_inst sample_prog 102 = S_CMP C_ULT I8 (101, 0) (101, 0)" "p_inst sample_prog 103 = S_JUMP_COND (102, 0) 11 12"
    "p_inst sample_prog 120 = S_PHI I8 [(10, (101, 0)), (11, (100, 0))]" "p_insts sample_prog 10 = [100, 101, 102, 103]"
    by (simp_all add: inst)
  have p: "block_phis sample_prog 12 = [120]" "block_body sample_prog 12 = [121]"
    by (simp_all add: block_phis_def block_body_def inst)
  have "sample_run (10, [100, 101, 102, 103], ?r0) (10, [101, 102, 103], ?r1)"
    by (rule exec_one) (simp_all add: safe_at_def i external sample_ext_def open_inst_def outer_inst_def)
  moreover have "sample_run (10, [101, 102, 103], ?r1) (10, [102, 103], ?r2)"
    by (rule exec_one) (simp_all add: safe_at_def i move_int bv_ops_def signed_value_def)
  moreover have "sample_run (10, [102, 103], ?r2) (10, [103], ?r3)"
  proof (rule exec_one)
    show "computes bv_ops bv_uval dbl_ops sample_env sample_ext ?r2 102 (p_inst sample_prog 102) 0 (?v 0)"
      unfolding i by (rule computes.compare[where x = "bv_of 8 6" and y = "bv_of 8 6" and v = False]) (simp_all add: int_compare_def code_groups bv_ops_def)
  qed (simp_all add: safe_at_def i sample_values low_pointer_def VisitCmpInst_def VisitCmpInt_def MakeBoolean_def split: sum.splits)
  moreover have "sample_run (10, [103], ?r3) (12, [121], ?r4)"
    unfolding p(2)[symmetric]
  proof (rule jump)
    show "goes_to bv_ops bv_uval dbl_ops (\<lambda>_ _. False) ?r3 103 (p_inst sample_prog 103) 12"
      unfolding i using goes_to.intros(2)[of ?r3 "(102, 0)" "VInt (bv_of 8 0)" bv_ops bv_uval dbl_ops "\<lambda>_ _. False" 103 11 12]
      by simp
    show "safe_at bv_ops bv_uval dbl_ops sample_env sample_prog (solution_of sample_prog) ?r3 j"
      if "j \<in> set (block_phis sample_prog 12)" for j
      using that sample_joins by (simp add: p safe_at_def i)
  qed (auto simp: safe_at_def i sample_values weak_address_def enter_block_def p)
  ultimately show ?thesis unfolding i
    by (intro exI[of _ ?r4] conjI) (meson rtranclp.rtrancl_refl converse_rtranclp_into_rtranclp, simp)
qed


text \<open>C20: The entry of every function that is visible from outside or has its address taken is executable
  and its arguments are overdefined, whatever the loop does afterwards.\<close>

theorem solve_marks_roots:
  assumes "solve A F C p = Some (returns s)" "g \<in> set (p_funcs p)" "IsRoot g \<or> p_address_taken p (g_id g)"
  shows "hd (p_blocks p (g_id g)) \<in> executable s \<and>
    (\<forall>is \<in> snd ` set (func_args p (g_id g)). \<forall>i \<in> set is. 0 < GetNumRets (p_inst p i) \<longrightarrow> IsOverdefined (vals s (i, 0)))"
  using solve_roots_aux[OF assms] .

theorem solve_marks_roots_witness:
  "10 \<in> executable (solution_of sample_prog)"
  using solve_marks_roots[OF sample_solved, of "sample_func 1"]
  by (simp add: sample_prog_def sample_func_def IsRoot_def)

text \<open>C13: A visit keeps the worklists and the call graph well formed: what is queued lies in executable
  blocks, so the next visit passes its assertion; every target of a marked edge is executable, every new
  executable block is queued, and the users of every register that changed are queued.\<close>

theorem visit_keeps_worklists:
  assumes "Visit A F C p i s = returns s'" "solver_ok p s" "calls_ok p s"
  shows "solver_ok p s' \<and> calls_ok p s' \<and> wakes p s s'"
proof -
  have d: "Dispatch A F C p i s = returns s'" using assms(1) by (auto simp: Visit_def split: if_splits)
  show ?thesis using Dispatch_good[OF d assms(3)] Dispatch_calls_ok[OF d assms(3)] assms(2) by (simp add: good_step_def)
qed

theorem visit_keeps_worklists_witness:
  "\<exists>s'. Visit bv_ops dbl_ops sample_floats sample_prog 101 (initial_state\<lparr>executable := {10}\<rparr>) = returns s' \<and>
     instList s' = [102, 102] \<and> solver_ok sample_prog s' \<and> wakes sample_prog (initial_state\<lparr>executable := {10}\<rparr>) s'"
proof -
  let ?s = "initial_state\<lparr>executable := {10}\<rparr> :: (bv, dbl) sccp_state"
  let ?v = "Visit bv_ops dbl_ops sample_floats sample_prog 101 ?s"
  have l: "map_sum id instList ?v = returns [102, 102]" by code_simp
  then obtain s' where s': "?v = returns s'" by (cases ?v) simp_all
  have "solver_ok sample_prog ?s" "calls_ok sample_prog ?s"
    by (simp_all add: solver_ok_def queued_def calls_ok_def calls_of_def initial_state_def)
  then show ?thesis using visit_keeps_worklists[OF s'] s' l by auto
qed

text \<open>A switch on a negative constant passes the test against the number of successors and asks for a
  successor that does not exist.\<close>

theorem switch_negative_fails:
  assumes "vals s idx = LInt k" "sint (ap_getSExtValue A k) < 0"
  shows "VisitSwitchInst A F p i idx bs s = Inl BadIterator"
  using assms by (simp add: VisitSwitchInst_def Let_def)

theorem switch_negative_fails_witness:
  "VisitSwitchInst bv_ops dbl_ops sample_prog 103 (101, 0) [11, 12]
     (initial_state\<lparr>vals := \<lambda>_. LInt (bv_of 8 0xFF)\<rparr>) = Inl BadIterator"
  by (rule switch_negative_fails[where k = "bv_of 8 0xFF"]) (simp, code_simp)

definition frame_call_prog :: "(bv, dbl) sprog" where
  "frame_call_prog = sample_prog\<lparr>p_blocks := (\<lambda>_. [10, 11]), p_insts := (\<lambda>b. if b = 10 then [100, 101] else if b = 11 then [110] else []),
     p_inst := (\<lambda>i. if i = 100 then S_MOV I64 (MovGlobal (sample_func 2))
       else if i = 101 then S_FRAME_CALL (100, 0) [] [] (100, 0) 11 else S_RETURN []),
     p_uses := [((100, 0), [101, 101])]\<rparr>"


end
