(* ===== verification/BitNode.thy ===== *)
theory BitNode
  imports OrdMap
begin

text \<open>
  The nodes of the sparse bit set (\<^verbatim>\<open>BitSet::Node\<close> of \<^verbatim>\<open>core/adt/bitset.h\<close>): eight 64-bit words that
  hold the 512 bits of a chunk. \<open>node_bits\<close> is the set of bits a node stands for; each operation
  is shown to be the operation on that set, with its result.
\<close>

subsection \<open>Counting and searching bits\<close>

text \<open>The compiler's \<^verbatim>\<open>__builtin_popcountll\<close>, \<^verbatim>\<open>__builtin_ctzll\<close> and \<^verbatim>\<open>__builtin_clzll\<close>.\<close>

definition popcount :: "64 word \<Rightarrow> nat" where
  "popcount w = length (filter (bit w) [0..<64])"

definition ctz :: "64 word \<Rightarrow> nat" where
  "ctz w = length (takeWhile (\<lambda>i. \<not> bit w i) [0..<64])"

definition clz :: "64 word \<Rightarrow> nat" where
  "clz w = length (takeWhile (\<lambda>i. \<not> bit w i) (rev [0..<64]))"

lemma popcount_card: "popcount w = card {i. bit w i}"
proof -
  have "{i. bit w i} = set (filter (bit w) [0..<64])"
    by (auto dest: bit_imp_le_length)
  moreover have "distinct (filter (bit w) [0..<64])" by simp
  ultimately show ?thesis using distinct_card unfolding popcount_def by metis
qed

lemma word_nonzero_bit: "(w :: 64 word) \<noteq> 0 \<longleftrightarrow> (\<exists>i < 64. bit w i)"
  using bit_imp_le_length[of w] by (auto simp: bit_eq_iff)

lemma takeWhile_first:
  assumes "\<exists>x \<in> set xs. \<not> P x"
  shows "length (takeWhile P xs) < length xs \<and> \<not> P (xs ! length (takeWhile P xs)) \<and>
    (\<forall>i < length (takeWhile P xs). P (xs ! i))"
proof -
  have "takeWhile P xs \<noteq> xs" using assms by (metis takeWhile_eq_all_conv)
  then have "length (takeWhile P xs) < length xs"
    by (metis length_takeWhile_le linorder_le_less_linear order_antisym_conv takeWhile_eq_take take_all)
  then show ?thesis
    using nth_length_takeWhile[of P xs] by (metis nth_mem set_takeWhileD takeWhile_nth)
qed

lemma ctz_first:
  assumes "w \<noteq> 0"
  shows "ctz w < 64 \<and> bit w (ctz w) \<and> (\<forall>i < ctz w. \<not> bit w i)"
proof -
  have "\<exists>x \<in> set [0..<64]. \<not> \<not> bit w x" using assms by (auto simp: word_nonzero_bit)
  from takeWhile_first[OF this] show ?thesis by (fold ctz_def) auto
qed

lemma clz_last:
  assumes "w \<noteq> 0"
  shows "clz w < 64 \<and> bit w (63 - clz w) \<and> (\<forall>i. 63 - clz w < i \<longrightarrow> \<not> bit w i)"
proof -
  have "\<exists>x \<in> set (rev [0..<64]). \<not> \<not> bit w x" using assms by (auto simp: word_nonzero_bit)
  from takeWhile_first[OF this]
  have f: "clz w < 64" "bit w (rev [0..<64] ! clz w)" "\<And>i. i < clz w \<Longrightarrow> \<not> bit w (rev [0..<64] ! i)"
    by (fold clz_def) auto
  have ix: "rev [0..<64] ! j = 63 - j" if "j < 64" for j
    using that by (subst rev_nth) auto
  have "\<not> bit w i" if "63 - clz w < i" for i
  proof (cases "i < 64")
    case True
    then have "\<not> bit w (rev [0..<64] ! (63 - i))" using that f(1) by (intro f(3)) linarith
    moreover have "63 - (63 - i) = i" using True by simp
    ultimately show ?thesis using ix[of "63 - i"] by simp
  qed (use bit_imp_le_length[of w i] in auto)
  then show ?thesis using f(1,2) ix[OF f(1)] by simp
qed

subsection \<open>Nodes\<close>

type_synonym node = "64 word list"

definition new_node :: node where
  "new_node = replicate 8 0"

text \<open>\<^verbatim>\<open>arr[bucket]\<close>, with the index and the shift the operations compute from a bit.\<close>

definition NodeInsert :: "node \<Rightarrow> nat \<Rightarrow> node \<times> bool" where
  "NodeInsert arr b =
     (let bucket = b div 64;
          mask = push_bit (b - bucket * 64) 1;
          val = arr ! bucket;
          inserted = (val AND mask = 0)
      in (arr[bucket := val OR mask], inserted))"

definition NodeContains :: "node \<Rightarrow> nat \<Rightarrow> bool" where
  "NodeContains arr b =
     (let bucket = b div 64; mask = push_bit (b - bucket * 64) 1
      in arr ! bucket AND mask \<noteq> 0)"

definition NodeErase :: "node \<Rightarrow> nat \<Rightarrow> node \<times> bool" where
  "NodeErase arr b =
     (let bucket = b div 64;
          arr' = arr[bucket := arr ! bucket AND NOT (push_bit (b - bucket * 64) 1)]
      in (arr', \<forall>i \<in> {0..<8}. arr' ! i = 0))"

definition NodeSize :: "node \<Rightarrow> nat" where
  "NodeSize arr = (\<Sum>i \<leftarrow> [0..<8]. popcount (arr ! i))"

definition node_eq :: "node \<Rightarrow> node \<Rightarrow> bool" where
  "node_eq arr that = (\<forall>i \<in> {0..<8}. arr ! i = that ! i)"

definition NodeUnion :: "node \<Rightarrow> node \<Rightarrow> node \<times> nat" where
  "NodeUnion arr that =
     (map (\<lambda>i. arr ! i OR that ! i) [0..<8],
      \<Sum>i \<leftarrow> [0..<8]. popcount (arr ! i XOR (arr ! i OR that ! i)))"

definition NodeSubtract :: "node \<Rightarrow> node \<Rightarrow> node \<times> bool" where
  "NodeSubtract arr that =
     (let arr' = map (\<lambda>i. arr ! i AND NOT (that ! i)) [0..<8]
      in (arr', \<forall>i \<in> {0..<8}. arr' ! i = 0))"

definition NodeAnd :: "node \<Rightarrow> node \<Rightarrow> node \<times> bool" where
  "NodeAnd arr that =
     (let arr' = map (\<lambda>i. arr ! i AND that ! i) [0..<8]
      in (arr', \<forall>i \<in> {0..<8}. arr' ! i = 0))"

text \<open>The next set bit above \<open>b\<close>, or 0; the first set bit.\<close>

definition NodeNext :: "node \<Rightarrow> nat \<Rightarrow> nat" where
  "NodeNext arr b =
     (let bucket = b div 64;
          offset = b - bucket * 64;
          mask = (if offset + 1 = 64 then 0 else arr ! bucket AND NOT (push_bit (offset + 1) 1 - 1))
      in if mask \<noteq> 0 then bucket * 64 + ctz mask
         else (case List.find (\<lambda>i. arr ! i \<noteq> 0) [bucket + 1..<8] of
                 Some i \<Rightarrow> i * 64 + ctz (arr ! i)
               | None \<Rightarrow> 0))"

definition NodeFirst :: "node \<Rightarrow> nat" where
  "NodeFirst arr =
     (case List.find (\<lambda>i. arr ! i \<noteq> 0) [0..<8] of
        Some i \<Rightarrow> i * 64 + ctz (arr ! i)
      | None \<Rightarrow> 0)"

text \<open>The set bit before \<open>b\<close>, or 512; the last set bit.\<close>

definition NodePrev :: "node \<Rightarrow> nat \<Rightarrow> nat" where
  "NodePrev arr b =
     (let bucket = b div 64;
          offset = b - bucket * 64;
          mask = (if offset = 0 then 0 else arr ! bucket AND (push_bit offset 1 - 1))
      in if mask \<noteq> 0 then (bucket + 1) * 64 - clz mask - 1
         else (case List.find (\<lambda>i. arr ! i \<noteq> 0) (rev [0..<bucket]) of
                 Some i \<Rightarrow> (i + 1) * 64 - clz (arr ! i) - 1
               | None \<Rightarrow> 512))"

definition NodeLast :: "node \<Rightarrow> nat" where
  "NodeLast arr =
     (case List.find (\<lambda>i. arr ! i \<noteq> 0) (rev [0..<8]) of
        Some i \<Rightarrow> (i + 1) * 64 - clz (arr ! i) - 1
      | None \<Rightarrow> 512)"

subsection \<open>The bits of a node\<close>

definition node_ok :: "node \<Rightarrow> bool" where
  "node_ok arr \<longleftrightarrow> length arr = 8"

definition node_bits :: "node \<Rightarrow> nat set" where
  "node_bits arr = {b. b < 512 \<and> bit (arr ! (b div 64)) (b mod 64)}"

lemma bucket_offset: "b - b div 64 * 64 = b mod (64::nat)"
  by (simp add: minus_div_mult_eq_mod)

lemma node_bits_iff: "b \<in> node_bits arr \<longleftrightarrow> b < 512 \<and> bit (arr ! (b div 64)) (b mod 64)"
  by (simp add: node_bits_def)

lemma node_bits_less: "b \<in> node_bits arr \<Longrightarrow> b < 512"
  by (simp add: node_bits_def)

lemma bucket_bits: "i < 8 \<Longrightarrow> j < 64 \<Longrightarrow> i * 64 + j \<in> node_bits arr \<longleftrightarrow> bit (arr ! i) j"
  by (simp add: node_bits_def)

lemma node_zero_iff: "(\<forall>i \<in> {0..<8}. arr ! i = 0) \<longleftrightarrow> node_bits arr = {}"
proof
  show "node_bits arr = {}" if "\<forall>i \<in> {0..<8}. arr ! i = 0"
    using that by (auto simp: node_bits_def)
  show "\<forall>i \<in> {0..<8}. arr ! i = 0" if h: "node_bits arr = {}"
  proof
    fix i :: nat
    assume "i \<in> {0..<8}"
    then have "\<not> bit (arr ! i) j" if "j < 64" for j
      using bucket_bits[of i j arr] h that by auto
    then show "arr ! i = 0" using word_nonzero_bit by blast
  qed
qed

lemma bit_of_one: "bit (2 ^ n :: 64 word) i \<longleftrightarrow> i = n \<and> i < 64"
  by (auto simp: bit_exp_iff possible_bit_word)

lemma and_one_zero: "(w AND 2 ^ n = 0) \<longleftrightarrow> \<not> bit w n" if "n < 64" for w :: "64 word"
proof -
  have "(w AND 2 ^ n = 0) \<longleftrightarrow> (\<forall>i < 64. \<not> (bit w i \<and> i = n))"
    using word_nonzero_bit[of "w AND 2 ^ n"] by (auto simp: bit_and_iff bit_of_one)
  then show ?thesis using that by auto
qed

lemma new_node_bits [simp]: "node_bits new_node = {}" "node_ok new_node"
  by (auto simp: node_bits_def new_node_def node_ok_def)

lemma NodeContains_iff: "b < 512 \<Longrightarrow> NodeContains arr b \<longleftrightarrow> b \<in> node_bits arr"
  by (simp add: NodeContains_def Let_def bucket_offset and_one_zero node_bits_def)

lemma NodeInsert_bits:
  assumes "node_ok arr" "b < 512" "NodeInsert arr b = (arr', ins)"
  shows "node_ok arr' \<and> node_bits arr' = insert b (node_bits arr) \<and> ins = (b \<notin> node_bits arr)"
proof -
  have w: "b div 64 < length arr" using assms by (simp add: node_ok_def)
  have "ins = (b \<notin> node_bits arr)"
    using assms(2,3) by (auto simp: NodeInsert_def Let_def bucket_offset and_one_zero node_bits_def)
  moreover have "x \<in> node_bits arr' \<longleftrightarrow> x \<in> insert b (node_bits arr)" for x
  proof (cases "x div 64 = b div 64")
    case True
    have "x = b \<longleftrightarrow> x mod 64 = b mod 64" using True by (metis div_mult_mod_eq)
    then show ?thesis using True w assms(2,3)
      by (auto simp: NodeInsert_def Let_def node_bits_def bucket_offset bit_or_iff bit_of_one)
  next
    case False
    then show ?thesis using w assms(2,3)
      by (auto simp: NodeInsert_def Let_def node_bits_def)
  qed
  moreover have "node_ok arr'" using assms(1,3) by (auto simp: NodeInsert_def Let_def node_ok_def)
  ultimately show ?thesis by blast
qed

lemma NodeErase_bits:
  assumes "node_ok arr" "b < 512" "NodeErase arr b = (arr', zero)"
  shows "node_ok arr' \<and> node_bits arr' = node_bits arr - {b} \<and> zero = (node_bits arr' = {})"
proof -
  have w: "b div 64 < length arr" using assms by (simp add: node_ok_def)
  have "x \<in> node_bits arr' \<longleftrightarrow> x \<in> node_bits arr - {b}" for x
  proof (cases "x div 64 = b div 64")
    case True
    have "x = b \<longleftrightarrow> x mod 64 = b mod 64" using True by (metis div_mult_mod_eq)
    then show ?thesis using True w assms(2,3)
      by (auto simp: NodeErase_def Let_def node_bits_def bucket_offset bit_and_iff bit_not_iff bit_of_one)
  next
    case False
    then show ?thesis using w assms(2,3)
      by (auto simp: NodeErase_def Let_def node_bits_def)
  qed
  moreover have "zero = (node_bits arr' = {})"
    using assms(3) node_zero_iff[of arr'] by (auto simp: NodeErase_def Let_def)
  moreover have "node_ok arr'" using assms(1,3) by (auto simp: NodeErase_def Let_def node_ok_def)
  ultimately show ?thesis by blast
qed

lemma node_map_bits:
  "node_bits (map f [0..<8]) = {b. b < 512 \<and> bit (f (b div 64)) (b mod 64)}"
  by (auto simp: node_bits_def)

lemma NodeSubtract_bits:
  assumes "NodeSubtract arr that = (arr', zero)"
  shows "node_ok arr' \<and> node_bits arr' = node_bits arr - node_bits that \<and> zero = (node_bits arr' = {})"
  using assms node_zero_iff[of arr']
  by (auto simp: NodeSubtract_def Let_def node_ok_def node_map_bits bit_and_iff bit_not_iff node_bits_iff)

lemma NodeAnd_bits:
  assumes "NodeAnd arr that = (arr', zero)"
  shows "node_ok arr' \<and> node_bits arr' = node_bits arr \<inter> node_bits that \<and> zero = (node_bits arr' = {})"
  using assms node_zero_iff[of arr']
  by (auto simp: NodeAnd_def Let_def node_ok_def node_map_bits bit_and_iff node_bits_iff)

lemma sum_list_card: "(\<Sum>i \<leftarrow> [0..<n]. card {j. j < 64 \<and> P (i * 64 + j)}) = card {b. b < n * 64 \<and> P b}"
  for P :: "nat \<Rightarrow> bool"
proof (induction n)
  case (Suc n)
  have split: "{b. b < Suc n * 64 \<and> P b} = {b. b < n * 64 \<and> P b} \<union> (\<lambda>j. n * 64 + j) ` {j. j < 64 \<and> P (n * 64 + j)}"
  proof
    show "{b. b < Suc n * 64 \<and> P b} \<subseteq> {b. b < n * 64 \<and> P b} \<union> (\<lambda>j. n * 64 + j) ` {j. j < 64 \<and> P (n * 64 + j)}"
    proof
      fix b
      assume b: "b \<in> {b. b < Suc n * 64 \<and> P b}"
      show "b \<in> {b. b < n * 64 \<and> P b} \<union> (\<lambda>j. n * 64 + j) ` {j. j < 64 \<and> P (n * 64 + j)}"
      proof (cases "b < n * 64")
        case False
        then have "b = n * 64 + (b - n * 64)" "b - n * 64 < 64" using b by auto
        then show ?thesis using b by (intro UnI2 image_eqI[of _ _ "b - n * 64"]) auto
      qed (use b in auto)
    qed
  qed auto
  have "card {b. b < Suc n * 64 \<and> P b} = card {b. b < n * 64 \<and> P b} + card {j. j < 64 \<and> P (n * 64 + j)}"
    unfolding split by (subst card_Un_disjoint) (auto simp: card_image inj_on_def)
  then show ?case using Suc by simp
qed simp

lemma popcount_sum:
  assumes "\<And>i j. i < 8 \<Longrightarrow> j < 64 \<Longrightarrow> bit (f i) j \<longleftrightarrow> i * 64 + j \<in> S" "S \<subseteq> {b. b < 512}"
  shows "(\<Sum>i \<leftarrow> [0..<8]. popcount (f i)) = card S"
proof -
  have "popcount (f i) = card {j. j < 64 \<and> i * 64 + j \<in> S}" if "i < 8" for i
  proof -
    have "{j. bit (f i) j} = {j. j < 64 \<and> i * 64 + j \<in> S}"
      using assms(1)[OF that] bit_imp_le_length[of "f i"] by auto
    then show ?thesis by (simp add: popcount_card)
  qed
  then have "(\<Sum>i \<leftarrow> [0..<8]. popcount (f i)) = (\<Sum>i \<leftarrow> [0..<8]. card {j. j < 64 \<and> i * 64 + j \<in> S})"
    by (intro arg_cong[of _ _ sum_list] map_cong) auto
  also have "\<dots> = card {b. b < 8 * 64 \<and> b \<in> S}" by (rule sum_list_card)
  also have "{b. b < 8 * 64 \<and> b \<in> S} = S" using assms(2) by auto
  finally show ?thesis .
qed

lemma NodeSize_card: "NodeSize arr = card (node_bits arr)"
  unfolding NodeSize_def by (rule popcount_sum) (auto simp: bucket_bits node_bits_less)

lemma NodeUnion_bits:
  assumes "NodeUnion arr that = (arr', n)"
  shows "node_ok arr' \<and> node_bits arr' = node_bits arr \<union> node_bits that \<and>
    n = card (node_bits that - node_bits arr)"
proof -
  have "n = card (node_bits that - node_bits arr)"
  proof -
    have "n = (\<Sum>i \<leftarrow> [0..<8]. popcount (arr ! i XOR (arr ! i OR that ! i)))"
      using assms by (simp add: NodeUnion_def)
    also have "\<dots> = card (node_bits that - node_bits arr)"
      by (rule popcount_sum) (auto simp: bucket_bits node_bits_less bit_xor_iff bit_or_iff)
    finally show ?thesis .
  qed
  moreover have "arr' = map (\<lambda>i. arr ! i OR that ! i) [0..<8]" using assms by (simp add: NodeUnion_def)
  ultimately show ?thesis
    by (auto simp: node_ok_def node_map_bits bit_or_iff node_bits_iff)
qed

lemma node_eq_bits: "node_eq arr that \<longleftrightarrow> node_bits arr = node_bits that"
proof
  assume h: "node_bits arr = node_bits that"
  show "node_eq arr that"
    unfolding node_eq_def
  proof
    fix i :: nat
    assume i: "i \<in> {0..<8}"
    have "bit (arr ! i) j = bit (that ! i) j" for j
      using bucket_bits[of i j] i h bit_imp_le_length[of "arr ! i" j] bit_imp_le_length[of "that ! i" j] by auto
    then show "arr ! i = that ! i" by (simp add: bit_eq_iff)
  qed
qed (auto simp: node_eq_def node_bits_def)

lemma node_eq_ext: "node_ok a \<Longrightarrow> node_ok b \<Longrightarrow> node_bits a = node_bits b \<longleftrightarrow> a = b"
  unfolding node_eq_bits[symmetric] node_eq_def node_ok_def by (auto intro: nth_equalityI)

subsection \<open>Searching a node\<close>

lemma find_up:
  assumes "List.find (\<lambda>i. arr ! i \<noteq> (0 :: 64 word)) [lo..<8] = Some i"
  shows "lo \<le> i \<and> i < 8 \<and> arr ! i \<noteq> 0 \<and> (\<forall>j. lo \<le> j \<and> j < i \<longrightarrow> arr ! j = 0)"
proof -
  obtain n where n: "n < 8 - lo" "arr ! (lo + n) \<noteq> 0" "i = lo + n" "\<And>j. j < n \<Longrightarrow> arr ! (lo + j) = 0"
    using assms by (auto simp: find_Some_iff)
  have "arr ! j = 0" if "lo \<le> j" "j < i" for j
    using n(4)[of "j - lo"] that n(3) by simp
  then show ?thesis using n by auto
qed

lemma find_down:
  assumes "List.find (\<lambda>i. arr ! i \<noteq> (0 :: 64 word)) (rev [0..<hi]) = Some i"
  shows "i < hi \<and> arr ! i \<noteq> 0 \<and> (\<forall>j. i < j \<and> j < hi \<longrightarrow> arr ! j = 0)"
proof -
  obtain n where n: "n < hi" "arr ! (rev [0..<hi] ! n) \<noteq> 0" "i = rev [0..<hi] ! n"
      "\<And>j. j < n \<Longrightarrow> arr ! (rev [0..<hi] ! j) = 0"
    using assms by (auto simp: find_Some_iff)
  have ix: "rev [0..<hi] ! j = hi - 1 - j" if "j < hi" for j
    using that by (subst rev_nth) auto
  have "arr ! j = 0" if "i < j" "j < hi" for j
    using n(4)[of "hi - 1 - j"] that n(1,3) ix[of n] ix[of "hi - 1 - j"] by simp
  then show ?thesis using n ix[of n] by auto
qed

lemma find_none: "List.find P xs = None \<Longrightarrow> x \<in> set xs \<Longrightarrow> \<not> P x"
  by (simp add: find_None_iff)

text \<open>The first bit of the first word with bits, from word \<open>lo\<close> on; the last bit of the last one.\<close>

lemma search_up:
  "case List.find (\<lambda>i. arr ! i \<noteq> 0) [lo..<8] of
     Some i \<Rightarrow> i * 64 + ctz (arr ! i) \<in> node_bits arr \<and> lo * 64 \<le> i * 64 + ctz (arr ! i) \<and>
       (\<forall>b \<in> node_bits arr. lo * 64 \<le> b \<longrightarrow> i * 64 + ctz (arr ! i) \<le> b)
   | None \<Rightarrow> \<forall>b \<in> node_bits arr. b < lo * 64"
proof (cases "List.find (\<lambda>i. arr ! i \<noteq> 0) [lo..<8]")
  case None
  have "b < lo * 64" if "b \<in> node_bits arr" for b
  proof (rule ccontr)
    assume "\<not> b < lo * 64"
    then have "b div 64 \<in> set [lo..<8]" using that by (auto simp: node_bits_iff less_eq_div_iff_mult_less_eq)
    then have "arr ! (b div 64) = 0" using find_none[OF None] by blast
    then show False using that by (simp add: node_bits_iff)
  qed
  then show ?thesis by (simp add: None)
next
  case (Some i)
  note f = find_up[OF Some]
  then have c: "ctz (arr ! i) < 64" "bit (arr ! i) (ctz (arr ! i))" "\<forall>k < ctz (arr ! i). \<not> bit (arr ! i) k"
    using ctz_first by blast+
  have "i * 64 + ctz (arr ! i) \<le> b" if b: "b \<in> node_bits arr" "lo * 64 \<le> b" for b
  proof (rule ccontr)
    assume "\<not> i * 64 + ctz (arr ! i) \<le> b"
    moreover have "b = b div 64 * 64 + b mod 64" "b mod 64 < 64" by simp_all
    ultimately have "b div 64 < i \<or> b div 64 = i \<and> b mod 64 < ctz (arr ! i)"
      using c(1) by linarith
    then consider "b div 64 < i" | "b div 64 = i" "b mod 64 < ctz (arr ! i)" by blast
    then show False
    proof cases
      case 1
      then have "arr ! (b div 64) = 0"
        using f b(2) by (auto simp: less_eq_div_iff_mult_less_eq)
      then show False using b by (simp add: node_bits_iff)
    next
      case 2
      then show False using b c(3) by (auto simp: node_bits_iff)
    qed
  qed
  moreover have "lo * 64 \<le> i * 64 + ctz (arr ! i)" using f by (simp add: trans_le_add1)
  ultimately show ?thesis using Some f c bucket_bits[of i "ctz (arr ! i)" arr] by simp
qed

lemma search_down:
  assumes "hi \<le> 8"
  shows "case List.find (\<lambda>i. arr ! i \<noteq> 0) (rev [0..<hi]) of
     Some i \<Rightarrow> (i + 1) * 64 - clz (arr ! i) - 1 \<in> node_bits arr \<and> (i + 1) * 64 - clz (arr ! i) - 1 < hi * 64 \<and>
       (\<forall>b \<in> node_bits arr. b < hi * 64 \<longrightarrow> b \<le> (i + 1) * 64 - clz (arr ! i) - 1)
   | None \<Rightarrow> \<forall>b \<in> node_bits arr. hi * 64 \<le> b"
proof (cases "List.find (\<lambda>i. arr ! i \<noteq> 0) (rev [0..<hi])")
  case None
  have "hi * 64 \<le> b" if "b \<in> node_bits arr" for b
  proof (rule ccontr)
    assume "\<not> hi * 64 \<le> b"
    then have "b div 64 \<in> set (rev [0..<hi])" by (auto simp: div_less_iff_less_mult)
    then have "arr ! (b div 64) = 0" using find_none[OF None] by blast
    then show False using that by (simp add: node_bits_iff)
  qed
  then show ?thesis by (simp add: None)
next
  case (Some i)
  note f = find_down[OF Some]
  then have c: "clz (arr ! i) < 64" "bit (arr ! i) (63 - clz (arr ! i))"
      "\<forall>k. 63 - clz (arr ! i) < k \<longrightarrow> \<not> bit (arr ! i) k"
    using clz_last by blast+
  have e: "(i + 1) * 64 - clz (arr ! i) - 1 = i * 64 + (63 - clz (arr ! i))" using c(1) by simp
  have "b \<le> i * 64 + (63 - clz (arr ! i))" if b: "b \<in> node_bits arr" "b < hi * 64" for b
  proof (rule ccontr)
    assume "\<not> b \<le> i * 64 + (63 - clz (arr ! i))"
    moreover have "b = b div 64 * 64 + b mod 64" "b mod 64 < 64" by simp_all
    ultimately have "i < b div 64 \<or> b div 64 = i \<and> 63 - clz (arr ! i) < b mod 64"
      using c(1) by linarith
    then consider "i < b div 64" | "b div 64 = i" "63 - clz (arr ! i) < b mod 64" by blast
    then show False
    proof cases
      case 1
      moreover have "b div 64 < hi" using b(2) by (simp add: div_less_iff_less_mult)
      ultimately have "arr ! (b div 64) = 0" using f by blast
      then show False using b by (simp add: node_bits_iff)
    next
      case 2
      then show False using b c(3) by (auto simp: node_bits_iff)
    qed
  qed
  moreover have "i * 64 + (63 - clz (arr ! i)) < hi * 64" using f by linarith
  moreover have "i * 64 + (63 - clz (arr ! i)) \<in> node_bits arr"
    using f c(2) assms by (subst bucket_bits) auto
  ultimately show ?thesis unfolding Some option.case e by blast
qed

lemma NodeFirst_least:
  assumes "node_bits arr \<noteq> {}"
  shows "NodeFirst arr \<in> node_bits arr \<and> (\<forall>b \<in> node_bits arr. NodeFirst arr \<le> b)"
  using search_up[of arr 0] assms by (auto simp: NodeFirst_def split: option.splits)

lemma NodeLast_greatest:
  assumes "node_bits arr \<noteq> {}"
  shows "NodeLast arr \<in> node_bits arr \<and> (\<forall>b \<in> node_bits arr. b \<le> NodeLast arr)"
proof -
  have b: "\<forall>b \<in> node_bits arr. b < 8 * 64" using node_bits_less by force
  then show ?thesis
    using search_down[of 8 arr] assms unfolding NodeLast_def
    by (cases "List.find (\<lambda>i. arr ! i \<noteq> 0) (rev [0..<8])") fastforce+
qed

text \<open>The order of bits is that of their words and of their places in a word.\<close>

lemma bit_order:
  fixes q r q' r' :: nat
  assumes "r < 64" "r' < 64"
  shows "q * 64 + r < q' * 64 + r' \<longleftrightarrow> q < q' \<or> q = q' \<and> r < r'"
  using assms by (cases q q' rule: linorder_cases) auto

lemma bit_order_split: "(r::nat) < 64 \<Longrightarrow> q * 64 + r < c \<longleftrightarrow> q < c div 64 \<or> q = c div 64 \<and> r < c mod 64"
  using bit_order[of r "c mod 64" q "c div 64"] by simp

lemma bit_order_split': "(r::nat) < 64 \<Longrightarrow> c < q * 64 + r \<longleftrightarrow> c div 64 < q \<or> c div 64 = q \<and> c mod 64 < r"
  using bit_order[of "c mod 64" r "c div 64" q] by simp

text \<open>The neighbours of a bit.\<close>

lemma NodeNext_least:
  assumes "b < 512"
  shows "if \<exists>c \<in> node_bits arr. b < c
     then NodeNext arr b \<in> node_bits arr \<and> b < NodeNext arr b \<and>
       (\<forall>c \<in> node_bits arr. b < c \<longrightarrow> NodeNext arr b \<le> c)
     else NodeNext arr b = 0"
proof -
  define q r where "q = b div 64" and "r = b mod 64"
  have b: "b = q * 64 + r" "r < 64" "q < 8" using assms by (auto simp: q_def r_def)
  define m where "m = (if r + 1 = 64 then 0 else arr ! q AND NOT (push_bit (r + 1) 1 - 1))"
  have nx: "NodeNext arr b = (if m \<noteq> 0 then q * 64 + ctz m
      else case List.find (\<lambda>i. arr ! i \<noteq> 0) [q + 1..<8] of Some i \<Rightarrow> i * 64 + ctz (arr ! i) | None \<Rightarrow> 0)"
    by (simp add: NodeNext_def Let_def bucket_offset m_def q_def r_def)
  have bits_m: "bit m i \<longleftrightarrow> r < i \<and> bit (arr ! q) i" for i
  proof (cases "r + 1 = 64")
    case True
    then show ?thesis using bit_imp_le_length[of "arr ! q" i] by (auto simp: m_def)
  next
    case False
    have "push_bit (r + 1) 1 - 1 = (mask (r + 1) :: 64 word)" by (simp add: mask_eq_exp_minus_1)
    then show ?thesis
      using False bit_imp_le_length[of "arr ! q" i]
      by (auto simp: m_def bit_and_iff bit_not_iff bit_mask_iff)
  qed
  show ?thesis
  proof (cases "m = 0")
    case True
    have none: "c \<ge> (q + 1) * 64" if "c \<in> node_bits arr" "b < c" for c
    proof (rule ccontr)
      assume "\<not> c \<ge> (q + 1) * 64"
      then have "c div 64 < q + 1" by (simp add: div_less_iff_less_mult)
      then have "c div 64 = q" "r < c mod 64" using that(2) b bit_order_split[of r q c] by auto
      then show False using that(1) bits_m[of "c mod 64"] True by (simp add: node_bits_iff)
    qed
    have up: "b < c" if "(q + 1) * 64 \<le> c" for c using that b by simp
    show ?thesis
      using search_up[of arr "q + 1"] none up unfolding nx
      by (cases "List.find (\<lambda>i. arr ! i \<noteq> 0) [q + 1..<8]") (auto simp: True not_less[symmetric])
  next
    case False
    note c = ctz_first[OF False]
    have mem: "q * 64 + ctz m \<in> node_bits arr" "b < q * 64 + ctz m"
      using c bits_m[of "ctz m"] b bucket_bits[of q "ctz m" arr] by auto
    have "q * 64 + ctz m \<le> d" if d: "d \<in> node_bits arr" "b < d" for d
    proof (rule ccontr)
      assume "\<not> q * 64 + ctz m \<le> d"
      then have "d div 64 = q" "r < d mod 64" "d mod 64 < ctz m"
        using d(2) b c bit_order_split[of r q d] bit_order_split'[of "ctz m" d q] by auto
      then show False using d(1) bits_m[of "d mod 64"] c by (simp add: node_bits_iff)
    qed
    then show ?thesis using mem False unfolding nx by auto
  qed
qed

lemma NodePrev_greatest:
  assumes "b < 512"
  shows "if \<exists>c \<in> node_bits arr. c < b
     then NodePrev arr b \<in> node_bits arr \<and> NodePrev arr b < b \<and>
       (\<forall>c \<in> node_bits arr. c < b \<longrightarrow> c \<le> NodePrev arr b)
     else NodePrev arr b = 512"
proof -
  define q r where "q = b div 64" and "r = b mod 64"
  have b: "b = q * 64 + r" "r < 64" "q < 8" using assms by (auto simp: q_def r_def)
  define m where "m = (if r = 0 then 0 else arr ! q AND (push_bit r 1 - 1))"
  have pv: "NodePrev arr b = (if m \<noteq> 0 then (q + 1) * 64 - clz m - 1
      else case List.find (\<lambda>i. arr ! i \<noteq> 0) (rev [0..<q]) of
        Some i \<Rightarrow> (i + 1) * 64 - clz (arr ! i) - 1 | None \<Rightarrow> 512)"
    by (simp only: NodePrev_def Let_def bucket_offset m_def q_def r_def)
  have bits_m: "bit m i \<longleftrightarrow> i < r \<and> bit (arr ! q) i" for i
  proof -
    have "push_bit r 1 - 1 = (mask r :: 64 word)" by (simp add: mask_eq_exp_minus_1)
    then show ?thesis
      using bit_imp_le_length[of "arr ! q" i] by (auto simp: m_def bit_and_iff bit_mask_iff)
  qed
  show ?thesis
  proof (cases "m = 0")
    case True
    have none: "c < q * 64" if "c \<in> node_bits arr" "c < b" for c
    proof (rule ccontr)
      assume "\<not> c < q * 64"
      then have "\<not> c div 64 < q" by (simp add: div_less_iff_less_mult)
      then have "c div 64 = q" "c mod 64 < r" using that(2) b bit_order_split'[of r c q] by auto
      then show False using that(1) bits_m[of "c mod 64"] True by (simp add: node_bits_iff)
    qed
    have down: "c < b" if "c < q * 64" for c using that b by simp
    have q: "q \<le> 8" using b by simp
    show ?thesis
    proof (cases "List.find (\<lambda>i. arr ! i \<noteq> 0) (rev [0..<q])")
      case None
      then have "\<not> (\<exists>c \<in> node_bits arr. c < b)"
        using search_down[OF q, of arr] none by (fastforce simp: not_less[symmetric])
      then show ?thesis using None True unfolding pv by simp
    next
      case (Some i)
      then have "NodePrev arr b = (i + 1) * 64 - clz (arr ! i) - 1" unfolding pv by (simp add: True)
      then have "NodePrev arr b \<in> node_bits arr" "NodePrev arr b < q * 64"
          "\<forall>c \<in> node_bits arr. c < q * 64 \<longrightarrow> c \<le> NodePrev arr b"
        using search_down[OF q, of arr] unfolding Some by simp_all
      then show ?thesis using none down by auto
    qed
  next
    case False
    define h where "h = 63 - clz m"
    have c: "h < 64" "bit m h" "\<forall>i. h < i \<longrightarrow> \<not> bit m i" "(q + 1) * 64 - clz m - 1 = q * 64 + h"
      using clz_last[OF False] by (simp_all add: h_def)
    have r: "h < r" using c bits_m by blast
    have mem: "q * 64 + h \<in> node_bits arr"
      using c bits_m[of h] b by (subst bucket_bits) auto
    have less: "q * 64 + h < b" using b r by simp
    have "d \<le> q * 64 + h" if d: "d \<in> node_bits arr" "d < b" for d
    proof (rule ccontr)
      assume "\<not> d \<le> q * 64 + h"
      then have "q < d div 64 \<or> q = d div 64 \<and> h < d mod 64"
        using bit_order_split[OF c(1), of q d] by simp
      moreover have "d div 64 < q \<or> d div 64 = q \<and> d mod 64 < r"
        using d(2) bit_order_split'[OF b(2), of d q] unfolding b(1) by simp
      ultimately have "d div 64 = q" "d mod 64 < r" "h < d mod 64" by auto
      then show False using d(1) bits_m[of "d mod 64"] c by (simp add: node_bits_iff)
    qed
    then show ?thesis using mem less False unfolding pv c(4) by auto
  qed
qed

end
