(* ===== verification/BitSet.thy ===== *)
theory BitSet
  imports BitNode
begin

text \<open>
  The sparse bit set (\<^verbatim>\<open>BitSet\<close> of \<^verbatim>\<open>core/adt/bitset.h\<close>): chunks of 512 bits in a \<^verbatim>\<open>std::map\<close>, with
  the smallest and the largest element cached. Identifiers are 32-bit and written as naturals, with
  the wrap-around of the stores to 32-bit fields written out. An iterator is the part of the map from
  its node on and its current element; reaching past the map is \<open>Inl BadIterator\<close>.
  \<open>bits\<close> is the set of elements; every operation is shown to be the operation on that set, with the
  exceptions stated.
\<close>

subsection \<open>State and simple operations\<close>

record bitset =
  bs_first :: nat
  bs_last :: nat
  bs_nodes :: "(nat \<times> node) list"

definition uint32_max :: nat where
  "uint32_max = 4294967295"

definition new_bitset :: bitset where
  "new_bitset = \<lparr>bs_first = uint32_max, bs_last = 0, bs_nodes = []\<rparr>"

definition Empty :: "bitset \<Rightarrow> bool" where
  "Empty s = (bs_nodes s = [])"

definition Clear :: "bitset \<Rightarrow> bitset" where
  "Clear s = s\<lparr>bs_first := uint32_max, bs_last := 0, bs_nodes := []\<rparr>"

text \<open>\<^verbatim>\<open>nodes_[key]\<close>, which creates the node if there is none.\<close>

definition node_at :: "(nat \<times> node) list \<Rightarrow> nat \<Rightarrow> node" where
  "node_at ns k = (case map_of ns k of None \<Rightarrow> new_node | Some n \<Rightarrow> n)"

definition Insert :: "bitset \<Rightarrow> nat \<Rightarrow> bitset \<times> bool" where
  "Insert s item =
     (let s1 = s\<lparr>bs_first := min (bs_first s) item, bs_last := max (bs_last s) item\<rparr>;
          k = item div 512;
          (n, inserted) = NodeInsert (node_at (bs_nodes s1) k) (item - k * 512)
      in (s1\<lparr>bs_nodes := om_set k n (bs_nodes s1)\<rparr>, inserted))"

definition Singleton :: "nat \<Rightarrow> bitset" where
  "Singleton item = fst (Insert new_bitset item)"

definition Contains :: "bitset \<Rightarrow> nat \<Rightarrow> bool" where
  "Contains s item =
     (if item < bs_first s \<or> bs_last s < item then False
      else (case map_of (bs_nodes s) (item div 512) of
              None \<Rightarrow> False
            | Some n \<Rightarrow> NodeContains n (item - item div 512 * 512)))"

definition Size :: "bitset \<Rightarrow> nat" where
  "Size s = (\<Sum>(k, n) \<leftarrow> bs_nodes s. NodeSize n)"

definition bitset_eq :: "bitset \<Rightarrow> bitset \<Rightarrow> bool" where
  "bitset_eq s t =
     (if bs_first s \<noteq> bs_first t then False
      else if bs_last s \<noteq> bs_last t then False
      else if length (bs_nodes s) \<noteq> length (bs_nodes t) then False
      else list_all2 (\<lambda>(k, n) (k', n'). k = k' \<and> node_eq n n') (bs_nodes s) (bs_nodes t))"

subsection \<open>Iterators\<close>

record iter =
  it_nodes :: "(nat \<times> node) list"
  it_cur :: nat

definition find_node :: "(nat \<times> node) list \<Rightarrow> nat \<Rightarrow> (nat \<times> node) list" where
  "find_node ns k = dropWhile (\<lambda>p. fst p \<noteq> k) ns"

definition iter_at :: "bitset \<Rightarrow> nat \<Rightarrow> iter" where
  "iter_at s current = \<lparr>it_nodes = find_node (bs_nodes s) (current div 512), it_cur = current\<rparr>"

definition iter_end :: "bitset \<Rightarrow> iter" where
  "iter_end s = iter_at s (bs_last s + 1)"

definition iter_begin :: "bitset \<Rightarrow> iter" where
  "iter_begin s = (if Empty s then iter_end s else iter_at s (bs_first s))"

definition iter_next :: "bitset \<Rightarrow> iter \<Rightarrow> iter result" where
  "iter_next s it =
     (if it_cur it = bs_last s then returns (it\<lparr>it_cur := (bs_last s + 1) mod 2 ^ 32\<rparr>)
      else (case it_nodes it of
              [] \<Rightarrow> Inl BadIterator
            | (k, n) # rest \<Rightarrow>
                (let nextPos = NodeNext n (it_cur it mod 512) in
                 if nextPos = 0 then
                   (case rest of
                      [] \<Rightarrow> Inl BadIterator
                    | (k', n') # _ \<Rightarrow> returns \<lparr>it_nodes = rest, it_cur = k' * 512 + NodeFirst n'\<rparr>)
                 else returns (it\<lparr>it_cur := k * 512 + nextPos\<rparr>))))"

text \<open>A reverse iterator keeps the part of the map up to its node, in descending order.\<close>

record riter =
  rit_nodes :: "(nat \<times> node) list"
  rit_cur :: int

definition riter_at :: "bitset \<Rightarrow> int \<Rightarrow> riter" where
  "riter_at s current =
     \<lparr>rit_nodes = find_node (rev (bs_nodes s)) (nat (take_bit 64 current) div 512 mod 2 ^ 32), rit_cur = current\<rparr>"

definition riter_end :: "bitset \<Rightarrow> riter" where
  "riter_end s = riter_at s (int (bs_first s) - 1)"

definition riter_begin :: "bitset \<Rightarrow> riter" where
  "riter_begin s = (if Empty s then riter_end s else riter_at s (int (bs_last s)))"

definition riter_next :: "bitset \<Rightarrow> riter \<Rightarrow> riter result" where
  "riter_next s it =
     (if rit_cur it = int (bs_first s) then returns (it\<lparr>rit_cur := (int (bs_first s) - 1) mod 2 ^ 32\<rparr>)
      else (case rit_nodes it of
              [] \<Rightarrow> Inl BadIterator
            | (k, n) # rest \<Rightarrow>
                (let nextPos = NodePrev n (nat (rit_cur it mod 512)) in
                 if nextPos = 512 then
                   (case rest of
                      [] \<Rightarrow> Inl BadIterator
                    | (k', n') # _ \<Rightarrow> returns \<lparr>rit_nodes = rest, rit_cur = int (k' * 512 + NodeLast n')\<rparr>)
                 else returns (it\<lparr>rit_cur := int (k * 512 + nextPos)\<rparr>))))"

text \<open>A loop over the set: from \<^verbatim>\<open>begin()\<close> until the iterator equals \<^verbatim>\<open>end()\<close>.\<close>

partial_function (option) iterate :: "bitset \<Rightarrow> iter \<Rightarrow> nat list result option" where
  "iterate s it =
     (if it_cur it = it_cur (iter_end s) then Some (returns [])
      else (case iter_next s it of
              Inl e \<Rightarrow> Some (Inl e)
            | Inr it' \<Rightarrow> Option.bind (iterate s it')
                (\<lambda>r. Some (case r of Inl e \<Rightarrow> Inl e | Inr xs \<Rightarrow> returns (it_cur it # xs)))))"

partial_function (option) riterate :: "bitset \<Rightarrow> riter \<Rightarrow> int list result option" where
  "riterate s it =
     (if rit_cur it = rit_cur (riter_end s) then Some (returns [])
      else (case riter_next s it of
              Inl e \<Rightarrow> Some (Inl e)
            | Inr it' \<Rightarrow> Option.bind (riterate s it')
                (\<lambda>r. Some (case r of Inl e \<Rightarrow> Inl e | Inr xs \<Rightarrow> returns (rit_cur it # xs)))))"

subsection \<open>Erasing and combining\<close>

definition Erase :: "bitset \<Rightarrow> nat \<Rightarrow> bitset result" where
  "Erase s item =
     (let bounds =
        (if item = bs_first s \<and> item = bs_last s then returns (s\<lparr>bs_first := uint32_max, bs_last := 0\<rparr>)
         else if item = bs_first s then
           (case iter_next s (iter_begin s) of
              Inl e \<Rightarrow> Inl e
            | Inr it \<Rightarrow> returns (s\<lparr>bs_first := it_cur it mod 2 ^ 32\<rparr>))
         else if item = bs_last s then
           (case riter_next s (riter_begin s) of
              Inl e \<Rightarrow> Inl e
            | Inr it \<Rightarrow> returns (s\<lparr>bs_last := nat (rit_cur it mod 2 ^ 32)\<rparr>))
         else returns s)
      in case bounds of
           Inl e \<Rightarrow> Inl e
         | Inr s1 \<Rightarrow>
             (let k = item div 512;
                  (n, zero) = NodeErase (node_at (bs_nodes s1) k) (item - k * 512);
                  ns = om_set k n (bs_nodes s1)
              in returns (s1\<lparr>bs_nodes := if zero then om_del k ns else ns\<rparr>)))"

fun union_nodes :: "(nat \<times> node) list \<Rightarrow> (nat \<times> node) list \<Rightarrow> (nat \<times> node) list \<times> nat" where
  "union_nodes ns [] = (ns, 0)"
| "union_nodes ns ((k, m) # ms) =
     (let (n, c) = NodeUnion (node_at ns k) m;
          (ns', changed) = union_nodes (om_set k n ns) ms
      in (ns', c + changed))"

definition Union :: "bitset \<Rightarrow> bitset \<Rightarrow> bitset \<times> nat" where
  "Union s that =
     (let (ns, changed) = union_nodes (bs_nodes s) (bs_nodes that)
      in (s\<lparr>bs_nodes := ns, bs_first := min (bs_first s) (bs_first that),
            bs_last := max (bs_last s) (bs_last that)\<rparr>, changed))"

text \<open>The loops over two maps: each step advances the iterator with the smaller key.\<close>

fun subtract_nodes :: "(nat \<times> node) list \<Rightarrow> (nat \<times> node) list \<Rightarrow> (nat \<times> node) list" where
  "subtract_nodes [] tt = []"
| "subtract_nodes ((i, n) # it) [] = (i, n) # it"
| "subtract_nodes ((i, n) # it) ((j, m) # tt) =
     (if i < j then (i, n) # subtract_nodes it ((j, m) # tt)
      else if j < i then subtract_nodes ((i, n) # it) tt
      else (let (n', zero) = NodeSubtract n m in
            if zero then subtract_nodes it ((j, m) # tt)
            else (i, n') # subtract_nodes it ((j, m) # tt)))"

fun intersect_nodes :: "(nat \<times> node) list \<Rightarrow> (nat \<times> node) list \<Rightarrow> (nat \<times> node) list" where
  "intersect_nodes [] tt = []"
| "intersect_nodes ((i, n) # it) [] = (i, n) # it"
| "intersect_nodes ((i, n) # it) ((j, m) # tt) =
     (if i < j then intersect_nodes it ((j, m) # tt)
      else if j < i then intersect_nodes ((i, n) # it) tt
      else (let (n', zero) = NodeAnd n m in
            if zero then intersect_nodes it tt
            else (i, n') # intersect_nodes it tt))"

definition ResetFirstLast :: "bitset \<Rightarrow> bitset" where
  "ResetFirstLast s =
     (if bs_nodes s = [] then s\<lparr>bs_first := uint32_max, bs_last := 0\<rparr>
      else (let (fi, fo) = hd (bs_nodes s); (li, lo) = last (bs_nodes s)
            in s\<lparr>bs_first := (fi * 512 + NodeFirst fo) mod 2 ^ 32,
                 bs_last := (li * 512 + NodeLast lo) mod 2 ^ 32\<rparr>))"

definition Subtract :: "bitset \<Rightarrow> bitset \<Rightarrow> bitset" where
  "Subtract s that = ResetFirstLast (s\<lparr>bs_nodes := subtract_nodes (bs_nodes s) (bs_nodes that)\<rparr>)"

definition Intersect :: "bitset \<Rightarrow> bitset \<Rightarrow> bitset" where
  "Intersect s that = ResetFirstLast (s\<lparr>bs_nodes := intersect_nodes (bs_nodes s) (bs_nodes that)\<rparr>)"

subsection \<open>The elements\<close>

definition chunk :: "nat \<Rightarrow> node \<Rightarrow> nat set" where
  "chunk k n = {x. x div 512 = k \<and> x mod 512 \<in> node_bits n}"

definition nbits :: "(nat \<times> node) list \<Rightarrow> nat set" where
  "nbits ns = (\<Union>(k, n) \<in> set ns. chunk k n)"

definition bits :: "bitset \<Rightarrow> nat set" where
  "bits s = nbits (bs_nodes s)"

definition nodes_ok :: "(nat \<times> node) list \<Rightarrow> bool" where
  "nodes_ok ns \<longleftrightarrow> om_ok ns \<and> (\<forall>(k, n) \<in> set ns. node_ok n \<and> node_bits n \<noteq> {} \<and> k < 2 ^ 23)"

definition bounds_ok :: "bitset \<Rightarrow> bool" where
  "bounds_ok s \<longleftrightarrow>
     (if bits s = {} then bs_first s = uint32_max \<and> bs_last s = 0
      else bs_first s \<in> bits s \<and> bs_last s \<in> bits s \<and> (\<forall>x \<in> bits s. bs_first s \<le> x \<and> x \<le> bs_last s))"

definition bs_ok :: "bitset \<Rightarrow> bool" where
  "bs_ok s \<longleftrightarrow> nodes_ok (bs_nodes s) \<and> bounds_ok s"

lemma nbits_simps [simp]: "nbits [] = {}" "nbits ((k, n) # ns) = chunk k n \<union> nbits ns"
  by (auto simp: nbits_def)

lemma nodes_ok_simps [simp]:
  "nodes_ok []"
  "nodes_ok ((k, n) # ns) \<longleftrightarrow> (\<forall>k' n'. (k', n') \<in> set ns \<longrightarrow> k < k') \<and>
    node_ok n \<and> node_bits n \<noteq> {} \<and> k < 2 ^ 23 \<and> nodes_ok ns"
  by (auto simp: nodes_ok_def)

lemma nodes_okD:
  assumes "nodes_ok ns"
  shows "om_ok ns" and "(k, n) \<in> set ns \<Longrightarrow> node_ok n \<and> node_bits n \<noteq> {} \<and> k < 2 ^ 23"
  using assms by (auto simp: nodes_ok_def)

lemma chunk_iff: "x \<in> chunk k n \<longleftrightarrow> x div 512 = k \<and> x mod 512 \<in> node_bits n"
  by (simp add: chunk_def)

lemma nbits_iff: "x \<in> nbits ns \<longleftrightarrow> (\<exists>n. (x div 512, n) \<in> set ns \<and> x mod 512 \<in> node_bits n)"
  by (auto simp: nbits_def chunk_def)

lemma nbits_lookup: "om_ok ns \<Longrightarrow> x \<in> nbits ns \<longleftrightarrow> x mod 512 \<in> node_bits (node_at ns (x div 512))"
  by (auto simp: nbits_iff node_at_def om_lookup_iff[symmetric] split: option.splits)

lemma chunk_element: "b \<in> node_bits n \<Longrightarrow> k * 512 + b \<in> chunk k n"
  using node_bits_less[of b n] by (simp add: chunk_def)

lemma chunk_empty_iff: "chunk k n = {} \<longleftrightarrow> node_bits n = {}"
proof
  assume "chunk k n = {}"
  then show "node_bits n = {}" using chunk_element[of _ n k] by blast
qed (simp add: chunk_def)

lemma nbits_empty_iff: "nodes_ok ns \<Longrightarrow> nbits ns = {} \<longleftrightarrow> ns = []"
  by (cases ns) (auto simp: chunk_empty_iff)

lemma node_at_ok: "nodes_ok ns \<Longrightarrow> node_ok (node_at ns k)"
  by (auto simp: node_at_def nodes_ok_def om_lookup_iff split: option.splits)

text \<open>Writing one node.\<close>

lemma om_set_nodes_ok:
  assumes "nodes_ok ns" "node_ok n" "node_bits n \<noteq> {}" "k < 2 ^ 23"
  shows "nodes_ok (om_set k n ns)"
  using assms by (auto simp: nodes_ok_def om_set_ok dest!: om_set_members)

lemma om_set_nbits:
  assumes "om_ok ns"
  shows "x \<in> nbits (om_set k n ns) \<longleftrightarrow>
    (if x div 512 = k then x mod 512 \<in> node_bits n else x \<in> nbits ns)"
  using assms by (simp add: nbits_lookup om_set_ok node_at_def om_set_lookup)

lemma om_del_nodes_ok: "nodes_ok ns \<Longrightarrow> nodes_ok (om_del k ns)"
  by (auto simp: nodes_ok_def om_del_ok dest!: om_del_members)

lemma om_del_nbits:
  assumes "om_ok ns"
  shows "x \<in> nbits (om_del k ns) \<longleftrightarrow> x div 512 \<noteq> k \<and> x \<in> nbits ns"
  using assms by (simp add: nbits_lookup om_del_ok node_at_def om_del_lookup)

lemma nbits_less: "nodes_ok ns \<Longrightarrow> x \<in> nbits ns \<Longrightarrow> x < 2 ^ 32"
proof -
  assume ns: "nodes_ok ns" and "x \<in> nbits ns"
  then have "x div 512 < 2 ^ 23" by (auto simp: nbits_iff dest: nodes_okD(2))
  then have "x < 2 ^ 23 * 512" by (simp add: div_less_iff_less_mult)
  then show ?thesis by simp
qed

lemma bits_finite: "nodes_ok (bs_nodes s) \<Longrightarrow> finite (bits s)"
  by (rule finite_subset[of _ "{..< 2 ^ 32}"]) (auto simp: bits_def dest: nbits_less)

lemma item_mod: "item - item div 512 * 512 = item mod (512::nat)"
  by (simp add: minus_div_mult_eq_mod)

lemma bs_ok_bounds:
  assumes "bs_ok s" "x \<in> bits s"
  shows "bs_first s \<in> bits s \<and> bs_last s \<in> bits s \<and> bs_first s \<le> x \<and> x \<le> bs_last s"
  using assms by (auto simp: bs_ok_def bounds_ok_def split: if_splits)

subsection \<open>Insertion and lookup\<close>

lemma new_bitset_ok: "bs_ok new_bitset \<and> bits new_bitset = {}"
  by (simp add: bs_ok_def bounds_ok_def bits_def new_bitset_def)

lemma Clear_ok: "bs_ok (Clear s) \<and> bits (Clear s) = {}"
  by (simp add: bs_ok_def bounds_ok_def bits_def Clear_def)

lemma Empty_iff: "bs_ok s \<Longrightarrow> Empty s \<longleftrightarrow> bits s = {}"
  by (simp add: Empty_def bits_def bs_ok_def nbits_empty_iff)

lemma insert_nodes:
  assumes "nodes_ok ns" "x < 2 ^ 32" "NodeInsert (node_at ns (x div 512)) (x mod 512) = (n, ins)"
  shows "nodes_ok (om_set (x div 512) n ns) \<and> nbits (om_set (x div 512) n ns) = insert x (nbits ns) \<and>
    ins = (x \<notin> nbits ns)"
proof -
  have k: "x div 512 < 2 ^ 23" using assms(2) by (simp add: div_less_iff_less_mult)
  have n: "node_ok n" "node_bits n = insert (x mod 512) (node_bits (node_at ns (x div 512)))"
      "ins = (x mod 512 \<notin> node_bits (node_at ns (x div 512)))"
    using NodeInsert_bits[OF node_at_ok[OF assms(1)] _ assms(3)] by simp_all
  have "y \<in> nbits (om_set (x div 512) n ns) \<longleftrightarrow> y \<in> insert x (nbits ns)" for y
  proof -
    have "y = x \<longleftrightarrow> y div 512 = x div 512 \<and> y mod 512 = x mod 512" by (metis div_mult_mod_eq)
    then show ?thesis
      using n(2) nodes_okD(1)[OF assms(1)] by (auto simp: om_set_nbits nbits_lookup)
  qed
  moreover have "nodes_ok (om_set (x div 512) n ns)" using assms(1) n k by (intro om_set_nodes_ok) auto
  ultimately show ?thesis using n(3) nbits_lookup[OF nodes_okD(1)[OF assms(1)], of x] by auto
qed

lemma Insert_spec:
  assumes "bs_ok s" "x < 2 ^ 32" "Insert s x = (s', ins)"
  shows "bs_ok s' \<and> bits s' = insert x (bits s) \<and> ins = (x \<notin> bits s)"
proof -
  obtain n i where n: "NodeInsert (node_at (bs_nodes s) (x div 512)) (x mod 512) = (n, i)" by fastforce
  have s': "s' = s\<lparr>bs_first := min (bs_first s) x, bs_last := max (bs_last s) x,
      bs_nodes := om_set (x div 512) n (bs_nodes s)\<rparr>" "ins = i"
    using assms(3) n by (auto simp: Insert_def Let_def item_mod)
  note ns = insert_nodes[OF _ assms(2) n]
  have ok: "nodes_ok (bs_nodes s)" using assms(1) by (simp add: bs_ok_def)
  then have b: "bits s' = insert x (bits s)" using ns by (simp add: bits_def s')
  moreover have "bounds_ok s'"
  proof (cases "bits s = {}")
    case True
    then have "bs_first s = uint32_max" "bs_last s = 0"
      using assms(1) by (simp_all add: bs_ok_def bounds_ok_def)
    then show ?thesis using b True assms(2) by (auto simp: bounds_ok_def s' uint32_max_def)
  next
    case False
    then have "bs_first s \<in> bits s" "bs_last s \<in> bits s" "\<forall>y \<in> bits s. bs_first s \<le> y \<and> y \<le> bs_last s"
      using bs_ok_bounds[OF assms(1)] by auto
    moreover have "bs_first s' = min (bs_first s) x" "bs_last s' = max (bs_last s) x" by (simp_all add: s')
    ultimately show ?thesis using b unfolding bounds_ok_def by (auto simp: min_def max_def)
  qed
  ultimately show ?thesis using ns[OF ok] by (simp add: bs_ok_def s' bits_def)
qed

lemma Contains_spec: "bs_ok s \<Longrightarrow> Contains s x \<longleftrightarrow> x \<in> bits s"
proof -
  assume ok: "bs_ok s"
  then have om: "om_ok (bs_nodes s)" by (simp add: bs_ok_def nodes_ok_def)
  show ?thesis
  proof (cases "x < bs_first s \<or> bs_last s < x")
    case True
    then show ?thesis using bs_ok_bounds[OF ok, of x] by (auto simp: Contains_def)
  next
    case False
    then show ?thesis using om
      by (auto simp: Contains_def item_mod NodeContains_iff bits_def nbits_lookup node_at_def split: option.splits)
  qed
qed

subsection \<open>Size and equality\<close>

lemma card_chunk: "card (chunk k n) = card (node_bits n)"
proof -
  have "chunk k n = (\<lambda>b. k * 512 + b) ` node_bits n"
  proof
    show "chunk k n \<subseteq> (\<lambda>b. k * 512 + b) ` node_bits n"
    proof
      fix x assume "x \<in> chunk k n"
      then have "x mod 512 \<in> node_bits n" "x = k * 512 + x mod 512" by (auto simp: chunk_def)
      then show "x \<in> (\<lambda>b. k * 512 + b) ` node_bits n" by blast
    qed
  qed (auto intro: chunk_element)
  then show ?thesis by (simp add: card_image)
qed

lemma chunk_nbits_disjoint:
  "(\<And>k' n'. (k', n') \<in> set ns \<Longrightarrow> k < k') \<Longrightarrow> chunk k n \<inter> nbits ns = {}"
  by (fastforce simp: chunk_iff nbits_iff)

lemma nbits_finite: "nodes_ok ns \<Longrightarrow> finite (nbits ns)"
  by (rule finite_subset[of _ "{..< 2 ^ 32}"]) (auto dest: nbits_less)

lemma nbits_card: "nodes_ok ns \<Longrightarrow> (\<Sum>(k, n) \<leftarrow> ns. NodeSize n) = card (nbits ns)"
proof (induction ns)
  case (Cons p ns)
  obtain k n where p: "p = (k, n)" by fastforce
  have "finite (nbits ns)" "finite (chunk k n)"
    using nbits_finite[of ns] nbits_finite[of "[(k, n)]"] Cons.prems p by auto
  moreover have "chunk k n \<inter> nbits ns = {}"
    by (rule chunk_nbits_disjoint) (use Cons.prems p in auto)
  ultimately have "card (nbits (p # ns)) = card (chunk k n) + card (nbits ns)"
    by (simp add: p card_Un_disjoint)
  then show ?case using Cons p by (simp add: card_chunk NodeSize_card)
qed simp

lemma node_at_bits: "om_ok ns \<Longrightarrow> node_bits (node_at ns k) = {b. b < 512 \<and> k * 512 + b \<in> nbits ns}"
  by (auto simp: nbits_lookup node_bits_less div_mult_self3 dest: node_bits_less)

text \<open>The nodes are determined by the elements.\<close>

lemma nbits_inj:
  assumes ok: "nodes_ok ns" "nodes_ok ms" and eq: "nbits ns = nbits ms"
  shows "ns = ms"
proof (rule om.extensional)
  show om: "om_ok ns" "om_ok ms" using ok by (auto dest: nodes_okD)
  show "map_of ns = map_of ms"
  proof
    fix k
    have b: "node_bits (node_at ns k) = node_bits (node_at ms k)" using om eq by (simp add: node_at_bits)
    have none: "map_of ps k = None \<longleftrightarrow> node_bits (node_at ps k) = {}" if "nodes_ok ps" for ps
    proof (cases "map_of ps k")
      case (Some n)
      then have "(k, n) \<in> set ps" by (rule map_of_SomeD)
      then show ?thesis using that Some by (auto simp: node_at_def nodes_ok_def)
    qed (simp add: node_at_def)
    show "map_of ns k = map_of ms k"
    proof (cases "map_of ns k")
      case None
      then show ?thesis using none[OF ok(1)] none[OF ok(2)] b by simp
    next
      case (Some n)
      then obtain m where m: "map_of ms k = Some m" using none[OF ok(1)] none[OF ok(2)] b by fastforce
      have "node_ok n" "node_ok m" using node_at_ok[OF ok(1), of k] node_at_ok[OF ok(2), of k] Some m
        by (simp_all add: node_at_def)
      then have "n = m" using node_eq_ext[of n m] b Some m by (simp add: node_at_def)
      then show ?thesis using Some m by simp
    qed
  qed
qed

lemma node_eq_refl [simp]: "node_eq n n"
  by (simp add: node_eq_def)

lemma bitset_eq_spec:
  assumes "bs_ok s" "bs_ok t"
  shows "bitset_eq s t \<longleftrightarrow> bits s = bits t"
proof
  assume "bits s = bits t"
  then have "bs_nodes s = bs_nodes t" using nbits_inj assms by (simp add: bits_def bs_ok_def)
  moreover have "bs_first s = bs_first t \<and> bs_last s = bs_last t"
    using assms \<open>bits s = bits t\<close> by (auto simp: bs_ok_def bounds_ok_def intro: le_antisym split: if_splits)
  ultimately show "bitset_eq s t" by (auto simp: bitset_eq_def list_all2_same)
next
  assume "bitset_eq s t"
  then have "list_all2 (\<lambda>(k, n) (k', n'). k = k' \<and> node_eq n n') (bs_nodes s) (bs_nodes t)"
    by (simp add: bitset_eq_def split: if_splits)
  then have "nbits (bs_nodes s) = nbits (bs_nodes t)"
    by (induction rule: list_all2_induct) (auto simp: node_eq_bits chunk_def)
  then show "bits s = bits t" by (simp add: bits_def)
qed

subsection \<open>Union, difference, intersection\<close>

lemma union_nodes_spec:
  assumes "nodes_ok ns" "nodes_ok ms" "union_nodes ns ms = (ns', c)"
  shows "nodes_ok ns' \<and> nbits ns' = nbits ns \<union> nbits ms \<and> c = card (nbits ms - nbits ns)"
  using assms
proof (induction ms arbitrary: ns ns' c)
  case (Cons p ms)
  obtain k m where p: "p = (k, m)" by fastforce
  obtain n a where n: "NodeUnion (node_at ns k) m = (n, a)" by fastforce
  obtain c' where c': "union_nodes (om_set k n ns) ms = (ns', c')" "c = a + c'"
    using Cons.prems(3) p n by (auto simp: Let_def split: prod.splits)
  note nb = NodeUnion_bits[OF n]
  have m: "node_bits m \<noteq> {}" "k < 2 ^ 23" "nodes_ok ms" "chunk k m \<inter> nbits ms = {}"
    using Cons.prems(2) p chunk_nbits_disjoint[of ms k m] by auto
  have om: "om_ok ns" using Cons.prems(1) by (rule nodes_okD)
  have ok: "nodes_ok (om_set k n ns)" using Cons.prems(1) nb m by (intro om_set_nodes_ok) auto
  have bits: "nbits (om_set k n ns) = nbits ns \<union> chunk k m"
  proof -
    have "x \<in> nbits (om_set k n ns) \<longleftrightarrow> x \<in> nbits ns \<union> chunk k m" for x
      using nb om by (cases "x div 512 = k") (auto simp: om_set_nbits nbits_lookup chunk_iff)
    then show ?thesis by blast
  qed
  have a: "a = card (chunk k m - nbits ns)"
  proof -
    have "chunk k m - nbits ns = (\<lambda>b. k * 512 + b) ` (node_bits m - node_bits (node_at ns k))"
      using om node_bits_less by (force simp: nbits_lookup chunk_iff image_iff intro: bexI[of _ "_ mod 512"])
    then show ?thesis using nb by (simp add: card_image)
  qed
  have "card (nbits (p # ms) - nbits ns) = card (chunk k m - nbits ns) + card (nbits ms - (nbits ns \<union> chunk k m))"
  proof -
    have "finite (chunk k m)" "finite (nbits ms)"
      using nbits_finite[of "[(k, m)]"] nbits_finite[of ms] Cons.prems(2) p by auto
    moreover have "nbits (p # ms) - nbits ns = (chunk k m - nbits ns) \<union> (nbits ms - (nbits ns \<union> chunk k m))"
      using p by auto
    ultimately show ?thesis by (simp add: card_Un_disjoint Int_Diff disjoint_iff)
  qed
  then show ?case using Cons.IH[OF ok m(3) c'(1)] bits a c'(2) p by auto
qed simp

lemma first_le: "bs_ok s \<Longrightarrow> bs_first s \<le> uint32_max"
  using nbits_less[of "bs_nodes s" "bs_first s"]
  by (auto simp: bs_ok_def bounds_ok_def bits_def uint32_max_def split: if_splits)

lemma Union_spec:
  assumes "bs_ok s" "bs_ok t" "Union s t = (s', c)"
  shows "bs_ok s' \<and> bits s' = bits s \<union> bits t \<and> c = card (bits t - bits s)"
proof -
  obtain ns where ns: "union_nodes (bs_nodes s) (bs_nodes t) = (ns, c)"
    and s': "bs_nodes s' = ns" "bs_first s' = min (bs_first s) (bs_first t)" "bs_last s' = max (bs_last s) (bs_last t)"
    using assms(3) by (auto simp: Union_def split: prod.splits)
  have sp: "nodes_ok ns \<and> nbits ns = bits s \<union> bits t \<and> c = card (bits t - bits s)"
    using union_nodes_spec[OF _ _ ns] assms(1,2) by (simp add: bs_ok_def bits_def)
  have le: "bs_first s \<le> uint32_max" "bs_first t \<le> uint32_max"
    using assms(1,2) by (auto intro: first_le)
  have "bounds_ok s'"
  proof (cases "bits s = {}"; cases "bits t = {}")
    assume e: "bits s \<noteq> {}" "bits t \<noteq> {}"
    then have "bs_first s \<in> bits s" "bs_last s \<in> bits s" "bs_first t \<in> bits t" "bs_last t \<in> bits t"
        "\<forall>x \<in> bits s. bs_first s \<le> x \<and> x \<le> bs_last s" "\<forall>x \<in> bits t. bs_first t \<le> x \<and> x \<le> bs_last t"
      using assms(1,2) by (simp_all add: bs_ok_def bounds_ok_def)
    then show ?thesis using sp e s' by (auto simp: bounds_ok_def bits_def min_def max_def)
  qed (use assms(1,2) sp s' le in \<open>auto simp: bs_ok_def bounds_ok_def bits_def\<close>)
  then show ?thesis using sp s' by (simp add: bs_ok_def bits_def)
qed

lemma chunk_Diff: "node_bits n' = node_bits n - node_bits m \<Longrightarrow> chunk k n' = chunk k n - chunk k m"
  by (auto simp: chunk_def)

lemma chunk_Int: "node_bits n' = node_bits n \<inter> node_bits m \<Longrightarrow> chunk k n' = chunk k n \<inter> chunk k m"
  by (auto simp: chunk_def)

lemma nbits_above: "(\<And>k' n'. (k', n') \<in> set ns \<Longrightarrow> k < k') \<Longrightarrow> x \<in> nbits ns \<Longrightarrow> k < x div 512"
  by (auto simp: nbits_iff)

lemma subtract_nodes_keys: "(k, p) \<in> set (subtract_nodes ns ms) \<Longrightarrow> \<exists>n'. (k, n') \<in> set ns"
proof (induction ns ms rule: subtract_nodes.induct)
  case (3 i n it j m tt)
  then show ?case by (cases "NodeSubtract n m") (fastforce simp: Let_def split: if_splits)
qed auto

lemma intersect_nodes_keys: "(k, p) \<in> set (intersect_nodes ns ms) \<Longrightarrow> \<exists>n'. (k, n') \<in> set ns"
proof (induction ns ms rule: intersect_nodes.induct)
  case (3 i n it j m tt)
  then show ?case by (cases "NodeAnd n m") (fastforce simp: Let_def split: if_splits)
qed auto

lemma subtract_nodes_spec:
  assumes "nodes_ok ns" "nodes_ok ms"
  shows "nodes_ok (subtract_nodes ns ms) \<and> nbits (subtract_nodes ns ms) = nbits ns - nbits ms"
  using assms
proof (induction ns ms rule: subtract_nodes.induct)
  case (3 i n it j m tt)
  let ?rest = "subtract_nodes it ((j, m) # tt)"
  consider "i < j" | "j < i" | "i = j" by linarith
  then show ?case
  proof cases
    case 1
    have IH: "nodes_ok ?rest \<and> nbits ?rest = nbits it - nbits ((j, m) # tt)"
      using 3 1 by auto
    have "chunk i n \<inter> nbits ((j, m) # tt) = {}"
      by (rule chunk_nbits_disjoint) (use 3(6) 1 in auto)
    moreover have "\<And>k n'. (k, n') \<in> set ?rest \<Longrightarrow> i < k"
      using subtract_nodes_keys 3(5) by fastforce
    ultimately show ?thesis using IH 1 3(5) by auto
  next
    case 2
    have "chunk j m \<inter> nbits ((i, n) # it) = {}"
      by (rule chunk_nbits_disjoint) (use 3(5) 2 in auto)
    moreover have "nodes_ok (subtract_nodes ((i, n) # it) tt) \<and>
        nbits (subtract_nodes ((i, n) # it) tt) = nbits ((i, n) # it) - nbits tt"
      using 3(2)[OF _ 2] 3(5,6) 2 by auto
    ultimately show ?thesis using 2 by auto
  next
    case eq: 3
    obtain n' z where n': "NodeSubtract n m = (n', z)" by fastforce
    note nb = NodeSubtract_bits[OF n']
    have IH: "nodes_ok ?rest \<and> nbits ?rest = nbits it - nbits ((j, m) # tt)"
      using 3(3)[OF _ _ n'[symmetric]] 3(4)[OF _ _ n'[symmetric]] 3(5,6) eq by (cases z) auto
    have d: "chunk i n \<inter> nbits tt = {}" "chunk j m \<inter> nbits it = {}"
      by (rule chunk_nbits_disjoint; use 3(5,6) eq in auto)+
    have k: "\<And>k n'. (k, n') \<in> set ?rest \<Longrightarrow> i < k" using subtract_nodes_keys 3(5) by fastforce
    show ?thesis
    proof (cases z)
      case True
      then have "chunk i n' = {}" using nb by (simp add: chunk_empty_iff)
      then have "chunk i n - chunk j m = {}" using chunk_Diff[of n' n m i] nb eq by simp
      then show ?thesis using True eq n' IH d by (auto simp: Let_def)
    next
      case False
      then show ?thesis using eq n' nb IH k 3(5) d chunk_Diff[of n' n m i] by (auto simp: Let_def)
    qed
  qed
qed auto

text \<open>
  The loop of the intersection stops when either map is exhausted; the chunks of the left one behind
  the last chunk of the right one stay.
\<close>

definition last_chunk :: "(nat \<times> node) list \<Rightarrow> nat" where
  "last_chunk ns = fst (last ns)"

lemma last_chunk_mono:
  assumes "om_ok ((k, n) # ns)" "ns \<noteq> []"
  shows "k < last_chunk ns"
proof -
  obtain k' v' where "last ns = (k', v')" by fastforce
  moreover from this have "(k', v') \<in> set ns" using assms(2) last_in_set by metis
  ultimately show ?thesis using assms(1) by (auto simp: last_chunk_def)
qed

lemma intersect_nodes_spec:
  assumes "nodes_ok ns" "nodes_ok ms"
  shows "nodes_ok (intersect_nodes ns ms) \<and>
    (\<forall>x. x \<in> nbits (intersect_nodes ns ms) \<longleftrightarrow>
       x \<in> nbits ns \<and> (x \<in> nbits ms \<or> ms = [] \<or> last_chunk ms < x div 512))"
  using assms
proof (induction ns ms rule: intersect_nodes.induct)
  case (3 i n it j m tt)
  have bound: "j \<le> last_chunk ((j, m) # tt)"
    using last_chunk_mono[of j m tt] 3(6) by (cases "tt = []") (auto simp: last_chunk_def nodes_ok_def)
  have lc: "last_chunk ((j, m) # tt) = (if tt = [] then j else last_chunk tt)"
    by (simp add: last_chunk_def)
  consider "i < j" | "j < i" | "i = j" by linarith
  then show ?case
  proof cases
    case 1
    have "chunk i n \<inter> nbits ((j, m) # tt) = {}"
      by (rule chunk_nbits_disjoint) (use 3(6) 1 in auto)
    then have "x \<notin> chunk i n" if "x \<in> nbits ((j, m) # tt) \<or> last_chunk ((j, m) # tt) < x div 512" for x
      using that bound 1 by (auto simp: chunk_iff)
    then show ?thesis using 3(1)[OF 1] 3(5,6) 1 by auto
  next
    case 2
    have "i < x div 512" if "x \<in> nbits it" for x
      by (rule nbits_above[OF _ that]) (use 3(5) in auto)
    then have above: "j < x div 512" if "x \<in> nbits ((i, n) # it)" for x
      using that 2 by (auto simp: chunk_iff intro: less_trans)
    have "nodes_ok (intersect_nodes ((i, n) # it) tt) \<and>
        (\<forall>x. x \<in> nbits (intersect_nodes ((i, n) # it) tt) \<longleftrightarrow>
          x \<in> nbits ((i, n) # it) \<and> (x \<in> nbits tt \<or> tt = [] \<or> last_chunk tt < x div 512))"
      using 3(2)[OF _ 2] 3(5,6) 2 by auto
    moreover have "x \<notin> chunk j m" if "x \<in> nbits ((i, n) # it)" for x
      using above[OF that] by (simp add: chunk_iff)
    ultimately show ?thesis using 2 above by (auto simp: lc)
  next
    case eq: 3
    obtain n' z where n': "NodeAnd n m = (n', z)" by fastforce
    note nb = NodeAnd_bits[OF n']
    have IH: "nodes_ok (intersect_nodes it tt) \<and>
        (\<forall>x. x \<in> nbits (intersect_nodes it tt) \<longleftrightarrow> x \<in> nbits it \<and> (x \<in> nbits tt \<or> tt = [] \<or> last_chunk tt < x div 512))"
      using 3(3)[OF _ _ n'[symmetric]] 3(4)[OF _ _ n'[symmetric]] 3(5,6) eq by (cases z) auto
    have "j < x div 512" if "x \<in> nbits it" for x
      by (rule nbits_above[OF _ that]) (use 3(5) eq in auto)
    moreover have "j < x div 512" if "x \<in> nbits tt" for x
      by (rule nbits_above[OF _ that]) (use 3(6) in auto)
    ultimately have above: "j < x div 512" if "x \<in> nbits it \<or> x \<in> nbits tt" for x
      using that by blast
    have head: "x \<in> chunk i n' \<longleftrightarrow> x \<in> chunk i n \<and> x \<in> chunk j m" for x
      using chunk_Int[of n' n m i] nb eq by auto
    have rest: "x \<in> nbits it \<and> (x \<in> nbits tt \<or> tt = [] \<or> last_chunk tt < x div 512) \<longleftrightarrow>
        x \<in> nbits it \<and> (x \<in> nbits ((j, m) # tt) \<or> last_chunk ((j, m) # tt) < x div 512)" for x
      using above[of x] by (auto simp: lc chunk_iff)
    have only: "x \<in> chunk i n \<Longrightarrow> x \<in> nbits ((j, m) # tt) \<or> last_chunk ((j, m) # tt) < x div 512 \<longleftrightarrow> x \<in> chunk j m" for x
      using above[of x] bound eq by (auto simp: chunk_iff)
    have k: "\<And>k n'. (k, n') \<in> set (intersect_nodes it tt) \<Longrightarrow> i < k" using intersect_nodes_keys 3(5) by fastforce
    show ?thesis
    proof (cases z)
      case True
      then have "chunk i n' = {}" using nb by (simp add: chunk_empty_iff)
      then have "x \<notin> chunk j m" if "x \<in> chunk i n" for x using head that by auto
      then show ?thesis using True eq n' IH rest only by (auto simp: Let_def)
    next
      case False
      have "nodes_ok ((i, n') # intersect_nodes it tt)" using IH k nb False 3(5) by auto
      moreover have "x \<in> nbits ((i, n') # intersect_nodes it tt) \<longleftrightarrow>
          x \<in> nbits ((i, n) # it) \<and> (x \<in> nbits ((j, m) # tt) \<or> last_chunk ((j, m) # tt) < x div 512)" for x
        using head[of x] rest[of x] only[of x] IH by auto
      ultimately show ?thesis using False eq n' by (simp add: Let_def)
    qed
  qed
qed auto

subsection \<open>The smallest and the largest element\<close>

lemma chunk_less: "x div 512 < k \<Longrightarrow> x < k * 512 + (b :: nat)"
  using div_less_iff_less_mult[of 512 x k] by simp

lemma less_chunk: "k < x div 512 \<Longrightarrow> b < 512 \<Longrightarrow> k * 512 + b < (x :: nat)"
  using less_eq_div_iff_mult_less_eq[of 512 "Suc k" x] by simp

lemma chunk_parts: "x \<in> chunk k n \<Longrightarrow> x = k * 512 + x mod 512 \<and> x mod 512 \<in> node_bits n"
  by (auto simp: chunk_def)

lemma first_element:
  assumes "nodes_ok ((k, n) # ns)" "x \<in> nbits ((k, n) # ns)"
  shows "k * 512 + NodeFirst n \<in> chunk k n \<and> k * 512 + NodeFirst n \<le> x"
proof -
  have f: "NodeFirst n \<in> node_bits n" "\<And>b. b \<in> node_bits n \<Longrightarrow> NodeFirst n \<le> b"
    using NodeFirst_least assms(1) by auto
  have "k < x div 512" if "x \<in> nbits ns" by (rule nbits_above[OF _ that]) (use assms(1) in auto)
  then have "k * 512 + NodeFirst n \<le> x"
    using assms(2) f less_chunk[of k x "NodeFirst n"] node_bits_less[OF f(1)] chunk_parts[of x k n]
    by (metis UnE add_le_cancel_left less_imp_le_nat nbits_simps(2))
  then show ?thesis using f(1) by (simp add: chunk_element)
qed

lemma om_split_less:
  assumes "om_ok (pre @ (k, n) # rest)"
  shows "(k', n') \<in> set pre \<Longrightarrow> k' < k" and "(k', n') \<in> set rest \<Longrightarrow> k < k'"
  using assms by (auto simp: om_ok_def sorted_wrt_append)

lemma last_element:
  assumes "nodes_ok (pre @ [(k, n)])" "x \<in> nbits (pre @ [(k, n)])"
  shows "k * 512 + NodeLast n \<in> chunk k n \<and> x \<le> k * 512 + NodeLast n"
proof -
  have f: "NodeLast n \<in> node_bits n" "\<And>b. b \<in> node_bits n \<Longrightarrow> b \<le> NodeLast n"
    using NodeLast_greatest assms(1) by (auto simp: nodes_ok_def)
  have "x \<le> k * 512 + NodeLast n"
  proof (cases "x \<in> chunk k n")
    case True
    then show ?thesis using f(2) chunk_parts[OF True] by (metis add_le_cancel_left)
  next
    case False
    then obtain n' where "(x div 512, n') \<in> set pre" using assms(2) by (auto simp: nbits_def chunk_iff)
    then have "x div 512 < k" using om_split_less(1)[of pre k n "[]"] assms(1) by (auto simp: nodes_ok_def)
    then show ?thesis using chunk_less less_imp_le by blast
  qed
  then show ?thesis using f(1) by (simp add: chunk_element)
qed

lemma ResetFirstLast_spec:
  assumes "nodes_ok (bs_nodes s)"
  shows "bs_ok (ResetFirstLast s) \<and> bits (ResetFirstLast s) = bits s"
proof (cases "bs_nodes s")
  case Nil
  then show ?thesis by (simp add: ResetFirstLast_def bs_ok_def bounds_ok_def bits_def)
next
  case (Cons p ns)
  obtain fi fo where fi: "p = (fi, fo)" by fastforce
  obtain pre li lo where li: "bs_nodes s = pre @ [(li, lo)]"
    by (metis Cons append_butlast_last_id list.distinct(1) surj_pair)
  let ?f = "fi * 512 + NodeFirst fo" and ?l = "li * 512 + NodeLast lo"
  have ne: "bits s \<noteq> {}" using Cons assms nbits_empty_iff[of "bs_nodes s"] by (simp add: bits_def)
  have f: "?f \<in> bits s \<and> (\<forall>x \<in> bits s. ?f \<le> x)"
    using first_element[of fi fo ns] assms Cons fi ne by (fastforce simp: bits_def)
  have l: "?l \<in> bits s \<and> (\<forall>x \<in> bits s. x \<le> ?l)"
    using last_element[of pre li lo] assms li ne unfolding bits_def by (fastforce simp: nbits_def)
  have "?f < 2 ^ 32" "?l < 2 ^ 32" using f l nbits_less[OF assms] by (auto simp: bits_def)
  moreover have "hd (bs_nodes s) = (fi, fo)" "bs_nodes s \<noteq> []" using Cons fi by simp_all
  moreover have "last (bs_nodes s) = (li, lo)" using li by simp
  ultimately have "ResetFirstLast s = s\<lparr>bs_first := ?f, bs_last := ?l\<rparr>"
    by (simp add: ResetFirstLast_def Let_def)
  then show ?thesis using f l assms ne by (auto simp: bs_ok_def bounds_ok_def bits_def)
qed

lemma Subtract_spec:
  assumes "bs_ok s" "bs_ok t"
  shows "bs_ok (Subtract s t) \<and> bits (Subtract s t) = bits s - bits t"
  using ResetFirstLast_spec[of "s\<lparr>bs_nodes := subtract_nodes (bs_nodes s) (bs_nodes t)\<rparr>"]
    subtract_nodes_spec[of "bs_nodes s" "bs_nodes t"] assms
  by (simp add: Subtract_def bs_ok_def bits_def)

lemma last_chunk_last:
  assumes "bs_ok t" "bits t \<noteq> {}"
  shows "last_chunk (bs_nodes t) = bs_last t div 512"
proof -
  have ok: "nodes_ok (bs_nodes t)" using assms(1) by (simp add: bs_ok_def)
  have "bs_nodes t \<noteq> []" using assms(2) by (auto simp: bits_def)
  then obtain pre k n where p: "bs_nodes t = pre @ [(k, n)]"
    by (metis append_butlast_last_id surj_pair)
  have b: "bs_last t \<in> bits t" using bs_ok_bounds[OF assms(1)] assms(2) by auto
  then have m: "k * 512 + NodeLast n \<in> chunk k n" "bs_last t \<le> k * 512 + NodeLast n"
    using last_element[of pre k n "bs_last t"] ok p by (auto simp: bits_def)
  then have "k * 512 + NodeLast n \<in> bits t" unfolding bits_def p by (auto simp: nbits_def)
  then have "k * 512 + NodeLast n \<le> bs_last t" using bs_ok_bounds[OF assms(1)] by blast
  then have "bs_last t = k * 512 + NodeLast n" using m by simp
  then show ?thesis using m(1) p by (simp add: last_chunk_def chunk_iff)
qed

text \<open>What the intersection computes: elements behind the last chunk of the right set survive.\<close>

lemma Intersect_spec:
  assumes "bs_ok s" "bs_ok t"
  shows "bs_ok (Intersect s t) \<and>
    bits (Intersect s t) = {x \<in> bits s. x \<in> bits t \<or> bits t = {} \<or> bs_last t div 512 < x div 512}"
proof -
  have e: "bs_nodes t = [] \<longleftrightarrow> bits t = {}"
    using assms(2) nbits_empty_iff[of "bs_nodes t"] by (simp add: bits_def bs_ok_def)
  have sp: "nodes_ok (intersect_nodes (bs_nodes s) (bs_nodes t)) \<and>
      nbits (intersect_nodes (bs_nodes s) (bs_nodes t)) =
        {x \<in> bits s. x \<in> bits t \<or> bs_nodes t = [] \<or> last_chunk (bs_nodes t) < x div 512}"
    using intersect_nodes_spec[of "bs_nodes s" "bs_nodes t"] assms by (auto simp: bits_def bs_ok_def)
  moreover have "{x \<in> bits s. x \<in> bits t \<or> bs_nodes t = [] \<or> last_chunk (bs_nodes t) < x div 512} =
      {x \<in> bits s. x \<in> bits t \<or> bits t = {} \<or> bs_last t div 512 < x div 512}"
    using last_chunk_last[OF assms(2)] e by (cases "bits t = {}") auto
  ultimately show ?thesis
    using ResetFirstLast_spec[of "s\<lparr>bs_nodes := intersect_nodes (bs_nodes s) (bs_nodes t)\<rparr>"]
    by (simp add: Intersect_def bits_def)
qed

subsection \<open>Iteration\<close>

text \<open>A valid iterator points at an element of the node it is at.\<close>

definition iter_ok :: "bitset \<Rightarrow> iter \<Rightarrow> bool" where
  "iter_ok s it \<longleftrightarrow> (\<exists>pre k n rest. bs_nodes s = pre @ (k, n) # rest \<and>
     it_nodes it = (k, n) # rest \<and> it_cur it \<in> chunk k n)"

lemma find_node_split:
  assumes "om_ok ns" "(k, n) \<in> set ns"
  shows "\<exists>pre rest. ns = pre @ (k, n) # rest \<and> find_node ns k = (k, n) # rest"
proof -
  obtain pre rest where s: "ns = pre @ (k, n) # rest" using assms(2) by (meson split_list)
  have "fst p \<noteq> k" if "p \<in> set pre" for p
    using om_split_less(1)[of pre k n rest "fst p" "snd p"] assms(1) that s by auto
  then have "find_node ns k = (k, n) # rest"
    unfolding s find_node_def by (subst dropWhile_append2) auto
  then show ?thesis using s by blast
qed

lemma iter_at_ok:
  assumes "bs_ok s" "x \<in> bits s"
  shows "iter_ok s (iter_at s x)"
proof -
  obtain n where n: "(x div 512, n) \<in> set (bs_nodes s)" "x mod 512 \<in> node_bits n"
    using assms(2) by (auto simp: bits_def nbits_iff)
  moreover have "om_ok (bs_nodes s)" using assms(1) by (simp add: bs_ok_def nodes_ok_def)
  ultimately obtain pre rest where "bs_nodes s = pre @ (x div 512, n) # rest"
      "find_node (bs_nodes s) (x div 512) = (x div 512, n) # rest"
    using find_node_split by blast
  then show ?thesis using n(2) by (auto simp: iter_ok_def iter_at_def chunk_iff)
qed

lemma iter_ok_bits: "iter_ok s it \<Longrightarrow> it_cur it \<in> bits s"
  by (auto simp: iter_ok_def bits_def nbits_def)

text \<open>A step moves to the next larger element.\<close>

lemma iter_next_spec:
  assumes ok: "bs_ok s" and it: "iter_ok s it" and ne: "it_cur it \<noteq> bs_last s"
  shows "\<exists>it'. iter_next s it = Inr it' \<and> iter_ok s it' \<and> it_cur it < it_cur it' \<and>
    (\<forall>x \<in> bits s. it_cur it < x \<longrightarrow> it_cur it' \<le> x)"
proof -
  obtain pre k n rest where sp: "bs_nodes s = pre @ (k, n) # rest" "it_nodes it = (k, n) # rest"
      "it_cur it \<in> chunk k n"
    using it by (auto simp: iter_ok_def)
  let ?c = "it_cur it"
  have ns: "nodes_ok (bs_nodes s)" using ok by (simp add: bs_ok_def)
  have om: "om_ok (pre @ (k, n) # rest)" using ns sp(1) by (auto dest: nodes_okD)
  have c: "?c = k * 512 + ?c mod 512" "?c mod 512 \<in> node_bits n" "?c mod 512 < 512"
    using chunk_parts[OF sp(3)] by simp_all
  have after: "x \<in> chunk k n \<or> x \<in> nbits rest" if "x \<in> bits s" "?c < x" for x
  proof -
    have "x \<notin> nbits pre"
    proof
      assume "x \<in> nbits pre"
      then have "x div 512 < k" using om_split_less(1)[OF om] by (auto simp: nbits_iff)
      then have "x < ?c" using chunk_less[of x k "?c mod 512"] c(1) by simp
      then show False using that(2) by simp
    qed
    then show ?thesis using that(1) sp(1) by (auto simp: bits_def nbits_def)
  qed
  have rest_after: "k * 512 + 511 < x" if "x \<in> nbits rest" for x
    using that om_split_less(2)[OF om] less_chunk[of k x 511] by (auto simp: nbits_iff)
  have within: "?c < x \<longleftrightarrow> ?c mod 512 < x mod 512" if "x \<in> chunk k n" for x
    using chunk_parts[OF that] c(1) by (metis add_less_cancel_left)
  note nx = NodeNext_least[OF c(3), of n]
  show ?thesis
  proof (cases "\<exists>b \<in> node_bits n. ?c mod 512 < b")
    case True
    then have b: "NodeNext n (?c mod 512) \<in> node_bits n" "?c mod 512 < NodeNext n (?c mod 512)"
        "\<And>d. d \<in> node_bits n \<Longrightarrow> ?c mod 512 < d \<Longrightarrow> NodeNext n (?c mod 512) \<le> d"
      using nx by auto
    define it' where "it' = it\<lparr>it_cur := k * 512 + NodeNext n (?c mod 512)\<rparr>"
    have "iter_next s it = Inr it'" using ne sp(2) b(2) by (simp add: iter_next_def it'_def Let_def)
    moreover have "iter_ok s it'"
      using sp b(1) unfolding iter_ok_def it'_def by (auto intro!: chunk_element)
    moreover have "?c < it_cur it'" using b(2) c(1) unfolding it'_def by simp
    moreover have "it_cur it' \<le> x" if x: "x \<in> bits s" "?c < x" for x
    proof (cases "x \<in> chunk k n")
      case True
      then show ?thesis using b(3)[of "x mod 512"] within[OF True] x(2) chunk_parts[OF True]
        unfolding it'_def by (metis add_le_cancel_left iter.select_convs(2) iter.update_convs(2) iter.surjective)
    next
      case False
      then have "k * 512 + 511 < x" using after[OF x] rest_after by blast
      then show ?thesis using node_bits_less[OF b(1)] unfolding it'_def by simp
    qed
    ultimately show ?thesis by blast
  next
    case False
    then have z: "NodeNext n (?c mod 512) = 0" using nx by simp
    have none: "x \<in> nbits rest" if "x \<in> bits s" "?c < x" for x
      using after[OF that] within[of x] that(2) False chunk_parts[of x k n] by blast
    have "bs_last s \<in> nbits rest"
      using none bs_ok_bounds[OF ok iter_ok_bits[OF it]] ne by auto
    then obtain k' n' rest' where r: "rest = (k', n') # rest'" by (cases rest) auto
    have okr: "nodes_ok ((k', n') # rest')"
    proof -
      have "om_ok ((k', n') # rest')" using om r by (simp add: om_ok_def sorted_wrt_append)
      then show ?thesis using ns sp(1) r by (auto simp: nodes_ok_def)
    qed
    define it' where "it' = \<lparr>it_nodes = rest, it_cur = k' * 512 + NodeFirst n'\<rparr>"
    have f: "\<And>x. x \<in> nbits rest \<Longrightarrow> it_cur it' \<le> x"
      using first_element[OF okr] r by (simp add: it'_def)
    have m: "it_cur it' \<in> chunk k' n'"
      using first_element[OF okr, of "bs_last s"] \<open>bs_last s \<in> nbits rest\<close> r by (simp add: it'_def)
    have "iter_next s it = Inr it'" using ne sp(2) z r by (simp add: iter_next_def it'_def)
    moreover have "iter_ok s it'"
      using m sp(1) r unfolding iter_ok_def
      by (intro exI[of _ "pre @ [(k, n)]"] exI[of _ k'] exI[of _ n'] exI[of _ rest']) (simp add: it'_def)
    moreover have "?c < it_cur it'"
    proof -
      have "it_cur it' \<in> nbits rest" using m r by simp
      then have "k * 512 + 511 < it_cur it'" by (rule rest_after)
      moreover have "?c \<le> k * 512 + 511" using c by simp
      ultimately show ?thesis by simp
    qed
    ultimately show ?thesis using f none by blast
  qed
qed

lemma end_cur: "it_cur (iter_end s) = bs_last s + 1"
  by (simp add: iter_end_def iter_at_def)

text \<open>A loop from an element on visits the elements from there on in ascending order.\<close>

lemma iterate_from:
  assumes ok: "bs_ok s" and top: "bs_last s < uint32_max" and it: "iter_ok s it"
  shows "\<exists>xs. iterate s it = Some (returns xs) \<and> sorted_wrt (<) xs \<and> set xs = {x \<in> bits s. it_cur it \<le> x}"
  using it
proof (induction "bs_last s - it_cur it" arbitrary: it rule: less_induct)
  case less
  have cur: "it_cur it \<in> bits s" "it_cur it \<le> bs_last s"
    using iter_ok_bits[OF less.prems] bs_ok_bounds[OF ok] by auto
  then have unfold: "iterate s it = (case iter_next s it of Inl e \<Rightarrow> Some (Inl e)
      | Inr it' \<Rightarrow> Option.bind (iterate s it')
          (\<lambda>r. Some (case r of Inl e \<Rightarrow> Inl e | Inr xs \<Rightarrow> returns (it_cur it # xs))))"
    by (subst iterate.simps) (simp add: end_cur)
  show ?case
  proof (cases "it_cur it = bs_last s")
    case True
    have "iter_next s it = Inr (it\<lparr>it_cur := bs_last s + 1\<rparr>)"
      using True top by (simp add: iter_next_def uint32_max_def)
    then have "iterate s it = Some (returns [bs_last s])"
      unfolding unfold using True by (simp add: iterate.simps end_cur)
    moreover have "{x \<in> bits s. it_cur it \<le> x} = {bs_last s}"
      using True cur bs_ok_bounds[OF ok] by (auto intro: le_antisym)
    ultimately show ?thesis by simp
  next
    case False
    then obtain it' where s: "iter_next s it = Inr it'" "iter_ok s it'" "it_cur it < it_cur it'"
        "\<forall>x \<in> bits s. it_cur it < x \<longrightarrow> it_cur it' \<le> x"
      using iter_next_spec[OF ok less.prems] by blast
    have "it_cur it' \<le> bs_last s" using iter_ok_bits[OF s(2)] bs_ok_bounds[OF ok] by auto
    then have "bs_last s - it_cur it' < bs_last s - it_cur it" using s(3) by simp
    from less.hyps[OF this s(2)] obtain xs where xs: "iterate s it' = Some (returns xs)"
        "sorted_wrt (<) xs" "set xs = {x \<in> bits s. it_cur it' \<le> x}" by blast
    have "{x \<in> bits s. it_cur it \<le> x} = insert (it_cur it) (set xs)"
      using s(3,4) cur(1) xs(3) by (auto simp: le_less)
    moreover have "\<forall>x \<in> set xs. it_cur it < x" using s(3) xs(3) by auto
    ultimately show ?thesis using xs s(1) by (simp add: unfold)
  qed
qed

lemma sorted_list_unique:
  "sorted_wrt (<) (xs :: nat list) \<Longrightarrow> set xs = A \<Longrightarrow> xs = sorted_list_of_set A"
  by (metis sorted_list_of_set.idem_if_sorted_distinct strict_sorted_iff)

lemma iterate_spec:
  assumes "bs_ok s" "bs_last s < uint32_max"
  shows "iterate s (iter_begin s) = Some (returns (sorted_list_of_set (bits s)))"
proof (cases "bits s = {}")
  case True
  then have "iter_begin s = iter_end s" using Empty_iff[OF assms(1)] by (simp add: iter_begin_def)
  then show ?thesis using True by (simp add: iterate.simps)
next
  case False
  then have f: "bs_first s \<in> bits s" using bs_ok_bounds[OF assms(1)] by auto
  have b: "iter_begin s = iter_at s (bs_first s)"
    using False Empty_iff[OF assms(1)] by (simp add: iter_begin_def)
  obtain xs where "iterate s (iter_begin s) = Some (returns xs)" "sorted_wrt (<) xs"
      "set xs = {x \<in> bits s. bs_first s \<le> x}"
    using iterate_from[OF assms iter_at_ok[OF assms(1) f]] b by (auto simp: iter_at_def)
  moreover have "{x \<in> bits s. bs_first s \<le> x} = bits s" using bs_ok_bounds[OF assms(1)] by auto
  ultimately show ?thesis using sorted_list_unique[of xs "bits s"] by simp
qed

subsection \<open>Reverse iteration\<close>

definition riter_ok :: "bitset \<Rightarrow> riter \<Rightarrow> nat \<Rightarrow> bool" where
  "riter_ok s it c \<longleftrightarrow> rit_cur it = int c \<and> (\<exists>pre k n rest. bs_nodes s = rev rest @ (k, n) # pre \<and>
     rit_nodes it = (k, n) # rest \<and> c \<in> chunk k n)"

lemma riter_ok_bits: "riter_ok s it c \<Longrightarrow> c \<in> bits s"
  by (auto simp: riter_ok_def bits_def nbits_def)

lemma riter_at_ok:
  assumes "bs_ok s" "x \<in> bits s"
  shows "riter_ok s (riter_at s (int x)) x"
proof -
  have ns: "nodes_ok (bs_nodes s)" using assms(1) by (simp add: bs_ok_def)
  obtain n where n: "(x div 512, n) \<in> set (bs_nodes s)" "x mod 512 \<in> node_bits n"
    using assms(2) by (auto simp: bits_def nbits_iff)
  have x: "x < 2 ^ 32" using nbits_less[OF ns] assms(2) by (simp add: bits_def)
  then have key: "nat (take_bit 64 (int x)) div 512 mod 2 ^ 32 = x div 512"
    by (simp add: take_bit_int_eq_self div_less_iff_less_mult)
  obtain pre rest where sp: "bs_nodes s = pre @ (x div 512, n) # rest" using n(1) by (meson split_list)
  have om: "om_ok (pre @ (x div 512, n) # rest)" using ns sp by (auto dest: nodes_okD)
  have "fst p \<noteq> x div 512" if "p \<in> set (rev rest)" for p
    using om_split_less(2)[OF om, of "fst p" "snd p"] that by auto
  then have "find_node (rev (bs_nodes s)) (x div 512) = (x div 512, n) # rev pre"
    unfolding sp find_node_def by (simp, subst dropWhile_append2) auto
  then have "riter_at s (int x) = \<lparr>rit_nodes = (x div 512, n) # rev pre, rit_cur = int x\<rparr>"
    unfolding riter_at_def key by simp
  then show ?thesis using n(2) sp unfolding riter_ok_def
    by (intro conjI exI[of _ rest] exI[of _ "x div 512"] exI[of _ n] exI[of _ "rev pre"])
      (simp_all add: chunk_iff)
qed

text \<open>A step moves to the next smaller element.\<close>

lemma riter_next_spec:
  assumes ok: "bs_ok s" and it: "riter_ok s it c" and ne: "c \<noteq> bs_first s"
  shows "\<exists>it' c'. riter_next s it = Inr it' \<and> riter_ok s it' c' \<and> c' < c \<and>
    (\<forall>x \<in> bits s. x < c \<longrightarrow> x \<le> c')"
proof -
  obtain pre k n rest where sp: "bs_nodes s = rev rest @ (k, n) # pre" "rit_nodes it = (k, n) # rest"
      "c \<in> chunk k n" and cur: "rit_cur it = int c"
    using it by (auto simp: riter_ok_def)
  have ns: "nodes_ok (bs_nodes s)" using ok by (simp add: bs_ok_def)
  have om: "om_ok (rev rest @ (k, n) # pre)" using ns sp(1) by (auto dest: nodes_okD)
  have c: "c = k * 512 + c mod 512" "c mod 512 \<in> node_bits n" "c mod 512 < 512"
    using chunk_parts[OF sp(3)] by simp_all
  have cm: "nat (rit_cur it mod 512) = c mod 512" using cur by (simp add: nat_mod_distrib)
  have ne': "rit_cur it \<noteq> int (bs_first s)" using ne cur by simp
  have before: "x \<in> chunk k n \<or> x \<in> nbits (rev rest)" if "x \<in> bits s" "x < c" for x
  proof -
    have "x \<notin> nbits pre"
    proof
      assume "x \<in> nbits pre"
      then have "k < x div 512" using om_split_less(2)[OF om] by (auto simp: nbits_iff)
      then have "c < x" using less_chunk[of k x "c mod 512"] c by simp
      then show False using that(2) by simp
    qed
    then show ?thesis using that(1) sp(1) by (auto simp: bits_def nbits_def)
  qed
  have rest_before: "x < k * 512" if "x \<in> nbits (rev rest)" for x
    using that om_split_less(1)[OF om] chunk_less[of x k 0] by (auto simp: nbits_iff)
  have within: "x < c \<longleftrightarrow> x mod 512 < c mod 512" if "x \<in> chunk k n" for x
    using chunk_parts[OF that] c(1) by (metis add_less_cancel_left)
  note pv = NodePrev_greatest[OF c(3), of n]
  show ?thesis
  proof (cases "\<exists>b \<in> node_bits n. b < c mod 512")
    case True
    define b where "b = NodePrev n (c mod 512)"
    have b: "b \<in> node_bits n" "b < c mod 512" "\<And>d. d \<in> node_bits n \<Longrightarrow> d < c mod 512 \<Longrightarrow> d \<le> b"
      using pv True by (auto simp: b_def)
    have "b < 512" using node_bits_less[OF b(1)] .
    define it' where "it' = it\<lparr>rit_cur := int (k * 512 + b)\<rparr>"
    have "riter_next s it = Inr it'"
      using ne' sp(2) \<open>b < 512\<close> by (simp add: riter_next_def it'_def cm b_def[symmetric])
    moreover have "riter_ok s it' (k * 512 + b)"
      using sp b(1) unfolding riter_ok_def it'_def by (auto intro!: chunk_element)
    moreover have "k * 512 + b < c" using b(2) c(1) by simp
    moreover have "x \<le> k * 512 + b" if x: "x \<in> bits s" "x < c" for x
    proof (cases "x \<in> chunk k n")
      case True
      then show ?thesis using b(3)[of "x mod 512"] within[OF True] x(2) chunk_parts[OF True]
        by (metis add_le_cancel_left)
    next
      case False
      then show ?thesis using before[OF x] rest_before by fastforce
    qed
    ultimately show ?thesis by blast
  next
    case False
    then have z: "NodePrev n (c mod 512) = 512" using pv by simp
    have none: "x \<in> nbits (rev rest)" if "x \<in> bits s" "x < c" for x
      using before[OF that] within[of x] that(2) False chunk_parts[of x k n] by blast
    have fr: "bs_first s \<in> nbits (rev rest)"
      using none bs_ok_bounds[OF ok riter_ok_bits[OF it]] ne by auto
    then obtain k' n' rest' where r: "rest = (k', n') # rest'" by (cases rest) auto
    have okr: "nodes_ok (rev rest' @ [(k', n')])"
    proof -
      have "om_ok (rev rest' @ [(k', n')])" using om r by (simp add: om_ok_def sorted_wrt_append)
      then show ?thesis using ns sp(1) r by (auto simp: nodes_ok_def)
    qed
    define c' where "c' = k' * 512 + NodeLast n'"
    define it' where "it' = \<lparr>rit_nodes = rest, rit_cur = int c'\<rparr>"
    have f: "x \<le> c'" if "x \<in> nbits (rev rest)" for x
      using last_element[OF okr, of x] that r by (simp add: c'_def)
    have m: "c' \<in> chunk k' n'" using last_element[OF okr, of "bs_first s"] fr r by (simp add: c'_def)
    have "riter_next s it = Inr it'" using ne' sp(2) z r by (simp add: riter_next_def cm it'_def c'_def)
    moreover have "riter_ok s it' c'"
      using m sp(1) r unfolding riter_ok_def
      by (intro conjI exI[of _ "(k, n) # pre"] exI[of _ k'] exI[of _ n'] exI[of _ rest']) (simp_all add: it'_def)
    moreover have "c' < c"
    proof -
      have "c' \<in> nbits (rev rest)" using m r by (simp add: nbits_def)
      then have "c' < k * 512" by (rule rest_before)
      then show ?thesis using c(1) by simp
    qed
    ultimately show ?thesis using f none by blast
  qed
qed

subsection \<open>Erasing an element\<close>

lemma erase_nodes:
  assumes "nodes_ok ns" "x < 2 ^ 32" "NodeErase (node_at ns (x div 512)) (x mod 512) = (n, zero)"
  defines "ns' \<equiv> if zero then om_del (x div 512) (om_set (x div 512) n ns) else om_set (x div 512) n ns"
  shows "nodes_ok ns' \<and> nbits ns' = nbits ns - {x}"
proof -
  let ?k = "x div 512"
  have k: "?k < 2 ^ 23" using assms(2) by (simp add: div_less_iff_less_mult)
  have n: "node_ok n" "node_bits n = node_bits (node_at ns ?k) - {x mod 512}" "zero = (node_bits n = {})"
    using NodeErase_bits[OF node_at_ok[OF assms(1)] _ assms(3)] by simp_all
  have om: "om_ok ns" "om_ok (om_set ?k n ns)" using assms(1) by (auto intro: om_set_ok dest: nodes_okD)
  have "y \<in> nbits ns' \<longleftrightarrow> y \<in> nbits ns - {x}" for y
  proof -
    have "y = x \<longleftrightarrow> y div 512 = ?k \<and> y mod 512 = x mod 512" by (metis div_mult_mod_eq)
    moreover have "y \<in> nbits ns' \<longleftrightarrow> (if y div 512 = ?k then y mod 512 \<in> node_bits n else y \<in> nbits ns)"
      using n(3) om by (auto simp: ns'_def om_del_nbits om_set_nbits)
    ultimately show ?thesis using n(2) om by (auto simp: nbits_lookup)
  qed
  moreover have "nodes_ok ns'"
  proof (cases zero)
    case True
    have "(k', n') \<in> set ns \<or> k' = ?k" if "(k', n') \<in> set (om_set ?k n ns)" for k' n'
      using om_set_members[OF that] by blast
    moreover have "?k \<noteq> k'" if "(k', n') \<in> set (om_del ?k (om_set ?k n ns))" for k' n'
      using that om_del_lookup[OF om(2), of ?k] om_lookup_iff[OF om_del_ok[OF om(2), of ?k], of k' n'] by auto
    ultimately show ?thesis
      using assms(1) True om om_del_members[of _ _ ?k "om_set ?k n ns"]
      by (fastforce simp: ns'_def nodes_ok_def om_del_ok)
  next
    case False
    then show ?thesis using om_set_nodes_ok[OF assms(1) n(1) _ k] n(3) by (simp add: ns'_def)
  qed
  ultimately show ?thesis by blast
qed

lemma Erase_spec:
  assumes ok: "bs_ok s" and x: "x < 2 ^ 32" and def: "bits s \<noteq> {} \<or> x \<noteq> 0 \<and> x \<noteq> uint32_max"
  shows "\<exists>s'. Erase s x = returns s' \<and> bs_ok s' \<and> bits s' = bits s - {x}"
proof -
  have ns: "nodes_ok (bs_nodes s)" using ok by (simp add: bs_ok_def)
  obtain n zero where n: "NodeErase (node_at (bs_nodes s) (x div 512)) (x mod 512) = (n, zero)" by fastforce
  define ns' where "ns' = (if zero then om_del (x div 512) (om_set (x div 512) n (bs_nodes s))
    else om_set (x div 512) n (bs_nodes s))"
  have e: "nodes_ok ns' \<and> nbits ns' = bits s - {x}"
    using erase_nodes[OF ns x n] by (simp add: ns'_def bits_def)
  have fin: ?thesis if "Erase s x = returns (s\<lparr>bs_first := f, bs_last := l, bs_nodes := ns'\<rparr>)"
      "if bits s - {x} = {} then f = uint32_max \<and> l = 0
       else f \<in> bits s - {x} \<and> l \<in> bits s - {x} \<and> (\<forall>y \<in> bits s - {x}. f \<le> y \<and> y \<le> l)" for f l
  proof -
    let ?s = "s\<lparr>bs_first := f, bs_last := l, bs_nodes := ns'\<rparr>"
    have "bits ?s = bits s - {x}" using e by (simp add: bits_def)
    moreover have "bounds_ok ?s" unfolding bounds_ok_def calculation using that(2) by (simp split: if_splits)
    ultimately show ?thesis using that(1) e by (simp add: bs_ok_def)
  qed
  have fin_ne: ?thesis if "Erase s x = returns (s\<lparr>bs_first := f, bs_last := l, bs_nodes := ns'\<rparr>)"
      "f \<in> bits s" "f \<noteq> x" "l \<in> bits s" "l \<noteq> x" "\<forall>y \<in> bits s - {x}. f \<le> y \<and> y \<le> l" for f l
    by (rule fin[OF that(1)]) (use that(2-) in auto)
  have run: "Erase s x = returns (s1\<lparr>bs_nodes := ns'\<rparr>)"
    if "bs_nodes s1 = bs_nodes s" "(if x = bs_first s \<and> x = bs_last s then returns (s\<lparr>bs_first := uint32_max, bs_last := 0\<rparr>)
         else if x = bs_first s then
           (case iter_next s (iter_begin s) of Inl e \<Rightarrow> Inl e | Inr it \<Rightarrow> returns (s\<lparr>bs_first := it_cur it mod 2 ^ 32\<rparr>))
         else if x = bs_last s then
           (case riter_next s (riter_begin s) of Inl e \<Rightarrow> Inl e
            | Inr it \<Rightarrow> returns (s\<lparr>bs_last := nat (rit_cur it mod 2 ^ 32)\<rparr>))
         else returns s) = Inr s1" for s1
    using that n by (simp add: Erase_def item_mod ns'_def Let_def)
  have less: "y < 2 ^ 32" if "y \<in> bits s" for y using nbits_less[OF ns] that by (simp add: bits_def)
  show ?thesis
  proof (cases "bits s = {}")
    case True
    then have "bs_first s = uint32_max" "bs_last s = 0" using ok by (simp_all add: bs_ok_def bounds_ok_def)
    then have "Erase s x = returns (s\<lparr>bs_nodes := ns'\<rparr>)" using run[of s] def True by simp
    then show ?thesis
      using \<open>bs_first s = _\<close> \<open>bs_last s = _\<close> True by (intro fin[where f="bs_first s" and l="bs_last s"]) simp_all
  next
    case False
    then have b: "bs_first s \<in> bits s" "bs_last s \<in> bits s" "\<And>y. y \<in> bits s \<Longrightarrow> bs_first s \<le> y \<and> y \<le> bs_last s"
      using bs_ok_bounds[OF ok] by auto
    have ne: "\<not> Empty s" using False Empty_iff[OF ok] by simp
    consider "x = bs_first s" "x = bs_last s" | "x = bs_first s" "x \<noteq> bs_last s"
      | "x \<noteq> bs_first s" "x = bs_last s" | "x \<noteq> bs_first s" "x \<noteq> bs_last s" by blast
    then show ?thesis
    proof cases
      case 1
      then have "bits s - {x} = {}" using b by (auto intro: le_antisym)
      moreover have "Erase s x = returns (s\<lparr>bs_first := uint32_max, bs_last := 0, bs_nodes := ns'\<rparr>)"
        using run[of "s\<lparr>bs_first := uint32_max, bs_last := 0\<rparr>"] 1 by simp
      ultimately show ?thesis using fin by simp
    next
      case 2
      have beg: "iter_begin s = iter_at s x" "iter_ok s (iter_at s x)" "it_cur (iter_at s x) = x"
        using ne 2 iter_at_ok[OF ok b(1)] by (simp_all add: iter_begin_def iter_at_def)
      obtain it' where it': "iter_next s (iter_begin s) = Inr it'" "iter_ok s it'" "x < it_cur it'"
          "\<forall>y \<in> bits s. x < y \<longrightarrow> it_cur it' \<le> y"
        using iter_next_spec[OF ok beg(2)] beg 2 by auto
      have "it_cur it' \<in> bits s" by (rule iter_ok_bits[OF it'(2)])
      moreover have "Erase s x = returns (s\<lparr>bs_first := it_cur it', bs_nodes := ns'\<rparr>)"
        using run[of "s\<lparr>bs_first := it_cur it'\<rparr>"] 2 it'(1) less[OF calculation] by simp
      moreover have "\<forall>y \<in> bits s - {x}. it_cur it' \<le> y \<and> y \<le> bs_last s"
        using it'(4) b(3) 2(1) by (auto simp: le_less)
      ultimately show ?thesis
        using it'(3) b(2) 2 by (intro fin_ne[where f="it_cur it'" and l="bs_last s"]) auto
    next
      case 3
      have beg: "riter_begin s = riter_at s (int x)" "riter_ok s (riter_at s (int x)) x"
        using ne 3 riter_at_ok[OF ok b(2)] by (simp_all add: riter_begin_def)
      obtain it' c' where it': "riter_next s (riter_begin s) = Inr it'" "riter_ok s it' c'" "c' < x"
          "\<forall>y \<in> bits s. y < x \<longrightarrow> y \<le> c'"
        using riter_next_spec[OF ok beg(2) 3(1)] beg(1) by auto
      have c': "c' \<in> bits s" "rit_cur it' = int c'"
        using riter_ok_bits[OF it'(2)] it'(2) by (auto simp: riter_ok_def)
      moreover have "nat (rit_cur it' mod 2 ^ 32) = c'" using c' less[OF c'(1)] by simp
      then have "Erase s x = returns (s\<lparr>bs_last := c', bs_nodes := ns'\<rparr>)"
        using run[of "s\<lparr>bs_last := c'\<rparr>"] 3 it'(1) by simp
      moreover have "\<forall>y \<in> bits s - {x}. bs_first s \<le> y \<and> y \<le> c'"
        using it'(4) b(3) 3(2) by (auto simp: le_less)
      ultimately show ?thesis
        using it'(3) b(1) 3 c'(1) by (intro fin_ne[where f="bs_first s" and l=c']) auto
    next
      case 4
      then have "Erase s x = returns (s\<lparr>bs_nodes := ns'\<rparr>)" using run[of s] by simp
      then show ?thesis using 4 b by (intro fin_ne[where f="bs_first s" and l="bs_last s"]) auto
    qed
  qed
qed

subsection \<open>The interface of a set of identifiers\<close>

text \<open>
  What the analyses rely on when they collect identifiers: an insertion says whether the element is
  new, and a union how many elements are. A sequence of unions therefore reports in total by how much
  the set has grown, so that a solver which runs until a union reports 0 stops.
\<close>

definition add_all :: "('s \<Rightarrow> nat \<Rightarrow> 's \<times> bool) \<Rightarrow> 's \<Rightarrow> nat list \<Rightarrow> 's" where
  "add_all add s xs = foldl (\<lambda>s x. fst (add s x)) s xs"

fun join_all :: "('s \<Rightarrow> 's \<Rightarrow> 's \<times> nat) \<Rightarrow> 's \<Rightarrow> 's list \<Rightarrow> 's \<times> nat" where
  "join_all join s [] = (s, 0)"
| "join_all join s (t # ts) =
     (let (s', c) = join s t; (s'', d) = join_all join s' ts in (s'', c + d))"

locale id_set =
  fixes empty :: "'s" and add :: "'s \<Rightarrow> nat \<Rightarrow> 's \<times> bool" and has :: "'s \<Rightarrow> nat \<Rightarrow> bool"
    and join :: "'s \<Rightarrow> 's \<Rightarrow> 's \<times> nat" and elems :: "'s \<Rightarrow> nat set" and valid :: "'s \<Rightarrow> bool"
  assumes empty: "valid empty \<and> elems empty = {}"
    and add: "valid s \<Longrightarrow> x < 2 ^ 32 \<Longrightarrow> valid (fst (add s x)) \<and> elems (fst (add s x)) = insert x (elems s) \<and>
      snd (add s x) = (x \<notin> elems s)"
    and has: "valid s \<Longrightarrow> has s x = (x \<in> elems s)"
    and join: "valid s \<Longrightarrow> valid t \<Longrightarrow> valid (fst (join s t)) \<and> elems (fst (join s t)) = elems s \<union> elems t \<and>
      snd (join s t) = card (elems t - elems s)"
    and finite_elems: "valid s \<Longrightarrow> finite (elems s)"
begin

lemma add_all_elems:
  "valid s \<Longrightarrow> (\<And>x. x \<in> set xs \<Longrightarrow> x < 2 ^ 32) \<Longrightarrow>
    valid (add_all add s xs) \<and> elems (add_all add s xs) = elems s \<union> set xs"
proof (induction xs arbitrary: s)
  case (Cons x xs)
  then show ?case using add[of s x] by (simp add: add_all_def)
qed (simp add: add_all_def)

lemma join_all_count:
  assumes "valid s" "\<And>t. t \<in> set ts \<Longrightarrow> valid t" "join_all join s ts = (s', c)"
  shows "valid s' \<and> elems s' = elems s \<union> (\<Union>t \<in> set ts. elems t) \<and> card (elems s') = card (elems s) + c"
  using assms
proof (induction ts arbitrary: s c)
  case (Cons t ts)
  obtain s1 a where a: "join s t = (s1, a)" by fastforce
  obtain d where d: "join_all join s1 ts = (s', d)" "c = a + d"
    using Cons.prems(3) a by (auto split: prod.splits)
  have j: "valid s1 \<and> elems s1 = elems s \<union> elems t \<and> a = card (elems t - elems s)"
    using join[of s t] Cons.prems(1,2) a by simp
  have "card (elems s1) = card (elems s) + a"
  proof -
    have "elems s1 = elems s \<union> (elems t - elems s)" using j by auto
    moreover have "finite (elems s)" "finite (elems t)" using finite_elems Cons.prems(1,2) by simp_all
    ultimately show ?thesis using j by (metis Diff_disjoint card_Un_disjoint finite_Diff)
  qed
  then show ?case using Cons.IH[of s1 d] j d Cons.prems(2) by auto
qed simp

end

interpretation bs: id_set new_bitset Insert Contains Union bits bs_ok
proof
  show "bs_ok new_bitset \<and> bits new_bitset = {}" by (rule new_bitset_ok)
  show "bs_ok (fst (Insert s x)) \<and> bits (fst (Insert s x)) = insert x (bits s) \<and> snd (Insert s x) = (x \<notin> bits s)"
    if "bs_ok s" "x < 2 ^ 32" for s x
    using Insert_spec[OF that, of "fst (Insert s x)" "snd (Insert s x)"] by simp
  show "Contains s x = (x \<in> bits s)" if "bs_ok s" for s x using that by (rule Contains_spec)
  show "bs_ok (fst (Union s t)) \<and> bits (fst (Union s t)) = bits s \<union> bits t \<and>
      snd (Union s t) = card (bits t - bits s)" if "bs_ok s" "bs_ok t" for s t
    using Union_spec[OF that, of "fst (Union s t)" "snd (Union s t)"] by simp
  show "finite (bits s)" if "bs_ok s" for s using that by (intro bits_finite) (simp add: bs_ok_def)
qed

subsection \<open>Properties\<close>

definition sample_set :: "nat list \<Rightarrow> bitset" where
  "sample_set xs = add_all Insert new_bitset xs"

lemma sample_set_ok:
  "(\<forall>x \<in> set xs. x < 2 ^ 32) \<Longrightarrow> bs_ok (sample_set xs) \<and> bits (sample_set xs) = set xs"
  using bs.add_all_elems[of new_bitset xs] new_bitset_ok by (simp add: sample_set_def)

text \<open>C10: Insertion keeps the invariant, adds exactly the element and answers whether it was new.\<close>

theorem bitset_insert:
  assumes "bs_ok s" "x < 2 ^ 32"
  shows "bs_ok (fst (Insert s x)) \<and> snd (Insert s x) = (\<not> Contains s x) \<and>
    (\<forall>y. Contains (fst (Insert s x)) y \<longleftrightarrow> y = x \<or> Contains s y)"
  using bs.add[OF assms] bs.has assms(1) by auto

theorem bitset_insert_witness:
  "Contains (fst (Insert (sample_set [3, 700]) 1100000)) 1100000 \<and> snd (Insert (sample_set [3, 700]) 1100000) \<and>
   \<not> snd (Insert (sample_set [3, 700]) 700)"
proof -
  have ok: "bs_ok (sample_set [3, 700])" "bits (sample_set [3, 700]) = {3, 700}"
    using sample_set_ok[of "[3, 700]"] by auto
  have c: "\<not> Contains (sample_set [3, 700]) 1100000" "Contains (sample_set [3, 700]) 700"
    using ok bs.has[OF ok(1)] by simp_all
  show ?thesis
    using bitset_insert [OF ok(1), of 1100000] bitset_insert [OF ok(1), of 700] c by simp
qed



text \<open>Erasing 0 from an empty set dereferences the iterator past the last node.\<close>

theorem erase_from_empty_fails: "Erase new_bitset 0 = Inl BadIterator"
  by (simp add: Erase_def new_bitset_def riter_begin_def riter_end_def riter_at_def Empty_def find_node_def
      riter_next_def uint32_max_def)

text \<open>A union keeps the invariant, adds exactly the elements of the other set and answers the number
  of new ones; over a sequence of unions the answers add up to the growth of the set.\<close>

theorem bitset_union_counts:
  assumes "bs_ok s" "\<And>t. t \<in> set ts \<Longrightarrow> bs_ok t" "join_all Union s ts = (s', c)"
  shows "bs_ok s' \<and> bits s' = bits s \<union> (\<Union>t \<in> set ts. bits t) \<and> Size s' = Size s + c"
proof -
  have "Size s = card (bits s)" if "bs_ok s" for s
    using nbits_card that by (simp add: Size_def bits_def bs_ok_def)
  then show ?thesis using bs.join_all_count[OF assms] assms(1) by metis
qed

theorem bitset_union_counts_witness:
  "Size (fst (join_all Union (sample_set [3]) [sample_set [700], sample_set [3, 700, 9]])) =
   Size (sample_set [3]) + snd (join_all Union (sample_set [3]) [sample_set [700], sample_set [3, 700, 9]])"
proof -
  have ok: "bs_ok (sample_set [3])" "bs_ok (sample_set [700])" "bs_ok (sample_set [3, 700, 9])"
    using sample_set_ok by auto
  show ?thesis
    using bitset_union_counts [OF ok(1), of "[sample_set [700], sample_set [3, 700, 9]]"] ok(2,3)
    by (metis empty_iff insert_iff list.set(1) list.set(2) prod.collapse)
qed

text \<open>The difference is exact and keeps the invariant, and equality of sets is equality of elements.\<close>

theorem bitset_difference:
  assumes "bs_ok s" "bs_ok t"
  shows "bs_ok (Subtract s t) \<and> bits (Subtract s t) = bits s - bits t \<and> (bitset_eq s t \<longleftrightarrow> bits s = bits t)"
  using Subtract_spec[OF assms] bitset_eq_spec[OF assms] by blast

theorem bitset_difference_witness:
  "bits (Subtract (sample_set [3, 700, 512]) (sample_set [512])) = {3, 700} \<and>
   bitset_eq (sample_set [3, 700]) (sample_set [700, 3])"
proof -
  have ok: "bs_ok (sample_set [3, 700, 512])" "bs_ok (sample_set [512])" "bs_ok (sample_set [3, 700])"
      "bs_ok (sample_set [700, 3])" using sample_set_ok by auto
  have b: "bits (sample_set [3, 700, 512]) = {3, 700, 512}" "bits (sample_set [512]) = {512}"
      "bits (sample_set [3, 700]) = {3, 700}" "bits (sample_set [700, 3]) = {3, 700}"
    using sample_set_ok[of "[3, 700, 512]"] sample_set_ok[of "[512]"] sample_set_ok[of "[3, 700]"]
      sample_set_ok[of "[700, 3]"] by auto
  show ?thesis
    using bitset_difference [OF ok(1,2)] bitset_difference [OF ok(3,4)] b by auto
qed

text \<open>C30: The intersection keeps the invariant but not only the common elements: those of the left set
  in chunks behind the last chunk of the right one stay as well.\<close>

theorem bitset_intersection:
  assumes "bs_ok s" "bs_ok t"
  shows "bs_ok (Intersect s t) \<and>
    bits (Intersect s t) = {x \<in> bits s. x \<in> bits t \<or> bits t = {} \<or> bs_last t div 512 < x div 512}"
  using Intersect_spec[OF assms] .

theorem bitset_intersection_witness:
  "512 \<in> bits (Intersect (sample_set [0, 512]) (sample_set [0])) \<and> 512 \<notin> bits (sample_set [0])"
proof -
  have ok: "bs_ok (sample_set [0, 512])" "bs_ok (sample_set [0])" "bits (sample_set [0, 512]) = {0, 512}"
      "bits (sample_set [0]) = {0}"
    using sample_set_ok[of "[0, 512]"] sample_set_ok[of "[0]"] by auto
  have "bs_last (sample_set [0]) = 0" using bs_ok_bounds[OF ok(2), of 0] ok(4) by auto
  then show ?thesis using bitset_intersection [OF ok(1,2)] ok(3,4) by simp
qed

text \<open>C31: A loop over a set that does not hold the largest identifier ends, reaches no node past the
  map, and visits every element once in ascending order.\<close>

theorem bitset_loop:
  assumes "bs_ok s" "\<not> Contains s uint32_max"
  shows "iterate s (iter_begin s) = Some (returns (sorted_list_of_set (bits s)))"
proof (rule iterate_spec[OF assms(1)])
  show "bs_last s < uint32_max"
  proof (cases "bits s = {}")
    case True
    then show ?thesis using assms(1) by (simp add: bs_ok_def bounds_ok_def uint32_max_def)
  next
    case False
    then have l: "bs_last s \<in> bits s" using bs_ok_bounds[OF assms(1)] by auto
    then have "bs_last s < 2 ^ 32"
      using nbits_less[of "bs_nodes s"] assms(1) by (simp add: bits_def bs_ok_def)
    moreover have "bs_last s \<noteq> uint32_max" using l assms bs.has[OF assms(1)] by auto
    ultimately show ?thesis by (simp add: uint32_max_def)
  qed
qed

theorem bitset_loop_witness:
  "iterate (sample_set [700, 3]) (iter_begin (sample_set [700, 3])) = Some (returns [3, 700])"
proof -
  have ok: "bs_ok (sample_set [700, 3])" "bits (sample_set [700, 3]) = {3, 700}"
    using sample_set_ok[of "[700, 3]"] by auto
  have "\<not> Contains (sample_set [700, 3]) uint32_max" using ok bs.has[OF ok(1)] by (simp add: uint32_max_def)
  from bitset_loop [OF ok(1) this] show ?thesis using ok(2) by simp
qed

text \<open>A loop from \<^verbatim>\<open>rbegin()\<close> to \<^verbatim>\<open>rend()\<close> over a set that holds 0 does not end: the step from the
  smallest element stores \<^verbatim>\<open>first_ - 1\<close> as an unsigned 32-bit number, \<^verbatim>\<open>rend()\<close> is at -1.\<close>

theorem reverse_loop_diverges:
  "riterate (Singleton 0) (riter_begin (Singleton 0)) = None"
proof -
  define s where "s = Singleton 0"
  define n where "n = fst (NodeInsert new_node 0)"
  have s: "bs_first s = 0" "bs_last s = 0" "bs_nodes s = [(0, n)]"
    by (simp_all add: s_def Singleton_def Insert_def new_bitset_def node_at_def n_def split_beta)
  have nb: "node_bits n = {0}"
    using NodeInsert_bits[of new_node 0 n "snd (NodeInsert new_node 0)"] by (simp add: n_def)
  have pv: "NodePrev n 511 = 0" using NodePrev_greatest[of 511 n] nb by simp
  define bad where "bad = (\<lambda>it :: riter. rit_nodes it = [(0, n)] \<and> rit_cur it \<in> {0, 4294967295})"
  have "\<not> bad it" if "riterate s it = Some r" for it r
  proof -
    have "t = s \<longrightarrow> \<not> bad it" if "riterate t it = Some r" for t it r
      using that
    proof (rule riterate.raw_induct[rotated])
      fix f t it y
      assume IH: "\<And>t it y. f t it = Some y \<Longrightarrow> t = s \<longrightarrow> \<not> bad it"
        and run: "(if rit_cur it = rit_cur (riter_end t) then Some (returns [])
          else case riter_next t it of Inl e \<Rightarrow> Some (Inl e)
            | Inr it' \<Rightarrow> Option.bind (f t it')
                (\<lambda>r. Some (case r of Inl e \<Rightarrow> Inl e | Inr xs \<Rightarrow> returns (rit_cur it # xs)))) = Some y"
      show "t = s \<longrightarrow> \<not> bad it"
      proof (intro impI notI)
        assume t: "t = s" and b: "bad it"
        have e: "rit_cur (riter_end s) = -1" by (simp add: riter_end_def riter_at_def s)
        have nx: "\<exists>it'. riter_next s it = Inr it' \<and> bad it'"
          using b s pv by (auto simp: bad_def riter_next_def)
        have ne: "rit_cur it \<noteq> -1" using b by (auto simp: bad_def)
        obtain it' where it': "riter_next s it = Inr it'" "bad it'" using nx by blast
        then obtain y' where "f s it' = Some y'" using run t e ne by (auto simp: Option.bind_eq_Some_conv)
        then show False using IH it'(2) by blast
      qed
    qed
    then show ?thesis using that by blast
  qed
  moreover have "bad (riter_begin s)"
    by (simp add: bad_def riter_begin_def Empty_def riter_at_def s find_node_def)
  ultimately show ?thesis unfolding s_def[symmetric] by (cases "riterate s (riter_begin s)") auto
qed

end
