(* ===== verification/UnionFind.thy ===== *)
theory UnionFind
  imports Prelude "HOL-Library.Monad_Syntax"
begin

text \<open>
  The union-find structure (\<^verbatim>\<open>core/adt/union_find.h\<close>): entries with a parent, a rank and, for roots,
  the element that stands for the class. Both loops of \<^verbatim>\<open>Find\<close> are functions that may not end
  (\<open>None\<close>); an index past the entries is \<open>Inl BadIterator\<close>. The merge of two elements,
  \<^verbatim>\<open>T::Union\<close>, is a parameter.
\<close>

subsection \<open>State and operations\<close>

record 'a entry =
  e_parent :: nat
  e_rank :: nat
  e_element :: "'a option"

record 'a union_find =
  uf_entries :: "'a entry list"
  uf_size :: nat

definition uf_empty :: "'a union_find" where
  "uf_empty = \<lparr>uf_entries = [], uf_size = 0\<rparr>"

definition Emplace :: "'a union_find \<Rightarrow> (nat \<Rightarrow> 'a) \<Rightarrow> 'a union_find \<times> nat" where
  "Emplace u mk =
     (let n = length (uf_entries u)
      in (\<lparr>uf_entries = uf_entries u @ [\<lparr>e_parent = n, e_rank = 0, e_element = Some (mk n)\<rparr>],
           uf_size = uf_size u + 1\<rparr>, n))"

text \<open>The first loop of \<^verbatim>\<open>Find\<close>, up to the root, and the second, which points the path at the root.\<close>

partial_function (option) find_root :: "'a entry list \<Rightarrow> nat \<Rightarrow> nat result option" where
  "find_root es root =
     (if root \<ge> length es then Some (Inl BadIterator)
      else if e_parent (es ! root) = root then Some (returns root)
      else find_root es (e_parent (es ! root)))"

partial_function (option) compress :: "'a entry list \<Rightarrow> nat \<Rightarrow> nat \<Rightarrow> ('a entry list \<times> nat) result option" where
  "compress es root i =
     (if i \<ge> length es then Some (Inl BadIterator)
      else if e_parent (es ! i) = i then Some (returns (es, i))
      else compress (es[i := (es ! i)\<lparr>e_parent := root\<rparr>]) root (e_parent (es ! i)))"

definition Find :: "'a union_find \<Rightarrow> nat \<Rightarrow> ('a union_find \<times> nat) result option" where
  "Find u i =
     do { r \<leftarrow> find_root (uf_entries u) i;
          (case r of
             Inl e \<Rightarrow> Some (Inl e)
           | Inr root \<Rightarrow>
               do { c \<leftarrow> compress (uf_entries u) root i;
                    Some (case c of Inl e \<Rightarrow> Inl e
                          | Inr (es, j) \<Rightarrow> returns (u\<lparr>uf_entries := es\<rparr>, j)) }) }"

text \<open>The part of \<^verbatim>\<open>Union\<close> after the two calls of \<^verbatim>\<open>Find\<close>.\<close>

definition link :: "('a \<Rightarrow> 'a \<Rightarrow> 'a) \<Rightarrow> 'a union_find \<Rightarrow> nat \<Rightarrow> nat \<Rightarrow> 'a union_find \<times> nat" where
  "link merge u idxA idxB =
     (let es = uf_entries u; entryA = es ! idxA; entryB = es ! idxB;
          a = the (e_element entryA); b = the (e_element entryB)
      in if idxA = idxB then (u, idxB)
         else if e_rank entryA < e_rank entryB then
           (\<lparr>uf_entries = es[idxA := entryA\<lparr>e_parent := idxB, e_element := None\<rparr>,
                idxB := entryB\<lparr>e_element := Some (merge b a)\<rparr>],
             uf_size = uf_size u - 1\<rparr>, idxB)
         else
           (\<lparr>uf_entries = es[idxB := entryB\<lparr>e_parent := idxA, e_element := None\<rparr>,
                idxA := entryA\<lparr>e_element := Some (merge a b),
                  e_rank := (if e_rank entryA = e_rank entryB then e_rank entryA + 1 else e_rank entryA)\<rparr>],
             uf_size = uf_size u - 1\<rparr>, idxA))"

definition UFUnion :: "('a \<Rightarrow> 'a \<Rightarrow> 'a) \<Rightarrow> 'a union_find \<Rightarrow> nat \<Rightarrow> nat \<Rightarrow> ('a union_find \<times> nat) result option" where
  "UFUnion merge u idA idB =
     do { ra \<leftarrow> Find u idA;
          (case ra of
             Inl e \<Rightarrow> Some (Inl e)
           | Inr (u1, idxA) \<Rightarrow>
               do { rb \<leftarrow> Find u1 idB;
                    Some (case rb of Inl e \<Rightarrow> Inl e
                          | Inr (u2, idxB) \<Rightarrow> returns (link merge u2 idxA idxB)) }) }"

definition Map :: "'a union_find \<Rightarrow> nat \<Rightarrow> ('a union_find \<times> 'a option) result option" where
  "Map u i =
     do { r \<leftarrow> Find u i;
          Some (case r of Inl e \<Rightarrow> Inl e
                | Inr (u', j) \<Rightarrow> returns (u', e_element (uf_entries u' ! j))) }"

definition Get :: "'a union_find \<Rightarrow> nat \<Rightarrow> 'a option result" where
  "Get u i = (if i < length (uf_entries u) then returns (e_element (uf_entries u ! i)) else Inl BadIterator)"

text \<open>The elements a loop over the structure visits: the iterator skips the entries without one.\<close>

definition elements :: "'a union_find \<Rightarrow> 'a list" where
  "elements u = List.map_filter e_element (uf_entries u)"

subsection \<open>Roots\<close>

definition rep :: "'a entry list \<Rightarrow> nat \<Rightarrow> nat" where
  "rep es i = (case find_root es i of Some (Inr r) \<Rightarrow> r | _ \<Rightarrow> i)"

text \<open>Parents are entries, and some measure grows towards the root.\<close>

definition forest :: "(nat \<Rightarrow> nat) \<Rightarrow> 'a entry list \<Rightarrow> bool" where
  "forest \<rho> es \<longleftrightarrow> (\<forall>i < length es. e_parent (es ! i) < length es \<and>
     (e_parent (es ! i) \<noteq> i \<longrightarrow> \<rho> i < \<rho> (e_parent (es ! i))))"

lemma forestD:
  assumes "forest \<rho> es" "i < length es"
  shows "e_parent (es ! i) < length es" and "e_parent (es ! i) \<noteq> i \<Longrightarrow> \<rho> i < \<rho> (e_parent (es ! i))"
  using assms by (auto simp: forest_def)

text \<open>Induction along the path to the root.\<close>

lemma forest_induct [consumes 2, case_names root child]:
  assumes "forest \<rho> es" "i < length es"
    and root: "\<And>i. i < length es \<Longrightarrow> e_parent (es ! i) = i \<Longrightarrow> P i"
    and child: "\<And>i. i < length es \<Longrightarrow> e_parent (es ! i) \<noteq> i \<Longrightarrow> P (e_parent (es ! i)) \<Longrightarrow> P i"
  shows "P i"
  using assms(2)
proof (induction "Max (\<rho> ` {..<length es}) - \<rho> i" arbitrary: i rule: less_induct)
  case less
  have bound: "\<rho> k \<le> Max (\<rho> ` {..<length es})" if "k < length es" for k using that by (intro Max_ge) auto
  show ?case
  proof (cases "e_parent (es ! i) = i")
    case False
    note p = forestD[OF assms(1) less.prems]
    then have "Max (\<rho> ` {..<length es}) - \<rho> (e_parent (es ! i)) < Max (\<rho> ` {..<length es}) - \<rho> i"
      using p(2)[OF False] bound[OF p(1)]
      by (intro diff_less_mono2) (assumption, rule less_le_trans)
    then show ?thesis using less.hyps child[OF less.prems False] p(1) by blast
  qed (use root less.prems in blast)
qed

lemma find_root_total:
  assumes "forest \<rho> es" "i < length es"
  shows "\<exists>r. find_root es i = Some (returns r) \<and> r < length es \<and> e_parent (es ! r) = r \<and> (i \<noteq> r \<longrightarrow> \<rho> i < \<rho> r)"
  using assms
proof (induction rule: forest_induct)
  case (root i)
  then show ?case by (subst find_root.simps) simp
next
  case (child i)
  have "find_root es i = find_root es (e_parent (es ! i))"
    using child(1,2) by (subst find_root.simps) simp
  moreover have "\<rho> i < \<rho> (e_parent (es ! i))"
    using forestD(2)[OF assms(1) child(1,2)] .
  moreover obtain r where r: "find_root es (e_parent (es ! i)) = Some (returns r)" "r < length es"
      "e_parent (es ! r) = r" "e_parent (es ! i) \<noteq> r \<Longrightarrow> \<rho> (e_parent (es ! i)) < \<rho> r"
    using child(3) by blast
  ultimately have "\<rho> i < \<rho> r" by (cases "e_parent (es ! i) = r") auto
  then show ?case using r \<open>find_root es i = find_root es (e_parent (es ! i))\<close> by simp
qed

lemma forest_find_root: "forest \<rho> es \<Longrightarrow> i < length es \<Longrightarrow> find_root es i = Some (returns (rep es i))"
  using find_root_total[of \<rho> es i] by (auto simp: rep_def)

lemma forest_rep_root:
  assumes "forest \<rho> es" "i < length es"
  shows "rep es i < length es \<and> e_parent (es ! rep es i) = rep es i \<and> (i \<noteq> rep es i \<longrightarrow> \<rho> i < \<rho> (rep es i))"
  using find_root_total[OF assms] forest_find_root[OF assms] by auto

lemma forest_rep_simps:
  assumes "forest \<rho> es" "i < length es"
  shows "e_parent (es ! i) = i \<Longrightarrow> rep es i = i" and "rep es (e_parent (es ! i)) = rep es i"
proof -
  show "rep es i = i" if "e_parent (es ! i) = i"
    using assms(2) that by (simp add: rep_def find_root.simps)
  show "rep es (e_parent (es ! i)) = rep es i"
  proof (cases "e_parent (es ! i) = i")
    case False
    then have "find_root es i = find_root es (e_parent (es ! i))"
      using assms(2) by (subst find_root.simps) simp
    then show ?thesis
      using forest_find_root[OF assms] forest_find_root[OF assms(1) forestD(1)[OF assms]] by simp
  qed simp
qed

text \<open>A map that fixes the roots and agrees on parents maps every entry to its root.\<close>

lemma forest_rep_unique:
  assumes "forest \<rho> es" "i < length es"
    and "\<And>i. i < length es \<Longrightarrow> e_parent (es ! i) = i \<Longrightarrow> f i = i"
    and "\<And>i. i < length es \<Longrightarrow> e_parent (es ! i) \<noteq> i \<Longrightarrow> f i = f (e_parent (es ! i))"
  shows "rep es i = f i"
  using assms(1,2)
proof (induction rule: forest_induct)
  case (root i)
  then show ?case using forest_rep_simps(1)[OF assms(1)] assms(3) by simp
next
  case (child i)
  then show ?case using forest_rep_simps(2)[OF assms(1), of i] assms(4) by simp
qed

text \<open>Union by rank: the ranks are such a measure.\<close>

definition ranks_ok :: "'a entry list \<Rightarrow> bool" where
  "ranks_ok es \<longleftrightarrow> forest (\<lambda>i. e_rank (es ! i)) es"

lemmas ranks_ok_unfold = ranks_ok_def[unfolded forest_def]
lemmas ranks_okD = forestD[where \<rho> = "\<lambda>i. e_rank (es ! i)" and es = es for es, folded ranks_ok_def]
lemmas root_induct = forest_induct[where \<rho> = "\<lambda>i. e_rank (es ! i)" and es = es for es, folded ranks_ok_def,
  consumes 2, case_names root child]
lemmas find_root_rep = forest_find_root[where \<rho> = "\<lambda>i. e_rank (es ! i)" and es = es for es, folded ranks_ok_def]
lemmas rep_root = forest_rep_root[where \<rho> = "\<lambda>i. e_rank (es ! i)" and es = es for es, folded ranks_ok_def]
lemmas rep_simps = forest_rep_simps[where \<rho> = "\<lambda>i. e_rank (es ! i)" and es = es for es, folded ranks_ok_def]
lemmas rep_unique = forest_rep_unique[where \<rho> = "\<lambda>i. e_rank (es ! i)" and es = es for es, folded ranks_ok_def]

subsection \<open>Finding\<close>

text \<open>Compression changes parents only, and none of a root.\<close>

definition same_roots :: "'a entry list \<Rightarrow> 'a entry list \<Rightarrow> bool" where
  "same_roots es es' \<longleftrightarrow> length es' = length es \<and>
     (\<forall>i < length es. e_rank (es' ! i) = e_rank (es ! i) \<and> e_element (es' ! i) = e_element (es ! i) \<and>
        (e_parent (es' ! i) = i \<longleftrightarrow> e_parent (es ! i) = i) \<and> rep es' i = rep es i)"

lemma same_roots_refl: "same_roots es es"
  by (simp add: same_roots_def)

lemma same_roots_trans: "same_roots es es' \<Longrightarrow> same_roots es' es'' \<Longrightarrow> same_roots es es''"
  by (simp add: same_roots_def)

lemma forest_point_at_root:
  assumes ok: "forest \<rho> es" and i: "i < length es" "e_parent (es ! i) \<noteq> i"
  defines "es' \<equiv> es[i := (es ! i)\<lparr>e_parent := rep es i\<rparr>]"
  shows "forest \<rho> es' \<and> same_roots es es'"
proof -
  note r = forest_rep_root[OF ok i(1)]
  have ne: "rep es i \<noteq> i" using r i(2) by auto
  have nth: "es' ! j = (if j = i then (es ! i)\<lparr>e_parent := rep es i\<rparr> else es ! j)" if "j < length es" for j
    using that by (simp add: es'_def)
  have len: "length es' = length es" by (simp add: es'_def)
  have ok': "forest \<rho> es'"
    unfolding forest_def len
  proof (intro allI impI)
    fix j assume j: "j < length es"
    show "e_parent (es' ! j) < length es \<and> (e_parent (es' ! j) \<noteq> j \<longrightarrow> \<rho> j < \<rho> (e_parent (es' ! j)))"
      using nth[OF j] j r ne forestD[OF ok j] by (cases "j = i") auto
  qed
  have "rep es' j = rep es j" if "j < length es" for j
  proof (rule forest_rep_unique[OF ok'])
    fix k assume k: "k < length es'"
    show "rep es k = k" if "e_parent (es' ! k) = k"
      using that nth[of k] k len ne forest_rep_simps(1)[OF ok, of k] by (cases "k = i") auto
    show "rep es k = rep es (e_parent (es' ! k))" if "e_parent (es' ! k) \<noteq> k"
      using that nth[of k] k len forest_rep_simps[OF ok] r by (cases "k = i") auto
  qed (use that len in simp)
  then show ?thesis using ok' nth ne i len by (auto simp: same_roots_def)
qed

lemma forest_compress:
  assumes "forest \<rho> es" "i < length es" "rep es i = root"
  shows "\<exists>es'. compress es root i = Some (returns (es', root)) \<and> forest \<rho> es' \<and> same_roots es es'"
  using assms
proof (induction "Max (\<rho> ` {..<length es}) - \<rho> i" arbitrary: es i rule: less_induct)
  case less
  show ?case
  proof (cases "e_parent (es ! i) = i")
    case True
    then have "root = i" using forest_rep_simps(1)[OF less.prems(1,2)] less.prems(3) by simp
    then show ?thesis
      using True less.prems by (subst compress.simps) (simp add: same_roots_refl)
  next
    case False
    let ?p = "e_parent (es ! i)"
    define es1 where "es1 = es[i := (es ! i)\<lparr>e_parent := root\<rparr>]"
    have s: "forest \<rho> es1" "same_roots es es1"
      using forest_point_at_root[OF less.prems(1,2) False] less.prems(3) by (simp_all add: es1_def)
    have p: "?p < length es" "\<rho> i < \<rho> ?p"
      using forestD[OF less.prems(1,2)] False by auto
    have len: "length es1 = length es" by (simp add: es1_def)
    have "\<rho> ?p \<le> Max (\<rho> ` {..<length es})" using p(1) by (intro Max_ge) auto
    then have m: "Max (\<rho> ` {..<length es1}) - \<rho> ?p < Max (\<rho> ` {..<length es}) - \<rho> i"
      unfolding len using p(2) by linarith
    have r: "rep es1 ?p = root"
      using s(2) p(1) forest_rep_simps(2)[OF less.prems(1,2)] less.prems(3) by (simp add: same_roots_def)
    obtain es' where "compress es1 root ?p = Some (returns (es', root))" "forest \<rho> es'" "same_roots es1 es'"
      using less.hyps[OF m s(1) _ r] p(1) len by auto
    moreover have "compress es root i = compress es1 root ?p"
      using False less.prems(2) by (subst compress.simps) (simp add: es1_def)
    ultimately show ?thesis using same_roots_trans[OF s(2)] by auto
  qed
qed

lemma forest_ranks:
  assumes "ranks_ok es" "forest (\<lambda>i. e_rank (es ! i)) es'" "same_roots es es'"
  shows "ranks_ok es'"
  using assms by (auto simp: ranks_ok_def forest_def same_roots_def)

lemma compress_spec:
  assumes "ranks_ok es" "i < length es" "rep es i = root"
  shows "\<exists>es'. compress es root i = Some (returns (es', root)) \<and> ranks_ok es' \<and> same_roots es es'"
  using forest_compress[OF assms(1)[unfolded ranks_ok_def] assms(2,3)] forest_ranks[OF assms(1)] by blast

subsection \<open>The invariant\<close>

definition class_of :: "'a entry list \<Rightarrow> nat \<Rightarrow> nat set" where
  "class_of es r = {i. i < length es \<and> rep es i = r}"

definition roots :: "'a entry list \<Rightarrow> nat set" where
  "roots es = {i. i < length es \<and> e_parent (es ! i) = i}"

text \<open>Only the parents matter, and a root may be put below another one.\<close>

lemma forest_parents:
  assumes ok: "forest \<rho> es" and p: "map e_parent es' = map e_parent es"
  shows "forest \<rho> es' \<and> roots es' = roots es \<and> (\<forall>j < length es. rep es' j = rep es j)"
proof -
  have len: "length es' = length es" using p by (rule map_eq_imp_length_eq)
  have par: "e_parent (es' ! i) = e_parent (es ! i)" if "i < length es" for i
    using that p len by (metis nth_map)
  have ok': "forest \<rho> es'" using ok par len by (simp add: forest_def)
  have "rep es' j = rep es j" if "j < length es" for j
    by (rule forest_rep_unique[OF ok']) (use that len par forest_rep_simps[OF ok] in simp_all)
  then show ?thesis using ok' par len by (auto simp: roots_def)
qed

lemma forest_link:
  assumes ok: "forest \<rho> es" and a: "a \<in> roots es" and b: "b \<in> roots es" and ne: "a \<noteq> b"
  defines "es' \<equiv> es[a := (es ! a)\<lparr>e_parent := b\<rparr>]"
  shows "(\<exists>\<rho>'. forest \<rho>' es') \<and> roots es' = roots es - {a} \<and>
    (\<forall>j < length es. rep es' j = (if rep es j = a then b else rep es j))"
proof -
  have ab: "a < length es" "b < length es" "e_parent (es ! a) = a" "e_parent (es ! b) = b"
    using a b by (simp_all add: roots_def)
  have nth: "es' ! j = (if j = a then (es ! a)\<lparr>e_parent := b\<rparr> else es ! j)" if "j < length es" for j
    using that by (simp add: es'_def)
  have len: "length es' = length es" by (simp add: es'_def)
  note simps = forest_rep_simps[OF ok]
  define \<rho>' where "\<rho>' i = (if rep es i = b then \<rho> i + \<rho> a + 1 else \<rho> i)" for i
  have ok': "forest \<rho>' es'"
    unfolding forest_def len
  proof (intro allI impI)
    fix j assume j: "j < length es"
    show "e_parent (es' ! j) < length es \<and> (e_parent (es' ! j) \<noteq> j \<longrightarrow> \<rho>' j < \<rho>' (e_parent (es' ! j)))"
    proof (cases "j = a")
      case True
      have "rep es b = b" "rep es a = a" using simps(1) ab by auto
      then show ?thesis using True nth[OF j] ab ne by (simp add: \<rho>'_def)
    next
      case False
      then show ?thesis using nth[OF j] forestD[OF ok j] simps(2)[OF j] by (auto simp: \<rho>'_def)
    qed
  qed
  have "rep es' j = (if rep es j = a then b else rep es j)" if "j < length es" for j
  proof (rule forest_rep_unique[OF ok'])
    fix i assume i: "i < length es'"
    then have il: "i < length es" using len by simp
    show "(if rep es i = a then b else rep es i) = i" if "e_parent (es' ! i) = i"
      using that nth[OF il] ne ab simps(1)[OF il] by (auto split: if_splits)
    show "(if rep es i = a then b else rep es i) =
        (if rep es (e_parent (es' ! i)) = a then b else rep es (e_parent (es' ! i)))"
      if "e_parent (es' ! i) \<noteq> i"
      using that nth[OF il] ne ab simps[OF il] simps(1)[OF ab(1)] simps(1)[OF ab(2)]
      by (auto split: if_splits)
  qed (use that len in simp)
  moreover have "roots es' = roots es - {a}"
    using nth ab ne len by (auto simp: roots_def split: if_splits)
  ultimately show ?thesis using ok' by blast
qed

definition uf_ok :: "'a union_find \<Rightarrow> bool" where
  "uf_ok u \<longleftrightarrow> ranks_ok (uf_entries u) \<and>
     (\<forall>i < length (uf_entries u). e_element (uf_entries u ! i) \<noteq> None \<longleftrightarrow> i \<in> roots (uf_entries u)) \<and>
     uf_size u = card (roots (uf_entries u)) \<and>
     (\<forall>r \<in> roots (uf_entries u). 2 ^ e_rank (uf_entries u ! r) \<le> card (class_of (uf_entries u) r))"

definition equiv_in :: "'a union_find \<Rightarrow> nat \<Rightarrow> nat \<Rightarrow> bool" where
  "equiv_in u i j \<longleftrightarrow> rep (uf_entries u) i = rep (uf_entries u) j"

lemma same_roots_roots: "same_roots es es' \<Longrightarrow> roots es' = roots es"
  by (auto simp: same_roots_def roots_def)

lemma same_roots_class: "same_roots es es' \<Longrightarrow> class_of es' r = class_of es r"
  by (auto simp: same_roots_def class_of_def)

lemma same_roots_ok:
  assumes "uf_ok u" "ranks_ok es" "same_roots (uf_entries u) es"
  shows "uf_ok (u\<lparr>uf_entries := es\<rparr>)"
proof -
  have "roots es \<subseteq> {..<length (uf_entries u)}" using assms(3) by (auto simp: roots_def same_roots_def)
  then show ?thesis
    using assms same_roots_roots[OF assms(3)] same_roots_class[OF assms(3)]
    by (auto simp: uf_ok_def same_roots_def subset_iff)
qed

lemma Find_spec:
  assumes "uf_ok u" "i < length (uf_entries u)"
  shows "\<exists>es. Find u i = Some (returns (u\<lparr>uf_entries := es\<rparr>, rep (uf_entries u) i)) \<and>
    uf_ok (u\<lparr>uf_entries := es\<rparr>) \<and> same_roots (uf_entries u) es"
proof -
  have ok: "ranks_ok (uf_entries u)" using assms(1) by (simp add: uf_ok_def)
  obtain es where es: "compress (uf_entries u) (rep (uf_entries u) i) i = Some (returns (es, rep (uf_entries u) i))"
      "ranks_ok es" "same_roots (uf_entries u) es"
    using compress_spec[OF ok assms(2) refl] by blast
  then show ?thesis
    using find_root_rep[OF ok assms(2)] same_roots_ok[OF assms(1) es(2,3)] by (auto simp: Find_def)
qed

text \<open>A path to the root is at most logarithmic in the number of entries.\<close>

definition parent_of :: "'a entry list \<Rightarrow> nat \<Rightarrow> nat" where
  "parent_of es i = e_parent (es ! i)"

lemma path_rank:
  assumes "ranks_ok es" "i < length es"
  shows "\<exists>k. k + e_rank (es ! i) \<le> e_rank (es ! rep es i) \<and> (parent_of es ^^ k) i = rep es i"
  using assms
proof (induction rule: root_induct)
  case (root i)
  then show ?case using rep_simps(1)[OF assms(1)] by (intro exI[of _ 0]) simp
next
  case (child i)
  then obtain k where "k + e_rank (es ! e_parent (es ! i)) \<le> e_rank (es ! rep es (e_parent (es ! i)))"
      "(parent_of es ^^ k) (e_parent (es ! i)) = rep es (e_parent (es ! i))" by blast
  then show ?case
    using child(1,2) ranks_okD(2)[OF assms(1) child(1,2)] rep_simps(2)[OF assms(1) child(1)]
    by (intro exI[of _ "Suc k"]) (simp add: parent_of_def[of es i] funpow_Suc_right del: funpow.simps(2))
qed

lemma rank_log:
  assumes "uf_ok u" "i < length (uf_entries u)"
  shows "2 ^ e_rank (uf_entries u ! rep (uf_entries u) i) \<le> length (uf_entries u)"
proof -
  have "rep (uf_entries u) i \<in> roots (uf_entries u)"
    using rep_root assms by (auto simp: uf_ok_def roots_def)
  then have "2 ^ e_rank (uf_entries u ! rep (uf_entries u) i) \<le> card (class_of (uf_entries u) (rep (uf_entries u) i))"
    using assms(1) by (simp add: uf_ok_def)
  also have "\<dots> \<le> card {..<length (uf_entries u)}"
    by (intro card_mono) (auto simp: class_of_def)
  finally show ?thesis by simp
qed

subsection \<open>Linking two roots\<close>

definition hang :: "'a entry list \<Rightarrow> nat \<Rightarrow> nat \<Rightarrow> 'a \<Rightarrow> nat \<Rightarrow> 'a entry list" where
  "hang es c d v k =
     es[c := (es ! c)\<lparr>e_parent := d, e_element := None\<rparr>, d := (es ! d)\<lparr>e_element := Some v, e_rank := k\<rparr>]"

lemma hang_nth:
  "c < length es \<Longrightarrow> d < length es \<Longrightarrow> c \<noteq> d \<Longrightarrow> j < length es \<Longrightarrow>
    hang es c d v k ! j = (if j = d then (es ! d)\<lparr>e_element := Some v, e_rank := k\<rparr>
      else if j = c then (es ! c)\<lparr>e_parent := d, e_element := None\<rparr> else es ! j)"
  by (auto simp: hang_def nth_list_update)

lemma hang_spec:
  fixes es :: "'a entry list" and v :: 'a
  assumes ok: "ranks_ok es" and c: "c \<in> roots es" and d: "d \<in> roots es" and ne: "c \<noteq> d"
    and k: "e_rank (es ! d) \<le> k" "e_rank (es ! c) < k"
  defines "es' \<equiv> hang es c d v k"
  shows "ranks_ok es' \<and> roots es' = roots es - {c} \<and>
    (\<forall>j < length es. rep es' j = (if rep es j = c then d else rep es j))"
proof -
  have cd: "c < length es" "d < length es" "e_parent (es ! c) = c" "e_parent (es ! d) = d"
    using c d by (simp_all add: roots_def)
  note nth = hang_nth[OF cd(1,2) ne, of _ v k, folded es'_def]
  have len: "length es' = length es" by (simp add: es'_def hang_def)
  have ok': "ranks_ok es'"
    unfolding ranks_ok_unfold len
  proof (intro allI impI)
    fix j assume j: "j < length es"
    have grow: "e_rank (es ! i) \<le> e_rank (es' ! i)" if "i < length es" for i
      using nth[OF that] k by auto
    show "e_parent (es' ! j) < length es \<and>
        (e_parent (es' ! j) \<noteq> j \<longrightarrow> e_rank (es' ! j) < e_rank (es' ! e_parent (es' ! j)))"
    proof (cases "j = c \<or> j = d")
      case True
      then show ?thesis using nth[OF cd(1)] nth[OF cd(2)] cd ne k by auto
    next
      case False
      then have "es' ! j = es ! j" using nth[OF j] by simp
      then show ?thesis using ranks_okD[OF ok j] grow[of "e_parent (es ! j)"] by fastforce
    qed
  qed
  have rts: "roots es' = roots es - {c}"
    using nth cd ne len by (auto simp: roots_def split: if_splits)
  have "rep es' j = (if rep es j = c then d else rep es j)" if "j < length es" for j
  proof (rule rep_unique[OF ok'])
    fix i assume i: "i < length es'"
    then have il: "i < length es" using len by simp
    show "(if rep es i = c then d else rep es i) = i" if "e_parent (es' ! i) = i"
      using that nth[OF il] ne cd rep_simps(1)[OF ok il] by (auto split: if_splits)
    show "(if rep es i = c then d else rep es i) =
        (if rep es (e_parent (es' ! i)) = c then d else rep es (e_parent (es' ! i)))"
      if "e_parent (es' ! i) \<noteq> i"
      using that nth[OF il] ne cd rep_simps[OF ok il] rep_simps(1)[OF ok cd(1)] rep_simps(1)[OF ok cd(2)]
      by (auto split: if_splits)
  qed (use that len in simp)
  then show ?thesis using ok' rts by blast
qed

lemma hang_ok:
  assumes ok: "uf_ok u" and c: "c \<in> roots (uf_entries u)" and d: "d \<in> roots (uf_entries u)" and ne: "c \<noteq> d"
    and k: "k = (if e_rank (uf_entries u ! c) = e_rank (uf_entries u ! d)
        then e_rank (uf_entries u ! d) + 1 else e_rank (uf_entries u ! d))"
      "e_rank (uf_entries u ! c) \<le> e_rank (uf_entries u ! d)"
  shows "uf_ok \<lparr>uf_entries = hang (uf_entries u) c d v k, uf_size = uf_size u - 1\<rparr>"
proof -
  let ?es = "uf_entries u" and ?es' = "hang (uf_entries u) c d v k"
  have ranks: "ranks_ok ?es" using ok by (simp add: uf_ok_def)
  have k': "e_rank (?es ! d) \<le> k" "e_rank (?es ! c) < k" using k by auto
  have h: "ranks_ok ?es'" "roots ?es' = roots ?es - {c}"
      "\<And>j. j < length ?es \<Longrightarrow> rep ?es' j = (if rep ?es j = c then d else rep ?es j)"
    using hang_spec[OF ranks c d ne k'] by auto
  have cd: "c < length ?es" "d < length ?es" using c d by (simp_all add: roots_def)
  have len: "length ?es' = length ?es" by (simp add: hang_def)
  note nth = hang_nth[OF cd ne, of _ v k]
  have fin: "finite (roots ?es)" by (rule finite_subset[of _ "{..<length ?es}"]) (auto simp: roots_def)
  have class_d: "class_of ?es' d = class_of ?es c \<union> class_of ?es d"
    using h(3) len ne by (auto simp: class_of_def split: if_splits)
  have class_other: "class_of ?es' r = class_of ?es r" if "r \<noteq> c" "r \<noteq> d" for r
    using h(3) len that by (auto simp: class_of_def split: if_splits)
  have size: "2 ^ e_rank (?es ! r) \<le> card (class_of ?es r)" if "r \<in> roots ?es" for r
    using ok that by (simp add: uf_ok_def)
  have dcard: "2 ^ k \<le> card (class_of ?es' d)"
  proof -
    have "finite (class_of ?es r)" for r by (simp add: class_of_def)
    moreover have "class_of ?es c \<inter> class_of ?es d = {}" using ne by (auto simp: class_of_def)
    ultimately have "card (class_of ?es' d) = card (class_of ?es c) + card (class_of ?es d)"
      by (simp add: class_d card_Un_disjoint)
    then show ?thesis using size[OF c] size[OF d] k by auto
  qed
  have "2 ^ e_rank (?es' ! r) \<le> card (class_of ?es' r)" if "r \<in> roots ?es'" for r
  proof (cases "r = d")
    case True
    then show ?thesis using dcard nth[OF cd(2)] by simp
  next
    case False
    then have "r \<noteq> c" "r \<in> roots ?es" using that h(2) by auto
    moreover from this have "r < length ?es" by (simp add: roots_def)
    ultimately show ?thesis using size nth[of r] class_other[of r] False by simp
  qed
  moreover have "e_element (?es' ! i) \<noteq> None \<longleftrightarrow> i \<in> roots ?es'" if "i < length ?es" for i
    using nth[OF that] h(2) ok that ne d by (auto simp: uf_ok_def)
  moreover have "uf_size u - 1 = card (roots ?es')" using ok h(2) c fin by (simp add: uf_ok_def)
  ultimately show ?thesis using h(1) len by (simp add: uf_ok_def)
qed

text \<open>What the two classes hold together, whichever root is kept.\<close>

lemma link_spec:
  assumes ok: "uf_ok u" and a: "a \<in> roots (uf_entries u)" and b: "b \<in> roots (uf_entries u)"
    and l: "link merge u a b = (u', r)"
  shows "uf_ok u' \<and> r \<in> {a, b} \<and> length (uf_entries u') = length (uf_entries u) \<and>
    (\<forall>j < length (uf_entries u). rep (uf_entries u') j =
       (if rep (uf_entries u) j \<in> {a, b} then r else rep (uf_entries u) j)) \<and>
    (\<forall>j \<in> roots (uf_entries u) - {a, b}. e_element (uf_entries u' ! j) = e_element (uf_entries u ! j)) \<and>
    uf_size u' = (if a = b then uf_size u else uf_size u - 1) \<and>
    (a = b \<longrightarrow> u' = u) \<and>
    (a \<noteq> b \<longrightarrow> e_element (uf_entries u' ! r) = Some (
       if r = b then merge (the (e_element (uf_entries u ! b))) (the (e_element (uf_entries u ! a)))
       else merge (the (e_element (uf_entries u ! a))) (the (e_element (uf_entries u ! b)))))"
proof -
  let ?es = "uf_entries u"
  have ranks: "ranks_ok ?es" using ok by (simp add: uf_ok_def)
  have ab: "a < length ?es" "b < length ?es" using a b by (simp_all add: roots_def)
  consider "a = b" | "a \<noteq> b" "e_rank (?es ! a) < e_rank (?es ! b)"
    | "a \<noteq> b" "\<not> e_rank (?es ! a) < e_rank (?es ! b)" by blast
  then show ?thesis
  proof cases
    case 1
    then show ?thesis using l ok by (auto simp: link_def Let_def)
  next
    case 2
    define v where "v = merge (the (e_element (?es ! b))) (the (e_element (?es ! a)))"
    have u': "u' = \<lparr>uf_entries = hang ?es a b v (e_rank (?es ! b)), uf_size = uf_size u - 1\<rparr>" "r = b"
      using l 2 by (auto simp: link_def Let_def hang_def v_def)
    note h = hang_spec[OF ranks a b 2(1), of "e_rank (?es ! b)" v]
    have "uf_ok u'" unfolding u' by (rule hang_ok[OF ok a b 2(1)]) (use 2 in auto)
    then show ?thesis
      using h 2 u' hang_nth[OF ab 2(1), of _ v] ab by (auto simp: v_def roots_def hang_def)
  next
    case 3
    define v where "v = merge (the (e_element (?es ! a))) (the (e_element (?es ! b)))"
    define k where "k = (if e_rank (?es ! a) = e_rank (?es ! b) then e_rank (?es ! a) + 1 else e_rank (?es ! a))"
    have ne: "b \<noteq> a" using 3 by simp
    have u': "u' = \<lparr>uf_entries = hang ?es b a v k, uf_size = uf_size u - 1\<rparr>" "r = a"
      using l 3 by (auto simp: link_def Let_def hang_def v_def k_def)
    have "e_rank (?es ! a) \<le> k" "e_rank (?es ! b) < k" using 3 by (auto simp: k_def)
    note h = hang_spec[OF ranks b a ne this, of v]
    have "uf_ok u'" unfolding u' by (rule hang_ok[OF ok b a ne]) (use 3 in \<open>auto simp: k_def\<close>)
    then show ?thesis
      using h 3 u' hang_nth[OF ab(2,1) ne, of _ v k] ab by (auto simp: v_def roots_def hang_def)
  qed
qed

text \<open>The element that stands for the class of an entry.\<close>

definition class_element :: "'a union_find \<Rightarrow> nat \<Rightarrow> 'a" where
  "class_element u i = the (e_element (uf_entries u ! rep (uf_entries u) i))"

lemma equiv_in_trans: "equiv_in u i j \<Longrightarrow> equiv_in u j k \<Longrightarrow> equiv_in u i k"
  by (simp add: equiv_in_def)

lemma equiv_in_sym: "equiv_in u i j \<Longrightarrow> equiv_in u j i"
  by (simp add: equiv_in_def)

lemma same_roots_facts:
  assumes "same_roots (uf_entries u) es" "ranks_ok (uf_entries u)" "k < length (uf_entries u)"
  shows "rep es k = rep (uf_entries u) k"
    and "class_element (u\<lparr>uf_entries := es\<rparr>) k = class_element u k"
  using assms rep_root[OF assms(2,3)] by (simp_all add: same_roots_def class_element_def)

lemma merged_classes:
  "r \<in> {a, b} \<Longrightarrow> (if x \<in> {a, b} then r else x) = (if y \<in> {a, b} then r else y) \<longleftrightarrow>
     x = y \<or> x = a \<and> b = y \<or> x = b \<and> a = y"
  by auto

lemma UFUnion_spec:
  assumes ok: "uf_ok u" and i: "i < length (uf_entries u)" and j: "j < length (uf_entries u)"
  shows "\<exists>u' r. UFUnion merge u i j = Some (returns (u', r)) \<and> uf_ok u' \<and>
    length (uf_entries u') = length (uf_entries u) \<and>
    (\<forall>k < length (uf_entries u). \<forall>l < length (uf_entries u). equiv_in u' k l \<longleftrightarrow>
       equiv_in u k l \<or> equiv_in u k i \<and> equiv_in u j l \<or> equiv_in u k j \<and> equiv_in u i l) \<and>
    (\<forall>k < length (uf_entries u). \<forall>content. (\<forall>x y. content (merge x y) = content x \<union> content y) \<longrightarrow>
       (content (class_element u' k) :: 'c set) =
         (if equiv_in u k i \<or> equiv_in u k j then content (class_element u i) \<union> content (class_element u j)
          else content (class_element u k))) \<and>
    uf_size u' = (if equiv_in u i j then uf_size u else uf_size u - 1) \<and>
    r = rep (uf_entries u') i"
proof -
  let ?es = "uf_entries u" and ?n = "length (uf_entries u)"
  have ranks: "ranks_ok ?es" using ok by (simp add: uf_ok_def)
  obtain es1 where f1: "Find u i = Some (returns (u\<lparr>uf_entries := es1\<rparr>, rep ?es i))"
      "uf_ok (u\<lparr>uf_entries := es1\<rparr>)" "same_roots ?es es1"
    using Find_spec[OF ok i] by blast
  have len1: "length es1 = ?n" using f1(3) by (simp add: same_roots_def)
  then have j1: "j < length (uf_entries (u\<lparr>uf_entries := es1\<rparr>))" using j by simp
  obtain es2 where f2: "Find (u\<lparr>uf_entries := es1\<rparr>) j = Some (returns (u\<lparr>uf_entries := es2\<rparr>, rep es1 j))"
      "uf_ok (u\<lparr>uf_entries := es2\<rparr>)" "same_roots es1 es2"
    using Find_spec[OF f1(2) j1] by auto
  have sr: "same_roots ?es es2" using same_roots_trans[OF f1(3) f2(3)] .
  have len: "length es2 = ?n" using sr by (simp add: same_roots_def)
  define a b where "a = rep ?es i" and "b = rep ?es j"
  have rj: "rep es1 j = b" using f1(3) j by (simp add: same_roots_def b_def)
  have abr: "a \<in> roots es2" "b \<in> roots es2"
    unfolding same_roots_roots[OF sr] using rep_root[OF ranks i] rep_root[OF ranks j]
    by (simp_all add: roots_def a_def b_def)
  obtain u' r where l: "link merge (u\<lparr>uf_entries := es2\<rparr>) a b = (u', r)" by fastforce
  note ls = link_spec[OF f2(2) _ _ l, simplified, OF abr]
  have rep2: "rep es2 k = rep ?es k" if "k < ?n" for k using sr that by (simp add: same_roots_def)
  have rep': "rep (uf_entries u') k = (if rep ?es k \<in> {a, b} then r else rep ?es k)" if "k < ?n" for k
    using ls rep2[OF that] len that by simp
  have el2: "e_element (es2 ! rep ?es k) = e_element (?es ! rep ?es k)" if "k < ?n" for k
    using sr rep_root[OF ranks that] by (simp add: same_roots_def)
  have un: "UFUnion merge u i j = Some (returns (u', r))"
    using f1(1) f2(1) l rj by (simp add: UFUnion_def a_def)
  have eq: "equiv_in u' k l \<longleftrightarrow>
      equiv_in u k l \<or> equiv_in u k i \<and> equiv_in u j l \<or> equiv_in u k j \<and> equiv_in u i l"
    if "k < ?n" "l < ?n" for k l
  proof -
    have r: "r \<in> {a, b}" using ls(1) by simp
    show ?thesis
      unfolding equiv_in_def rep'[OF that(1)] rep'[OF that(2)] a_def[symmetric] b_def[symmetric]
      by (rule merged_classes[OF r])
  qed
  have cont: "content (class_element u' k) =
      (if equiv_in u k i \<or> equiv_in u k j then content (class_element u i) \<union> content (class_element u j)
       else content (class_element u k))"
    if k: "k < ?n" and content: "\<forall>x y. content (merge x y) = content x \<union> content y" for k and content :: "'a \<Rightarrow> 'c set"
  proof (cases "rep ?es k \<in> {a, b}")
    case True
    have "content (the (e_element (uf_entries u' ! r))) = content (the (e_element (?es ! a))) \<union> content (the (e_element (?es ! b)))"
      using ls content el2[OF i] el2[OF j] by (cases "a = b") (auto simp: a_def b_def)
    then show ?thesis using True rep'[OF k] by (auto simp: class_element_def equiv_in_def a_def b_def)
  next
    case False
    then have "rep ?es k \<in> roots es2 - {a, b}"
      unfolding same_roots_roots[OF sr] using rep_root[OF ranks k] by (simp add: roots_def)
    then have "e_element (uf_entries u' ! rep ?es k) = e_element (?es ! rep ?es k)"
      using ls el2[OF k] by (metis Diff_iff)
    then show ?thesis using False rep'[OF k] by (auto simp: class_element_def equiv_in_def a_def b_def)
  qed
  have sz: "uf_size u' = (if equiv_in u i j then uf_size u else uf_size u - 1)"
    using ls by (simp add: equiv_in_def a_def b_def)
  have rt: "r = rep (uf_entries u') i" using rep'[OF i] by (simp add: a_def)
  have lens: "uf_ok u' \<and> length (uf_entries u') = ?n" using ls len by simp
  show ?thesis
    by (intro exI[of _ u'] exI[of _ r] conjI allI impI)
      (rule un lens[THEN conjunct1] lens[THEN conjunct2] eq cont sz rt; assumption?)+
qed

text \<open>A new entry is a class of its own.\<close>

lemma Emplace_spec:
  assumes ok: "uf_ok u" and e: "Emplace u mk = (u', n)"
  shows "uf_ok u' \<and> n = length (uf_entries u) \<and> length (uf_entries u') = Suc n \<and>
    (\<forall>k < n. rep (uf_entries u') k = rep (uf_entries u) k) \<and> rep (uf_entries u') n = n \<and>
    class_element u' n = mk n \<and> uf_size u' = uf_size u + 1"
proof -
  let ?es = "uf_entries u"
  have u': "uf_entries u' = ?es @ [\<lparr>e_parent = n, e_rank = 0, e_element = Some (mk n)\<rparr>]"
      "uf_size u' = uf_size u + 1" "n = length ?es"
    using e by (auto simp: Emplace_def Let_def)
  have ranks: "ranks_ok ?es" using ok by (simp add: uf_ok_def)
  have ranks': "ranks_ok (uf_entries u')"
    using ranks u' by (auto simp: ranks_ok_unfold nth_append less_Suc_eq)
  have nth: "uf_entries u' ! k = (if k < n then ?es ! k else \<lparr>e_parent = n, e_rank = 0, e_element = Some (mk n)\<rparr>)"
    if "k < Suc n" for k
    using that u' by (auto simp: nth_append less_Suc_eq)
  have len': "length (uf_entries u') = Suc n" using u' by simp
  have old: "rep (uf_entries u') k = (if k < n then rep ?es k else k)" if "k < Suc n" for k
  proof (rule rep_unique[OF ranks'])
    fix i assume i: "i < length (uf_entries u')"
    show "(if i < n then rep ?es i else i) = i" if "e_parent (uf_entries u' ! i) = i"
      using that i nth[of i] len' rep_simps(1)[OF ranks, of i] u'(3) by auto
    show "(if i < n then rep ?es i else i) = (if e_parent (uf_entries u' ! i) < n
        then rep ?es (e_parent (uf_entries u' ! i)) else e_parent (uf_entries u' ! i))"
      if "e_parent (uf_entries u' ! i) \<noteq> i"
    proof (cases "i < n")
      case True
      then show ?thesis
        using nth[of i] rep_simps(2)[OF ranks, of i] ranks_okD(1)[OF ranks, of i] u'(3) by simp
    next
      case False
      then have "i = n" using i len' by simp
      then show ?thesis using that nth[of n] by simp
    qed
  qed (use that len' in simp)
  have rts: "roots (uf_entries u') = insert n (roots ?es)"
    using u' by (auto simp: roots_def nth_append less_Suc_eq)
  have cls: "class_of (uf_entries u') r = class_of ?es r" if "r \<in> roots ?es" for r
    using old that u' rep_root[OF ranks] by (fastforce simp: class_of_def roots_def less_Suc_eq)
  have cn: "class_of (uf_entries u') n = {n}"
  proof -
    have "rep (uf_entries u') k \<noteq> n" if "k < n" for k
      using old[of k] rep_root[OF ranks, of k] that u'(3) by auto
    then show ?thesis using old[of n] len' by (auto simp: class_of_def less_Suc_eq)
  qed
  have fin: "finite (roots ?es)" by (rule finite_subset[of _ "{..<length ?es}"]) (auto simp: roots_def)
  have "2 ^ e_rank (uf_entries u' ! r) \<le> card (class_of (uf_entries u') r)" if "r \<in> roots (uf_entries u')" for r
  proof (cases "r = n")
    case True
    then show ?thesis using cn u' by (simp add: nth_append)
  next
    case False
    then have "r \<in> roots ?es" "r < length ?es" using that rts by (auto simp: roots_def)
    then show ?thesis using cls ok u' by (simp add: nth_append uf_ok_def)
  qed
  moreover have "e_element (uf_entries u' ! i) \<noteq> None \<longleftrightarrow> i \<in> roots (uf_entries u')" if "i < Suc n" for i
    using nth[OF that] that rts ok u'(3) by (cases "i = n") (auto simp: uf_ok_def)
  moreover have "uf_size u' = card (roots (uf_entries u'))"
    using u'(2,3) rts fin ok by (simp add: uf_ok_def roots_def)
  ultimately have "uf_ok u'" using ranks' len' by (simp add: uf_ok_def)
  then show ?thesis using old u' nth[of n] len' by (simp add: class_element_def)
qed

subsection \<open>The interface of a structure of disjoint sets\<close>

text \<open>
  Uniting the pairs of a list one by one, as the clients of the structure do, for any structure that
  unites two members.
\<close>

fun unite_all :: "('s \<Rightarrow> nat \<Rightarrow> nat \<Rightarrow> 's result option) \<Rightarrow> 's \<Rightarrow> (nat \<times> nat) list \<Rightarrow> 's result option" where
  "unite_all unite s [] = Some (returns s)"
| "unite_all unite s ((i, j) # ps) =
     (case unite s i j of
        Some (Inr s') \<Rightarrow> unite_all unite s' ps
      | Some (Inl e) \<Rightarrow> Some (Inl e)
      | None \<Rightarrow> None)"

definition related :: "nat set \<Rightarrow> (nat \<Rightarrow> nat \<Rightarrow> bool) \<Rightarrow> (nat \<times> nat) set" where
  "related A eqv = {(k, l). k \<in> A \<and> l \<in> A \<and> eqv k l}"

locale disjoint_sets =
  fixes valid :: "'s \<Rightarrow> bool" and members :: "'s \<Rightarrow> nat set" and eqv :: "'s \<Rightarrow> nat \<Rightarrow> nat \<Rightarrow> bool"
    and unite :: "'s \<Rightarrow> nat \<Rightarrow> nat \<Rightarrow> 's result option"
  assumes eqv_refl: "eqv s k k"
    and eqv_sym: "eqv s k l \<Longrightarrow> eqv s l k"
    and eqv_trans: "eqv s k l \<Longrightarrow> eqv s l m \<Longrightarrow> eqv s k m"
    and unite_returns: "valid s \<Longrightarrow> i \<in> members s \<Longrightarrow> j \<in> members s \<Longrightarrow>
      \<exists>s'. unite s i j = Some (returns s') \<and> valid s' \<and> members s' = members s \<and>
        (\<forall>k \<in> members s. \<forall>l \<in> members s. eqv s' k l \<longleftrightarrow>
           eqv s k l \<or> eqv s k i \<and> eqv s j l \<or> eqv s k j \<and> eqv s i l)"
begin

lemma related_closed: "(k, l) \<in> (related (members s) (eqv s))\<^sup>* \<Longrightarrow> k \<in> members s \<Longrightarrow> l \<in> members s \<and> eqv s k l"
  by (induction rule: rtrancl_induct) (auto simp: related_def intro: eqv_refl eqv_trans)

lemma related_rtrancl:
  assumes "k \<in> members s" "l \<in> members s"
  shows "(k, l) \<in> (related (members s) (eqv s))\<^sup>* \<longleftrightarrow> eqv s k l"
  using related_closed[of k l s] assms by (auto simp: related_def)

lemma related_unite:
  assumes m: "members s' = members s" "i \<in> members s" "j \<in> members s"
    and e: "\<And>k l. k \<in> members s \<Longrightarrow> l \<in> members s \<Longrightarrow> eqv s' k l \<longleftrightarrow>
      eqv s k l \<or> eqv s k i \<and> eqv s j l \<or> eqv s k j \<and> eqv s i l"
  shows "(related (members s') (eqv s') \<union> R)\<^sup>* = (related (members s) (eqv s) \<union> {(i, j), (j, i)} \<union> R)\<^sup>*"
    (is "(?E' \<union> R)\<^sup>* = ?S\<^sup>*")
proof (intro equalityI rtrancl_subset_rtrancl)
  have step: "(k, l) \<in> ?S\<^sup>*" if "k \<in> members s" "l \<in> members s" "eqv s k l" for k l
    using that by (intro r_into_rtrancl) (simp add: related_def)
  have ij: "(i, j) \<in> ?S\<^sup>*" "(j, i) \<in> ?S\<^sup>*" by auto
  have "(k, l) \<in> ?S\<^sup>*" if kl: "k \<in> members s" "l \<in> members s" "eqv s' k l" for k l
    using e[OF kl(1,2)] kl step m(2,3) ij by (meson rtrancl_trans)
  moreover have "R \<subseteq> ?S\<^sup>*" by auto
  ultimately show "?E' \<union> R \<subseteq> ?S\<^sup>*" using m(1) by (auto simp: related_def)
next
  show "?S \<subseteq> (?E' \<union> R)\<^sup>*"
    using m e eqv_refl[of s] by (auto simp: related_def intro!: r_into_rtrancl)
qed

text \<open>Uniting the pairs gives the least equivalence that extends the old one and holds of each pair.\<close>

lemma unite_all_closure:
  assumes "valid s" "set ps \<subseteq> members s \<times> members s"
  shows "\<exists>s'. unite_all unite s ps = Some (returns s') \<and> valid s' \<and> members s' = members s \<and>
    (\<forall>k \<in> members s. \<forall>l \<in> members s.
       eqv s' k l \<longleftrightarrow> (k, l) \<in> (related (members s) (eqv s) \<union> set ps \<union> (set ps)\<inverse>)\<^sup>*)"
  using assms
proof (induction ps arbitrary: s)
  case Nil
  then show ?case using related_rtrancl by auto
next
  case (Cons p ps)
  obtain i j where p: "p = (i, j)" by fastforce
  then have ij: "i \<in> members s" "j \<in> members s" using Cons.prems by auto
  obtain s1 where s1: "unite s i j = Some (returns s1)" "valid s1" "members s1 = members s"
      "\<And>k l. k \<in> members s \<Longrightarrow> l \<in> members s \<Longrightarrow> eqv s1 k l \<longleftrightarrow>
        eqv s k l \<or> eqv s k i \<and> eqv s j l \<or> eqv s k j \<and> eqv s i l"
    using unite_returns[OF Cons.prems(1) ij] by blast
  have "set ps \<subseteq> members s1 \<times> members s1" using Cons.prems(2) s1(3) by simp
  from Cons.IH[OF s1(2) this] obtain s' where
    s': "unite_all unite s1 ps = Some (returns s')" "valid s'" "members s' = members s1"
      "\<And>k l. k \<in> members s \<Longrightarrow> l \<in> members s \<Longrightarrow> eqv s' k l \<longleftrightarrow>
        (k, l) \<in> (related (members s1) (eqv s1) \<union> set ps \<union> (set ps)\<inverse>)\<^sup>*"
    using s1(3) by auto
  have "related (members s) (eqv s) \<union> {(i, j), (j, i)} \<union> (set ps \<union> (set ps)\<inverse>) =
      related (members s) (eqv s) \<union> set (p # ps) \<union> (set (p # ps))\<inverse>"
    using p by auto
  then have "(related (members s1) (eqv s1) \<union> set ps \<union> (set ps)\<inverse>)\<^sup>* =
      (related (members s) (eqv s) \<union> set (p # ps) \<union> (set (p # ps))\<inverse>)\<^sup>*"
    using related_unite[OF s1(3) ij s1(4), of "set ps \<union> (set ps)\<inverse>"] by (simp add: Un_assoc)
  then show ?case using s' s1(1,3) p by (intro exI[of _ s']) simp
qed

end

definition unite_ids :: "('a \<Rightarrow> 'a \<Rightarrow> 'a) \<Rightarrow> 'a union_find \<Rightarrow> nat \<Rightarrow> nat \<Rightarrow> 'a union_find result option" where
  "unite_ids merge u i j = map_option (map_sum id fst) (UFUnion merge u i j)"

interpretation uf: disjoint_sets uf_ok "\<lambda>u. {..<length (uf_entries u)}" equiv_in "unite_ids merge"
  for merge :: "'a \<Rightarrow> 'a \<Rightarrow> 'a"
proof unfold_locales
  fix u :: "'a union_find" and i j
  assume ok: "uf_ok u" and ij: "i \<in> {..<length (uf_entries u)}" "j \<in> {..<length (uf_entries u)}"
  obtain u' r where "UFUnion merge u i j = Some (returns (u', r))" "uf_ok u'"
      "length (uf_entries u') = length (uf_entries u)"
      "\<And>k l. k < length (uf_entries u) \<Longrightarrow> l < length (uf_entries u) \<Longrightarrow> equiv_in u' k l \<longleftrightarrow>
       equiv_in u k l \<or> equiv_in u k i \<and> equiv_in u j l \<or> equiv_in u k j \<and> equiv_in u i l"
    using UFUnion_spec[OF ok, of i j merge] ij by auto
  then show "\<exists>s'. unite_ids merge u i j = Some (returns s') \<and> uf_ok s' \<and>
      {..<length (uf_entries s')} = {..<length (uf_entries u)} \<and>
      (\<forall>k \<in> {..<length (uf_entries u)}. \<forall>l \<in> {..<length (uf_entries u)}. equiv_in s' k l \<longleftrightarrow>
         equiv_in u k l \<or> equiv_in u k i \<and> equiv_in u j l \<or> equiv_in u k j \<and> equiv_in u i l)"
    by (intro exI[of _ u']) (simp add: unite_ids_def)
qed (auto simp: equiv_in_def)

subsection \<open>Properties\<close>

text \<open>The structure of three entries used by the witnesses, and the union of their elements.\<close>

definition three_sets :: "nat set union_find" where
  "three_sets = fst (Emplace (fst (Emplace (fst (Emplace uf_empty (\<lambda>n. {n}))) (\<lambda>n. {n}))) (\<lambda>n. {n}))"

lemma uf_empty_ok: "uf_ok uf_empty"
  by (simp add: uf_ok_def uf_empty_def ranks_ok_unfold roots_def)

lemma three_sets_ok: "uf_ok three_sets" "length (uf_entries three_sets) = 3"
proof -
  have e: "uf_ok (fst (Emplace u (\<lambda>n. {n}))) \<and>
      length (uf_entries (fst (Emplace u (\<lambda>n. {n})))) = Suc (length (uf_entries u))"
    if "uf_ok u" for u :: "nat set union_find"
    using Emplace_spec[OF that, of "\<lambda>n. {n}"] by (metis prod.collapse)
  have "length (uf_entries (uf_empty :: nat set union_find)) = 0" by (simp add: uf_empty_def)
  then show "uf_ok three_sets" "length (uf_entries three_sets) = 3"
    using e[OF uf_empty_ok] e[OF conjunct1[OF e[OF uf_empty_ok]]]
      e[OF conjunct1[OF e[OF conjunct1[OF e[OF uf_empty_ok]]]]] unfolding three_sets_def by simp_all
qed

text \<open>
  on a well-formed structure \<^verbatim>\<open>Find\<close> ends and returns the root of the class, and the path
  compression it does keeps the invariant, the classes, the ranks and the elements.
\<close>

theorem Find_returns_root:
  assumes "uf_ok u" "i < length (uf_entries u)"
  shows "\<exists>es. Find u i = Some (returns (u\<lparr>uf_entries := es\<rparr>, rep (uf_entries u) i)) \<and>
    uf_ok (u\<lparr>uf_entries := es\<rparr>) \<and> same_roots (uf_entries u) es \<and> rep (uf_entries u) i \<in> roots (uf_entries u)"
proof -
  have "rep (uf_entries u) i \<in> roots (uf_entries u)"
    using rep_root[OF _ assms(2)] assms(1) by (simp add: uf_ok_def roots_def)
  then show ?thesis using Find_spec[OF assms] by blast
qed

theorem Find_returns_root_witness:
  "\<exists>es. Find three_sets 2 = Some (returns (three_sets\<lparr>uf_entries := es\<rparr>, rep (uf_entries three_sets) 2)) \<and>
    uf_ok (three_sets\<lparr>uf_entries := es\<rparr>) \<and> same_roots (uf_entries three_sets) es \<and>
    rep (uf_entries three_sets) 2 \<in> roots (uf_entries three_sets)"
  using Find_returns_root[OF three_sets_ok(1), of 2] three_sets_ok(2) by simp

text \<open>
  C22: the loop that looks for the root follows \<open>k\<close> parents with \<open>2 ^ k\<close> at most the number of entries:
  union by rank keeps every path logarithmic.
\<close>

theorem find_root_logarithmic:
  assumes "uf_ok u" "i < length (uf_entries u)"
  shows "\<exists>k. 2 ^ k \<le> length (uf_entries u) \<and>
    find_root (uf_entries u) i = Some (returns ((parent_of (uf_entries u) ^^ k) i))"
proof -
  have ok: "ranks_ok (uf_entries u)" using assms(1) by (simp add: uf_ok_def)
  obtain k where k: "k \<le> e_rank (uf_entries u ! rep (uf_entries u) i)"
      "(parent_of (uf_entries u) ^^ k) i = rep (uf_entries u) i"
    using path_rank[OF ok assms(2)] add_leD1 by blast
  have "(2::nat) ^ k \<le> 2 ^ e_rank (uf_entries u ! rep (uf_entries u) i)"
    using k(1) by (intro power_increasing) auto
  then have "2 ^ k \<le> length (uf_entries u)" using rank_log[OF assms] by (rule order.trans)
  then show ?thesis using k(2) find_root_rep[OF ok assms(2)] by (intro exI[of _ k]) simp
qed

theorem find_root_logarithmic_witness:
  "\<exists>k. 2 ^ k \<le> length (uf_entries three_sets) \<and>
    find_root (uf_entries three_sets) 1 = Some (returns ((parent_of (uf_entries three_sets) ^^ k) 1))"
  using find_root_logarithmic[OF three_sets_ok(1), of 1] three_sets_ok(2) by simp

text \<open>
  C9: \<^verbatim>\<open>Union\<close> on a well-formed structure returns the root of the merged class; exactly the two
  classes are merged, the size counts the classes, and the element of the merged class holds what the
  two elements held, for any reading of the elements that their merge joins.
\<close>

theorem UFUnion_merges:
  assumes "uf_ok u" "i < length (uf_entries u)" "j < length (uf_entries u)"
  shows "\<exists>u' r. UFUnion merge u i j = Some (returns (u', r)) \<and> uf_ok u' \<and>
    length (uf_entries u') = length (uf_entries u) \<and>
    (\<forall>k < length (uf_entries u). \<forall>l < length (uf_entries u). equiv_in u' k l \<longleftrightarrow>
       equiv_in u k l \<or> equiv_in u k i \<and> equiv_in u j l \<or> equiv_in u k j \<and> equiv_in u i l) \<and>
    (\<forall>k < length (uf_entries u). \<forall>content. (\<forall>x y. content (merge x y) = content x \<union> content y) \<longrightarrow>
       (content (class_element u' k) :: 'c set) =
         (if equiv_in u k i \<or> equiv_in u k j then content (class_element u i) \<union> content (class_element u j)
          else content (class_element u k))) \<and>
    uf_size u' = (if equiv_in u i j then uf_size u else uf_size u - 1) \<and>
    r = rep (uf_entries u') i"
  by (rule UFUnion_spec[OF assms])

theorem UFUnion_merges_witness:
  "\<exists>u' r. UFUnion (\<union>) three_sets 0 2 = Some (returns (u', r)) \<and> uf_ok u' \<and> equiv_in u' 0 2 \<and>
    uf_size u' = (if equiv_in three_sets 0 2 then uf_size three_sets else uf_size three_sets - 1) \<and>
    class_element u' 2 = class_element three_sets 0 \<union> class_element three_sets 2"
proof -
  have "0 < length (uf_entries three_sets)" "2 < length (uf_entries three_sets)"
    using three_sets_ok(2) by simp_all
  from UFUnion_merges[OF three_sets_ok(1) this, of "(\<union>)"] obtain u' r where
    u: "UFUnion (\<union>) three_sets 0 2 = Some (returns (u', r))" "uf_ok u'"
      "\<forall>k < 3. \<forall>l < 3. equiv_in u' k l \<longleftrightarrow> equiv_in three_sets k l \<or>
         equiv_in three_sets k 0 \<and> equiv_in three_sets 2 l \<or> equiv_in three_sets k 2 \<and> equiv_in three_sets 0 l"
      "\<forall>k < 3. \<forall>content. (\<forall>x y. content (x \<union> y) = content x \<union> content y) \<longrightarrow>
         (content (class_element u' k) :: nat set) =
         (if equiv_in three_sets k 0 \<or> equiv_in three_sets k 2
          then content (class_element three_sets 0) \<union> content (class_element three_sets 2)
          else content (class_element three_sets k))"
      "uf_size u' = (if equiv_in three_sets 0 2 then uf_size three_sets else uf_size three_sets - 1)"
    using three_sets_ok(2) by auto
  have "class_element u' 2 = class_element three_sets 0 \<union> class_element three_sets 2"
    using u(4)[rule_format, of 2 "\<lambda>x. x"] by (simp add: equiv_in_def)
  moreover have "equiv_in u' 0 2" using u(3) by (simp add: equiv_in_def)
  ultimately show ?thesis using u(1,2,5) by blast
qed

text \<open>
  C21: a client that unites a list of pairs, such as the constraints of an analysis, ends with a structure
  whose classes are the least equivalence that extends the old classes and relates each pair.
\<close>

theorem unite_all_least_equivalence:
  assumes "uf_ok u" "set ps \<subseteq> {..<length (uf_entries u)} \<times> {..<length (uf_entries u)}"
  shows "\<exists>u'. unite_all (unite_ids merge) u ps = Some (returns u') \<and> uf_ok u' \<and>
    {..<length (uf_entries u')} = {..<length (uf_entries u)} \<and>
    (\<forall>k \<in> {..<length (uf_entries u)}. \<forall>l \<in> {..<length (uf_entries u)}. equiv_in u' k l \<longleftrightarrow>
       (k, l) \<in> (related {..<length (uf_entries u)} (equiv_in u) \<union> set ps \<union> (set ps)\<inverse>)\<^sup>*)"
  by (rule uf.unite_all_closure[OF assms])

theorem unite_all_least_equivalence_witness:
  "\<exists>u'. unite_all (unite_ids (\<union>)) three_sets [(0, 1), (1, 2)] = Some (returns u') \<and> uf_ok u' \<and> equiv_in u' 2 0"
proof -
  have "set [(0::nat, 1::nat), (1, 2)] \<subseteq> {..<length (uf_entries three_sets)} \<times> {..<length (uf_entries three_sets)}"
    using three_sets_ok(2) by auto
  from unite_all_least_equivalence[OF three_sets_ok(1) this, of "(\<union>)"] obtain u' where
    u: "unite_all (unite_ids (\<union>)) three_sets [(0, 1), (1, 2)] = Some (returns u')" "uf_ok u'"
      "\<forall>k \<in> {..<3}. \<forall>l \<in> {..<3}. equiv_in u' k l \<longleftrightarrow> (k, l) \<in> (related {..<3} (equiv_in three_sets) \<union>
         set [(0, 1), (1, 2)] \<union> (set [(0, 1), (1, 2)])\<inverse>)\<^sup>*"
    using three_sets_ok(2) by auto
  have "(2, 0) \<in> (related {..<3} (equiv_in three_sets) \<union> set [(0, 1), (1, 2)] \<union> (set [(0, 1), (1, 2)])\<inverse>)\<^sup>*"
    by (rule rtrancl_trans[of _ 1]) (auto intro!: r_into_rtrancl)
  then have "equiv_in u' 2 0" using u(3) by simp
  then show ?thesis using u(1,2) by blast
qed

text \<open>\<^verbatim>\<open>Emplace\<close> keeps the classes and adds one, of the new entry alone, with the new element.\<close>

theorem Emplace_adds_class:
  assumes "uf_ok u" "Emplace u mk = (u', n)"
  shows "uf_ok u' \<and> n = length (uf_entries u) \<and> length (uf_entries u') = Suc n \<and>
    (\<forall>k < n. rep (uf_entries u') k = rep (uf_entries u) k) \<and> rep (uf_entries u') n = n \<and>
    class_element u' n = mk n \<and> uf_size u' = uf_size u + 1"
  by (rule Emplace_spec[OF assms])

theorem Emplace_adds_class_witness:
  "uf_ok (fst (Emplace three_sets (\<lambda>n. {n}))) \<and> class_element (fst (Emplace three_sets (\<lambda>n. {n}))) 3 = {3}"
  using Emplace_adds_class[OF three_sets_ok(1), of "\<lambda>n. {n}" "fst (Emplace three_sets (\<lambda>n. {n}))" 3] three_sets_ok(2)
  by (simp add: Emplace_def Let_def)

text \<open>
  a loop over the structure visits the elements of the roots, one for each class: their number is the
  size the structure keeps.
\<close>

theorem elements_one_per_class:
  assumes "uf_ok u"
  shows "length (elements u) = uf_size u \<and>
    set (elements u) = (\<lambda>r. class_element u r) ` roots (uf_entries u)"
proof -
  let ?es = "uf_entries u"
  have some: "e_element (?es ! i) \<noteq> None \<longleftrightarrow> i \<in> roots ?es" if "i < length ?es" for i
    using assms that by (simp add: uf_ok_def)
  have "elements u = map (\<lambda>x. the (e_element x)) (filter (\<lambda>x. e_element x \<noteq> None) ?es)"
    by (simp add: elements_def List.map_filter_def comp_def)
  moreover have "{i. i < length ?es \<and> e_element (?es ! i) \<noteq> None} = roots ?es"
    using some by (auto simp: roots_def)
  moreover have "class_element u r = the (e_element (?es ! r))" if "r \<in> roots ?es" for r
    using that assms rep_simps(1)[of ?es r] by (simp add: class_element_def roots_def uf_ok_def)
  moreover have "set (filter (\<lambda>x. e_element x \<noteq> None) ?es) = (!) ?es ` roots ?es"
  proof -
    have "set (filter (\<lambda>x. e_element x \<noteq> None) ?es) = (!) ?es ` {i. i < length ?es \<and> e_element (?es ! i) \<noteq> None}"
      unfolding set_filter by (auto simp: in_set_conv_nth)
    moreover have "{i. i < length ?es \<and> e_element (?es ! i) \<noteq> None} = roots ?es"
      using some by (auto simp: roots_def)
    ultimately show ?thesis by simp
  qed
  moreover have "uf_size u = card (roots ?es)" using assms by (simp add: uf_ok_def)
  ultimately show ?thesis by (simp add: length_filter_conv_card image_image)
qed

theorem elements_one_per_class_witness:
  "length (elements three_sets) = uf_size three_sets"
  using elements_one_per_class[OF three_sets_ok(1)] by simp

end
