(* ===== verification/WorkQueue.thy ===== *)
theory WorkQueue
  imports Prelude
begin

text \<open>
  The work queue of the solvers (\<^verbatim>\<open>core/adt/queue.h\<close>): two vectors and a bit vector that keeps an item
  from being queued twice. Items are 32-bit identifiers; \<^verbatim>\<open>item + 1\<close> is computed in 32 bits. An access
  past the end of a vector is \<open>Inl BadIterator\<close>. The order of the items is that of one list,
  \<open>is_queued\<close>: the locale \<open>fifo\<close> is that contract, with clients that fill and drain a queue.
\<close>

subsection \<open>State and operations\<close>

record work_queue =
  placeQ :: "32 word list"
  takeQ :: "32 word list"
  dedup :: "bool list"

definition wq_empty :: work_queue where
  "wq_empty = \<lparr>placeQ = [], takeQ = [], dedup = []\<rparr>"

definition resize :: "nat \<Rightarrow> bool list \<Rightarrow> bool list" where
  "resize n d = take n d @ replicate (n - length d) False"

definition Push :: "32 word \<Rightarrow> work_queue \<Rightarrow> work_queue result" where
  "Push item q =
     (let d = (if unat item \<ge> length (dedup q) then resize (unat (item + 1)) (dedup q) else dedup q)
      in if unat item \<ge> length d then Inl BadIterator
         else if \<not> d ! unat item then
           returns (q\<lparr>dedup := d[unat item := True], placeQ := placeQ q @ [item]\<rparr>)
         else returns (q\<lparr>dedup := d\<rparr>))"

definition Refill :: "work_queue \<Rightarrow> work_queue" where
  "Refill q = (if takeQ q = [] then q\<lparr>takeQ := rev (placeQ q), placeQ := []\<rparr> else q)"

definition Pop :: "work_queue \<Rightarrow> (work_queue \<times> 32 word) result" where
  "Pop q =
     (let q1 = Refill q
      in if takeQ q1 = [] then Inl BadIterator
         else let item = last (takeQ q1)
              in if unat item \<ge> length (dedup q1) then Inl BadIterator
                 else returns (q1\<lparr>takeQ := butlast (takeQ q1), dedup := (dedup q1)[unat item := False]\<rparr>, item))"

definition QueueEmpty :: "work_queue \<Rightarrow> bool" where
  "QueueEmpty q \<longleftrightarrow> takeQ q = [] \<and> placeQ q = []"

definition QueueSize :: "work_queue \<Rightarrow> nat" where
  "QueueSize q = length (placeQ q) + length (takeQ q)"

subsection \<open>The list the queue stands for\<close>

definition is_queued :: "work_queue \<Rightarrow> 32 word list" where
  "is_queued q = rev (takeQ q) @ placeQ q"

definition marked :: "bool list \<Rightarrow> 32 word \<Rightarrow> bool" where
  "marked d x \<longleftrightarrow> unat x < length d \<and> d ! unat x"

definition wq_ok :: "work_queue \<Rightarrow> bool" where
  "wq_ok q \<longleftrightarrow> distinct (is_queued q) \<and> (\<forall>x. marked (dedup q) x \<longleftrightarrow> x \<in> set (is_queued q))"

lemma marked_resize: "length d \<le> n \<Longrightarrow> marked (resize n d) x = marked d x"
  by (auto simp: marked_def resize_def nth_append)

lemma length_resize [simp]: "length (resize n d) = n"
  by (simp add: resize_def)

lemma marked_update: "unat x < length d \<Longrightarrow> marked (d[unat x := b]) y = (if y = x then b else marked d y)"
  by (auto simp: marked_def nth_list_update word_unat_eq_iff)

lemma unat_succ: "x \<noteq> - 1 \<Longrightarrow> unat (x + 1) = Suc (unat x)" for x :: "32 word"
proof -
  assume "x \<noteq> - 1"
  then have "1 + x \<noteq> 0" by (metis add.commute eq_neg_iff_add_eq_0)
  then show ?thesis using unatSuc[of x] by (simp add: add.commute)
qed

lemma Refill_facts: "is_queued (Refill q) = is_queued q" "dedup (Refill q) = dedup q"
    "takeQ (Refill q) = [] \<longleftrightarrow> is_queued q = []"
  by (auto simp: Refill_def is_queued_def)

lemma Push_spec:
  assumes ok: "wq_ok q" and x: "x \<noteq> - 1"
  shows "\<exists>q'. Push x q = returns q' \<and> wq_ok q' \<and>
    is_queued q' = (if x \<in> set (is_queued q) then is_queued q else is_queued q @ [x])"
proof -
  define d where "d = (if unat x \<ge> length (dedup q) then resize (unat (x + 1)) (dedup q) else dedup q)"
  have len: "unat x < length d" using unat_succ[OF x] by (simp add: d_def)
  have m: "marked d y \<longleftrightarrow> y \<in> set (is_queued q)" for y
    using ok unat_succ[OF x] by (simp add: wq_ok_def d_def marked_resize)
  have dx: "d ! unat x \<longleftrightarrow> x \<in> set (is_queued q)" using m[of x] len by (simp add: marked_def)
  show ?thesis
  proof (cases "x \<in> set (is_queued q)")
    case True
    then have "Push x q = returns (q\<lparr>dedup := d\<rparr>)" using len dx by (simp add: Push_def d_def[symmetric])
    then show ?thesis using True ok m by (simp add: wq_ok_def is_queued_def)
  next
    case False
    then have "Push x q = returns (q\<lparr>dedup := d[unat x := True], placeQ := placeQ q @ [x]\<rparr>)"
      using len dx by (simp add: Push_def d_def[symmetric])
    then show ?thesis
      using False ok m marked_update[OF len] by (auto simp: wq_ok_def is_queued_def)
  qed
qed

lemma Pop_spec:
  assumes ok: "wq_ok q" and c: "is_queued q = x # xs"
  shows "\<exists>q'. Pop q = returns (q', x) \<and> wq_ok q' \<and> is_queued q' = xs"
proof -
  have r: "is_queued (Refill q) = x # xs" "takeQ (Refill q) \<noteq> []"
    using Refill_facts[of q] c by simp_all
  have l: "last (takeQ (Refill q)) = x" "rev (butlast (takeQ (Refill q))) @ placeQ (Refill q) = xs"
    using r by (cases "takeQ (Refill q)" rule: rev_cases; simp add: is_queued_def)+
  have m: "marked (dedup q) y \<longleftrightarrow> y \<in> set (is_queued q)" for y using ok by (simp add: wq_ok_def)
  have len: "unat x < length (dedup q)" using m[of x] c by (simp add: marked_def)
  have d: "distinct (x # xs)" using ok c by (simp add: wq_ok_def)
  define q' where "q' = (Refill q)\<lparr>takeQ := butlast (takeQ (Refill q)), dedup := (dedup q)[unat x := False]\<rparr>"
  have "Pop q = returns (q', x)"
    using r(2) l(1) len by (simp add: Pop_def Let_def Refill_facts(2) q'_def)
  moreover have "is_queued q' = xs" using l(2) by (simp add: is_queued_def q'_def)
  moreover have "dedup q' = (dedup q)[unat x := False]" by (simp add: q'_def)
  ultimately show ?thesis
    using d m c marked_update[OF len] by (auto simp: wq_ok_def)
qed

lemma Empty_spec: "QueueEmpty q \<longleftrightarrow> is_queued q = []"
  by (auto simp: QueueEmpty_def is_queued_def)

lemma Size_spec: "QueueSize q = length (is_queued q)"
  by (simp add: QueueSize_def is_queued_def)

subsection \<open>The interface of a queue without duplicates\<close>

text \<open>Clients that push a list of items, and that take items until the queue is empty.\<close>

fun push_all :: "(32 word \<Rightarrow> 's \<Rightarrow> 's result) \<Rightarrow> 32 word list \<Rightarrow> 's \<Rightarrow> 's result" where
  "push_all push [] s = returns s"
| "push_all push (x # xs) s = (case push x s of Inl e \<Rightarrow> Inl e | Inr s' \<Rightarrow> push_all push xs s')"

partial_function (option) drain_queue ::
    "('s \<Rightarrow> bool) \<Rightarrow> ('s \<Rightarrow> ('s \<times> 32 word) result) \<Rightarrow> 's \<Rightarrow> 32 word list result option" where
  "drain_queue is_empty pop s =
     (if is_empty s then Some (returns [])
      else case pop s of
          Inl e \<Rightarrow> Some (Inl e)
        | Inr (s', x) \<Rightarrow>
            Option.bind (drain_queue is_empty pop s') (\<lambda>r. Some (case r of Inl e \<Rightarrow> Inl e | Inr xs \<Rightarrow> returns (x # xs))))"

text \<open>The items of a list in the order of their first occurrence.\<close>

fun firsts :: "'a list \<Rightarrow> 'a list \<Rightarrow> 'a list" where
  "firsts seen [] = seen"
| "firsts seen (x # xs) = firsts (if x \<in> set seen then seen else seen @ [x]) xs"

lemma firsts_set: "set (firsts seen xs) = set seen \<union> set xs"
  by (induction xs arbitrary: seen) auto

lemma firsts_distinct: "distinct seen \<Longrightarrow> distinct (firsts seen xs)"
  by (induction xs arbitrary: seen) auto

locale fifo =
  fixes valid :: "'s \<Rightarrow> bool" and contents :: "'s \<Rightarrow> 32 word list"
    and push :: "32 word \<Rightarrow> 's \<Rightarrow> 's result" and pop :: "'s \<Rightarrow> ('s \<times> 32 word) result"
    and is_empty :: "'s \<Rightarrow> bool"
  assumes push_law: "valid s \<Longrightarrow> x \<noteq> - 1 \<Longrightarrow>
      \<exists>s'. push x s = returns s' \<and> valid s' \<and> contents s' = (if x \<in> set (contents s) then contents s else contents s @ [x])"
    and pop_law: "valid s \<Longrightarrow> contents s = x # xs \<Longrightarrow>
      \<exists>s'. pop s = returns (s', x) \<and> valid s' \<and> contents s' = xs"
    and empty_law: "is_empty s \<longleftrightarrow> contents s = []"
begin

lemma push_all_firsts:
  assumes "valid s" "- 1 \<notin> set xs"
  shows "\<exists>s'. push_all push xs s = returns s' \<and> valid s' \<and> contents s' = firsts (contents s) xs"
  using assms
proof (induction xs arbitrary: s)
  case (Cons x xs)
  obtain s1 where s1: "push x s = returns s1" "valid s1"
      "contents s1 = (if x \<in> set (contents s) then contents s else contents s @ [x])"
    using push_law[of s x] Cons.prems by auto
  from Cons.IH[OF s1(2)] Cons.prems(2) show ?case using s1(1,3) by auto
qed simp

lemma drain_contents:
  assumes "valid s"
  shows "drain_queue is_empty pop s = Some (returns (contents s))"
  using assms
proof (induction "contents s" arbitrary: s)
  case Nil
  then show ?case using empty_law[of s] by (subst drain_queue.simps) simp
next
  case (Cons x xs)
  obtain s' where s': "pop s = returns (s', x)" "valid s'" "contents s' = xs"
    using pop_law[OF Cons.prems Cons.hyps(2)[symmetric]] by blast
  have "drain_queue is_empty pop s' = Some (returns xs)" using Cons.hyps(1)[of s'] s' by simp
  then show ?case
    using Cons.hyps(2) empty_law[of s] s'(1) by (subst drain_queue.simps) (simp add: Cons.hyps(2)[symmetric])
qed

lemma drain_after_push_all:
  assumes "valid s" "- 1 \<notin> set xs"
  shows "\<exists>s'. push_all push xs s = returns s' \<and> drain_queue is_empty pop s' = Some (returns (firsts (contents s) xs))"
  using push_all_firsts[OF assms] drain_contents by fastforce

end

interpretation wq: fifo wq_ok is_queued Push Pop QueueEmpty
  by unfold_locales (use Push_spec Pop_spec Empty_spec in auto)

subsection \<open>Properties\<close>

lemma wq_empty_ok: "wq_ok wq_empty" "is_queued wq_empty = []"
  by (simp_all add: wq_ok_def wq_empty_def is_queued_def marked_def)

text \<open>
  on a well-formed queue \<^verbatim>\<open>Push\<close> does not fail on any item but the last of the 32-bit range, keeps
  the invariant, and adds the item at the end unless it is already there.
\<close>

theorem Push_appends_once:
  assumes "wq_ok q" "x \<noteq> - 1"
  shows "\<exists>q'. Push x q = returns q' \<and> wq_ok q' \<and>
    is_queued q' = (if x \<in> set (is_queued q) then is_queued q else is_queued q @ [x]) \<and>
    QueueSize q' = (if x \<in> set (is_queued q) then QueueSize q else Suc (QueueSize q))"
proof -
  obtain q' where "Push x q = returns q'" "wq_ok q'"
      "is_queued q' = (if x \<in> set (is_queued q) then is_queued q else is_queued q @ [x])"
    using Push_spec[OF assms] by blast
  then show ?thesis by (simp add: Size_spec)
qed

theorem Push_appends_once_witness:
  "\<exists>q'. Push 5 wq_empty = returns q' \<and> wq_ok q' \<and> is_queued q' = [5] \<and> QueueSize q' = 1"
  using Push_appends_once[OF wq_empty_ok(1), of 5] by (simp add: wq_empty_ok(2) Size_spec)

text \<open>
  \<^verbatim>\<open>Pop\<close> returns the item that was pushed first and leaves the others in their order; on an empty
  queue it reads past the end of a vector.
\<close>

theorem Pop_takes_first:
  assumes "wq_ok q"
  shows "case is_queued q of
      [] \<Rightarrow> Pop q = Inl BadIterator
    | x # xs \<Rightarrow> (\<exists>q'. Pop q = returns (q', x) \<and> wq_ok q' \<and> is_queued q' = xs)"
proof (cases "is_queued q")
  case Nil
  then show ?thesis using Refill_facts(3)[of q] by (simp add: Pop_def)
next
  case (Cons x xs)
  then show ?thesis using Pop_spec[OF assms] by simp
qed

theorem Pop_takes_first_witness:
  "\<exists>q. Push 4 wq_empty = returns q \<and> wq_ok q \<and> (\<exists>q'. Pop q = returns (q', 4) \<and> is_queued q' = [])"
proof -
  obtain q where q: "Push 4 wq_empty = returns q" "wq_ok q" "is_queued q = [4]"
    using Push_spec[OF wq_empty_ok(1), of 4] by (auto simp: wq_empty_ok(2))
  then show ?thesis using Pop_takes_first[of q] by auto
qed

text \<open>
  C29: pushing a list and then popping until the queue is empty ends, and gives each item once, in the
  order of its first push after what the queue held.
\<close>

theorem queue_first_push_order:
  assumes "wq_ok q" "- 1 \<notin> set xs"
  shows "\<exists>q'. push_all Push xs q = returns q' \<and> drain_queue QueueEmpty Pop q' = Some (returns (firsts (is_queued q) xs))"
  by (rule wq.drain_after_push_all[OF assms])

theorem queue_first_push_order_witness:
  "\<exists>q'. push_all Push [3, 1, 3, 2, 1] wq_empty = returns q' \<and> drain_queue QueueEmpty Pop q' = Some (returns [3, 1, 2])"
  using queue_first_push_order[OF wq_empty_ok(1), of "[3, 1, 3, 2, 1]"] by (simp add: wq_empty_ok(2))

text \<open>
  pushing the largest 32-bit identifier on a well-formed queue resizes the bit vector to
  \<open>item + 1 = 0\<close> entries and then reads past its end.
\<close>

theorem Push_last_identifier_fails:
  assumes "length (dedup q) < 2 ^ 32"
  shows "Push (- 1) q = Inl BadIterator"
  using assms by (simp add: Push_def unsigned_minus_1_eq_mask mask_eq_exp_minus_1)

theorem Push_last_identifier_fails_witness: "Push (- 1) wq_empty = Inl BadIterator"
  using Push_last_identifier_fails[of wq_empty] by (simp add: wq_empty_def)

end
