(* ===== verification/MaskedType.thy ===== *)
theory MaskedType
  imports BitNode
begin

text \<open>
  Masked integers (\<^verbatim>\<open>passes/tags/masked_type.cpp\<close>): a 64-bit value of which the bits of a mask are known.
  The library routine \<^verbatim>\<open>llvm::countTrailingZeros\<close> is a parameter \<open>tz\<close>; the locale \<open>trailing_zeros\<close>
  is what the code relies on: the index of the lowest bit set, 64 when there is none. The lemmas show
  that every operation is sound for the words a masked integer stands for, and that the bitwise ones
  keep every bit that is determined.
\<close>

subsection \<open>Values and operations\<close>

record masked_type =
  m_value :: "64 word"
  m_known :: "64 word"

definition masked :: "64 word \<Rightarrow> 64 word \<Rightarrow> masked_type" where
  "masked value known = \<lparr>m_value = value AND known, m_known = known\<rparr>"

definition masked_const :: "64 word \<Rightarrow> masked_type" where
  "masked_const value = \<lparr>m_value = value, m_known = - 1\<rparr>"

definition MaskNot :: "masked_type \<Rightarrow> masked_type" where
  "MaskNot a = masked (NOT (m_value a)) (m_known a)"

definition MaskAdd :: "(64 word \<Rightarrow> nat) \<Rightarrow> masked_type \<Rightarrow> masked_type \<Rightarrow> masked_type" where
  "MaskAdd tz a b =
     (let sum = m_value a + m_value b;
          t = tz (NOT (m_known a AND m_known b));
          m = (if t = 64 then - 1 else push_bit t 1 - 1)
      in masked sum m)"

definition MaskSub :: "(64 word \<Rightarrow> nat) \<Rightarrow> masked_type \<Rightarrow> masked_type \<Rightarrow> masked_type" where
  "MaskSub tz a b = MaskAdd tz (MaskAdd tz a (MaskNot b)) (masked_const 1)"

definition MaskAnd :: "masked_type \<Rightarrow> masked_type \<Rightarrow> masked_type" where
  "MaskAnd a b =
     (let zeros = (NOT (m_value a) AND m_known a) OR (NOT (m_value b) AND m_known b);
          known = zeros OR (m_known a AND m_known b)
      in masked (m_value a AND m_value b AND known) known)"

definition MaskOr :: "masked_type \<Rightarrow> masked_type \<Rightarrow> masked_type" where
  "MaskOr a b =
     (let known = (m_known a AND m_known b) OR m_value a OR m_value b;
          value = m_value a OR m_value b
      in masked value known)"

definition MaskXor :: "masked_type \<Rightarrow> masked_type \<Rightarrow> masked_type" where
  "MaskXor a b = masked (m_value a XOR m_value b) (m_known a AND m_known b)"

definition AsConst :: "masked_type \<Rightarrow> 64 word option" where
  "AsConst a = (if m_known a = - 1 then Some (m_value a) else None)"

definition IsAligned :: "masked_type \<Rightarrow> bool" where
  "IsAligned a \<longleftrightarrow> m_known a AND 7 = 7 \<and> m_value a AND 7 = 0"

definition show_masked :: "masked_type \<Rightarrow> string" where
  "show_masked a = map (\<lambda>i. if m_known a AND push_bit (64 - i - 1) 1 \<noteq> 0
      then (if m_value a AND push_bit (64 - i - 1) 1 \<noteq> 0 then CHR ''1'' else CHR ''0'') else CHR ''x'') [0..<64]"

subsection \<open>The words a masked integer stands for\<close>

definition fits :: "masked_type \<Rightarrow> 64 word \<Rightarrow> bool" where
  "fits a x \<longleftrightarrow> x AND m_known a = m_value a"

definition masked_ok :: "masked_type \<Rightarrow> bool" where
  "masked_ok a \<longleftrightarrow> m_value a AND m_known a = m_value a"

lemma fits_bits: "fits a x \<Longrightarrow> bit (m_value a) n \<longleftrightarrow> bit x n \<and> bit (m_known a) n"
  by (auto simp: fits_def bit_and_iff dest!: arg_cong[where f = "\<lambda>w. bit w n"])

lemma fitsI: "(\<And>n. n < 64 \<Longrightarrow> bit (m_value a) n \<longleftrightarrow> bit x n \<and> bit (m_known a) n) \<Longrightarrow> fits a x"
  unfolding fits_def by (intro bit_word_eqI) (simp add: bit_and_iff)

lemma fits_masked: "fits (masked v k) x \<longleftrightarrow> (\<forall>n. bit k n \<longrightarrow> bit x n = bit v n)"
  by (simp add: fits_def masked_def and_word_eq_iff_bits)

lemma fits_ok: "fits a x \<Longrightarrow> masked_ok a"
  unfolding masked_ok_def fits_def by (metis and.assoc and.idem)

lemma masked_ok_fits: "masked_ok a \<Longrightarrow> fits a (m_value a)"
  by (simp add: masked_ok_def fits_def)

lemma masked_is_ok: "masked_ok (masked v k)"
  by (simp add: masked_ok_def masked_def ac_simps)

lemma fits_const: "fits (masked_const v) x \<longleftrightarrow> x = v"
  by (simp add: fits_def masked_const_def)

lemma masked_const_eq: "masked_const v = masked v (- 1)"
  by (simp add: masked_const_def masked_def)

lemma fits_known: "fits a x \<Longrightarrow> bit (m_known a) n \<Longrightarrow> bit x n = bit (m_value a) n"
  using fits_bits by blast

lemma fits_value: "fits a x \<Longrightarrow> bit (m_value a) n \<Longrightarrow> bit x n"
  using fits_bits by blast

subsection \<open>Soundness\<close>

lemma take_bit_word_add: "take_bit t (x + y) = take_bit t (take_bit t x + take_bit t y)"
  for x y :: "64 word"
proof (transfer fixing: t)
  fix x y :: int
  have "take_bit 64 (take_bit t (x + y)) = take_bit 64 (take_bit t (take_bit t x + take_bit t y))"
    by (simp only: take_bit_add)
  then show "take_bit LENGTH(64) (take_bit (min LENGTH(64) t) (x + y)) =
      take_bit LENGTH(64) (take_bit (min LENGTH(64) t) (take_bit (min LENGTH(64) t) x + take_bit (min LENGTH(64) t) y))"
    by (cases "t \<le> 64") (simp_all add: min_def take_bit_add)
qed

lemma takeWhile_True: "takeWhile (\<lambda>x. True) xs = xs"
  by (induction xs) auto

locale trailing_zeros =
  fixes tz :: "64 word \<Rightarrow> nat"
  assumes tz_zero: "tz 0 = 64"
    and tz_lowest: "w \<noteq> 0 \<Longrightarrow> tz w < 64 \<and> bit w (tz w)"
    and tz_below: "i < tz w \<Longrightarrow> \<not> bit w i"
begin

lemma known_below: "i < tz (NOT (k AND l)) \<Longrightarrow> i < 64 \<Longrightarrow> bit k i \<and> bit l i"
  using tz_below[of i "NOT (k AND l)"] by (simp add: bit_simps)

lemma tz_le: "tz w \<le> 64"
  using tz_zero tz_lowest[of w] by (cases "w = 0") auto

text \<open>The mask of a sum: the bits below the lowest unknown one.\<close>

lemma low_mask: "(if tz w = 64 then - 1 else push_bit (tz w) 1 - 1) = (mask (tz w) :: 64 word)"
  by (simp add: mask_eq_exp_minus_1)

lemma fits_low: "fits a x \<Longrightarrow> t \<le> tz (NOT (m_known a AND l)) \<Longrightarrow> take_bit t x = take_bit t (m_value a)"
  using fits_bits[of a x] known_below[of _ "m_known a" l]
  by (intro bit_word_eqI) (auto simp: bit_take_bit_iff)

lemma MaskAdd_fits:
  assumes "fits a x" "fits b y"
  shows "fits (MaskAdd tz a b) (x + y)"
proof -
  define t where "t = tz (NOT (m_known a AND m_known b))"
  have "take_bit t x = take_bit t (m_value a)" "take_bit t y = take_bit t (m_value b)"
    using fits_low[OF assms(1), of t "m_known b"] fits_low[OF assms(2), of t "m_known a"]
    by (simp_all add: t_def and.commute)
  then have "take_bit t (x + y) = take_bit t (m_value a + m_value b)"
    using take_bit_word_add[of t x y] take_bit_word_add[of t "m_value a" "m_value b"] by simp
  then have "(x + y) AND mask t = (m_value a + m_value b) AND mask t"
    by (simp add: take_bit_eq_mask)
  then show ?thesis
    unfolding MaskAdd_def Let_def low_mask unfolding t_def[symmetric] by (simp add: fits_def masked_def)
qed

lemma MaskNot_fits: "fits a x \<Longrightarrow> fits (MaskNot a) (NOT x)"
  using fits_bits[of a x] by (auto simp: MaskNot_def fits_masked bit_not_iff)

lemma MaskSub_fits:
  assumes "fits a x" "fits b y"
  shows "fits (MaskSub tz a b) (x - y)"
proof -
  have "fits (MaskSub tz a b) ((x + NOT y) + 1)"
    unfolding MaskSub_def by (intro MaskAdd_fits MaskNot_fits assms) (simp add: fits_const)
  then show ?thesis by (simp add: not_eq_complement)
qed

end

lemma MaskAnd_fits: "fits a x \<Longrightarrow> fits b y \<Longrightarrow> fits (MaskAnd a b) (x AND y)"
  using fits_bits[of a x] fits_bits[of b y]
  by (auto simp: MaskAnd_def Let_def fits_masked bit_simps dest: bit_imp_le_length)

lemma MaskOr_fits: "fits a x \<Longrightarrow> fits b y \<Longrightarrow> fits (MaskOr a b) (x OR y)"
  using fits_bits[of a x] fits_bits[of b y]
  by (auto simp: MaskOr_def Let_def fits_masked bit_simps)

lemma MaskXor_fits: "fits a x \<Longrightarrow> fits b y \<Longrightarrow> fits (MaskXor a b) (x XOR y)"
  using fits_bits[of a x] fits_bits[of b y]
  by (auto simp: MaskXor_def fits_masked bit_simps)

interpretation ctz: trailing_zeros ctz
proof
  show "ctz 0 = 64" by (simp add: ctz_def takeWhile_True)
  show "ctz w < 64 \<and> bit w (ctz w)" if "w \<noteq> 0" for w using ctz_first[OF that] by simp
  show "\<not> bit w i" if "i < ctz w" for i w
    using that ctz_first[of w] by (cases "w = 0") auto
qed

lemmas bitwise_fits = MaskAnd_fits MaskOr_fits MaskXor_fits

subsection \<open>Precision\<close>

text \<open>A bit of a result is determined when all words the arguments stand for agree on it.\<close>

definition determined ::
    "(64 word \<Rightarrow> 64 word \<Rightarrow> 64 word) \<Rightarrow> masked_type \<Rightarrow> masked_type \<Rightarrow> nat \<Rightarrow> bool" where
  "determined f a b n \<longleftrightarrow>
     (\<forall>x y x' y'. fits a x \<and> fits b y \<and> fits a x' \<and> fits b y' \<longrightarrow> bit (f x y) n = bit (f x' y') n)"

definition possible :: "masked_type \<Rightarrow> nat \<Rightarrow> bool \<Rightarrow> bool" where
  "possible a n c \<longleftrightarrow> (bit (m_known a) n \<longrightarrow> bit (m_value a) n = c)"

lemma possible_fits:
  assumes "masked_ok a" "n < 64"
  shows "possible a n c \<longleftrightarrow> (\<exists>x. fits a x \<and> bit x n = c)"
proof
  assume p: "possible a n c"
  let ?x = "if c then m_value a OR 2 ^ n else m_value a AND NOT (2 ^ n)"
  have b: "bit (2 ^ n :: 64 word) i \<longleftrightarrow> i = n" for i
    using assms(2) by (auto simp: bit_exp_iff possible_bit_word)
  have v: "bit (m_value a) i \<Longrightarrow> bit (m_known a) i" for i
    using fits_bits[OF masked_ok_fits[OF assms(1)]] by blast
  have "fits a ?x"
    using p v by (intro fitsI) (auto simp: possible_def b bit_or_iff bit_and_iff bit_not_iff)
  moreover have "bit ?x n = c" using assms(2) by (simp add: b bit_or_iff bit_and_iff bit_not_iff)
  ultimately show "\<exists>x. fits a x \<and> bit x n = c" by blast
next
  assume "\<exists>x. fits a x \<and> bit x n = c"
  then show "possible a n c" using fits_bits[of a _ n] by (auto simp: possible_def)
qed

lemma determined_possible:
  assumes "masked_ok a" "masked_ok b" "n < 64" "\<And>x y. bit (f x y) n = g (bit x n) (bit y n)"
  shows "determined f a b n \<longleftrightarrow>
    (\<forall>p q p' q'. possible a n p \<and> possible b n q \<and> possible a n p' \<and> possible b n q' \<longrightarrow> g p q = g p' q')"
  unfolding determined_def assms(4) possible_fits[OF assms(1,3)] possible_fits[OF assms(2,3)] by blast

lemma ok_value_known: "masked_ok a \<Longrightarrow> bit (m_value a) n \<Longrightarrow> bit (m_known a) n"
  using fits_bits[OF masked_ok_fits] by blast

lemma MaskAnd_known: "bit (m_known (MaskAnd a b)) n \<longleftrightarrow>
    n < 64 \<and> (\<not> bit (m_value a) n \<and> bit (m_known a) n \<or> \<not> bit (m_value b) n \<and> bit (m_known b) n
      \<or> bit (m_known a) n \<and> bit (m_known b) n)"
  by (auto simp: MaskAnd_def masked_def Let_def bit_or_iff bit_and_iff bit_not_iff dest: bit_imp_le_length)

lemma MaskOr_known: "bit (m_known (MaskOr a b)) n \<longleftrightarrow>
    bit (m_known a) n \<and> bit (m_known b) n \<or> bit (m_value a) n \<or> bit (m_value b) n"
  by (auto simp: MaskOr_def masked_def Let_def bit_or_iff bit_and_iff)

lemma MaskXor_known: "bit (m_known (MaskXor a b)) n \<longleftrightarrow> bit (m_known a) n \<and> bit (m_known b) n"
  by (auto simp: MaskXor_def masked_def bit_and_iff)

subsection \<open>Properties\<close>

text \<open>
  C25: every operation of the masked integers is sound: applied to masks that fit two words, it gives a
  mask that fits the sum, the difference, the bitwise and, or, exclusive or and the complement.
\<close>

theorem masked_operations_sound:
  assumes "trailing_zeros tz" "fits a x" "fits b y"
  shows "fits (MaskAdd tz a b) (x + y) \<and> fits (MaskSub tz a b) (x - y) \<and> fits (MaskAnd a b) (x AND y) \<and>
    fits (MaskOr a b) (x OR y) \<and> fits (MaskXor a b) (x XOR y) \<and> fits (MaskNot a) (NOT x)"
  using trailing_zeros.MaskAdd_fits[OF assms] trailing_zeros.MaskSub_fits[OF assms]
    trailing_zeros.MaskNot_fits[OF assms(1,2)] bitwise_fits[OF assms(2,3)] by blast

theorem masked_operations_sound_witness:
  "fits (MaskAdd ctz (masked 1 1) (masked_const 2)) (5 + 2) \<and> fits (MaskSub ctz (masked 1 1) (masked_const 2)) (5 - 2)"
proof -
  have "fits (masked 1 1) 5" by (simp add: fits_def masked_def)
  moreover have "fits (masked_const 2) 2" by (simp add: fits_const)
  ultimately show ?thesis
    using masked_operations_sound[OF ctz.trailing_zeros_axioms] by blast
qed

text \<open>
  the bitwise operations lose nothing: a bit of the result is known exactly when all words the
  arguments stand for agree on it.
\<close>

theorem masked_bitwise_precise:
  assumes "masked_ok a" "masked_ok b" "n < 64"
  shows "(bit (m_known (MaskAnd a b)) n \<longleftrightarrow> determined (AND) a b n) \<and>
    (bit (m_known (MaskOr a b)) n \<longleftrightarrow> determined (OR) a b n) \<and>
    (bit (m_known (MaskXor a b)) n \<longleftrightarrow> determined (XOR) a b n)"
proof -
  note d = determined_possible[OF assms]
  have "determined (AND) a b n \<longleftrightarrow> (\<forall>p q p' q'. possible a n p \<and> possible b n q \<and> possible a n p' \<and> possible b n q' \<longrightarrow>
      (p \<and> q) = (p' \<and> q'))"
    by (rule d) (simp add: bit_and_iff)
  moreover have "determined (OR) a b n \<longleftrightarrow> (\<forall>p q p' q'. possible a n p \<and> possible b n q \<and> possible a n p' \<and> possible b n q' \<longrightarrow>
      (p \<or> q) = (p' \<or> q'))"
    by (rule d) (simp add: bit_or_iff)
  moreover have "determined (XOR) a b n \<longleftrightarrow> (\<forall>p q p' q'. possible a n p \<and> possible b n q \<and> possible a n p' \<and> possible b n q' \<longrightarrow>
      (p \<noteq> q) = (p' \<noteq> q'))"
    by (rule d) (simp add: bit_xor_iff)
  ultimately show ?thesis
    unfolding MaskAnd_known MaskOr_known MaskXor_known possible_def
    using ok_value_known[OF assms(1), of n] ok_value_known[OF assms(2), of n] assms(3)
    by (cases "bit (m_known a) n"; cases "bit (m_known b) n"; cases "bit (m_value a) n";
        cases "bit (m_value b) n"; simp add: all_bool_eq)
qed

theorem masked_bitwise_precise_witness:
  "bit (m_known (MaskAnd (masked 1 1) (masked 0 2))) 1 \<longleftrightarrow> determined (AND) (masked 1 1) (masked 0 2) 1"
  using masked_bitwise_precise[OF masked_is_ok masked_is_ok, of 1 1 1 0 2] by simp

end
