(* ===== verification/TaggedType.thy ===== *)
theory TaggedType
  imports MaskedType
begin

text \<open>
  The lattice of the OCaml tag analysis (\<^verbatim>\<open>passes/tags/tagged_type.cpp\<close>): what is known of a register,
  its tests, its order and its least upper bound, row by row of the switch statements. Combinations
  that end in \<^verbatim>\<open>llvm_unreachable\<close> are \<open>Inl Unreachable\<close>. \<open>denotes\<close> says which run-time values a type
  stands for: an integer of 64 bits or a pointer with the kind of object it points into. The kind
  \<^verbatim>\<open>INT\<close> is spelled \<open>INTEGER\<close>.
\<close>

subsection \<open>Types and tests\<close>

datatype tagged_type =
    UNKNOWN
  | INTEGER masked_type
  | FUNC
  | YOUNG
  | HEAP_OFF
  | HEAP
  | ADDR
  | ADDR_NULL
  | ADDR_INT
  | VAL
  | PTR
  | PTR_NULL
  | PTR_INT
  | UNDEF

definition Const :: "64 word \<Rightarrow> tagged_type" where
  "Const value = INTEGER (masked_const value)"

definition Zero :: tagged_type where "Zero = Const 0"
definition One :: tagged_type where "One = Const 1"
definition Even :: tagged_type where "Even = INTEGER (masked 0 1)"
definition Odd :: tagged_type where "Odd = INTEGER (masked 1 1)"
definition AnyInt :: tagged_type where "AnyInt = INTEGER (masked 0 0)"
definition ZeroOne :: tagged_type where "ZeroOne = INTEGER (masked 0 (- 1 AND NOT 1))"

definition IsUnknown :: "tagged_type \<Rightarrow> bool" where
  "IsUnknown t \<longleftrightarrow> t = UNKNOWN"

definition IsEven :: "tagged_type \<Rightarrow> bool" where
  "IsEven t = (case t of
       YOUNG \<Rightarrow> True
     | HEAP_OFF \<Rightarrow> True
     | INTEGER m \<Rightarrow> m_known m AND 1 = 1 \<and> m_value m AND 1 = 0
     | _ \<Rightarrow> False)"

definition IsOdd :: "tagged_type \<Rightarrow> bool" where
  "IsOdd t = (case t of
       INTEGER m \<Rightarrow> m_known m AND 1 = 1 \<and> m_value m AND 1 = 1
     | _ \<Rightarrow> False)"

definition IsZero :: "tagged_type \<Rightarrow> bool" where
  "IsZero t = (case t of INTEGER m \<Rightarrow> m_known m = - 1 \<and> m_value m = 0 | _ \<Rightarrow> False)"

definition IsOne :: "tagged_type \<Rightarrow> bool" where
  "IsOne t = (case t of INTEGER m \<Rightarrow> m_known m = - 1 \<and> m_value m = 1 | _ \<Rightarrow> False)"

definition IsPtrUnion :: "tagged_type \<Rightarrow> bool" where
  "IsPtrUnion t \<longleftrightarrow> t \<in> {VAL, PTR_NULL, PTR_INT, ADDR_NULL, ADDR_INT}"

definition IsZeroOrOne :: "tagged_type \<Rightarrow> bool" where
  "IsZeroOrOne t = (case t of INTEGER m \<Rightarrow> m_known m = - 1 \<and> (m_value m = 0 \<or> m_value m = 1) | _ \<Rightarrow> False)"

definition IsNonZero :: "tagged_type \<Rightarrow> bool" where
  "IsNonZero t = (case t of
       UNKNOWN \<Rightarrow> False
     | UNDEF \<Rightarrow> False
     | PTR_NULL \<Rightarrow> False
     | ADDR_NULL \<Rightarrow> False
     | PTR_INT \<Rightarrow> False
     | ADDR_INT \<Rightarrow> False
     | INTEGER m \<Rightarrow> m_value m \<noteq> 0
     | _ \<Rightarrow> True)"

definition ToInteger :: "tagged_type \<Rightarrow> tagged_type" where
  "ToInteger t = (case t of
       UNKNOWN \<Rightarrow> t
     | UNDEF \<Rightarrow> t
     | INTEGER _ \<Rightarrow> t
     | YOUNG \<Rightarrow> AnyInt
     | HEAP \<Rightarrow> AnyInt
     | HEAP_OFF \<Rightarrow> AnyInt
     | PTR \<Rightarrow> AnyInt
     | ADDR \<Rightarrow> AnyInt
     | FUNC \<Rightarrow> AnyInt
     | VAL \<Rightarrow> Odd
     | PTR_NULL \<Rightarrow> Zero
     | ADDR_NULL \<Rightarrow> Zero
     | PTR_INT \<Rightarrow> AnyInt
     | ADDR_INT \<Rightarrow> AnyInt)"

definition ToPointer :: "tagged_type \<Rightarrow> tagged_type" where
  "ToPointer t = (case t of
       INTEGER _ \<Rightarrow> PTR
     | VAL \<Rightarrow> HEAP
     | ADDR_NULL \<Rightarrow> ADDR
     | ADDR_INT \<Rightarrow> ADDR
     | PTR_NULL \<Rightarrow> PTR
     | PTR_INT \<Rightarrow> PTR
     | _ \<Rightarrow> t)"

definition show_tagged :: "tagged_type \<Rightarrow> string" where
  "show_tagged t = (case t of
       UNKNOWN \<Rightarrow> ''unknown''
     | HEAP \<Rightarrow> ''heap''
     | HEAP_OFF \<Rightarrow> ''heap_off''
     | YOUNG \<Rightarrow> ''young''
     | UNDEF \<Rightarrow> ''undef''
     | VAL \<Rightarrow> ''val''
     | PTR \<Rightarrow> ''ptr''
     | PTR_INT \<Rightarrow> ''ptr|int''
     | PTR_NULL \<Rightarrow> ''ptr|null''
     | ADDR_INT \<Rightarrow> ''addr|int''
     | ADDR_NULL \<Rightarrow> ''addr|null''
     | ADDR \<Rightarrow> ''addr''
     | FUNC \<Rightarrow> ''func''
     | INTEGER m \<Rightarrow> show_masked m)"

definition tagged_eq :: "tagged_type \<Rightarrow> tagged_type \<Rightarrow> bool" where
  "tagged_eq s t = (case (s, t) of
       (INTEGER m, INTEGER n) \<Rightarrow> m_value m = m_value n \<and> m_known m = m_known n
     | _ \<Rightarrow> s = t)"

subsection \<open>The order\<close>

definition TagLessInt :: "masked_type \<Rightarrow> tagged_type \<Rightarrow> bool" where
  "TagLessInt m that = (case that of
       INTEGER n \<Rightarrow>
         (if m = n then False
          else m_known n AND m_known m = m_known n \<and> m_value n AND m_known n = m_value m AND m_known n)
     | PTR_NULL \<Rightarrow> m_known m = - 1 \<and> m_value m = 0
     | ADDR_NULL \<Rightarrow> m_known m = - 1 \<and> m_value m = 0
     | PTR_INT \<Rightarrow> True
     | ADDR_INT \<Rightarrow> True
     | VAL \<Rightarrow> m_known m AND 1 = 1 \<and> m_value m AND 1 = 1
     | _ \<Rightarrow> False)"

definition TagLess :: "tagged_type \<Rightarrow> tagged_type \<Rightarrow> bool" where
  "TagLess s t = (case s of
       UNKNOWN \<Rightarrow> t \<noteq> UNKNOWN
     | INTEGER m \<Rightarrow> TagLessInt m t
     | VAL \<Rightarrow> t \<in> {PTR, PTR_INT, ADDR_INT}
     | HEAP \<Rightarrow> t \<in> {VAL, HEAP_OFF, PTR, PTR_NULL, PTR_INT, ADDR, ADDR_NULL, ADDR_INT}
     | YOUNG \<Rightarrow> t \<in> {HEAP, VAL, PTR, PTR_INT}
     | HEAP_OFF \<Rightarrow> t \<in> {HEAP, VAL, PTR, PTR_NULL, PTR_INT, ADDR, ADDR_NULL, ADDR_INT}
     | PTR \<Rightarrow> t \<in> {PTR_INT, PTR_NULL}
     | PTR_INT \<Rightarrow> False
     | ADDR \<Rightarrow> t \<in> {PTR, PTR_INT, PTR_NULL, ADDR_INT, ADDR_NULL}
     | ADDR_NULL \<Rightarrow> t \<in> {PTR, PTR_INT, ADDR_INT, ADDR_NULL}
     | ADDR_INT \<Rightarrow> t = PTR_INT
     | UNDEF \<Rightarrow> t \<noteq> UNKNOWN \<and> t \<noteq> UNDEF
     | PTR_NULL \<Rightarrow> t = PTR_INT
     | FUNC \<Rightarrow> t \<in> {PTR, PTR_INT, VAL, HEAP, HEAP_OFF, YOUNG})"

definition TagLe :: "tagged_type \<Rightarrow> tagged_type \<Rightarrow> bool" where
  "TagLe s t \<longleftrightarrow> tagged_eq s t \<or> TagLess s t"

subsection \<open>The least upper bound\<close>

text \<open>The bits on which two masked integers are known and equal.\<close>

definition MaskLUBKnown :: "masked_type \<Rightarrow> masked_type \<Rightarrow> 64 word" where
  "MaskLUBKnown ml mr = NOT (m_value ml XOR m_value mr) AND m_known ml AND m_known mr"

definition TagLUBInt :: "masked_type \<Rightarrow> tagged_type \<Rightarrow> tagged_type result" where
  "TagLUBInt ml that = (case that of
       UNDEF \<Rightarrow> returns (INTEGER ml)
     | UNKNOWN \<Rightarrow> returns (INTEGER ml)
     | VAL \<Rightarrow> (if IsOdd (INTEGER ml) then returns VAL else returns PTR_INT)
     | HEAP \<Rightarrow> (if IsOdd (INTEGER ml) then returns VAL else returns PTR_INT)
     | PTR_INT \<Rightarrow> returns PTR_INT
     | PTR \<Rightarrow> (if IsZero (INTEGER ml) then returns PTR_NULL else returns PTR_INT)
     | PTR_NULL \<Rightarrow> (if IsZero (INTEGER ml) then returns PTR_NULL else returns PTR_INT)
     | ADDR_INT \<Rightarrow> returns ADDR_INT
     | ADDR \<Rightarrow> (if IsZero (INTEGER ml) then returns ADDR_NULL else returns ADDR_INT)
     | ADDR_NULL \<Rightarrow> (if IsZero (INTEGER ml) then returns ADDR_NULL else returns ADDR_INT)
     | YOUNG \<Rightarrow> (if IsOdd (INTEGER ml) then returns VAL else returns PTR_INT)
     | INTEGER mr \<Rightarrow> returns (INTEGER (masked (m_value ml AND MaskLUBKnown ml mr) (MaskLUBKnown ml mr)))
     | FUNC \<Rightarrow> returns PTR_INT
     | _ \<Rightarrow> unreachable)"

definition TagLUBVal :: "tagged_type \<Rightarrow> tagged_type result" where
  "TagLUBVal that = (case that of
       UNDEF \<Rightarrow> returns VAL
     | UNKNOWN \<Rightarrow> returns VAL
     | VAL \<Rightarrow> returns VAL
     | HEAP \<Rightarrow> returns VAL
     | HEAP_OFF \<Rightarrow> returns VAL
     | YOUNG \<Rightarrow> returns VAL
     | PTR \<Rightarrow> returns PTR_INT
     | PTR_INT \<Rightarrow> returns PTR_INT
     | PTR_NULL \<Rightarrow> returns PTR_INT
     | ADDR \<Rightarrow> returns ADDR_INT
     | ADDR_INT \<Rightarrow> returns ADDR_INT
     | ADDR_NULL \<Rightarrow> returns ADDR_INT
     | INTEGER mr \<Rightarrow> (if IsOdd (INTEGER mr) then returns VAL else returns PTR_INT)
     | _ \<Rightarrow> unreachable)"

definition TagLUBHeap :: "tagged_type \<Rightarrow> tagged_type result" where
  "TagLUBHeap that = (case that of
       UNDEF \<Rightarrow> returns HEAP
     | UNKNOWN \<Rightarrow> returns HEAP
     | HEAP \<Rightarrow> returns HEAP
     | YOUNG \<Rightarrow> returns HEAP
     | HEAP_OFF \<Rightarrow> returns HEAP_OFF
     | PTR \<Rightarrow> returns PTR_INT
     | VAL \<Rightarrow> returns VAL
     | PTR_INT \<Rightarrow> returns PTR_INT
     | PTR_NULL \<Rightarrow> returns PTR_NULL
     | ADDR \<Rightarrow> returns ADDR
     | ADDR_INT \<Rightarrow> returns PTR_INT
     | ADDR_NULL \<Rightarrow> returns PTR_NULL
     | INTEGER mr \<Rightarrow> (if IsOdd (INTEGER mr) then returns VAL else returns PTR_INT)
     | _ \<Rightarrow> unreachable)"

definition TagLUBPtr :: "tagged_type \<Rightarrow> tagged_type result" where
  "TagLUBPtr that = (case that of
       UNDEF \<Rightarrow> returns PTR
     | UNKNOWN \<Rightarrow> returns PTR
     | HEAP \<Rightarrow> returns PTR
     | PTR \<Rightarrow> returns PTR
     | YOUNG \<Rightarrow> returns PTR
     | HEAP_OFF \<Rightarrow> returns PTR
     | INTEGER mr \<Rightarrow> (if IsZero (INTEGER mr) then returns PTR_NULL else returns PTR_INT)
     | VAL \<Rightarrow> returns PTR_INT
     | PTR_INT \<Rightarrow> returns PTR_INT
     | PTR_NULL \<Rightarrow> returns PTR_NULL
     | ADDR \<Rightarrow> returns PTR
     | ADDR_INT \<Rightarrow> returns PTR_INT
     | ADDR_NULL \<Rightarrow> returns PTR_NULL
     | FUNC \<Rightarrow> returns PTR)"

definition TagLUBPtrNull :: "tagged_type \<Rightarrow> tagged_type result" where
  "TagLUBPtrNull that = (case that of
       UNKNOWN \<Rightarrow> returns PTR_NULL
     | PTR \<Rightarrow> returns PTR_NULL
     | PTR_NULL \<Rightarrow> returns PTR_NULL
     | PTR_INT \<Rightarrow> returns PTR_INT
     | VAL \<Rightarrow> returns PTR_INT
     | HEAP \<Rightarrow> returns PTR_NULL
     | UNDEF \<Rightarrow> returns PTR_NULL
     | INTEGER mr \<Rightarrow> (if IsZero (INTEGER mr) then returns PTR_NULL else returns PTR_INT)
     | ADDR \<Rightarrow> returns PTR_NULL
     | ADDR_INT \<Rightarrow> returns PTR_INT
     | ADDR_NULL \<Rightarrow> returns PTR_NULL
     | _ \<Rightarrow> unreachable)"

definition TagLUBAddr :: "tagged_type \<Rightarrow> tagged_type result" where
  "TagLUBAddr that = (case that of
       UNKNOWN \<Rightarrow> returns ADDR
     | PTR \<Rightarrow> returns PTR
     | PTR_NULL \<Rightarrow> returns PTR_NULL
     | PTR_INT \<Rightarrow> returns PTR_INT
     | VAL \<Rightarrow> returns ADDR_INT
     | HEAP \<Rightarrow> returns ADDR
     | HEAP_OFF \<Rightarrow> returns ADDR
     | INTEGER _ \<Rightarrow> returns ADDR_INT
     | ADDR \<Rightarrow> returns ADDR
     | ADDR_INT \<Rightarrow> returns ADDR_INT
     | ADDR_NULL \<Rightarrow> returns ADDR_NULL
     | _ \<Rightarrow> unreachable)"

definition TagLUBAddrInt :: "tagged_type \<Rightarrow> tagged_type result" where
  "TagLUBAddrInt that = (case that of
       UNKNOWN \<Rightarrow> returns ADDR_INT
     | UNDEF \<Rightarrow> returns ADDR_INT
     | PTR \<Rightarrow> returns PTR_INT
     | PTR_NULL \<Rightarrow> returns PTR_INT
     | PTR_INT \<Rightarrow> returns PTR_INT
     | VAL \<Rightarrow> returns ADDR_INT
     | HEAP \<Rightarrow> returns ADDR_INT
     | HEAP_OFF \<Rightarrow> returns ADDR_INT
     | INTEGER _ \<Rightarrow> returns ADDR_INT
     | ADDR \<Rightarrow> returns ADDR_INT
     | ADDR_INT \<Rightarrow> returns ADDR_INT
     | ADDR_NULL \<Rightarrow> returns ADDR_INT
     | _ \<Rightarrow> unreachable)"

definition TagLUBYoung :: "tagged_type \<Rightarrow> tagged_type result" where
  "TagLUBYoung that = (case that of
       UNKNOWN \<Rightarrow> returns YOUNG
     | YOUNG \<Rightarrow> returns YOUNG
     | PTR \<Rightarrow> returns PTR
     | PTR_INT \<Rightarrow> returns PTR_INT
     | HEAP \<Rightarrow> returns HEAP
     | VAL \<Rightarrow> returns VAL
     | INTEGER _ \<Rightarrow> returns PTR_INT
     | ADDR \<Rightarrow> returns PTR
     | ADDR_INT \<Rightarrow> returns PTR_INT
     | ADDR_NULL \<Rightarrow> returns PTR_NULL
     | _ \<Rightarrow> unreachable)"

definition TagLUBHeapOff :: "tagged_type \<Rightarrow> tagged_type result" where
  "TagLUBHeapOff that = (case that of
       UNKNOWN \<Rightarrow> returns HEAP_OFF
     | YOUNG \<Rightarrow> returns HEAP_OFF
     | HEAP_OFF \<Rightarrow> returns HEAP_OFF
     | PTR \<Rightarrow> returns PTR
     | PTR_INT \<Rightarrow> returns PTR_INT
     | HEAP \<Rightarrow> returns HEAP_OFF
     | VAL \<Rightarrow> returns VAL
     | ADDR \<Rightarrow> returns ADDR
     | ADDR_INT \<Rightarrow> returns ADDR_INT
     | _ \<Rightarrow> unreachable)"

definition TagLUBFunc :: "tagged_type \<Rightarrow> tagged_type result" where
  "TagLUBFunc that = (case that of
       UNKNOWN \<Rightarrow> returns FUNC
     | UNDEF \<Rightarrow> returns FUNC
     | YOUNG \<Rightarrow> returns YOUNG
     | HEAP_OFF \<Rightarrow> returns HEAP_OFF
     | PTR \<Rightarrow> returns PTR
     | PTR_INT \<Rightarrow> returns PTR_INT
     | HEAP \<Rightarrow> returns HEAP
     | VAL \<Rightarrow> returns VAL
     | INTEGER _ \<Rightarrow> returns PTR_INT
     | PTR_NULL \<Rightarrow> returns PTR_NULL
     | ADDR \<Rightarrow> returns PTR
     | ADDR_INT \<Rightarrow> returns PTR_INT
     | ADDR_NULL \<Rightarrow> returns PTR_NULL
     | FUNC \<Rightarrow> returns FUNC)"

definition TagLUB :: "tagged_type \<Rightarrow> tagged_type \<Rightarrow> tagged_type result" where
  "TagLUB this that = (case this of
       UNKNOWN \<Rightarrow> returns that
     | UNDEF \<Rightarrow> (if IsUnknown that then returns UNDEF else returns that)
     | INTEGER ml \<Rightarrow> TagLUBInt ml that
     | VAL \<Rightarrow> TagLUBVal that
     | HEAP \<Rightarrow> TagLUBHeap that
     | PTR \<Rightarrow> TagLUBPtr that
     | PTR_INT \<Rightarrow> returns PTR_INT
     | PTR_NULL \<Rightarrow> TagLUBPtrNull that
     | ADDR \<Rightarrow> TagLUBAddr that
     | ADDR_INT \<Rightarrow> TagLUBAddrInt that
     | ADDR_NULL \<Rightarrow> unreachable
     | YOUNG \<Rightarrow> TagLUBYoung that
     | HEAP_OFF \<Rightarrow> TagLUBHeapOff that
     | FUNC \<Rightarrow> TagLUBFunc that)"

lemmas TagLUB_rows = TagLUBInt_def TagLUBVal_def TagLUBHeap_def TagLUBPtr_def TagLUBPtrNull_def
  TagLUBAddr_def TagLUBAddrInt_def TagLUBYoung_def TagLUBHeapOff_def TagLUBFunc_def

lemma tagged_eq_eq: "tagged_eq s t \<longleftrightarrow> s = t"
  by (cases s; cases t) (auto simp: tagged_eq_def)

subsection \<open>What a type stands for\<close>

text \<open>
  A run-time value is an integer, or a pointer to code, to an object of the minor heap, to one of the
  major heap, into an object, or anywhere. Code pointers are below every other pointer in the order.
\<close>

datatype tag_value =
    IntV "64 word"
  | FuncV "64 word"
  | YoungV "64 word"
  | HeapV "64 word"
  | AddrV "64 word"
  | PtrV "64 word"

fun bits_of :: "tag_value \<Rightarrow> 64 word" where
  "bits_of (IntV x) = x"
| "bits_of (FuncV x) = x"
| "bits_of (YoungV x) = x"
| "bits_of (HeapV x) = x"
| "bits_of (AddrV x) = x"
| "bits_of (PtrV x) = x"

definition in_heap :: "tag_value \<Rightarrow> bool" where
  "in_heap v = (case v of FuncV _ \<Rightarrow> True | YoungV _ \<Rightarrow> True | HeapV _ \<Rightarrow> True | _ \<Rightarrow> False)"

definition in_object :: "tag_value \<Rightarrow> bool" where
  "in_object v \<longleftrightarrow> in_heap v \<or> (\<exists>x. v = AddrV x)"

definition is_int :: "(64 word \<Rightarrow> bool) \<Rightarrow> tag_value \<Rightarrow> bool" where
  "is_int P v = (case v of IntV x \<Rightarrow> P x | _ \<Rightarrow> False)"

definition denotes :: "tagged_type \<Rightarrow> tag_value \<Rightarrow> bool" where
  "denotes t v = (case t of
       UNKNOWN \<Rightarrow> False
     | UNDEF \<Rightarrow> False
     | INTEGER m \<Rightarrow> is_int (fits m) v
     | FUNC \<Rightarrow> (\<exists>x. v = FuncV x)
     | YOUNG \<Rightarrow> (\<exists>x. v = FuncV x \<or> v = YoungV x)
     | HEAP \<Rightarrow> in_heap v
     | HEAP_OFF \<Rightarrow> in_heap v
     | ADDR \<Rightarrow> in_object v
     | ADDR_NULL \<Rightarrow> in_object v \<or> v = IntV 0
     | ADDR_INT \<Rightarrow> in_object v \<or> is_int (\<lambda>_. True) v
     | VAL \<Rightarrow> in_heap v \<or> is_int (\<lambda>x. bit x 0) v
     | PTR \<Rightarrow> \<not> is_int (\<lambda>_. True) v
     | PTR_NULL \<Rightarrow> \<not> is_int (\<lambda>_. True) v \<or> v = IntV 0
     | PTR_INT \<Rightarrow> True)"

lemmas value_sets = denotes_def in_object_def in_heap_def is_int_def

lemma and_one_bit: "w AND 1 = 1 \<longleftrightarrow> bit w 0" "w AND 1 = 0 \<longleftrightarrow> \<not> bit w 0" for w :: "64 word"
  by (simp_all add: and_one_eq odd_iff_mod_2_eq_one bit_0)

lemma IsOdd_fits: "IsOdd (INTEGER m) \<Longrightarrow> fits m x \<Longrightarrow> bit x 0"
  using fits_bits[of m x 0] by (simp add: IsOdd_def and_one_bit)

lemma IsEven_fits: "IsEven (INTEGER m) \<Longrightarrow> fits m x \<Longrightarrow> \<not> bit x 0"
  using fits_bits[of m x 0] by (auto simp: IsEven_def and_one_bit)

lemma IsZero_fits: "IsZero (INTEGER m) \<Longrightarrow> fits m x \<Longrightarrow> x = 0"
  by (simp add: IsZero_def fits_def)

lemma MaskLUB_fits:
  assumes "fits m x \<or> fits n x"
  shows "fits (masked (m_value m AND MaskLUBKnown m n) (MaskLUBKnown m n)) x"
  using assms fits_bits[of m x] fits_bits[of n x]
  by (auto simp: fits_masked MaskLUBKnown_def bit_simps)

definition tag_ok :: "tagged_type \<Rightarrow> bool" where
  "tag_ok t = (case t of INTEGER m \<Rightarrow> masked_ok m | _ \<Rightarrow> True)"

lemma TagLessInt_simps:
  "TagLessInt m PTR_INT" "TagLessInt m ADDR_INT" "TagLessInt m VAL = IsOdd (INTEGER m)"
  "TagLessInt m PTR_NULL = IsZero (INTEGER m)" "TagLessInt m ADDR_NULL = IsZero (INTEGER m)"
  by (auto simp: TagLessInt_def IsOdd_def IsZero_def)

lemma TagLessInt_INTEGER:
  assumes "TagLessInt m (INTEGER n)" "fits m x" "masked_ok n"
  shows "fits n x"
proof -
  have k: "m_known n AND m_known m = m_known n" "m_value n AND m_known n = m_value m AND m_known n" "m \<noteq> n"
    using assms(1) by (auto simp: TagLessInt_def split: if_splits)
  have "x AND m_known n = x AND (m_known n AND m_known m)" by (simp only: k(1))
  also have "\<dots> = (x AND m_known m) AND m_known n" by (simp only: ac_simps)
  also have "\<dots> = m_value n AND m_known n" using assms(2) k(2) by (simp add: fits_def)
  finally have "x AND m_known n = m_value n AND m_known n" .
  moreover have "m_value n AND m_known n = m_value n" using assms(3) by (simp add: masked_ok_def)
  ultimately show ?thesis by (simp add: fits_def)
qed

lemma fits_any: "fits (masked 0 0) x" "fits (masked 1 1) x \<longleftrightarrow> bit x 0" "fits (masked 0 1) x \<longleftrightarrow> \<not> bit x 0"
  by (simp_all add: fits_masked bit_1_iff)

lemma MaskLUB_above:
  assumes "masked_ok m" "masked_ok n" "k = MaskLUBKnown m n"
  shows "INTEGER m = INTEGER (masked (m_value m AND k) k) \<or> TagLessInt m (INTEGER (masked (m_value m AND k) k))"
    and "INTEGER n = INTEGER (masked (m_value m AND k) k) \<or> TagLessInt n (INTEGER (masked (m_value m AND k) k))"
  by (auto simp: TagLessInt_def masked_def assms(3) MaskLUBKnown_def bit_eq_iff bit_simps)

lemma TagLUB_denotes:
  assumes "TagLUB s t = returns u" "denotes s v \<or> denotes t v"
  shows "denotes u v"
  using assms
  by (cases s; cases t) (auto simp: TagLUB_def TagLUB_rows value_sets IsUnknown_def MaskLUB_fits
      dest: IsOdd_fits IsZero_fits split: if_splits tag_value.splits)

subsection \<open>Properties\<close>

text \<open>
  C8: the least upper bound of two types stands for every value that either of them stands for, in
  every combination the code implements.
\<close>

theorem TagLUB_sound:
  assumes "TagLUB s t = returns u" "denotes s v \<or> denotes t v"
  shows "denotes u v"
  by (rule TagLUB_denotes[OF assms])

theorem TagLUB_sound_witness:
  "denotes VAL (IntV 3)"
proof (rule TagLUB_sound)
  show "TagLUB Odd HEAP = returns VAL"
    by (simp add: TagLUB_def TagLUB_rows Odd_def IsOdd_def masked_def)
  show "denotes Odd (IntV 3) \<or> denotes HEAP (IntV 3)"
    by (simp add: denotes_def Odd_def is_int_def fits_def masked_def)
qed

text \<open>
  the order of the types is the inclusion of the values they stand for, with two exceptions: the
  code puts OCaml values, which may be odd integers, and null below the non-null pointers.
\<close>

theorem TagLess_inclusion:
  assumes "TagLe s t" "denotes s v" "tag_ok t"
  shows "denotes t v \<or> s = VAL \<and> t = PTR \<or> s = ADDR_NULL \<and> t = PTR"
proof (cases "s = t")
  case False
  then have less: "TagLess s t" using assms(1) by (simp add: TagLe_def tagged_eq_eq)
  show ?thesis
  proof (cases s)
    case (INTEGER m)
    then obtain x where x: "v = IntV x" "fits m x"
      using assms(2) by (auto simp: denotes_def is_int_def split: tag_value.splits)
    show ?thesis
      using less INTEGER x TagLessInt_INTEGER[of m _ x] IsOdd_fits[of m x] IsZero_fits[of m x] assms(3)
      by (cases t) (auto simp: TagLess_def TagLessInt_simps value_sets tag_ok_def, auto simp: TagLessInt_def)
  qed (use less assms(2) False in \<open>auto simp: TagLess_def value_sets split: tag_value.splits\<close>)
qed (use assms(2) in simp)

theorem TagLess_inclusion_witness:
  "denotes ADDR (HeapV 8) \<and> TagLe ADDR_NULL PTR \<and> denotes ADDR_NULL (IntV 0) \<and> \<not> denotes PTR (IntV 0)"
proof -
  have "TagLe HEAP ADDR" "denotes HEAP (HeapV 8)" "tag_ok ADDR"
    by (simp_all add: TagLe_def TagLess_def denotes_def in_heap_def tag_ok_def)
  then have "denotes ADDR (HeapV 8)" using TagLess_inclusion[of HEAP ADDR "HeapV 8"] by simp
  then show ?thesis by (simp add: TagLe_def TagLess_def value_sets)
qed

text \<open>
  the least upper bound is above both arguments in the order the analysis compares types with,
  except that null pointers of unknown kind and heap offsets are not put above some of their arguments.
\<close>

theorem TagLUB_upper_bound:
  assumes "tag_ok s" "tag_ok t" "TagLUB s t = returns u"
  shows "(TagLe s u \<or> s \<in> {FUNC, YOUNG} \<and> t \<in> {ADDR_NULL, PTR_NULL} \<and> u = PTR_NULL) \<and>
    (TagLe t u \<or> t = ADDR_NULL \<and> u = PTR_NULL \<or> t = YOUNG \<and> u = HEAP_OFF)"
proof (cases "\<exists>m n. s = INTEGER m \<and> t = INTEGER n")
  case True
  then obtain m n where st: "s = INTEGER m" "t = INTEGER n" by blast
  then show ?thesis
    using assms MaskLUB_above[of m n "MaskLUBKnown m n"]
    by (simp add: TagLUB_def TagLUBInt_def TagLe_def tagged_eq_eq TagLess_def tag_ok_def)
next
  case False
  then show ?thesis
    using assms(3)
    by (cases s; cases t) (auto simp: TagLUB_def TagLUB_rows TagLe_def tagged_eq_eq IsUnknown_def TagLess_def
        TagLessInt_simps split: if_splits)
qed

theorem TagLUB_upper_bound_witness:
  "TagLe VAL PTR_INT \<and> TagLe PTR PTR_INT"
  using TagLUB_upper_bound[of VAL PTR PTR_INT]
  by (simp add: tag_ok_def TagLUB_def TagLUBVal_def)

text \<open>an integer of a union type has the integer part of the type, a pointer the pointer part.\<close>

theorem union_parts:
  assumes "denotes t v"
  shows "denotes (if is_int (\<lambda>_. True) v then ToInteger t else ToPointer t) v"
  using assms
  by (cases t; cases v) (auto simp: ToInteger_def ToPointer_def value_sets AnyInt_def Odd_def Zero_def Const_def
      fits_any fits_const)

theorem union_parts_witness: "denotes Odd (IntV 7) \<and> denotes HEAP (HeapV 16)"
  using union_parts[of VAL "IntV 7"] union_parts[of VAL "HeapV 16"]
  by (simp add: value_sets ToInteger_def ToPointer_def)

text \<open>
  the order is not a partial order: a heap pointer and a heap offset are below each other, and the
  type of a null or in-object pointer is strictly below itself.
\<close>

theorem TagLess_cycles:
  "TagLess HEAP HEAP_OFF \<and> TagLess HEAP_OFF HEAP \<and> TagLess ADDR_NULL ADDR_NULL"
  by (simp add: TagLess_def)

end
