(* ===== verification/TagStep.thy ===== *)
theory TagStep
  imports TaggedType Types
begin

text \<open>
  The transfer functions of the OCaml tag analysis: the tables of \<^verbatim>\<open>passes/tags/eval/*.cpp\<close>, row by
  row, and the visitors of \<^verbatim>\<open>passes/tags/step.cpp\<close> that apply them, as the type an instruction is marked
  with (\<open>None\<close> when the visitor returns without a mark). A combination that ends in
  \<^verbatim>\<open>llvm_unreachable\<close> is \<open>Inl Unreachable\<close>. The pointer type of the target is a parameter, \<open>None\<close>
  when there is no target; \<open>tz\<close> is the library routine that counts trailing zeros.
\<close>

subsection \<open>Binary operations\<close>

text \<open>Whether a mask is known to clear one of the bits above a page.\<close>

definition ClearsPage :: "masked_type \<Rightarrow> bool" where
  "ClearsPage m \<longleftrightarrow> m_known m AND push_bit 12 (- 1) AND NOT (m_value m) \<noteq> 0"

definition StepAddVal :: "tagged_type \<Rightarrow> tagged_type result" where
  "StepAddVal vr = (case vr of
       UNKNOWN \<Rightarrow> returns UNKNOWN
     | VAL \<Rightarrow> returns ADDR_INT
     | PTR_INT \<Rightarrow> returns PTR_INT
     | INTEGER _ \<Rightarrow> returns ADDR_INT
     | ADDR_INT \<Rightarrow> returns ADDR_INT
     | _ \<Rightarrow> unreachable)"

definition StepAddHeap :: "tagged_type \<Rightarrow> tagged_type result" where
  "StepAddHeap vr = (case vr of
       UNKNOWN \<Rightarrow> returns UNKNOWN
     | VAL \<Rightarrow> returns PTR
     | PTR_INT \<Rightarrow> returns PTR
     | INTEGER mr \<Rightarrow> (if IsAligned mr then returns HEAP_OFF else returns ADDR)
     | _ \<Rightarrow> unreachable)"

definition StepAddPtr :: "tagged_type \<Rightarrow> tagged_type result" where
  "StepAddPtr vr = (case vr of
       UNKNOWN \<Rightarrow> returns UNKNOWN
     | PTR \<Rightarrow> returns PTR
     | PTR_INT \<Rightarrow> returns PTR
     | PTR_NULL \<Rightarrow> returns PTR_INT
     | INTEGER _ \<Rightarrow> returns PTR
     | _ \<Rightarrow> unreachable)"

definition StepAddYoung :: "tagged_type \<Rightarrow> tagged_type result" where
  "StepAddYoung vr = (case vr of
       UNKNOWN \<Rightarrow> returns UNKNOWN
     | INTEGER mr \<Rightarrow> (if IsAligned mr then returns HEAP_OFF else returns ADDR)
     | _ \<Rightarrow> unreachable)"

definition StepAddHeapOff :: "tagged_type \<Rightarrow> tagged_type result" where
  "StepAddHeapOff vr = (case vr of
       UNKNOWN \<Rightarrow> returns UNKNOWN
     | INTEGER mr \<Rightarrow> (if IsAligned mr then returns HEAP_OFF else returns ADDR)
     | _ \<Rightarrow> unreachable)"

definition StepAddPtrInt :: "tagged_type \<Rightarrow> tagged_type result" where
  "StepAddPtrInt vr = (case vr of
       UNKNOWN \<Rightarrow> returns UNKNOWN
     | PTR \<Rightarrow> returns PTR_INT
     | VAL \<Rightarrow> returns PTR_INT
     | HEAP \<Rightarrow> returns PTR
     | PTR_INT \<Rightarrow> returns PTR_INT
     | PTR_NULL \<Rightarrow> returns PTR_INT
     | INTEGER _ \<Rightarrow> returns PTR_INT
     | ADDR_INT \<Rightarrow> returns PTR_INT
     | _ \<Rightarrow> unreachable)"

definition StepAddPtrNull :: "tagged_type \<Rightarrow> tagged_type result" where
  "StepAddPtrNull vr = (case vr of
       UNKNOWN \<Rightarrow> returns UNKNOWN
     | PTR_INT \<Rightarrow> returns PTR_INT
     | INTEGER _ \<Rightarrow> returns PTR_INT
     | _ \<Rightarrow> unreachable)"

definition StepAddInt :: "(64 word \<Rightarrow> nat) \<Rightarrow> masked_type \<Rightarrow> tagged_type \<Rightarrow> tagged_type result" where
  "StepAddInt tz ml vr = (case vr of
       UNKNOWN \<Rightarrow> returns UNKNOWN
     | INTEGER mr \<Rightarrow> returns (INTEGER (MaskAdd tz ml mr))
     | PTR \<Rightarrow> returns PTR
     | VAL \<Rightarrow> returns ADDR_INT
     | HEAP \<Rightarrow> returns PTR
     | PTR_INT \<Rightarrow> returns PTR_INT
     | PTR_NULL \<Rightarrow> returns PTR_INT
     | ADDR \<Rightarrow> returns ADDR_INT
     | ADDR_INT \<Rightarrow> returns ADDR_INT
     | _ \<Rightarrow> unreachable)"

definition StepAddAddr :: "tagged_type \<Rightarrow> tagged_type result" where
  "StepAddAddr vr = (case vr of
       UNKNOWN \<Rightarrow> returns UNKNOWN
     | INTEGER _ \<Rightarrow> returns ADDR
     | PTR \<Rightarrow> returns PTR_INT
     | VAL \<Rightarrow> returns PTR_INT
     | HEAP \<Rightarrow> returns PTR_INT
     | PTR_INT \<Rightarrow> returns PTR_INT
     | PTR_NULL \<Rightarrow> returns PTR_INT
     | _ \<Rightarrow> unreachable)"

definition StepAddAddrInt :: "tagged_type \<Rightarrow> tagged_type result" where
  "StepAddAddrInt vr = (case vr of
       UNKNOWN \<Rightarrow> returns UNKNOWN
     | INTEGER _ \<Rightarrow> returns ADDR_INT
     | PTR \<Rightarrow> returns PTR_INT
     | VAL \<Rightarrow> returns ADDR_INT
     | HEAP \<Rightarrow> returns ADDR_INT
     | PTR_INT \<Rightarrow> returns PTR_INT
     | PTR_NULL \<Rightarrow> returns PTR_INT
     | ADDR_INT \<Rightarrow> returns ADDR_INT
     | _ \<Rightarrow> unreachable)"

definition StepAdd :: "(64 word \<Rightarrow> nat) \<Rightarrow> tagged_type \<Rightarrow> tagged_type \<Rightarrow> tagged_type result" where
  "StepAdd tz vl vr = (case vl of
       UNKNOWN \<Rightarrow> returns UNKNOWN
     | VAL \<Rightarrow> StepAddVal vr
     | HEAP \<Rightarrow> StepAddHeap vr
     | PTR \<Rightarrow> StepAddPtr vr
     | YOUNG \<Rightarrow> StepAddYoung vr
     | HEAP_OFF \<Rightarrow> StepAddHeapOff vr
     | UNDEF \<Rightarrow> (if IsUnknown vr then returns vr else returns UNDEF)
     | PTR_INT \<Rightarrow> StepAddPtrInt vr
     | PTR_NULL \<Rightarrow> StepAddPtrNull vr
     | INTEGER ml \<Rightarrow> StepAddInt tz ml vr
     | ADDR \<Rightarrow> StepAddAddr vr
     | ADDR_INT \<Rightarrow> StepAddAddrInt vr
     | ADDR_NULL \<Rightarrow> unreachable
     | FUNC \<Rightarrow> unreachable)"

definition StepSubInt :: "(64 word \<Rightarrow> nat) \<Rightarrow> masked_type \<Rightarrow> tagged_type \<Rightarrow> tagged_type result" where
  "StepSubInt tz ml vr = (case vr of
       UNKNOWN \<Rightarrow> returns UNKNOWN
     | VAL \<Rightarrow> returns AnyInt
     | HEAP \<Rightarrow> returns AnyInt
     | PTR \<Rightarrow> returns AnyInt
     | PTR_INT \<Rightarrow> returns AnyInt
     | PTR_NULL \<Rightarrow> returns AnyInt
     | ADDR \<Rightarrow> returns AnyInt
     | ADDR_INT \<Rightarrow> returns AnyInt
     | INTEGER mr \<Rightarrow> returns (INTEGER (MaskSub tz ml mr))
     | _ \<Rightarrow> unreachable)"

definition StepSubVal :: "tagged_type \<Rightarrow> tagged_type result" where
  "StepSubVal vr = (case vr of
       UNKNOWN \<Rightarrow> returns UNKNOWN
     | VAL \<Rightarrow> returns ADDR_INT
     | INTEGER _ \<Rightarrow> returns ADDR_INT
     | HEAP \<Rightarrow> returns AnyInt
     | PTR_INT \<Rightarrow> returns ADDR_INT
     | ADDR_INT \<Rightarrow> returns ADDR_INT
     | _ \<Rightarrow> unreachable)"

definition StepSubHeap :: "tagged_type \<Rightarrow> tagged_type result" where
  "StepSubHeap vr = (case vr of
       UNKNOWN \<Rightarrow> returns UNKNOWN
     | INTEGER _ \<Rightarrow> returns ADDR
     | PTR_INT \<Rightarrow> returns ADDR_INT
     | VAL \<Rightarrow> returns PTR_INT
     | HEAP \<Rightarrow> returns AnyInt
     | PTR \<Rightarrow> returns AnyInt
     | ADDR \<Rightarrow> returns AnyInt
     | _ \<Rightarrow> unreachable)"

definition StepSubHeapOff :: "tagged_type \<Rightarrow> tagged_type result" where
  "StepSubHeapOff vr = (case vr of
       UNKNOWN \<Rightarrow> returns UNKNOWN
     | _ \<Rightarrow> unreachable)"

definition StepSubPtr :: "tagged_type \<Rightarrow> tagged_type result" where
  "StepSubPtr vr = (case vr of
       UNKNOWN \<Rightarrow> returns UNKNOWN
     | VAL \<Rightarrow> returns PTR_INT
     | HEAP \<Rightarrow> returns PTR_INT
     | PTR \<Rightarrow> returns AnyInt
     | UNDEF \<Rightarrow> returns UNDEF
     | PTR_INT \<Rightarrow> returns PTR_INT
     | PTR_NULL \<Rightarrow> returns PTR_INT
     | INTEGER _ \<Rightarrow> returns PTR
     | _ \<Rightarrow> unreachable)"

definition StepSubPtrInt :: "tagged_type \<Rightarrow> tagged_type result" where
  "StepSubPtrInt vr = (case vr of
       UNKNOWN \<Rightarrow> returns UNKNOWN
     | VAL \<Rightarrow> returns PTR_INT
     | HEAP \<Rightarrow> returns AnyInt
     | PTR \<Rightarrow> returns AnyInt
     | PTR_INT \<Rightarrow> returns PTR_INT
     | PTR_NULL \<Rightarrow> returns PTR_INT
     | INTEGER _ \<Rightarrow> returns PTR_INT
     | ADDR_INT \<Rightarrow> returns PTR_INT
     | _ \<Rightarrow> unreachable)"

definition StepSubPtrNull :: "tagged_type \<Rightarrow> tagged_type result" where
  "StepSubPtrNull vr = (case vr of
       UNKNOWN \<Rightarrow> returns UNKNOWN
     | INTEGER _ \<Rightarrow> returns PTR_INT
     | PTR \<Rightarrow> returns AnyInt
     | PTR_INT \<Rightarrow> returns PTR_INT
     | PTR_NULL \<Rightarrow> returns PTR_INT
     | _ \<Rightarrow> unreachable)"

definition StepSubAddr :: "tagged_type \<Rightarrow> tagged_type result" where
  "StepSubAddr vr = (case vr of
       UNKNOWN \<Rightarrow> returns UNKNOWN
     | INTEGER _ \<Rightarrow> returns ADDR
     | PTR \<Rightarrow> returns PTR
     | PTR_INT \<Rightarrow> returns ADDR_INT
     | _ \<Rightarrow> unreachable)"

definition StepSubAddrInt :: "tagged_type \<Rightarrow> tagged_type result" where
  "StepSubAddrInt vr = (case vr of
       UNKNOWN \<Rightarrow> returns UNKNOWN
     | INTEGER _ \<Rightarrow> returns ADDR_INT
     | PTR \<Rightarrow> returns PTR_INT
     | VAL \<Rightarrow> returns ADDR_INT
     | PTR_INT \<Rightarrow> returns PTR_INT
     | PTR_NULL \<Rightarrow> returns PTR_INT
     | ADDR_INT \<Rightarrow> returns ADDR_INT
     | _ \<Rightarrow> unreachable)"

definition StepSub :: "(64 word \<Rightarrow> nat) \<Rightarrow> tagged_type \<Rightarrow> tagged_type \<Rightarrow> tagged_type result" where
  "StepSub tz vl vr = (case vl of
       UNKNOWN \<Rightarrow> returns UNKNOWN
     | UNDEF \<Rightarrow> returns UNDEF
     | INTEGER ml \<Rightarrow> StepSubInt tz ml vr
     | VAL \<Rightarrow> StepSubVal vr
     | HEAP \<Rightarrow> StepSubHeap vr
     | HEAP_OFF \<Rightarrow> StepSubHeapOff vr
     | PTR \<Rightarrow> StepSubPtr vr
     | YOUNG \<Rightarrow> (if IsUnknown vr then returns vr else returns YOUNG)
     | PTR_INT \<Rightarrow> StepSubPtrInt vr
     | PTR_NULL \<Rightarrow> StepSubPtrNull vr
     | ADDR \<Rightarrow> StepSubAddr vr
     | ADDR_INT \<Rightarrow> StepSubAddrInt vr
     | ADDR_NULL \<Rightarrow> unreachable
     | FUNC \<Rightarrow> unreachable)"

definition StepAndInt :: "masked_type \<Rightarrow> tagged_type \<Rightarrow> tagged_type result" where
  "StepAndInt ml vr = (case vr of
       UNKNOWN \<Rightarrow> returns UNKNOWN
     | PTR \<Rightarrow> (if ClearsPage ml then returns AnyInt else returns ADDR_INT)
     | INTEGER mr \<Rightarrow> returns (INTEGER (MaskAnd ml mr))
     | ADDR_INT \<Rightarrow> (if ClearsPage ml then returns AnyInt else returns ADDR_INT)
     | PTR_INT \<Rightarrow> (if ClearsPage ml then returns AnyInt else returns PTR_INT)
     | VAL \<Rightarrow> (if ClearsPage ml then returns AnyInt else returns PTR_INT)
     | _ \<Rightarrow> unreachable)"

definition StepAndVal :: "tagged_type \<Rightarrow> tagged_type result" where
  "StepAndVal vr = (case vr of
       UNKNOWN \<Rightarrow> returns UNKNOWN
     | PTR_INT \<Rightarrow> returns PTR_INT
     | VAL \<Rightarrow> returns VAL
     | ADDR_INT \<Rightarrow> returns PTR_INT
     | INTEGER mr \<Rightarrow> returns (if AsConst mr = Some 1 then ZeroOne else if ClearsPage mr then AnyInt else PTR_INT)
     | _ \<Rightarrow> unreachable)"

definition StepAndHeapOff :: "tagged_type \<Rightarrow> tagged_type result" where
  "StepAndHeapOff vr = (case vr of
       UNKNOWN \<Rightarrow> returns UNKNOWN
     | _ \<Rightarrow> unreachable)"

definition StepAndHeap :: "tagged_type \<Rightarrow> tagged_type result" where
  "StepAndHeap vr = (case vr of
       UNKNOWN \<Rightarrow> returns UNKNOWN
     | INTEGER mr \<Rightarrow> (if ClearsPage mr then returns ZeroOne else returns PTR_INT)
     | _ \<Rightarrow> unreachable)"

definition StepAndPtr :: "tagged_type \<Rightarrow> tagged_type result" where
  "StepAndPtr vr = (case vr of
       UNKNOWN \<Rightarrow> returns UNKNOWN
     | PTR_INT \<Rightarrow> returns PTR_INT
     | INTEGER mr \<Rightarrow> (if ClearsPage mr then returns AnyInt else returns PTR_INT)
     | _ \<Rightarrow> unreachable)"

definition StepAndPtrInt :: "tagged_type \<Rightarrow> tagged_type result" where
  "StepAndPtrInt vr = (case vr of
       UNKNOWN \<Rightarrow> returns UNKNOWN
     | INTEGER mr \<Rightarrow> (if ClearsPage mr then returns AnyInt else returns PTR_INT)
     | PTR_INT \<Rightarrow> returns PTR_INT
     | VAL \<Rightarrow> returns PTR_INT
     | HEAP \<Rightarrow> returns PTR_INT
     | PTR \<Rightarrow> returns PTR_INT
     | ADDR_INT \<Rightarrow> returns PTR_INT
     | _ \<Rightarrow> unreachable)"

definition StepAndPtrNull :: "tagged_type \<Rightarrow> tagged_type result" where
  "StepAndPtrNull vr = (case vr of
       UNKNOWN \<Rightarrow> returns UNKNOWN
     | PTR_NULL \<Rightarrow> returns PTR_NULL
     | INTEGER mr \<Rightarrow> (if ClearsPage mr then returns AnyInt else returns PTR_INT)
     | _ \<Rightarrow> unreachable)"

definition StepAndAddrInt :: "tagged_type \<Rightarrow> tagged_type result" where
  "StepAndAddrInt vr = (case vr of
       UNKNOWN \<Rightarrow> returns UNKNOWN
     | VAL \<Rightarrow> returns PTR_INT
     | PTR_NULL \<Rightarrow> returns PTR_INT
     | INTEGER mr \<Rightarrow> (if ClearsPage mr then returns AnyInt else returns ADDR_INT)
     | ADDR_INT \<Rightarrow> returns ADDR_INT
     | _ \<Rightarrow> unreachable)"

definition StepAndFunc :: "tagged_type \<Rightarrow> tagged_type result" where
  "StepAndFunc vr = (case vr of
       UNKNOWN \<Rightarrow> returns UNKNOWN
     | INTEGER mr \<Rightarrow> (if ClearsPage mr then returns AnyInt else returns PTR_INT)
     | _ \<Rightarrow> unreachable)"

definition StepAnd :: "tagged_type \<Rightarrow> tagged_type \<Rightarrow> tagged_type result" where
  "StepAnd vl vr = (case vl of
       UNKNOWN \<Rightarrow> returns UNKNOWN
     | UNDEF \<Rightarrow> returns vr
     | INTEGER ml \<Rightarrow> StepAndInt ml vr
     | VAL \<Rightarrow> StepAndVal vr
     | HEAP_OFF \<Rightarrow> StepAndHeapOff vr
     | HEAP \<Rightarrow> StepAndHeap vr
     | PTR \<Rightarrow> StepAndPtr vr
     | YOUNG \<Rightarrow> unreachable
     | PTR_INT \<Rightarrow> StepAndPtrInt vr
     | PTR_NULL \<Rightarrow> StepAndPtrNull vr
     | ADDR \<Rightarrow> unreachable
     | ADDR_INT \<Rightarrow> StepAndAddrInt vr
     | FUNC \<Rightarrow> StepAndFunc vr
     | ADDR_NULL \<Rightarrow> unreachable)"

definition StepOrInt :: "masked_type \<Rightarrow> tagged_type \<Rightarrow> tagged_type result" where
  "StepOrInt ml vr = (case vr of
       UNKNOWN \<Rightarrow> returns UNKNOWN
     | PTR_INT \<Rightarrow> returns PTR_INT
     | VAL \<Rightarrow> returns PTR_INT
     | PTR \<Rightarrow> returns PTR_INT
     | UNDEF \<Rightarrow> returns UNDEF
     | ADDR \<Rightarrow> returns ADDR_INT
     | ADDR_INT \<Rightarrow> returns ADDR_INT
     | INTEGER mr \<Rightarrow> returns (INTEGER (MaskOr ml mr))
     | _ \<Rightarrow> unreachable)"

definition StepOrVal :: "tagged_type \<Rightarrow> tagged_type result" where
  "StepOrVal vr = (case vr of
       UNKNOWN \<Rightarrow> returns UNKNOWN
     | INTEGER _ \<Rightarrow> returns PTR_INT
     | PTR_INT \<Rightarrow> returns PTR_INT
     | VAL \<Rightarrow> returns PTR_INT
     | ADDR_INT \<Rightarrow> returns PTR_INT
     | _ \<Rightarrow> unreachable)"

definition StepOrHeapOff :: "tagged_type \<Rightarrow> tagged_type result" where
  "StepOrHeapOff vr = (case vr of
       UNKNOWN \<Rightarrow> returns UNKNOWN
     | _ \<Rightarrow> unreachable)"

definition StepOrHeap :: "tagged_type \<Rightarrow> tagged_type result" where
  "StepOrHeap vr = (case vr of
       UNKNOWN \<Rightarrow> returns UNKNOWN
     | INTEGER _ \<Rightarrow> returns PTR_INT
     | PTR_INT \<Rightarrow> returns PTR_INT
     | HEAP \<Rightarrow> returns AnyInt
     | _ \<Rightarrow> unreachable)"

definition StepOrPtr :: "tagged_type \<Rightarrow> tagged_type result" where
  "StepOrPtr vr = (case vr of
       UNKNOWN \<Rightarrow> returns UNKNOWN
     | INTEGER _ \<Rightarrow> returns PTR_INT
     | PTR_INT \<Rightarrow> returns PTR_INT
     | PTR \<Rightarrow> returns PTR_INT
     | _ \<Rightarrow> unreachable)"

definition StepOrPtrInt :: "tagged_type \<Rightarrow> tagged_type result" where
  "StepOrPtrInt vr = (case vr of
       UNKNOWN \<Rightarrow> returns UNKNOWN
     | INTEGER _ \<Rightarrow> returns PTR_INT
     | PTR_INT \<Rightarrow> returns PTR_INT
     | VAL \<Rightarrow> returns PTR_INT
     | HEAP \<Rightarrow> returns PTR_INT
     | PTR \<Rightarrow> returns PTR_INT
     | PTR_NULL \<Rightarrow> returns PTR_INT
     | ADDR_INT \<Rightarrow> returns PTR_INT
     | _ \<Rightarrow> unreachable)"

definition StepOrPtrNull :: "tagged_type \<Rightarrow> tagged_type result" where
  "StepOrPtrNull vr = (case vr of
       UNKNOWN \<Rightarrow> returns UNKNOWN
     | INTEGER _ \<Rightarrow> returns PTR_INT
     | PTR_INT \<Rightarrow> returns PTR_INT
     | PTR_NULL \<Rightarrow> returns PTR_NULL
     | _ \<Rightarrow> unreachable)"

definition StepOrAddrInt :: "tagged_type \<Rightarrow> tagged_type result" where
  "StepOrAddrInt vr = (case vr of
       UNKNOWN \<Rightarrow> returns UNKNOWN
     | INTEGER _ \<Rightarrow> returns ADDR_INT
     | PTR_INT \<Rightarrow> returns PTR_INT
     | VAL \<Rightarrow> returns PTR_INT
     | _ \<Rightarrow> unreachable)"

definition StepOr :: "tagged_type \<Rightarrow> tagged_type \<Rightarrow> tagged_type result" where
  "StepOr vl vr = (case vl of
       UNKNOWN \<Rightarrow> returns UNKNOWN
     | INTEGER ml \<Rightarrow> StepOrInt ml vr
     | VAL \<Rightarrow> StepOrVal vr
     | HEAP_OFF \<Rightarrow> StepOrHeapOff vr
     | HEAP \<Rightarrow> StepOrHeap vr
     | PTR \<Rightarrow> StepOrPtr vr
     | YOUNG \<Rightarrow> unreachable
     | UNDEF \<Rightarrow> (if IsUnknown vr then returns UNKNOWN else returns UNDEF)
     | PTR_INT \<Rightarrow> StepOrPtrInt vr
     | PTR_NULL \<Rightarrow> StepOrPtrNull vr
     | ADDR \<Rightarrow> unreachable
     | ADDR_INT \<Rightarrow> StepOrAddrInt vr
     | ADDR_NULL \<Rightarrow> unreachable
     | FUNC \<Rightarrow> (if IsUnknown vr then returns UNKNOWN else returns AnyInt))"

definition StepXorInt :: "masked_type \<Rightarrow> tagged_type \<Rightarrow> tagged_type result" where
  "StepXorInt ml vr = (case vr of
       UNKNOWN \<Rightarrow> returns UNKNOWN
     | PTR_INT \<Rightarrow> returns PTR_INT
     | VAL \<Rightarrow> returns PTR_INT
     | HEAP \<Rightarrow> returns PTR_INT
     | PTR \<Rightarrow> returns PTR_INT
     | ADDR_INT \<Rightarrow> returns ADDR_INT
     | INTEGER mr \<Rightarrow> returns (INTEGER (MaskXor ml mr))
     | _ \<Rightarrow> unreachable)"

definition StepXorVal :: "tagged_type \<Rightarrow> tagged_type result" where
  "StepXorVal vr = (case vr of
       UNKNOWN \<Rightarrow> returns UNKNOWN
     | INTEGER _ \<Rightarrow> returns PTR_INT
     | PTR_INT \<Rightarrow> returns PTR_INT
     | VAL \<Rightarrow> returns VAL
     | ADDR_INT \<Rightarrow> returns PTR_INT
     | _ \<Rightarrow> unreachable)"

definition StepXorHeap :: "tagged_type \<Rightarrow> tagged_type result" where
  "StepXorHeap vr = (case vr of
       UNKNOWN \<Rightarrow> returns UNKNOWN
     | HEAP \<Rightarrow> returns AnyInt
     | _ \<Rightarrow> unreachable)"

definition StepXorHeapOff :: "tagged_type \<Rightarrow> tagged_type result" where
  "StepXorHeapOff vr = (case vr of
       UNKNOWN \<Rightarrow> returns UNKNOWN
     | _ \<Rightarrow> unreachable)"

definition StepXorPtr :: "tagged_type \<Rightarrow> tagged_type result" where
  "StepXorPtr vr = (case vr of
       UNKNOWN \<Rightarrow> returns UNKNOWN
     | INTEGER _ \<Rightarrow> returns PTR_INT
     | PTR_INT \<Rightarrow> returns PTR_INT
     | PTR \<Rightarrow> returns AnyInt
     | PTR_NULL \<Rightarrow> returns PTR_INT
     | _ \<Rightarrow> unreachable)"

definition StepXorPtrInt :: "tagged_type \<Rightarrow> tagged_type result" where
  "StepXorPtrInt vr = (case vr of
       UNKNOWN \<Rightarrow> returns UNKNOWN
     | INTEGER _ \<Rightarrow> returns PTR_INT
     | PTR_INT \<Rightarrow> returns PTR_INT
     | VAL \<Rightarrow> returns PTR_INT
     | HEAP \<Rightarrow> returns AnyInt
     | PTR \<Rightarrow> returns PTR_INT
     | PTR_NULL \<Rightarrow> returns PTR_INT
     | _ \<Rightarrow> unreachable)"

definition StepXorPtrNull :: "tagged_type \<Rightarrow> tagged_type result" where
  "StepXorPtrNull vr = (case vr of
       UNKNOWN \<Rightarrow> returns UNKNOWN
     | INTEGER _ \<Rightarrow> returns PTR_INT
     | _ \<Rightarrow> unreachable)"

definition StepXorAddr :: "tagged_type \<Rightarrow> tagged_type result" where
  "StepXorAddr vr = (case vr of
       UNKNOWN \<Rightarrow> returns UNKNOWN
     | VAL \<Rightarrow> returns PTR_INT
     | _ \<Rightarrow> unreachable)"

definition StepXorAddrInt :: "tagged_type \<Rightarrow> tagged_type result" where
  "StepXorAddrInt vr = (case vr of
       UNKNOWN \<Rightarrow> returns UNKNOWN
     | INTEGER _ \<Rightarrow> returns ADDR_INT
     | VAL \<Rightarrow> returns PTR_INT
     | HEAP \<Rightarrow> returns AnyInt
     | _ \<Rightarrow> unreachable)"

definition StepXor :: "tagged_type \<Rightarrow> tagged_type \<Rightarrow> tagged_type result" where
  "StepXor vl vr = (case vl of
       UNKNOWN \<Rightarrow> returns UNKNOWN
     | UNDEF \<Rightarrow> returns UNDEF
     | INTEGER ml \<Rightarrow> StepXorInt ml vr
     | VAL \<Rightarrow> StepXorVal vr
     | HEAP \<Rightarrow> StepXorHeap vr
     | HEAP_OFF \<Rightarrow> StepXorHeapOff vr
     | PTR \<Rightarrow> StepXorPtr vr
     | YOUNG \<Rightarrow> unreachable
     | PTR_INT \<Rightarrow> StepXorPtrInt vr
     | PTR_NULL \<Rightarrow> StepXorPtrNull vr
     | ADDR \<Rightarrow> StepXorAddr vr
     | ADDR_INT \<Rightarrow> StepXorAddrInt vr
     | ADDR_NULL \<Rightarrow> unreachable
     | FUNC \<Rightarrow> unreachable)"

definition StepMul :: "tagged_type \<Rightarrow> tagged_type \<Rightarrow> tagged_type" where
  "StepMul vl vr =
     (if IsUnknown vl \<or> IsUnknown vr then UNKNOWN
      else if IsZero vl \<or> IsZero vr then Zero
      else if IsOne vl \<or> IsOne vr then
        (let other = (if IsOne vl then vr else vl)
         in case other of
              UNKNOWN \<Rightarrow> UNKNOWN
            | INTEGER _ \<Rightarrow> other
            | UNDEF \<Rightarrow> UNDEF
            | _ \<Rightarrow> AnyInt)
      else if IsEven vl \<or> IsEven vr then Even
      else if IsOdd vl \<and> IsOdd vr then Odd
      else AnyInt)"

definition StepShr :: "tagged_type \<Rightarrow> tagged_type \<Rightarrow> tagged_type" where
  "StepShr vl vr = (case vl of
       UNKNOWN \<Rightarrow> UNKNOWN
     | UNDEF \<Rightarrow> UNDEF
     | VAL \<Rightarrow> (if IsUnknown vr then vr else AnyInt)
     | HEAP_OFF \<Rightarrow> (if IsUnknown vr then vr else AnyInt)
     | YOUNG \<Rightarrow> (if IsUnknown vr then vr else AnyInt)
     | HEAP \<Rightarrow> (if IsUnknown vr then vr else AnyInt)
     | _ \<Rightarrow> AnyInt)"

definition StepShl :: "tagged_type \<Rightarrow> tagged_type \<Rightarrow> tagged_type" where
  "StepShl vl vr =
     (if IsUnknown vl \<or> IsUnknown vr then UNKNOWN
      else if IsNonZero vr then Even
      else AnyInt)"

subsection \<open>Conversions\<close>

definition StepExt :: "tagged_type \<Rightarrow> tagged_type" where
  "StepExt arg = (case arg of
       UNKNOWN \<Rightarrow> UNKNOWN
     | INTEGER _ \<Rightarrow> arg
     | YOUNG \<Rightarrow> Even
     | HEAP \<Rightarrow> Even
     | HEAP_OFF \<Rightarrow> Even
     | UNDEF \<Rightarrow> arg
     | _ \<Rightarrow> AnyInt)"

definition StepTrunc :: "ty option \<Rightarrow> ty \<Rightarrow> tagged_type \<Rightarrow> tagged_type result" where
  "StepTrunc target t arg =
     (let fitsPointer = (case target of Some p \<Rightarrow> \<not> GetSize t < GetSize p | None \<Rightarrow> True)
      in case arg of
           UNKNOWN \<Rightarrow> returns UNKNOWN
         | INTEGER _ \<Rightarrow> returns AnyInt
         | VAL \<Rightarrow> returns AnyInt
         | UNDEF \<Rightarrow> returns UNDEF
         | YOUNG \<Rightarrow> unreachable
         | _ \<Rightarrow> returns (if fitsPointer then arg else AnyInt))"

datatype step_kind = REFINE | FORWARD

definition Clamp :: "step_kind \<Rightarrow> tagged_type \<Rightarrow> ty \<Rightarrow> tagged_type" where
  "Clamp kind type t =
     (if t = V64 then
        (case type of
           UNKNOWN \<Rightarrow> UNKNOWN
         | PTR_INT \<Rightarrow> VAL
         | VAL \<Rightarrow> VAL
         | PTR \<Rightarrow> HEAP
         | HEAP \<Rightarrow> HEAP
         | HEAP_OFF \<Rightarrow> HEAP
         | YOUNG \<Rightarrow> YOUNG
         | UNDEF \<Rightarrow> UNDEF
         | PTR_NULL \<Rightarrow> HEAP
         | ADDR_NULL \<Rightarrow> UNDEF
         | ADDR \<Rightarrow> UNDEF
         | FUNC \<Rightarrow> FUNC
         | ADDR_INT \<Rightarrow> (if kind = REFINE then Odd else VAL)
         | INTEGER m \<Rightarrow> INTEGER (masked (m_value m OR 1) (m_known m OR 1)))
      else if t = I64 then (if type = HEAP_OFF then ADDR else type)
      else type)"

definition Infer :: "ty \<Rightarrow> ty \<Rightarrow> tagged_type" where
  "Infer pointer t =
     (if t = V64 then VAL
      else if IsIntegerType t then (if pointer = t then PTR_INT else AnyInt)
      else AnyInt)"

subsection \<open>Visitors\<close>

definition mark :: "tagged_type \<Rightarrow> tagged_type option result" where
  "mark t = returns (Some t)"

definition mark_known :: "(tagged_type \<Rightarrow> tagged_type) \<Rightarrow> tagged_type \<Rightarrow> tagged_type option result" where
  "mark_known f r = returns (if IsUnknown r then None else Some (f r))"

definition try_mark :: "(tagged_type \<Rightarrow> tagged_type) \<Rightarrow> tagged_type result \<Rightarrow> tagged_type option result" where
  "try_mark f r = (case r of Inl e \<Rightarrow> Inl e | Inr t \<Rightarrow> mark_known f t)"

definition VisitAddInst :: "(64 word \<Rightarrow> nat) \<Rightarrow> step_kind \<Rightarrow> ty \<Rightarrow> tagged_type \<Rightarrow> tagged_type \<Rightarrow> tagged_type option result" where
  "VisitAddInst tz kind t vl vr =
     (if IsIntegerType t then try_mark (\<lambda>r. Clamp kind r t) (StepAdd tz vl vr) else mark AnyInt)"

definition VisitSubInst :: "(64 word \<Rightarrow> nat) \<Rightarrow> step_kind \<Rightarrow> ty \<Rightarrow> tagged_type \<Rightarrow> tagged_type \<Rightarrow> tagged_type option result" where
  "VisitSubInst tz kind t vl vr =
     (if IsIntegerType t then try_mark (\<lambda>r. Clamp kind r t) (StepSub tz vl vr) else mark AnyInt)"

definition VisitMulInst :: "step_kind \<Rightarrow> ty \<Rightarrow> tagged_type \<Rightarrow> tagged_type \<Rightarrow> tagged_type option result" where
  "VisitMulInst kind t vl vr =
     (if IsIntegerType t then mark_known (\<lambda>r. Clamp kind r t) (StepMul vl vr) else mark AnyInt)"

text \<open>Multiplications and divisions with remainders, and rotations: integers once both operands are known.\<close>

definition VisitOpaque :: "tagged_type \<Rightarrow> tagged_type \<Rightarrow> tagged_type option result" where
  "VisitOpaque vl vr = returns (if IsUnknown vl \<or> IsUnknown vr then None else Some AnyInt)"

definition VisitAndInst :: "tagged_type \<Rightarrow> tagged_type \<Rightarrow> tagged_type option result" where
  "VisitAndInst vl vr = try_mark (\<lambda>r. r) (StepAnd vl vr)"

definition VisitXorInst :: "step_kind \<Rightarrow> ty \<Rightarrow> tagged_type \<Rightarrow> tagged_type \<Rightarrow> tagged_type option result" where
  "VisitXorInst kind t vl vr = try_mark (\<lambda>r. Clamp kind r t) (StepXor vl vr)"

definition VisitOrInst :: "step_kind \<Rightarrow> ty \<Rightarrow> tagged_type \<Rightarrow> tagged_type \<Rightarrow> tagged_type option result" where
  "VisitOrInst kind t vl vr = try_mark (\<lambda>r. Clamp kind r t) (StepOr vl vr)"

definition VisitShiftRightInst :: "tagged_type \<Rightarrow> tagged_type \<Rightarrow> tagged_type option result" where
  "VisitShiftRightInst vl vr = mark_known (\<lambda>r. r) (StepShr vl vr)"

definition VisitSllInst :: "tagged_type \<Rightarrow> tagged_type \<Rightarrow> tagged_type option result" where
  "VisitSllInst vl vr = mark_known (\<lambda>r. r) (StepShl vl vr)"

definition VisitExtensionInst :: "ty \<Rightarrow> ty \<Rightarrow> tagged_type \<Rightarrow> tagged_type option result" where
  "VisitExtensionInst t argt arg =
     (if IsFloatType t \<or> IsFloatType argt then mark AnyInt else mark_known (\<lambda>r. r) (StepExt arg))"

definition VisitTruncInst :: "ty option \<Rightarrow> ty \<Rightarrow> ty \<Rightarrow> tagged_type \<Rightarrow> tagged_type option result" where
  "VisitTruncInst target t argt arg =
     (if IsFloatType t \<or> IsFloatType argt then mark AnyInt else try_mark (\<lambda>r. r) (StepTrunc target t arg))"

definition VisitBitCastInst :: "ty \<Rightarrow> ty \<Rightarrow> tagged_type \<Rightarrow> tagged_type option result" where
  "VisitBitCastInst t argt arg =
     (if IsFloatType t \<or> IsFloatType argt then mark AnyInt else mark_known (\<lambda>r. r) arg)"

definition VisitByteSwapInst :: "tagged_type \<Rightarrow> tagged_type option result" where
  "VisitByteSwapInst arg = returns (if IsUnknown arg then None else Some AnyInt)"

definition VisitMovInst :: "step_kind \<Rightarrow> ty \<Rightarrow> tagged_type \<Rightarrow> tagged_type option result" where
  "VisitMovInst kind t arg = mark_known (\<lambda>r. r) (Clamp kind arg t)"

definition VisitMemoryExchangeInst :: "step_kind \<Rightarrow> ty \<Rightarrow> tagged_type option result" where
  "VisitMemoryExchangeInst kind t = mark (Clamp kind PTR_INT t)"

definition VisitMemoryCompareExchangeInst ::
    "step_kind \<Rightarrow> ty \<Rightarrow> tagged_type \<Rightarrow> tagged_type \<Rightarrow> tagged_type option result" where
  "VisitMemoryCompareExchangeInst kind t val ref =
     returns (if IsUnknown ref \<or> IsUnknown val \<or> IsUnknown val then None else Some (Clamp kind PTR_INT t))"

text \<open>Whether the parities of the two operands differ for certain.\<close>

definition parities_differ :: "tagged_type \<Rightarrow> tagged_type \<Rightarrow> bool" where
  "parities_differ vl vr \<longleftrightarrow> IsOdd vl \<and> IsEven vr \<or> IsEven vl \<and> IsOdd vr"

definition VisitCmpTag :: "cond \<Rightarrow> tagged_type \<Rightarrow> tagged_type \<Rightarrow> tagged_type option result" where
  "VisitCmpTag cc vl vr =
     (if IsUnknown vl \<or> IsUnknown vr then returns None
      else case cc of
          C_EQ \<Rightarrow> mark (if parities_differ vl vr then Zero else ZeroOne)
        | C_UEQ \<Rightarrow> mark (if parities_differ vl vr then Zero else ZeroOne)
        | C_NE \<Rightarrow> mark (if parities_differ vl vr then One else ZeroOne)
        | C_UNE \<Rightarrow> mark (if parities_differ vl vr then One else ZeroOne)
        | _ \<Rightarrow> mark ZeroOne)"

definition VisitSelectInst :: "step_kind \<Rightarrow> ty \<Rightarrow> tagged_type \<Rightarrow> tagged_type \<Rightarrow> tagged_type option result" where
  "VisitSelectInst kind t vt vf =
     (if IsUnknown vt \<or> IsUnknown vf then returns None
      else case TagLUB vt vf of Inl e \<Rightarrow> Inl e | Inr r \<Rightarrow> mark (Clamp kind r t))"

lemmas StepAdd_rows = StepAdd_def StepAddVal_def StepAddHeap_def StepAddPtr_def StepAddYoung_def
  StepAddHeapOff_def StepAddPtrInt_def StepAddPtrNull_def StepAddInt_def StepAddAddr_def StepAddAddrInt_def

lemmas StepSub_rows = StepSub_def StepSubInt_def StepSubVal_def StepSubHeap_def StepSubHeapOff_def StepSubPtr_def
  StepSubPtrInt_def StepSubPtrNull_def StepSubAddr_def StepSubAddrInt_def

lemmas StepAnd_rows = StepAnd_def StepAndInt_def StepAndVal_def StepAndHeapOff_def StepAndHeap_def StepAndPtr_def
  StepAndPtrInt_def StepAndPtrNull_def StepAndAddrInt_def StepAndFunc_def

lemmas StepOr_rows = StepOr_def StepOrInt_def StepOrVal_def StepOrHeapOff_def StepOrHeap_def StepOrPtr_def
  StepOrPtrInt_def StepOrPtrNull_def StepOrAddrInt_def

lemmas StepXor_rows = StepXor_def StepXorInt_def StepXorVal_def StepXorHeap_def StepXorHeapOff_def StepXorPtr_def
  StepXorPtrInt_def StepXorPtrNull_def StepXorAddr_def StepXorAddrInt_def

text \<open>The dispatch of \<^verbatim>\<open>Step\<close> on the instructions above, with the types of their operands.\<close>

datatype tag_inst =
    AddInst ty tagged_type tagged_type
  | SubInst ty tagged_type tagged_type
  | MulInst ty tagged_type tagged_type
  | OpaqueInst tagged_type tagged_type
  | AndInst tagged_type tagged_type
  | XorInst ty tagged_type tagged_type
  | OrInst ty tagged_type tagged_type
  | ShiftRightInst tagged_type tagged_type
  | SllInst tagged_type tagged_type
  | ExtensionInst ty ty tagged_type
  | TruncInst ty ty tagged_type
  | BitCastInst ty ty tagged_type
  | ByteSwapInst tagged_type
  | MovInst ty tagged_type
  | MemoryExchangeInst ty
  | MemoryCompareExchangeInst ty tagged_type tagged_type
  | CmpInst cond tagged_type tagged_type
  | SelectInst ty tagged_type tagged_type

fun step_inst :: "(64 word \<Rightarrow> nat) \<Rightarrow> ty option \<Rightarrow> step_kind \<Rightarrow> tag_inst \<Rightarrow> tagged_type option result" where
  "step_inst tz target kind (AddInst t l r) = VisitAddInst tz kind t l r"
| "step_inst tz target kind (SubInst t l r) = VisitSubInst tz kind t l r"
| "step_inst tz target kind (MulInst t l r) = VisitMulInst kind t l r"
| "step_inst tz target kind (OpaqueInst l r) = VisitOpaque l r"
| "step_inst tz target kind (AndInst l r) = VisitAndInst l r"
| "step_inst tz target kind (XorInst t l r) = VisitXorInst kind t l r"
| "step_inst tz target kind (OrInst t l r) = VisitOrInst kind t l r"
| "step_inst tz target kind (ShiftRightInst l r) = VisitShiftRightInst l r"
| "step_inst tz target kind (SllInst l r) = VisitSllInst l r"
| "step_inst tz target kind (ExtensionInst t argt a) = VisitExtensionInst t argt a"
| "step_inst tz target kind (TruncInst t argt a) = VisitTruncInst target t argt a"
| "step_inst tz target kind (BitCastInst t argt a) = VisitBitCastInst t argt a"
| "step_inst tz target kind (ByteSwapInst a) = VisitByteSwapInst a"
| "step_inst tz target kind (MovInst t a) = VisitMovInst kind t a"
| "step_inst tz target kind (MemoryExchangeInst t) = VisitMemoryExchangeInst kind t"
| "step_inst tz target kind (MemoryCompareExchangeInst t v r) = VisitMemoryCompareExchangeInst kind t v r"
| "step_inst tz target kind (CmpInst cc l r) = VisitCmpTag cc l r"
| "step_inst tz target kind (SelectInst t l r) = VisitSelectInst kind t l r"

lemmas visit_defs = VisitAddInst_def VisitSubInst_def VisitMulInst_def VisitOpaque_def VisitAndInst_def VisitXorInst_def
  VisitOrInst_def VisitShiftRightInst_def VisitSllInst_def VisitExtensionInst_def VisitTruncInst_def VisitBitCastInst_def
  VisitByteSwapInst_def VisitMovInst_def VisitMemoryExchangeInst_def VisitMemoryCompareExchangeInst_def VisitCmpTag_def
  VisitSelectInst_def

subsection \<open>Lemmas\<close>

lemma Clamp_known: "Clamp kind r t = UNKNOWN \<longleftrightarrow> r = UNKNOWN"
  by (cases r) (auto simp: Clamp_def Odd_def)

lemma TagLUB_known: "TagLUB s t = returns u \<Longrightarrow> s \<noteq> UNKNOWN \<Longrightarrow> u \<noteq> UNKNOWN"
  by (cases s; cases t) (auto simp: TagLUB_def TagLUB_rows IsUnknown_def split: if_splits)

lemma mark_known_known: "mark_known f r = returns (Some u) \<Longrightarrow> (\<And>r. r \<noteq> UNKNOWN \<Longrightarrow> f r \<noteq> UNKNOWN) \<Longrightarrow> u \<noteq> UNKNOWN"
  by (auto simp: mark_known_def IsUnknown_def split: if_splits)

lemma try_mark_known: "try_mark f r = returns (Some u) \<Longrightarrow> (\<And>r. r \<noteq> UNKNOWN \<Longrightarrow> f r \<noteq> UNKNOWN) \<Longrightarrow> u \<noteq> UNKNOWN"
  using mark_known_known[of f _ u] by (cases r) (auto simp: try_mark_def)

lemma IsOne_fits: "IsOne (INTEGER m) \<Longrightarrow> fits m x \<Longrightarrow> x = 1"
  by (simp add: IsOne_def fits_def)

lemma IsNonZero_fits: "IsNonZero (INTEGER m) \<Longrightarrow> fits m x \<Longrightarrow> x \<noteq> 0"
  by (auto simp: IsNonZero_def fits_def)

text \<open>Pointers are not null, and those to objects are even.\<close>

definition placed :: "tag_value \<Rightarrow> bool" where
  "placed v \<longleftrightarrow> (\<not> is_int (\<lambda>_. True) v \<longrightarrow> bits_of v \<noteq> 0) \<and> (in_heap v \<longrightarrow> \<not> bit (bits_of v) 0)"

lemma IsEven_bits: "IsEven t \<Longrightarrow> denotes t v \<Longrightarrow> placed v \<Longrightarrow> \<not> bit (bits_of v) 0"
  using IsEven_fits
  by (cases t; cases v) (auto simp: value_sets placed_def, auto simp: IsEven_def)

lemma IsOdd_bits: "IsOdd t \<Longrightarrow> denotes t v \<Longrightarrow> bit (bits_of v) 0"
  using IsOdd_fits
  by (cases t; cases v) (auto simp: value_sets, auto simp: IsOdd_def)

lemma IsZero_bits: "IsZero t \<Longrightarrow> denotes t v \<Longrightarrow> bits_of v = 0"
  using IsZero_fits
  by (cases t; cases v) (auto simp: value_sets, auto simp: IsZero_def)

lemma IsOne_bits: "IsOne t \<Longrightarrow> denotes t v \<Longrightarrow> bits_of v = 1"
  using IsOne_fits
  by (cases t; cases v) (auto simp: value_sets, auto simp: IsOne_def)

lemma IsNonZero_bits: "IsNonZero t \<Longrightarrow> denotes t v \<Longrightarrow> placed v \<Longrightarrow> bits_of v \<noteq> 0"
  using IsNonZero_fits
  by (cases t; cases v) (auto simp: value_sets placed_def, auto simp: IsNonZero_def)

lemmas test_bits = IsEven_bits IsOdd_bits IsZero_bits IsOne_bits IsNonZero_bits

lemma bit0_mult: "bit (x * y) 0 \<longleftrightarrow> bit x 0 \<and> bit y 0" for x y :: "64 word"
  by (simp add: bit_0)

lemma int_types:
  "denotes AnyInt (IntV x)" "denotes Odd (IntV x) \<longleftrightarrow> bit x 0" "denotes Even (IntV x) \<longleftrightarrow> \<not> bit x 0"
  "denotes Zero (IntV x) \<longleftrightarrow> x = 0" "denotes One (IntV x) \<longleftrightarrow> x = 1"
  by (simp_all add: denotes_def is_int_def AnyInt_def Odd_def Even_def Zero_def One_def Const_def fits_any fits_const)

lemma denotes_INTEGER: "denotes (INTEGER m) v \<longleftrightarrow> (\<exists>x. v = IntV x \<and> fits m x)"
  by (cases v) (auto simp: denotes_def is_int_def)

lemma zero_one: "denotes ZeroOne (IntV (of_bool b))"
proof -
  have "(of_bool b :: 64 word) AND (- 1 AND NOT 1) = 0"
    by (cases b) (auto simp: bit_eq_iff bit_simps bit_1_iff)
  then show ?thesis by (simp add: denotes_def is_int_def ZeroOne_def fits_def masked_def)
qed

subsection \<open>Properties\<close>

text \<open>
  C26: on masked integers every arithmetic and bitwise table is sound: the type it returns stands for the
  64-bit result of the operation on any two words the operands stand for.
\<close>

theorem step_integers_sound:
  assumes "trailing_zeros tz" "fits m x" "fits n y"
  shows "(\<exists>t. StepAdd tz (INTEGER m) (INTEGER n) = returns t \<and> denotes t (IntV (x + y))) \<and>
    (\<exists>t. StepSub tz (INTEGER m) (INTEGER n) = returns t \<and> denotes t (IntV (x - y))) \<and>
    (\<exists>t. StepAnd (INTEGER m) (INTEGER n) = returns t \<and> denotes t (IntV (x AND y))) \<and>
    (\<exists>t. StepOr (INTEGER m) (INTEGER n) = returns t \<and> denotes t (IntV (x OR y))) \<and>
    (\<exists>t. StepXor (INTEGER m) (INTEGER n) = returns t \<and> denotes t (IntV (x XOR y)))"
  using trailing_zeros.MaskAdd_fits[OF assms] trailing_zeros.MaskSub_fits[OF assms] bitwise_fits[OF assms(2,3)]
  by (simp add: StepAdd_def StepAddInt_def StepSub_def StepSubInt_def StepAnd_def StepAndInt_def StepOr_def StepOrInt_def
      StepXor_def StepXorInt_def denotes_INTEGER)

theorem step_integers_sound_witness:
  "\<exists>t. StepAdd ctz (INTEGER (masked 0 7)) (INTEGER (masked 4 7)) = returns t \<and> denotes t (IntV (8 + 12))"
proof -
  have "fits (masked 0 7) 8" "fits (masked 4 7) 12" by (simp_all add: fits_def masked_def)
  then show ?thesis using step_integers_sound[OF ctz.trailing_zeros_axioms] by blast
qed

text \<open>
  C27: for operands of any type, the parity a product or a left shift is given is right, when pointers are
  not null and those to objects are even.
\<close>

theorem step_products_sound:
  assumes "denotes s v" "denotes t w" "placed v" "placed w"
  shows "denotes (StepMul s t) (IntV (bits_of v * bits_of w)) \<and>
    denotes (StepShl s t) (IntV (push_bit (unat (bits_of w)) (bits_of v)))"
proof
  have u: "s \<noteq> UNKNOWN" "t \<noteq> UNKNOWN" "s \<noteq> UNDEF" "t \<noteq> UNDEF" using assms(1,2) by (auto simp: denotes_def)
  note bs = test_bits[of s v] test_bits[of t w]
  have "denotes (case t of UNKNOWN \<Rightarrow> UNKNOWN | INTEGER _ \<Rightarrow> t | UNDEF \<Rightarrow> UNDEF | _ \<Rightarrow> AnyInt) (IntV (bits_of w))"
    using u assms(2) by (cases t) (auto simp: int_types denotes_INTEGER)
  moreover have "denotes (case s of UNKNOWN \<Rightarrow> UNKNOWN | INTEGER _ \<Rightarrow> s | UNDEF \<Rightarrow> UNDEF | _ \<Rightarrow> AnyInt) (IntV (bits_of v))"
    using u assms(1) by (cases s) (auto simp: int_types denotes_INTEGER)
  ultimately show "denotes (StepMul s t) (IntV (bits_of v * bits_of w))"
    using u bs assms by (auto simp: StepMul_def IsUnknown_def int_types bit0_mult Let_def)
  show "denotes (StepShl s t) (IntV (push_bit (unat (bits_of w)) (bits_of v)))"
  proof (cases "IsNonZero t")
    case True
    then have "0 < unat (bits_of w)" using bs(10) assms by (simp add: unat_gt_0)
    then have "\<not> bit (push_bit (unat (bits_of w)) (bits_of v)) 0" by (simp add: bit_push_bit_iff)
    then show ?thesis using u True by (simp add: StepShl_def IsUnknown_def int_types)
  qed (use u in \<open>simp add: StepShl_def IsUnknown_def int_types\<close>)
qed

theorem step_products_sound_witness:
  "denotes (StepMul Odd YOUNG) (IntV (3 * 16))"
proof -
  have "denotes Odd (IntV 3)" by (simp add: int_types bit_0)
  moreover have "denotes YOUNG (YoungV 16)" by (simp add: denotes_def)
  moreover have "placed (IntV 3)" "placed (YoungV 16)" by (simp_all add: placed_def is_int_def in_heap_def bit_0)
  ultimately have "denotes (StepMul Odd YOUNG) (IntV (bits_of (IntV 3) * bits_of (YoungV 16)))"
    using step_products_sound[of Odd "IntV 3" YOUNG "YoungV 16"] by blast
  then show ?thesis by simp
qed

text \<open>
  C28: a comparison is marked with a type that stands for its outcome: operands of different parity are
  never equal, and every outcome is zero or one.
\<close>

theorem VisitCmpTag_sound:
  assumes "VisitCmpTag cc s t = returns (Some u)" "denotes s v" "denotes t w" "placed v" "placed w"
    and "cc \<in> {C_EQ, C_UEQ} \<Longrightarrow> b = (bits_of v = bits_of w)" "cc \<in> {C_NE, C_UNE} \<Longrightarrow> b = (bits_of v \<noteq> bits_of w)"
  shows "denotes u (IntV (of_bool b))"
proof -
  have "bits_of v \<noteq> bits_of w" if "parities_differ s t"
    using that test_bits[of s v] test_bits[of t w] assms(2-5) by (auto simp: parities_differ_def)
  then show ?thesis
    using assms(1,6,7) zero_one[of False] zero_one[of True]
    by (cases cc) (auto simp: VisitCmpTag_def mark_def int_types split: if_splits)
qed

theorem VisitCmpTag_sound_witness:
  "VisitCmpTag C_EQ Odd HEAP_OFF = returns (Some Zero) \<and> denotes Zero (IntV (of_bool ((5 :: 64 word) = 8)))"
proof -
  have v: "VisitCmpTag C_EQ Odd HEAP_OFF = returns (Some Zero)"
    by (simp add: VisitCmpTag_def IsUnknown_def mark_def parities_differ_def Odd_def IsOdd_def IsEven_def masked_def)
  have "denotes Odd (IntV 5)" by (simp add: int_types bit_0)
  moreover have "denotes HEAP_OFF (HeapV 8)" by (simp add: denotes_def in_heap_def)
  moreover have "placed (IntV 5)" "placed (HeapV 8)" by (simp_all add: placed_def is_int_def in_heap_def bit_0)
  ultimately have "denotes Zero (IntV (of_bool ((5 :: 64 word) = 8)))"
    by (rule VisitCmpTag_sound[OF v]) simp_all
  then show ?thesis using v by simp
qed

text \<open>no instruction is ever marked with the unknown type, so a register that was visited stays known.\<close>

theorem step_marks_known:
  assumes "step_inst tz target kind i = returns (Some u)"
  shows "u \<noteq> UNKNOWN"
proof -
  have Z: "AnyInt \<noteq> UNKNOWN" "Zero \<noteq> UNKNOWN" "One \<noteq> UNKNOWN" "ZeroOne \<noteq> UNKNOWN"
    by (simp_all add: AnyInt_def Zero_def One_def ZeroOne_def Const_def)
  show ?thesis
    using assms Z Clamp_known TagLUB_known
    by (cases i) (auto simp: visit_defs mark_def IsUnknown_def split: if_splits sum.splits cond.splits
        dest!: mark_known_known try_mark_known)
qed

theorem step_marks_known_witness:
  "VAL \<noteq> UNKNOWN \<and> step_inst ctz None FORWARD (SelectInst V64 HEAP VAL) = returns (Some VAL)"
proof -
  have s: "step_inst ctz None FORWARD (SelectInst V64 HEAP VAL) = returns (Some VAL)"
    by (simp add: VisitSelectInst_def IsUnknown_def TagLUB_def TagLUBHeap_def mark_def Clamp_def)
  show ?thesis using step_marks_known[OF s] s by simp
qed

text \<open>
  an instruction that yields an OCaml value and whose visitor clamps the result is marked with a type
  that is at most \<^verbatim>\<open>VAL\<close>, as the convergence check of the analysis demands.
\<close>

theorem clamped_below_val:
  assumes "i \<in> {AddInst V64 s t, SubInst V64 s t, MulInst V64 s t, XorInst V64 s t, OrInst V64 s t, MovInst V64 s,
      SelectInst V64 s t, MemoryExchangeInst V64, MemoryCompareExchangeInst V64 s t}"
    and "step_inst tz target kind i = returns (Some u)"
  shows "TagLe u VAL"
proof -
  have odd: "IsOdd (INTEGER (masked (m_value m OR 1) (m_known m OR 1)))" for m
    by (simp add: IsOdd_def masked_def and_one_bit bit_and_iff bit_or_iff)
  have clamp: "TagLe (Clamp kind r V64) VAL" for r
    using odd by (cases r) (auto simp: Clamp_def TagLe_def tagged_eq_eq TagLess_def TagLessInt_simps Odd_def IsOdd_def masked_def)
  have m: "mark_known (\<lambda>r. Clamp kind r V64) x = returns (Some u) \<Longrightarrow> TagLe u VAL" for x
    using clamp by (auto simp: mark_known_def split: if_splits)
  then have t: "try_mark (\<lambda>r. Clamp kind r V64) x = returns (Some u) \<Longrightarrow> TagLe u VAL" for x
    by (cases x) (auto simp: try_mark_def)
  show ?thesis
    using assms clamp m t by (auto simp: visit_defs mark_def mark_known_def split: if_splits sum.splits)
qed

theorem clamped_below_val_witness: "TagLe HEAP VAL"
  using clamped_below_val[of "MovInst V64 PTR" PTR PTR ctz None FORWARD HEAP]
  by (simp add: VisitMovInst_def mark_known_def Clamp_def IsUnknown_def)

text \<open>
  the table of the exclusive or types two OCaml values as an OCaml value, but the exclusive or of two
  odd integers is an even integer, which is none; the table of the bitwise and types the page offset of
  a heap pointer as zero or one.
\<close>

theorem tag_tables_unsound:
  "StepXor VAL VAL = returns VAL \<and> denotes VAL (IntV 3) \<and> denotes VAL (IntV 5) \<and> \<not> denotes VAL (IntV (3 XOR 5)) \<and>
   StepAnd HEAP (Const 4095) = returns ZeroOne \<and> denotes HEAP (HeapV 8) \<and> \<not> denotes ZeroOne (IntV (8 AND 4095))"
proof -
  have c: "ClearsPage (masked_const 4095)"
  proof -
    have "bit (m_known (masked_const 4095) AND push_bit 12 (- 1) AND NOT (m_value (masked_const 4095))) 12"
      by (simp add: masked_const_def bit_simps)
    then show ?thesis unfolding ClearsPage_def by (metis bit_0_eq bot_apply bot_bool_def)
  qed
  have "(3 XOR 5 :: 64 word) = 6" "(8 AND 4095 :: 64 word) = 8" by simp_all
  then show ?thesis
    using c by (simp add: StepXor_def StepXorVal_def StepAnd_def StepAndHeap_def Const_def value_sets bit_0
        ZeroOne_def fits_def masked_def)
qed

end
