(* ===== verification/TagAnalysis.thy ===== *)
theory TagAnalysis
  imports TagStep "HOL-Library.Monad_Syntax"
begin

text \<open>
  The state of the OCaml tag analysis (\<^verbatim>\<open>passes/tags/register_analysis.cpp\<close>): the types of the virtual
  registers, the queues of instructions and functions with the sets that keep them free of duplicates,
  and the forward propagation of \<^verbatim>\<open>Solve\<close>. The uses of registers in the program are a record of
  functions; an instruction is what its visitor does: a list of actions that read the current types and
  mark one register each. \<open>checked\<close> says whether the assertions of the source are compiled in; a
  failed one, and the fatal error of a value that does not converge, are \<open>Inl AssertFailed\<close>.
\<close>

subsection \<open>State\<close>

record ('r, 'i, 'f) use_graph =
  inst_of :: "'r \<Rightarrow> 'i"
  func_of :: "'i \<Rightarrow> 'f"
  users_of :: "'r \<Rightarrow> 'i list"
  is_phi :: "'i \<Rightarrow> bool"
  reg_type :: "'r \<Rightarrow> ty"

record ('r, 'i, 'f) tag_state =
  types :: "'r \<Rightarrow> tagged_type option"
  forwardQueue :: "'i list"
  forwardPhiQueue :: "'i list"
  inForwardQueue :: "'i set"
  backwardQueue :: "'f list"
  inBackwardQueue :: "'f set"
  refineQueue :: "'i list"
  inRefineQueue :: "'i set"
  defs :: "'r set"

definition empty_state :: "('r, 'i, 'f) tag_state" where
  "empty_state = \<lparr>types = \<lambda>_. None, forwardQueue = [], forwardPhiQueue = [], inForwardQueue = {},
     backwardQueue = [], inBackwardQueue = {}, refineQueue = [], inRefineQueue = {}, defs = {}\<rparr>"

definition FindTag :: "('r \<Rightarrow> tagged_type option) \<Rightarrow> 'r \<Rightarrow> tagged_type" where
  "FindTag ts r = (case ts r of None \<Rightarrow> UNKNOWN | Some t \<Rightarrow> t)"

definition Converges :: "ty \<Rightarrow> tagged_type \<Rightarrow> tagged_type \<Rightarrow> bool" where
  "Converges t told tnew \<longleftrightarrow> TagLess told tnew \<and> (t \<noteq> V64 \<or> TagLe tnew VAL)"

subsection \<open>Queues\<close>

definition queue_func :: "'f \<Rightarrow> ('r, 'i, 'f) tag_state \<Rightarrow> ('r, 'i, 'f) tag_state" where
  "queue_func f s =
     (if f \<in> inBackwardQueue s then s
      else s\<lparr>inBackwardQueue := insert f (inBackwardQueue s), backwardQueue := backwardQueue s @ [f]\<rparr>)"

definition queue_forward :: "('i \<Rightarrow> bool) \<Rightarrow> 'i \<Rightarrow> ('r, 'i, 'f) tag_state \<Rightarrow> ('r, 'i, 'f) tag_state" where
  "queue_forward phi i s =
     (if i \<in> inForwardQueue s then s
      else if phi i then s\<lparr>inForwardQueue := insert i (inForwardQueue s), forwardPhiQueue := forwardPhiQueue s @ [i]\<rparr>
      else s\<lparr>inForwardQueue := insert i (inForwardQueue s), forwardQueue := forwardQueue s @ [i]\<rparr>)"

definition queue_refine :: "'i \<Rightarrow> ('r, 'i, 'f) tag_state \<Rightarrow> ('r, 'i, 'f) tag_state" where
  "queue_refine i s =
     (if i \<in> inRefineQueue s then s
      else s\<lparr>inRefineQueue := insert i (inRefineQueue s), refineQueue := refineQueue s @ [i]\<rparr>)"

definition ForwardQueue :: "('r, 'i, 'f) use_graph \<Rightarrow> 'r \<Rightarrow> ('r, 'i, 'f) tag_state \<Rightarrow> ('r, 'i, 'f) tag_state" where
  "ForwardQueue g r s =
     fold (queue_forward (is_phi g)) (users_of g r) (queue_func (func_of g (inst_of g r)) s)"

definition BackwardQueue :: "('r, 'i, 'f) use_graph \<Rightarrow> 'r \<Rightarrow> ('r, 'i, 'f) tag_state \<Rightarrow> ('r, 'i, 'f) tag_state" where
  "BackwardQueue g r s =
     fold (\<lambda>i s. queue_func (func_of g i) (queue_refine i s)) (users_of g r) (queue_refine (inst_of g r) s)"

subsection \<open>Operations\<close>

definition TagMark :: "('r, 'i, 'f) use_graph \<Rightarrow> bool \<Rightarrow> 'r \<Rightarrow> tagged_type \<Rightarrow> ('r, 'i, 'f) tag_state \<Rightarrow>
    (('r, 'i, 'f) tag_state \<times> bool) result" where
  "TagMark g checked r tnew s =
     (case types s r of
        None \<Rightarrow> returns (ForwardQueue g r (s\<lparr>types := (types s)(r \<mapsto> tnew)\<rparr>), True)
      | Some told \<Rightarrow>
          if tagged_eq told tnew then returns (s, False)
          else if checked \<and> \<not> Converges (reg_type g r) told tnew then Inl AssertFailed
          else returns (ForwardQueue g r (s\<lparr>types := (types s)(r \<mapsto> tnew)\<rparr>), True))"

definition Refine :: "('r, 'i, 'f) use_graph \<Rightarrow> 'r \<Rightarrow> tagged_type \<Rightarrow> ('r, 'i, 'f) tag_state \<Rightarrow>
    ('r, 'i, 'f) tag_state \<times> bool" where
  "Refine g r tnew s =
     (case types s r of
        None \<Rightarrow> (s\<lparr>types := (types s)(r \<mapsto> tnew)\<rparr>, False)
      | Some told \<Rightarrow>
          if TagLess tnew told then (BackwardQueue g r (s\<lparr>types := (types s)(r \<mapsto> tnew)\<rparr>), True)
          else (s, False))"

definition Define :: "('r, 'i, 'f) use_graph \<Rightarrow> bool \<Rightarrow> 'r \<Rightarrow> tagged_type \<Rightarrow> ('r, 'i, 'f) tag_state \<Rightarrow>
    (('r, 'i, 'f) tag_state \<times> bool) result" where
  "Define g checked r tnew s =
     (if checked \<and> (types s r \<noteq> None \<or> r \<in> defs s) then Inl AssertFailed
      else returns (BackwardQueue g r (s\<lparr>
        types := (if types s r = None then (types s)(r \<mapsto> tnew) else types s), defs := insert r (defs s)\<rparr>), True))"

definition EraseType :: "bool \<Rightarrow> 'r \<Rightarrow> ('r, 'i, 'f) tag_state \<Rightarrow> ('r, 'i, 'f) tag_state result" where
  "EraseType checked r s =
     (if checked \<and> types s r = None then Inl AssertFailed
      else returns (s\<lparr>types := (types s)(r := None)\<rparr>))"

definition ReplaceType :: "bool \<Rightarrow> 'r \<Rightarrow> 'r \<Rightarrow> tagged_type \<Rightarrow> ('r, 'i, 'f) tag_state \<Rightarrow> ('r, 'i, 'f) tag_state result" where
  "ReplaceType checked r r' t s =
     (case EraseType checked r s of
        Inl e \<Rightarrow> Inl e
      | Inr s' \<Rightarrow>
          if checked \<and> types s' r' \<noteq> None then Inl AssertFailed
          else returns (s'\<lparr>types := (types s')(r' \<mapsto> t)\<rparr>))"

text \<open>Replacing an instruction replaces each of the values it returns.\<close>

fun ReplaceInst :: "bool \<Rightarrow> ('r \<times> 'r) list \<Rightarrow> ('r, 'i, 'f) tag_state \<Rightarrow> ('r, 'i, 'f) tag_state result" where
  "ReplaceInst checked [] s = returns s"
| "ReplaceInst checked ((r, r') # rs) s =
     (case ReplaceType checked r r' (FindTag (types s) r) s of
        Inl e \<Rightarrow> Inl e
      | Inr s' \<Rightarrow> ReplaceInst checked rs s')"

subsection \<open>Dispatch\<close>

text \<open>
  An action reads the types and gives the register to mark, if any. A call in forward mode with a known
  callee (\<^verbatim>\<open>VisitCallSite\<close>) reads its arguments, and then joins each of them into the types of the
  argument instructions of the callee at that index.
\<close>

type_synonym 'r action = "('r \<Rightarrow> tagged_type option) \<Rightarrow> ('r \<times> tagged_type) option result"

fun run_actions :: "('r, 'i, 'f) use_graph \<Rightarrow> bool \<Rightarrow> 'r action list \<Rightarrow> ('r, 'i, 'f) tag_state \<Rightarrow>
    ('r, 'i, 'f) tag_state result" where
  "run_actions g checked [] s = returns s"
| "run_actions g checked (a # as) s =
     (case a (types s) of
        Inl e \<Rightarrow> Inl e
      | Inr None \<Rightarrow> run_actions g checked as s
      | Inr (Some (r, t)) \<Rightarrow>
          (case TagMark g checked r t s of
             Inl e \<Rightarrow> Inl e
           | Inr (s', _) \<Rightarrow> run_actions g checked as s'))"

fun tag_call_args :: "calling_conv \<Rightarrow> ('r \<Rightarrow> tagged_type option) \<Rightarrow> nat \<Rightarrow> 'r list \<Rightarrow> tagged_type list option" where
  "tag_call_args cc ts i [] = Some []"
| "tag_call_args cc ts i (r # rs) =
     (let arg = FindTag ts r
      in if IsUnknown arg then None
         else map_option (Cons (if IsCamlCall cc then (if i = 0 then PTR else if i = 1 then YOUNG else arg) else arg))
                (tag_call_args cc ts (Suc i) rs))"

definition join_arg :: "step_kind \<Rightarrow> ('r \<Rightarrow> ty) \<Rightarrow> tagged_type \<Rightarrow> 'r \<Rightarrow> 'r action" where
  "join_arg kind rty t ref ts =
     (case TagLUB (FindTag ts ref) t of
        Inl e \<Rightarrow> Inl e
      | Inr u \<Rightarrow> returns (Some (ref, Clamp kind u (rty ref))))"

definition forward_call :: "('r \<Rightarrow> ty) \<Rightarrow> calling_conv \<Rightarrow> (nat \<Rightarrow> 'r list) \<Rightarrow> 'r list \<Rightarrow>
    ('r \<Rightarrow> tagged_type option) \<Rightarrow> 'r action list" where
  "forward_call rty cc params args ts =
     (case tag_call_args cc ts 0 args of
        None \<Rightarrow> []
      | Some tys \<Rightarrow> concat (map (\<lambda>i. map (join_arg FORWARD rty (tys ! i)) (params i)) [0..<length args]))"

text \<open>Any other instruction marks one register with a type computed from those of its operands.\<close>

definition mark_action :: "'r \<Rightarrow> tagged_type option result \<Rightarrow> 'r action" where
  "mark_action r res ts = map_sum id (map_option (Pair r)) res"

subsection \<open>Forward propagation\<close>

text \<open>
  \<open>prog i ts\<close> are the actions of the visitor of instruction \<open>i\<close> when it starts at the types \<open>ts\<close>. The
  instruction is taken out of the set and off its queue only after it was dispatched.
\<close>

type_synonym ('r, 'i) program = "'i \<Rightarrow> ('r \<Rightarrow> tagged_type option) \<Rightarrow> 'r action list"

definition step_plain :: "('r, 'i, 'f) use_graph \<Rightarrow> bool \<Rightarrow> ('r, 'i) program \<Rightarrow> ('r, 'i, 'f) tag_state \<Rightarrow>
    ('r, 'i, 'f) tag_state result" where
  "step_plain g checked prog s =
     (let i = hd (forwardQueue s)
      in case run_actions g checked (prog i (types s)) s of
           Inl e \<Rightarrow> Inl e
         | Inr s' \<Rightarrow> returns (s'\<lparr>inForwardQueue := inForwardQueue s' - {i}, forwardQueue := tl (forwardQueue s')\<rparr>))"

definition step_phi :: "('r, 'i, 'f) use_graph \<Rightarrow> bool \<Rightarrow> ('r, 'i) program \<Rightarrow> ('r, 'i, 'f) tag_state \<Rightarrow>
    ('r, 'i, 'f) tag_state result" where
  "step_phi g checked prog s =
     (let i = hd (forwardPhiQueue s)
      in case run_actions g checked (prog i (types s)) s of
           Inl e \<Rightarrow> Inl e
         | Inr s' \<Rightarrow> returns (s'\<lparr>inForwardQueue := inForwardQueue s' - {i}, forwardPhiQueue := tl (forwardPhiQueue s')\<rparr>))"

partial_function (option) drain_plain :: "('r, 'i, 'f) use_graph \<Rightarrow> bool \<Rightarrow> ('r, 'i) program \<Rightarrow>
    ('r, 'i, 'f) tag_state \<Rightarrow> ('r, 'i, 'f) tag_state result option" where
  "drain_plain g checked prog s =
     (if forwardQueue s = [] then Some (returns s)
      else case step_plain g checked prog s of
          Inl e \<Rightarrow> Some (Inl e)
        | Inr s' \<Rightarrow> drain_plain g checked prog s')"

partial_function (option) drain_phi :: "('r, 'i, 'f) use_graph \<Rightarrow> bool \<Rightarrow> ('r, 'i) program \<Rightarrow>
    ('r, 'i, 'f) tag_state \<Rightarrow> ('r, 'i, 'f) tag_state result option" where
  "drain_phi g checked prog s =
     (if forwardQueue s \<noteq> [] \<or> forwardPhiQueue s = [] then Some (returns s)
      else case step_phi g checked prog s of
          Inl e \<Rightarrow> Some (Inl e)
        | Inr s' \<Rightarrow> drain_phi g checked prog s')"

partial_function (option) forward_loop :: "('r, 'i, 'f) use_graph \<Rightarrow> bool \<Rightarrow> ('r, 'i) program \<Rightarrow>
    ('r, 'i, 'f) tag_state \<Rightarrow> ('r, 'i, 'f) tag_state result option" where
  "forward_loop g checked prog s =
     (if forwardQueue s = [] \<and> forwardPhiQueue s = [] then Some (returns s)
      else do { a \<leftarrow> drain_plain g checked prog s;
                (case a of
                   Inl e \<Rightarrow> Some (Inl e)
                 | Inr s1 \<Rightarrow>
                     do { b \<leftarrow> drain_phi g checked prog s1;
                          (case b of Inl e \<Rightarrow> Some (Inl e) | Inr s2 \<Rightarrow> forward_loop g checked prog s2) }) })"

subsection \<open>The queues\<close>

text \<open>A queue and the set beside it hold the same elements, each once; the two forward queues split the set.\<close>

definition queues_ok :: "('r, 'i, 'f) use_graph \<Rightarrow> ('r, 'i, 'f) tag_state \<Rightarrow> bool" where
  "queues_ok g s \<longleftrightarrow>
     distinct (forwardQueue s) \<and> distinct (forwardPhiQueue s) \<and>
     (\<forall>i \<in> set (forwardQueue s). \<not> is_phi g i) \<and> (\<forall>i \<in> set (forwardPhiQueue s). is_phi g i) \<and>
     set (forwardQueue s) \<union> set (forwardPhiQueue s) = inForwardQueue s \<and>
     distinct (backwardQueue s) \<and> set (backwardQueue s) = inBackwardQueue s \<and>
     distinct (refineQueue s) \<and> set (refineQueue s) = inRefineQueue s"

lemma queue_func_ok: "queues_ok g s \<Longrightarrow> queues_ok g (queue_func f s)"
  by (auto simp: queues_ok_def queue_func_def)

lemma queue_forward_ok: "queues_ok g s \<Longrightarrow> queues_ok g (queue_forward (is_phi g) i s)"
  by (auto simp: queues_ok_def queue_forward_def)

lemma queue_refine_ok: "queues_ok g s \<Longrightarrow> queues_ok g (queue_refine i s)"
  by (auto simp: queues_ok_def queue_refine_def)

lemma fold_invariant: "(\<And>x s. P s \<Longrightarrow> P (f x s)) \<Longrightarrow> P s \<Longrightarrow> P (fold f xs s)"
  by (induction xs arbitrary: s) auto

lemma ForwardQueue_ok: "queues_ok g s \<Longrightarrow> queues_ok g (ForwardQueue g r s)"
  unfolding ForwardQueue_def by (rule fold_invariant) (auto intro: queue_forward_ok queue_func_ok)

lemma BackwardQueue_ok: "queues_ok g s \<Longrightarrow> queues_ok g (BackwardQueue g r s)"
  unfolding BackwardQueue_def by (rule fold_invariant) (auto intro: queue_refine_ok queue_func_ok)

lemma queues_ok_types: "queues_ok g (s\<lparr>types := ts\<rparr>) = queues_ok g s" "queues_ok g (s\<lparr>types := ts, defs := d\<rparr>) = queues_ok g s"
    "queues_ok g (s\<lparr>defs := d\<rparr>) = queues_ok g s"
  by (simp_all add: queues_ok_def)

lemma TagMark_ok: "queues_ok g s \<Longrightarrow> TagMark g checked r t s = returns (s', c) \<Longrightarrow> queues_ok g s'"
  by (auto simp: TagMark_def queues_ok_types intro!: ForwardQueue_ok split: option.splits if_splits)

lemma Refine_ok: "queues_ok g s \<Longrightarrow> Refine g r t s = (s', c) \<Longrightarrow> queues_ok g s'"
  by (auto simp: Refine_def queues_ok_types intro!: BackwardQueue_ok split: option.splits if_splits)

lemma Define_ok: "queues_ok g s \<Longrightarrow> Define g checked r t s = returns (s', c) \<Longrightarrow> queues_ok g s'"
  by (auto simp: Define_def queues_ok_types intro!: BackwardQueue_ok split: if_splits)

text \<open>Marking only appends to the queues, and queues every user of a register whose type it changes.\<close>

definition extends :: "('r, 'i, 'f) tag_state \<Rightarrow> ('r, 'i, 'f) tag_state \<Rightarrow> bool" where
  "extends s s' \<longleftrightarrow> (\<exists>xs. forwardQueue s' = forwardQueue s @ xs) \<and> (\<exists>xs. forwardPhiQueue s' = forwardPhiQueue s @ xs) \<and>
     inForwardQueue s \<subseteq> inForwardQueue s'"

lemma extends_refl: "extends s s"
  by (simp add: extends_def)

lemma extends_trans: "extends s s' \<Longrightarrow> extends s' s'' \<Longrightarrow> extends s s''"
  unfolding extends_def by (metis append.assoc subset_trans)

lemma queue_forward_facts:
  "extends s (queue_forward phi i s)" "types (queue_forward phi i s) = types s"
  "inForwardQueue (queue_forward phi i s) = insert i (inForwardQueue s)"
  by (auto simp: extends_def queue_forward_def)

lemma queue_func_facts:
  "extends s (queue_func f s)" "types (queue_func f s) = types s" "inForwardQueue (queue_func f s) = inForwardQueue s"
  by (auto simp: extends_def queue_func_def)

lemma fold_queue_forward:
  "extends s (fold (queue_forward phi) xs s) \<and> types (fold (queue_forward phi) xs s) = types s \<and>
   inForwardQueue (fold (queue_forward phi) xs s) = inForwardQueue s \<union> set xs"
proof (induction xs arbitrary: s)
  case (Cons i xs)
  then show ?case
    using extends_trans[OF queue_forward_facts(1)[where s = s and phi = phi and i = i] conjunct1[OF Cons]]
    by (simp add: queue_forward_facts)
qed (simp add: extends_refl)

lemma ForwardQueue_facts:
  "extends s (ForwardQueue g r s)" "types (ForwardQueue g r s) = types s"
  "inForwardQueue (ForwardQueue g r s) = inForwardQueue s \<union> set (users_of g r)"
proof -
  let ?s = "queue_func (func_of g (inst_of g r)) s"
  note f = fold_queue_forward[where s = ?s and phi = "is_phi g" and xs = "users_of g r"]
  show "extends s (ForwardQueue g r s)" unfolding ForwardQueue_def
    using extends_trans[OF queue_func_facts(1) conjunct1[OF f]] .
  show "types (ForwardQueue g r s) = types s"
    "inForwardQueue (ForwardQueue g r s) = inForwardQueue s \<union> set (users_of g r)"
    using f by (simp_all add: ForwardQueue_def queue_func_facts)
qed

lemma Mark_facts:
  assumes "TagMark g checked r t s = returns (s', c)"
  shows "extends s s'" "types s' = (if c then (types s)(r \<mapsto> t) else types s)"
    "c \<Longrightarrow> set (users_of g r) \<subseteq> inForwardQueue s'" "types s' r = Some t"
proof -
  have f: "extends s (ForwardQueue g r (s\<lparr>types := ts\<rparr>))" for ts
    using ForwardQueue_facts(1)[of "s\<lparr>types := ts\<rparr>" g r] by (simp add: extends_def)
  show "extends s s'" "types s' = (if c then (types s)(r \<mapsto> t) else types s)"
    "c \<Longrightarrow> set (users_of g r) \<subseteq> inForwardQueue s'" "types s' r = Some t"
    using assms f ForwardQueue_facts(2,3)[where g = g and r = r]
    by (auto simp: TagMark_def tagged_eq_eq extends_refl split: option.splits if_splits)
qed

subsection \<open>Dispatching an instruction\<close>

lemma run_actions_Cons:
  assumes "run_actions g checked (a # as) s = returns s'"
  obtains "a (types s) = returns None" "run_actions g checked as s = returns s'"
  | r t s1 c where "a (types s) = returns (Some (r, t))" "TagMark g checked r t s = returns (s1, c)"
      "run_actions g checked as s1 = returns s'"
  using assms by (auto split: sum.splits option.splits)

lemma run_actions_ok: "queues_ok g s \<Longrightarrow> run_actions g checked as s = returns s' \<Longrightarrow> queues_ok g s'"
proof (induction "as" arbitrary: s)
  case (Cons a "as")
  from Cons.prems(2) show ?case
  proof (rule run_actions_Cons)
    fix r t s1 c
    assume "TagMark g checked r t s = returns (s1, c)" "run_actions g checked as s1 = returns s'"
    then show ?thesis using Cons.IH[OF TagMark_ok[OF Cons.prems(1)]] by simp
  qed (use Cons in simp)
qed simp

lemma run_actions_extends: "run_actions g checked as s = returns s' \<Longrightarrow> extends s s'"
proof (induction "as" arbitrary: s)
  case (Cons a "as")
  from Cons.prems show ?case
  proof (rule run_actions_Cons)
    fix r t s1 c
    assume "TagMark g checked r t s = returns (s1, c)" "run_actions g checked as s1 = returns s'"
    then show ?thesis using extends_trans[OF Mark_facts(1) Cons.IH] by simp
  qed (use Cons in simp)
qed (simp add: extends_refl)

text \<open>A register whose type differs after the actions was marked by one, and its users are queued.\<close>

lemma run_actions_changed:
  assumes "run_actions g checked as s = returns s'" "types s' r \<noteq> types s r"
  shows "set (users_of g r) \<subseteq> inForwardQueue s' \<and>
    (\<exists>a \<in> set as. \<exists>ts t. a ts = returns (Some (r, t)))"
  using assms
proof (induction "as" arbitrary: s)
  case (Cons a "as")
  from Cons.prems(1) show ?case
  proof (rule run_actions_Cons)
    assume "run_actions g checked as s = returns s'"
    then show ?thesis using Cons.IH Cons.prems(2) by auto
  next
    fix r1 t1 s1 c
    assume m: "a (types s) = returns (Some (r1, t1))" "TagMark g checked r1 t1 s = returns (s1, c)"
      "run_actions g checked as s1 = returns s'"
    note f = Mark_facts[OF m(2)] run_actions_extends[OF m(3)]
    show ?thesis
    proof (cases "types s' r = types s1 r")
      case True
      then have "c" "r = r1" using Cons.prems(2) f(2) by (auto split: if_splits)
      then show ?thesis using f(3,5) m(1) unfolding extends_def by (metis list.set_intros(1) subset_trans)
    next
      case False
      then show ?thesis using Cons.IH[OF m(3)] by auto
    qed
  qed
qed simp

subsection \<open>One step of the forward loop\<close>

text \<open>The reference: while a queue is not empty, dispatch the first plain instruction, else the first PHI.\<close>

definition next_inst :: "('r, 'i, 'f) tag_state \<Rightarrow> 'i option" where
  "next_inst s =
     (if forwardQueue s \<noteq> [] then Some (hd (forwardQueue s))
      else if forwardPhiQueue s \<noteq> [] then Some (hd (forwardPhiQueue s))
      else None)"

definition forward_step :: "('r, 'i, 'f) use_graph \<Rightarrow> bool \<Rightarrow> ('r, 'i) program \<Rightarrow> ('r, 'i, 'f) tag_state \<Rightarrow>
    ('r, 'i, 'f) tag_state result" where
  "forward_step g checked prog s =
     (if forwardQueue s \<noteq> [] then step_plain g checked prog s else step_phi g checked prog s)"

partial_function (option) forward_run :: "('r, 'i, 'f) use_graph \<Rightarrow> bool \<Rightarrow> ('r, 'i) program \<Rightarrow>
    ('r, 'i, 'f) tag_state \<Rightarrow> ('r, 'i, 'f) tag_state result option" where
  "forward_run g checked prog s =
     (if next_inst s = None then Some (returns s)
      else case forward_step g checked prog s of
          Inl e \<Rightarrow> Some (Inl e)
        | Inr s' \<Rightarrow> forward_run g checked prog s')"

lemma drain_plain_run:
  "drain_plain g checked prog s = Some x \<Longrightarrow>
     forward_run g checked prog s = (case x of Inl e \<Rightarrow> Some (Inl e) | Inr s' \<Rightarrow> forward_run g checked prog s')"
proof (induction rule: drain_plain.raw_induct[rotated, consumes 1])
  case (1 drain g checked prog s x)
  show ?case
  proof (cases "forwardQueue s = []")
    case False
    then have "forward_run g checked prog s = (case step_plain g checked prog s of
        Inl e \<Rightarrow> Some (Inl e) | Inr s' \<Rightarrow> forward_run g checked prog s')"
      by (subst forward_run.simps) (simp add: next_inst_def forward_step_def)
    then show ?thesis using 1 False by (auto split: sum.splits)
  qed (use 1 in auto)
qed

lemma drain_phi_run:
  "drain_phi g checked prog s = Some x \<Longrightarrow>
     forward_run g checked prog s = (case x of Inl e \<Rightarrow> Some (Inl e) | Inr s' \<Rightarrow> forward_run g checked prog s')"
proof (induction rule: drain_phi.raw_induct[rotated, consumes 1])
  case (1 drain g checked prog s x)
  show ?case
  proof (cases "forwardQueue s = [] \<and> forwardPhiQueue s \<noteq> []")
    case True
    then have "forward_run g checked prog s = (case step_phi g checked prog s of
        Inl e \<Rightarrow> Some (Inl e) | Inr s' \<Rightarrow> forward_run g checked prog s')"
      by (subst forward_run.simps) (simp add: next_inst_def forward_step_def)
    then show ?thesis using 1 True by (auto split: sum.splits)
  qed (use 1 in \<open>auto split: if_splits\<close>)
qed

lemma loop_is_run: "forward_loop g checked prog s = Some x \<Longrightarrow> forward_run g checked prog s = Some x"
proof (induction rule: forward_loop.raw_induct[rotated, consumes 1])
  case (1 loop g checked prog s x)
  show ?case
  proof (cases "forwardQueue s = [] \<and> forwardPhiQueue s = []")
    case True
    then show ?thesis using 1(2) by (subst forward_run.simps) (simp add: next_inst_def)
  next
    case False
    then obtain a where a: "drain_plain g checked prog s = Some a"
      using 1(2) by (auto simp: Option.bind_eq_Some_conv split: if_splits)
    show ?thesis
    proof (cases a)
      case (Inl e)
      then show ?thesis using 1(2) False drain_plain_run[OF a] a by auto
    next
      case (Inr s1)
      then obtain b where b: "drain_phi g checked prog s1 = Some b"
        using 1(2) False a by (auto simp: Option.bind_eq_Some_conv split: if_splits)
      show ?thesis
        using 1 False a b Inr drain_plain_run[OF a] drain_phi_run[OF b] by (cases b) auto
    qed
  qed
qed

lemma forward_loop_done: "forwardQueue s = [] \<Longrightarrow> forwardPhiQueue s = [] \<Longrightarrow> forward_loop g checked prog s = Some (returns s)"
  by (subst forward_loop.simps) simp

lemma forward_loop_more: "\<not> (forwardQueue s = [] \<and> forwardPhiQueue s = []) \<Longrightarrow>
    forward_loop g checked prog s =
      do { a \<leftarrow> drain_plain g checked prog s;
           (case a of
              Inl e \<Rightarrow> Some (Inl e)
            | Inr s1 \<Rightarrow>
                do { b \<leftarrow> drain_phi g checked prog s1;
                     (case b of Inl e \<Rightarrow> Some (Inl e) | Inr s2 \<Rightarrow> forward_loop g checked prog s2) }) }"
  by (subst forward_loop.simps) (simp only: if_False)

lemma drain_stop:
  "forwardQueue s = [] \<Longrightarrow> drain_plain g checked prog s = Some (returns s)"
  "forwardQueue s \<noteq> [] \<or> forwardPhiQueue s = [] \<Longrightarrow> drain_phi g checked prog s = Some (returns s)"
  by (subst drain_plain.simps; simp) (subst drain_phi.simps; simp)

lemma loop_after_plain: "(do { b \<leftarrow> drain_phi g checked prog s;
    (case b of Inl e \<Rightarrow> Some (Inl e) | Inr s2 \<Rightarrow> forward_loop g checked prog s2) }) = forward_loop g checked prog s"
proof (cases "forwardQueue s = [] \<and> forwardPhiQueue s \<noteq> []")
  case True
  then show ?thesis
    by (subst forward_loop_more[of s]) (simp_all add: drain_stop(1))
next
  case False
  then have "drain_phi g checked prog s = Some (returns s)" by (intro drain_stop(2)) blast
  then show ?thesis by simp
qed

lemma loop_before_plain: "(do { a \<leftarrow> drain_plain g checked prog s;
    (case a of Inl e \<Rightarrow> Some (Inl e) | Inr s1 \<Rightarrow> forward_loop g checked prog s1) }) = forward_loop g checked prog s"
proof (cases "forwardQueue s = []")
  case True
  then show ?thesis by (simp add: drain_stop(1))
next
  case False
  then show ?thesis by (subst (2) forward_loop_more) (simp_all add: loop_after_plain)
qed

lemma loop_plain_step:
  assumes "forwardQueue s \<noteq> []" "step_plain g checked prog s = returns s'"
  shows "forward_loop g checked prog s = forward_loop g checked prog s'"
proof -
  have "drain_plain g checked prog s = drain_plain g checked prog s'"
    using assms by (subst drain_plain.simps) simp
  then show ?thesis
    using loop_before_plain[of g checked prog s] loop_before_plain[of g checked prog s'] by simp
qed

lemma loop_phi_step:
  assumes "forwardQueue s = []" "forwardPhiQueue s \<noteq> []" "step_phi g checked prog s = returns s'"
  shows "forward_loop g checked prog s = forward_loop g checked prog s'"
proof -
  have "drain_phi g checked prog s = drain_phi g checked prog s'"
    using assms by (subst drain_phi.simps) simp
  then show ?thesis
    using loop_after_plain[of g checked prog s] loop_after_plain[of g checked prog s'] by simp
qed

lemma loop_error:
  assumes "forwardQueue s \<noteq> [] \<or> forwardPhiQueue s \<noteq> []" "forward_step g checked prog s = Inl e"
  shows "forward_loop g checked prog s = Some (Inl e)"
proof (cases "forwardQueue s = []")
  case True
  then have "drain_phi g checked prog s = Some (Inl e)"
    using assms by (subst drain_phi.simps) (simp add: forward_step_def)
  then show ?thesis using loop_after_plain[of g checked prog s] by simp
next
  case False
  then have "drain_plain g checked prog s = Some (Inl e)"
    using assms by (subst drain_plain.simps) (simp add: forward_step_def)
  then show ?thesis using loop_before_plain[of g checked prog s] by simp
qed

lemma loop_step:
  assumes "next_inst s \<noteq> None" "forward_step g checked prog s = returns s'"
  shows "forward_loop g checked prog s = forward_loop g checked prog s'"
  using assms loop_plain_step loop_phi_step
  by (auto simp: next_inst_def forward_step_def split: if_splits)

lemma run_is_loop: "forward_run g checked prog s = Some x \<Longrightarrow> forward_loop g checked prog s = Some x"
proof (induction rule: forward_run.raw_induct[rotated, consumes 1])
  case (1 run g checked prog s x)
  show ?case
  proof (cases "next_inst s = None")
    case True
    then show ?thesis using 1(2) forward_loop_done[of s] by (auto simp: next_inst_def split: if_splits)
  next
    case False
    then have ne: "forwardQueue s \<noteq> [] \<or> forwardPhiQueue s \<noteq> []" by (auto simp: next_inst_def split: if_splits)
    show ?thesis
    proof (cases "forward_step g checked prog s")
      case (Inl e)
      then show ?thesis using 1(2) False loop_error[OF ne Inl] by simp
    next
      case (Inr s')
      then show ?thesis using 1 False loop_step[OF False Inr] by simp
    qed
  qed
qed

subsection \<open>What the loop establishes\<close>

text \<open>The runs of the loop, with the types each instruction saw when it was last dispatched.\<close>

inductive forward_steps :: "('r, 'i, 'f) use_graph \<Rightarrow> bool \<Rightarrow> ('r, 'i) program \<Rightarrow>
    ('r, 'i, 'f) tag_state \<Rightarrow> ('i \<Rightarrow> 'r \<Rightarrow> tagged_type option) \<Rightarrow>
    ('r, 'i, 'f) tag_state \<Rightarrow> ('i \<Rightarrow> 'r \<Rightarrow> tagged_type option) \<Rightarrow> bool"
  for g checked prog s0 seen0 where
  begin_steps: "forward_steps g checked prog s0 seen0 s0 seen0"
| dispatch: "forward_steps g checked prog s0 seen0 s seen \<Longrightarrow> next_inst s = Some i \<Longrightarrow>
    forward_step g checked prog s = returns s' \<Longrightarrow>
    forward_steps g checked prog s0 seen0 s' (seen(i := types s))"

inductive_cases forward_stepsE: "forward_steps g checked prog s0 seen0 s seen"

lemma forward_steps_trans:
  "forward_steps g checked prog s1 seen1 s2 seen2 \<Longrightarrow> forward_steps g checked prog s0 seen0 s1 seen1 \<Longrightarrow>
   forward_steps g checked prog s0 seen0 s2 seen2"
  by (induction rule: forward_steps.induct) (auto intro: forward_steps.intros)

lemma run_steps:
  "forward_run g checked prog s = Some x \<Longrightarrow>
   (case x of Inl _ \<Rightarrow> True | Inr s' \<Rightarrow>
      next_inst s' = None \<and> (\<forall>seen. \<exists>seen'. forward_steps g checked prog s seen s' seen'))"
proof (induction rule: forward_run.raw_induct[rotated, consumes 1])
  case (1 run g checked prog s x)
  show ?case
  proof (cases "next_inst s")
    case None
    then have "x = returns s" using 1(2) by simp
    then show ?thesis using None by (auto intro: begin_steps)
  next
    case (Some i)
    show ?thesis
    proof (cases "forward_step g checked prog s")
      case (Inl e)
      then have "x = Inl e" using 1(2) Some by simp
      then show ?thesis by simp
    next
      case (Inr s1)
      then have r: "run g checked prog s1 = Some x" using 1(2) Some by simp
      have "\<exists>seen'. forward_steps g checked prog s seen s' seen'"
        if x: "x = returns s'" for s' seen
      proof -
        obtain seen' where "forward_steps g checked prog s1 (seen(i := types s)) s' seen'"
          using 1(1)[OF r] x by auto
        then show ?thesis
          using forward_steps_trans dispatch[OF begin_steps Some Inr] by blast
      qed
      then show ?thesis using 1(1)[OF r] by (auto split: sum.splits)
    qed
  qed
qed

lemma forward_step_facts:
  assumes ok: "queues_ok g s" and i: "next_inst s = Some i" and st: "forward_step g checked prog s = returns s'"
  obtains s1 where "run_actions g checked (prog i (types s)) s = returns s1" "types s' = types s1"
    "inForwardQueue s' = inForwardQueue s1 - {i}" "i \<in> inForwardQueue s" "queues_ok g s'"
proof (cases "forwardQueue s = []")
  case False
  then have i': "i = hd (forwardQueue s)" using i by (simp add: next_inst_def)
  obtain s1 where s1: "run_actions g checked (prog i (types s)) s = returns s1"
      "s' = s1\<lparr>inForwardQueue := inForwardQueue s1 - {i}, forwardQueue := tl (forwardQueue s1)\<rparr>"
    using st False i' by (auto simp: forward_step_def step_plain_def Let_def split: sum.splits)
  have q: "queues_ok g s1" using run_actions_ok[OF ok s1(1)] .
  obtain xs where xs: "forwardQueue s1 = forwardQueue s @ xs" using run_actions_extends[OF s1(1)] by (auto simp: extends_def)
  then obtain ys where ys: "forwardQueue s1 = i # ys" using False i' by (cases "forwardQueue s") auto
  have "i \<notin> set (forwardPhiQueue s1)" using q ys by (auto simp: queues_ok_def)
  then have "queues_ok g s'" using q ys s1(2) by (auto simp: queues_ok_def)
  moreover have "i \<in> inForwardQueue s" using ok False i' by (auto simp: queues_ok_def)
  ultimately show ?thesis using that[OF s1(1)] s1(2) by simp
next
  case True
  then have i': "i = hd (forwardPhiQueue s)" "forwardPhiQueue s \<noteq> []" using i by (auto simp: next_inst_def split: if_splits)
  obtain s1 where s1: "run_actions g checked (prog i (types s)) s = returns s1"
      "s' = s1\<lparr>inForwardQueue := inForwardQueue s1 - {i}, forwardPhiQueue := tl (forwardPhiQueue s1)\<rparr>"
    using st True i' by (auto simp: forward_step_def step_phi_def Let_def split: sum.splits)
  have q: "queues_ok g s1" using run_actions_ok[OF ok s1(1)] .
  obtain xs where xs: "forwardPhiQueue s1 = forwardPhiQueue s @ xs" using run_actions_extends[OF s1(1)] by (auto simp: extends_def)
  then obtain ys where ys: "forwardPhiQueue s1 = i # ys" using i' by (cases "forwardPhiQueue s") auto
  have "i \<notin> set (forwardQueue s1)" using q ys by (auto simp: queues_ok_def)
  then have "queues_ok g s'" using q ys s1(2) by (auto simp: queues_ok_def)
  moreover have "i \<in> inForwardQueue s" using ok i' by (auto simp: queues_ok_def)
  ultimately show ?thesis using that[OF s1(1)] s1(2) by simp
qed

text \<open>
  An instruction that is not queued saw the current types of its operands when it was last dispatched.
  This needs that no instruction marks a register it uses itself.
\<close>

definition tag_settled :: "('r, 'i, 'f) use_graph \<Rightarrow> ('r, 'i, 'f) tag_state \<Rightarrow> ('i \<Rightarrow> 'r \<Rightarrow> tagged_type option) \<Rightarrow> bool" where
  "tag_settled g s seen \<longleftrightarrow> (\<forall>i r. i \<in> set (users_of g r) \<longrightarrow> i \<notin> inForwardQueue s \<longrightarrow> types s r = seen i r)"

definition no_self_marks :: "('r, 'i, 'f) use_graph \<Rightarrow> ('r, 'i) program \<Rightarrow> bool" where
  "no_self_marks g prog \<longleftrightarrow>
     (\<forall>i ts a ts' r t. a \<in> set (prog i ts) \<longrightarrow> a ts' = returns (Some (r, t)) \<longrightarrow> i \<notin> set (users_of g r))"

lemma settled_actions:
  assumes "tag_settled g s seen" "run_actions g checked as s = returns s'"
  shows "tag_settled g s' seen"
  unfolding tag_settled_def
proof (intro allI impI)
  fix i r assume i: "i \<in> set (users_of g r)" "i \<notin> inForwardQueue s'"
  then have "types s' r = types s r" using run_actions_changed[OF assms(2)] by blast
  moreover have "i \<notin> inForwardQueue s" using i(2) run_actions_extends[OF assms(2)] by (auto simp: extends_def)
  ultimately show "types s' r = seen i r" using assms(1) i(1) by (simp add: tag_settled_def)
qed

lemma forward_steps_settled:
  assumes "forward_steps g checked prog s0 seen0 s seen" "no_self_marks g prog"
    and "queues_ok g s0" "tag_settled g s0 seen0"
  shows "queues_ok g s \<and> tag_settled g s seen"
  using assms(1)
proof (induction rule: forward_steps.induct)
  case begin_steps
  then show ?case using assms(3,4) by simp
next
  case (dispatch s seen i s')
  obtain s1 where s1: "run_actions g checked (prog i (types s)) s = returns s1" "types s' = types s1"
      "inForwardQueue s' = inForwardQueue s1 - {i}" "queues_ok g s'"
    using forward_step_facts[OF _ dispatch(2,3)] dispatch.IH by metis
  have set1: "tag_settled g s1 seen" using settled_actions[OF _ s1(1)] dispatch.IH by blast
  have own: "types s1 r = types s r" if "i \<in> set (users_of g r)" for r
    using run_actions_changed[OF s1(1), of r] assms(2) that unfolding no_self_marks_def by metis
  have "tag_settled g s' (seen(i := types s))"
    using set1 own s1(2,3) by (auto simp: tag_settled_def)
  then show ?case using s1(4) by (rule conjI[rotated])
qed

subsection \<open>Two small programs\<close>

text \<open>
  Registers 0 to 2 are the arguments of a function, registers 3 to 5 those its caller passes to it.
  Instruction 1 is the call in the caller. In the first program instruction 0 copies the first argument to
  register 6; in the second it is a recursive call \<^verbatim>\<open>f(b, c, a)\<close> of \<^verbatim>\<open>f(a, b, c)\<close>.
\<close>

definition calls_graph :: "(nat, nat, nat) use_graph" where
  "calls_graph = \<lparr>inst_of = \<lambda>r. r + 10, func_of = \<lambda>_. 0,
     users_of = (\<lambda>r. if r < 3 then [0] else if r < 6 then [1] else []),
     is_phi = \<lambda>_. False, reg_type = \<lambda>_. I64\<rparr>"

definition outer_types :: "nat action list" where
  "outer_types = [\<lambda>_. returns (Some (3, HEAP)), \<lambda>_. returns (Some (4, HEAP)), \<lambda>_. returns (Some (5, Even))]"

definition plain_prog :: "(nat, nat) program" where
  "plain_prog i ts =
     (if i = 0 then [mark_action 6 (VisitMovInst FORWARD I64 (FindTag ts 0))]
      else if i = 1 then forward_call (\<lambda>_. I64) CC_C (\<lambda>k. [k]) [3, 4, 5] ts
      else [])"

definition rotate_prog :: "(nat, nat) program" where
  "rotate_prog i ts =
     (if i = 0 then forward_call (\<lambda>_. I64) CC_C (\<lambda>k. [k]) [1, 2, 0] ts
      else if i = 1 then forward_call (\<lambda>_. I64) CC_C (\<lambda>k. [k]) [3, 4, 5] ts
      else [])"

subsection \<open>Properties\<close>

text \<open>
  C24: every operation on the types keeps the queues and their sets in step: each queue holds the elements
  of its set once, and the two forward queues split the set between plain instructions and PHIs.
\<close>

theorem analysis_queues_invariant:
  assumes "queues_ok g s"
  shows "(\<forall>r t checked s' c. TagMark g checked r t s = returns (s', c) \<longrightarrow> queues_ok g s') \<and>
    (\<forall>r t. queues_ok g (fst (Refine g r t s))) \<and>
    (\<forall>r t checked s' c. Define g checked r t s = returns (s', c) \<longrightarrow> queues_ok g s') \<and>
    (\<forall>checked prog s'. next_inst s \<noteq> None \<longrightarrow> forward_step g checked prog s = returns s' \<longrightarrow> queues_ok g s')"
proof (intro conjI allI impI)
  fix checked prog s' assume st: "next_inst s \<noteq> None" "forward_step g checked prog s = returns s'"
  then obtain i where "next_inst s = Some i" by blast
  then show "queues_ok g s'" using forward_step_facts[OF assms _ st(2)] by metis
next
  show "queues_ok g (fst (Refine g r t s))" for r t
    by (rule Refine_ok[OF assms, of r t _ "snd (Refine g r t s)"]) simp
qed (rule TagMark_ok[OF assms], assumption, rule Define_ok[OF assms], assumption)

lemma empty_state_ok: "queues_ok g empty_state"
  by (simp add: queues_ok_def empty_state_def)

theorem analysis_queues_invariant_witness:
  "queues_ok calls_graph (fst (Refine calls_graph 3 VAL empty_state))"
  using analysis_queues_invariant[OF empty_state_ok, of calls_graph] by simp

text \<open>
  C23: the nested loops of \<^verbatim>\<open>Solve\<close> compute what one loop does that takes the first plain instruction, or
  the first PHI when there is none: they return, fail and diverge together.
\<close>

theorem forward_loops_equivalent:
  "forward_loop g checked prog s = forward_run g checked prog s"
  using loop_is_run[of g checked prog s] run_is_loop[of g checked prog s]
  by (cases "forward_loop g checked prog s"; cases "forward_run g checked prog s") auto


lemmas run_simps = calls_graph_def outer_types_def empty_state_def TagMark_def ForwardQueue_def queue_func_def
  queue_forward_def tagged_eq_eq Even_def

lemmas call_simps = step_plain_def forward_call_def FindTag_def IsUnknown_def IsCamlCall_def join_arg_def Clamp_def
  Converges_def TagLess_def upt_rec TagLUB_def TagLUB_rows IsOdd_def masked_def TagLessInt_simps mark_action_def
  VisitMovInst_def mark_known_def

definition outer_state :: "(nat, nat, nat) tag_state" where
  "outer_state = (case run_actions calls_graph True outer_types empty_state of Inr s \<Rightarrow> s | Inl _ \<Rightarrow> empty_state)"

lemma outer_state_run: "run_actions calls_graph True outer_types empty_state = returns outer_state"
  by (simp add: outer_state_def run_simps)

lemma plain_loop:
  "\<exists>s. forward_loop calls_graph True plain_prog outer_state = Some (returns s) \<and> types s 6 = Some HEAP"
  apply (subst forward_loop.simps)
  apply (subst drain_plain.simps)
  apply (simp add: outer_state_def run_simps call_simps plain_prog_def fun_upd_def cong: if_weak_cong)
  apply (subst drain_plain.simps)
  apply (simp add: run_simps call_simps plain_prog_def fun_upd_def cong: if_weak_cong)
  apply (subst drain_plain.simps)
  apply (simp add: drain_stop forward_loop_done cong: if_weak_cong)
  done



lemma Refine_facts:
  assumes "types s r = Some told" "Refine g r tnew s = (s', c)"
  shows "(c \<longleftrightarrow> TagLess tnew told) \<and> types s' = (if c then (types s)(r \<mapsto> tnew) else types s) \<and>
    (c \<longrightarrow> insert (inst_of g r) (set (users_of g r)) \<subseteq> inRefineQueue s')"
proof -
  have q: "types (queue_refine i s) = types s" "inRefineQueue (queue_refine i s) = insert i (inRefineQueue s)"
    "types (queue_func f s) = types s" "inRefineQueue (queue_func f s) = inRefineQueue s" for i f and s :: "('a, 'b, 'c) tag_state"
    by (auto simp: queue_refine_def queue_func_def)
  have "types (fold (\<lambda>i s. queue_func (func_of g i) (queue_refine i s)) xs s) = types s \<and>
      inRefineQueue (fold (\<lambda>i s. queue_func (func_of g i) (queue_refine i s)) xs s) = inRefineQueue s \<union> set xs"
    for xs and s :: "('a, 'b, 'c) tag_state"
    by (induction xs arbitrary: s) (auto simp: q)
  then have "types (BackwardQueue g r s) = types s"
      "inRefineQueue (BackwardQueue g r s) = insert (inst_of g r) (inRefineQueue s) \<union> set (users_of g r)"
    for s :: "('a, 'b, 'c) tag_state"
    by (simp_all add: BackwardQueue_def q)
  then show ?thesis using assms by (auto simp: Refine_def split: if_splits)
qed

text \<open>
  \<^verbatim>\<open>Refine\<close> replaces the type of a register only by one that is strictly below it, and then queues
  the instruction and every user of the register for the backward pass.
\<close>

theorem Refine_lowers:
  assumes "types s r = Some told" "Refine g r tnew s = (s', c)"
  shows "(c \<longleftrightarrow> TagLess tnew told) \<and> types s' = (if c then (types s)(r \<mapsto> tnew) else types s) \<and>
    (c \<longrightarrow> insert (inst_of g r) (set (users_of g r)) \<subseteq> inRefineQueue s')"
  by (rule Refine_facts[OF assms])

theorem Refine_lowers_witness:
  "snd (Refine calls_graph 3 VAL (empty_state\<lparr>types := [3 \<mapsto> PTR_INT]\<rparr>)) = TagLess VAL PTR_INT"
proof -
  let ?s = "empty_state\<lparr>types := [3 \<mapsto> PTR_INT]\<rparr> :: (nat, nat, nat) tag_state"
  obtain s' c where r: "Refine calls_graph 3 VAL ?s = (s', c)" by fastforce
  have "types ?s 3 = Some PTR_INT" by simp
  from Refine_lowers[OF this r] show ?thesis using r by simp
qed

text \<open>
  refining does not end by itself: the type of a heap pointer is refined to that of a heap offset and
  back, each time with the answer that it changed.
\<close>

theorem Refine_ping_pong:
  assumes "types s r = Some HEAP" "Refine g r HEAP_OFF s = (s1, c1)" "Refine g r HEAP s1 = (s2, c2)"
  shows "c1 \<and> c2 \<and> types s2 r = Some HEAP"
proof -
  have "c1" "types s1 r = Some HEAP_OFF"
    using Refine_facts[OF assms(1,2)] by (auto simp: TagLess_def)
  then show ?thesis using Refine_facts[OF _ assms(3)] by (auto simp: TagLess_def)
qed

theorem Refine_ping_pong_witness:
  "\<exists>s1 c1 s2 c2. Refine calls_graph 3 HEAP_OFF (empty_state\<lparr>types := [3 \<mapsto> HEAP]\<rparr>) = (s1, c1) \<and>
    Refine calls_graph 3 HEAP s1 = (s2, c2) \<and> c1 \<and> c2 \<and> types s2 3 = Some HEAP"
proof -
  let ?s = "empty_state\<lparr>types := [3 \<mapsto> HEAP]\<rparr> :: (nat, nat, nat) tag_state"
  obtain s1 c1 where r1: "Refine calls_graph 3 HEAP_OFF ?s = (s1, c1)" by fastforce
  obtain s2 c2 where r2: "Refine calls_graph 3 HEAP s1 = (s2, c2)" by fastforce
  have "types ?s 3 = Some HEAP" by simp
  from Refine_ping_pong[OF this r1 r2] show ?thesis using r1 r2 by blast
qed

end
