(* ===== verification/TagPhi.thy ===== *)
theory TagPhi
  imports TagStep
begin

text \<open>
  The visitor of PHI nodes (\<^verbatim>\<open>Step::VisitPhiInst\<close>): it joins the types of all values that reach the PHI
  through any number of other PHIs. \<open>incoming r\<close> are the incoming values of \<open>r\<close> when it is a PHI and \<open>None\<close>
  when it is not. The loop over the queue of PHIs is a function that may not end.
\<close>

subsection \<open>The visitor\<close>

text \<open>The loop over the incoming values of one PHI: PHIs are queued, other values are joined.\<close>

fun phi_inputs :: "('r \<Rightarrow> 'r list option) \<Rightarrow> ('r \<Rightarrow> tagged_type) \<Rightarrow> 'r list \<Rightarrow> 'r list \<Rightarrow> tagged_type \<Rightarrow>
    ('r list \<times> tagged_type) result" where
  "phi_inputs incoming tyof [] q t = returns (q, t)"
| "phi_inputs incoming tyof (r # rs) q t =
     (if incoming r \<noteq> None then phi_inputs incoming tyof rs (q @ [r]) t
      else case TagLUB t (tyof r) of
          Inl e \<Rightarrow> Inl e
        | Inr t' \<Rightarrow> phi_inputs incoming tyof rs q t')"

partial_function (option) phi_loop :: "('r \<Rightarrow> 'r list option) \<Rightarrow> ('r \<Rightarrow> tagged_type) \<Rightarrow> 'r list \<Rightarrow> 'r set \<Rightarrow> tagged_type \<Rightarrow>
    tagged_type result option" where
  "phi_loop incoming tyof q visited t =
     (case q of
        [] \<Rightarrow> Some (returns t)
      | p # ps \<Rightarrow>
          if p \<in> visited then phi_loop incoming tyof ps visited t
          else case phi_inputs incoming tyof (case incoming p of None \<Rightarrow> [] | Some rs \<Rightarrow> rs) ps t of
              Inl e \<Rightarrow> Some (Inl e)
            | Inr (q', t') \<Rightarrow> phi_loop incoming tyof q' (insert p visited) t')"

definition StepPhiInst :: "step_kind \<Rightarrow> ('r \<Rightarrow> 'r list option) \<Rightarrow> ('r \<Rightarrow> tagged_type) \<Rightarrow> 'r \<Rightarrow> ty \<Rightarrow>
    tagged_type option result option" where
  "StepPhiInst kind incoming tyof phi t =
     map_option (\<lambda>r. case r of Inl e \<Rightarrow> Inl e | Inr u \<Rightarrow> mark_known (\<lambda>r. Clamp kind r t) u)
       (phi_loop incoming tyof [phi] {} UNKNOWN)"

subsection \<open>Lemmas\<close>

abbreviation inputs_of :: "('r \<Rightarrow> 'r list option) \<Rightarrow> 'r \<Rightarrow> 'r list" where
  "inputs_of incoming p \<equiv> (case incoming p of None \<Rightarrow> [] | Some rs \<Rightarrow> rs)"

definition below :: "tagged_type \<Rightarrow> tagged_type \<Rightarrow> bool" where
  "below s t \<longleftrightarrow> (\<forall>v. denotes s v \<longrightarrow> denotes t v)"

lemma below_trans: "below s t \<Longrightarrow> below t u \<Longrightarrow> below s u"
  by (simp add: below_def)

lemma TagLUB_below: "TagLUB s t = returns u \<Longrightarrow> below s u \<and> below t u"
  using TagLUB_denotes by (auto simp: below_def)

lemma phi_inputs_spec:
  assumes "phi_inputs incoming tyof rs q t = returns (q', t')"
  shows "q' = q @ filter (\<lambda>r. incoming r \<noteq> None) rs \<and> below t t' \<and>
    (\<forall>r \<in> set rs. incoming r = None \<longrightarrow> below (tyof r) t')"
  using assms
proof (induction rs arbitrary: q t)
  case Nil
  then show ?case by (simp add: below_def)
next
  case (Cons r rs)
  show ?case
  proof (cases "incoming r")
    case None
    then obtain u where u: "TagLUB t (tyof r) = returns u" "phi_inputs incoming tyof rs q u = returns (q', t')"
      using Cons.prems by (auto split: sum.splits)
    then show ?thesis
      using Cons.IH[OF u(2)] TagLUB_below[OF u(1)] None below_trans by auto
  next
    case (Some x)
    then have "phi_inputs incoming tyof rs (q @ [r]) t = returns (q', t')" using Cons.prems by simp
    from Cons.IH[OF this] show ?thesis using Some by simp
  qed
qed

text \<open>The visited PHIs are expanded: their PHI inputs are visited or queued, their other inputs joined.\<close>

definition expanded :: "('r \<Rightarrow> 'r list option) \<Rightarrow> ('r \<Rightarrow> tagged_type) \<Rightarrow> 'r list \<Rightarrow> 'r set \<Rightarrow> tagged_type \<Rightarrow> bool" where
  "expanded incoming tyof q visited t \<longleftrightarrow>
     (\<forall>p \<in> visited. \<forall>r \<in> set (inputs_of incoming p).
        (incoming r \<noteq> None \<longrightarrow> r \<in> visited \<or> r \<in> set q) \<and> (incoming r = None \<longrightarrow> below (tyof r) t))"

lemma phi_loop_expanded:
  "phi_loop incoming tyof q visited t = Some x \<Longrightarrow>
   expanded incoming tyof q visited t \<longrightarrow>
   (case x of Inl _ \<Rightarrow> True | Inr u \<Rightarrow>
      \<exists>vis. visited \<union> set q \<subseteq> vis \<and> expanded incoming tyof [] vis u)"
proof (induction rule: phi_loop.raw_induct[rotated, consumes 1])
  case (1 loop incoming tyof q visited t x)
  show ?case
  proof (cases q)
    case Nil
    then show ?thesis using 1(2) by (auto intro: exI[of _ visited])
  next
    case (Cons p ps)
    show ?thesis
    proof (cases "p \<in> visited")
      case True
      then have r: "loop incoming tyof ps visited t = Some x" using 1(2) Cons by simp
      have "expanded incoming tyof q visited t \<Longrightarrow> expanded incoming tyof ps visited t"
        using Cons True by (auto simp: expanded_def)
      then show ?thesis using 1(1)[OF r] Cons True by (auto split: sum.splits)
    next
      case False
      show ?thesis
      proof (cases "phi_inputs incoming tyof (inputs_of incoming p) ps t")
        case (Inl e)
        then show ?thesis using 1(2) Cons False by auto
      next
        case (Inr qt)
        obtain q' t' where qt: "qt = (q', t')" by fastforce
        then have i: "phi_inputs incoming tyof (inputs_of incoming p) ps t = returns (q', t')" using Inr by simp
        then have r: "loop incoming tyof q' (insert p visited) t' = Some x" using 1(2) Cons False by simp
        have "expanded incoming tyof q' (insert p visited) t'" if "expanded incoming tyof q visited t"
        proof -
          have q': "set q' = set ps \<union> {r \<in> set (inputs_of incoming p). incoming r \<noteq> None}" "below t t'"
              "\<And>r. r \<in> set (inputs_of incoming p) \<Longrightarrow> incoming r = None \<Longrightarrow> below (tyof r) t'"
            using phi_inputs_spec[OF i] by auto
          show ?thesis unfolding expanded_def
          proof (intro ballI conjI impI)
            fix a r assume a: "a \<in> insert p visited" "r \<in> set (inputs_of incoming a)"
            show "r \<in> insert p visited \<or> r \<in> set q'" if "incoming r \<noteq> None"
              using \<open>expanded incoming tyof q visited t\<close> a that q'(1) Cons by (auto simp: expanded_def)
            show "below (tyof r) t'" if r: "incoming r = None"
            proof (cases "a = p")
              case False
              then have "below (tyof r) t"
                using \<open>expanded incoming tyof q visited t\<close> a r by (simp add: expanded_def)
              then show ?thesis using below_trans q'(2) by blast
            qed (use q'(3) a r in simp)
          qed
        qed
        moreover have "visited \<union> set q \<subseteq> insert p visited \<union> set q'"
          using phi_inputs_spec[OF i] Cons by auto
        moreover have "visited \<union> set q \<subseteq> vis" if "insert p visited \<union> set q' \<subseteq> vis" for vis
          using that \<open>visited \<union> set q \<subseteq> insert p visited \<union> set q'\<close> by (rule subset_trans[rotated])
        ultimately show ?thesis using 1(1)[OF r] by (cases x) (simp_all, meson)
      qed
    qed
  qed
qed

text \<open>The loop ends when there are finitely many PHIs.\<close>

lemma phi_loop_ends:
  assumes "finite (dom incoming)" "set q \<subseteq> dom incoming"
  shows "\<exists>x. phi_loop incoming tyof q visited t = Some x"
  using assms(2)
proof (induction "(card (dom incoming - visited), length q)" arbitrary: q visited t
    rule: wf_induct_rule[OF wf_lex_prod[OF wf_less_than wf_less_than]])
  case 1
  show ?case
  proof (cases q)
    case Nil
    then show ?thesis by (subst phi_loop.simps) simp
  next
    case (Cons p ps)
    show ?thesis
    proof (cases "p \<in> visited")
      case True
      then have "\<exists>x. phi_loop incoming tyof ps visited t = Some x"
        using 1 Cons by (intro 1(1)) auto
      then show ?thesis using Cons True by (subst phi_loop.simps) simp
    next
      case False
      show ?thesis
      proof (cases "phi_inputs incoming tyof (inputs_of incoming p) ps t")
        case (Inl e)
        then show ?thesis using Cons False by (subst phi_loop.simps) simp
      next
        case (Inr qt)
        obtain q' t' where qt: "qt = (q', t')" by fastforce
        then have i: "phi_inputs incoming tyof (inputs_of incoming p) ps t = returns (q', t')" using Inr by simp
        have "card (dom incoming - insert p visited) < card (dom incoming - visited)"
          using False 1(2) Cons assms(1) by (intro psubset_card_mono) auto
        moreover have "set q' \<subseteq> dom incoming" using phi_inputs_spec[OF i] 1(2) Cons by auto
        ultimately have "\<exists>x. phi_loop incoming tyof q' (insert p visited) t' = Some x"
          by (intro 1(1)) auto
        then show ?thesis using Cons False i by (subst phi_loop.simps) simp
      qed
    qed
  qed
qed

subsection \<open>Properties\<close>

text \<open>
  with finitely many PHIs the visitor of a PHI returns or reports a combination that is not implemented,
  and a type it finds stands for every value of every input that reaches the PHI through other PHIs.
\<close>

theorem VisitPhiInst_joins:
  assumes "finite (dom incoming)" "incoming phi \<noteq> None"
  shows "\<exists>x. phi_loop incoming tyof [phi] {} UNKNOWN = Some x \<and>
    (\<forall>u p r v. x = returns u \<longrightarrow> (phi, p) \<in> {(a, b). b \<in> set (inputs_of incoming a) \<and> incoming b \<noteq> None}\<^sup>* \<longrightarrow>
       r \<in> set (inputs_of incoming p) \<longrightarrow> incoming r = None \<longrightarrow> denotes (tyof r) v \<longrightarrow> denotes u v)"
proof -
  obtain x where x: "phi_loop incoming tyof [phi] {} UNKNOWN = Some x"
    using phi_loop_ends[OF assms(1), of "[phi]" tyof "{}" UNKNOWN] assms(2) by auto
  have "denotes u v"
    if u: "x = returns u" and p: "(phi, p) \<in> {(a, b). b \<in> set (inputs_of incoming a) \<and> incoming b \<noteq> None}\<^sup>*"
      and r: "r \<in> set (inputs_of incoming p)" "incoming r = None" "denotes (tyof r) v" for u p r v
  proof -
    have "expanded incoming tyof [phi] {} UNKNOWN" by (simp add: expanded_def)
    then obtain vis where vis: "phi \<in> vis" "expanded incoming tyof [] vis u"
      using phi_loop_expanded[OF x] u by auto
    have "p \<in> vis" using p
      by (induction rule: rtrancl_induct) (use vis in \<open>auto simp: expanded_def\<close>)
    then show ?thesis using vis(2) r by (auto simp: expanded_def below_def)
  qed
  then show ?thesis using x by blast
qed

text \<open>Two PHIs that feed each other, and an input of each.\<close>

definition phi_pair :: "nat \<Rightarrow> nat list option" where
  "phi_pair = [0 \<mapsto> [1, 2], 1 \<mapsto> [0, 3]]"

theorem VisitPhiInst_joins_witness:
  "\<exists>x. phi_loop phi_pair (\<lambda>r. if r = 2 then HEAP else Odd) [0] {} UNKNOWN = Some x \<and>
    (\<forall>u. x = returns u \<longrightarrow> denotes u (HeapV 8) \<and> denotes u (IntV 3))"
proof -
  have "finite (dom phi_pair)" "phi_pair 0 \<noteq> None" by (simp_all add: phi_pair_def)
  from VisitPhiInst_joins[OF this, of "\<lambda>r. if r = 2 then HEAP else Odd"] obtain x where
    x: "phi_loop phi_pair (\<lambda>r. if r = 2 then HEAP else Odd) [0] {} UNKNOWN = Some x"
    and s: "\<And>u p r v. x = returns u \<Longrightarrow>
      (0, p) \<in> {(a, b). b \<in> set (inputs_of phi_pair a) \<and> phi_pair b \<noteq> None}\<^sup>* \<Longrightarrow>
      r \<in> set (inputs_of phi_pair p) \<Longrightarrow> phi_pair r = None \<Longrightarrow> denotes (if r = 2 then HEAP else Odd) v \<Longrightarrow> denotes u v"
    by blast
  have "denotes u (HeapV 8) \<and> denotes u (IntV 3)" if u: "x = returns u" for u
  proof
    show "denotes u (HeapV 8)"
      by (rule s[OF u, of 0 2]) (simp_all add: phi_pair_def value_sets)
    show "denotes u (IntV 3)"
      by (rule s[OF u, of 1 3]) (auto simp: phi_pair_def int_types bit_0 intro!: r_into_rtrancl)
  qed
  then show ?thesis using x by blast
qed

end
