(* ===== verification/Effects.thy ===== *)
theory Effects
  imports Prelude
begin

text \<open>
  Programs over a state: \<open>None\<close> is a run that does not end, \<open>Inl\<close> one that fails. \<open>wp\<close> is the weakest
  precondition for a run that ends without failure.
\<close>

type_synonym ('s, 'a) eff = "'s \<Rightarrow> ('a \<times> 's) result option"

definition ereturn :: "'a \<Rightarrow> ('s, 'a) eff" where
  "ereturn x = (\<lambda>s. Some (returns (x, s)))"

definition efail :: "failure \<Rightarrow> ('s, 'a) eff" where
  "efail e = (\<lambda>s. Some (Inl e))"

definition ebind :: "('s, 'a) eff \<Rightarrow> ('a \<Rightarrow> ('s, 'b) eff) \<Rightarrow> ('s, 'b) eff" where
  "ebind m f = (\<lambda>s. Option.bind (m s) (\<lambda>r. case r of Inl e \<Rightarrow> Some (Inl e) | Inr (x, s') \<Rightarrow> f x s'))"

definition ethen :: "('s, 'a) eff \<Rightarrow> ('s, 'b) eff \<Rightarrow> ('s, 'b) eff" where
  "ethen m k = ebind m (\<lambda>_. k)"

definition egets :: "('s \<Rightarrow> 'a) \<Rightarrow> ('s, 'a) eff" where
  "egets f = (\<lambda>s. Some (returns (f s, s)))"

definition emodify :: "('s \<Rightarrow> 's) \<Rightarrow> ('s, unit) eff" where
  "emodify f = (\<lambda>s. Some (returns ((), f s)))"

definition elift :: "'a result option \<Rightarrow> ('s, 'a) eff" where
  "elift r = (\<lambda>s. Option.bind r (\<lambda>r. Some (case r of Inl e \<Rightarrow> Inl e | Inr x \<Rightarrow> returns (x, s))))"

definition ewhen :: "bool \<Rightarrow> ('s, unit) eff \<Rightarrow> ('s, unit) eff" where
  "ewhen b m = (if b then m else ereturn ())"

text \<open>A loop that carries a value.\<close>

fun efold :: "('a \<Rightarrow> 'x \<Rightarrow> ('s, 'a) eff) \<Rightarrow> 'a \<Rightarrow> 'x list \<Rightarrow> ('s, 'a) eff" where
  "efold f acc [] = ereturn acc"
| "efold f acc (x # xs) = ebind (f acc x) (\<lambda>acc'. efold f acc' xs)"

definition eeach :: "('x \<Rightarrow> ('s, unit) eff) \<Rightarrow> 'x list \<Rightarrow> ('s, unit) eff" where
  "eeach f = efold (\<lambda>_. f) ()"

text \<open>A program on a part of the state.\<close>

definition on_part :: "('s \<Rightarrow> 'p) \<Rightarrow> ('p \<Rightarrow> 's \<Rightarrow> 's) \<Rightarrow> ('p, 'a) eff \<Rightarrow> ('s, 'a) eff" where
  "on_part get put m = (\<lambda>s. Option.bind (m (get s))
     (\<lambda>r. Some (case r of Inl e \<Rightarrow> Inl e | Inr (x, p) \<Rightarrow> returns (x, put p s))))"

lemma ebind_mono [partial_function_mono]:
  assumes "\<And>s. mono_option (\<lambda>f. B f s)" "\<And>y s. mono_option (\<lambda>f. C y f s)"
  shows "mono_option (\<lambda>f. ebind (B f) (\<lambda>y. C y f) s)"
  unfolding ebind_def
proof (rule bind_mono)
  show "mono_option (\<lambda>f. case r of Inl e \<Rightarrow> Some (Inl e) | Inr (y, s') \<Rightarrow> C y f s')" for r
    by (cases r) (use assms(2) in \<open>auto intro: option.const_mono split: prod.split\<close>)
qed (rule assms(1))

lemma ethen_mono [partial_function_mono]:
  assumes "\<And>s. mono_option (\<lambda>f. B f s)" "\<And>s. mono_option (\<lambda>f. C f s)"
  shows "mono_option (\<lambda>f. ethen (B f) (C f) s)"
  unfolding ethen_def by (rule ebind_mono) (use assms in auto)

lemma eif_mono [partial_function_mono]:
  assumes "mono_option (\<lambda>f. B f s)" "mono_option (\<lambda>f. C f s)"
  shows "mono_option (\<lambda>f. (if b then B f else C f) s)"
  using assms by (cases b) simp_all

subsection \<open>Weakest preconditions\<close>

definition wp :: "('s, 'a) eff \<Rightarrow> ('a \<Rightarrow> 's \<Rightarrow> bool) \<Rightarrow> 's \<Rightarrow> bool" where
  "wp m Q s \<longleftrightarrow> (\<exists>x s'. m s = Some (returns (x, s')) \<and> Q x s')"

named_theorems wp_rules \<open>weakest preconditions of the operations\<close>

lemma wp_return [simp]: "wp (ereturn x) Q = Q x"
  by (simp add: wp_def ereturn_def fun_eq_iff)

lemma wp_fail [simp]: "\<not> wp (efail e) Q s"
  by (simp add: wp_def efail_def)

lemma wp_bind [simp]: "wp (ebind m f) Q = wp m (\<lambda>x. wp (f x) Q)"
  by (auto simp: fun_eq_iff wp_def ebind_def split: Option.bind_split sum.splits prod.splits)

lemma wp_then [simp]: "wp (ethen m k) Q = wp m (\<lambda>_. wp k Q)"
  by (simp add: ethen_def)

lemma wp_gets [simp]: "wp (egets f) Q s \<longleftrightarrow> Q (f s) s"
  by (simp add: wp_def egets_def)

lemma wp_modify [simp]: "wp (emodify f) Q s \<longleftrightarrow> Q () (f s)"
  by (simp add: wp_def emodify_def)

lemma wp_gets_fun: "wp (egets f) Q = (\<lambda>s. Q (f s) s)"
  and wp_modify_fun: "wp (emodify f) Q = (\<lambda>s. Q () (f s))"
  by (simp_all add: fun_eq_iff)

lemma wp_lift [simp]: "wp (elift r) Q s \<longleftrightarrow> (\<exists>x. r = Some (returns x) \<and> Q x s)"
  by (auto simp: wp_def elift_def split: Option.bind_split sum.splits)

lemma wp_when [simp]: "wp (ewhen b m) Q s \<longleftrightarrow> (if b then wp m Q s else Q () s)"
  by (simp add: ewhen_def)

lemma wp_part [simp]: "wp (on_part get put m) Q s \<longleftrightarrow> wp m (\<lambda>x p. Q x (put p s)) (get s)"
  by (auto simp: wp_def on_part_def split: Option.bind_split sum.splits prod.splits)

lemma wp_mono: "wp m P s \<Longrightarrow> (\<And>x s'. P x s' \<Longrightarrow> Q x s') \<Longrightarrow> wp m Q s"
  by (auto simp: wp_def)

lemma wp_conj: "wp m P s \<Longrightarrow> wp m Q s \<Longrightarrow> wp m (\<lambda>x s'. P x s' \<and> Q x s') s"
  by (auto simp: wp_def)

text \<open>A loop keeps what each of its rounds keeps; the invariant may mention the items that are left.\<close>

lemma wp_fold:
  assumes "I acc xs s"
    and step: "\<And>acc x ys s. I acc (x # ys) s \<Longrightarrow> wp (f acc x) (\<lambda>acc' s'. I acc' ys s') s"
    and post: "\<And>acc s. I acc [] s \<Longrightarrow> Q acc s"
  shows "wp (efold f acc xs) Q s"
  using assms(1)
proof (induction xs arbitrary: acc s)
  case (Cons x xs)
  show ?case by simp (rule wp_mono[OF step[OF Cons.prems]], rule Cons.IH)
qed (simp add: post)

lemma wp_each:
  assumes "I xs s"
    and step: "\<And>x ys s. I (x # ys) s \<Longrightarrow> wp (f x) (\<lambda>_ s'. I ys s') s"
    and post: "\<And>s. I [] s \<Longrightarrow> Q () s"
  shows "wp (eeach f xs) Q s"
  unfolding eeach_def by (rule wp_fold[of "\<lambda>_. I"]) (use assms in auto)

lemma wp_each_set:
  assumes "P {} s" and step: "\<And>i A s. i \<in> set xs \<Longrightarrow> P A s \<Longrightarrow> wp (f i) (\<lambda>_. P (insert i A)) s"
    and post: "\<And>s. P (set xs) s \<Longrightarrow> Q () s"
  shows "wp (eeach f xs) Q s"
proof (rule wp_each[where I = "\<lambda>ys s. \<exists>zs. xs = zs @ ys \<and> P (set zs) s"])
  show "\<exists>zs. xs = zs @ xs \<and> P (set zs) s" using assms(1) by simp
  fix x ys s assume "\<exists>zs. xs = zs @ x # ys \<and> P (set zs) s"
  then obtain zs where zs: "xs = zs @ x # ys" "P (set zs) s" by blast
  have "wp (f x) (\<lambda>_. P (insert x (set zs))) s" by (rule step) (use zs in auto)
  then show "wp (f x) (\<lambda>_ s'. \<exists>zs. xs = zs @ ys \<and> P (set zs) s') s"
    by (rule wp_mono) (use zs(1) in \<open>auto intro!: exI[of _ "zs @ [x]"]\<close>)
qed (use post in auto)

end
