(* ===== verification/PtaGraph.thy ===== *)
theory PtaGraph
  imports Effects BitSet UnionFind
begin

text \<open>
  The constraint graph of the points-to analysis (\<^verbatim>\<open>passes/pta/graph.cpp\<close>, \<^verbatim>\<open>passes/pta/node.cpp\<close>). Nodes are known by their
  identifiers. \<^verbatim>\<open>sets_\<close> and \<^verbatim>\<open>unions_\<close> are vectors that grow together; here they are one list of union-find
  entries whose element is the pointer in \<^verbatim>\<open>sets_\<close> with the node it points to, so the loops of \<^verbatim>\<open>Graph::Find\<close>
  are those of \<open>UnionFind\<close>. A pointer to a set node that was merged into another is null in \<^verbatim>\<open>sets_\<close>; using it
  is \<open>Inl BadIterator\<close>. The fields that \<^verbatim>\<open>SCCSolver\<close> keeps in the nodes are part of its own state.
\<close>

subsection \<open>Nodes\<close>

record set_node =
  sn_deref :: "nat option"
  sn_sets :: bitset
  sn_derefIns :: bitset
  sn_derefOuts :: bitset
  sn_funcs :: bitset
  sn_exts :: bitset
  sn_nodes :: bitset

record deref_node =
  dn_node :: nat
  dn_contents :: nat
  dn_setIns :: bitset
  dn_setOuts :: bitset

record graph =
  g_sets :: "set_node entry list"
  g_derefs :: "deref_node list"
  g_roots :: "nat list"

definition new_set_node :: set_node where
  "new_set_node = \<lparr>sn_deref = None, sn_sets = new_bitset, sn_derefIns = new_bitset, sn_derefOuts = new_bitset,
     sn_funcs = new_bitset, sn_exts = new_bitset, sn_nodes = new_bitset\<rparr>"

definition empty_graph :: graph where
  "empty_graph = \<lparr>g_sets = [], g_derefs = [], g_roots = []\<rparr>"

text \<open>Following a pointer to a set node and to a dereferencing node.\<close>

definition the_set :: "nat \<Rightarrow> (graph, set_node) eff" where
  "the_set i = (\<lambda>g. if i < length (g_sets g)
     then (case e_element (g_sets g ! i) of Some n \<Rightarrow> ereturn n g | None \<Rightarrow> efail BadIterator g)
     else efail BadIterator g)"

definition put_set :: "nat \<Rightarrow> set_node \<Rightarrow> (graph, unit) eff" where
  "put_set i n = emodify (\<lambda>g. g\<lparr>g_sets := (g_sets g)[i := (g_sets g ! i)\<lparr>e_element := Some n\<rparr>]\<rparr>)"

definition the_deref :: "nat \<Rightarrow> (graph, deref_node) eff" where
  "the_deref d = (\<lambda>g. if d < length (g_derefs g) then ereturn (g_derefs g ! d) g else efail BadIterator g)"

definition put_deref :: "nat \<Rightarrow> deref_node \<Rightarrow> (graph, unit) eff" where
  "put_deref d n = emodify (\<lambda>g. g\<lparr>g_derefs := (g_derefs g)[d := n]\<rparr>)"

text \<open>The operations of \<^verbatim>\<open>SetNode\<close>: each answers whether it changed anything.\<close>

definition AddFunc :: "nat \<Rightarrow> nat \<Rightarrow> (graph, unit) eff" where
  "AddFunc i f = ebind (the_set i) (\<lambda>n. put_set i (n\<lparr>sn_funcs := fst (Insert (sn_funcs n) f)\<rparr>))"

definition AddExtern :: "nat \<Rightarrow> nat \<Rightarrow> (graph, unit) eff" where
  "AddExtern i e = ebind (the_set i) (\<lambda>n. put_set i (n\<lparr>sn_exts := fst (Insert (sn_exts n) e)\<rparr>))"

definition AddNode :: "nat \<Rightarrow> nat \<Rightarrow> (graph, unit) eff" where
  "AddNode i j = ebind (the_set i) (\<lambda>n. put_set i (n\<lparr>sn_nodes := fst (Insert (sn_nodes n) j)\<rparr>))"

definition Propagate :: "nat \<Rightarrow> nat \<Rightarrow> (graph, bool) eff" where
  "Propagate this that = ebind (the_set this) (\<lambda>n. ebind (the_set that) (\<lambda>m.
     let (funcs, c1) = Union (sn_funcs m) (sn_funcs n);
         (exts, c2) = Union (sn_exts m) (sn_exts n);
         (nodes, c3) = Union (sn_nodes m) (sn_nodes n)
     in ethen (put_set that (m\<lparr>sn_funcs := funcs, sn_exts := exts, sn_nodes := nodes\<rparr>))
          (ereturn (c1 \<noteq> 0 \<or> c2 \<noteq> 0 \<or> c3 \<noteq> 0))))"

definition SetEquals :: "nat \<Rightarrow> nat \<Rightarrow> (graph, bool) eff" where
  "SetEquals this that = ebind (the_set this) (\<lambda>n. ebind (the_set that) (\<lambda>m.
     ereturn (bitset_eq (sn_funcs n) (sn_funcs m) \<and> bitset_eq (sn_exts n) (sn_exts m) \<and>
       bitset_eq (sn_nodes n) (sn_nodes m))))"

definition SetAddSet :: "nat \<Rightarrow> nat \<Rightarrow> (graph, bool) eff" where
  "SetAddSet this node = ebind (the_set this) (\<lambda>n.
     let (sets, added) = Insert (sn_sets n) node
     in ethen (put_set this (n\<lparr>sn_sets := sets\<rparr>)) (ereturn added))"

definition SetAddDeref :: "nat \<Rightarrow> nat \<Rightarrow> (graph, bool) eff" where
  "SetAddDeref this node = ebind (the_set this) (\<lambda>n.
     let (outs, added) = Insert (sn_derefOuts n) node
     in ethen (put_set this (n\<lparr>sn_derefOuts := outs\<rparr>))
          (if added then ebind (the_deref node) (\<lambda>d.
             ethen (put_deref node (d\<lparr>dn_setIns := fst (Insert (dn_setIns d) this)\<rparr>)) (ereturn True))
           else ereturn False))"

text \<open>\<^verbatim>\<open>DerefNode::AddSet\<close>.\<close>

definition DerefAddSet :: "nat \<Rightarrow> nat \<Rightarrow> (graph, bool) eff" where
  "DerefAddSet this node = ebind (the_deref this) (\<lambda>d.
     let (outs, added) = Insert (dn_setOuts d) node
     in ethen (put_deref this (d\<lparr>dn_setOuts := outs\<rparr>))
          (if added then ebind (the_set node) (\<lambda>n.
             ethen (put_set node (n\<lparr>sn_derefIns := fst (Insert (sn_derefIns n) this)\<rparr>)) (ereturn True))
           else ereturn False))"

subsection \<open>The graph\<close>

definition GraphSet :: "(graph, nat) eff" where
  "GraphSet = ebind (egets (\<lambda>g. length (g_sets g))) (\<lambda>n.
     ethen (emodify (\<lambda>g. g\<lparr>g_sets := g_sets g @ [\<lparr>e_parent = n, e_rank = 0, e_element = Some new_set_node\<rparr>]\<rparr>)) (ereturn n))"

definition GraphRoot :: "nat \<Rightarrow> (graph, nat) eff" where
  "GraphRoot i = ebind (egets (\<lambda>g. length (g_roots g))) (\<lambda>n.
     ethen (emodify (\<lambda>g. g\<lparr>g_roots := g_roots g @ [i]\<rparr>)) (ereturn n))"

definition GraphFind :: "nat \<Rightarrow> (graph, nat) eff" where
  "GraphFind i = ebind (egets g_sets) (\<lambda>es. ebind (elift (find_root es i)) (\<lambda>root.
     ebind (elift (compress es root i)) (\<lambda>(es', j).
       ethen (emodify (\<lambda>g. g\<lparr>g_sets := es'\<rparr>)) (ethen (the_set j) (ereturn j)))))"

text \<open>\<^verbatim>\<open>Graph::Get\<close>, whose answer may be null.\<close>

definition GraphGet :: "nat \<Rightarrow> (graph, nat option) eff" where
  "GraphGet i = (\<lambda>g. if i < length (g_sets g)
     then ereturn (case e_element (g_sets g ! i) of Some _ \<Rightarrow> Some i | None \<Rightarrow> None) g else efail BadIterator g)"

text \<open>\<^verbatim>\<open>RootNode::Set\<close>, which keeps the representative.\<close>

definition RootSet :: "nat \<Rightarrow> (graph, nat) eff" where
  "RootSet r = ebind (egets g_roots) (\<lambda>rs. if r < length rs
     then ebind (GraphFind (rs ! r)) (\<lambda>i. ethen (emodify (\<lambda>g. g\<lparr>g_roots := (g_roots g)[r := i]\<rparr>)) (ereturn i))
     else efail BadIterator)"

definition Contents :: "nat \<Rightarrow> (graph, nat) eff" where
  "Contents d = ebind (the_deref d) (\<lambda>n. RootSet (dn_contents n))"

text \<open>The constructor of a node that dereferences a set registers it with the set.\<close>

definition GraphDeref :: "nat \<Rightarrow> (graph, nat) eff" where
  "GraphDeref i = ebind GraphSet (\<lambda>c. ebind (GraphRoot c) (\<lambda>contents. ebind (egets (\<lambda>g. length (g_derefs g))) (\<lambda>d.
     ethen (emodify (\<lambda>g. g\<lparr>g_derefs := g_derefs g @
       [\<lparr>dn_node = i, dn_contents = contents, dn_setIns = new_bitset, dn_setOuts = new_bitset\<rparr>]\<rparr>))
     (ebind (the_set i) (\<lambda>n. ethen (put_set i (n\<lparr>sn_deref := Some d\<rparr>))
     (ebind (RootSet contents) (\<lambda>c. ethen (DerefAddSet d c) (ereturn d))))))))"

text \<open>The identifiers a loop over a set visits.\<close>

definition each_of :: "bitset \<Rightarrow> ('s, nat list) eff" where
  "each_of s = elift (iterate s (iter_begin s))"

definition move_edge :: "(set_node \<Rightarrow> bitset) \<Rightarrow> (bitset \<Rightarrow> set_node \<Rightarrow> set_node) \<Rightarrow> nat \<Rightarrow> nat \<Rightarrow> nat \<Rightarrow> (graph, unit) eff" where
  "move_edge get put a b i = ebind (GraphFind i) (\<lambda>j. ebind (the_set j) (\<lambda>n.
     ebind (elift (Some (Erase (get n) a))) (\<lambda>s. put_set j (put (fst (Insert s b)) n))))"

definition ReplaceDeref :: "nat \<Rightarrow> nat \<Rightarrow> (graph, unit) eff" where
  "ReplaceDeref a b =
     ethen (ebind (the_deref a) (\<lambda>n. ebind (each_of (dn_setIns n)) (eeach (\<lambda>i.
       ethen (move_edge sn_derefOuts (\<lambda>s n. n\<lparr>sn_derefOuts := s\<rparr>) a b i)
         (ebind (the_deref b) (\<lambda>m. put_deref b (m\<lparr>dn_setIns := fst (Insert (dn_setIns m) i)\<rparr>)))))))
     (ebind (the_deref a) (\<lambda>n. ebind (each_of (dn_setOuts n)) (eeach (\<lambda>i.
       ethen (move_edge sn_derefIns (\<lambda>s n. n\<lparr>sn_derefIns := s\<rparr>) a b i)
         (ebind (the_deref b) (\<lambda>m. put_deref b (m\<lparr>dn_setOuts := fst (Insert (dn_setOuts m) i)\<rparr>)))))))"

definition ReplaceSet :: "nat \<Rightarrow> nat \<Rightarrow> (graph, unit) eff" where
  "ReplaceSet a b = (if a = b then efail AssertFailed else
     ebind (the_set a) (\<lambda>n. ebind (the_set b) (\<lambda>m.
     ethen (put_set b (m\<lparr>sn_sets := fst (Union (sn_sets m) (sn_sets n)),
       sn_derefIns := fst (Union (sn_derefIns m) (sn_derefIns n)),
       sn_derefOuts := fst (Union (sn_derefOuts m) (sn_derefOuts n))\<rparr>))
     (case sn_deref n of None \<Rightarrow> ereturn ()
      | Some da \<Rightarrow> ethen
         (case sn_deref m of Some db \<Rightarrow> ReplaceDeref da db
          | None \<Rightarrow> ebind (the_set b) (\<lambda>m. ethen (put_set b (m\<lparr>sn_deref := Some da\<rparr>))
              (ebind (the_deref da) (\<lambda>d. put_deref da (d\<lparr>dn_node := b\<rparr>)))))
         (ebind (the_set a) (\<lambda>n. put_set a (n\<lparr>sn_deref := None\<rparr>)))))))"

text \<open>One branch of \<^verbatim>\<open>Graph::Union\<close>: \<open>a\<close> is merged into \<open>b\<close>.\<close>

definition merge_into :: "nat \<Rightarrow> nat \<Rightarrow> (graph, unit) eff" where
  "merge_into a b =
     ethen (emodify (\<lambda>g. g\<lparr>g_sets := (g_sets g)[a := (g_sets g ! a)\<lparr>e_parent := b\<rparr>]\<rparr>))
     (ethen (Propagate a b) (ethen (ReplaceSet a b)
       (emodify (\<lambda>g. g\<lparr>g_sets := (g_sets g)[a := (g_sets g ! a)\<lparr>e_element := None\<rparr>]\<rparr>))))"

definition GraphUnion :: "nat option \<Rightarrow> nat \<Rightarrow> (graph, nat) eff" where
  "GraphUnion pa b = (case pa of None \<Rightarrow> ereturn b
     | Some a \<Rightarrow> if a = b then ereturn b else
        ebind (egets g_sets) (\<lambda>es. if a \<ge> length es \<or> b \<ge> length es then efail BadIterator else
          ebind (if e_rank (es ! a) < e_rank (es ! b) then ethen (merge_into a b) (ereturn b)
                 else ethen (merge_into b a) (ereturn a)) (\<lambda>node.
          ethen (ewhen (e_rank (es ! a) = e_rank (es ! b)) (emodify (\<lambda>g. g\<lparr>g_sets :=
            (g_sets g)[a := (g_sets g ! a)\<lparr>e_rank := e_rank (g_sets g ! a) + 1\<rparr>]\<rparr>)))
          (ereturn node))))"

end
