(* ===== verification/PtaView.thy ===== *)
theory PtaView
  imports PtaGraph
begin

text \<open>
  What a constraint graph stands for: representatives, sets of edges and points-to sets, without the containers. \<open>graph_ok\<close>
  is the invariant of the containers; every operation of the graph keeps it and is an update of the view.
\<close>

subsection \<open>Sets of identifiers\<close>

definition bset :: "nat \<Rightarrow> bitset \<Rightarrow> bool" where
  "bset n s \<longleftrightarrow> bs_ok s \<and> bits s \<subseteq> {..<n}"

lemma bset_new [simp]: "bset n new_bitset" "bits new_bitset = {}"
  using new_bitset_ok by (simp_all add: bset_def)

lemma bset_mono: "bset n s \<Longrightarrow> n \<le> m \<Longrightarrow> bset m s"
  by (auto simp: bset_def)

lemma bset_Insert:
  assumes "bset n s" "x < n" "n \<le> uint32_max"
  shows "bset n (fst (Insert s x))" "bits (fst (Insert s x)) = insert x (bits s)" "snd (Insert s x) \<longleftrightarrow> x \<notin> bits s"
proof -
  have "x < 2 ^ 32" using assms(2,3) by (simp add: uint32_max_def)
  from Insert_spec[OF _ this, of s "fst (Insert s x)" "snd (Insert s x)"] assms(1)
  have "bs_ok (fst (Insert s x)) \<and> bits (fst (Insert s x)) = insert x (bits s) \<and> snd (Insert s x) = (x \<notin> bits s)"
    by (simp add: bset_def)
  then show "bset n (fst (Insert s x))" "bits (fst (Insert s x)) = insert x (bits s)" "snd (Insert s x) \<longleftrightarrow> x \<notin> bits s"
    using assms by (auto simp: bset_def)
qed

lemma Union_facts:
  assumes "bs_ok s" "bs_ok t"
  shows "bs_ok (fst (Union s t))" "bits (fst (Union s t)) = bits s \<union> bits t"
    "snd (Union s t) \<noteq> 0 \<longleftrightarrow> \<not> bits t \<subseteq> bits s"
proof -
  from Union_spec[OF assms, of "fst (Union s t)" "snd (Union s t)"]
  have u: "bs_ok (fst (Union s t)) \<and> bits (fst (Union s t)) = bits s \<union> bits t \<and> snd (Union s t) = card (bits t - bits s)"
    by simp
  have "finite (bits t)" using assms(2) bits_finite by (simp add: bs_ok_def)
  then have "card (bits t - bits s) \<noteq> 0 \<longleftrightarrow> \<not> bits t \<subseteq> bits s" by (auto simp: card_eq_0_iff)
  then show "bs_ok (fst (Union s t))" "bits (fst (Union s t)) = bits s \<union> bits t"
    "snd (Union s t) \<noteq> 0 \<longleftrightarrow> \<not> bits t \<subseteq> bits s" using u by auto
qed

lemma bset_Union:
  assumes "bset n s" "bset n t"
  shows "bset n (fst (Union s t))" "bits (fst (Union s t)) = bits s \<union> bits t"
  using assms Union_facts[of s t] by (auto simp: bset_def)

lemma bset_Erase:
  assumes "bset n s" "x < n" "n \<le> uint32_max" "bits s \<noteq> {}"
  shows "\<exists>s'. Erase s x = returns s' \<and> bset n s' \<and> bits s' = bits s - {x}"
proof -
  have "x < 2 ^ 32" using assms(2,3) by (simp add: uint32_max_def)
  from Erase_spec[OF _ this, of s] assms show ?thesis by (auto simp: bset_def)
qed

lemma wp_each_of:
  assumes "bset n s" "n \<le> uint32_max"
  shows "wp (each_of s) Q st \<longleftrightarrow> Q (sorted_list_of_set (bits s)) st"
proof -
  have "bs_last s < uint32_max"
  proof (cases "bits s = {}")
    case True
    then show ?thesis using assms(1) by (simp add: bset_def bs_ok_def bounds_ok_def uint32_max_def)
  next
    case False
    then have "bs_last s \<in> bits s" using assms(1) by (simp add: bset_def bs_ok_def bounds_ok_def)
    then show ?thesis using assms by (auto simp: bset_def)
  qed
  then show ?thesis using iterate_spec assms(1) by (simp add: each_of_def bset_def)
qed

lemma wp_each_of_fun: "bset n s \<Longrightarrow> n \<le> uint32_max \<Longrightarrow> wp (each_of s) Q = Q (sorted_list_of_set (bits s))"
  by (rule ext) (rule wp_each_of)

lemma bset_finite: "bset n s \<Longrightarrow> finite (bits s)"
  by (auto simp: bset_def intro: finite_subset)

lemma set_sorted_bits [simp]: "bset n s \<Longrightarrow> set (sorted_list_of_set (bits s)) = bits s"
  by (simp add: bset_finite)

subsection \<open>The invariant\<close>

abbreviation num :: "graph \<Rightarrow> nat" where "num g \<equiv> length (g_sets g)"
abbreviation dnum :: "graph \<Rightarrow> nat" where "dnum g \<equiv> length (g_derefs g)"
abbreviation live :: "graph \<Rightarrow> nat set" where "live g \<equiv> roots (g_sets g)"
abbreviation grep :: "graph \<Rightarrow> nat \<Rightarrow> nat" where "grep g \<equiv> rep (g_sets g)"
abbreviation dn :: "graph \<Rightarrow> nat \<Rightarrow> deref_node" where "dn g d \<equiv> g_derefs g ! d"

definition sn :: "graph \<Rightarrow> nat \<Rightarrow> set_node" where
  "sn g i = the (e_element (g_sets g ! i))"

definition sn_ok :: "nat \<Rightarrow> nat \<Rightarrow> set_node \<Rightarrow> bool" where
  "sn_ok n m x \<longleftrightarrow> bset n (sn_sets x) \<and> bset m (sn_derefIns x) \<and> bset m (sn_derefOuts x) \<and>
     bs_ok (sn_funcs x) \<and> bs_ok (sn_exts x) \<and> bset n (sn_nodes x)"

text \<open>
  The nodes of \<open>X\<close> are being merged: they are not roots any more but not gone yet.
\<close>

definition graph_ok :: "nat set \<Rightarrow> graph \<Rightarrow> bool" where
  "graph_ok X g \<longleftrightarrow> (\<exists>\<rho>. forest \<rho> (g_sets g)) \<and> num g \<le> uint32_max \<and> dnum g \<le> uint32_max \<and> X \<subseteq> {..<num g} \<and>
     (\<forall>i < num g. e_element (g_sets g ! i) \<noteq> None \<longleftrightarrow> i \<in> live g \<union> X) \<and>
     (\<forall>i \<in> live g \<union> X. sn_ok (num g) (dnum g) (sn g i)) \<and>
     (\<forall>d < dnum g. bset (num g) (dn_setIns (dn g d)) \<and> bset (num g) (dn_setOuts (dn g d)) \<and>
        dn_contents (dn g d) < length (g_roots g)) \<and>
     (\<forall>i \<in> live g. \<forall>d. sn_deref (sn g i) = Some d \<longrightarrow> d < dnum g \<and> dn_node (dn g d) = i) \<and>
     (\<forall>r \<in> set (g_roots g). r < num g)"

text \<open>A set on an edge to or from a dereferencing node has such an edge on its own list.\<close>

definition links_ok :: "graph \<Rightarrow> bool" where
  "links_ok g \<longleftrightarrow>
     (\<forall>d < dnum g. (\<forall>i \<in> bits (dn_setIns (dn g d)). bits (sn_derefOuts (sn g (grep g i))) \<noteq> {}) \<and>
        (\<forall>i \<in> bits (dn_setOuts (dn g d)). bits (sn_derefIns (sn g (grep g i))) \<noteq> {}))"

text \<open>A dereferencing node on the list of a set has an edge from it.\<close>

definition stores_ok :: "graph \<Rightarrow> bool" where
  "stores_ok g \<longleftrightarrow> (\<forall>r \<in> live g. \<forall>d \<in> bits (sn_derefOuts (sn g r)). \<exists>j \<in> bits (dn_setIns (dn g d)). grep g j = r)"

lemma graph_okD:
  assumes "graph_ok X g"
  shows "\<exists>\<rho>. forest \<rho> (g_sets g)" and "num g \<le> uint32_max" and "dnum g \<le> uint32_max"
    and "i \<in> X \<Longrightarrow> i < num g"
    and "i \<in> live g \<union> X \<Longrightarrow> e_element (g_sets g ! i) = Some (sn g i)"
    and "i \<in> live g \<union> X \<Longrightarrow> sn_ok (num g) (dnum g) (sn g i)"
    and "d < dnum g \<Longrightarrow> bset (num g) (dn_setIns (dn g d))" and "d < dnum g \<Longrightarrow> bset (num g) (dn_setOuts (dn g d))"
    and "d < dnum g \<Longrightarrow> dn_contents (dn g d) < length (g_roots g)"
    and "i \<in> live g \<Longrightarrow> sn_deref (sn g i) = Some d \<Longrightarrow> d < dnum g \<and> dn_node (dn g d) = i"
    and "r \<in> set (g_roots g) \<Longrightarrow> r < num g"
  using assms by (auto simp: graph_ok_def sn_def roots_def)

lemma graph_okI:
  assumes "\<exists>\<rho>. forest \<rho> (g_sets g)" "num g \<le> uint32_max" "dnum g \<le> uint32_max" "X \<subseteq> {..<num g}"
    and "\<And>i. i < num g \<Longrightarrow> e_element (g_sets g ! i) \<noteq> None \<longleftrightarrow> i \<in> live g \<union> X"
    and "\<And>i. i \<in> live g \<union> X \<Longrightarrow> sn_ok (num g) (dnum g) (sn g i)"
    and "\<And>d. d < dnum g \<Longrightarrow> bset (num g) (dn_setIns (dn g d)) \<and> bset (num g) (dn_setOuts (dn g d)) \<and>
      dn_contents (dn g d) < length (g_roots g)"
    and "\<And>i d. i \<in> live g \<Longrightarrow> sn_deref (sn g i) = Some d \<Longrightarrow> d < dnum g \<and> dn_node (dn g d) = i"
    and "\<And>r. r \<in> set (g_roots g) \<Longrightarrow> r < num g"
  shows "graph_ok X g"
  unfolding graph_ok_def by (intro conjI ballI allI impI) (use assms in blast)+

lemma graph_ok_bound: "graph_ok X g \<Longrightarrow> X \<subseteq> {..<num g}"
  and graph_ok_element: "graph_ok X g \<Longrightarrow> i < num g \<Longrightarrow> e_element (g_sets g ! i) \<noteq> None \<longleftrightarrow> i \<in> live g \<union> X"
  by (auto simp: graph_ok_def)

lemma live_less: "i \<in> live g \<Longrightarrow> i < num g"
  by (simp add: roots_def)

lemma grep_live: "graph_ok X g \<Longrightarrow> i < num g \<Longrightarrow> grep g i \<in> live g"
  using forest_rep_root graph_okD(1) by (fastforce simp: roots_def)

lemma grep_id: "graph_ok X g \<Longrightarrow> i \<in> live g \<Longrightarrow> grep g i = i"
  using forest_rep_simps(1) graph_okD(1) by (fastforce simp: roots_def)

subsection \<open>The view\<close>

record sgraph =
  s_num :: nat
  s_dnum :: nat
  s_rep :: "nat \<Rightarrow> nat"
  s_live :: "nat set"
  s_succ :: "nat \<Rightarrow> nat set"
  s_pts :: "nat \<Rightarrow> nat set"
  s_funcs :: "nat \<Rightarrow> nat set"
  s_exts :: "nat \<Rightarrow> nat set"
  s_deref :: "nat \<Rightarrow> nat option"
  s_owner :: "nat \<Rightarrow> nat"
  s_ins :: "nat \<Rightarrow> nat set"
  s_outs :: "nat \<Rightarrow> nat set"
  s_contents :: "nat \<Rightarrow> nat"
  s_roots :: "nat list"

definition of_live :: "graph \<Rightarrow> (set_node \<Rightarrow> bitset) \<Rightarrow> nat \<Rightarrow> nat set" where
  "of_live g f i = (if i \<in> live g then bits (f (sn g i)) else {})"

definition of_deref :: "graph \<Rightarrow> (deref_node \<Rightarrow> bitset) \<Rightarrow> nat \<Rightarrow> nat set" where
  "of_deref g f d = (if d < dnum g then bits (f (dn g d)) else {})"

definition view :: "graph \<Rightarrow> sgraph" where
  "view g = \<lparr>s_num = num g, s_dnum = dnum g, s_rep = grep g, s_live = live g,
     s_succ = of_live g sn_sets, s_pts = of_live g sn_nodes, s_funcs = of_live g sn_funcs, s_exts = of_live g sn_exts,
     s_deref = (\<lambda>i. if i \<in> live g then sn_deref (sn g i) else None),
     s_owner = (\<lambda>d. if d < dnum g then dn_node (dn g d) else 0),
     s_ins = of_deref g dn_setIns, s_outs = of_deref g dn_setOuts,
     s_contents = (\<lambda>d. if d < dnum g then dn_contents (dn g d) else 0), s_roots = List.map (grep g) (g_roots g)\<rparr>"

lemmas view_defs = view_def of_live_def of_deref_def

lemma view_simps [simp]:
  "s_num (view g) = num g" "s_dnum (view g) = dnum g" "s_rep (view g) = grep g" "s_live (view g) = live g"
  "i \<in> live g \<Longrightarrow> s_succ (view g) i = bits (sn_sets (sn g i))"
  "i \<in> live g \<Longrightarrow> s_pts (view g) i = bits (sn_nodes (sn g i))"
  "i \<in> live g \<Longrightarrow> s_funcs (view g) i = bits (sn_funcs (sn g i))"
  "i \<in> live g \<Longrightarrow> s_exts (view g) i = bits (sn_exts (sn g i))"
  "i \<in> live g \<Longrightarrow> s_deref (view g) i = sn_deref (sn g i)"
  "d < dnum g \<Longrightarrow> s_owner (view g) d = dn_node (dn g d)"
  "d < dnum g \<Longrightarrow> s_ins (view g) d = bits (dn_setIns (dn g d))"
  "d < dnum g \<Longrightarrow> s_outs (view g) d = bits (dn_setOuts (dn g d))"
  "d < dnum g \<Longrightarrow> s_contents (view g) d = dn_contents (dn g d)"
  "s_roots (view g) = List.map (grep g) (g_roots g)"
  by (simp_all add: view_defs)

subsection \<open>Reading and writing nodes\<close>

definition upd_set :: "nat \<Rightarrow> set_node \<Rightarrow> graph \<Rightarrow> graph" where
  "upd_set i n g = g\<lparr>g_sets := (g_sets g)[i := (g_sets g ! i)\<lparr>e_element := Some n\<rparr>]\<rparr>"

definition upd_deref :: "nat \<Rightarrow> deref_node \<Rightarrow> graph \<Rightarrow> graph" where
  "upd_deref d n g = g\<lparr>g_derefs := (g_derefs g)[d := n]\<rparr>"

lemma wp_the_set: "graph_ok X g \<Longrightarrow> i \<in> live g \<union> X \<Longrightarrow> wp (the_set i) Q g \<longleftrightarrow> Q (sn g i) g"
  using graph_okD(4)[of X g i] graph_okD(5)[of X g i] live_less[of i g]
  by (auto simp: the_set_def wp_def ereturn_def)

lemma wp_the_deref: "d < dnum g \<Longrightarrow> wp (the_deref d) Q g \<longleftrightarrow> Q (dn g d) g"
  by (simp add: the_deref_def wp_def ereturn_def)

lemma wp_put_set: "wp (put_set i n) Q g \<longleftrightarrow> Q () (upd_set i n g)"
  by (simp add: put_set_def upd_set_def)

lemma wp_put_deref: "wp (put_deref d n) Q g \<longleftrightarrow> Q () (upd_deref d n g)"
  by (simp add: put_deref_def upd_deref_def)

lemma map_parent_upd [simp]: "List.map e_parent (es[i := (es ! i)\<lparr>e_element := x\<rparr>]) = List.map e_parent es"
  by (cases "i < length es") (simp_all add: list_eq_iff_nth_eq nth_list_update)

text \<open>Entries with the same parents have the same roots and representatives.\<close>

lemma same_parents:
  assumes "graph_ok X g" "List.map e_parent es = List.map e_parent (g_sets g)"
  shows "length es = num g" "roots es = live g" "rep es = grep g" "\<exists>\<rho>. forest \<rho> es"
proof -
  show len: "length es = num g" using assms(2) by (rule map_eq_imp_length_eq)
  obtain \<rho> where f: "forest \<rho> (g_sets g)" using graph_okD(1)[OF assms(1)] by blast
  note fp = forest_parents[OF f assms(2)]
  show "roots es = live g" "\<exists>\<rho>. forest \<rho> es" using fp by auto
  have "rep es j = j" "grep g j = j" if "\<not> j < num g" for j
    using that len by (simp_all add: rep_def find_root.simps)
  then show "rep es = grep g" using fp by (metis ext)
qed

lemma upd_set_facts:
  assumes "graph_ok X g"
  shows "num (upd_set i n g) = num g" "live (upd_set i n g) = live g" "grep (upd_set i n g) = grep g"
    "g_derefs (upd_set i n g) = g_derefs g" "g_roots (upd_set i n g) = g_roots g"
    "i < num g \<Longrightarrow> sn (upd_set i n g) j = (if j = i then n else sn g j)"
  using same_parents[OF assms, of "g_sets (upd_set i n g)"]
  by (auto simp: upd_set_def sn_def nth_list_update)

lemma upd_set_ok:
  assumes ok: "graph_ok X g" and i: "i \<in> live g \<union> X" and n: "sn_ok (num g) (dnum g) n"
    and d: "sn_deref n = sn_deref (sn g i) \<or> i \<notin> live g \<or> (\<exists>d. sn_deref n = Some d \<and> d < dnum g \<and> dn_node (dn g d) = i)"
  shows "graph_ok X (upd_set i n g)"
proof -
  note f = upd_set_facts[OF ok, of i n]
  have il: "i < num g" using i graph_okD(4)[OF ok] live_less by blast
  note sn = f(6)[OF il]
  note D = graph_okD[OF ok]
  have elem: "e_element (g_sets (upd_set i n g) ! j) \<noteq> None \<longleftrightarrow> j \<in> live g \<union> X" if "j < num g" for j
    using graph_ok_element[OF ok that] that i il by (auto simp: upd_set_def nth_list_update)
  show ?thesis
  proof (rule graph_okI, unfold f(1-5))
    show "\<exists>\<rho>. forest \<rho> (g_sets (upd_set i n g))"
      by (rule same_parents(4)[OF ok]) (simp add: upd_set_def)
    show "sn_ok (num g) (dnum g) (sn (upd_set i n g) j)" if "j \<in> live g \<union> X" for j
      using D(6)[OF that] n by (simp add: sn)
    show "e < dnum g \<and> dn_node (dn g e) = j" if "j \<in> live g" "sn_deref (sn (upd_set i n g) j) = Some e" for j e
      using D(10)[OF that(1)] that d by (auto simp: sn split: if_splits)
  qed (use D(2,3,7-9,11) graph_ok_bound[OF ok] elem in blast)+
qed

lemma upd_set_links:
  assumes ok: "graph_ok X g" "links_ok g" and i: "i < num g"
    and io: "bits (sn_derefOuts (sn g i)) \<noteq> {} \<Longrightarrow> bits (sn_derefOuts n) \<noteq> {}"
      "bits (sn_derefIns (sn g i)) \<noteq> {} \<Longrightarrow> bits (sn_derefIns n) \<noteq> {}"
  shows "links_ok (upd_set i n g)"
  using ok(2) io unfolding links_ok_def upd_set_facts(1-5)[OF ok(1)] upd_set_facts(6)[OF ok(1) i] by auto

lemma view_upd_set:
  assumes ok: "graph_ok X g" and i: "i \<in> live g"
  shows "view (upd_set i n g) = (view g)\<lparr>s_succ := (s_succ (view g))(i := bits (sn_sets n)),
    s_pts := (s_pts (view g))(i := bits (sn_nodes n)), s_funcs := (s_funcs (view g))(i := bits (sn_funcs n)),
    s_exts := (s_exts (view g))(i := bits (sn_exts n)), s_deref := (s_deref (view g))(i := sn_deref n)\<rparr>"
  using i live_less[OF i] by (auto simp: view_defs upd_set_facts[OF ok] fun_eq_iff)

lemma view_upd_dying: "graph_ok X g \<Longrightarrow> i \<notin> live g \<Longrightarrow> i < num g \<Longrightarrow> view (upd_set i n g) = view g"
  by (auto simp: view_defs upd_set_facts fun_eq_iff)

lemma upd_deref_ok:
  assumes ok: "graph_ok X g" and d: "d < dnum g" and n: "bset (num g) (dn_setIns n)" "bset (num g) (dn_setOuts n)"
    "dn_contents n = dn_contents (dn g d)" "dn_node n = dn_node (dn g d) \<or> (\<forall>i \<in> live g. sn_deref (sn g i) \<noteq> Some d)"
  shows "graph_ok X (upd_deref d n g)"
proof -
  have sn: "sn (upd_deref d n g) = sn g" by (simp add: sn_def upd_deref_def fun_eq_iff)
  have dn: "dn (upd_deref d n g) e = (if e = d then n else dn g e)" if "e < dnum g" for e
    using d by (simp add: upd_deref_def)
  have s: "g_sets (upd_deref d n g) = g_sets g" "g_roots (upd_deref d n g) = g_roots g" "dnum (upd_deref d n g) = dnum g"
    by (simp_all add: upd_deref_def)
  note D = graph_okD[OF ok]
  have 1: "bset (num g) (dn_setIns (dn (upd_deref d n g) e)) \<and> bset (num g) (dn_setOuts (dn (upd_deref d n g) e)) \<and>
      dn_contents (dn (upd_deref d n g) e) < length (g_roots g)" if "e < dnum g" for e
    using dn[OF that] D(7-9)[OF that] n D(9)[OF d] by simp
  have 2: "e < dnum g \<and> dn_node (dn (upd_deref d n g) e) = i" if "i \<in> live g" "sn_deref (sn g i) = Some e" for i e
    using D(10)[OF that] dn[of e] n(4) that by (metis)
  show ?thesis
    by (rule graph_okI, unfold sn s) (use D(1-3,6,11) 1 2 graph_ok_bound[OF ok] graph_ok_element[OF ok] in blast)+
qed

lemma upd_deref_links:
  assumes "links_ok g" "d < dnum g"
    and "\<And>i. i \<in> bits (dn_setIns n) \<Longrightarrow> bits (sn_derefOuts (sn g (grep g i))) \<noteq> {}"
      "\<And>i. i \<in> bits (dn_setOuts n) \<Longrightarrow> bits (sn_derefIns (sn g (grep g i))) \<noteq> {}"
  shows "links_ok (upd_deref d n g)"
proof -
  have "sn (upd_deref d n g) = sn g" by (simp add: sn_def upd_deref_def fun_eq_iff)
  then show ?thesis
    using assms by (auto simp: links_ok_def upd_deref_def nth_list_update)
qed

lemma view_upd_deref:
  assumes "d < dnum g"
  shows "view (upd_deref d n g) = (view g)\<lparr>s_owner := (s_owner (view g))(d := dn_node n),
    s_ins := (s_ins (view g))(d := bits (dn_setIns n)), s_outs := (s_outs (view g))(d := bits (dn_setOuts n)),
    s_contents := (s_contents (view g))(d := dn_contents n)\<rparr>"
  using assms by (auto simp: view_defs upd_deref_def sn_def fun_eq_iff)


lemma upd_set_stores:
  assumes ok: "graph_ok X g" "stores_ok g" and i: "i < num g"
    and o: "i \<in> live g \<Longrightarrow> bits (sn_derefOuts n) \<subseteq> bits (sn_derefOuts (sn g i))"
  shows "stores_ok (upd_set i n g)"
  using ok(2) o unfolding stores_ok_def upd_set_facts(1-5)[OF ok(1)] upd_set_facts(6)[OF ok(1) i] by (auto; blast)

lemma upd_deref_stores:
  assumes "graph_ok X g" "stores_ok g" "d < dnum g" "bits (dn_setIns (dn g d)) \<subseteq> bits (dn_setIns n)"
  shows "stores_ok (upd_deref d n g)"
proof -
  have "sn (upd_deref d n g) = sn g" by (simp add: sn_def upd_deref_def fun_eq_iff)
  then show ?thesis
    using assms(2-4) unfolding stores_ok_def by (simp add: upd_deref_def nth_list_update) blast
qed

end
