(* ===== verification/PtaOps.thy ===== *)
theory PtaOps
  imports PtaView
begin

text \<open>
  The operations of the constraint graph as updates of its view: finding changes nothing, an edge or a points-to set grows
  by what is added, and a union merges one node into another.
\<close>

definition unchanged :: "graph \<Rightarrow> graph \<Rightarrow> bool" where
  "unchanged g g' \<longleftrightarrow> view g' = view g \<and> (\<forall>i < num g. sn g' i = sn g i) \<and> g_derefs g' = g_derefs g \<and>
     (links_ok g \<longrightarrow> links_ok g') \<and> (stores_ok g \<longrightarrow> stores_ok g')"

lemma wp_Find:
  assumes ok: "graph_ok X g" and i: "i < num g"
  shows "wp (GraphFind i) (\<lambda>j g'. j = grep g i \<and> graph_ok X g' \<and> unchanged g g') g"
proof -
  note D = graph_okD[OF ok]
  obtain \<rho> where f: "forest \<rho> (g_sets g)" using D(1) by blast
  obtain es where es: "compress (g_sets g) (grep g i) i = Some (returns (es, grep g i))" "forest \<rho> es" "same_roots (g_sets g) es"
    using forest_compress[OF f i refl] by blast
  let ?g = "g\<lparr>g_sets := es\<rparr>"
  have len: "length es = num g" using es(3) by (simp add: same_roots_def)
  have rts: "roots es = live g" by (rule same_roots_roots[OF es(3)])
  have rp: "rep es = grep g"
  proof
    fix j
    show "rep es j = grep g j"
    proof (cases "j < num g")
      case True
      then show ?thesis using es(3) by (simp add: same_roots_def)
    next
      case False
      then show ?thesis using len by (simp add: rep_def find_root.simps)
    qed
  qed
  have el: "e_element (es ! j) = e_element (g_sets g ! j)" if "j < num g" for j
    using es(3) that by (simp add: same_roots_def)
  then have sn: "sn ?g j = sn g j" if "j < num g" for j using that by (simp add: sn_def)
  have bnd: "j < num g" if "j \<in> live g \<union> X" for j using that graph_ok_bound[OF ok] live_less by blast
  have ok': "graph_ok X ?g"
  proof (rule graph_okI)
    show "e_element (g_sets ?g ! j) \<noteq> None \<longleftrightarrow> j \<in> live ?g \<union> X" if "j < num ?g" for j
      using graph_ok_element[OF ok, of j] el[of j] that len rts by simp
    show "sn_ok (num ?g) (dnum ?g) (sn ?g j)" if "j \<in> live ?g \<union> X" for j
      using D(6)[of j] sn[OF bnd, of j] that len rts by simp
    show "d < dnum ?g \<and> dn_node (dn ?g d) = j" if "j \<in> live ?g" "sn_deref (sn ?g j) = Some d" for j d
      using D(10)[of j d] sn[OF bnd, of j] that rts by simp
  qed (use D(2,3,7-9,11) graph_ok_bound[OF ok] es(2) len rts in auto)
  have rep_less: "grep g j < num g" if "j < num g" for j using forest_rep_root[OF f that] by simp
  have view: "view ?g = view g"
    using sn rts rp len by (auto simp: view_defs fun_eq_iff dest: live_less)
  have links: "links_ok ?g" if l: "links_ok g"
  proof -
    have "sn ?g (grep g j) = sn g (grep g j)" if "d < dnum g" "j \<in> bits (dn_setIns (dn g d)) \<union> bits (dn_setOuts (dn g d))" for d j
      using D(7,8)[OF that(1)] that(2) sn[OF rep_less] by (auto simp: bset_def)
    then show ?thesis using l unfolding links_ok_def by (simp add: rp)
  qed
  have stores: "stores_ok ?g" if "stores_ok g"
    using that sn unfolding stores_ok_def by (simp add: rts rp live_less)
  have "unchanged g ?g" using view sn links stores by (simp add: unchanged_def)
  moreover have "wp (the_set (grep g i)) (\<lambda>_ s'. s' = ?g) ?g"
    using wp_the_set[OF ok', of "grep g i"] grep_live[OF ok i] rts by simp
  ultimately show ?thesis
    using es(1) forest_find_root[OF f i] ok'
    by (auto simp: GraphFind_def intro!: wp_mono[OF \<open>wp (the_set _) _ _\<close>])
qed

lemma unchanged_num: "unchanged g g' \<Longrightarrow> num g' = num g \<and> dnum g' = dnum g \<and> live g' = live g \<and> grep g' = grep g"
  unfolding unchanged_def by (metis view_simps(1-4))

lemma wp_Propagate:
  assumes ok: "graph_ok X g" and i: "i \<in> live g \<union> X" "j \<in> live g"
  shows "wp (Propagate i j) (\<lambda>c g'. graph_ok X g' \<and> (links_ok g \<longrightarrow> links_ok g') \<and> (stores_ok g \<longrightarrow> stores_ok g') \<and> g_derefs g' = g_derefs g \<and>
    view g' = (view g)\<lparr>s_pts := (s_pts (view g))(j := bits (sn_nodes (sn g j)) \<union> bits (sn_nodes (sn g i))),
      s_funcs := (s_funcs (view g))(j := bits (sn_funcs (sn g j)) \<union> bits (sn_funcs (sn g i))),
      s_exts := (s_exts (view g))(j := bits (sn_exts (sn g j)) \<union> bits (sn_exts (sn g i)))\<rparr> \<and>
    (c \<longleftrightarrow> \<not> (bits (sn_nodes (sn g i)) \<subseteq> bits (sn_nodes (sn g j)) \<and> bits (sn_funcs (sn g i)) \<subseteq> bits (sn_funcs (sn g j)) \<and>
      bits (sn_exts (sn g i)) \<subseteq> bits (sn_exts (sn g j)))) \<and>
    (\<exists>m. g' = upd_set j m g \<and> sn_sets m = sn_sets (sn g j) \<and> sn_deref m = sn_deref (sn g j) \<and>
      sn_derefIns m = sn_derefIns (sn g j) \<and> sn_derefOuts m = sn_derefOuts (sn g j))) g"
proof -
  let ?n = "sn g i" and ?m = "sn g j"
  let ?m' = "?m\<lparr>sn_funcs := fst (Union (sn_funcs ?m) (sn_funcs ?n)), sn_exts := fst (Union (sn_exts ?m) (sn_exts ?n)),
    sn_nodes := fst (Union (sn_nodes ?m) (sn_nodes ?n))\<rparr>"
  have n: "sn_ok (num g) (dnum g) ?n" "sn_ok (num g) (dnum g) ?m" using graph_okD(6)[OF ok] i by auto
  then have n': "sn_ok (num g) (dnum g) ?m'" by (auto simp: sn_ok_def bset_Union Union_facts)
  have jl: "j < num g" using i(2) live_less by blast
  have bits: "bits (sn_funcs ?m') = bits (sn_funcs ?m) \<union> bits (sn_funcs ?n)"
      "bits (sn_exts ?m') = bits (sn_exts ?m) \<union> bits (sn_exts ?n)" "bits (sn_nodes ?m') = bits (sn_nodes ?m) \<union> bits (sn_nodes ?n)"
    using n by (auto simp: sn_ok_def bset_def Union_facts)
  have ok': "graph_ok X (upd_set j ?m' g)" by (rule upd_set_ok[OF ok]) (use i n' in auto)
  have l': "links_ok g \<longrightarrow> links_ok (upd_set j ?m' g)" "stores_ok g \<longrightarrow> stores_ok (upd_set j ?m' g)"
    using upd_set_links[OF ok _ jl, of ?m'] upd_set_stores[OF ok _ jl, of ?m'] by auto
  have v: "view (upd_set j ?m' g) = (view g)\<lparr>s_pts := (s_pts (view g))(j := bits (sn_nodes ?m) \<union> bits (sn_nodes ?n)),
      s_funcs := (s_funcs (view g))(j := bits (sn_funcs ?m) \<union> bits (sn_funcs ?n)),
      s_exts := (s_exts (view g))(j := bits (sn_exts ?m) \<union> bits (sn_exts ?n))\<rparr>"
    unfolding view_upd_set[OF ok i(2)] bits using i(2) by (auto simp: fun_eq_iff)
  have c: "snd (Union (sn_funcs ?m) (sn_funcs ?n)) \<noteq> 0 \<or> snd (Union (sn_exts ?m) (sn_exts ?n)) \<noteq> 0 \<or>
      snd (Union (sn_nodes ?m) (sn_nodes ?n)) \<noteq> 0 \<longleftrightarrow>
      \<not> (bits (sn_nodes ?n) \<subseteq> bits (sn_nodes ?m) \<and> bits (sn_funcs ?n) \<subseteq> bits (sn_funcs ?m) \<and> bits (sn_exts ?n) \<subseteq> bits (sn_exts ?m))"
    using n unfolding sn_ok_def bset_def by (simp only: Union_facts) blast
  show ?thesis
    unfolding Propagate_def wp_bind wp_the_set[OF ok i(1)] wp_the_set[OF ok UnI1[OF i(2)]] Let_def case_prod_unfold
      wp_then wp_put_set wp_return
    using ok' l' v c by (auto simp: upd_set_def)
qed

lemma wp_Propagate_live:
  assumes ok: "graph_ok X g" and i: "i \<in> live g" "j \<in> live g"
  shows "wp (Propagate i j) (\<lambda>c g'. graph_ok X g' \<and> (links_ok g \<longrightarrow> links_ok g') \<and> (stores_ok g \<longrightarrow> stores_ok g') \<and>
    view g' = (view g)\<lparr>s_pts := (s_pts (view g))(j := s_pts (view g) j \<union> s_pts (view g) i),
      s_funcs := (s_funcs (view g))(j := s_funcs (view g) j \<union> s_funcs (view g) i),
      s_exts := (s_exts (view g))(j := s_exts (view g) j \<union> s_exts (view g) i)\<rparr> \<and>
    (c \<longleftrightarrow> \<not> (s_pts (view g) i \<subseteq> s_pts (view g) j \<and> s_funcs (view g) i \<subseteq> s_funcs (view g) j \<and>
      s_exts (view g) i \<subseteq> s_exts (view g) j))) g"
  by (rule wp_mono[OF wp_Propagate[OF ok UnI1[OF i(1)] i(2)]]) (use i in simp)

lemma wp_SetEquals:
  assumes ok: "graph_ok X g" and i: "i \<in> live g" "j \<in> live g"
  shows "wp (SetEquals i j) Q g \<longleftrightarrow> Q (s_funcs (view g) i = s_funcs (view g) j \<and> s_exts (view g) i = s_exts (view g) j \<and>
    s_pts (view g) i = s_pts (view g) j) g"
proof -
  have n: "sn_ok (num g) (dnum g) (sn g i)" "sn_ok (num g) (dnum g) (sn g j)" using graph_okD(6)[OF ok] i by auto
  show ?thesis
    using n i by (simp add: SetEquals_def wp_the_set[OF ok] sn_ok_def bset_def bitset_eq_spec)
qed

lemma wp_SetAddSet:
  assumes ok: "graph_ok X g" and i: "i \<in> live g" "j < num g"
  shows "wp (SetAddSet i j) (\<lambda>c g'. graph_ok X g' \<and> (links_ok g \<longrightarrow> links_ok g') \<and> (stores_ok g \<longrightarrow> stores_ok g') \<and>
    view g' = (view g)\<lparr>s_succ := (s_succ (view g))(i := insert j (s_succ (view g) i))\<rparr> \<and> (c \<longleftrightarrow> j \<notin> s_succ (view g) i)) g"
proof -
  note D = graph_okD[OF ok]
  let ?n = "sn g i"
  let ?n' = "?n\<lparr>sn_sets := fst (Insert (sn_sets ?n) j)\<rparr>"
  have n: "sn_ok (num g) (dnum g) ?n" using D(6) i by auto
  have b: "bset (num g) (sn_sets ?n)" using n by (simp add: sn_ok_def)
  note ins = bset_Insert[OF b i(2) D(2)]
  have il: "i < num g" using i(1) live_less by blast
  have ok': "graph_ok X (upd_set i ?n' g)" by (rule upd_set_ok[OF ok]) (use i n ins in \<open>auto simp: sn_ok_def\<close>)
  have l': "links_ok g \<longrightarrow> links_ok (upd_set i ?n' g)" "stores_ok g \<longrightarrow> stores_ok (upd_set i ?n' g)"
    using upd_set_links[OF ok _ il, of ?n'] upd_set_stores[OF ok _ il, of ?n'] by auto
  have v: "view (upd_set i ?n' g) = (view g)\<lparr>s_succ := (s_succ (view g))(i := insert j (s_succ (view g) i))\<rparr>"
    unfolding view_upd_set[OF ok i(1)] using i(1) ins by (auto simp: fun_eq_iff)
  show ?thesis
    unfolding SetAddSet_def wp_bind wp_the_set[OF ok UnI1[OF i(1)]] case_prod_unfold wp_then wp_put_set wp_return
    using ok' l' v ins(3) i(1) by (simp add: case_prod_unfold wp_put_set)
qed

subsection \<open>Merging dereferencing nodes\<close>

text \<open>The steps below leave the nodes that are being merged alone, and put on the lists only what \<open>E\<close> allows.\<close>

definition same_view :: "nat set \<Rightarrow> (nat \<times> nat) set \<Rightarrow> graph \<Rightarrow> graph \<Rightarrow> bool" where
  "same_view X E g g' \<longleftrightarrow> graph_ok X g' \<and> links_ok g' \<and> view g' = view g \<and> g_derefs g' = g_derefs g \<and>
     (\<forall>x \<in> X. sn g' x = sn g x) \<and>
     (\<forall>r \<in> live g. bits (sn_derefOuts (sn g' r)) \<subseteq> bits (sn_derefOuts (sn g r)) \<union> {d. (r, d) \<in> E})"

lemma wp_move_edge:
  assumes ok: "graph_ok X g" "links_ok g" and X: "X \<inter> live g = {}" and i: "i < num g" and ab: "a < dnum g" "b < dnum g"
  shows "bits (sn_derefOuts (sn g (grep g i))) \<noteq> {} \<Longrightarrow>
      wp (move_edge sn_derefOuts (\<lambda>s n. n\<lparr>sn_derefOuts := s\<rparr>) a b i)
        (\<lambda>_ g'. same_view X {(grep g i, b)} g g' \<and> bits (sn_derefOuts (sn g' (grep g i))) \<noteq> {}) g"
    and "bits (sn_derefIns (sn g (grep g i))) \<noteq> {} \<Longrightarrow>
      wp (move_edge sn_derefIns (\<lambda>s n. n\<lparr>sn_derefIns := s\<rparr>) a b i)
        (\<lambda>_ g'. same_view X {} g g' \<and> bits (sn_derefIns (sn g' (grep g i))) \<noteq> {}) g"
proof -
  let ?j = "grep g i"
  note D = graph_okD[OF ok(1)]
  have j: "?j \<in> live g" "?j < num g" using grep_live[OF ok(1) i] live_less by blast+
  have node: "sn_ok (num g) (dnum g) (sn g ?j)" using D(6) j by blast
  have move: "wp (move_edge get put a b i) (\<lambda>_ g'. same_view X E g g' \<and> bits (get (sn g' ?j)) \<noteq> {}) g"
    if get: "bset (dnum g) (get (sn g ?j))" "bits (get (sn g ?j)) \<noteq> {}"
      and put: "\<And>s. bset (dnum g) s \<Longrightarrow> sn_ok (num g) (dnum g) (put s (sn g ?j))" "\<And>s. get (put s (sn g ?j)) = s"
        "\<And>s. sn_sets (put s (sn g ?j)) = sn_sets (sn g ?j)" "\<And>s. sn_nodes (put s (sn g ?j)) = sn_nodes (sn g ?j)"
        "\<And>s. sn_funcs (put s (sn g ?j)) = sn_funcs (sn g ?j)" "\<And>s. sn_exts (put s (sn g ?j)) = sn_exts (sn g ?j)"
        "\<And>s. sn_deref (put s (sn g ?j)) = sn_deref (sn g ?j)"
        "\<And>s. bits s \<noteq> {} \<Longrightarrow> bits (sn_derefOuts (sn g ?j)) \<noteq> {} \<Longrightarrow> bits (sn_derefOuts (put s (sn g ?j))) \<noteq> {}"
        "\<And>s. bits s \<noteq> {} \<Longrightarrow> bits (sn_derefIns (sn g ?j)) \<noteq> {} \<Longrightarrow> bits (sn_derefIns (put s (sn g ?j))) \<noteq> {}"
        "\<And>s. bits s \<subseteq> insert b (bits (get (sn g ?j))) \<Longrightarrow>
          bits (sn_derefOuts (put s (sn g ?j))) \<subseteq> bits (sn_derefOuts (sn g ?j)) \<union> {d. (?j, d) \<in> E}"
    for get :: "set_node \<Rightarrow> bitset" and put E
    unfolding move_edge_def wp_bind
  proof (rule wp_mono[OF wp_Find[OF ok(1) i]], elim conjE)
    fix j' g1 assume j': "j' = ?j" and ok1: "graph_ok X g1" and u: "unchanged g g1"
    note n1 = unchanged_num[OF u]
    have sn1: "sn g1 x = sn g x" if "x < num g" for x using u that by (simp add: unchanged_def)
    have l1: "links_ok g1" using u ok(2) by (simp add: unchanged_def)
    obtain s where s: "Erase (get (sn g ?j)) a = returns s" "bset (dnum g) s" "bits s = bits (get (sn g ?j)) - {a}"
      using bset_Erase[OF get(1) ab(1) D(3) get(2)] by blast
    note ins = bset_Insert[OF s(2) ab(2) D(3)]
    let ?n = "put (fst (Insert s b)) (sn g ?j)"
    have ok2: "graph_ok X (upd_set ?j ?n g1)"
      by (rule upd_set_ok[OF ok1]) (use n1 j put(1)[OF ins(1)] put(7) sn1 in auto)
    have l2: "links_ok (upd_set ?j ?n g1)"
      by (rule upd_set_links[OF ok1 l1]) (use n1 j sn1 put(8,9) ins(2) in auto)
    have outs: "bits (sn_derefOuts (sn (upd_set ?j ?n g1) r)) \<subseteq> bits (sn_derefOuts (sn g r)) \<union> {d. (r, d) \<in> E}"
      if "r \<in> live g" for r
      using upd_set_facts(6)[OF ok1, of ?j ?n r] n1 j sn1[OF live_less[OF that]] put(10)[of "fst (Insert s b)"] ins(2) s(3) by auto
    have "view (upd_set ?j ?n g1) = view g1"
      using n1 j sn1 put(3-7) by (subst view_upd_set[OF ok1]) (auto simp: fun_eq_iff)
    then have "same_view X E g (upd_set ?j ?n g1)"
      using u ok2 l2 n1 j X upd_set_facts(4,6)[OF ok1, of ?j ?n] sn1 D(4) outs
      by (auto simp: same_view_def unchanged_def)
    moreover have "bits (get (sn (upd_set ?j ?n g1) ?j)) \<noteq> {}"
      using upd_set_facts(6)[OF ok1, of ?j ?n] n1 j put(2) ins(2) by simp
    ultimately show "wp (the_set j') (\<lambda>n. wp (elift (Some (Erase (get n) a)))
        (\<lambda>s. wp (put_set j' (put (fst (Insert s b)) n)) (\<lambda>_ g'. same_view X E g g' \<and> bits (get (sn g' ?j)) \<noteq> {}))) g1"
      using wp_the_set[OF ok1, of ?j] n1 j sn1 s(1) by (simp add: j' wp_put_set)
  qed
  show "wp (move_edge sn_derefOuts (\<lambda>s n. n\<lparr>sn_derefOuts := s\<rparr>) a b i)
        (\<lambda>_ g'. same_view X {(grep g i, b)} g g' \<and> bits (sn_derefOuts (sn g' (grep g i))) \<noteq> {}) g" if "bits (sn_derefOuts (sn g (grep g i))) \<noteq> {}"
    by (rule move) (use that node in \<open>auto simp: sn_ok_def\<close>)
  show "wp (move_edge sn_derefIns (\<lambda>s n. n\<lparr>sn_derefIns := s\<rparr>) a b i)
        (\<lambda>_ g'. same_view X {} g g' \<and> bits (sn_derefIns (sn g' (grep g i))) \<noteq> {}) g" if "bits (sn_derefIns (sn g (grep g i))) \<noteq> {}"
    by (rule move) (use that node in \<open>auto simp: sn_ok_def\<close>)
qed

lemma same_view_facts:
  assumes "same_view X E g g'"
  shows "graph_ok X g'" "links_ok g'" "view g' = view g" "num g' = num g" "dnum g' = dnum g" "live g' = live g"
    "grep g' = grep g" "g_derefs g' = g_derefs g" "x \<in> X \<Longrightarrow> sn g' x = sn g x"
  using assms unfolding same_view_def by (metis view_simps(1-4))+

text \<open>What the two loops have added so far.\<close>

definition moved :: "nat set \<Rightarrow> graph \<Rightarrow> nat \<Rightarrow> nat \<Rightarrow> nat set \<Rightarrow> nat set \<Rightarrow> graph \<Rightarrow> bool" where
  "moved X g0 a b I J g \<longleftrightarrow> graph_ok X g \<and> links_ok g \<and> dn g a = dn g0 a \<and> (\<forall>x \<in> X. sn g x = sn g0 x) \<and>
     view g = (view g0)\<lparr>s_ins := (s_ins (view g0))(b := s_ins (view g0) b \<union> I),
       s_outs := (s_outs (view g0))(b := s_outs (view g0) b \<union> J)\<rparr>"

lemma moved_num:
  assumes "moved X g0 a b I J g"
  shows "num g = num g0" "dnum g = dnum g0" "live g = live g0" "grep g = grep g0"
proof -
  have v: "view g = (view g0)\<lparr>s_ins := (s_ins (view g0))(b := s_ins (view g0) b \<union> I),
       s_outs := (s_outs (view g0))(b := s_outs (view g0) b \<union> J)\<rparr>" using assms by (simp add: moved_def)
  show "num g = num g0" using arg_cong[OF v, of s_num] by simp
  show "dnum g = dnum g0" using arg_cong[OF v, of s_dnum] by simp
  show "live g = live g0" using arg_cong[OF v, of s_live] by simp
  show "grep g = grep g0" using arg_cong[OF v, of s_rep] by simp
qed

lemma moved_deref:
  assumes m: "moved X g0 a b I J g" and ab: "a \<noteq> b" "b < dnum g0" and i: "i < num g0"
  shows "bits (sn_derefOuts (sn g (grep g i))) \<noteq> {} \<Longrightarrow>
      moved X g0 a b (insert i I) J (upd_deref b ((dn g b)\<lparr>dn_setIns := fst (Insert (dn_setIns (dn g b)) i)\<rparr>) g)"
    and "bits (sn_derefIns (sn g (grep g i))) \<noteq> {} \<Longrightarrow>
      moved X g0 a b I (insert i J) (upd_deref b ((dn g b)\<lparr>dn_setOuts := fst (Insert (dn_setOuts (dn g b)) i)\<rparr>) g)"
proof -
  have ok: "graph_ok X g" "links_ok g" using m by (simp_all add: moved_def)
  note D = graph_okD[OF ok(1)] and n = moved_num[OF m]
  have b: "b < dnum g" using ab(2) n by simp
  have il: "i < num g" using i n by simp
  have ds: "bset (num g) (dn_setIns (dn g b))" "bset (num g) (dn_setOuts (dn g b))" using D(7,8)[OF b] by blast+
  have sn: "sn (upd_deref b x g) = sn g" for x by (simp add: sn_def upd_deref_def fun_eq_iff)
  have dna: "dn (upd_deref b x g) a = dn g a" for x using ab(1) by (simp add: upd_deref_def)
  have vb: "s_ins (view g) b = s_ins (view g0) b \<union> I" "s_outs (view g) b = s_outs (view g0) b \<union> J"
    using m by (simp_all add: moved_def)
  have vw: "view g = (view g0)\<lparr>s_ins := (s_ins (view g0))(b := s_ins (view g0) b \<union> I),
       s_outs := (s_outs (view g0))(b := s_outs (view g0) b \<union> J)\<rparr>" using m by (simp add: moved_def)
  have own: "dn_node (dn g b) = s_owner (view g0) b" "dn_contents (dn g b) = s_contents (view g0) b"
    using arg_cong[OF vw, of "\<lambda>v. s_owner v b"] arg_cong[OF vw, of "\<lambda>v. s_contents v b"] b by simp_all
  have bits: "bits (dn_setIns (dn g b)) = s_ins (view g0) b \<union> I" "bits (dn_setOuts (dn g b)) = s_outs (view g0) b \<union> J"
    using vb b by simp_all
  show "moved X g0 a b (insert i I) J (upd_deref b ((dn g b)\<lparr>dn_setIns := fst (Insert (dn_setIns (dn g b)) i)\<rparr>) g)"
    if o: "bits (sn_derefOuts (sn g (grep g i))) \<noteq> {}"
  proof -
    note ins = bset_Insert[OF ds(1) il D(2)]
    have "graph_ok X (upd_deref b ((dn g b)\<lparr>dn_setIns := fst (Insert (dn_setIns (dn g b)) i)\<rparr>) g)"
      by (rule upd_deref_ok[OF ok(1) b]) (use ins ds in auto)
    moreover have "links_ok (upd_deref b ((dn g b)\<lparr>dn_setIns := fst (Insert (dn_setIns (dn g b)) i)\<rparr>) g)"
      by (rule upd_deref_links[OF ok(2) b]) (use ins o ok(2) b in \<open>auto simp: links_ok_def\<close>)
    moreover have "view (upd_deref b ((dn g b)\<lparr>dn_setIns := fst (Insert (dn_setIns (dn g b)) i)\<rparr>) g) =
        (view g0)\<lparr>s_ins := (s_ins (view g0))(b := s_ins (view g0) b \<union> insert i I),
          s_outs := (s_outs (view g0))(b := s_outs (view g0) b \<union> J)\<rparr>"
      unfolding view_upd_deref[OF b] vw using own bits ins(2) by (auto simp: fun_eq_iff)
    ultimately show ?thesis using m by (simp add: moved_def sn dna)
  qed
  show "moved X g0 a b I (insert i J) (upd_deref b ((dn g b)\<lparr>dn_setOuts := fst (Insert (dn_setOuts (dn g b)) i)\<rparr>) g)"
    if o: "bits (sn_derefIns (sn g (grep g i))) \<noteq> {}"
  proof -
    note ins = bset_Insert[OF ds(2) il D(2)]
    have "graph_ok X (upd_deref b ((dn g b)\<lparr>dn_setOuts := fst (Insert (dn_setOuts (dn g b)) i)\<rparr>) g)"
      by (rule upd_deref_ok[OF ok(1) b]) (use ins ds in auto)
    moreover have "links_ok (upd_deref b ((dn g b)\<lparr>dn_setOuts := fst (Insert (dn_setOuts (dn g b)) i)\<rparr>) g)"
      by (rule upd_deref_links[OF ok(2) b]) (use ins o ok(2) b in \<open>auto simp: links_ok_def\<close>)
    moreover have "view (upd_deref b ((dn g b)\<lparr>dn_setOuts := fst (Insert (dn_setOuts (dn g b)) i)\<rparr>) g) =
        (view g0)\<lparr>s_ins := (s_ins (view g0))(b := s_ins (view g0) b \<union> I),
          s_outs := (s_outs (view g0))(b := s_outs (view g0) b \<union> insert i J)\<rparr>"
      unfolding view_upd_deref[OF b] vw using own bits ins(2) by (auto simp: fun_eq_iff)
    ultimately show ?thesis using m by (simp add: moved_def sn dna)
  qed
qed

lemma moved_same_view:
  assumes "moved X g0 a b I J g" "same_view X E g g'"
  shows "moved X g0 a b I J g'"
  using assms same_view_facts[OF assms(2)] by (simp add: moved_def)

lemma same_view_stores:
  assumes "same_view X {} g g'" "stores_ok g" "d < dnum g" "bits (dn_setIns (dn g d)) \<subseteq> bits (dn_setIns n)"
  shows "stores_ok (upd_deref d n g')"
proof -
  note f = same_view_facts[OF assms(1)]
  have "stores_ok g'" using assms(1,2) f unfolding stores_ok_def same_view_def by simp blast
  then show ?thesis by (rule upd_deref_stores[OF f(1)]) (use assms(3,4) f in simp_all)
qed

lemma move_in_stores:
  assumes sv: "same_view X {(grep g i, b)} g g'" and ok: "stores_ok g" and b: "b < dnum g" and i: "i < num g"
  shows "stores_ok (upd_deref b ((dn g' b)\<lparr>dn_setIns := fst (Insert (dn_setIns (dn g' b)) i)\<rparr>) g')"
proof -
  note f = same_view_facts[OF sv]
  have sn: "sn (upd_deref b x g') = sn g'" for x by (simp add: sn_def upd_deref_def fun_eq_iff)
  have bs: "bits (fst (Insert (dn_setIns (dn g' b)) i)) = insert i (bits (dn_setIns (dn g b)))"
  proof -
    have "bset (num g') (dn_setIns (dn g' b))" "i < num g'" "num g' \<le> uint32_max"
      using graph_okD(2,7)[OF f(1)] b i f by simp_all
    from bset_Insert(2)[OF this] show ?thesis using f(8) by simp
  qed
  have outs: "d \<in> bits (sn_derefOuts (sn g r)) \<or> r = grep g i \<and> d = b" if "r \<in> live g" "d \<in> bits (sn_derefOuts (sn g' r))" for r d
    using sv that unfolding same_view_def by blast
  show ?thesis
    unfolding stores_ok_def sn
  proof (intro ballI)
    fix r d
    let ?h = "upd_deref b ((dn g' b)\<lparr>dn_setIns := fst (Insert (dn_setIns (dn g' b)) i)\<rparr>) g'"
    assume "r \<in> live ?h" and d: "d \<in> bits (sn_derefOuts (sn g' r))"
    then have r: "r \<in> live g" using f(6) by (simp add: upd_deref_def)
    have dn: "bits (dn_setIns (dn ?h d)) = (if d = b then insert i (bits (dn_setIns (dn g b))) else bits (dn_setIns (dn g d)))"
      using b f bs by (simp add: upd_deref_def)
    from outs[OF r d] show "\<exists>j \<in> bits (dn_setIns (dn ?h d)). grep ?h j = r"
    proof
      assume "d \<in> bits (sn_derefOuts (sn g r))"
      then obtain j where "j \<in> bits (dn_setIns (dn g d))" "grep g j = r" using ok r unfolding stores_ok_def by blast
      then show ?thesis unfolding dn using f(7) by (intro bexI[of _ j]) (auto simp: upd_deref_def)
    next
      assume "r = grep g i \<and> d = b"
      then show ?thesis unfolding dn using f(7) by (intro bexI[of _ i]) (auto simp: upd_deref_def)
    qed
  qed
qed

lemma wp_ReplaceDeref:
  assumes ok: "graph_ok X g" "links_ok g" "stores_ok g" and X: "X \<inter> live g = {}" and ab: "a < dnum g" "b < dnum g" "a \<noteq> b"
  shows "wp (ReplaceDeref a b) (\<lambda>_ g'. moved X g a b (s_ins (view g) a) (s_outs (view g) a) g' \<and> stores_ok g') g"
proof -
  note D = graph_okD[OF ok(1)]
  have ds: "bset (num g) (dn_setIns (dn g a))" "bset (num g) (dn_setOuts (dn g a))" using D(7,8)[OF ab(1)] by blast+
  let ?I = "bits (dn_setIns (dn g a))" and ?J = "bits (dn_setOuts (dn g a))"
  have start: "moved X g a b {} {} g \<and> stores_ok g" using ok by (simp add: moved_def)
  have okm: "graph_ok X s \<and> links_ok s \<and> dn s a = dn g a" if "moved X g a b I J s" for I J s
    using that by (simp add: moved_def)
  have loopI: "wp (eeach (\<lambda>i. ethen (move_edge sn_derefOuts (\<lambda>s n. n\<lparr>sn_derefOuts := s\<rparr>) a b i)
         (ebind (the_deref b) (\<lambda>m. put_deref b (m\<lparr>dn_setIns := fst (Insert (dn_setIns m) i)\<rparr>))))
       (sorted_list_of_set ?I)) (\<lambda>_ s. moved X g a b ?I {} s \<and> stores_ok s) g"
  proof (rule wp_each_set[where P = "\<lambda>A s. moved X g a b A {} s \<and> stores_ok s", OF start])
    fix i A s assume i: "i \<in> set (sorted_list_of_set ?I)" and "moved X g a b A {} s \<and> stores_ok s"
    then have m: "moved X g a b A {} s" and st: "stores_ok s" by blast+
    note n = moved_num[OF m]
    have il: "i \<in> ?I" "i < num g" using i ds(1) by (auto simp: bset_def)
    have "bits (sn_derefOuts (sn s (grep s i))) \<noteq> {}" using okm[OF m] il(1) ab n unfolding links_ok_def by metis
    then have "wp (move_edge sn_derefOuts (\<lambda>s n. n\<lparr>sn_derefOuts := s\<rparr>) a b i)
        (\<lambda>_ g'. same_view X {(grep s i, b)} s g' \<and> bits (sn_derefOuts (sn g' (grep s i))) \<noteq> {}) s"
      by (intro wp_move_edge(1)) (use okm[OF m] X n il ab in simp_all)
    then show "wp (ethen (move_edge sn_derefOuts (\<lambda>s n. n\<lparr>sn_derefOuts := s\<rparr>) a b i)
         (ebind (the_deref b) (\<lambda>m. put_deref b (m\<lparr>dn_setIns := fst (Insert (dn_setIns m) i)\<rparr>))))
       (\<lambda>_ s. moved X g a b (insert i A) {} s \<and> stores_ok s) s"
      unfolding wp_then
      by (rule wp_mono, elim conjE) (use moved_deref(1)[OF moved_same_view[OF m] ab(3,2) il(2)] move_in_stores[OF _ st] ab n il(2) in
        \<open>simp add: wp_the_deref wp_put_deref same_view_facts\<close>)
  qed (use ds(1) in simp)
  have loopJ: "wp (eeach (\<lambda>i. ethen (move_edge sn_derefIns (\<lambda>s n. n\<lparr>sn_derefIns := s\<rparr>) a b i)
         (ebind (the_deref b) (\<lambda>m. put_deref b (m\<lparr>dn_setOuts := fst (Insert (dn_setOuts m) i)\<rparr>))))
       (sorted_list_of_set ?J)) (\<lambda>_ s. moved X g a b ?I ?J s \<and> stores_ok s) g1" if g1: "moved X g a b ?I {} g1 \<and> stores_ok g1" for g1
  proof (rule wp_each_set[where P = "\<lambda>A s. moved X g a b ?I A s \<and> stores_ok s", OF g1])
    fix i A s assume i: "i \<in> set (sorted_list_of_set ?J)" and "moved X g a b ?I A s \<and> stores_ok s"
    then have m: "moved X g a b ?I A s" and st: "stores_ok s" by blast+
    note n = moved_num[OF m]
    have il: "i \<in> ?J" "i < num g" using i ds(2) by (auto simp: bset_def)
    have "bits (sn_derefIns (sn s (grep s i))) \<noteq> {}" using okm[OF m] il(1) ab n unfolding links_ok_def by metis
    then have "wp (move_edge sn_derefIns (\<lambda>s n. n\<lparr>sn_derefIns := s\<rparr>) a b i)
        (\<lambda>_ g'. same_view X {} s g' \<and> bits (sn_derefIns (sn g' (grep s i))) \<noteq> {}) s"
      by (intro wp_move_edge(2)) (use okm[OF m] X n il ab in simp_all)
    then show "wp (ethen (move_edge sn_derefIns (\<lambda>s n. n\<lparr>sn_derefIns := s\<rparr>) a b i)
         (ebind (the_deref b) (\<lambda>m. put_deref b (m\<lparr>dn_setOuts := fst (Insert (dn_setOuts m) i)\<rparr>))))
       (\<lambda>_ s. moved X g a b ?I (insert i A) s \<and> stores_ok s) s"
      unfolding wp_then
      by (rule wp_mono, elim conjE) (use moved_deref(2)[OF moved_same_view[OF m] ab(3,2) il(2)] same_view_stores[OF _ st] ab n in
        \<open>simp add: wp_the_deref wp_put_deref same_view_facts\<close>)
  qed (use ds(2) in simp)
  show ?thesis
    unfolding ReplaceDeref_def wp_then wp_bind wp_the_deref[OF ab(1)] wp_each_of[OF ds(1) D(2)]
  proof (rule wp_mono[OF loopI])
    fix g1 assume g1: "moved X g a b ?I {} g1 \<and> stores_ok g1"
    then have m: "moved X g a b ?I {} g1" ..
    have "dn g1 a = dn g a" using m by (simp add: moved_def)
    then show "wp (the_deref a) (\<lambda>n. wp (each_of (dn_setOuts n)) (\<lambda>x. wp (eeach (\<lambda>i.
         ethen (move_edge sn_derefIns (\<lambda>s n. n\<lparr>sn_derefIns := s\<rparr>) a b i)
           (ebind (the_deref b) (\<lambda>m. put_deref b (m\<lparr>dn_setOuts := fst (Insert (dn_setOuts m) i)\<rparr>)))) x)
         (\<lambda>_ g'. moved X g a b (s_ins (view g) a) (s_outs (view g) a) g' \<and> stores_ok g'))) g1"
      using loopJ[OF g1] moved_num[OF m] ab ds(2) by (simp add: wp_the_deref wp_each_of[OF ds(2) D(2)])
  qed
qed


subsection \<open>Merging sets\<close>

definition merged :: "nat \<Rightarrow> nat \<Rightarrow> sgraph \<Rightarrow> sgraph" where
  "merged c r v = v\<lparr>s_rep := (\<lambda>i. if s_rep v i = c then r else s_rep v i), s_live := s_live v - {c},
     s_succ := (s_succ v)(r := s_succ v r \<union> s_succ v c, c := {}),
     s_pts := (s_pts v)(r := s_pts v r \<union> s_pts v c, c := {}),
     s_funcs := (s_funcs v)(r := s_funcs v r \<union> s_funcs v c, c := {}),
     s_exts := (s_exts v)(r := s_exts v r \<union> s_exts v c, c := {}),
     s_deref := (s_deref v)(r := (case s_deref v r of None \<Rightarrow> s_deref v c | Some d \<Rightarrow> Some d), c := None),
     s_owner := (case (s_deref v c, s_deref v r) of (Some d, None) \<Rightarrow> (s_owner v)(d := r) | _ \<Rightarrow> s_owner v),
     s_ins := (case (s_deref v c, s_deref v r) of (Some d, Some e) \<Rightarrow> (s_ins v)(e := s_ins v e \<union> s_ins v d) | _ \<Rightarrow> s_ins v),
     s_outs := (case (s_deref v c, s_deref v r) of (Some d, Some e) \<Rightarrow> (s_outs v)(e := s_outs v e \<union> s_outs v d) | _ \<Rightarrow> s_outs v),
     s_roots := List.map (\<lambda>i. if i = c then r else i) (s_roots v)\<rparr>"

definition upd_parent :: "nat \<Rightarrow> nat \<Rightarrow> graph \<Rightarrow> graph" where
  "upd_parent a b g = g\<lparr>g_sets := (g_sets g)[a := (g_sets g ! a)\<lparr>e_parent := b\<rparr>]\<rparr>"

lemma upd_parent_facts:
  assumes ok: "graph_ok {} g" and ab: "a \<in> live g" "b \<in> live g" "a \<noteq> b"
  shows "graph_ok {a} (upd_parent a b g)" "num (upd_parent a b g) = num g" "live (upd_parent a b g) = live g - {a}"
    "grep (upd_parent a b g) = (\<lambda>i. if grep g i = a then b else grep g i)" "sn (upd_parent a b g) = sn g"
    "g_derefs (upd_parent a b g) = g_derefs g" "g_roots (upd_parent a b g) = g_roots g"
    "view (upd_parent a b g) = (view g)\<lparr>s_rep := (\<lambda>i. if grep g i = a then b else grep g i), s_live := live g - {a},
      s_succ := (s_succ (view g))(a := {}), s_pts := (s_pts (view g))(a := {}), s_funcs := (s_funcs (view g))(a := {}),
      s_exts := (s_exts (view g))(a := {}), s_deref := (s_deref (view g))(a := None),
      s_roots := List.map (\<lambda>i. if i = a then b else i) (s_roots (view g))\<rparr>"
proof -
  let ?g = "upd_parent a b g"
  note D = graph_okD[OF ok]
  obtain \<rho> where f: "forest \<rho> (g_sets g)" using D(1) by blast
  note link = forest_link[OF f ab]
  have al: "a < num g" using ab(1) live_less by blast
  show num: "num ?g = num g" and live: "live ?g = live g - {a}" using link by (simp_all add: upd_parent_def)
  show grep: "grep ?g = (\<lambda>i. if grep g i = a then b else grep g i)"
  proof
    fix j
    show "grep ?g j = (if grep g j = a then b else grep g j)"
    proof (cases "j < num g")
      case True
      then show ?thesis using link by (simp add: upd_parent_def)
    next
      case False
      then show ?thesis using num al by (simp add: rep_def find_root.simps)
    qed
  qed
  show sn: "sn ?g = sn g" using al by (auto simp: sn_def upd_parent_def fun_eq_iff nth_list_update)
  show s: "g_derefs ?g = g_derefs g" "g_roots ?g = g_roots g" by (simp_all add: upd_parent_def)
  have el: "e_element (g_sets ?g ! j) = e_element (g_sets g ! j)" if "j < num g" for j
    using that al by (simp add: upd_parent_def nth_list_update)
  show "graph_ok {a} ?g"
  proof (rule graph_okI, unfold num live s sn)
    show "\<exists>\<rho>. forest \<rho> (g_sets ?g)" using link by (simp add: upd_parent_def)
    show "e_element (g_sets ?g ! j) \<noteq> None \<longleftrightarrow> j \<in> live g - {a} \<union> {a}" if "j < num g" for j
      using graph_ok_element[OF ok that] el[OF that] ab(1) by auto
    show "sn_ok (num g) (dnum g) (sn g j)" if "j \<in> live g - {a} \<union> {a}" for j using D(6)[of j] that ab(1) by auto
  qed (use D al in auto)
  show "view ?g = (view g)\<lparr>s_rep := (\<lambda>i. if grep g i = a then b else grep g i), s_live := live g - {a},
      s_succ := (s_succ (view g))(a := {}), s_pts := (s_pts (view g))(a := {}), s_funcs := (s_funcs (view g))(a := {}),
      s_exts := (s_exts (view g))(a := {}), s_deref := (s_deref (view g))(a := None),
      s_roots := List.map (\<lambda>i. if i = a then b else i) (s_roots (view g))\<rparr>"
    by (auto simp: view_def of_live_def of_deref_def num live grep sn s fun_eq_iff)
qed

text \<open>The last step of a merge, and the ranks, of which the view knows nothing.\<close>

lemma drop_element:
  assumes ok: "graph_ok {a} g" "links_ok g" "stores_ok g" and a: "a \<notin> live g"
  defines "g' \<equiv> g\<lparr>g_sets := (g_sets g)[a := (g_sets g ! a)\<lparr>e_element := None\<rparr>]\<rparr>"
  shows "graph_ok {} g' \<and> links_ok g' \<and> stores_ok g' \<and> view g' = view g"
proof -
  note D = graph_okD[OF ok(1)]
  note p = same_parents[OF ok(1), of "g_sets g'"]
  have al: "a < num g" using D(4) by simp
  have eqs: "num g' = num g" "live g' = live g" "grep g' = grep g" "g_derefs g' = g_derefs g" "g_roots g' = g_roots g"
    using p by (simp_all add: g'_def)
  have sn: "sn g' j = sn g j" if "j \<noteq> a" for j using that by (simp add: sn_def g'_def)
  have sn_live: "sn g' j = sn g j" if "j \<in> live g" for j using sn that a by metis
  have 1: "graph_ok {} g'"
  proof (rule graph_okI, unfold eqs)
    show "\<exists>\<rho>. forest \<rho> (g_sets g')" using p(4) by (simp add: g'_def)
    show "e_element (g_sets g' ! j) \<noteq> None \<longleftrightarrow> j \<in> live g \<union> {}" if "j < num g" for j
      using graph_ok_element[OF ok(1) that] that al a by (auto simp: g'_def nth_list_update)
  qed (use D sn_live in auto)
  have "grep g j \<in> live g" if "d < dnum g" "j \<in> bits (dn_setIns (dn g d)) \<union> bits (dn_setOuts (dn g d))" for d j
    using D(7,8)[OF that(1)] that(2) grep_live[OF ok(1)] by (auto simp: bset_def)
  then have 2: "links_ok g'" using ok(2) sn_live unfolding links_ok_def eqs by auto
  have 3: "stores_ok g'" using ok(3) sn_live unfolding stores_ok_def eqs by auto
  have "view g' = view g" using sn_live by (auto simp: view_def of_live_def of_deref_def eqs fun_eq_iff)
  then show ?thesis using 1 2 3 by blast
qed

lemma raise_rank:
  fixes k :: nat
  assumes ok: "graph_ok {} g" "links_ok g" "stores_ok g" and a: "a < num g"
  defines "g' \<equiv> g\<lparr>g_sets := (g_sets g)[a := (g_sets g ! a)\<lparr>e_rank := k\<rparr>]\<rparr>"
  shows "graph_ok {} g' \<and> links_ok g' \<and> stores_ok g' \<and> view g' = view g"
proof -
  note D = graph_okD[OF ok(1)]
  have "List.map e_parent (g_sets g') = List.map e_parent (g_sets g)"
    using a by (simp add: g'_def list_eq_iff_nth_eq nth_list_update)
  note p = same_parents[OF ok(1) this]
  have eqs: "num g' = num g" "live g' = live g" "grep g' = grep g" "g_derefs g' = g_derefs g" "g_roots g' = g_roots g"
    using p by (simp_all add: g'_def)
  have el: "e_element (g_sets g' ! j) = e_element (g_sets g ! j)" for j
    using a by (cases "j = a") (simp_all add: g'_def)
  have sn: "sn g' = sn g" by (simp add: sn_def el fun_eq_iff)
  have 1: "graph_ok {} g'"
    by (rule graph_okI, unfold eqs sn el) (use p(4) D graph_ok_element[OF ok(1)] in auto)
  have "links_ok g'" "stores_ok g'" using ok(2,3) unfolding links_ok_def stores_ok_def eqs sn .
  moreover have "view g' = view g" by (simp add: view_def of_live_def of_deref_def eqs sn fun_eq_iff)
  ultimately show ?thesis using 1 by blast
qed


lemma node_union_ok:
  assumes "sn_ok n m x" "sn_ok n m y"
  shows "sn_ok n m (x\<lparr>sn_sets := fst (Union (sn_sets x) (sn_sets y)),
       sn_derefIns := fst (Union (sn_derefIns x) (sn_derefIns y)),
       sn_derefOuts := fst (Union (sn_derefOuts x) (sn_derefOuts y))\<rparr>)"
  using assms by (simp add: sn_ok_def bset_Union)

text \<open>The set of edges of the survivor, with the lists of the other one joined in.\<close>

definition joined :: "graph \<Rightarrow> nat \<Rightarrow> nat \<Rightarrow> graph" where
  "joined g a b = upd_set b ((sn g b)\<lparr>sn_sets := fst (Union (sn_sets (sn g b)) (sn_sets (sn g a))),
       sn_derefIns := fst (Union (sn_derefIns (sn g b)) (sn_derefIns (sn g a))),
       sn_derefOuts := fst (Union (sn_derefOuts (sn g b)) (sn_derefOuts (sn g a)))\<rparr>) g"

lemma joined_facts:
  assumes ok: "graph_ok {a} g" and b: "b \<in> live g" and ne: "a \<noteq> b"
  shows "graph_ok {a} (joined g a b)" "num (joined g a b) = num g" "live (joined g a b) = live g"
    "grep (joined g a b) = grep g" "g_derefs (joined g a b) = g_derefs g" "sn (joined g a b) a = sn g a"
    "j \<noteq> b \<Longrightarrow> sn (joined g a b) j = sn g j"
    "sn_deref (sn (joined g a b) b) = sn_deref (sn g b)"
    "bits (sn_derefOuts (sn (joined g a b) b)) = bits (sn_derefOuts (sn g b)) \<union> bits (sn_derefOuts (sn g a))"
    "bits (sn_derefIns (sn (joined g a b) b)) = bits (sn_derefIns (sn g b)) \<union> bits (sn_derefIns (sn g a))"
    "view (joined g a b) = (view g)\<lparr>s_succ := (s_succ (view g))(b := s_succ (view g) b \<union> bits (sn_sets (sn g a)))\<rparr>"
proof -
  note D = graph_okD[OF ok]
  have n: "sn_ok (num g) (dnum g) (sn g a)" "sn_ok (num g) (dnum g) (sn g b)" using D(6) b by auto
  note n' = node_union_ok[OF n(2,1)]
  have bl: "b < num g" using b live_less by blast
  note f = upd_set_facts[OF ok, of b] upd_set_facts(6)[OF ok bl]
  have sn: "sn (joined g a b) j = (if j = b then (sn g b)\<lparr>sn_sets := fst (Union (sn_sets (sn g b)) (sn_sets (sn g a))),
       sn_derefIns := fst (Union (sn_derefIns (sn g b)) (sn_derefIns (sn g a))),
       sn_derefOuts := fst (Union (sn_derefOuts (sn g b)) (sn_derefOuts (sn g a)))\<rparr> else sn g j)" for j
    unfolding joined_def by (rule f(7))
  show "graph_ok {a} (joined g a b)" unfolding joined_def by (rule upd_set_ok[OF ok]) (use b n' in auto)
  show "num (joined g a b) = num g" "live (joined g a b) = live g" "grep (joined g a b) = grep g"
    "g_derefs (joined g a b) = g_derefs g" unfolding joined_def using f by auto
  show "sn (joined g a b) a = sn g a" "j \<noteq> b \<Longrightarrow> sn (joined g a b) j = sn g j"
    "sn_deref (sn (joined g a b) b) = sn_deref (sn g b)"
    "bits (sn_derefOuts (sn (joined g a b) b)) = bits (sn_derefOuts (sn g b)) \<union> bits (sn_derefOuts (sn g a))"
    "bits (sn_derefIns (sn (joined g a b) b)) = bits (sn_derefIns (sn g b)) \<union> bits (sn_derefIns (sn g a))"
    using sn ne n by (simp_all add: sn_ok_def bset_def Union_facts)
  show "view (joined g a b) = (view g)\<lparr>s_succ := (s_succ (view g))(b := s_succ (view g) b \<union> bits (sn_sets (sn g a)))\<rparr>"
    unfolding joined_def view_upd_set[OF ok b] using b n by (auto simp: fun_eq_iff sn_ok_def bset_def Union_facts)
qed

lemma joined_stores:
  assumes ok: "graph_ok {a} g" and b: "b \<in> live g" "a \<noteq> b" "a \<notin> live g"
    and st: "\<And>r d. r \<in> live g \<Longrightarrow> d \<in> bits (sn_derefOuts (sn g r)) \<Longrightarrow> \<exists>j \<in> bits (dn_setIns (dn g d)). grep g j = r"
      "\<And>d. d \<in> bits (sn_derefOuts (sn g a)) \<Longrightarrow> \<exists>j \<in> bits (dn_setIns (dn g d)). grep g j = b"
  shows "stores_ok (joined g a b)"
  unfolding stores_ok_def joined_facts[OF ok b(1,2)]
proof (intro ballI)
  fix r d assume r: "r \<in> live g" and d: "d \<in> bits (sn_derefOuts (sn (joined g a b) r))"
  show "\<exists>j \<in> bits (dn_setIns (dn g d)). grep g j = r"
  proof (cases "r = b")
    case True
    then show ?thesis using d st(1)[OF r] st(2) joined_facts(9)[OF ok b(1,2)] by blast
  next
    case False
    then show ?thesis using d st(1)[OF r] joined_facts(7)[OF ok b(1,2)] by simp
  qed
qed

text \<open>Handing over the dereferencing node.\<close>

definition handed :: "nat option \<Rightarrow> nat \<Rightarrow> sgraph \<Rightarrow> sgraph" where
  "handed da b v = (case da of None \<Rightarrow> v | Some d \<Rightarrow>
     (case s_deref v b of None \<Rightarrow> v\<lparr>s_deref := (s_deref v)(b := Some d), s_owner := (s_owner v)(d := b)\<rparr>
      | Some e \<Rightarrow> v\<lparr>s_ins := (s_ins v)(e := s_ins v e \<union> s_ins v d), s_outs := (s_outs v)(e := s_outs v e \<union> s_outs v d)\<rparr>))"

lemma hand_over:
  assumes ok: "graph_ok {a} g" "links_ok g" "stores_ok g" and b: "b \<in> live g" "a \<noteq> b" and d: "d < dnum g" "sn_deref (sn g b) = None"
    "\<forall>i \<in> live g. sn_deref (sn g i) \<noteq> Some d"
  defines "g' \<equiv> upd_deref d ((dn g d)\<lparr>dn_node := b\<rparr>) (upd_set b ((sn g b)\<lparr>sn_deref := Some d\<rparr>) g)"
  shows "graph_ok {a} g' \<and> links_ok g' \<and> stores_ok g' \<and> view g' = handed (Some d) b (view g)"
proof -
  note D = graph_okD[OF ok(1)]
  let ?h = "upd_deref d ((dn g d)\<lparr>dn_node := b\<rparr>) g"
  have g': "g' = upd_set b ((sn g b)\<lparr>sn_deref := Some d\<rparr>) ?h" by (simp add: g'_def upd_set_def upd_deref_def)
  have h: "graph_ok {a} ?h" by (rule upd_deref_ok[OF ok(1) d(1)]) (use D(7,8)[OF d(1)] d(3) in auto)
  have hl: "links_ok ?h" by (rule upd_deref_links[OF ok(2) d(1)]) (use ok(2) d(1) in \<open>auto simp: links_ok_def\<close>)
  have hs: "stores_ok ?h" by (rule upd_deref_stores[OF ok(1,3) d(1)]) simp
  have sn: "sn ?h = sn g" "live ?h = live g" "num ?h = num g" "dnum ?h = dnum g"
    by (simp_all add: sn_def upd_deref_def fun_eq_iff)
  have bl: "b < num ?h" using b(1) sn live_less by simp
  have "graph_ok {a} g'" unfolding g' by (rule upd_set_ok[OF h]) (use b d D(6)[of b] sn in \<open>auto simp: upd_deref_def sn_ok_def\<close>)
  moreover have "links_ok g'" "stores_ok g'" unfolding g'
    by (rule upd_set_links[OF h hl bl] upd_set_stores[OF h hs bl]; use sn in auto)+
  moreover have "view g' = handed (Some d) b (view g)"
    unfolding g' view_upd_set[OF h b(1)[folded sn(2)]] view_upd_deref[OF d(1)] using b(1) d by (auto simp: fun_eq_iff handed_def)
  ultimately show ?thesis by blast
qed

lemma wp_hand_over:
  assumes ok: "graph_ok {a} g" "links_ok g" "stores_ok g" and b: "b \<in> live g" "a \<noteq> b" "a \<notin> live g"
    and d: "\<And>d. da = Some d \<Longrightarrow> d < dnum g \<and> (\<forall>i \<in> live g. sn_deref (sn g i) \<noteq> Some d)"
  shows "wp (case da of None \<Rightarrow> ereturn ()
      | Some da \<Rightarrow> ethen
         (case sn_deref (sn g b) of Some db \<Rightarrow> ReplaceDeref da db
          | None \<Rightarrow> ebind (the_set b) (\<lambda>m. ethen (put_set b (m\<lparr>sn_deref := Some da\<rparr>))
              (ebind (the_deref da) (\<lambda>d. put_deref da (d\<lparr>dn_node := b\<rparr>)))))
         (ebind (the_set a) (\<lambda>n. put_set a (n\<lparr>sn_deref := None\<rparr>))))
    (\<lambda>_ g'. graph_ok {a} g' \<and> links_ok g' \<and> stores_ok g' \<and> view g' = handed da b (view g)) g"
proof (cases da)
  case None
  then show ?thesis using ok by (simp add: handed_def)
next
  case (Some d)
  note D = graph_okD[OF ok(1)] and dd = d[OF Some]
  have clear: "wp (ebind (the_set a) (\<lambda>n. put_set a (n\<lparr>sn_deref := None\<rparr>)))
      (\<lambda>_ g'. graph_ok {a} g' \<and> links_ok g' \<and> stores_ok g' \<and> view g' = V) h"
    if h: "graph_ok {a} h" "links_ok h" "stores_ok h" "view h = V" "s_live V = live g" for h V
  proof -
    have ah: "a < num h" "a \<notin> live h" using graph_okD(4)[OF h(1)] b(3) h(4,5) by auto
    let ?h = "upd_set a ((sn h a)\<lparr>sn_deref := None\<rparr>) h"
    have "graph_ok {a} ?h" by (rule upd_set_ok[OF h(1)]) (use graph_okD(6)[OF h(1), of a] ah in \<open>auto simp: sn_ok_def\<close>)
    moreover have "links_ok ?h" "stores_ok ?h" by (rule upd_set_links[OF h(1,2) ah(1)] upd_set_stores[OF h(1,3) ah(1)]; simp)+
    moreover have "view ?h = V" using view_upd_dying[OF h(1) ah(2,1)] h(4) by simp
    ultimately show ?thesis using wp_the_set[OF h(1), of a] by (simp add: wp_put_set)
  qed
  show ?thesis
  proof (cases "sn_deref (sn g b)")
    case None
    note h = hand_over[OF ok b(1,2) conjunct1[OF dd] None conjunct2[OF dd]]
    have lv: "s_live (handed (Some d) b (view g)) = live g" by (simp add: handed_def split: option.splits)
    show ?thesis
      using clear[OF _ _ _ _ lv] h Some None wp_the_set[OF ok(1), of b] b(1) dd upd_set_facts(4)[OF ok(1)]
      by (simp add: wp_put_set wp_put_deref wp_the_deref)
  next
    case (Some e)
    have e: "e < dnum g" "d \<noteq> e" using D(10)[OF b(1) Some] dd Some b(1) by auto
    have m1: "wp (ReplaceDeref d e) (\<lambda>_ g'. moved {a} g d e (s_ins (view g) d) (s_outs (view g) d) g' \<and> stores_ok g') g"
      by (rule wp_ReplaceDeref[OF ok]) (use b dd e in auto)
    have m2: "view g' = handed da b (view g)" if "moved {a} g d e (s_ins (view g) d) (s_outs (view g) d) g'" for g'
      using that Some \<open>da = Some d\<close> b(1) by (simp add: moved_def handed_def)
    have m3: "s_live (handed da b (view g)) = live g" by (simp add: handed_def split: option.splits)
    have "wp (ReplaceDeref d e) (\<lambda>_. wp (ebind (the_set a) (\<lambda>n. put_set a (n\<lparr>sn_deref := None\<rparr>)))
        (\<lambda>_ g'. graph_ok {a} g' \<and> links_ok g' \<and> stores_ok g' \<and> view g' = handed da b (view g))) g"
      by (rule wp_mono[OF m1], elim conjE, rule clear[OF _ _ _ m2 m3]) (simp_all add: moved_def)
    then show ?thesis using Some \<open>da = Some d\<close> by simp
  qed
qed

lemma merged_steps:
  assumes "a \<noteq> b"
  shows "merged a b v = handed (s_deref v a) b (v\<lparr>s_rep := (\<lambda>i. if s_rep v i = a then b else s_rep v i), s_live := s_live v - {a},
     s_succ := (s_succ v)(b := s_succ v b \<union> s_succ v a, a := {}), s_pts := (s_pts v)(b := s_pts v b \<union> s_pts v a, a := {}),
     s_funcs := (s_funcs v)(b := s_funcs v b \<union> s_funcs v a, a := {}), s_exts := (s_exts v)(b := s_exts v b \<union> s_exts v a, a := {}),
     s_deref := (s_deref v)(a := None), s_roots := List.map (\<lambda>i. if i = a then b else i) (s_roots v)\<rparr>)"
  using assms by (auto simp: merged_def handed_def fun_eq_iff split: option.splits)

definition gok :: "graph \<Rightarrow> bool" where
  "gok g \<longleftrightarrow> graph_ok {} g \<and> links_ok g \<and> stores_ok g"

lemma wp_ReplaceSet:
  assumes ok: "gok g" and ab: "a \<in> live g" "b \<in> live g" "a \<noteq> b"
    and m: "sn_sets m = sn_sets (sn g b)" "sn_deref m = sn_deref (sn g b)"
        "sn_derefIns m = sn_derefIns (sn g b)" "sn_derefOuts m = sn_derefOuts (sn g b)"
    and g2: "g2 = upd_set b m (upd_parent a b g)" "graph_ok {a} g2"
    and v2: "view g2 = (view (upd_parent a b g))\<lparr>s_pts := (s_pts (view (upd_parent a b g)))(b := s_pts (view g) b \<union> s_pts (view g) a),
        s_funcs := (s_funcs (view (upd_parent a b g)))(b := s_funcs (view g) b \<union> s_funcs (view g) a),
        s_exts := (s_exts (view (upd_parent a b g)))(b := s_exts (view g) b \<union> s_exts (view g) a)\<rparr>"
  shows "wp (ReplaceSet a b) (\<lambda>_ g'. graph_ok {a} g' \<and> links_ok g' \<and> stores_ok g' \<and> view g' = merged a b (view g)) g2"
proof -
  have ok': "graph_ok {} g" "links_ok g" "stores_ok g" using ok by (simp_all add: gok_def)
  note D = graph_okD[OF ok'(1)]
  note f1 = upd_parent_facts[OF ok'(1) ab]
  have bl1: "b < num (upd_parent a b g)" using ab(2) f1(2) live_less by simp
  note f2 = upd_set_facts[OF f1(1), of b m, folded g2(1)]
  have sn2: "sn g2 j = (if j = b then m else sn g j)" for j
    using upd_set_facts(6)[OF f1(1) bl1, of m, folded g2(1)] f1(5) by simp
  have b2: "b \<in> live g2" using ab f1(3) f2(2) by simp
  let ?g3 = "joined g2 a b"
  note f3 = joined_facts[OF g2(2) b2 ab(3)]
  have n3: "live ?g3 = live g - {a}" "num ?g3 = num g" "dnum ?g3 = dnum g" "g_derefs ?g3 = g_derefs g"
    using f3 f2 f1 by simp_all
  have s3: "stores_ok ?g3"
  proof (rule joined_stores[OF g2(2) b2 ab(3)])
    have o: "\<exists>j \<in> bits (dn_setIns (dn g d)). grep g j = r" if "r \<in> live g" "d \<in> bits (sn_derefOuts (sn g r))" for r d
      using ok'(3) that unfolding stores_ok_def by blast
    have sn: "sn_derefOuts (sn g2 r) = sn_derefOuts (sn g r)" for r using sn2 m by simp
    show "a \<notin> live g2" using f2(2) f1(3) by simp
    show "\<exists>j \<in> bits (dn_setIns (dn g2 d)). grep g2 j = r" if "r \<in> live g2" "d \<in> bits (sn_derefOuts (sn g2 r))" for r d
      using o[of r d] that f2(2-4) f1(3,4,6) sn by auto
    show "\<exists>j \<in> bits (dn_setIns (dn g2 d)). grep g2 j = b" if "d \<in> bits (sn_derefOuts (sn g2 a))" for d
      using o[OF ab(1), of d] that f2(2-4) f1(3,4,6) sn by auto
  qed
  have l3: "links_ok ?g3"
    unfolding links_ok_def n3(3)
  proof (intro allI impI conjI ballI)
    fix d j assume d: "d < dnum g"
    have sub: "bits (sn_derefOuts (sn g (grep g j))) \<subseteq> bits (sn_derefOuts (sn ?g3 (grep ?g3 j)))"
        "bits (sn_derefIns (sn g (grep g j))) \<subseteq> bits (sn_derefIns (sn ?g3 (grep ?g3 j)))"
      using f3(4,6,7,9,10) f2(3) f1(4,5) sn2 m ab(3) by (cases "grep g j = b"; auto)+
    show "bits (sn_derefOuts (sn ?g3 (grep ?g3 j))) \<noteq> {}" if "j \<in> bits (dn_setIns (dn ?g3 d))"
      using that ok'(2) d sub(1) n3(4) unfolding links_ok_def by fastforce
    show "bits (sn_derefIns (sn ?g3 (grep ?g3 j))) \<noteq> {}" if "j \<in> bits (dn_setOuts (dn ?g3 d))"
      using that ok'(2) d sub(2) n3(4) unfolding links_ok_def by fastforce
  qed
  have v3: "handed (sn_deref (sn g a)) b (view ?g3) = merged a b (view g)"
    unfolding merged_steps[OF ab(3)] f3(11) v2 f1(8) using ab b2 sn2 m f1(5) by (auto simp: fun_eq_iff intro!: arg_cong[where f = "handed _ _"])
  have der: "sn_deref (sn ?g3 i) = sn_deref (sn g i)" for i using f3(7,8) sn2 m ab(3) by (cases "i = b") auto
  have dd: "d < dnum ?g3 \<and> (\<forall>i \<in> live ?g3. sn_deref (sn ?g3 i) \<noteq> Some d)" if "sn_deref (sn g a) = Some d" for d
    using D(10)[OF ab(1) that] D(10) der n3 by fastforce
  have "wp (case sn_deref (sn g a) of None \<Rightarrow> ereturn ()
      | Some da \<Rightarrow> ethen
         (case sn_deref (sn ?g3 b) of Some db \<Rightarrow> ReplaceDeref da db
          | None \<Rightarrow> ebind (the_set b) (\<lambda>m. ethen (put_set b (m\<lparr>sn_deref := Some da\<rparr>))
              (ebind (the_deref da) (\<lambda>d. put_deref da (d\<lparr>dn_node := b\<rparr>)))))
         (ebind (the_set a) (\<lambda>n. put_set a (n\<lparr>sn_deref := None\<rparr>))))
    (\<lambda>_ g'. graph_ok {a} g' \<and> links_ok g' \<and> stores_ok g' \<and> view g' = merged a b (view g)) ?g3"
    unfolding v3[symmetric] by (rule wp_hand_over[OF f3(1) l3 s3]) (use n3 ab b2 f3(3) dd in auto)
  moreover have "sn_deref (sn g2 b) = sn_deref (sn ?g3 b)" "sn_deref (sn g2 a) = sn_deref (sn g a)"
    using sn2 ab(3) m(2) der by simp_all
  ultimately show ?thesis
    unfolding ReplaceSet_def if_not_P[OF ab(3)] wp_bind wp_then wp_the_set[OF g2(2), of a, simplified]
      wp_the_set[OF g2(2) UnI1[OF b2]] wp_put_set joined_def[symmetric] by (simp only:)
qed

lemma wp_merge_into:
  assumes ok: "gok g" and ab: "a \<in> live g" "b \<in> live g" "a \<noteq> b"
  shows "wp (merge_into a b) (\<lambda>_ g'. gok g' \<and> view g' = merged a b (view g)) g"
proof -
  have ok': "graph_ok {} g" using ok by (simp add: gok_def)
  note f1 = upd_parent_facts[OF ok' ab]
  have b1: "b \<in> live (upd_parent a b g)" using ab f1(3) by simp
  show ?thesis
    unfolding merge_into_def wp_then wp_modify upd_parent_def[symmetric]
  proof (rule wp_mono[OF wp_Propagate[OF f1(1) _ b1]], simp, elim conjE exE)
    fix g2 m assume "graph_ok {a} g2" "g2 = upd_set b m (upd_parent a b g)"
      "view g2 = (view (upd_parent a b g))\<lparr>
          s_pts := (s_pts (view (upd_parent a b g)))(b := bits (sn_nodes (sn (upd_parent a b g) b)) \<union> bits (sn_nodes (sn (upd_parent a b g) a))),
          s_funcs := (s_funcs (view (upd_parent a b g)))(b := bits (sn_funcs (sn (upd_parent a b g) b)) \<union> bits (sn_funcs (sn (upd_parent a b g) a))),
          s_exts := (s_exts (view (upd_parent a b g)))(b := bits (sn_exts (sn (upd_parent a b g) b)) \<union> bits (sn_exts (sn (upd_parent a b g) a)))\<rparr>"
      "sn_sets m = sn_sets (sn (upd_parent a b g) b)" "sn_deref m = sn_deref (sn (upd_parent a b g) b)"
        "sn_derefIns m = sn_derefIns (sn (upd_parent a b g) b)" "sn_derefOuts m = sn_derefOuts (sn (upd_parent a b g) b)"
    then have "wp (ReplaceSet a b) (\<lambda>_ g'. graph_ok {a} g' \<and> links_ok g' \<and> stores_ok g' \<and> view g' = merged a b (view g)) g2"
      by (intro wp_ReplaceSet[OF ok ab, of m]) (use ab f1(5) in simp_all)
    then show "wp (ReplaceSet a b) (\<lambda>_ s. gok (s\<lparr>g_sets := (g_sets s)[a := (g_sets s ! a)\<lparr>e_element := None\<rparr>]\<rparr>) \<and>
        view (s\<lparr>g_sets := (g_sets s)[a := (g_sets s ! a)\<lparr>e_element := None\<rparr>]\<rparr>) = merged a b (view g)) g2"
    proof (rule wp_mono, elim conjE)
      fix g' assume g': "graph_ok {a} g'" "links_ok g'" "stores_ok g'" "view g' = merged a b (view g)"
      have "a \<notin> live g'" using arg_cong[OF g'(4), of s_live] by (simp add: merged_def)
      from drop_element[OF g'(1-3) this] show "gok (g'\<lparr>g_sets := (g_sets g')[a := (g_sets g' ! a)\<lparr>e_element := None\<rparr>]\<rparr>) \<and>
        view (g'\<lparr>g_sets := (g_sets g')[a := (g_sets g' ! a)\<lparr>e_element := None\<rparr>]\<rparr>) = merged a b (view g)"
        using g'(4) by (simp add: gok_def)
    qed
  qed
qed

lemma gokD: "gok g \<Longrightarrow> graph_ok {} g" "gok g \<Longrightarrow> links_ok g" "gok g \<Longrightarrow> stores_ok g"
  by (simp_all add: gok_def)

lemma wp_Union:
  assumes ok: "gok g" and b: "b \<in> live g" and a: "\<And>a. pa = Some a \<Longrightarrow> a \<in> live g"
  shows "wp (GraphUnion pa b) (\<lambda>r g'. gok g' \<and> r \<in> live g' \<and>
    (case pa of None \<Rightarrow> r = b \<and> view g' = view g
     | Some a \<Rightarrow> if a = b then r = b \<and> view g' = view g
         else r = a \<and> view g' = merged b a (view g) \<or> r = b \<and> view g' = merged a b (view g))) g"
proof (cases "pa = None \<or> pa = Some b")
  case True
  then show ?thesis using ok b by (auto simp: GraphUnion_def)
next
  case False
  then obtain a where pa: "pa = Some a" "a \<noteq> b" by (cases pa) auto
  have al: "a \<in> live g" using a[OF pa(1)] .
  have less: "a < num g" "b < num g" using al b live_less by blast+
  have live': "r \<in> live g'" if "view g' = merged c r (view g)" "r \<in> live g" "c \<noteq> r" for c r g'
    using arg_cong[OF that(1), of s_live] that(2,3) by (simp add: merged_def)
  have num': "num g' = num g" if "view g' = merged c r (view g)" for c r g'
    using arg_cong[OF that, of s_num] by (simp add: merged_def)
  let ?Q = "\<lambda>r g'. gok g' \<and> r \<in> live g' \<and> (r = a \<and> view g' = merged b a (view g) \<or> r = b \<and> view g' = merged a b (view g))"
  have rank: "wp (ethen (ewhen c (emodify (\<lambda>g. g\<lparr>g_sets :=
            (g_sets g)[a := (g_sets g ! a)\<lparr>e_rank := e_rank (g_sets g ! a) + 1\<rparr>]\<rparr>))) (ereturn r)) ?Q g'"
    if "?Q r g'" for c r g'
  proof -
    have g': "graph_ok {} g'" "links_ok g'" "stores_ok g'" "a < num g'" using that num'[of g'] less by (auto simp: gok_def)
    let ?g = "g'\<lparr>g_sets := (g_sets g')[a := (g_sets g' ! a)\<lparr>e_rank := e_rank (g_sets g' ! a) + 1\<rparr>]\<rparr>"
    have rr: "gok ?g \<and> view ?g = view g'" using raise_rank[OF g'] by (simp add: gok_def)
    then have "live ?g = live g'" by (metis view_simps(4))
    then have "?Q r ?g" using that rr by simp
    then show ?thesis using that by simp
  qed
  have "wp (if e_rank (g_sets g ! a) < e_rank (g_sets g ! b) then ethen (merge_into a b) (ereturn b)
      else ethen (merge_into b a) (ereturn a)) ?Q g"
    using wp_merge_into[OF ok al b pa(2)] wp_merge_into[OF ok b al not_sym[OF pa(2)]] live' al b pa(2)
    by (auto elim!: wp_mono)
  then have "wp (ebind (if e_rank (g_sets g ! a) < e_rank (g_sets g ! b) then ethen (merge_into a b) (ereturn b)
      else ethen (merge_into b a) (ereturn a)) (\<lambda>r. ethen (ewhen (e_rank (g_sets g ! a) = e_rank (g_sets g ! b))
        (emodify (\<lambda>g. g\<lparr>g_sets := (g_sets g)[a := (g_sets g ! a)\<lparr>e_rank := e_rank (g_sets g ! a) + 1\<rparr>]\<rparr>))) (ereturn r))) ?Q g"
    unfolding wp_bind by (rule wp_mono) (rule rank)
  then show ?thesis
    using less pa(2) by (simp only: GraphUnion_def pa(1) option.case if_False wp_bind wp_gets not_le if_True) simp
qed

end
