(* ===== verification/PtaBuild.thy ===== *)
theory PtaBuild
  imports PtaOps
begin

text \<open>
  The operations that make nodes and edges, on the view of the graph.
\<close>

lemma gok_unchanged: "gok g \<Longrightarrow> graph_ok {} g' \<Longrightarrow> unchanged g g' \<Longrightarrow> gok g'"
  by (simp add: gok_def unchanged_def)

lemma wp_Find_gok:
  assumes "gok g" "i < num g"
  shows "wp (GraphFind i) (\<lambda>j g'. j = grep g i \<and> gok g' \<and> view g' = view g) g"
  by (rule wp_mono[OF wp_Find[OF gokD(1)[OF assms(1)] assms(2)]])
    (use gok_unchanged[OF assms(1)] in \<open>auto simp: unchanged_def\<close>)

lemma gok_less: "gok g \<Longrightarrow> num g \<le> uint32_max" "gok g \<Longrightarrow> dnum g \<le> uint32_max"
  using graph_okD(2,3) gokD(1) by blast+

lemma view_num: "view g' = view g \<Longrightarrow> num g' = num g \<and> dnum g' = dnum g \<and> live g' = live g \<and> grep g' = grep g"
  by (metis view_simps(1-4))

lemma node_ok_mono: "sn_ok n m x \<Longrightarrow> n \<le> n' \<Longrightarrow> m \<le> m' \<Longrightarrow> sn_ok n' m' x"
  by (auto simp: sn_ok_def intro: bset_mono)

lemma wp_GraphGet: "i < num g \<Longrightarrow> gok g \<Longrightarrow> wp (GraphGet i) Q g \<longleftrightarrow> Q (if i \<in> live g then Some i else None) g"
  using graph_ok_element[OF gokD(1), of g i]
  by (auto simp: GraphGet_def wp_def ereturn_def split: option.splits)

subsection \<open>Nodes\<close>

lemma GraphSet_facts:
  assumes ok: "gok g"
  defines "g' \<equiv> g\<lparr>g_sets := g_sets g @ [\<lparr>e_parent = num g, e_rank = 0, e_element = Some new_set_node\<rparr>]\<rparr>"
  shows "\<exists>\<rho>. forest \<rho> (g_sets g')" and "num g' = Suc (num g)" and "live g' = insert (num g) (live g)"
    and "grep g' = grep g" and "g_derefs g' = g_derefs g" and "g_roots g' = g_roots g"
    and "j < num g \<Longrightarrow> sn g' j = sn g j" and "sn g' (num g) = new_set_node"
    and "j \<le> num g \<Longrightarrow> e_element (g_sets g' ! j) \<noteq> None \<longleftrightarrow> j \<in> insert (num g) (live g)"
proof -
  obtain \<rho> where f: "forest \<rho> (g_sets g)" using graph_okD(1)[OF gokD(1)[OF ok]] by blast
  have f': "forest \<rho> (g_sets g')" using f by (auto simp: g'_def forest_def nth_append less_Suc_eq)
  then show "\<exists>\<rho>. forest \<rho> (g_sets g')" by blast
  show lv: "live g' = insert (num g) (live g)" by (auto simp: g'_def roots_def nth_append less_Suc_eq)
  show "grep g' = grep g"
  proof
    fix j
    show "grep g' j = grep g j"
    proof (cases "j < num g")
      case True
      have "grep g' j = (if j < num g then grep g j else j)"
        by (rule forest_rep_unique[OF f'])
          (use True forest_rep_simps[OF f] forestD(1)[OF f] in \<open>auto simp: g'_def nth_append less_Suc_eq split: if_splits\<close>)
      then show ?thesis using True by simp
    next
      case False
      then show ?thesis by (simp add: g'_def rep_def find_root.simps nth_append)
    qed
  qed
  show "e_element (g_sets g' ! j) \<noteq> None \<longleftrightarrow> j \<in> insert (num g) (live g)" if "j \<le> num g"
    using graph_ok_element[OF gokD(1)[OF ok], of j] that live_less[of _ g] by (auto simp: g'_def nth_append)
qed (auto simp: g'_def sn_def nth_append)

lemma wp_GraphSet:
  assumes ok: "gok g" and n: "num g < uint32_max"
  shows "wp GraphSet (\<lambda>i g'. i = num g \<and> gok g' \<and> view g' = (view g)\<lparr>s_num := Suc (num g), s_live := insert (num g) (live g)\<rparr>) g"
proof -
  define g' where "g' = g\<lparr>g_sets := g_sets g @ [\<lparr>e_parent = num g, e_rank = 0, e_element = Some new_set_node\<rparr>]\<rparr>"
  note D = graph_okD[OF gokD(1)[OF ok]] and F = GraphSet_facts[OF ok, folded g'_def]
  have new: "sn_ok k m new_set_node" for k m
    using bset_new(1)[of k] by (simp add: sn_ok_def new_set_node_def bset_def)
  have ok': "graph_ok {} g'"
  proof (rule graph_okI)
    show "e_element (g_sets g' ! j) \<noteq> None \<longleftrightarrow> j \<in> live g' \<union> {}" if "j < num g'" for j
      using F(9)[of j] that F(2,3) by simp
    show "sn_ok (num g') (dnum g') (sn g' j)" if "j \<in> live g' \<union> {}" for j
      using that F(2,3,5,7,8) D(6)[of j] new live_less[of j g] by (auto intro: node_ok_mono)
    show "d < dnum g' \<and> dn_node (dn g' d) = j" if "j \<in> live g'" "sn_deref (sn g' j) = Some d" for j d
      using that F(3,5,7,8) D(10)[of j d] live_less[of j g] by (auto simp: new_set_node_def)
    show "bset (num g') (dn_setIns (dn g' d)) \<and> bset (num g') (dn_setOuts (dn g' d)) \<and> dn_contents (dn g' d) < length (g_roots g')"
      if "d < dnum g'" for d using D(7-9)[of d] that F(2,5,6) by (auto intro: bset_mono)
  qed (use F(1,2,5,6) n D in \<open>auto intro: less_SucI\<close>)
  have "links_ok g'"
    unfolding links_ok_def F(4,5)
  proof (intro allI impI conjI ballI)
    fix d j assume d: "d < dnum g"
    have same: "sn g' (grep g j) = sn g (grep g j)" if "j \<in> bits (dn_setIns (dn g d)) \<union> bits (dn_setOuts (dn g d))"
      using D(7,8)[OF d] that grep_live[OF gokD(1)[OF ok], of j] live_less F(7) by (auto simp: bset_def)
    show "bits (sn_derefOuts (sn g' (grep g j))) \<noteq> {}" if "j \<in> bits (dn_setIns (dn g d))"
      using gokD(2)[OF ok] d that same unfolding links_ok_def by simp
    show "bits (sn_derefIns (sn g' (grep g j))) \<noteq> {}" if "j \<in> bits (dn_setOuts (dn g d))"
      using gokD(2)[OF ok] d that same unfolding links_ok_def by simp
  qed
  moreover have "stores_ok g'"
    using gokD(3)[OF ok] F(7,8) live_less unfolding stores_ok_def F(3-5) by (auto simp: new_set_node_def)
  moreover have "view g' = (view g)\<lparr>s_num := Suc (num g), s_live := insert (num g) (live g)\<rparr>"
    using F(7,8) live_less[of _ g] by (auto simp: view_def of_live_def of_deref_def F(2-6) new_set_node_def fun_eq_iff)
  ultimately show ?thesis using ok' by (simp add: GraphSet_def gok_def g'_def)
qed

lemma upd_roots:
  assumes ok: "gok g" and rs: "\<And>r. r \<in> set rs \<Longrightarrow> r < num g" "length (g_roots g) \<le> length rs"
  shows "gok (g\<lparr>g_roots := rs\<rparr>) \<and> view (g\<lparr>g_roots := rs\<rparr>) = (view g)\<lparr>s_roots := List.map (grep g) rs\<rparr>"
proof -
  let ?g = "g\<lparr>g_roots := rs\<rparr>"
  have sn: "sn ?g = sn g" by (simp add: sn_def fun_eq_iff)
  note D = graph_okD[OF gokD(1)[OF ok]]
  have "graph_ok {} ?g"
  proof (rule graph_okI)
    show "bset (num ?g) (dn_setIns (dn ?g d)) \<and> bset (num ?g) (dn_setOuts (dn ?g d)) \<and> dn_contents (dn ?g d) < length (g_roots ?g)"
      if "d < dnum ?g" for d using D(7-9)[of d] that rs(2) by simp
  qed (use D graph_ok_element[OF gokD(1)[OF ok]] rs in \<open>simp_all add: sn\<close>)
  moreover have "links_ok ?g" "stores_ok ?g" using gokD(2,3)[OF ok] unfolding links_ok_def stores_ok_def sn by simp_all
  ultimately show ?thesis by (simp add: gok_def view_def of_live_def of_deref_def sn fun_eq_iff)
qed

lemma wp_GraphRoot:
  assumes ok: "gok g" and i: "i < num g"
  shows "wp (GraphRoot i) (\<lambda>r g'. r = length (g_roots g) \<and> gok g' \<and> g_sets g' = g_sets g \<and> g_derefs g' = g_derefs g \<and>
    g_roots g' = g_roots g @ [i] \<and> view g' = (view g)\<lparr>s_roots := s_roots (view g) @ [grep g i]\<rparr>) g"
  using upd_roots[OF ok, of "g_roots g @ [i]"] graph_okD(11)[OF gokD(1)[OF ok]] i by (auto simp: GraphRoot_def)

lemma wp_RootSet:
  assumes ok: "gok g" and r: "r < length (g_roots g)"
  shows "wp (RootSet r) (\<lambda>i g'. i = s_roots (view g) ! r \<and> i \<in> live g \<and> gok g' \<and> view g' = view g) g"
proof -
  have i: "g_roots g ! r < num g" using graph_okD(11)[OF gokD(1)[OF ok]] r by simp
  let ?j = "grep g (g_roots g ! r)"
  have j: "?j \<in> live g" using grep_live[OF gokD(1)[OF ok] i] .
  have step: "gok (h\<lparr>g_roots := (g_roots h)[r := ?j]\<rparr>) \<and> view (h\<lparr>g_roots := (g_roots h)[r := ?j]\<rparr>) = view g"
    if h: "gok h" "view h = view g" for h
  proof -
    note v = view_num[OF h(2)]
    have "x < num h" if "x \<in> set ((g_roots h)[r := ?j])" for x
      using set_update_subset_insert[of "g_roots h" r ?j] that graph_okD(11)[OF gokD(1)[OF h(1)]] j live_less v by auto
    note up = upd_roots[OF h(1) this]
    have maps: "List.map (grep h) (g_roots h) = List.map (grep g) (g_roots g)" using arg_cong[OF h(2), of s_roots] by simp
    have "grep h ?j = ?j" using grep_id[OF gokD(1)[OF ok] j] v by simp
    then have "List.map (grep h) ((g_roots h)[r := ?j]) = s_roots (view h)"
      using r maps by (simp add: map_update list_update_same_conv)
    then show ?thesis using up h(2) by simp
  qed
  show ?thesis
    unfolding RootSet_def wp_bind wp_gets if_P[OF r]
    by (rule wp_mono[OF wp_Find_gok[OF ok i]]) (use step r j in auto)
qed

lemma wp_Contents:
  assumes ok: "gok g" and d: "d < dnum g"
  shows "wp (Contents d) (\<lambda>i g'. i = s_roots (view g) ! s_contents (view g) d \<and> i \<in> live g \<and> gok g' \<and> view g' = view g) g"
  unfolding Contents_def wp_bind wp_the_deref[OF d]
  by (rule wp_mono[OF wp_RootSet[OF ok graph_okD(9)[OF gokD(1)[OF ok] d]]]) (use d in simp)

subsection \<open>Edges\<close>

lemma wp_DerefAddSet:
  assumes ok: "gok g" and d: "d < dnum g" and i: "i \<in> live g"
  shows "wp (DerefAddSet d i) (\<lambda>_ g'. gok g' \<and> view g' = (view g)\<lparr>s_outs := (s_outs (view g))(d := insert i (s_outs (view g) d))\<rparr>) g"
proof -
  note D = graph_okD[OF gokD(1)[OF ok]]
  have il: "i < num g" using i live_less by blast
  have ds: "bset (num g) (dn_setOuts (dn g d))" "bset (num g) (dn_setIns (dn g d))" using D(7,8)[OF d] by blast+
  note ins = bset_Insert[OF ds(1) il D(2)]
  have n: "bset (dnum g) (sn_derefIns (sn g i))" using D(6) i by (simp add: sn_ok_def)
  note ins' = bset_Insert[OF n d D(3)]
  let ?d = "(dn g d)\<lparr>dn_setOuts := fst (Insert (dn_setOuts (dn g d)) i)\<rparr>"
  let ?n = "(sn g i)\<lparr>sn_derefIns := fst (Insert (sn_derefIns (sn g i)) d)\<rparr>"
  have v: "view (upd_deref d ?d h) = (view h)\<lparr>s_outs := (s_outs (view h))(d := insert i (s_outs (view h) d))\<rparr>"
    if "g_derefs h = g_derefs g" for h
    using view_upd_deref[of d h ?d] that d ins(2) by (auto simp: fun_eq_iff)
  show ?thesis
  proof (cases "i \<in> bits (dn_setOuts (dn g d))")
    case True
    have "graph_ok {} (upd_deref d ?d g)" by (rule upd_deref_ok[OF gokD(1)[OF ok] d]) (use ins ds in auto)
    moreover have "links_ok (upd_deref d ?d g)"
      by (rule upd_deref_links[OF gokD(2)[OF ok] d]) (use gokD(2)[OF ok] d True ins(2) in \<open>auto simp: links_ok_def insert_absorb\<close>)
    moreover have "stores_ok (upd_deref d ?d g)" by (rule upd_deref_stores[OF gokD(1,3)[OF ok] d]) simp
    ultimately show ?thesis
      using True ins(3) v[of g] by (simp add: DerefAddSet_def wp_the_deref[OF d] wp_put_deref case_prod_unfold gok_def)
  next
    case False
    let ?h = "upd_set i ?n g"
    have node: "sn_ok (num g) (dnum g) (sn g i)" using D(6) i by simp
    have h: "graph_ok {} ?h" by (rule upd_set_ok[OF gokD(1)[OF ok]]) (use i node ins' in \<open>auto simp: sn_ok_def\<close>)
    have hs: "links_ok ?h" "stores_ok ?h"
      by (rule upd_set_links[OF gokD(1,2)[OF ok] il] upd_set_stores[OF gokD(1,3)[OF ok] il]; use ins' in simp)+
    note f = upd_set_facts[OF gokD(1)[OF ok], of i ?n] upd_set_facts(6)[OF gokD(1)[OF ok] il, of ?n]
    have hv: "view ?h = view g" unfolding view_upd_set[OF gokD(1)[OF ok] i] using i by (auto simp: fun_eq_iff)
    have dh: "d < dnum ?h" using d f by simp
    have "graph_ok {} (upd_deref d ?d ?h)" by (rule upd_deref_ok[OF h dh]) (use ins ds f in auto)
    moreover have "links_ok (upd_deref d ?d ?h)"
    proof (rule upd_deref_links[OF hs(1) dh])
      fix j assume "j \<in> bits (dn_setIns ?d)"
      then show "bits (sn_derefOuts (sn ?h (grep ?h j))) \<noteq> {}" using hs(1) dh f unfolding links_ok_def by simp
    next
      fix j assume "j \<in> bits (dn_setOuts ?d)"
      then consider "j = i" | "j \<in> bits (dn_setOuts (dn ?h d))" using ins(2) f by auto
      then show "bits (sn_derefIns (sn ?h (grep ?h j))) \<noteq> {}"
      proof cases
        case 1
        then show ?thesis using grep_id[OF gokD(1)[OF ok] i] f ins'(2) by simp
      next
        case 2
        then show ?thesis using hs(1) dh unfolding links_ok_def by blast
      qed
    qed
    moreover have "stores_ok (upd_deref d ?d ?h)" by (rule upd_deref_stores[OF h hs(2) dh]) (use f in simp)
    ultimately have gk: "gok (upd_deref d ?d ?h)" by (simp add: gok_def)
    have comm: "upd_set i ?n (upd_deref d ?d g) = upd_deref d ?d ?h" by (simp add: upd_set_def upd_deref_def)
    have rd: "wp (the_set i) Q (upd_deref d ?d g) \<longleftrightarrow> Q (sn g i) (upd_deref d ?d g)" for Q
      using D(5)[of i] i il by (simp add: the_set_def upd_deref_def wp_def ereturn_def)
    show ?thesis
      unfolding DerefAddSet_def wp_bind wp_the_deref[OF d] case_prod_unfold Let_def wp_then wp_put_deref
      using False ins(3) gk v[of ?h] hv f(4) by (simp add: rd wp_put_set comm del: fun_upd_apply)
  qed
qed


lemma wp_SetAddDeref:
  assumes ok: "gok g" and d: "d < dnum g" and i: "i \<in> live g"
  shows "wp (SetAddDeref i d) (\<lambda>_ g'. gok g' \<and> (\<exists>A. view g' = (view g)\<lparr>s_ins := (s_ins (view g))(d := A)\<rparr> \<and>
    s_ins (view g) d \<subseteq> A \<and> A \<subseteq> insert i (s_ins (view g) d) \<and> i \<in> grep g ` A)) g"
proof -
  note D = graph_okD[OF gokD(1)[OF ok]]
  have il: "i < num g" using i live_less by blast
  have ds: "bset (num g) (dn_setIns (dn g d))" "bset (num g) (dn_setOuts (dn g d))" using D(7,8)[OF d] by blast+
  note ins = bset_Insert[OF ds(1) il D(2)]
  have n: "bset (dnum g) (sn_derefOuts (sn g i))" using D(6) i by (simp add: sn_ok_def)
  note ins' = bset_Insert[OF n d D(3)]
  have node: "sn_ok (num g) (dnum g) (sn g i)" using D(6) i by simp
  let ?n = "(sn g i)\<lparr>sn_derefOuts := fst (Insert (sn_derefOuts (sn g i)) d)\<rparr>"
  let ?h = "upd_set i ?n g"
  note f = upd_set_facts[OF gokD(1)[OF ok], of i ?n] upd_set_facts(6)[OF gokD(1)[OF ok] il, of ?n]
  have h: "graph_ok {} ?h" by (rule upd_set_ok[OF gokD(1)[OF ok]]) (use i node ins' in \<open>auto simp: sn_ok_def\<close>)
  have hl: "links_ok ?h" by (rule upd_set_links[OF gokD(1,2)[OF ok] il]; use ins' in simp)
  have hv: "view ?h = view g" unfolding view_upd_set[OF gokD(1)[OF ok] i] using i by (auto simp: fun_eq_iff)
  show ?thesis
  proof (cases "d \<in> bits (sn_derefOuts (sn g i))")
    case True
    have hs: "stores_ok ?h" by (rule upd_set_stores[OF gokD(1,3)[OF ok] il]) (use True ins'(2) in auto)
    have "i \<in> grep g ` s_ins (view g) d" using gokD(3)[OF ok] True i d unfolding stores_ok_def by fastforce
    then have "\<exists>A. view ?h = (view g)\<lparr>s_ins := (s_ins (view g))(d := A)\<rparr> \<and>
        s_ins (view g) d \<subseteq> A \<and> A \<subseteq> insert i (s_ins (view g) d) \<and> i \<in> grep g ` A"
      using hv by (intro exI[of _ "s_ins (view g) d"]) auto
    then show ?thesis
      using True ins'(3) h hl hs
      by (simp add: SetAddDeref_def wp_the_set[OF gokD(1)[OF ok]] i wp_put_set case_prod_unfold gok_def)
  next
    case False
    let ?d = "(dn ?h d)\<lparr>dn_setIns := fst (Insert (dn_setIns (dn ?h d)) i)\<rparr>"
    have dh: "d < dnum ?h" using d f by simp
    have gi: "grep g i = i" using grep_id[OF gokD(1)[OF ok] i] .
    have sv: "same_view {} {(grep g i, d)} g ?h"
      using h hl hv f(4,7) ins'(2) gi by (auto simp: same_view_def)
    have "graph_ok {} (upd_deref d ?d ?h)" by (rule upd_deref_ok[OF h dh]) (use ins ds f in auto)
    moreover have "links_ok (upd_deref d ?d ?h)"
    proof (rule upd_deref_links[OF hl dh])
      fix j assume "j \<in> bits (dn_setOuts ?d)"
      then show "bits (sn_derefIns (sn ?h (grep ?h j))) \<noteq> {}" using hl dh f unfolding links_ok_def by simp
    next
      fix j assume "j \<in> bits (dn_setIns ?d)"
      then consider "j = i" | "j \<in> bits (dn_setIns (dn ?h d))" using ins(2) f by auto
      then show "bits (sn_derefOuts (sn ?h (grep ?h j))) \<noteq> {}"
      proof cases
        case 1
        then show ?thesis using gi f ins'(2) by simp
      next
        case 2
        then show ?thesis using hl dh unfolding links_ok_def by blast
      qed
    qed
    moreover have "stores_ok (upd_deref d ?d ?h)" by (rule move_in_stores[OF sv gokD(3)[OF ok] d il])
    moreover have "view (upd_deref d ?d ?h) = (view g)\<lparr>s_ins := (s_ins (view g))(d := insert i (s_ins (view g) d))\<rparr>"
      unfolding view_upd_deref[OF dh] hv using f d ins(2) by (auto simp: fun_eq_iff)
    ultimately have "gok (upd_deref d ?d ?h) \<and> (\<exists>A. view (upd_deref d ?d ?h) = (view g)\<lparr>s_ins := (s_ins (view g))(d := A)\<rparr> \<and>
        s_ins (view g) d \<subseteq> A \<and> A \<subseteq> insert i (s_ins (view g) d) \<and> i \<in> grep g ` A)"
      using gi by (auto simp: gok_def image_iff intro!: exI[of _ "insert i (s_ins (view g) d)"])
    then show ?thesis
      unfolding SetAddDeref_def wp_bind wp_the_set[OF gokD(1)[OF ok] UnI1[OF i]] case_prod_unfold Let_def wp_then wp_put_set
      using False ins'(3) dh by (simp add: wp_the_deref wp_put_deref)
  qed
qed

lemma wp_AddNode:
  assumes ok: "gok g" and i: "i \<in> live g" "j < num g"
  shows "wp (AddNode i j) (\<lambda>_ g'. gok g' \<and> view g' = (view g)\<lparr>s_pts := (s_pts (view g))(i := insert j (s_pts (view g) i))\<rparr>) g"
proof -
  note ok1 = gokD(1)[OF ok]
  note D = graph_okD[OF ok1]
  let ?n = "(sn g i)\<lparr>sn_nodes := fst (Insert (sn_nodes (sn g i)) j)\<rparr>"
  have n: "sn_ok (num g) (dnum g) (sn g i)" using D(6) i by auto
  then have "bset (num g) (sn_nodes (sn g i))" by (simp add: sn_ok_def)
  note ins = bset_Insert[OF this i(2) D(2)]
  have il: "i < num g" using i(1) live_less by blast
  have "graph_ok {} (upd_set i ?n g)" by (rule upd_set_ok[OF ok1]) (use i n ins in \<open>auto simp: sn_ok_def\<close>)
  moreover have "links_ok (upd_set i ?n g)" "stores_ok (upd_set i ?n g)"
    by (rule upd_set_links[OF ok1 gokD(2)[OF ok] il] upd_set_stores[OF ok1 gokD(3)[OF ok] il]; simp)+
  moreover have "view (upd_set i ?n g) = (view g)\<lparr>s_pts := (s_pts (view g))(i := insert j (s_pts (view g) i))\<rparr>"
    unfolding view_upd_set[OF ok1 i(1)] using i(1) ins by (auto simp: fun_eq_iff)
  ultimately show ?thesis
    using i by (simp add: AddNode_def wp_the_set[OF ok1] wp_put_set gok_def)
qed

lemma wp_AddItem:
  assumes ok: "gok g" and i: "i \<in> live g" "f < 2 ^ 32"
  shows "wp (AddFunc i f) (\<lambda>_ g'. gok g' \<and> view g' = (view g)\<lparr>s_funcs := (s_funcs (view g))(i := insert f (s_funcs (view g) i))\<rparr>) g"
    and "wp (AddExtern i f) (\<lambda>_ g'. gok g' \<and> view g' = (view g)\<lparr>s_exts := (s_exts (view g))(i := insert f (s_exts (view g) i))\<rparr>) g"
proof -
  note ok1 = gokD(1)[OF ok]
  note D = graph_okD[OF ok1]
  have n: "sn_ok (num g) (dnum g) (sn g i)" using D(6) i by auto
  have il: "i < num g" using i(1) live_less by blast
  have ins: "bs_ok (fst (Insert s f)) \<and> bits (fst (Insert s f)) = insert f (bits s)" if "bs_ok s" for s
    using Insert_spec[OF that i(2), of "fst (Insert s f)" "snd (Insert s f)"] by simp
  have b: "bs_ok (sn_funcs (sn g i))" "bs_ok (sn_exts (sn g i))" using n by (simp_all add: sn_ok_def)
  have up: "gok (upd_set i m g)" if "sn_ok (num g) (dnum g) m" "sn_deref m = sn_deref (sn g i)"
      "sn_derefOuts m = sn_derefOuts (sn g i)" "sn_derefIns m = sn_derefIns (sn g i)" for m
    using upd_set_ok[OF ok1, of i m] upd_set_links[OF ok1 gokD(2)[OF ok] il, of m] upd_set_stores[OF ok1 gokD(3)[OF ok] il, of m] that i
    by (simp add: gok_def)
  let ?n = "(sn g i)\<lparr>sn_funcs := fst (Insert (sn_funcs (sn g i)) f)\<rparr>"
  have "gok (upd_set i ?n g)" by (rule up) (use n ins b in \<open>auto simp: sn_ok_def\<close>)
  moreover have "view (upd_set i ?n g) = (view g)\<lparr>s_funcs := (s_funcs (view g))(i := insert f (s_funcs (view g) i))\<rparr>"
    unfolding view_upd_set[OF ok1 i(1)] using i(1) ins b by (auto simp: fun_eq_iff)
  ultimately show "wp (AddFunc i f) (\<lambda>_ g'. gok g' \<and>
      view g' = (view g)\<lparr>s_funcs := (s_funcs (view g))(i := insert f (s_funcs (view g) i))\<rparr>) g"
    using i by (simp add: AddFunc_def wp_the_set[OF ok1] wp_put_set)
  let ?m = "(sn g i)\<lparr>sn_exts := fst (Insert (sn_exts (sn g i)) f)\<rparr>"
  have "gok (upd_set i ?m g)" by (rule up) (use n ins b in \<open>auto simp: sn_ok_def\<close>)
  moreover have "view (upd_set i ?m g) = (view g)\<lparr>s_exts := (s_exts (view g))(i := insert f (s_exts (view g) i))\<rparr>"
    unfolding view_upd_set[OF ok1 i(1)] using i(1) ins b by (auto simp: fun_eq_iff)
  ultimately show "wp (AddExtern i f) (\<lambda>_ g'. gok g' \<and>
      view g' = (view g)\<lparr>s_exts := (s_exts (view g))(i := insert f (s_exts (view g) i))\<rparr>) g"
    using i by (simp add: AddExtern_def wp_the_set[OF ok1] wp_put_set)
qed

subsection \<open>Dereferencing nodes\<close>

lemma append_deref:
  fixes i :: nat
  assumes ok: "gok g" and d: "dnum g < uint32_max" and c: "c < length (g_roots g)"
  defines "g' \<equiv> g\<lparr>g_derefs := g_derefs g @ [\<lparr>dn_node = i, dn_contents = c, dn_setIns = new_bitset, dn_setOuts = new_bitset\<rparr>]\<rparr>"
  shows "gok g' \<and> view g' = (view g)\<lparr>s_dnum := Suc (dnum g), s_owner := (s_owner (view g))(dnum g := i),
    s_contents := (s_contents (view g))(dnum g := c)\<rparr>"
proof -
  note D = graph_okD[OF gokD(1)[OF ok]]
  let ?d = "\<lparr>dn_node = i, dn_contents = c, dn_setIns = new_bitset, dn_setOuts = new_bitset\<rparr>"
  have s: "num g' = num g" "live g' = live g" "grep g' = grep g" "g_roots g' = g_roots g" "dnum g' = Suc (dnum g)" "sn g' = sn g"
    "g_sets g' = g_sets g"
    by (simp_all add: g'_def sn_def fun_eq_iff)
  have dn: "dn g' e = (if e < dnum g then dn g e else ?d)" if "e < Suc (dnum g)" for e
    using that by (auto simp: g'_def nth_append less_Suc_eq)
  have dn': "dn g' e = dn g e" if "e < dnum g" for e using dn[of e] that by simp
  have bse: "bset (dnum g) x \<Longrightarrow> bset (Suc (dnum g)) x" for x by (auto intro: bset_mono)
  have "graph_ok {} g'"
  proof (rule graph_okI, unfold s)
    show "sn_ok (num g) (Suc (dnum g)) (sn g j)" if "j \<in> live g \<union> {}" for j
      using D(6)[OF that] by (auto intro: node_ok_mono)
    show "bset (num g) (dn_setIns (dn g' e)) \<and> bset (num g) (dn_setOuts (dn g' e)) \<and> dn_contents (dn g' e) < length (g_roots g)"
      if "e < Suc (dnum g)" for e using D(7-9)[of e] dn[OF that] c by (auto simp: less_Suc_eq)
    show "e < Suc (dnum g) \<and> dn_node (dn g' e) = j" if "j \<in> live g" "sn_deref (sn g j) = Some e" for j e
      using D(10)[OF that] dn' by auto
    show "e_element (g_sets g ! j) \<noteq> None \<longleftrightarrow> j \<in> live g \<union> {}" if "j < num g" for j
      using graph_ok_element[OF gokD(1)[OF ok] that] .
  qed (use D d in auto)
  moreover have "links_ok g'"
    unfolding links_ok_def s
  proof (intro allI impI conjI ballI)
    fix e j assume e: "e < Suc (dnum g)"
    show "bits (sn_derefOuts (sn g (grep g j))) \<noteq> {}" if "j \<in> bits (dn_setIns (dn g' e))"
      using gokD(2)[OF ok] dn[OF e] that unfolding links_ok_def by (auto split: if_splits)
    show "bits (sn_derefIns (sn g (grep g j))) \<noteq> {}" if "j \<in> bits (dn_setOuts (dn g' e))"
      using gokD(2)[OF ok] dn[OF e] that unfolding links_ok_def by (auto split: if_splits)
  qed
  moreover have "stores_ok g'"
    unfolding stores_ok_def s
  proof (intro ballI)
    fix r e assume "r \<in> live g" "e \<in> bits (sn_derefOuts (sn g r))"
    moreover have "e < dnum g" using D(6)[of r] calculation by (auto simp: sn_ok_def bset_def)
    ultimately show "\<exists>j \<in> bits (dn_setIns (dn g' e)). grep g j = r" using gokD(3)[OF ok] dn' unfolding stores_ok_def by simp
  qed
  moreover have "view g' = (view g)\<lparr>s_dnum := Suc (dnum g), s_owner := (s_owner (view g))(dnum g := i),
      s_contents := (s_contents (view g))(dnum g := c)\<rparr>"
    by (auto simp: view_def of_live_def of_deref_def s dn fun_eq_iff dn' less_Suc_eq)
  ultimately show ?thesis by (simp add: gok_def)
qed

lemma set_deref_of:
  assumes ok: "gok g" and i: "i \<in> live g" and d: "d < dnum g" "dn_node (dn g d) = i"
  shows "gok (upd_set i ((sn g i)\<lparr>sn_deref := Some d\<rparr>) g) \<and>
    view (upd_set i ((sn g i)\<lparr>sn_deref := Some d\<rparr>) g) = (view g)\<lparr>s_deref := (s_deref (view g))(i := Some d)\<rparr>"
proof -
  note ok1 = gokD(1)[OF ok]
  let ?n = "(sn g i)\<lparr>sn_deref := Some d\<rparr>"
  have il: "i < num g" using i live_less by blast
  have n: "sn_ok (num g) (dnum g) (sn g i)" using graph_okD(6)[OF ok1] i by auto
  have "graph_ok {} (upd_set i ?n g)" by (rule upd_set_ok[OF ok1]) (use i n d in \<open>auto simp: sn_ok_def\<close>)
  moreover have "links_ok (upd_set i ?n g)" "stores_ok (upd_set i ?n g)"
    by (rule upd_set_links[OF ok1 gokD(2)[OF ok] il] upd_set_stores[OF ok1 gokD(3)[OF ok] il]; simp)+
  moreover have "view (upd_set i ?n g) = (view g)\<lparr>s_deref := (s_deref (view g))(i := Some d)\<rparr>"
    unfolding view_upd_set[OF ok1 i] using i by (auto simp: fun_eq_iff)
  ultimately show ?thesis by (simp add: gok_def)
qed

lemma wp_GraphDeref:
  assumes ok: "gok g" and i: "i \<in> live g" and n: "num g < uint32_max" "dnum g < uint32_max"
  shows "wp (GraphDeref i) (\<lambda>d g'. d = dnum g \<and> gok g' \<and> view g' = (view g)\<lparr>s_num := Suc (num g), s_dnum := Suc (dnum g),
      s_live := insert (num g) (live g), s_deref := (s_deref (view g))(i := Some (dnum g)), s_owner := (s_owner (view g))(dnum g := i),
      s_outs := (s_outs (view g))(dnum g := {num g}), s_contents := (s_contents (view g))(dnum g := length (g_roots g)),
      s_roots := s_roots (view g) @ [num g]\<rparr>) g"
  unfolding GraphDeref_def wp_bind
proof (rule wp_mono[OF wp_GraphSet[OF ok n(1)]], elim conjE)
  fix c g1 assume c: "c = num g" and ok1: "gok g1" and v1: "view g1 = (view g)\<lparr>s_num := Suc (num g), s_live := insert (num g) (live g)\<rparr>"
  have n1: "num g1 = Suc (num g)" "live g1 = insert (num g) (live g)" "dnum g1 = dnum g" "grep g1 = grep g" "length (g_roots g1) = length (g_roots g)"
    using arg_cong[OF v1, of s_num] arg_cong[OF v1, of s_live] arg_cong[OF v1, of s_dnum] arg_cong[OF v1, of s_rep]
      arg_cong[OF v1, of "\<lambda>v. length (s_roots v)"] by simp_all
  have c1: "c < num g1" "grep g1 c = c" using c n1 grep_id[OF gokD(1)[OF ok1], of c] by auto
  show "wp (GraphRoot c) (\<lambda>contents. wp (egets dnum) (\<lambda>d. wp (ethen (emodify (\<lambda>g. g\<lparr>g_derefs := g_derefs g @
       [\<lparr>dn_node = i, dn_contents = contents, dn_setIns = new_bitset, dn_setOuts = new_bitset\<rparr>]\<rparr>))
     (ebind (the_set i) (\<lambda>n. ethen (put_set i (n\<lparr>sn_deref := Some d\<rparr>))
     (ebind (RootSet contents) (\<lambda>c. ethen (DerefAddSet d c) (ereturn d)))))) (\<lambda>d g'. d = dnum g \<and> gok g' \<and>
      view g' = (view g)\<lparr>s_num := Suc (num g), s_dnum := Suc (dnum g),
      s_live := insert (num g) (live g), s_deref := (s_deref (view g))(i := Some (dnum g)), s_owner := (s_owner (view g))(dnum g := i),
      s_outs := (s_outs (view g))(dnum g := {num g}), s_contents := (s_contents (view g))(dnum g := length (g_roots g)),
      s_roots := s_roots (view g) @ [num g]\<rparr>))) g1"
  proof (rule wp_mono[OF wp_GraphRoot[OF ok1 c1(1)]], elim conjE)
    fix r g2 assume r: "r = length (g_roots g1)" and ok2: "gok g2" and s2: "g_sets g2 = g_sets g1" "g_derefs g2 = g_derefs g1"
      "g_roots g2 = g_roots g1 @ [c]" and v2: "view g2 = (view g1)\<lparr>s_roots := s_roots (view g1) @ [grep g1 c]\<rparr>"
    let ?g3 = "g2\<lparr>g_derefs := g_derefs g2 @ [\<lparr>dn_node = i, dn_contents = r, dn_setIns = new_bitset, dn_setOuts = new_bitset\<rparr>]\<rparr>"
    have 3: "gok ?g3 \<and> view ?g3 = (view g2)\<lparr>s_dnum := Suc (dnum g2), s_owner := (s_owner (view g2))(dnum g2 := i),
        s_contents := (s_contents (view g2))(dnum g2 := r)\<rparr>"
      by (rule append_deref[OF ok2]) (use s2 n1 n(2) r in simp_all)
    let ?g4 = "upd_set i ((sn ?g3 i)\<lparr>sn_deref := Some (dnum g)\<rparr>) ?g3"
    have i3: "i \<in> live ?g3" using s2 n1 i by simp
    have 4: "gok ?g4 \<and> view ?g4 = (view ?g3)\<lparr>s_deref := (s_deref (view ?g3))(i := Some (dnum g))\<rparr>"
      by (rule set_deref_of) (use 3 i3 s2 n1 in \<open>simp_all add: nth_append\<close>)
    have d4: "dnum g < dnum ?g4" "r < length (g_roots ?g4)" "c \<in> live ?g4"
      using upd_set_facts[OF gokD(1)[OF conjunct1[OF 3]]] s2 n1 r c by simp_all
    have rts: "s_roots (view ?g4) ! r = c" using 4 3 v2 r c1 by (simp add: nth_append)
    have v4: "view ?g4 = (view g)\<lparr>s_num := Suc (num g), s_dnum := Suc (dnum g),
      s_live := insert (num g) (live g), s_deref := (s_deref (view g))(i := Some (dnum g)), s_owner := (s_owner (view g))(dnum g := i),
      s_contents := (s_contents (view g))(dnum g := length (g_roots g)), s_roots := s_roots (view g) @ [num g]\<rparr>"
      using 4 3 v2 v1 s2 n1 r c c1 by simp
    have o4: "s_outs (view g) (dnum g) = {}" by (simp add: view_def of_deref_def)
    have rs: "wp (RootSet r) (\<lambda>c. wp (DerefAddSet (dnum g) c) (\<lambda>_ g'. gok g' \<and>
        view g' = (view g)\<lparr>s_num := Suc (num g), s_dnum := Suc (dnum g),
      s_live := insert (num g) (live g), s_deref := (s_deref (view g))(i := Some (dnum g)), s_owner := (s_owner (view g))(dnum g := i),
      s_outs := (s_outs (view g))(dnum g := {num g}), s_contents := (s_contents (view g))(dnum g := length (g_roots g)),
      s_roots := s_roots (view g) @ [num g]\<rparr>)) ?g4"
    proof (rule wp_mono[OF wp_RootSet[OF conjunct1[OF 4] d4(2)]], elim conjE)
      fix c' g5 assume c': "c' = s_roots (view ?g4) ! r" "c' \<in> live ?g4" and g5: "gok g5" "view g5 = view ?g4"
      have "wp (DerefAddSet (dnum g) c') (\<lambda>_ g'. gok g' \<and>
          view g' = (view g5)\<lparr>s_outs := (s_outs (view g5))(dnum g := insert c' (s_outs (view g5) (dnum g)))\<rparr>) g5"
        by (rule wp_DerefAddSet[OF g5(1)]) (use d4 c' view_num[OF g5(2)] in simp_all)
      then show "wp (DerefAddSet (dnum g) c') (\<lambda>_ g'. gok g' \<and> view g' = (view g)\<lparr>s_num := Suc (num g), s_dnum := Suc (dnum g),
      s_live := insert (num g) (live g), s_deref := (s_deref (view g))(i := Some (dnum g)), s_owner := (s_owner (view g))(dnum g := i),
      s_outs := (s_outs (view g))(dnum g := {num g}), s_contents := (s_contents (view g))(dnum g := length (g_roots g)),
      s_roots := s_roots (view g) @ [num g]\<rparr>) g5"
        by (rule wp_mono) (use g5(2) c'(1) rts c v4 o4 in simp)
    qed
    show "wp (egets dnum) (\<lambda>d. wp (ethen (emodify (\<lambda>g. g\<lparr>g_derefs := g_derefs g @
       [\<lparr>dn_node = i, dn_contents = r, dn_setIns = new_bitset, dn_setOuts = new_bitset\<rparr>]\<rparr>))
     (ebind (the_set i) (\<lambda>n. ethen (put_set i (n\<lparr>sn_deref := Some d\<rparr>))
     (ebind (RootSet r) (\<lambda>c. ethen (DerefAddSet d c) (ereturn d)))))) (\<lambda>d g'. d = dnum g \<and> gok g' \<and>
      view g' = (view g)\<lparr>s_num := Suc (num g), s_dnum := Suc (dnum g),
      s_live := insert (num g) (live g), s_deref := (s_deref (view g))(i := Some (dnum g)), s_owner := (s_owner (view g))(dnum g := i),
      s_outs := (s_outs (view g))(dnum g := {num g}), s_contents := (s_contents (view g))(dnum g := length (g_roots g)),
      s_roots := s_roots (view g) @ [num g]\<rparr>)) g2"
      using rs s2(2) n1(3) wp_the_set[OF gokD(1)[OF conjunct1[OF 3]] UnI1[OF i3]]
      by (simp add: wp_put_set)
  qed
qed

end
