(* ===== verification/PtaScc.thy ===== *)
theory PtaScc
  imports PtaGraph
begin

text \<open>
  The search for cycles in the constraint graph (\<^verbatim>\<open>passes/pta/scc.cpp\<close>): the variant of Tarjan's algorithm in which a node
  enters the stack when it is left, unless it is the root of its component. The fields the search keeps in the
  nodes are a map from nodes to marks. Counters are natural numbers.
\<close>

datatype graph_node = SetN nat | DerefN nat

record scc_mark =
  m_epoch :: nat
  m_index :: nat
  m_link :: nat
  m_in_component :: bool

record scc =
  scc_graph :: graph
  scc_epoch :: nat
  scc_index :: nat
  scc_marks :: "graph_node \<Rightarrow> scc_mark"
  scc_stack :: "graph_node list"
  scc_sccs :: "graph_node list list"

definition new_mark :: scc_mark where
  "new_mark = \<lparr>m_epoch = 0, m_index = 0, m_link = 0, m_in_component = False\<rparr>"

definition set_mark :: "graph_node \<Rightarrow> (scc_mark \<Rightarrow> scc_mark) \<Rightarrow> scc \<Rightarrow> scc" where
  "set_mark v f s = s\<lparr>scc_marks := (scc_marks s)(v := f (scc_marks s v))\<rparr>"

abbreviation on_graph :: "(graph, 'a) eff \<Rightarrow> (scc, 'a) eff" where
  "on_graph \<equiv> on_part scc_graph (\<lambda>g s. s\<lparr>scc_graph := g\<rparr>)"

definition reached :: "scc \<Rightarrow> graph_node \<Rightarrow> bool" where
  "reached s v \<longleftrightarrow> m_epoch (scc_marks s v) = scc_epoch s"

text \<open>The first lines of \<^verbatim>\<open>VisitFull\<close> and \<^verbatim>\<open>VisitSingle\<close>.\<close>

definition enter :: "graph_node \<Rightarrow> scc \<Rightarrow> scc" where
  "enter v s = (set_mark v (\<lambda>_. \<lparr>m_epoch = scc_epoch s, m_index = scc_index s, m_link = scc_index s,
     m_in_component = False\<rparr>) s)\<lparr>scc_index := scc_index s + 1\<rparr>"

text \<open>The edges along which the two searches go: \<^verbatim>\<open>VisitSingle\<close> follows only those between sets.\<close>

definition out_edges :: "bool \<Rightarrow> graph_node \<Rightarrow> (scc, graph_node list) eff" where
  "out_edges full v = (case v of
       SetN i \<Rightarrow> ebind (on_graph (the_set i)) (\<lambda>n. ebind (each_of (sn_sets n)) (\<lambda>sets.
         if full then ebind (each_of (sn_derefOuts n)) (\<lambda>derefs. ereturn (List.map SetN sets @ List.map DerefN derefs))
         else ereturn (List.map SetN sets)))
     | DerefN d \<Rightarrow> ebind (on_graph (the_deref d)) (\<lambda>n. ebind (each_of (dn_setOuts n)) (\<lambda>sets.
         ereturn (List.map SetN sets))))"

definition edge_target :: "graph_node \<Rightarrow> (scc, graph_node) eff" where
  "edge_target v = (case v of
       SetN i \<Rightarrow> ebind (on_graph (GraphFind i)) (\<lambda>j. ereturn (SetN j))
     | DerefN d \<Rightarrow> ethen (on_graph (the_deref d)) (ereturn (DerefN d)))"

text \<open>\<^verbatim>\<open>node->Link = std::min(node->Link, v->Link)\<close>.\<close>

definition lower_link :: "graph_node \<Rightarrow> graph_node \<Rightarrow> scc \<Rightarrow> scc" where
  "lower_link v w s = set_mark v (\<lambda>m. m\<lparr>m_link := min (m_link m) (m_link (scc_marks s w))\<rparr>) s"

text \<open>\<^verbatim>\<open>Pop\<close>: a root takes the nodes above it from the stack; alone, it is not a group.\<close>

definition ScPop :: "graph_node \<Rightarrow> scc \<Rightarrow> scc" where
  "ScPop v s =
     (let m = scc_marks s v in
      if m_link m = m_index m then
        let group = takeWhile (\<lambda>w. m_index (scc_marks s w) > m_link m) (scc_stack s);
            s1 = fold (\<lambda>w. set_mark w (\<lambda>m. m\<lparr>m_in_component := True\<rparr>)) (v # group) s
        in s1\<lparr>scc_stack := drop (length group) (scc_stack s),
              scc_sccs := scc_sccs s @ (if group = [] then [] else [group @ [v]])\<rparr>
      else s\<lparr>scc_stack := v # scc_stack s\<rparr>)"

text \<open>
  The loops over the edges of a node \<open>v\<close>, with the visit of each target that was not reached in this
  epoch inside of it.
\<close>

partial_function (option) visit_edges :: "bool \<Rightarrow> graph_node \<Rightarrow> graph_node list \<Rightarrow> (scc, unit) eff" where
  "visit_edges full v es s = (case es of
       [] \<Rightarrow> ereturn () s
     | e # es' \<Rightarrow> ebind (edge_target e) (\<lambda>w. ebind (egets (\<lambda>s. reached s w)) (\<lambda>seen.
         ethen
           (if \<not> seen then
              ethen (emodify (enter w)) (ebind (out_edges full w) (\<lambda>ws. ethen (visit_edges full w ws)
                (ethen (emodify (ScPop w)) (emodify (lower_link v w)))))
            else ebind (egets (\<lambda>s. m_in_component (scc_marks s w))) (\<lambda>inc.
              ewhen (\<not> inc) (emodify (lower_link v w))))
           (visit_edges full v es'))) s)"

definition ScVisit :: "bool \<Rightarrow> graph_node \<Rightarrow> (scc, unit) eff" where
  "ScVisit full v = ethen (emodify (enter v)) (ebind (out_edges full v) (\<lambda>ws.
     ethen (visit_edges full v ws) (emodify (ScPop v))))"

definition start_epoch :: "scc \<Rightarrow> scc" where
  "start_epoch s = s\<lparr>scc_epoch := scc_epoch s + 1, scc_index := 1\<rparr>"

definition assert_stack_empty :: "(scc, unit) eff" where
  "assert_stack_empty = ebind (egets scc_stack) (\<lambda>st. if st = [] then ereturn () else efail AssertFailed)"

definition visit_root :: "graph_node \<Rightarrow> (scc, unit) eff" where
  "visit_root v = ebind (egets (\<lambda>s. reached s v)) (\<lambda>seen. ewhen (\<not> seen) (ScVisit True v))"

definition Full :: "(scc, unit) eff" where
  "Full = ethen (emodify start_epoch)
     (ebind (egets (\<lambda>s. length (g_sets (scc_graph s)))) (\<lambda>n.
       ethen (eeach (\<lambda>i. ebind (on_graph (GraphGet i)) (\<lambda>p. case p of None \<Rightarrow> ereturn () | Some i \<Rightarrow> visit_root (SetN i)))
         [0..<n])
      (ebind (egets (\<lambda>s. length (g_derefs (scc_graph s)))) (\<lambda>m.
       ethen (eeach (\<lambda>d. visit_root (DerefN d)) [0..<m]) assert_stack_empty))))"

definition Single :: "nat \<Rightarrow> (scc, unit) eff" where
  "Single i = ethen (emodify start_epoch) (ethen (ScVisit False (SetN i)) assert_stack_empty)"

text \<open>The groups \<^verbatim>\<open>Solve\<close> hands out, which it then forgets.\<close>

definition TakeGroups :: "(scc, graph_node list list) eff" where
  "TakeGroups = ebind (egets scc_sccs) (\<lambda>gs. ethen (emodify (\<lambda>s. s\<lparr>scc_sccs := []\<rparr>)) (ereturn gs))"

end
