(* ===== verification/PtaCycles.thy ===== *)
theory PtaCycles
  imports PtaBuild PtaScc
begin

text \<open>
  The search for cycles ends, leaves the graph as it was, and hands out disjoint groups of nodes each of
  which can reach every other one of its group.
\<close>

subsection \<open>The graph as the search sees it\<close>

definition is_node :: "graph \<Rightarrow> graph_node \<Rightarrow> bool" where
  "is_node g v = (case v of SetN i \<Rightarrow> i \<in> live g | DerefN d \<Rightarrow> d < dnum g)"

definition is_ref :: "graph \<Rightarrow> graph_node \<Rightarrow> bool" where
  "is_ref g v = (case v of SetN i \<Rightarrow> i < num g | DerefN d \<Rightarrow> d < dnum g)"

definition target :: "graph \<Rightarrow> graph_node \<Rightarrow> graph_node" where
  "target g v = (case v of SetN i \<Rightarrow> SetN (grep g i) | DerefN d \<Rightarrow> DerefN d)"

definition refs :: "bool \<Rightarrow> graph \<Rightarrow> graph_node \<Rightarrow> graph_node set" where
  "refs full g v = (case v of
       SetN i \<Rightarrow> SetN ` bits (sn_sets (sn g i)) \<union> (if full then DerefN ` bits (sn_derefOuts (sn g i)) else {})
     | DerefN d \<Rightarrow> SetN ` bits (dn_setOuts (dn g d)))"

definition edge_rel :: "bool \<Rightarrow> graph \<Rightarrow> (graph_node \<times> graph_node) set" where
  "edge_rel full g = {(v, target g e) | v e. is_node g v \<and> e \<in> refs full g v}"

definition same_graph :: "graph \<Rightarrow> scc \<Rightarrow> bool" where
  "same_graph g s \<longleftrightarrow> gok (scc_graph s) \<and> unchanged g (scc_graph s)"

lemma finite_nodes: "finite {v. is_node g v}"
proof (rule finite_subset)
  show "{v. is_node g v} \<subseteq> SetN ` {..<num g} \<union> DerefN ` {..<dnum g}"
  proof
    fix v assume "v \<in> {v. is_node g v}"
    then show "v \<in> SetN ` {..<num g} \<union> DerefN ` {..<dnum g}"
      by (cases v) (auto simp: is_node_def dest: live_less)
  qed
qed simp

lemma same_graph_facts:
  assumes "same_graph g s"
  shows "num (scc_graph s) = num g" "dnum (scc_graph s) = dnum g" "live (scc_graph s) = live g" "grep (scc_graph s) = grep g"
    "i < num g \<Longrightarrow> sn (scc_graph s) i = sn g i" "g_derefs (scc_graph s) = g_derefs g"
  using assms unchanged_num[of g "scc_graph s"] by (auto simp: same_graph_def unchanged_def)

lemma ref_ok:
  assumes "gok g" "is_node g v" "e \<in> refs full g v"
  shows "is_ref g e"
proof (cases v)
  case (SetN i)
  then have "i \<in> live g" using assms(2) by (simp add: is_node_def)
  then have "sn_ok (num g) (dnum g) (sn g i)" using graph_okD(6)[OF gokD(1)[OF assms(1)]] by blast
  then show ?thesis using assms(3) SetN by (auto simp: refs_def is_ref_def sn_ok_def bset_def split: if_splits)
next
  case (DerefN d)
  then have "bset (num g) (dn_setOuts (dn g d))" using graph_okD(8)[OF gokD(1)[OF assms(1)]] assms(2) by (simp add: is_node_def)
  then show ?thesis using assms(3) DerefN by (auto simp: refs_def is_ref_def bset_def)
qed

lemma target_ok: "gok g \<Longrightarrow> is_ref g e \<Longrightarrow> is_node g (target g e)"
  by (auto simp: is_ref_def is_node_def target_def split: graph_node.splits intro: grep_live gokD(1))

lemma wp_out_edges:
  assumes g: "gok g" and s: "same_graph g s" and v: "is_node g v"
  shows "wp (out_edges full v) (\<lambda>es s'. s' = s \<and> set es = refs full g v) s"
proof (cases v)
  case (SetN i)
  have ok: "graph_ok {} (scc_graph s)" using s gokD(1) by (simp add: same_graph_def)
  note f = same_graph_facts[OF s]
  have i: "i \<in> live g" "i \<in> live (scc_graph s)" using v SetN f by (auto simp: is_node_def)
  have sn: "sn (scc_graph s) i = sn g i" using f(5) live_less[OF i(1)] by simp
  have "sn_ok (num g) (dnum g) (sn g i)" using graph_okD(6)[OF gokD(1)[OF g]] i(1) by blast
  then have b: "bset (num g) (sn_sets (sn g i))" "bset (dnum g) (sn_derefOuts (sn g i))" by (simp_all add: sn_ok_def)
  show ?thesis
    using SetN wp_the_set[OF ok, of i] i(2) sn b
    by (simp add: out_edges_def refs_def wp_each_of_fun[OF b(1) gok_less(1)[OF g]] wp_each_of_fun[OF b(2) gok_less(2)[OF g]])
next
  case (DerefN d)
  note f = same_graph_facts[OF s]
  have d: "d < dnum g" using v DerefN by (simp add: is_node_def)
  have b: "bset (num g) (dn_setOuts (dn g d))" using graph_okD(8)[OF gokD(1)[OF g] d] .
  show ?thesis
    using DerefN d f b by (simp add: out_edges_def refs_def wp_the_deref wp_each_of_fun[OF b gok_less(1)[OF g]])
qed

lemma unchanged_trans: "unchanged g h \<Longrightarrow> unchanged h k \<Longrightarrow> unchanged g k"
  using unchanged_num[of g h] by (auto simp: unchanged_def)

lemma wp_edge_target:
  assumes g: "gok g" and s: "same_graph g s" and e: "is_ref g e"
  shows "wp (edge_target e) (\<lambda>w s'. w = target g e \<and> (\<exists>h. s' = s\<lparr>scc_graph := h\<rparr> \<and> same_graph g s')) s"
proof (cases e)
  case (SetN i)
  note f = same_graph_facts[OF s]
  have ok: "gok (scc_graph s)" and i: "i < num (scc_graph s)" using s e SetN f by (auto simp: same_graph_def is_ref_def)
  show ?thesis
    using SetN unfolding edge_target_def
    by simp (rule wp_mono[OF wp_Find[OF gokD(1)[OF ok] i]],
      use f s ok in \<open>auto simp: target_def same_graph_def intro: unchanged_trans gok_unchanged\<close>)
next
  case (DerefN d)
  then show ?thesis
    using e s same_graph_facts[OF s] by (auto simp: edge_target_def is_ref_def target_def wp_the_deref intro!: exI[of _ "scc_graph s"])
qed

subsection \<open>The steps of the search\<close>

abbreviation idx :: "scc \<Rightarrow> graph_node \<Rightarrow> nat" where "idx s v \<equiv> m_index (scc_marks s v)"
abbreviation lnk :: "scc \<Rightarrow> graph_node \<Rightarrow> nat" where "lnk s v \<equiv> m_link (scc_marks s v)"
abbreviation inc :: "scc \<Rightarrow> graph_node \<Rightarrow> bool" where "inc s v \<equiv> m_in_component (scc_marks s v)"

lemma enter_simps [simp]:
  "scc_epoch (enter v s) = scc_epoch s" "scc_index (enter v s) = Suc (scc_index s)" "scc_graph (enter v s) = scc_graph s"
  "scc_stack (enter v s) = scc_stack s" "scc_sccs (enter v s) = scc_sccs s"
  "scc_marks (enter v s) = (scc_marks s)(v := \<lparr>m_epoch = scc_epoch s, m_index = scc_index s, m_link = scc_index s, m_in_component = False\<rparr>)"
  "reached (enter v s) w \<longleftrightarrow> w = v \<or> reached s w"
  by (auto simp: enter_def set_mark_def reached_def)

lemma lower_simps [simp]:
  "scc_epoch (lower_link v w s) = scc_epoch s" "scc_index (lower_link v w s) = scc_index s" "scc_graph (lower_link v w s) = scc_graph s"
  "scc_stack (lower_link v w s) = scc_stack s" "scc_sccs (lower_link v w s) = scc_sccs s"
  "idx (lower_link v w s) x = idx s x" "inc (lower_link v w s) x = inc s x"
  "m_epoch (scc_marks (lower_link v w s) x) = m_epoch (scc_marks s x)"
  "lnk (lower_link v w s) x = (if x = v then min (lnk s v) (lnk s w) else lnk s x)"
  "x \<noteq> v \<Longrightarrow> scc_marks (lower_link v w s) x = scc_marks s x"
  "reached (lower_link v w s) x \<longleftrightarrow> reached s x"
  by (auto simp: lower_link_def set_mark_def reached_def)

lemma fold_in_component:
  "fold (\<lambda>w. set_mark w (\<lambda>m. m\<lparr>m_in_component := True\<rparr>)) ws s =
     s\<lparr>scc_marks := (\<lambda>w. if w \<in> set ws then (scc_marks s w)\<lparr>m_in_component := True\<rparr> else scc_marks s w)\<rparr>"
  by (induction ws arbitrary: s) (auto simp: set_mark_def fun_eq_iff)

text \<open>A root takes the nodes above it.\<close>

lemma takeWhile_front:
  assumes "\<forall>w \<in> set xs. P w" "\<forall>w \<in> set ys. \<not> P w"
  shows "takeWhile P (xs @ ys) = xs"
  using assms by (cases ys) auto

lemma ScPop_root:
  assumes "lnk s v = idx s v" "scc_stack s = new @ old" "\<forall>w \<in> set new. idx s v < idx s w" "\<forall>w \<in> set old. idx s w < idx s v"
  shows "ScPop v s = s\<lparr>scc_marks := (\<lambda>w. if w = v \<or> w \<in> set new then (scc_marks s w)\<lparr>m_in_component := True\<rparr> else scc_marks s w),
     scc_stack := old, scc_sccs := scc_sccs s @ (if new = [] then [] else [new @ [v]])\<rparr>"
proof -
  have "takeWhile (\<lambda>w. idx s w > lnk s v) (scc_stack s) = new"
    unfolding assms(2) by (rule takeWhile_front) (use assms in auto)
  then show ?thesis using assms(1,2) by (simp add: ScPop_def Let_def fold_in_component del: fold.simps)
qed

lemma ScPop_push: "lnk s v \<noteq> idx s v \<Longrightarrow> ScPop v s = s\<lparr>scc_stack := v # scc_stack s\<rparr>"
  by (simp add: ScPop_def Let_def)

subsection \<open>The invariant of the search\<close>

text \<open>A group is strongly connected, has at least two nodes and one of them is a set.\<close>

definition good_group :: "(graph_node \<times> graph_node) set \<Rightarrow> graph_node list \<Rightarrow> bool" where
  "good_group R gr \<longleftrightarrow> 2 \<le> length gr \<and> (\<forall>x \<in> set gr. \<forall>y \<in> set gr. (x, y) \<in> R\<^sup>*) \<and> (\<exists>i. SetN i \<in> set gr)"

text \<open>\<open>P\<close> holds the nodes whose visit has begun and not ended.\<close>

abbreviation on_way :: "graph_node set \<Rightarrow> scc \<Rightarrow> graph_node set" where
  "on_way P s \<equiv> set (scc_stack s) \<union> P"

definition marks_ok :: "graph \<Rightarrow> scc \<Rightarrow> bool" where
  "marks_ok g s \<longleftrightarrow> (\<forall>v. m_epoch (scc_marks s v) \<le> scc_epoch s) \<and>
     (\<forall>v. reached s v \<longrightarrow> is_node g v \<and> idx s v < scc_index s \<and> lnk s v \<le> idx s v)"

definition places_ok :: "graph_node set \<Rightarrow> scc \<Rightarrow> bool" where
  "places_ok P s \<longleftrightarrow> distinct (scc_stack s @ concat (scc_sccs s)) \<and> P \<inter> set (scc_stack s @ concat (scc_sccs s)) = {} \<and>
     (\<forall>v \<in> set (concat (scc_sccs s)) \<union> on_way P s. reached s v) \<and>
     (\<forall>v. reached s v \<longrightarrow> (\<not> inc s v \<longleftrightarrow> v \<in> on_way P s))"

text \<open>The link of a node is the index of a node it reaches; a link that was lowered was lowered by an edge.\<close>

definition lnk_ok :: "(graph_node \<times> graph_node) set \<Rightarrow> graph_node set \<Rightarrow> scc \<Rightarrow> graph_node \<Rightarrow> bool" where
  "lnk_ok R P s w \<longleftrightarrow> (\<exists>u \<in> on_way P s. (w, u) \<in> R\<^sup>* \<and> idx s u = lnk s w) \<and>
     (lnk s w < idx s w \<longrightarrow> (\<exists>c \<in> on_way P s. (w, c) \<in> R \<and> lnk s w \<le> idx s c))"

definition search_ok :: "graph \<Rightarrow> (graph_node \<times> graph_node) set \<Rightarrow> graph_node set \<Rightarrow> scc \<Rightarrow> bool" where
  "search_ok g R P s \<longleftrightarrow> same_graph g s \<and> marks_ok g s \<and> places_ok P s \<and> (\<forall>w \<in> on_way P s. lnk_ok R P s w) \<and>
     (\<forall>w \<in> set (scc_stack s). lnk s w < idx s w) \<and> (\<forall>gr \<in> set (scc_sccs s). good_group R gr)"

text \<open>The link of a node is at most that of each node above it.\<close>

definition links_up :: "graph_node \<Rightarrow> scc \<Rightarrow> bool" where
  "links_up v s \<longleftrightarrow> (\<forall>w \<in> set (scc_stack s). idx s v < idx s w \<longrightarrow> lnk s v \<le> lnk s w)"

definition continues :: "(graph_node \<times> graph_node) set \<Rightarrow> graph_node \<Rightarrow> scc \<Rightarrow> scc \<Rightarrow> bool" where
  "continues R v s s' \<longleftrightarrow> scc_epoch s' = scc_epoch s \<and> scc_index s \<le> scc_index s' \<and>
     (\<forall>w. reached s w \<and> w \<noteq> v \<longrightarrow> scc_marks s' w = scc_marks s w) \<and>
     lnk s' v \<le> lnk s v \<and> idx s' v = idx s v \<and> inc s' v = inc s v \<and> m_epoch (scc_marks s' v) = m_epoch (scc_marks s v) \<and>
     (\<exists>new. scc_stack s' = new @ scc_stack s \<and> (\<forall>w \<in> set new. \<not> reached s w)) \<and>
     (\<exists>grs. scc_sccs s' = scc_sccs s @ grs \<and> (\<forall>w \<in> set (concat grs). \<not> reached s w)) \<and>
     (\<forall>w. reached s' w \<and> \<not> reached s w \<longrightarrow> scc_index s \<le> idx s' w \<and> (v, w) \<in> R\<^sup>*)"

lemma continues_reached: "continues R v s s' \<Longrightarrow> reached s w \<Longrightarrow> reached s' w"
  unfolding continues_def reached_def by metis

lemma continues_refl: "continues R v s s"
  by (simp add: continues_def)

lemma continues_trans:
  assumes "continues R v s s'" "continues R v s' s''"
  shows "continues R v s s''"
proof -
  note r = continues_reached[OF assms(1)]
  obtain n1 g1 where 1: "scc_stack s' = n1 @ scc_stack s" "\<forall>w \<in> set n1. \<not> reached s w"
      "scc_sccs s' = scc_sccs s @ g1" "\<forall>w \<in> set (concat g1). \<not> reached s w"
    using assms(1) unfolding continues_def by blast
  obtain n2 g2 where 2: "scc_stack s'' = n2 @ scc_stack s'" "\<forall>w \<in> set n2. \<not> reached s' w"
      "scc_sccs s'' = scc_sccs s' @ g2" "\<forall>w \<in> set (concat g2). \<not> reached s' w"
    using assms(2) unfolding continues_def by blast
  have "scc_stack s'' = (n2 @ n1) @ scc_stack s" using 1(1) 2(1) by simp
  moreover have "\<forall>w \<in> set (n2 @ n1). \<not> reached s w" using 1(2) 2(2) r by auto
  moreover have "scc_sccs s'' = scc_sccs s @ (g1 @ g2)" using 1(3) 2(3) by simp
  moreover have "\<forall>w \<in> set (concat (g1 @ g2)). \<not> reached s w"
    using 1(4) 2(4) r unfolding concat_append set_append by blast
  moreover have "scc_index s \<le> idx s'' w \<and> (v, w) \<in> R\<^sup>*" if w: "reached s'' w" "\<not> reached s w" for w
  proof (cases "reached s' w")
    case True
    then have "scc_index s \<le> idx s' w \<and> (v, w) \<in> R\<^sup>*" using assms(1) w unfolding continues_def by blast
    moreover have "idx s'' w = idx s' w" using assms(2) True unfolding continues_def by (cases "w = v") auto
    ultimately show ?thesis by simp
  next
    case False
    then have "scc_index s' \<le> idx s'' w \<and> (v, w) \<in> R\<^sup>*" using assms(2) w unfolding continues_def by blast
    then show ?thesis using assms(1) unfolding continues_def by auto
  qed
  ultimately show ?thesis
    using assms r unfolding continues_def by (intro conjI) (auto; metis)+
qed

subsection \<open>Visits\<close>

lemma searchD:
  assumes "search_ok g R P s"
  shows "same_graph g s" "marks_ok g s" "places_ok P s" "w \<in> on_way P s \<Longrightarrow> lnk_ok R P s w"
    "w \<in> set (scc_stack s) \<Longrightarrow> lnk s w < idx s w" "gr \<in> set (scc_sccs s) \<Longrightarrow> good_group R gr"
  using assms by (auto simp: search_ok_def)

lemma placesD:
  assumes "places_ok P s"
  shows "distinct (scc_stack s @ concat (scc_sccs s))" "P \<inter> set (scc_stack s @ concat (scc_sccs s)) = {}"
    "w \<in> set (concat (scc_sccs s)) \<Longrightarrow> reached s w" "w \<in> on_way P s \<Longrightarrow> reached s w"
    "reached s w \<Longrightarrow> \<not> inc s w \<longleftrightarrow> w \<in> on_way P s"
  using assms unfolding places_ok_def by blast+

lemma marksD:
  assumes "marks_ok g s"
  shows "m_epoch (scc_marks s w) \<le> scc_epoch s" "reached s w \<Longrightarrow> is_node g w" "reached s w \<Longrightarrow> idx s w < scc_index s"
    "reached s w \<Longrightarrow> lnk s w \<le> idx s w"
  using assms unfolding marks_ok_def by blast+

lemma search_enter:
  assumes ok: "search_ok g R P s" and w: "is_node g w" "\<not> reached s w"
  shows "search_ok g R (insert w P) (enter w s)" "links_up w (enter w s)"
proof -
  note S = searchD[OF ok] and Pl = placesD[OF searchD(3)[OF ok]] and M = marksD[OF searchD(2)[OF ok]]
  have fresh: "w \<notin> on_way P s" "w \<notin> set (concat (scc_sccs s))" using Pl w by blast+
  have "same_graph g (enter w s)" using S(1) by (simp add: same_graph_def)
  moreover have "marks_ok g (enter w s)" using M w by (auto simp: marks_ok_def less_Suc_eq)
  moreover have "places_ok (insert w P) (enter w s)"
    using Pl(1,2) Pl(3-5) fresh by (auto simp: places_ok_def)
  moreover have "lnk_ok R (insert w P) (enter w s) x" if x: "x \<in> on_way (insert w P) (enter w s)" for x
  proof (cases "x = w")
    case True
    then show ?thesis by (auto simp: lnk_ok_def intro: bexI[of _ w])
  next
    case False
    then have xs: "x \<in> on_way P s" using x by auto
    have old: "y \<noteq> w" if "y \<in> on_way P s" for y using fresh that by blast
    obtain u where u: "u \<in> on_way P s" "(x, u) \<in> R\<^sup>*" "idx s u = lnk s x" using S(4)[OF xs] unfolding lnk_ok_def by blast
    have "\<exists>c \<in> on_way P s. (x, c) \<in> R \<and> lnk s x \<le> idx s c" if "lnk s x < idx s x"
      using S(4)[OF xs] that unfolding lnk_ok_def by blast
    then show ?thesis using u old False by (auto simp: lnk_ok_def)
  qed
  moreover have "lnk (enter w s) x < idx (enter w s) x" if "x \<in> set (scc_stack (enter w s))" for x
    using S(5) fresh that by auto
  ultimately show "search_ok g R (insert w P) (enter w s)" using S(6) by (simp add: search_ok_def)
  have "x \<noteq> w \<and> idx s x < scc_index s" if "x \<in> set (scc_stack s)" for x using fresh M(3) Pl(4) that by blast
  then show "links_up w (enter w s)" by (fastforce simp: links_up_def)
qed

lemma search_lower:
  assumes ok: "search_ok g R P s" and v: "v \<in> P" and w: "w \<in> on_way P s" "(v, w) \<in> R"
  shows "search_ok g R P (lower_link v w s)" "links_up v s \<Longrightarrow> links_up v (lower_link v w s)"
    "continues R v s (lower_link v w s)"
proof -
  note S = searchD[OF ok] and Pl = placesD[OF searchD(3)[OF ok]] and M = marksD[OF searchD(2)[OF ok]]
  have wr: "reached s w" using Pl(4)[OF w(1)] .
  have vs: "v \<notin> set (scc_stack s)" using Pl(2) v by auto
  have "same_graph g (lower_link v w s)" using S(1) by (simp add: same_graph_def)
  moreover have "marks_ok g (lower_link v w s)" using M by (auto simp: marks_ok_def min_le_iff_disj)
  moreover have "places_ok P (lower_link v w s)" using S(3) by (simp add: places_ok_def)
  moreover have "lnk_ok R P (lower_link v w s) x" if x: "x \<in> on_way P s" for x
  proof (cases "x = v \<and> lnk s w < lnk s v")
    case True
    obtain u where "u \<in> on_way P s" "(w, u) \<in> R\<^sup>*" "idx s u = lnk s w" using S(4)[OF w(1)] unfolding lnk_ok_def by blast
    moreover have "lnk s w \<le> idx s w" using M(4)[OF wr] .
    ultimately show ?thesis using True w by (auto simp: lnk_ok_def intro: converse_rtrancl_into_rtrancl)
  next
    case False
    then have "lnk (lower_link v w s) x = lnk s x" by (auto simp: min_def)
    then show ?thesis using S(4)[OF x] by (simp add: lnk_ok_def del: lower_simps(9))
  qed
  moreover have "lnk (lower_link v w s) x < idx (lower_link v w s) x" if "x \<in> set (scc_stack s)" for x
    using S(5)[OF that] that vs by auto
  ultimately show "search_ok g R P (lower_link v w s)" using S(6) by (simp add: search_ok_def)
  show "links_up v (lower_link v w s)" if "links_up v s"
    using that vs by (auto simp: links_up_def min_le_iff_disj)
  show "continues R v s (lower_link v w s)" by (auto simp: continues_def)
qed

text \<open>What the visit of a node leaves behind, for the visit that called it.\<close>

definition visited_from :: "(graph_node \<times> graph_node) set \<Rightarrow> graph_node \<Rightarrow> scc \<Rightarrow> scc \<Rightarrow> bool" where
  "visited_from R w s s' \<longleftrightarrow> scc_epoch s' = scc_epoch s \<and> scc_index s \<le> scc_index s' \<and> reached s' w \<and>
     (\<forall>x. reached s x \<longrightarrow> scc_marks s' x = scc_marks s x) \<and>
     (\<exists>new. scc_stack s' = new @ scc_stack s \<and> (\<forall>x \<in> set new. \<not> reached s x \<and> lnk s' w \<le> lnk s' x)) \<and>
     (\<exists>grs. scc_sccs s' = scc_sccs s @ grs \<and> (\<forall>x \<in> set (concat grs). \<not> reached s x)) \<and>
     (\<forall>x. reached s' x \<and> \<not> reached s x \<longrightarrow> scc_index s \<le> idx s' x \<and> (w, x) \<in> R\<^sup>*)"

lemma search_push:
  assumes ok: "search_ok g R (insert w P) s" and w: "w \<notin> P" and l: "lnk s w \<noteq> idx s w"
  shows "search_ok g R P (ScPop w s)"
proof -
  note S = searchD[OF ok] and Pl = placesD[OF searchD(3)[OF ok]] and M = marksD[OF searchD(2)[OF ok]]
  let ?s = "s\<lparr>scc_stack := w # scc_stack s\<rparr>"
  have way: "on_way P ?s = on_way (insert w P) s" by auto
  have r: "reached ?s x = reached s x" for x by (simp add: reached_def)
  have "lnk s w < idx s w" using M(4) Pl(4) l by (simp add: nat_less_le)
  then have "\<forall>x \<in> set (scc_stack ?s). lnk ?s x < idx ?s x" using S(5) by auto
  moreover have "places_ok P ?s"
    unfolding places_ok_def way r using Pl w by auto
  moreover have "marks_ok g ?s" "same_graph g ?s" using S(1,2) by (simp_all add: marks_ok_def same_graph_def reached_def)
  moreover have "\<forall>x \<in> on_way P ?s. lnk_ok R P ?s x" unfolding lnk_ok_def way using S(4) unfolding lnk_ok_def by simp
  ultimately show ?thesis using S(6) unfolding ScPop_push[OF l] by (simp add: search_ok_def)
qed

text \<open>The nodes of the stack when the visit of \<open>w\<close> is about to end.\<close>

lemma split_stack:
  assumes ok0: "search_ok g R P s0" and w: "\<not> reached s0 w" and ok: "search_ok g R (insert w P) s"
    and c: "continues R w (enter w s0) s"
  shows "\<exists>new. scc_stack s = new @ scc_stack s0 \<and>
    (\<forall>x \<in> set new. \<not> reached s0 x \<and> x \<noteq> w \<and> idx s w < idx s x \<and> (w, x) \<in> R\<^sup>*) \<and>
    (\<forall>x \<in> on_way P s0. x \<noteq> w \<and> x \<notin> set new \<and> idx s x < idx s w \<and> scc_marks s x = scc_marks s0 x) \<and> idx s w = scc_index s0"
proof -
  note Pl0 = placesD[OF searchD(3)[OF ok0]] and M0 = marksD[OF searchD(2)[OF ok0]] and Pl = placesD[OF searchD(3)[OF ok]]
  obtain new where new: "scc_stack s = new @ scc_stack s0" "\<forall>x \<in> set new. \<not> reached (enter w s0) x"
    using c unfolding continues_def by auto
  have iw: "idx s w = scc_index s0" using c by (simp add: continues_def)
  have old: "x \<noteq> w \<and> x \<notin> set new \<and> idx s x < idx s w \<and> scc_marks s x = scc_marks s0 x" if x: "x \<in> on_way P s0" for x
  proof -
    have rx: "reached s0 x" using Pl0(4)[OF x] .
    then have n: "x \<noteq> w" "x \<notin> set new" using w new(2) by auto
    then have "scc_marks s x = scc_marks s0 x" using c rx by (auto simp: continues_def)
    then show ?thesis using n iw M0(3)[OF rx] by simp
  qed
  have "\<not> reached s0 x \<and> x \<noteq> w \<and> idx s w < idx s x \<and> (w, x) \<in> R\<^sup>*" if x: "x \<in> set new" for x
  proof -
    have "\<not> reached (enter w s0) x" "reached s x" using new x Pl(4) by auto
    then have "Suc (scc_index s0) \<le> idx s x \<and> (w, x) \<in> R\<^sup>*" "\<not> reached s0 x" "x \<noteq> w" using c by (auto simp: continues_def)
    then show ?thesis using iw by simp
  qed
  then show ?thesis using new(1) old iw by blast
qed

lemma root_group:
  assumes ok: "search_ok g R (insert w P) s" and up: "links_up w s" and l: "lnk s w = idx s w"
    and new: "scc_stack s = new @ old" "\<And>x. x \<in> set new \<Longrightarrow> idx s w < idx s x \<and> (w, x) \<in> R\<^sup>*" "new \<noteq> []" "distinct new"
    and old: "\<And>x. x \<in> set old \<union> P \<Longrightarrow> idx s x < idx s w"
    and R: "\<forall>d c. (DerefN d, c) \<in> R \<longrightarrow> (\<exists>i. c = SetN i)"
  shows "good_group R (new @ [w])"
proof -
  note S = searchD[OF ok]
  have way: "u \<in> set new \<or> u = w" if "u \<in> on_way (insert w P) s" "idx s w \<le> idx s u" for u
  proof (rule ccontr)
    assume "\<not> ?thesis"
    then have "u \<in> set old \<union> P" using that(1) new(1) by auto
    then show False using old[of u] that(2) by simp
  qed
  have xs: "x \<in> on_way (insert w P) s \<and> lnk s x < idx s x \<and> idx s w \<le> lnk s x" if "x \<in> set new" for x
    using S(5)[of x] up that new(1) new(2)[OF that] l by (auto simp: links_up_def)
  have to: "(x, w) \<in> R\<^sup>*" if "x \<in> set new \<or> x = w" for x
    using that
  proof (induction "idx s x" arbitrary: x rule: less_induct)
    case less
    show ?case
    proof (cases "x = w")
      case False
      then have x: "x \<in> on_way (insert w P) s" "lnk s x < idx s x" "idx s w \<le> lnk s x" using xs less.prems by blast+
      obtain u where u: "u \<in> on_way (insert w P) s" "(x, u) \<in> R\<^sup>*" "idx s u = lnk s x" using S(4)[OF x(1)] unfolding lnk_ok_def by blast
      have "u \<in> set new \<or> u = w" using way[OF u(1)] u(3) x(3) by simp
      then have "(u, w) \<in> R\<^sup>*" using less.hyps[of u] u(3) x(2) by simp
      then show ?thesis using u(2) by simp
    qed simp
  qed
  have "(x, y) \<in> R\<^sup>*" if "x \<in> set (new @ [w])" "y \<in> set (new @ [w])" for x y
    using to[of x] new(2)[of y] that by (auto intro: rtrancl_trans)
  moreover have "\<exists>i. SetN i \<in> set (new @ [w])"
  proof -
    obtain x where x: "x \<in> set new" using new(3) by (cases new) auto
    show ?thesis
    proof (cases x)
      case (DerefN d)
      obtain c where c: "c \<in> on_way (insert w P) s" "(x, c) \<in> R" "lnk s x \<le> idx s c"
        using S(4) xs[OF x] unfolding lnk_ok_def by blast
      then have "c \<in> set new \<or> c = w" using way[OF c(1)] xs[OF x] by simp
      then show ?thesis using R c(2) DerefN by auto
    qed (use x in auto)
  qed
  ultimately show ?thesis using new(3) by (cases new) (auto simp: good_group_def)
qed

lemma search_root:
  assumes ok0: "search_ok g R P s0" and w: "\<not> reached s0 w" and ok: "search_ok g R (insert w P) s"
    and c: "continues R w (enter w s0) s" and up: "links_up w s" and l: "lnk s w = idx s w"
    and R: "\<forall>d c. (DerefN d, c) \<in> R \<longrightarrow> (\<exists>i. c = SetN i)"
  shows "search_ok g R P (ScPop w s)"
proof -
  note S0 = searchD[OF ok0] and S = searchD[OF ok] and Pl = placesD[OF searchD(3)[OF ok]] and M = marksD[OF searchD(2)[OF ok]]
  obtain new where split: "scc_stack s = new @ scc_stack s0"
      "\<forall>x \<in> set new. \<not> reached s0 x \<and> x \<noteq> w \<and> idx s w < idx s x \<and> (w, x) \<in> R\<^sup>*"
      "\<forall>x \<in> on_way P s0. x \<noteq> w \<and> x \<notin> set new \<and> idx s x < idx s w \<and> scc_marks s x = scc_marks s0 x"
    using split_stack[OF ok0 w ok c] by blast
  note new = split(1) bspec[OF split(2)] bspec[OF split(3)]
  define s' where "s' = ScPop w s"
  have s': "s' = s\<lparr>scc_marks := (\<lambda>x. if x = w \<or> x \<in> set new then (scc_marks s x)\<lparr>m_in_component := True\<rparr> else scc_marks s x),
     scc_stack := scc_stack s0, scc_sccs := scc_sccs s @ (if new = [] then [] else [new @ [w]])\<rparr>"
    unfolding s'_def by (rule ScPop_root[OF l new(1)]) (use new(2,3) in blast)+
  have f: "scc_stack s' = scc_stack s0" "scc_graph s' = scc_graph s" "scc_epoch s' = scc_epoch s" "scc_index s' = scc_index s"
    "idx s' x = idx s x" "lnk s' x = lnk s x" "m_epoch (scc_marks s' x) = m_epoch (scc_marks s x)"
    "inc s' x \<longleftrightarrow> x = w \<or> x \<in> set new \<or> inc s x" "reached s' x = reached s x" for x
    unfolding s' by (simp_all add: reached_def)
  have sccs: "set (concat (scc_sccs s')) \<subseteq> set (concat (scc_sccs s)) \<union> set new \<union> {w}" unfolding s' by auto
  have "same_graph g s'" "marks_ok g s'" using S(1,2) by (simp_all add: same_graph_def marks_ok_def f)
  moreover have "places_ok P s'"
  proof -
    have d: "distinct (scc_stack s' @ concat (scc_sccs s'))" using Pl(1,2) new unfolding s' by auto
    have PP: "x \<notin> set (scc_stack s' @ concat (scc_sccs s'))" if "x \<in> P" for x
      using Pl(2) new(1) new(3)[of x] that sccs f(1) by auto
    have r1: "reached s' x" if "x \<in> set (concat (scc_sccs s')) \<union> on_way P s'" for x
      using that sccs Pl(3)[of x] Pl(4)[of x] new(1) f(1,9) by auto
    have "\<not> inc s' x \<longleftrightarrow> x \<in> on_way P s'" if "reached s' x" for x
      using Pl(5)[of x] that f(1,8,9) new(1) new(3)[of x] by auto
    then show ?thesis using d PP r1 unfolding places_ok_def by auto
  qed
  moreover have "lnk_ok R P s' x" if x: "x \<in> on_way P s'" for x
  proof -
    have x0: "x \<in> on_way P s0" using x f(1) by simp
    have m: "idx s' y = idx s0 y \<and> lnk s' y = lnk s0 y" if "y \<in> on_way P s0" for y using new(3)[OF that] f(5,6) by simp
    show ?thesis using S0(4)[OF x0] m x0 unfolding lnk_ok_def f(1) by fastforce
  qed
  moreover have "\<forall>x \<in> set (scc_stack s'). lnk s' x < idx s' x" using S(5) new(1) by (simp add: f)
  moreover have "good_group R gr" if "gr \<in> set (scc_sccs s')" for gr
  proof (cases "gr \<in> set (scc_sccs s)")
    case False
    then have n: "new \<noteq> []" "gr = new @ [w]" using that unfolding s' by (auto split: if_splits)
    have "idx s w < idx s x \<and> (w, x) \<in> R\<^sup>*" if "x \<in> set new" for x using new(2)[OF that] by blast
    moreover have "idx s x < idx s w" if "x \<in> on_way P s0" for x using new(3)[OF that] by blast
    moreover have "distinct new" using Pl(1) new(1) by simp
    ultimately have "good_group R (new @ [w])" using root_group[OF ok up l new(1) _ n(1) _ _ R] by blast
    then show ?thesis using n by simp
  qed (use S(6) in blast)
  ultimately show ?thesis unfolding s'_def[symmetric] by (auto simp: search_ok_def)
qed

lemma search_leave:
  assumes ok0: "search_ok g R P s0" and w: "\<not> reached s0 w" and ok: "search_ok g R (insert w P) s"
    and c: "continues R w (enter w s0) s" and up: "links_up w s" and R: "\<forall>d c. (DerefN d, c) \<in> R \<longrightarrow> (\<exists>i. c = SetN i)"
  shows "search_ok g R P (ScPop w s)" "visited_from R w s0 (ScPop w s)"
proof -
  note Pl0 = placesD[OF searchD(3)[OF ok0]] and Pl = placesD[OF searchD(3)[OF ok]]
  obtain new where split: "scc_stack s = new @ scc_stack s0"
      "\<forall>x \<in> set new. \<not> reached s0 x \<and> x \<noteq> w \<and> idx s w < idx s x \<and> (w, x) \<in> R\<^sup>*"
      "\<forall>x \<in> on_way P s0. x \<noteq> w \<and> x \<notin> set new \<and> idx s x < idx s w \<and> scc_marks s x = scc_marks s0 x"
    using split_stack[OF ok0 w ok c] by blast
  have wP: "w \<notin> P" using Pl0(4) w by blast
  have rw: "reached s w" using Pl(4) by blast
  obtain grs where grs: "scc_sccs s = scc_sccs s0 @ grs" "\<forall>x \<in> set (concat grs). \<not> reached s0 x"
    using c unfolding continues_def by fastforce
  have old: "scc_marks s x = scc_marks s0 x \<and> x \<noteq> w" if "reached s0 x" for x using c w that by (auto simp: continues_def)
  have idx0: "scc_index s0 \<le> idx s x \<and> (w, x) \<in> R\<^sup>*" if "reached s x" "\<not> reached s0 x" for x
    using c that unfolding continues_def by (cases "x = w") (auto dest!: spec[of _ x])
  have e: "scc_epoch s = scc_epoch s0" "scc_index s0 \<le> scc_index s" using c by (simp_all add: continues_def)
  have up': "lnk s w \<le> lnk s x" if "x \<in> set new" for x using up split that by (simp add: links_up_def)
  show "search_ok g R P (ScPop w s)"
    using search_root[OF ok0 w ok c up _ R] search_push[OF ok wP] by blast
  show "visited_from R w s0 (ScPop w s)"
  proof (cases "lnk s w = idx s w")
    case True
    define s' where "s' = ScPop w s"
    have s': "s' = s\<lparr>scc_marks := (\<lambda>x. if x = w \<or> x \<in> set new then (scc_marks s x)\<lparr>m_in_component := True\<rparr> else scc_marks s x),
       scc_stack := scc_stack s0, scc_sccs := scc_sccs s @ (if new = [] then [] else [new @ [w]])\<rparr>"
      unfolding s'_def by (rule ScPop_root[OF True split(1)]) (use split(2,3) in blast)+
    have f: "idx s' x = idx s x" "reached s' x = reached s x" "x \<noteq> w \<Longrightarrow> x \<notin> set new \<Longrightarrow> scc_marks s' x = scc_marks s x" for x
      unfolding s' by (simp_all add: reached_def)
    have f2: "scc_stack s' = scc_stack s0" "scc_epoch s' = scc_epoch s" "scc_index s' = scc_index s" unfolding s' by simp_all
    have "scc_marks s' x = scc_marks s0 x" if "reached s0 x" for x
      using old[OF that] f(3)[of x] split(2) that by auto
    moreover have "\<exists>grs'. scc_sccs s' = scc_sccs s0 @ grs' \<and> (\<forall>x \<in> set (concat grs'). \<not> reached s0 x)"
      using grs split(2) w unfolding s' by (cases "new = []") auto
    ultimately show ?thesis
      unfolding s'_def[symmetric] visited_from_def using f2 e rw idx0 by (simp add: f(1,2))
  next
    case False
    have r: "reached (s\<lparr>scc_stack := x\<rparr>) y = reached s y" for x y by (simp add: reached_def)
    have "\<exists>k. w # scc_stack s = k @ scc_stack s0 \<and> (\<forall>x \<in> set k. \<not> reached s0 x \<and> lnk s w \<le> lnk s x)"
      using split(1,2) up' w by (intro exI[of _ "w # new"]) auto
    then show ?thesis
      unfolding ScPop_push[OF False] visited_from_def using old grs e rw idx0 by (simp add: r)
  qed
qed

lemma visited_continues:
  assumes v: "reached s v" and vw: "(v, w) \<in> R" and vis: "visited_from R w s s'" and up: "links_up v s"
    and lv: "v \<notin> set (scc_stack s')" and st: "\<forall>x \<in> set (scc_stack s). reached s x"
  shows "continues R v s (lower_link v w s')" "links_up v (lower_link v w s')"
proof -
  obtain new where new: "scc_stack s' = new @ scc_stack s" "\<forall>x \<in> set new. \<not> reached s x \<and> lnk s' w \<le> lnk s' x"
    using vis unfolding visited_from_def by blast
  have keep: "scc_marks s' x = scc_marks s x" if "reached s x" for x using vis that unfolding visited_from_def by blast
  have "(v, x) \<in> R\<^sup>* \<and> scc_index s \<le> idx s' x" if "reached s' x" "\<not> reached s x" for x
    using vis vw that unfolding visited_from_def by (blast intro: converse_rtrancl_into_rtrancl)
  then show "continues R v s (lower_link v w s')"
    using vis new keep v unfolding continues_def visited_from_def by simp
  show "links_up v (lower_link v w s')"
    unfolding links_up_def
  proof (intro ballI impI)
    fix x assume x: "x \<in> set (scc_stack (lower_link v w s'))" "idx (lower_link v w s') v < idx (lower_link v w s') x"
    show "lnk (lower_link v w s') v \<le> lnk (lower_link v w s') x"
    proof (cases "x \<in> set new")
      case True
      then have "lnk s' w \<le> lnk s' x" using new(2) by blast
      moreover have "x \<noteq> v" using True new(2) v by auto
      ultimately show ?thesis by simp
    next
      case False
      then have "x \<in> set (scc_stack s)" using x(1) new(1) by simp
      moreover from this have "scc_marks s' x = scc_marks s x" "x \<noteq> v" using st keep lv new(1) by auto
      ultimately show ?thesis using up keep[OF v] x(2) by (auto simp: links_up_def min_le_iff_disj)
    qed
  qed
qed

subsection \<open>Nothing of a component is missed\<close>

definition edge_done :: "scc \<Rightarrow> graph_node \<Rightarrow> graph_node \<Rightarrow> bool" where
  "edge_done s x c \<longleftrightarrow> reached s c \<and> (inc s c \<or> lnk s x \<le> idx s c)"

text \<open>No edge leads out of the nodes whose component is known, and what is strongly connected is in one group.\<close>

definition closed_ok :: "(graph_node \<times> graph_node) set \<Rightarrow> scc \<Rightarrow> bool" where
  "closed_ok R s \<longleftrightarrow> (\<forall>x \<in> set (scc_stack s). \<forall>c. (x, c) \<in> R \<longrightarrow> edge_done s x c) \<and>
     (\<forall>x c. reached s x \<and> inc s x \<and> (x, c) \<in> R \<longrightarrow> reached s c \<and> inc s c) \<and>
     (\<forall>x y. reached s x \<and> inc s x \<and> (x, y) \<in> R\<^sup>* \<and> (y, x) \<in> R\<^sup>* \<and> x \<noteq> y \<longrightarrow>
        (\<exists>gr \<in> set (scc_sccs s). x \<in> set gr \<and> y \<in> set gr))"

lemma closedD:
  assumes "closed_ok R s"
  shows "x \<in> set (scc_stack s) \<Longrightarrow> (x, c) \<in> R \<Longrightarrow> edge_done s x c"
    and "reached s x \<Longrightarrow> inc s x \<Longrightarrow> (x, c) \<in> R \<Longrightarrow> reached s c \<and> inc s c"
    and "reached s x \<Longrightarrow> inc s x \<Longrightarrow> (x, y) \<in> R\<^sup>* \<Longrightarrow> (y, x) \<in> R\<^sup>* \<Longrightarrow> x \<noteq> y \<Longrightarrow>
      \<exists>gr \<in> set (scc_sccs s). x \<in> set gr \<and> y \<in> set gr"
  using assms unfolding closed_ok_def by blast+

lemma closed_path:
  assumes "closed_ok R s" "(x, y) \<in> R\<^sup>*" "reached s x \<and> inc s x"
  shows "reached s y \<and> inc s y"
  using assms(2,3) closedD(2)[OF assms(1)] by (induction rule: rtrancl_induct) blast+

lemma closed_okI:
  assumes "\<And>x c. x \<in> set (scc_stack s) \<Longrightarrow> (x, c) \<in> R \<Longrightarrow> edge_done s x c"
    and "\<And>x c. reached s x \<Longrightarrow> inc s x \<Longrightarrow> (x, c) \<in> R \<Longrightarrow> reached s c \<and> inc s c"
    and "\<And>x y. reached s x \<Longrightarrow> inc s x \<Longrightarrow> (x, y) \<in> R\<^sup>* \<Longrightarrow> (y, x) \<in> R\<^sup>* \<Longrightarrow> x \<noteq> y \<Longrightarrow>
      \<exists>gr \<in> set (scc_sccs s). x \<in> set gr \<and> y \<in> set gr"
  shows "closed_ok R s"
  unfolding closed_ok_def using assms by blast

lemma closed_same:
  assumes "closed_ok R s" "scc_stack s' = scc_stack s" "scc_sccs s' = scc_sccs s"
    and "\<And>x. (reached s' x \<and> inc s' x) = (reached s x \<and> inc s x)"
    and "\<And>x c. x \<in> set (scc_stack s) \<Longrightarrow> edge_done s x c \<Longrightarrow> edge_done s' x c"
  shows "closed_ok R s'"
proof (rule closed_okI)
  show "edge_done s' x c" if "x \<in> set (scc_stack s')" "(x, c) \<in> R" for x c
    using closedD(1)[OF assms(1) _ that(2)] that(1) assms(2,5) by simp
  show "reached s' c \<and> inc s' c" if "reached s' x" "inc s' x" "(x, c) \<in> R" for x c
    using closedD(2)[OF assms(1) _ _ that(3)] that(1,2) assms(4)[of x] assms(4)[of c] by simp
  show "\<exists>gr \<in> set (scc_sccs s'). x \<in> set gr \<and> y \<in> set gr"
    if "reached s' x" "inc s' x" "(x, y) \<in> R\<^sup>*" "(y, x) \<in> R\<^sup>*" "x \<noteq> y" for x y
    using closedD(3)[OF assms(1) _ _ that(3-5)] that(1,2) assms(4)[of x] unfolding assms(3) by simp
qed

lemma closed_enter:
  assumes c: "closed_ok R s" and w: "\<not> reached s w" and st: "\<forall>x \<in> set (scc_stack s). reached s x"
  shows "closed_ok R (enter w s)"
proof (rule closed_same[OF c])
  show "(reached (enter w s) x \<and> inc (enter w s) x) = (reached s x \<and> inc s x)" for x using w by auto
  show "edge_done (enter w s) x c" if "x \<in> set (scc_stack s)" "edge_done s x c" for x c
    using that w st by (auto simp: edge_done_def)
qed simp_all

lemma closed_lower: "closed_ok R s \<Longrightarrow> v \<notin> set (scc_stack s) \<Longrightarrow> closed_ok R (lower_link v w s)"
  by (rule closed_same) (auto simp: edge_done_def)

lemma closed_push:
  assumes c: "closed_ok R s" and w: "\<forall>c. (w, c) \<in> R \<longrightarrow> edge_done s w c" and l: "lnk s w \<noteq> idx s w"
  shows "closed_ok R (ScPop w s)"
  unfolding ScPop_push[OF l]
proof (rule closed_okI)
  let ?s = "s\<lparr>scc_stack := w # scc_stack s\<rparr>"
  have r: "reached ?s y = reached s y" "edge_done ?s y z = edge_done s y z" for y z
    by (simp_all add: reached_def edge_done_def)
  show "edge_done ?s x c" if "x \<in> set (scc_stack ?s)" "(x, c) \<in> R" for x c
    using closedD(1)[OF c _ that(2)] that w unfolding r by auto
  show "reached ?s z \<and> inc ?s z" if "reached ?s x" "inc ?s x" "(x, z) \<in> R" for x z
    using closedD(2)[OF c _ _ that(3)] that(1,2) unfolding r by simp
  show "\<exists>gr \<in> set (scc_sccs ?s). x \<in> set gr \<and> y \<in> set gr"
    if "reached ?s x" "inc ?s x" "(x, y) \<in> R\<^sup>*" "(y, x) \<in> R\<^sup>*" "x \<noteq> y" for x y
    using closedD(3)[OF c _ _ that(3-5)] that(1,2) unfolding r by simp
qed

lemma closed_root:
  assumes ok0: "search_ok g R P s0" and w: "\<not> reached s0 w" and ok: "search_ok g R (insert w P) s"
    and c: "continues R w (enter w s0) s" and up: "links_up w s" and l: "lnk s w = idx s w"
    and cl: "closed_ok R s" and edges: "\<forall>c. (w, c) \<in> R \<longrightarrow> edge_done s w c"
  shows "closed_ok R (ScPop w s)"
proof -
  note Pl = placesD[OF searchD(3)[OF ok]]
  obtain new where split: "scc_stack s = new @ scc_stack s0"
      "\<forall>x \<in> set new. \<not> reached s0 x \<and> x \<noteq> w \<and> idx s w < idx s x \<and> (w, x) \<in> R\<^sup>*"
      "\<forall>x \<in> on_way P s0. x \<noteq> w \<and> x \<notin> set new \<and> idx s x < idx s w \<and> scc_marks s x = scc_marks s0 x"
    using split_stack[OF ok0 w ok c] by blast
  define s' where "s' = ScPop w s"
  have s': "s' = s\<lparr>scc_marks := (\<lambda>x. if x = w \<or> x \<in> set new then (scc_marks s x)\<lparr>m_in_component := True\<rparr> else scc_marks s x),
     scc_stack := scc_stack s0, scc_sccs := scc_sccs s @ (if new = [] then [] else [new @ [w]])\<rparr>"
    unfolding s'_def by (rule ScPop_root[OF l split(1)]) (use split(2,3) in blast)+
  have f: "scc_stack s' = scc_stack s0" "idx s' x = idx s x" "lnk s' x = lnk s x" "reached s' x = reached s x"
    "inc s' x \<longleftrightarrow> x = w \<or> x \<in> set new \<or> inc s x" for x
    unfolding s' by (simp_all add: reached_def)
  let ?N = "insert w (set new)"
  have rw: "reached s w" "\<not> inc s w" using Pl(4,5) by blast+
  have step: "c \<in> ?N \<or> inc s c \<and> reached s c" if x: "x \<in> ?N" "(x, c) \<in> R" for x c
  proof -
    have "edge_done s x c" using x edges closedD(1)[OF cl _ x(2)] split(1) by auto
    moreover have "idx s w \<le> lnk s x" using up x(1) split(1,2) l by (auto simp: links_up_def)
    ultimately have d: "reached s c" "inc s c \<or> idx s w \<le> idx s c" by (auto simp: edge_done_def)
    show ?thesis
    proof (cases "inc s c")
      case False
      then have "c \<in> on_way (insert w P) s" using Pl(5) d(1) by blast
      then show ?thesis using split(1,3) d(2) False by (auto dest!: bspec[of _ _ c])
    qed (use d in simp)
  qed
  have path: "y \<in> ?N \<or> inc s y \<and> reached s y" if "(x, y) \<in> R\<^sup>*" "x \<in> ?N" for x y
    using that(1)
  proof (induction rule: rtrancl_induct)
    case (step y z)
    then show ?case using \<open>\<And>x c. x \<in> ?N \<Longrightarrow> (x, c) \<in> R \<Longrightarrow> c \<in> ?N \<or> inc s c \<and> reached s c\<close> closedD(2)[OF cl] by blast
  qed (use that(2) in simp)
  have "edge_done s' x c" if "x \<in> set (scc_stack s')" "(x, c) \<in> R" for x c
    using closedD(1)[OF cl _ that(2)] that(1) split(1) by (auto simp: f edge_done_def)
  moreover have "reached s' c \<and> inc s' c" if "reached s' x" "inc s' x" "(x, c) \<in> R" for x c
    using that step[of x c] closedD(2)[OF cl _ _ that(3)] rw(1) split(1) Pl(4) by (auto simp: f)
  moreover have "\<exists>gr \<in> set (scc_sccs s'). x \<in> set gr \<and> y \<in> set gr"
    if x: "reached s' x" "inc s' x" and xy: "(x, y) \<in> R\<^sup>*" "(y, x) \<in> R\<^sup>*" "x \<noteq> y" for x y
  proof (cases "x \<in> ?N")
    case True
    then have "\<not> inc s x" using Pl(4,5) split(1) by auto
    then have "y \<in> ?N" using path[OF xy(1) True] closed_path[OF cl xy(2)] by blast
    then show ?thesis using True xy(3) by (auto simp: s')
  next
    case False
    then have "\<exists>gr \<in> set (scc_sccs s). x \<in> set gr \<and> y \<in> set gr" using closedD(3)[OF cl _ _ xy] x by (simp add: f)
    then show ?thesis by (auto simp: s')
  qed
  ultimately show ?thesis unfolding s'_def[symmetric] by (rule closed_okI)
qed

lemma search_regraph:
  assumes "search_ok g R P s" "same_graph g (s\<lparr>scc_graph := h\<rparr>)"
  shows "search_ok g R P (s\<lparr>scc_graph := h\<rparr>)" "links_up v (s\<lparr>scc_graph := h\<rparr>) = links_up v s" "continues R v s (s\<lparr>scc_graph := h\<rparr>)"
proof -
  have r: "reached (s\<lparr>scc_graph := h\<rparr>) x = reached s x" for x by (simp add: reached_def)
  show "search_ok g R P (s\<lparr>scc_graph := h\<rparr>)"
    using assms by (simp add: search_ok_def marks_ok_def places_ok_def lnk_ok_def r)
  show "links_up v (s\<lparr>scc_graph := h\<rparr>) = links_up v s" "continues R v s (s\<lparr>scc_graph := h\<rparr>)"
    by (simp_all add: links_up_def continues_def r)
qed

lemma ScPop_links [simp]: "idx (ScPop v s) x = idx s x" "lnk (ScPop v s) x = lnk s x"
  by (simp_all add: ScPop_def Let_def fold_in_component del: fold.simps)

lemma lower_noop: "lnk s v \<le> lnk s w \<Longrightarrow> lower_link v w s = s"
  by (cases s) (auto simp: lower_link_def set_mark_def min_def fun_eq_iff)

lemma ScPop_inc: "lnk s v = idx s v \<Longrightarrow> inc (ScPop v s) v"
  by (simp add: ScPop_def Let_def fold_in_component del: fold.simps)

lemma edge_done_continues: "continues R v s s' \<Longrightarrow> edge_done s v c \<Longrightarrow> edge_done s' v c"
  using continues_reached[of R v s s' c] unfolding edge_done_def continues_def by (cases "c = v") auto

text \<open>Coming back to \<open>v\<close> from the visit of \<open>w\<close>.\<close>

definition level_ok :: "graph \<Rightarrow> (graph_node \<times> graph_node) set \<Rightarrow> graph_node set \<Rightarrow> graph_node \<Rightarrow> scc \<Rightarrow> bool" where
  "level_ok g R P v s \<longleftrightarrow> search_ok g R P s \<and> closed_ok R s \<and> links_up v s"

lemma search_closed:
  assumes ok: "search_ok g R P s" and w: "\<not> reached s w"
    and ok2: "level_ok g R (insert w P) w s2" and c: "continues R w (enter w s) s2" and edges: "\<forall>c. (w, c) \<in> R \<longrightarrow> edge_done s2 w c"
  shows "closed_ok R (ScPop w s2)"
  using closed_root[OF ok w _ c _ _ _ edges] closed_push[OF _ edges] ok2 unfolding level_ok_def by blast

lemma search_return:
  assumes ok: "level_ok g R P v s" and v: "v \<in> P" and vw: "(v, w) \<in> R" "\<not> reached s w"
    and ok2: "level_ok g R (insert w P) w s2" and c: "continues R w (enter w s) s2" and edges: "\<forall>c. (w, c) \<in> R \<longrightarrow> edge_done s2 w c"
    and R: "\<forall>d c. (DerefN d, c) \<in> R \<longrightarrow> (\<exists>i. c = SetN i)"
  defines "s' \<equiv> lower_link v w (ScPop w s2)"
  shows "level_ok g R P v s'" "continues R v s s'" "edge_done s' v w"
proof -
  have ok: "search_ok g R P s" "links_up v s" and ok2': "search_ok g R (insert w P) s2" "links_up w s2"
    using ok ok2 by (simp_all add: level_ok_def)
  note Pl = placesD[OF searchD(3)[OF ok(1)]]
  have vr: "reached s v" using Pl(4) v by blast
  note leave = search_leave[OF ok(1) vw(2) ok2'(1) c ok2'(2) R]
  have vn: "v \<notin> set (scc_stack (ScPop w s2))" using placesD(2)[OF searchD(3)[OF leave(1)]] v by auto
  moreover have "\<forall>x \<in> set (scc_stack s). reached s x" using Pl(4) by blast
  ultimately have up: "continues R v s s'" "links_up v s'"
    using visited_continues[OF vr vw(1) leave(2) ok(2)] unfolding s'_def by blast+
  then show "continues R v s s'" by simp
  have so: "search_ok g R P s'"
  proof (cases "lnk s2 w = idx s2 w")
    case False
    then have "w \<in> on_way P (ScPop w s2)" by (simp add: ScPop_push)
    then show ?thesis using search_lower(1)[OF leave(1) v _ vw(1)] by (simp add: s'_def)
  next
    case True
    have "v \<noteq> w" using vr vw(2) by auto
    then have "scc_marks s2 v = scc_marks s v \<or> lnk s2 v \<le> lnk s v" "idx s2 w = scc_index s" using c vr by (auto simp: continues_def)
    moreover have "lnk s v < scc_index s" using marksD(3,4)[OF searchD(2)[OF ok(1)] vr] by simp
    ultimately have "lnk (ScPop w s2) v \<le> lnk (ScPop w s2) w" using True by auto
    then show ?thesis using leave(1) by (simp add: s'_def lower_noop)
  qed
  moreover have "closed_ok R s'"
    unfolding s'_def by (rule closed_lower[OF search_closed[OF ok(1) vw(2) ok2 c edges] vn])
  ultimately show "level_ok g R P v s'" using up(2) by (simp add: level_ok_def)
  have rw: "reached s' w" using leave(2) by (simp add: s'_def visited_from_def)
  show "edge_done s' v w"
  proof (cases "lnk s2 w = idx s2 w")
    case True
    then show ?thesis using rw ScPop_inc[OF True] by (simp add: edge_done_def s'_def)
  next
    case False
    have "lnk s' v \<le> lnk s' w" by (simp add: s'_def)
    also have "\<dots> \<le> idx s' w" using marksD(4)[OF searchD(2)[OF so] rw] .
    finally show ?thesis using rw by (simp add: edge_done_def)
  qed
qed

lemma wp_modify_f: "wp (emodify f) Q = (\<lambda>s. Q () (f s))"
  by (simp add: fun_eq_iff)

lemma wp_cong: "m s = m' s \<Longrightarrow> wp m Q s = wp m' Q s"
  by (simp add: wp_def)

abbreviation unreached :: "graph \<Rightarrow> scc \<Rightarrow> graph_node set" where
  "unreached g s \<equiv> {x. is_node g x \<and> \<not> reached s x}"

lemma unreached_enter: "is_node g w \<Longrightarrow> \<not> reached s w \<Longrightarrow> card (unreached g (enter w s)) < card (unreached g s)"
  by (rule psubset_card_mono) (auto intro: finite_subset[OF _ finite_nodes[of g]])

lemma unreached_mono: "continues R v s s' \<Longrightarrow> card (unreached g s') \<le> card (unreached g s)"
  by (rule card_mono) (auto intro: finite_subset[OF _ finite_nodes[of g]] dest: continues_reached)

lemma edge_rel_deref: "\<forall>d c. (DerefN d, c) \<in> edge_rel full g \<longrightarrow> (\<exists>i. c = SetN i)"
  by (auto simp: edge_rel_def refs_def target_def)

lemma level_regraph:
  assumes "level_ok g R P v s" "same_graph g (s\<lparr>scc_graph := h\<rparr>)"
  shows "level_ok g R P v (s\<lparr>scc_graph := h\<rparr>)" "continues R v s (s\<lparr>scc_graph := h\<rparr>)"
proof -
  have r: "reached (s\<lparr>scc_graph := h\<rparr>) x = reached s x" for x by (simp add: reached_def)
  have "closed_ok R (s\<lparr>scc_graph := h\<rparr>)" by (rule closed_same[of R s]) (use assms in \<open>auto simp: level_ok_def edge_done_def r\<close>)
  moreover from assms have ok: "search_ok g R P s" "links_up v s" by (simp_all add: level_ok_def)
  moreover note search_regraph(1)[OF ok(1) assms(2)] search_regraph(2,3)[OF ok(1) assms(2), of v]
  ultimately show "level_ok g R P v (s\<lparr>scc_graph := h\<rparr>)" "continues R v s (s\<lparr>scc_graph := h\<rparr>)"
    using ok by (simp_all add: level_ok_def)
qed

lemma level_enter:
  assumes "search_ok g R P s" "closed_ok R s" "is_node g w" "\<not> reached s w"
  shows "level_ok g R (insert w P) w (enter w s)"
  using search_enter[OF assms(1,3,4)] closed_enter[OF assms(2,4)] placesD(4)[OF searchD(3)[OF assms(1)]]
  by (auto simp: level_ok_def)

text \<open>The branch of a target that was reached before.\<close>

lemma search_seen:
  assumes ok: "level_ok g R P v s" and v: "v \<in> P" and vw: "(v, w) \<in> R" "reached s w"
  shows "inc s w \<Longrightarrow> edge_done s v w"
    and "\<not> inc s w \<Longrightarrow> level_ok g R P v (lower_link v w s) \<and> continues R v s (lower_link v w s) \<and> edge_done (lower_link v w s) v w"
proof -
  show "inc s w \<Longrightarrow> edge_done s v w" using vw by (simp add: edge_done_def)
  have so: "search_ok g R P s" "closed_ok R s" "links_up v s" using ok by (simp_all add: level_ok_def)
  note Pl = placesD[OF searchD(3)[OF so(1)]]
  have vn: "v \<notin> set (scc_stack s)" using Pl(2) v by auto
  assume "\<not> inc s w"
  then have w: "w \<in> on_way P s" using Pl(5) vw(2) by blast
  have "lnk s w \<le> idx s w" using marksD(4)[OF searchD(2)[OF so(1)] vw(2)] .
  then have "edge_done (lower_link v w s) v w" using vw(2) by (simp add: edge_done_def min_le_iff_disj)
  then show "level_ok g R P v (lower_link v w s) \<and> continues R v s (lower_link v w s) \<and> edge_done (lower_link v w s) v w"
    using search_lower[OF so(1) v w vw(1)] so(3) closed_lower[OF so(2) vn] by (simp add: level_ok_def)
qed

lemma wp_visit_edges:
  fixes full :: bool
  assumes g: "gok g"
  defines "R \<equiv> edge_rel full g"
  shows "level_ok g R P v s \<Longrightarrow> v \<in> P \<Longrightarrow> is_node g v \<Longrightarrow> set es \<subseteq> refs full g v \<Longrightarrow>
    wp (visit_edges full v es) (\<lambda>_ s'. level_ok g R P v s' \<and> continues R v s s' \<and> (\<forall>e \<in> set es. edge_done s' v (target g e))) s"
proof (induction "(s, es)" arbitrary: s es v P
    rule: wf_induct_rule[OF wf_measures[of "[\<lambda>(s, es). card (unreached g s), \<lambda>(s, es). length es]"]])
  case (1 s es v P)
  note IH = 1(1) and ok = 1(2) and v = 1(3,4) and es = 1(5)
  let ?I = "\<lambda>s'. level_ok g R P v s' \<and> continues R v s s'"
  let ?Q = "\<lambda>s'. ?I s' \<and> (\<forall>e \<in> set es. edge_done s' v (target g e))"
  have same: "same_graph g s" using ok searchD(1) by (auto simp: level_ok_def)
  have "wp (visit_edges full v es) (\<lambda>_. ?Q) s"
  proof (cases es)
    case Nil
    then have "wp (visit_edges full v es) (\<lambda>_. ?Q) s = wp (ereturn ()) (\<lambda>_. ?Q) s"
      by (intro wp_cong) (simp add: visit_edges.simps[of full v "[]"] Nil)
    then show ?thesis using ok continues_refl Nil by simp
  next
    case (Cons e es')
    have ref: "is_ref g e" and vw: "(v, target g e) \<in> R" and w: "is_node g (target g e)"
      using ref_ok[OF g v(2), of e full] target_ok[OF g] es v(2) Cons by (auto simp: R_def edge_rel_def)
    have rest: "wp (visit_edges full v es') (\<lambda>_. ?Q) t" if t: "?I t" "edge_done t v (target g e)" for t
    proof -
      have "wp (visit_edges full v es') (\<lambda>_ s'. level_ok g R P v s' \<and> continues R v t s' \<and> (\<forall>e \<in> set es'. edge_done s' v (target g e))) t"
        by (rule IH) (use t v es Cons unreached_mono[of R v s t g] in auto)
      then show ?thesis
      proof (rule wp_mono, elim conjE)
        fix s' assume s': "level_ok g R P v s'" "continues R v t s'" "\<forall>e \<in> set es'. edge_done s' v (target g e)"
        then show "?Q s'" using continues_trans[OF conjunct2[OF t(1)] s'(2)] edge_done_continues[OF s'(2) t(2)] Cons by simp
      qed
    qed
    have "wp (visit_edges full v es) (\<lambda>_. ?Q) s =
      wp (ebind (edge_target e) (\<lambda>w. ebind (egets (\<lambda>s. reached s w)) (\<lambda>seen. ethen
           (if \<not> seen then
              ethen (emodify (enter w)) (ebind (out_edges full w) (\<lambda>ws. ethen (visit_edges full w ws)
                (ethen (emodify (ScPop w)) (emodify (lower_link v w)))))
            else ebind (egets (\<lambda>s. m_in_component (scc_marks s w))) (\<lambda>inc.
              ewhen (\<not> inc) (emodify (lower_link v w))))
           (visit_edges full v es')))) (\<lambda>_. ?Q) s"
      by (intro wp_cong) (simp add: visit_edges.simps[of full v "e # es'"] Cons)
    also have "\<dots>"
      unfolding wp_bind
    proof (rule wp_mono[OF wp_edge_target[OF g same ref]], elim conjE exE)
      fix w s1 h assume w': "w = target g e" and s1: "s1 = s\<lparr>scc_graph := h\<rparr>" "same_graph g s1"
      have q1: "?I s1" using level_regraph[OF ok s1(2)[unfolded s1(1)]] s1(1) by simp
      show "wp (egets (\<lambda>s. reached s w)) (\<lambda>seen. wp (ethen
           (if \<not> seen then
              ethen (emodify (enter w)) (ebind (out_edges full w) (\<lambda>ws. ethen (visit_edges full w ws)
                (ethen (emodify (ScPop w)) (emodify (lower_link v w)))))
            else ebind (egets (\<lambda>s. m_in_component (scc_marks s w))) (\<lambda>inc.
              ewhen (\<not> inc) (emodify (lower_link v w))))
           (visit_edges full v es')) (\<lambda>_. ?Q)) s1"
      proof (cases "reached s1 w")
        case False
        have so: "search_ok g R P s1" "closed_ok R s1" using q1 by (simp_all add: level_ok_def)
        note ent = level_enter[OF so w[folded w'] False]
        have same1: "same_graph g (enter w s1)" using s1(2) by (simp add: same_graph_def)
        have "wp (out_edges full w) (\<lambda>ws. wp (visit_edges full w ws) (\<lambda>_ t. wp (visit_edges full v es') (\<lambda>_. ?Q) (lower_link v w (ScPop w t)))) (enter w s1)"
        proof (rule wp_mono[OF wp_out_edges[OF g same1 w[folded w']]], elim conjE)
          fix ws t assume t: "t = enter w s1" "set ws = refs full g w"
          have "wp (visit_edges full w ws) (\<lambda>_ s'. level_ok g R (insert w P) w s' \<and> continues R w (enter w s1) s' \<and>
              (\<forall>e \<in> set ws. edge_done s' w (target g e))) (enter w s1)"
            by (rule IH) (use ent w w' t unreached_enter[OF w[folded w'] False] unreached_mono[of R v s s1 g] q1 in auto)
          then show "wp (visit_edges full w ws) (\<lambda>_ t. wp (visit_edges full v es') (\<lambda>_. ?Q) (lower_link v w (ScPop w t))) t"
            unfolding t(1)
          proof (rule wp_mono, elim conjE)
            fix s2 assume s2: "level_ok g R (insert w P) w s2" "continues R w (enter w s1) s2" "\<forall>e \<in> set ws. edge_done s2 w (target g e)"
            have "\<forall>c. (w, c) \<in> R \<longrightarrow> edge_done s2 w c" using s2(3) t(2) by (auto simp: R_def edge_rel_def)
            note ret = search_return[OF conjunct1[OF q1] v(1) vw[folded w'] False s2(1,2) this edge_rel_deref[of full g, folded R_def]]
            show "wp (visit_edges full v es') (\<lambda>_. ?Q) (lower_link v w (ScPop w s2))"
              by (rule rest) (use ret q1 continues_trans w' in blast)+
          qed
        qed
        then show ?thesis using False by (simp add: wp_modify_f)
      next
        case True
        note seen = search_seen[OF conjunct1[OF q1] v(1) vw[folded w'] True]
        have "wp (visit_edges full v es') (\<lambda>_. ?Q) s1" if "inc s1 w"
          by (rule rest) (use seen that q1 w' in blast)+
        moreover have "wp (visit_edges full v es') (\<lambda>_. ?Q) (lower_link v w s1)" if "\<not> inc s1 w"
          by (rule rest) (use seen that q1 w' continues_trans in blast)+
        ultimately show ?thesis using True by simp
      qed
    qed
    finally show ?thesis .
  qed
  then show ?case by (simp only: conj_assoc)
qed

subsection \<open>The two searches\<close>

text \<open>The state between two searches, and between two visits of a search.\<close>

definition scc_ready :: "scc \<Rightarrow> bool" where
  "scc_ready c \<longleftrightarrow> gok (scc_graph c) \<and> (\<forall>v. m_epoch (scc_marks c v) \<le> scc_epoch c) \<and> scc_stack c = [] \<and> scc_sccs c = []"

definition top_ok :: "graph \<Rightarrow> (graph_node \<times> graph_node) set \<Rightarrow> scc \<Rightarrow> bool" where
  "top_ok g R s \<longleftrightarrow> search_ok g R {} s \<and> closed_ok R s"

lemma top_stack:
  assumes "top_ok g R s"
  shows "scc_stack s = []"
proof (rule ccontr)
  have ok: "search_ok g R {} s" using assms by (simp add: top_ok_def)
  assume "scc_stack s \<noteq> []"
  then obtain x where "x \<in> set (scc_stack s)" by (cases "scc_stack s") auto
  from ex_has_least_nat[of "\<lambda>x. x \<in> set (scc_stack s)" x "idx s", OF this]
  obtain w where w: "w \<in> set (scc_stack s)" "\<forall>y. y \<in> set (scc_stack s) \<longrightarrow> idx s w \<le> idx s y" by blast
  obtain u where "u \<in> set (scc_stack s)" "idx s u = lnk s w" using searchD(4)[OF ok] w(1) unfolding lnk_ok_def by blast
  then show False using searchD(5)[OF ok w(1)] w(2) by fastforce
qed

lemma top_start:
  assumes "scc_ready c"
  shows "top_ok (scc_graph c) R (start_epoch c)"
proof -
  have "\<not> reached (start_epoch c) v" for v
    using assms by (auto simp: scc_ready_def reached_def start_epoch_def dest!: spec[of _ v])
  moreover have "m_epoch (scc_marks c v) \<le> Suc (scc_epoch c)" for v using assms by (auto simp: scc_ready_def intro: le_SucI)
  ultimately show ?thesis
    using assms by (simp add: top_ok_def search_ok_def closed_ok_def same_graph_def marks_ok_def places_ok_def scc_ready_def)
      (simp add: start_epoch_def unchanged_def)
qed

lemma top_end:
  assumes "top_ok g R s"
  shows "scc_ready (s\<lparr>scc_sccs := []\<rparr>)"
  using top_stack[OF assms] assms by (simp add: top_ok_def search_ok_def same_graph_def marks_ok_def scc_ready_def)

lemma wp_ScVisit:
  fixes full :: bool
  assumes g: "gok g" and ok: "top_ok g (edge_rel full g) s" and v: "is_node g v" "\<not> reached s v"
  defines "R \<equiv> edge_rel full g"
  shows "wp (ScVisit full v) (\<lambda>_ s'. top_ok g R s' \<and> reached s' v \<and> (\<forall>x. reached s x \<longrightarrow> reached s' x)) s"
proof -
  have so: "search_ok g R {} s" "closed_ok R s" using ok by (simp_all add: top_ok_def R_def)
  note ent = level_enter[OF so v]
  have same: "same_graph g (enter v s)" using ent searchD(1) by (auto simp: level_ok_def)
  let ?Q = "\<lambda>s'. top_ok g R s' \<and> reached s' v \<and> (\<forall>x. reached s x \<longrightarrow> reached s' x)"
  have edges: "wp (visit_edges full v ws) (\<lambda>_ t. ?Q (ScPop v t)) (enter v s)" if ws: "set ws = refs full g v" for ws
  proof -
    have "wp (visit_edges full v ws) (\<lambda>_ s'. level_ok g R (insert v {}) v s' \<and> continues R v (enter v s) s' \<and>
        (\<forall>e \<in> set ws. edge_done s' v (target g e))) (enter v s)"
      unfolding R_def by (rule wp_visit_edges[OF g ent[folded R_def, unfolded R_def] _ v(1)]) (use ws in simp_all)
    then show ?thesis
    proof (rule wp_mono, elim conjE)
      fix s2 assume s2: "level_ok g R (insert v {}) v s2" "continues R v (enter v s) s2" "\<forall>e \<in> set ws. edge_done s2 v (target g e)"
      have e: "\<forall>c. (v, c) \<in> R \<longrightarrow> edge_done s2 v c" using s2(3) ws by (auto simp: R_def edge_rel_def)
      have s2': "search_ok g R (insert v {}) s2" "links_up v s2" using s2(1) by (simp_all add: level_ok_def)
      note leave = search_leave[OF so(1) v(2) s2'(1) s2(2) s2'(2) edge_rel_deref[of full g, folded R_def]]
      show "?Q (ScPop v s2)"
        using leave search_closed[OF so(1) v(2) s2(1,2) e] by (simp add: top_ok_def visited_from_def reached_def)
    qed
  qed
  have "wp (out_edges full v) (\<lambda>ws. wp (visit_edges full v ws) (\<lambda>_ t. ?Q (ScPop v t))) (enter v s)"
    by (rule wp_mono[OF wp_out_edges[OF g same v(1)]]) (use edges in blast)
  then show ?thesis by (simp add: ScVisit_def wp_modify_f)
qed

lemma wp_visit_root:
  assumes g: "gok g" and ok: "top_ok g (edge_rel True g) s" and v: "is_node g v"
  shows "wp (visit_root v) (\<lambda>_ s'. top_ok g (edge_rel True g) s' \<and> reached s' v \<and> (\<forall>x. reached s x \<longrightarrow> reached s' x)) s"
  using wp_ScVisit[OF g ok v] ok by (cases "reached s v") (auto simp: visit_root_def)

lemma wp_assert_stack_empty: "scc_stack s = [] \<Longrightarrow> wp assert_stack_empty Q s \<longleftrightarrow> Q () s"
  by (simp add: assert_stack_empty_def)

lemma wp_Full:
  assumes c: "scc_ready c"
  defines "g \<equiv> scc_graph c"
  shows "wp Full (\<lambda>_ s. top_ok g (edge_rel True g) s \<and> (\<forall>v. is_node g v \<longrightarrow> reached s v)) c"
proof -
  let ?R = "edge_rel True g"
  have g: "gok g" using c by (simp add: scc_ready_def g_def)
  let ?sets = "\<lambda>A s. top_ok g ?R s \<and> (\<forall>i \<in> A. i \<in> live g \<longrightarrow> reached s (SetN i))"
  let ?all = "\<lambda>A s. top_ok g ?R s \<and> (\<forall>i \<in> live g. reached s (SetN i)) \<and> (\<forall>d \<in> A. reached s (DerefN d))"
  have graph: "length (g_sets (scc_graph s)) = num g" "length (g_derefs (scc_graph s)) = dnum g" "gok (scc_graph s)" "live (scc_graph s) = live g"
    if "top_ok g ?R s" for s
    using that same_graph_facts[of g s] by (simp_all add: top_ok_def search_ok_def same_graph_def)
  have sets: "wp (ebind (on_graph (GraphGet i)) (\<lambda>p. case p of None \<Rightarrow> ereturn () | Some i \<Rightarrow> visit_root (SetN i)))
      (\<lambda>_. ?sets (insert i A)) s" if i: "i \<in> set [0..<num g]" and s: "?sets A s" for i A s
  proof (cases "i \<in> live g")
    case True
    have "wp (visit_root (SetN i)) (\<lambda>_. ?sets (insert i A)) s"
      by (rule wp_mono[OF wp_visit_root[OF g conjunct1[OF s], of "SetN i"]]) (use True s in \<open>auto simp: is_node_def\<close>)
    then show ?thesis using i graph[OF conjunct1[OF s]] True by (simp add: wp_GraphGet)
  next
    case False
    then show ?thesis using i s graph[OF conjunct1[OF s]] by (simp add: wp_GraphGet)
  qed
  have derefs: "wp (visit_root (DerefN d)) (\<lambda>_. ?all (insert d A)) s" if "d \<in> set [0..<dnum g]" "?all A s" for d A s
    by (rule wp_mono[OF wp_visit_root[OF g conjunct1[OF that(2)], of "DerefN d"]]) (use that in \<open>auto simp: is_node_def\<close>)
  have final: "wp assert_stack_empty (\<lambda>_ s. top_ok g ?R s \<and> (\<forall>v. is_node g v \<longrightarrow> reached s v)) s" if "?all (set [0..<dnum g]) s" for s
    using that by (auto simp: wp_assert_stack_empty[OF top_stack[OF conjunct1[OF that]]] is_node_def split: graph_node.splits)
  have start: "top_ok g ?R (start_epoch c)" using top_start[OF c] by (simp add: g_def)
  let ?rest = "ebind (egets (\<lambda>s. length (g_derefs (scc_graph s)))) (\<lambda>m. ethen (eeach (\<lambda>d. visit_root (DerefN d)) [0..<m]) assert_stack_empty)"
  let ?Q = "\<lambda>s. top_ok g ?R s \<and> (\<forall>v. is_node g v \<longrightarrow> reached s v)"
  have rest: "wp ?rest (\<lambda>_. ?Q) s" if "?sets (set [0..<num g]) s" for s
  proof -
    have s: "top_ok g ?R s" "\<forall>i \<in> live g. reached s (SetN i)" using that live_less by auto
    have "wp (eeach (\<lambda>d. visit_root (DerefN d)) [0..<dnum g]) (\<lambda>_. wp assert_stack_empty (\<lambda>_. ?Q)) s"
      by (rule wp_each_set[where P = ?all]) (use s derefs final in blast)+
    then show ?thesis using graph(2)[OF s(1)] by simp
  qed
  have "wp (eeach (\<lambda>i. ebind (on_graph (GraphGet i)) (\<lambda>p. case p of None \<Rightarrow> ereturn () | Some i \<Rightarrow> visit_root (SetN i))) [0..<num g])
      (\<lambda>_. wp ?rest (\<lambda>_. ?Q)) (start_epoch c)"
    by (rule wp_each_set[where P = ?sets]) (use start sets rest in auto)
  then show ?thesis using graph(1)[OF start] by (simp add: Full_def)
qed

lemma wp_Single:
  assumes c: "scc_ready c" and i: "i \<in> live (scc_graph c)"
  defines "g \<equiv> scc_graph c"
  shows "wp (Single i) (\<lambda>_ s. top_ok g (edge_rel False g) s) c"
proof -
  have g: "gok g" using c by (simp add: scc_ready_def g_def)
  have start: "top_ok g (edge_rel False g) (start_epoch c)" using top_start[OF c] by (simp add: g_def)
  have n: "\<not> reached (start_epoch c) (SetN i)"
    using c by (auto simp: scc_ready_def reached_def start_epoch_def dest!: spec[of _ "SetN i"])
  have v: "is_node g (SetN i)" using i by (simp add: is_node_def g_def)
  show ?thesis
    unfolding Single_def wp_then wp_modify
    by (rule wp_mono[OF wp_ScVisit[OF g start v n]]) (use top_stack in \<open>auto simp: wp_assert_stack_empty\<close>)
qed

text \<open>The groups of a search: the strongly connected components of the nodes it reached that have two nodes or more.\<close>

definition component :: "(graph_node \<times> graph_node) set \<Rightarrow> graph_node \<Rightarrow> graph_node set" where
  "component R x = {y. (x, y) \<in> R\<^sup>* \<and> (y, x) \<in> R\<^sup>*}"

lemma top_groups:
  assumes "top_ok g R s"
  shows "distinct (concat (scc_sccs s))" "gr \<in> set (scc_sccs s) \<Longrightarrow> good_group R gr"
    "gr \<in> set (scc_sccs s) \<Longrightarrow> x \<in> set gr \<Longrightarrow> is_node g x"
    "gr \<in> set (scc_sccs s) \<Longrightarrow> x \<in> set gr \<Longrightarrow> set gr = component R x"
    "reached s x \<Longrightarrow> y \<in> component R x \<Longrightarrow> y \<noteq> x \<Longrightarrow> \<exists>gr \<in> set (scc_sccs s). x \<in> set gr"
proof -
  have so: "search_ok g R {} s" "closed_ok R s" using assms by (simp_all add: top_ok_def)
  note Pl = placesD[OF searchD(3)[OF so(1)]]
  show d: "distinct (concat (scc_sccs s))" using Pl(1) by simp
  show good: "good_group R gr" if "gr \<in> set (scc_sccs s)" for gr using searchD(6)[OF so(1) that] .
  have fin: "inc s x" if "reached s x" for x using Pl(5)[OF that] top_stack[OF assms] by simp
  show "is_node g x" if "gr \<in> set (scc_sccs s)" "x \<in> set gr" for gr x
    using marksD(2)[OF searchD(2)[OF so(1)] Pl(3)] that by auto
  show "\<exists>gr \<in> set (scc_sccs s). x \<in> set gr" if "reached s x" "y \<in> component R x" "y \<noteq> x" for x y
    using closedD(3)[OF so(2) that(1) fin[OF that(1)]] that by (auto simp: component_def)
  show "set gr = component R x" if gr: "gr \<in> set (scc_sccs s)" and x: "x \<in> set gr" for gr x
  proof (intro equalityI subsetI)
    show "y \<in> component R x" if "y \<in> set gr" for y using good[OF gr] x that by (simp add: good_group_def component_def)
    show "y \<in> set gr" if y: "y \<in> component R x" for y
    proof (cases "y = x")
      case False
      have r: "reached s x" using Pl(3) gr x by auto
      obtain gr' where gr': "gr' \<in> set (scc_sccs s)" "x \<in> set gr'" "y \<in> set gr'"
        using closedD(3)[OF so(2) r fin[OF r]] y False by (auto simp: component_def)
      then have "gr' = gr" using d gr x unfolding distinct_concat_iff by blast
      then show ?thesis using gr' by simp
    qed (use x in simp)
  qed
qed

end
