(* ===== verification/PtaSolver.thy ===== *)
theory PtaSolver
  imports PtaScc WorkQueue
begin

text \<open>
  The constraint solver of the points-to analysis (\<^verbatim>\<open>passes/pta/solver.cpp\<close>): the operations that generate
  constraints and the loop that propagates points-to sets until the queue is empty.
\<close>

datatype pta_node = PSet nat | PDeref nat | PRoot nat

record pta =
  pt_scc :: scc
  pt_queue :: work_queue

definition new_pta :: pta where
  "new_pta = \<lparr>pt_scc = \<lparr>scc_graph = empty_graph, scc_epoch = 1, scc_index = 0, scc_marks = (\<lambda>_. new_mark),
     scc_stack = [], scc_sccs = []\<rparr>, pt_queue = wq_empty\<rparr>"

abbreviation in_scc :: "(scc, 'a) eff \<Rightarrow> (pta, 'a) eff" where
  "in_scc \<equiv> on_part pt_scc (\<lambda>c s. s\<lparr>pt_scc := c\<rparr>)"

abbreviation in_graph :: "(graph, 'a) eff \<Rightarrow> (pta, 'a) eff" where
  "in_graph m \<equiv> in_scc (on_graph m)"

definition QPush :: "nat \<Rightarrow> (pta, unit) eff" where
  "QPush i = ebind (egets pt_queue) (\<lambda>q. ebind (elift (Some (Push (of_nat i) q)))
     (\<lambda>q'. emodify (\<lambda>s. s\<lparr>pt_queue := q'\<rparr>)))"

definition QPop :: "(pta, nat) eff" where
  "QPop = ebind (egets pt_queue) (\<lambda>q. ebind (elift (Some (Pop q)))
     (\<lambda>(q', i). ethen (emodify (\<lambda>s. s\<lparr>pt_queue := q'\<rparr>)) (ereturn (unat i))))"

subsection \<open>Constraints\<close>

text \<open>\<^verbatim>\<open>Node::ToGraph\<close>, as the identifier of a set or of a dereferencing node.\<close>

definition ToGraph :: "pta_node \<Rightarrow> (pta, graph_node) eff" where
  "ToGraph p = (case p of PSet i \<Rightarrow> ereturn (SetN i) | PDeref d \<Rightarrow> ereturn (DerefN d)
     | PRoot r \<Rightarrow> ebind (in_graph (RootSet r)) (\<lambda>i. ereturn (SetN i)))"

definition CsDeref :: "nat \<Rightarrow> (pta, nat) eff" where
  "CsDeref i = ethen (QPush i) (in_graph (GraphDeref i))"

definition Load :: "pta_node \<Rightarrow> (pta, nat) eff" where
  "Load ptr = ebind (ToGraph ptr) (\<lambda>v.
     ebind (case v of SetN i \<Rightarrow> ereturn i | DerefN d \<Rightarrow> in_graph (Contents d)) (\<lambda>i.
       ebind (in_graph (the_set i)) (\<lambda>n. case sn_deref n of Some d \<Rightarrow> ereturn d | None \<Rightarrow> CsDeref i)))"

definition Subset :: "pta_node \<Rightarrow> pta_node \<Rightarrow> (pta, unit) eff" where
  "Subset from to = ebind (ToGraph from) (\<lambda>f. ebind (ToGraph to) (\<lambda>t.
     case f of
       SetN i \<Rightarrow> ethen (QPush i)
         (case t of
            SetN j \<Rightarrow> ebind (in_graph (SetAddSet i j)) (\<lambda>_. ereturn ())
          | DerefN e \<Rightarrow> ebind (in_graph (the_deref e)) (\<lambda>n. ethen (QPush (dn_node n))
              (ebind (in_graph (SetAddDeref i e)) (\<lambda>_. ereturn ()))))
     | DerefN d \<Rightarrow> ebind (in_graph (the_deref d)) (\<lambda>m. ethen (QPush (dn_node m))
         (case t of
            SetN j \<Rightarrow> ebind (in_graph (DerefAddSet d j)) (\<lambda>_. ereturn ())
          | DerefN e \<Rightarrow> ebind (in_graph (the_deref e)) (\<lambda>n. ethen (QPush (dn_node n))
              (ebind (in_graph (Contents d)) (\<lambda>c. ebind (in_graph (SetAddDeref c e)) (\<lambda>_. ereturn ()))))))))"

definition Store :: "pta_node \<Rightarrow> pta_node \<Rightarrow> (pta, unit) eff" where
  "Store ptr val = ebind (Load ptr) (\<lambda>d. Subset val (PDeref d))"

definition CsRoot :: "(pta, nat) eff" where
  "CsRoot = in_graph (ebind GraphSet GraphRoot)"

definition Alloc :: "(pta, nat) eff" where
  "Alloc = in_graph (ebind GraphSet (\<lambda>i. ebind GraphSet (\<lambda>j. ethen (AddNode i j) (ereturn i))))"

definition Anchor :: "pta_node \<Rightarrow> (pta, nat) eff" where
  "Anchor p = (case p of PRoot r \<Rightarrow> ereturn r | PSet i \<Rightarrow> in_graph (GraphRoot i)
     | PDeref d \<Rightarrow> in_graph (ebind (Contents d) GraphRoot))"

subsection \<open>Traversals with fixups\<close>

text \<open>
  \<^verbatim>\<open>sets\<close>, \<^verbatim>\<open>points_to_node\<close>, \<^verbatim>\<open>set_ins\<close> and \<^verbatim>\<open>set_outs\<close>: the callback is called on every identifier; those
  it answers with another one are replaced at the end.
\<close>

definition collect :: "(nat \<Rightarrow> ('s, nat) eff) \<Rightarrow> bitset \<Rightarrow> ('s, (nat \<times> nat) list) eff" where
  "collect f s = ebind (each_of s) (efold (\<lambda>fixups i. ebind (f i) (\<lambda>j.
     ereturn (if j \<noteq> i then fixups @ [(i, j)] else fixups))) [])"

definition fix_bits :: "(nat \<times> nat) list \<Rightarrow> bitset \<Rightarrow> ('s, bitset) eff" where
  "fix_bits fixups s = efold (\<lambda>s (i, j). ebind (elift (Some (Erase s i))) (\<lambda>s'. ereturn (fst (Insert s' j)))) s fixups"

definition points_to_node :: "nat \<Rightarrow> (nat \<Rightarrow> (pta, nat) eff) \<Rightarrow> (pta, unit) eff" where
  "points_to_node i f = ebind (in_graph (the_set i)) (\<lambda>n. ebind (collect f (sn_nodes n)) (\<lambda>fixups.
     ebind (in_graph (the_set i)) (\<lambda>n. ebind (fix_bits fixups (sn_nodes n)) (\<lambda>s.
       in_graph (put_set i (n\<lparr>sn_nodes := s\<rparr>))))))"

definition set_ins :: "nat \<Rightarrow> (nat \<Rightarrow> (pta, nat) eff) \<Rightarrow> (pta, unit) eff" where
  "set_ins d f = ebind (in_graph (the_deref d)) (\<lambda>n. ebind (collect f (dn_setIns n)) (\<lambda>fixups.
     ebind (in_graph (the_deref d)) (\<lambda>n. ebind (fix_bits fixups (dn_setIns n)) (\<lambda>s.
       in_graph (put_deref d (n\<lparr>dn_setIns := s\<rparr>))))))"

definition set_outs :: "nat \<Rightarrow> (nat \<Rightarrow> (pta, nat) eff) \<Rightarrow> (pta, unit) eff" where
  "set_outs d f = ebind (in_graph (the_deref d)) (\<lambda>n. ebind (collect f (dn_setOuts n)) (\<lambda>fixups.
     ebind (in_graph (the_deref d)) (\<lambda>n. ebind (fix_bits fixups (dn_setOuts n)) (\<lambda>s.
       in_graph (put_deref d (n\<lparr>dn_setOuts := s\<rparr>))))))"

subsection \<open>Solving\<close>

text \<open>The sets of a group are united one after the other.\<close>

definition unite_group :: "graph_node list \<Rightarrow> (pta, nat option) eff" where
  "unite_group grp = efold (\<lambda>united v. case v of
       SetN i \<Rightarrow> ebind (in_graph (GraphUnion united i)) (\<lambda>u. ereturn (Some u))
     | DerefN _ \<Rightarrow> ereturn united) None grp"

text \<open>\<^verbatim>\<open>united->GetID()\<close>.\<close>

definition the_id :: "nat option \<Rightarrow> ('s, nat) eff" where
  "the_id u = (case u of Some i \<Rightarrow> ereturn i | None \<Rightarrow> efail BadIterator)"

text \<open>The callback of the search of the whole graph; the map says with what the targets of a node are unified.\<close>

definition offline_group :: "(nat \<Rightarrow> nat option) \<Rightarrow> graph_node list \<Rightarrow> (pta, nat \<Rightarrow> nat option) eff" where
  "offline_group collapse grp = ebind (unite_group grp) (\<lambda>united.
     ebind (efold (\<lambda>collapse v. case v of
         DerefN d \<Rightarrow> ebind (the_id united) (\<lambda>i. ereturn (collapse(d := Some i)))
       | SetN _ \<Rightarrow> ereturn collapse) collapse grp) (\<lambda>collapse.
     ebind (the_id united) (\<lambda>i. ethen (QPush i) (ereturn collapse))))"

definition Offline :: "(pta, nat \<Rightarrow> nat option) eff" where
  "Offline = ethen (in_scc Full) (ebind (in_scc TakeGroups) (efold offline_group (\<lambda>_. None)))"

definition online_group :: "graph_node list \<Rightarrow> (pta, unit) eff" where
  "online_group grp = ebind (unite_group grp) (\<lambda>united. ebind (the_id united) QPush)"

text \<open>
  Hybrid cycle detection: all a node points to is united with the node that its dereferencing node was in a
  cycle with. The answer is whether the node itself was merged into another one.
\<close>

definition merge_pointees :: "nat \<Rightarrow> nat \<Rightarrow> (pta, bool) eff" where
  "merge_pointees from target = ebind (in_graph (GraphFind target)) (\<lambda>u.
     ebind (in_graph (the_set from)) (\<lambda>n. ebind (each_of (sn_nodes n)) (\<lambda>ids.
     ebind (efold (\<lambda>(mergeFrom, united) i. ebind (in_graph (GraphFind i)) (\<lambda>v.
         if v = from then ereturn (True, united)
         else ebind (in_graph (GraphUnion united v)) (\<lambda>u. ereturn (mergeFrom, Some u))))
       (if u = from then (True, None) else (False, Some u)) ids) (\<lambda>(mergeFrom, united).
     if mergeFrom then ebind (in_graph (GraphUnion united from)) (\<lambda>u.
         if u \<noteq> from then ethen (QPush u) (ereturn True) else ereturn False)
       else ereturn False))))"

text \<open>A node that is stored through or loaded from the node \<open>v\<close> that a pointer may point to.\<close>

definition add_store :: "nat \<Rightarrow> nat \<Rightarrow> (pta, nat) eff" where
  "add_store v storeID = ebind (in_graph (GraphFind storeID)) (\<lambda>store.
     ebind (in_graph (SetAddSet store v)) (\<lambda>added. ethen (ewhen added (QPush store)) (ereturn store)))"

definition add_load :: "nat \<Rightarrow> nat \<Rightarrow> (pta, nat) eff" where
  "add_load v loadID = ebind (in_graph (GraphFind loadID)) (\<lambda>load.
     ebind (in_graph (SetAddSet v load)) (\<lambda>added. ethen (ewhen added (QPush v)) (ereturn load)))"

definition add_edges :: "nat \<Rightarrow> nat \<Rightarrow> (pta, unit) eff" where
  "add_edges from deref = points_to_node from (\<lambda>i. ebind (in_graph (GraphFind i)) (\<lambda>v.
     ethen (set_ins deref (add_store v)) (ethen (set_outs deref (add_load v)) (ereturn v))))"

text \<open>
  The callback of the propagation; \<open>visited\<close> and the request to collapse are variables it captures, which
  the loop carries along.
\<close>

definition propagate_to :: "nat \<Rightarrow> nat \<Rightarrow> (nat \<times> nat) list \<times> bool \<Rightarrow> (pta, nat \<times> (nat \<times> nat) list \<times> bool) eff" where
  "propagate_to from toID vc = ebind (in_graph (GraphFind toID)) (\<lambda>to.
     if to = from then ereturn (to, vc)
     else ebind (in_graph (SetEquals from to)) (\<lambda>eq.
       let vc' = (if eq \<and> (from, to) \<notin> set (fst vc) then ((from, to) # fst vc, True) else vc)
       in ebind (in_graph (Propagate from to)) (\<lambda>changed. ethen (ewhen changed (QPush to)) (ereturn (to, vc')))))"

definition propagate :: "nat \<Rightarrow> (nat \<times> nat) list \<Rightarrow> (pta, (nat \<times> nat) list \<times> bool) eff" where
  "propagate from visited = ebind (in_graph (the_set from)) (\<lambda>n. ebind (each_of (sn_sets n)) (\<lambda>ids.
     ebind (efold (\<lambda>(fixups, vc) i. ebind (propagate_to from i vc) (\<lambda>(j, vc').
         ereturn (if j \<noteq> i then fixups @ [(i, j)] else fixups, vc'))) ([], (visited, False)) ids) (\<lambda>(fixups, vc).
     ebind (in_graph (the_set from)) (\<lambda>n. ebind (fix_bits fixups (sn_sets n)) (\<lambda>s.
       ethen (in_graph (put_set from (n\<lparr>sn_sets := s\<rparr>))) (ereturn vc))))))"

definition solve_node :: "(nat \<Rightarrow> nat option) \<Rightarrow> (nat \<times> nat) list \<Rightarrow> nat \<Rightarrow> (pta, (nat \<times> nat) list) eff" where
  "solve_node collapse visited from = ebind (in_graph (the_set from)) (\<lambda>n.
     ebind (case sn_deref n of None \<Rightarrow> ereturn False
       | Some deref \<Rightarrow> ebind (case collapse deref of None \<Rightarrow> ereturn False | Some target \<Rightarrow> merge_pointees from target)
           (\<lambda>merged. ethen (ewhen (\<not> merged) (add_edges from deref)) (ereturn merged))) (\<lambda>merged.
     if merged then ereturn visited
     else ebind (propagate from visited) (\<lambda>(visited', collapsing).
       ethen (ewhen collapsing (ethen (in_scc (Single from)) (ebind (in_scc TakeGroups) (eeach online_group))))
         (ereturn visited'))))"

partial_function (option) solve_queue :: "(nat \<Rightarrow> nat option) \<Rightarrow> (nat \<times> nat) list \<Rightarrow> (pta, unit) eff" where
  "solve_queue collapse visited s =
     (if QueueEmpty (pt_queue s) then ereturn () s
      else ebind QPop (\<lambda>i. ebind (in_graph (GraphGet i)) (\<lambda>p.
        ebind (case p of None \<Rightarrow> ereturn visited | Some from \<Rightarrow> solve_node collapse visited from) (\<lambda>visited'.
          solve_queue collapse visited'))) s)"

definition Solve :: "(pta, unit) eff" where
  "Solve = ebind Offline (\<lambda>collapse. solve_queue collapse [])"

end
