(* ===== verification/PtaSpec.thy ===== *)
theory PtaSpec
  imports PtaCycles PtaSolver
begin

text \<open>
  What the constraint graph and its solver promise, stated for a caller.
\<close>

lemma wp_run: "wp m Q s \<Longrightarrow> \<exists>x s'. m s = Some (returns (x, s')) \<and> Q x s'"
  by (auto simp: wp_def)

text \<open>The graph a program builds from the empty one.\<close>

definition built :: "(graph, 'a) eff \<Rightarrow> graph" where
  "built m = (case m empty_graph of Some (Inr (_, g)) \<Rightarrow> g | _ \<Rightarrow> empty_graph)"

lemma built_wp: "wp m (\<lambda>_ g. P g) empty_graph \<Longrightarrow> P (built m)"
  by (auto simp: built_def wp_def)

lemma gok_empty: "gok empty_graph" "num empty_graph = 0" "dnum empty_graph = 0" "g_roots empty_graph = []"
  "live empty_graph = {}"
  by (auto simp: gok_def graph_ok_def links_ok_def stores_ok_def empty_graph_def roots_def forest_def uint32_max_def)

text \<open>A pointer to a second node, and a third node beside them.\<close>

definition two_nodes :: graph where
  "two_nodes = built (ethen GraphSet (ethen GraphSet (AddNode 0 1)))"

lemma two_nodes_ok: "gok two_nodes \<and> live two_nodes = {0, 1} \<and> s_pts (view two_nodes) 0 = {1} \<and> s_pts (view two_nodes) 1 = {}"
  unfolding two_nodes_def
proof (rule built_wp)
  let ?v = "view empty_graph"
  have v: "s_pts ?v 0 = {}" "s_pts ?v 1 = {}" by (simp_all add: view_def of_live_def gok_empty)
  show "wp (ethen GraphSet (ethen GraphSet (AddNode 0 1)))
     (\<lambda>_ g. gok g \<and> live g = {0, 1} \<and> s_pts (view g) 0 = {1} \<and> s_pts (view g) 1 = {}) empty_graph"
    unfolding wp_then
  proof (rule wp_mono[OF wp_GraphSet[OF gok_empty(1)]])
    show "num empty_graph < uint32_max" by (simp add: gok_empty uint32_max_def)
    fix i g assume *: "i = num empty_graph \<and> gok g \<and> view g = ?v\<lparr>s_num := Suc (num empty_graph), s_live := insert (num empty_graph) (live empty_graph)\<rparr>"
    then have g: "num g = 1" "live g = {0}" "gok g" "s_pts (view g) = s_pts ?v"
      using view_simps(1,4)[of g] by (simp_all add: gok_empty)
    show "wp GraphSet (\<lambda>_ h. wp (AddNode 0 1) (\<lambda>_ g. gok g \<and> live g = {0, 1} \<and> s_pts (view g) 0 = {1} \<and> s_pts (view g) 1 = {}) h) g"
    proof (rule wp_mono[OF wp_GraphSet[OF g(3)]])
      show "num g < uint32_max" by (simp add: g uint32_max_def)
      fix j h assume *: "j = num g \<and> gok h \<and> view h = (view g)\<lparr>s_num := Suc (num g), s_live := insert (num g) (live g)\<rparr>"
      then have h: "num h = 2" "live h = {0, 1}" "gok h" "s_pts (view h) = s_pts ?v"
        using view_simps(1,4)[of h] g by auto
      show "wp (AddNode 0 1) (\<lambda>_ g. gok g \<and> live g = {0, 1} \<and> s_pts (view g) 0 = {1} \<and> s_pts (view g) 1 = {}) h"
      proof (rule wp_mono[OF wp_AddNode[OF h(3)]])
        fix u k assume *: "gok k \<and> view k = (view h)\<lparr>s_pts := (s_pts (view h))(0 := insert 1 (s_pts (view h) 0))\<rparr>"
        then show "gok k \<and> live k = {0, 1} \<and> s_pts (view k) 0 = {1} \<and> s_pts (view k) 1 = {}"
          using view_simps(4)[of k] h v by (simp add: numeral_2_eq_2)
      qed (use h in auto)
    qed
  qed
qed

text \<open>
  Merging two nodes of a constraint graph never fails: one of them stands for both
  afterwards, with their edges and their points-to sets, the loads and stores through the other are moved to its
  dereferencing node, no other node changes and the invariant of the containers holds again.
\<close>

theorem GraphUnion_refines:
  assumes "gok g" "a \<in> live g" "b \<in> live g" "a \<noteq> b"
  shows "\<exists>r c g'. GraphUnion (Some a) b g = Some (returns (r, g')) \<and> gok g' \<and> {r, c} = {a, b} \<and>
    view g' = merged c r (view g)"
proof -
  have "wp (GraphUnion (Some a) b) (\<lambda>r g'. gok g' \<and> r \<in> live g' \<and>
      (r = a \<and> view g' = merged b a (view g) \<or> r = b \<and> view g' = merged a b (view g))) g"
    using wp_Union[OF assms(1,3), of "Some a"] assms by simp
  from wp_run[OF this] obtain r g' where run: "GraphUnion (Some a) b g = Some (returns (r, g'))" "gok g'"
      "r = a \<and> view g' = merged b a (view g) \<or> r = b \<and> view g' = merged a b (view g)" by blast
  then have "\<exists>c. {r, c} = {a, b} \<and> view g' = merged c r (view g)" by (auto simp: insert_commute)
  then show ?thesis using run(1,2) by blast
qed

theorem GraphUnion_refines_witness:
  "\<exists>r c g'. GraphUnion (Some 0) 1 two_nodes = Some (returns (r, g')) \<and> gok g' \<and> {r, c} = {0, 1} \<and>
    s_pts (view g') r = {1}"
proof -
  note ok = two_nodes_ok
  have "\<exists>r c g'. GraphUnion (Some 0) 1 two_nodes = Some (returns (r, g')) \<and> gok g' \<and> {r, c} = {0, 1} \<and>
      view g' = merged c r (view two_nodes)"
    by (rule GraphUnion_refines) (use ok in simp_all)
  then obtain r c g' where *: "GraphUnion (Some 0) 1 two_nodes = Some (returns (r, g'))" "gok g'" "{r, c} = {0, 1}"
      "view g' = merged c r (view two_nodes)" by blast
  have rc: "r = 0 \<and> c = 1 \<or> r = 1 \<and> c = 0" using *(3) by (simp add: doubleton_eq_iff)
  then have "s_pts (merged c r v) r = s_pts v 0 \<union> s_pts v 1" for v by (elim disjE) (simp_all add: merged_def Un_commute)
  then have "s_pts (view g') r = s_pts (view two_nodes) 0 \<union> s_pts (view two_nodes) 1" unfolding *(4) .
  also have "\<dots> = {1}" using ok by (simp only: Un_empty_right)
  finally have p: "s_pts (view g') r = {1}" .
  show ?thesis by (rule exI[of _ r], rule exI[of _ c], rule exI[of _ g']) (rule conjI[OF *(1) conjI[OF *(2) conjI[OF *(3) p]]])
qed

subsection \<open>Cycles\<close>

text \<open>Two sets with an edge each way.\<close>

definition two_cycle :: graph where
  "two_cycle = built (ethen GraphSet (ethen GraphSet (ethen (SetAddSet 0 1) (SetAddSet 1 0))))"

lemma two_cycle_ok: "gok two_cycle \<and> live two_cycle = {0, 1} \<and> dnum two_cycle = 0 \<and>
    s_succ (view two_cycle) 0 = {1} \<and> s_succ (view two_cycle) 1 = {0} \<and> num two_cycle = 2"
  unfolding two_cycle_def
proof (rule built_wp)
  let ?v = "view empty_graph"
  let ?Q = "\<lambda>g. gok g \<and> live g = {0, 1} \<and> dnum g = 0 \<and> s_succ (view g) 0 = {1} \<and> s_succ (view g) 1 = {0} \<and> num g = 2"
  have v: "s_succ ?v 0 = {}" "s_succ ?v 1 = {}" by (simp_all add: view_def of_live_def gok_empty)
  have add: "wp (SetAddSet i j) (\<lambda>_ h. gok h \<and> view h = (view g)\<lparr>s_succ := (s_succ (view g))(i := insert j (s_succ (view g) i))\<rparr>) g"
    if "gok g" "i \<in> live g" "j < num g" for g i j
    by (rule wp_mono[OF wp_SetAddSet[OF gokD(1)[OF that(1)] that(2,3)]]) (simp add: gok_def gokD(2,3)[OF that(1)])
  have new: "wp GraphSet (\<lambda>_ h. gok h \<and> view h = (view g)\<lparr>s_num := Suc (num g), s_live := insert (num g) (live g)\<rparr>) g"
    if "gok g" "num g < uint32_max" for g
    by (rule wp_mono[OF wp_GraphSet[OF that]]) simp
  have two: "wp (ethen GraphSet GraphSet) (\<lambda>_ g. gok g \<and> view g = ?v\<lparr>s_num := 2, s_live := {0, 1}\<rparr>) empty_graph"
    unfolding wp_then
  proof (rule wp_mono[OF new[OF gok_empty(1)]])
    fix g assume "gok g \<and> view g = ?v\<lparr>s_num := Suc (num empty_graph), s_live := insert (num empty_graph) (live empty_graph)\<rparr>"
    then have g: "gok g" "view g = ?v\<lparr>s_num := 1, s_live := {0}\<rparr>" by (simp_all add: gok_empty)
    then have n: "num g = 1" "live g = {0}" using view_simps(1,4)[of g] by simp_all
    show "wp GraphSet (\<lambda>_ g. gok g \<and> view g = ?v\<lparr>s_num := 2, s_live := {0, 1}\<rparr>) g"
      by (rule wp_mono[OF new[OF g(1)]]) (use g n in \<open>auto simp: uint32_max_def insert_commute\<close>)
  qed (simp add: gok_empty uint32_max_def)
  have edges: "wp (ethen (SetAddSet 0 1) (SetAddSet 1 0)) (\<lambda>_. ?Q) g" if "gok g" "view g = ?v\<lparr>s_num := 2, s_live := {0, 1}\<rparr>" for g
    unfolding wp_then
  proof (rule wp_mono[OF add[OF that(1)]])
    have n: "num g = 2" "live g = {0, 1}" using that(2) view_simps(1,4)[of g] by simp_all
    then show "0 \<in> live g" "1 < num g" by simp_all
    fix h assume "gok h \<and> view h = (view g)\<lparr>s_succ := (s_succ (view g))(0 := insert 1 (s_succ (view g) 0))\<rparr>"
    then have h: "gok h" "view h = ?v\<lparr>s_num := 2, s_live := {0, 1}, s_succ := (s_succ ?v)(0 := {1})\<rparr>" using that(2) v by simp_all
    then have n: "num h = 2" "live h = {0, 1}" using view_simps(1,4)[of h] by simp_all
    show "wp (SetAddSet 1 0) (\<lambda>_. ?Q) h"
    proof (rule wp_mono[OF add[OF h(1)]])
      fix k assume k: "gok k \<and> view k = (view h)\<lparr>s_succ := (s_succ (view h))(1 := insert 0 (s_succ (view h) 1))\<rparr>"
      have "s_dnum ?v = 0" by (simp add: gok_empty)
      then show "?Q k" using k h v view_simps(1,2,4)[of k] by simp
    qed (use n in auto)
  qed
  have "wp (ethen GraphSet GraphSet) (\<lambda>_. wp (ethen (SetAddSet 0 1) (SetAddSet 1 0)) (\<lambda>_. ?Q)) empty_graph"
    by (rule wp_mono[OF two]) (use edges in blast)
  then show "wp (ethen GraphSet (ethen GraphSet (ethen (SetAddSet 0 1) (SetAddSet 1 0)))) (\<lambda>_. ?Q) empty_graph" by simp
qed

text \<open>
  The search of the whole graph always ends without a failed assertion, leaves the graph as it was, and the
  groups it hands out are exactly the strongly connected components with at least two nodes, each once.
\<close>

theorem Full_finds_components:
  assumes "scc_ready c"
  shows "\<exists>gs c'. ethen Full TakeGroups c = Some (returns (gs, c')) \<and> scc_ready c' \<and> view (scc_graph c') = view (scc_graph c) \<and>
    distinct (concat gs) \<and>
    set ` set gs = {C. \<exists>v. is_node (scc_graph c) v \<and> C = component (edge_rel True (scc_graph c)) v \<and> 2 \<le> card C}"
proof -
  let ?g = "scc_graph c" and ?R = "edge_rel True (scc_graph c)"
  have "wp (ethen Full TakeGroups) (\<lambda>gs c'. \<exists>s. c' = s\<lparr>scc_sccs := []\<rparr> \<and> gs = scc_sccs s \<and> top_ok ?g ?R s \<and>
      (\<forall>v. is_node ?g v \<longrightarrow> reached s v)) c"
    unfolding wp_then by (rule wp_mono[OF wp_Full[OF assms]]) (auto simp: TakeGroups_def)
  from wp_run[OF this] obtain gs c' s where run: "ethen Full TakeGroups c = Some (returns (gs, c'))"
    and s: "c' = s\<lparr>scc_sccs := []\<rparr>" "gs = scc_sccs s" "top_ok ?g ?R s" "\<And>v. is_node ?g v \<Longrightarrow> reached s v" by blast
  note G = top_groups[OF s(3), folded s(2)]
  have "view (scc_graph c') = view ?g"
    using s(1,3) by (simp add: top_ok_def search_ok_def same_graph_def unchanged_def)
  moreover have "set ` set gs = {C. \<exists>v. is_node ?g v \<and> C = component ?R v \<and> 2 \<le> card C}"
  proof (intro equalityI subsetI CollectI)
    fix C assume "C \<in> set ` set gs"
    then obtain gr where gr: "gr \<in> set gs" "C = set gr" by blast
    then obtain x where x: "x \<in> set gr" "2 \<le> length gr" using G(2)[OF gr(1)] by (cases gr) (auto simp: good_group_def)
    have "card (set gr) = length gr" using G(1) gr(1) by (simp add: distinct_concat_iff distinct_card)
    then show "\<exists>v. is_node ?g v \<and> C = component ?R v \<and> 2 \<le> card C" using G(3,4)[OF gr(1) x(1)] gr(2) x(2) by auto
  next
    fix C assume "C \<in> {C. \<exists>v. is_node ?g v \<and> C = component ?R v \<and> 2 \<le> card C}"
    then obtain v where v: "is_node ?g v" "C = component ?R v" "2 \<le> card C" by blast
    have "\<not> C \<subseteq> {v}" using v(3) card_mono[of "{v}" C] by auto
    then obtain y where "y \<in> component ?R v" "y \<noteq> v" using v(2) by blast
    then obtain gr where "gr \<in> set gs" "v \<in> set gr" using G(5)[OF s(4)[OF v(1)]] by blast
    then show "C \<in> set ` set gs" using G(4) v(2) by auto
  qed
  ultimately show ?thesis using run G(1) top_end[OF s(3)] s(1) by blast
qed

theorem Full_finds_components_witness:
  "\<exists>gs c'. ethen Full TakeGroups \<lparr>scc_graph = two_cycle, scc_epoch = 1, scc_index = 0, scc_marks = (\<lambda>_. new_mark), scc_stack = [], scc_sccs = []\<rparr>
     = Some (returns (gs, c')) \<and> set ` set gs = {{SetN 0, SetN 1}}"
proof -
  let ?c = "\<lparr>scc_graph = two_cycle, scc_epoch = 1, scc_index = 0, scc_marks = (\<lambda>_. new_mark), scc_stack = [], scc_sccs = []\<rparr>"
  note t = two_cycle_ok
  have ready: "scc_ready ?c" using t by (simp add: scc_ready_def new_mark_def)
  let ?R = "edge_rel True two_cycle"
  have node: "is_node two_cycle v \<longleftrightarrow> v = SetN 0 \<or> v = SetN 1" for v using t by (cases v) (auto simp: is_node_def)
  have e: "(SetN 0, SetN 1) \<in> ?R" "(SetN 1, SetN 0) \<in> ?R"
  proof -
    have l: "i \<in> live two_cycle \<Longrightarrow> grep two_cycle i = i" for i using grep_id[OF gokD(1)] t by blast
    have "1 \<in> bits (sn_sets (sn two_cycle 0))" "0 \<in> bits (sn_sets (sn two_cycle 1))"
      using t view_simps(5)[of 0 two_cycle] view_simps(5)[of 1 two_cycle] by auto
    then have "SetN 1 \<in> refs True two_cycle (SetN 0)" "SetN 0 \<in> refs True two_cycle (SetN 1)" by (auto simp: refs_def)
    then show "(SetN 0, SetN 1) \<in> ?R" "(SetN 1, SetN 0) \<in> ?R"
      using l[of 0] l[of 1] t node unfolding edge_rel_def by (force simp: target_def)+
  qed
  have closed: "is_node two_cycle y" if "(x, y) \<in> ?R\<^sup>*" "is_node two_cycle x" for x y
    using that
  proof (induction rule: rtrancl_induct)
    case (step y z)
    then obtain e where "is_node two_cycle y" "e \<in> refs True two_cycle y" "z = target two_cycle e" by (auto simp: edge_rel_def)
    then show ?case using target_ok[OF conjunct1[OF t] ref_ok[OF conjunct1[OF t]]] by blast
  qed simp
  have c: "component ?R v = {SetN 0, SetN 1}" if "is_node two_cycle v" for v
    using that closed[of v] e unfolding component_def node by (auto intro: r_into_rtrancl)
  have C: "{C. \<exists>v. is_node two_cycle v \<and> C = component ?R v \<and> 2 \<le> card C} = {{SetN 0, SetN 1}}"
  proof (intro equalityI subsetI)
    show "C \<in> {{SetN 0, SetN 1}}" if "C \<in> {C. \<exists>v. is_node two_cycle v \<and> C = component ?R v \<and> 2 \<le> card C}" for C
      using that c by blast
    have n: "is_node two_cycle (SetN 0)" by (simp add: node)
    have "2 \<le> card {SetN 0, SetN 1}" by simp
    then show "C \<in> {C. \<exists>v. is_node two_cycle v \<and> C = component ?R v \<and> 2 \<le> card C}" if "C \<in> {{SetN 0, SetN 1}}" for C
      using that c[OF n] n by (intro CollectI exI[of _ "SetN 0"]) (simp only: singleton_iff simp_thms)
  qed
  from Full_finds_components[OF ready] obtain gs c' where run: "ethen Full TakeGroups ?c = Some (returns (gs, c'))"
    and gs: "set ` set gs = {C. \<exists>v. is_node (scc_graph ?c) v \<and> C = component (edge_rel True (scc_graph ?c)) v \<and> 2 \<le> card C}"
    by (elim exE conjE)
  have "set ` set gs = {{SetN 0, SetN 1}}" using gs unfolding scc.select_convs C .
  then show ?thesis by (intro exI[of _ gs] exI[of _ c'] conjI[OF run])
qed

end
