(* ===== verification/ByteStream.thy ===== *)
theory ByteStream
  imports Prelude
begin

text \<open>
  The primitives of the binary format (\<^verbatim>\<open>Emit\<close>, \<^verbatim>\<open>ReadData\<close> and \<^verbatim>\<open>ReadString\<close> of
  \<^verbatim>\<open>core/bitcode_writer.cpp\<close> and \<^verbatim>\<open>core/bitcode_reader.cpp\<close>). A writer gives the bytes it appends to the
  stream, a reader takes the bytes behind the offset and gives a value with the bytes it left. The relation
  \<open>codes\<close> states that a reader takes exactly the bytes of a writer, and refuses every file cut inside of them.
\<close>

type_synonym byte = "8 word"

type_synonym 'a reader = "byte list \<Rightarrow> ('a \<times> byte list) result"

type_synonym writer = "byte list result"

subsection \<open>Sequences\<close>

definition rreturn :: "'a \<Rightarrow> 'a reader" where
  "rreturn x s = returns (x, s)"

definition rfail :: "failure \<Rightarrow> 'a reader" where
  "rfail e s = Inl e"

definition rbind :: "'a reader \<Rightarrow> ('a \<Rightarrow> 'b reader) \<Rightarrow> 'b reader" where
  "rbind r f s = (case r s of Inl e \<Rightarrow> Inl e | Inr (x, s') \<Rightarrow> f x s')"

definition emits :: "byte list \<Rightarrow> writer" where
  "emits bs = returns bs"

definition cat :: "writer \<Rightarrow> writer \<Rightarrow> writer" where
  "cat a b = (case a of Inl e \<Rightarrow> Inl e | Inr x \<Rightarrow> (case b of Inl e \<Rightarrow> Inl e | Inr y \<Rightarrow> returns (x @ y)))"

fun wlist :: "('a \<Rightarrow> writer) \<Rightarrow> 'a list \<Rightarrow> writer" where
  "wlist wr [] = emits []"
| "wlist wr (x # xs) = cat (wr x) (wlist wr xs)"

text \<open>A counted loop that carries a state.\<close>

fun read_loop :: "nat \<Rightarrow> ('s \<Rightarrow> ('a \<times> 's) reader) \<Rightarrow> 's \<Rightarrow> ('a list \<times> 's) reader" where
  "read_loop 0 rd st = rreturn ([], st)"
| "read_loop (Suc n) rd st =
     rbind (rd st) (\<lambda>(x, st'). rbind (read_loop n rd st') (\<lambda>(xs, st''). rreturn (x # xs, st'')))"

fun read_times :: "nat \<Rightarrow> 'a reader \<Rightarrow> 'a list reader" where
  "read_times 0 rd = rreturn []"
| "read_times (Suc n) rd = rbind rd (\<lambda>x. rbind (read_times n rd) (\<lambda>xs. rreturn (x # xs)))"

subsection \<open>Integers and strings\<close>

text \<open>Little endian, one byte for each eight bits of the type.\<close>

definition le_bytes :: "'a::len word \<Rightarrow> byte list" where
  "le_bytes w = map (\<lambda>k. ucast (drop_bit (8 * k) w)) [0..<LENGTH('a) div 8]"

definition of_le_bytes :: "byte list \<Rightarrow> 'a::len word" where
  "of_le_bytes bs = foldr (\<lambda>b w. ucast b OR push_bit 8 w) bs 0"

definition Emit :: "'a::len word \<Rightarrow> writer" where
  "Emit w = emits (le_bytes w)"

definition ReadData :: "('a::len word) reader" where
  "ReadData s =
     (let n = LENGTH('a) div 8 in
      if length s < n then Inl FatalError else returns (of_le_bytes (take n s), drop n s))"

definition EmitString :: "byte list \<Rightarrow> writer" where
  "EmitString str = cat (Emit (word_of_nat (length str) :: 32 word)) (emits str)"

definition ReadString :: "byte list reader" where
  "ReadString = rbind ReadData (\<lambda>size :: 32 word. \<lambda>s.
     if length s < unat size then Inl FatalError else returns (take (unat size) s, drop (unat size) s))"

text \<open>\<^verbatim>\<open>Emit<uint8_t>\<close> of a \<^verbatim>\<open>bool\<close>, and its test.\<close>

definition EmitBool :: "bool \<Rightarrow> writer" where
  "EmitBool b = Emit (of_bool b :: 8 word)"

definition ReadBool :: "bool reader" where
  "ReadBool = rbind ReadData (\<lambda>b :: 8 word. rreturn (b \<noteq> 0))"

subsection \<open>A reader takes exactly what a writer emits\<close>

definition codes :: "writer \<Rightarrow> 'a reader \<Rightarrow> 'a \<Rightarrow> bool" where
  "codes w rd x \<longleftrightarrow> (\<exists>bs. w = returns bs \<and> (\<forall>rest. rd (bs @ rest) = returns (x, rest)) \<and>
     (\<forall>p q. bs = p @ q \<longrightarrow> q \<noteq> [] \<longrightarrow> rd p = Inl FatalError))"

lemma codesI:
  assumes "w = returns bs" "\<And>rest. rd (bs @ rest) = returns (x, rest)"
    "\<And>p q. bs = p @ q \<Longrightarrow> q \<noteq> [] \<Longrightarrow> rd p = Inl FatalError"
  shows "codes w rd x"
  using assms unfolding codes_def by blast

lemma codes_return [simp, intro]: "codes (emits []) (rreturn x) x"
  by (rule codesI[of _ "[]"]) (simp_all add: rreturn_def emits_def)

lemma codes_bind:
  assumes "codes w1 r1 x" "codes w2 (f x) y"
  shows "codes (cat w1 w2) (rbind r1 f) y"
proof -
  obtain a b where a: "w1 = returns a" "\<And>rest. r1 (a @ rest) = returns (x, rest)"
      "\<And>p q. a = p @ q \<Longrightarrow> q \<noteq> [] \<Longrightarrow> r1 p = Inl FatalError"
    and b: "w2 = returns b" "\<And>rest. f x (b @ rest) = returns (y, rest)"
      "\<And>p q. b = p @ q \<Longrightarrow> q \<noteq> [] \<Longrightarrow> f x p = Inl FatalError"
    using assms unfolding codes_def by blast
  show ?thesis
  proof (rule codesI[of _ "a @ b"])
    fix p q assume pq: "a @ b = p @ q" "q \<noteq> []"
    then obtain us where "a = p @ us \<and> us @ b = q \<or> a @ us = p \<and> b = us @ q"
      by (auto simp: append_eq_append_conv2)
    then show "rbind r1 f p = Inl FatalError"
    proof (elim disjE conjE)
      assume u: "a = p @ us" "us @ b = q"
      show ?thesis
      proof (cases "us = []")
        case True
        then have "r1 p = returns (x, [])" "b \<noteq> []" using a(2)[of "[]"] u pq(2) by auto
        then show ?thesis using b(3)[of "[]" b] by (simp add: rbind_def)
      qed (use a(3)[OF u(1)] in \<open>simp add: rbind_def\<close>)
    next
      assume "a @ us = p" "b = us @ q"
      then show ?thesis using a(2)[of us] b(3)[of us q] pq(2) by (auto simp: rbind_def)
    qed
  qed (simp_all add: a b cat_def rbind_def)
qed

lemma codes_map: "codes w rd x \<Longrightarrow> codes w (rbind rd (\<lambda>y. rreturn (f y))) (f x)"
  unfolding codes_def rbind_def rreturn_def by force

lemma codes_last:
  assumes "codes w rd x" "f x = rreturn y"
  shows "codes w (rbind rd f) y"
  using assms unfolding codes_def rbind_def rreturn_def by force

lemma rbind_rreturn [simp]: "rbind (rreturn x) f = f x"
  by (simp add: rbind_def rreturn_def fun_eq_iff)

lemma codes_list:
  assumes "\<And>x. x \<in> set xs \<Longrightarrow> codes (wr x) rd (g x)"
  shows "codes (wlist wr xs) (read_times (length xs) rd) (map g xs)"
  using assms
proof (induction xs)
  case (Cons x xs)
  have "codes (wlist wr xs) (rbind (read_times (length xs) rd) (\<lambda>ys. rreturn (g x # ys))) (g x # map g xs)"
    by (rule codes_map[OF Cons.IH]) (simp add: Cons.prems)
  then show ?case using codes_bind[OF Cons.prems[of x], of "wlist wr xs"] by simp
qed simp

fun loop_values :: "('s \<Rightarrow> 'x \<Rightarrow> 'a \<times> 's) \<Rightarrow> 's \<Rightarrow> 'x list \<Rightarrow> 'a list \<times> 's" where
  "loop_values g st [] = ([], st)"
| "loop_values g st (x # xs) =
     (let (y, st') = g st x; (ys, st'') = loop_values g st' xs in (y # ys, st''))"

lemma codes_loop:
  assumes "\<And>x st. x \<in> set xs \<Longrightarrow> I st \<Longrightarrow> codes (wr x) (rd st) (g st x) \<and> I (snd (g st x))" "I st"
  shows "codes (wlist wr xs) (read_loop (length xs) rd st) (loop_values g st xs)"
  using assms
proof (induction xs arbitrary: st)
  case (Cons x xs)
  obtain y st' where y: "g st x = (y, st')" by fastforce
  obtain ys st'' where ys: "loop_values g st' xs = (ys, st'')" by fastforce
  have hd: "codes (wr x) (rd st) (y, st')" "I st'" using Cons.prems(1)[of x st] Cons.prems(2) y by simp_all
  have tl: "codes (wlist wr xs) (read_loop (length xs) rd st') (ys, st'')"
    using Cons.IH[OF _ hd(2)] Cons.prems(1) ys by simp
  have "codes (cat (wr x) (wlist wr xs))
      (rbind (rd st) (\<lambda>(x, st'). rbind (read_loop (length xs) rd st') (\<lambda>(xs, st''). rreturn (x # xs, st'')))) (y # ys, st'')"
    by (rule codes_bind[OF hd(1)])
      (use codes_map[OF tl, of "\<lambda>(xs, st''). (y # xs, st'')"] in \<open>simp add: case_prod_unfold\<close>)
  then show ?case by (simp add: y ys)
qed simp

subsection \<open>The primitives\<close>

lemma bit_of_le_bytes:
  "bit (of_le_bytes bs :: 'a::len word) n \<longleftrightarrow> n < LENGTH('a) \<and> n div 8 < length bs \<and> bit (bs ! (n div 8)) (n mod 8)"
proof (induction bs arbitrary: n)
  case (Cons b bs)
  show ?case
  proof (cases "n < 8")
    case True
    then show ?thesis by (auto simp: of_le_bytes_def bit_simps)
  next
    case False
    then have "n div 8 = Suc ((n - 8) div 8)" "n mod 8 = (n - 8) mod 8"
      by (simp_all add: le_div_geq le_mod_geq)
    moreover have "\<not> bit (ucast b :: 'a word) n" using False by (auto simp: bit_simps dest: bit_imp_le_length)
    ultimately show ?thesis using Cons.IH[of "n - 8"] False by (auto simp: of_le_bytes_def bit_simps)
  qed
qed (simp add: of_le_bytes_def)

lemma length_le_bytes [simp]: "length (le_bytes (w :: 'a::len word)) = LENGTH('a) div 8"
  by (simp add: le_bytes_def)

lemma of_le_bytes_le_bytes:
  assumes "8 dvd LENGTH('a)"
  shows "of_le_bytes (le_bytes w) = (w :: 'a::len word)"
proof (rule bit_word_eqI)
  fix n assume n: "n < LENGTH('a)"
  then have "n div 8 < LENGTH('a) div 8" using assms by (auto elim!: dvdE)
  then show "bit (of_le_bytes (le_bytes w) :: 'a word) n = bit w n"
    using n by (simp add: bit_of_le_bytes) (simp add: le_bytes_def bit_simps)
qed

lemma codes_Emit:
  assumes "8 dvd LENGTH('a)"
  shows "codes (Emit w) ReadData (w :: 'a::len word)"
proof (rule codesI)
  show "Emit w = returns (le_bytes w)" by (simp add: Emit_def emits_def)
  show "ReadData (le_bytes w @ rest) = returns (w, rest)" for rest
    by (simp add: ReadData_def Let_def of_le_bytes_le_bytes[OF assms])
  show "ReadData p = (Inl FatalError :: ('a word \<times> byte list) result)" if "le_bytes w = p @ q" "q \<noteq> []" for p q
  proof -
    have "length p < LENGTH('a) div 8" using arg_cong[OF that(1), of length] that(2) by simp
    then show ?thesis by (simp add: ReadData_def)
  qed
qed

lemma codes_widths [simp, intro]:
  "codes (Emit w8) ReadData (w8 :: 8 word)" "codes (Emit w16) ReadData (w16 :: 16 word)"
  "codes (Emit w32) ReadData (w32 :: 32 word)" "codes (Emit w64) ReadData (w64 :: 64 word)"
  by (rule codes_Emit, simp)+

lemma codes_bytes: "codes (emits bs) (\<lambda>s. if length s < length bs then Inl FatalError
    else returns (take (length bs) s, drop (length bs) s)) bs"
  by (rule codesI[of _ bs]) (auto simp: emits_def)

lemma codes_string [intro]:
  assumes "length str < 2 ^ 32"
  shows "codes (EmitString str) ReadString str"
proof -
  define size where "size = (word_of_nat (length str) :: 32 word)"
  have size_eq: "unat size = length str"
    using assms by (simp add: size_def unat_of_nat take_bit_nat_eq_self_iff)
  show ?thesis
    unfolding EmitString_def ReadString_def size_def[symmetric]
    by (rule codes_bind[OF codes_widths(3)]) (unfold size_eq, rule codes_bytes)
qed

lemma codes_bool [simp, intro]: "codes (EmitBool b) ReadBool b"
  using codes_map[OF codes_widths(1)[of "of_bool b"], of "\<lambda>b. b \<noteq> 0"] by (simp add: EmitBool_def ReadBool_def)

end
