(* ===== verification/Annot.thy ===== *)
theory Annot
  imports ByteStream
begin

text \<open>
  Annotations of instructions and the sets of them (\<^verbatim>\<open>core/annot.h\<close>, \<^verbatim>\<open>core/annot.cpp\<close>). A set is the
  list \<^verbatim>\<open>annots_\<close> of the source, in its order; strings are lists of bytes. What the file shows: the
  sets built by \<^verbatim>\<open>Set\<close> and \<^verbatim>\<open>Clear\<close> hold one annotation of a kind, copies are equal and equality compares
  the contents as long as no \<^verbatim>\<open>CXX_LSDA\<close> annotation takes part, and what happens when one does.
\<close>

record debug_info =
  Location :: "64 word"
  File :: "byte list"
  Definition :: "byte list"

datatype annot_kind = PROBABILITY | CAML_FRAME | CXX_LSDA

datatype annot =
    Probability "32 word" "32 word"
  | CamlFrame "64 word list" "debug_info list list"
  | CxxLSDA bool bool "byte list list" "byte list list"

fun GetKind :: "annot \<Rightarrow> annot_kind" where
  "GetKind (Probability n d) = PROBABILITY"
| "GetKind (CamlFrame allocs infos) = CAML_FRAME"
| "GetKind (CxxLSDA cleanup catch_all catches filters) = CXX_LSDA"

type_synonym annot_set = "annot list"

subsection \<open>Comparison\<close>

definition debug_info_eq :: "debug_info \<Rightarrow> debug_info \<Rightarrow> bool" where
  "debug_info_eq x y =
     (if Location x \<noteq> Location y then False
      else if File x \<noteq> File y then False
      else if Definition x \<noteq> Definition y then False
      else True)"

text \<open>\<^verbatim>\<open>Annot::operator==\<close> has no case for \<^verbatim>\<open>CXX_LSDA\<close>.\<close>

fun annot_eq :: "annot \<Rightarrow> annot \<Rightarrow> bool result" where
  "annot_eq (CamlFrame a i) (CamlFrame a' i') =
     returns (a = a' \<and> list_all2 (list_all2 debug_info_eq) i i')"
| "annot_eq (Probability n d) (Probability n' d') = returns (n = n' \<and> d = d')"
| "annot_eq x y = (if GetKind x \<noteq> GetKind y then returns False else unreachable)"

text \<open>The inner loop does not stop at the annotation it finds.\<close>

fun annot_found :: "annot \<Rightarrow> annot_set \<Rightarrow> bool \<Rightarrow> bool result" where
  "annot_found x [] found = returns found"
| "annot_found x (y # ys) found =
     (case annot_eq x y of Inl e \<Rightarrow> Inl e | Inr b \<Rightarrow> annot_found x ys (b \<or> found))"

fun annots_found :: "annot_set \<Rightarrow> annot_set \<Rightarrow> bool result" where
  "annots_found [] ys = returns True"
| "annots_found (x # xs) ys =
     (case annot_found x ys False of
        Inl e \<Rightarrow> Inl e
      | Inr b \<Rightarrow> if b then annots_found xs ys else returns False)"

definition AnnotSet_eq :: "annot_set \<Rightarrow> annot_set \<Rightarrow> bool result" where
  "AnnotSet_eq this that =
     (case annots_found this that of
        Inl e \<Rightarrow> Inl e
      | Inr b \<Rightarrow> if b then annots_found that this else returns False)"

subsection \<open>Operations of sets\<close>

definition AnnotSet_Has :: "annot_kind \<Rightarrow> annot_set \<Rightarrow> bool" where
  "AnnotSet_Has k annots = list_ex (\<lambda>a. GetKind a = k) annots"

text \<open>\<^verbatim>\<open>Set\<close> constructs the annotation, an operation that may fail, when there is none of its kind.\<close>

definition AnnotSet_Set :: "annot_kind \<Rightarrow> annot result \<Rightarrow> annot_set \<Rightarrow> (annot_set \<times> bool) result" where
  "AnnotSet_Set k ctor annots =
     (if list_ex (\<lambda>a. GetKind a = k) annots then returns (annots, False)
      else case ctor of Inl e \<Rightarrow> Inl e | Inr a \<Rightarrow> returns (annots @ [a], True))"

definition new_Probability :: "32 word \<Rightarrow> 32 word \<Rightarrow> annot result" where
  "new_Probability n d = (if d \<noteq> 0 then returns (Probability n d) else Inl AssertFailed)"

fun AnnotSet_Clear :: "annot_kind \<Rightarrow> annot_set \<Rightarrow> annot_set \<times> bool" where
  "AnnotSet_Clear k [] = ([], False)"
| "AnnotSet_Clear k (a # annots) =
     (if GetKind a = k then (annots, True)
      else let (annots', b) = AnnotSet_Clear k annots in (a # annots', b))"

definition AnnotSet_Get :: "annot_kind \<Rightarrow> annot_set \<Rightarrow> annot option" where
  "AnnotSet_Get k annots = List.find (\<lambda>a. GetKind a = k) annots"

text \<open>Every path of \<^verbatim>\<open>Add\<close> ends in \<^verbatim>\<open>llvm_unreachable\<close>.\<close>

definition AnnotSet_Add :: "annot \<Rightarrow> annot_set \<Rightarrow> (annot_set \<times> bool) result" where
  "AnnotSet_Add a annots =
     (case GetKind a of CAML_FRAME \<Rightarrow> unreachable | PROBABILITY \<Rightarrow> unreachable | CXX_LSDA \<Rightarrow> unreachable)"

fun without_loop :: "annot_kind \<Rightarrow> annot_set \<Rightarrow> annot_set \<Rightarrow> annot_set result" where
  "without_loop k [] that = returns that"
| "without_loop k (a # annots) that =
     (if GetKind a \<noteq> k
      then case AnnotSet_Add a that of Inl e \<Rightarrow> Inl e | Inr (that', b) \<Rightarrow> without_loop k annots that'
      else without_loop k annots that)"

definition AnnotSet_Without :: "annot_kind \<Rightarrow> annot_set \<Rightarrow> annot_set result" where
  "AnnotSet_Without k annots = without_loop k annots []"

text \<open>The copy constructor sets the annotations one after the other.\<close>

fun copy_loop :: "annot_set \<Rightarrow> annot_set \<Rightarrow> annot_set result" where
  "copy_loop [] this = returns this"
| "copy_loop (a # that) this =
     (case a of
        CxxLSDA cleanup catch_all catches filters \<Rightarrow> unreachable
      | _ \<Rightarrow> (case AnnotSet_Set (GetKind a) (returns a) this of
               Inl e \<Rightarrow> Inl e
             | Inr (this', b) \<Rightarrow> copy_loop that this'))"

definition AnnotSet_copy :: "annot_set \<Rightarrow> annot_set result" where
  "AnnotSet_copy that = copy_loop that []"

text \<open>The assignment moves the annotations of the other set behind those of this one, and leaves it empty.\<close>

definition AnnotSet_assign :: "annot_set \<Rightarrow> annot_set \<Rightarrow> annot_set \<times> annot_set" where
  "AnnotSet_assign this that = (this @ that, [])"

subsection \<open>One annotation of a kind\<close>

definition one_of_kind :: "annot_set \<Rightarrow> bool" where
  "one_of_kind annots = distinct (map GetKind annots)"

definition no_lsda :: "annot_set \<Rightarrow> bool" where
  "no_lsda annots = list_all (\<lambda>a. GetKind a \<noteq> CXX_LSDA) annots"

lemma no_lsda_Cons [simp]: "no_lsda (a # annots) \<longleftrightarrow> GetKind a \<noteq> CXX_LSDA \<and> no_lsda annots"
  and no_lsda_Nil [simp]: "no_lsda []"
  by (simp_all add: no_lsda_def)

lemma debug_info_eq_iff [simp]: "debug_info_eq x y \<longleftrightarrow> x = y"
  by (auto simp: debug_info_eq_def)

lemma debug_infos_eq_iff [simp]: "list_all2 (list_all2 debug_info_eq) i j \<longleftrightarrow> i = j"
proof -
  have "debug_info_eq = (=)" by (intro ext) simp
  then show ?thesis by (simp add: list.rel_eq)
qed

lemma annot_eq_same: "GetKind x \<noteq> CXX_LSDA \<Longrightarrow> annot_eq x y = returns (x = y)"
  by (cases x; cases y) auto

lemma annot_found_iff: "GetKind x \<noteq> CXX_LSDA \<Longrightarrow> annot_found x ys b = returns (x \<in> set ys \<or> b)"
  by (induction ys arbitrary: b) (auto simp: annot_eq_same)

lemma annots_found_iff: "no_lsda xs \<Longrightarrow> annots_found xs ys = returns (set xs \<subseteq> set ys)"
  by (induction xs) (simp_all add: annot_found_iff)

lemma set_find_none: "\<not> list_ex P xs \<longleftrightarrow> (\<forall>x\<in>set xs. \<not> P x)"
  by (auto simp: list_ex_iff)

lemma Set_one_of_kind:
  assumes "one_of_kind annots" "AnnotSet_Set k ctor annots = returns (annots', b)" "\<And>a. ctor = returns a \<Longrightarrow> GetKind a = k"
  shows "one_of_kind annots'"
  using assms by (auto simp: AnnotSet_Set_def one_of_kind_def list_ex_iff image_iff split: if_splits sum.splits) (metis)

lemma Clear_removes:
  "one_of_kind annots \<Longrightarrow>
   AnnotSet_Clear k annots = (filter (\<lambda>a. GetKind a \<noteq> k) annots, AnnotSet_Has k annots)"
proof (induction annots)
  case (Cons a annots)
  have "GetKind a = k \<Longrightarrow> filter (\<lambda>b. GetKind b \<noteq> k) annots = annots"
    using Cons.prems by (auto simp: one_of_kind_def image_iff filter_id_conv)
  then show ?case
    using Cons by (auto simp: AnnotSet_Has_def one_of_kind_def)
qed (simp add: AnnotSet_Has_def)

lemma one_of_kind_filter: "one_of_kind annots \<Longrightarrow> one_of_kind (filter P annots)"
  by (simp add: one_of_kind_def distinct_map_filter)

lemma copy_loop_append:
  "no_lsda annots \<Longrightarrow> one_of_kind (this @ annots) \<Longrightarrow> copy_loop annots this = returns (this @ annots)"
proof (induction annots arbitrary: this)
  case (Cons a annots)
  have fresh: "\<not> list_ex (\<lambda>b. GetKind b = GetKind a) this"
    using Cons.prems(2) by (auto simp: one_of_kind_def list_ex_iff image_iff)
  have "copy_loop annots (this @ [a]) = returns (this @ [a] @ annots)"
    using Cons.IH[of "this @ [a]"] Cons.prems by simp
  then show ?case using Cons.prems(1) fresh by (cases a) (simp_all add: AnnotSet_Set_def)
qed simp

lemma copy_keeps: "no_lsda annots \<Longrightarrow> one_of_kind annots \<Longrightarrow> AnnotSet_copy annots = returns annots"
  using copy_loop_append[of annots "[]"] by (simp add: AnnotSet_copy_def)

lemma copy_loop_lsda: "\<not> no_lsda annots \<Longrightarrow> copy_loop annots this = unreachable"
proof (induction annots arbitrary: this)
  case (Cons a annots)
  then show ?case
    by (cases a) (auto simp: AnnotSet_Set_def split: if_splits)
qed simp

subsection \<open>Properties\<close>

text \<open>Two annotation sets without \<^verbatim>\<open>CXX_LSDA\<close> annotations compare equal when they hold the same
  annotations, whatever their order; a copy of such a set is the set itself.\<close>
theorem annot_sets_compare:
  assumes "no_lsda a" "no_lsda b" "one_of_kind a"
  shows "AnnotSet_eq a b = returns (set a = set b) \<and> AnnotSet_copy a = returns a"
  using assms by (auto simp: AnnotSet_eq_def annots_found_iff copy_keeps)

lemma annot_sets_compare_witness:
  "AnnotSet_eq [Probability 1 2, CamlFrame [3] []] [CamlFrame [3] [], Probability 1 2] = returns True"
  using annot_sets_compare[of "[Probability 1 2, CamlFrame [3] []]" "[CamlFrame [3] [], Probability 1 2]"]
  by (simp add: one_of_kind_def insert_commute)

text \<open>An instruction with exception tables cannot be copied or compared: \<^verbatim>\<open>CXX_LSDA\<close> is missing from the
  copy constructor and from \<^verbatim>\<open>Annot::operator==\<close>.\<close>
theorem lsda_not_supported:
  assumes "\<not> no_lsda a"
  shows "AnnotSet_copy a = unreachable \<and> \<not> is_ok (AnnotSet_eq [CxxLSDA c d e f] [CxxLSDA c' d' e' f'])"
  using copy_loop_lsda[OF assms] by (simp add: AnnotSet_copy_def AnnotSet_eq_def)

lemma lsda_not_supported_witness: "AnnotSet_copy [CxxLSDA True False [] []] = unreachable"
  using lsda_not_supported[of "[CxxLSDA True False [] []]"] by simp

text \<open>C38: \<^verbatim>\<open>Set\<close> and \<^verbatim>\<open>Clear\<close> keep one annotation of each kind, and \<^verbatim>\<open>Set\<close> never replaces an annotation.\<close>
theorem annot_set_invariant:
  assumes "one_of_kind a" "AnnotSet_Set k (returns x) a = returns (b, done)" "GetKind x = k"
  shows "one_of_kind b \<and> AnnotSet_Get k b = Some (if done then x else the (AnnotSet_Get k a)) \<and>
    one_of_kind (fst (AnnotSet_Clear k b)) \<and> \<not> AnnotSet_Has k (fst (AnnotSet_Clear k b))"
proof -
  have b: "one_of_kind b" by (rule Set_one_of_kind[OF assms(1,2)]) (simp add: assms(3))
  have get: "AnnotSet_Get k b = Some (if done then x else the (AnnotSet_Get k a))"
  proof (cases "list_ex (\<lambda>a. GetKind a = k) a")
    case True
    then have "AnnotSet_Get k a \<noteq> None" by (auto simp: AnnotSet_Get_def find_None_iff list_ex_iff)
    then show ?thesis using True assms(2) by (auto simp: AnnotSet_Set_def)
  next
    case False
    then have "List.find (\<lambda>a. GetKind a = k) a = None" by (auto simp: find_None_iff list_ex_iff)
    then have "List.find (\<lambda>a. GetKind a = k) (a @ [x]) = Some x"
      using assms(3) by (induction a) (auto split: if_splits)
    then show ?thesis using False assms(2) by (simp add: AnnotSet_Set_def AnnotSet_Get_def)
  qed
  show ?thesis
    using b get by (simp add: Clear_removes one_of_kind_filter AnnotSet_Has_def list_ex_iff)
qed

lemma annot_set_invariant_witness: "AnnotSet_Get PROBABILITY [Probability 1 2] = Some (Probability 1 2)"
  using annot_set_invariant[of "[]" PROBABILITY "Probability 1 2" "[Probability 1 2]" True]
  by (simp add: one_of_kind_def AnnotSet_Set_def)

text \<open>Assigning a set appends to the annotations of the target, so a target that has an annotation of a kind of
  the source ends up with two of that kind.\<close>
theorem assign_appends:
  assumes "AnnotSet_Has k a" "AnnotSet_Has k b"
  shows "\<not> one_of_kind (fst (AnnotSet_assign a b)) \<and>
    AnnotSet_Get k (fst (AnnotSet_assign a b)) = AnnotSet_Get k a"
proof -
  have "k \<in> GetKind ` set a \<inter> GetKind ` set b" using assms by (auto simp: AnnotSet_Has_def list_ex_iff image_iff) (metis)
  then have "\<not> one_of_kind (a @ b)" unfolding one_of_kind_def map_append distinct_append set_map by blast
  moreover have "List.find (\<lambda>a. GetKind a = k) (a @ b) = List.find (\<lambda>a. GetKind a = k) a"
    using assms(1) by (induction a) (auto simp: AnnotSet_Has_def)
  ultimately show ?thesis by (simp add: AnnotSet_assign_def AnnotSet_Get_def)
qed

lemma assign_appends_witness:
  "AnnotSet_Get PROBABILITY (fst (AnnotSet_assign [Probability 1 2] [Probability 3 4])) = Some (Probability 1 2)"
  using assign_appends[of PROBABILITY "[Probability 1 2]" "[Probability 3 4]"]
  by (simp add: AnnotSet_Has_def AnnotSet_Get_def)

end
