(* ===== verification/Bitcode.thy ===== *)
theory Bitcode
  imports Annot Types
begin

text \<open>
  The binary form of the parts of a program (\<^verbatim>\<open>core/bitcode_writer.cpp\<close>, \<^verbatim>\<open>core/bitcode_reader.cpp\<close>): type flags,
  expressions, constants, operands, annotations, items and atoms. A program that is written refers to its symbols and
  instructions by pointers, values of a type \<open>'g\<close> and pairs \<open>'i \<times> nat\<close>; the writer looks them up in \<^verbatim>\<open>symbols_\<close>
  and \<^verbatim>\<open>map\<close>, functions to an optional number here. The pointers of a program that is read are the positions in the
  vectors \<^verbatim>\<open>globals_\<close> and \<^verbatim>\<open>map\<close>. Enumerations that the reader takes over by \<^verbatim>\<open>static_cast\<close> stay the byte they
  are stored in, since it may name no enumerator; a \<^verbatim>\<open>double\<close> is its 64 bits. \<^verbatim>\<open>llvm::Align\<close> asserts that its value
  is a power of two: the test is the parameter \<open>pow2\<close>.
\<close>

subsection \<open>The data\<close>

datatype 'g bexpr = BSymbolOffset "'g option" "64 word"

text \<open>A constant integer by its signed value; a constant float by the bits of \<^verbatim>\<open>GetDouble\<close>.\<close>

datatype bconst = BConstInt int | BConstFloat "64 word"

datatype ('g, 'i) bvalue = BInstRef "'i \<times> nat" | BGlobal 'g | BExpr "'g bexpr" | BConst bconst

datatype 'g bitem =
    BInt8 "8 word" | BInt16 "16 word" | BInt32 "32 word" | BInt64 "64 word" | BFloat64 "64 word"
  | BExpr32 "'g bexpr" | BExpr64 "'g bexpr" | BSpace "32 word" | BString "byte list"

datatype 'g batom =
  BAtom (atom_id: 'g) (atom_name: "byte list") (atom_align: "64 word option") (atom_vis: "8 word")
    (atom_items: "'g bitem list")

datatype ('g, 'i) bextern =
  BExtern (ext_id: 'g) (ext_name: "byte list") (ext_vis: "8 word") (ext_value: "('g, 'i) bvalue option")
    (ext_section: "byte list option")

datatype 'g bxtor = BXtor (xtor_kind: "8 word") (xtor_priority: "32 word") (xtor_func: 'g)

subsection \<open>Writer\<close>

definition EmitSize8 :: "nat \<Rightarrow> writer" where
  "EmitSize8 n = Emit (word_of_nat n :: 8 word)"

definition EmitSize16 :: "nat \<Rightarrow> writer" where
  "EmitSize16 n = Emit (word_of_nat n :: 16 word)"

definition EmitSize32 :: "nat \<Rightarrow> writer" where
  "EmitSize32 n = Emit (word_of_nat n :: 32 word)"

definition EmitKind :: "8 word \<Rightarrow> writer" where
  "EmitKind k = Emit k"

definition EmitAlign :: "64 word option \<Rightarrow> writer" where
  "EmitAlign a = (case a of Some v \<Rightarrow> Emit (ucast v :: 32 word) | None \<Rightarrow> Emit (0 :: 32 word))"

text \<open>\<^verbatim>\<open>GetByValAlign\<close> builds an \<^verbatim>\<open>llvm::Align\<close> from the sixteen bits of the flag.\<close>

fun WriteTypeFlag :: "(64 word \<Rightarrow> bool) \<Rightarrow> type_flag \<Rightarrow> writer" where
  "WriteTypeFlag pow2 FlagNone = EmitKind 0"
| "WriteTypeFlag pow2 FlagSExt = EmitKind 2"
| "WriteTypeFlag pow2 FlagZExt = EmitKind 3"
| "WriteTypeFlag pow2 (FlagByVal sz al) =
     cat (EmitKind 1) (cat (Emit sz) (if pow2 (ucast al) then Emit al else Inl AssertFailed))"

definition WriteFlaggedType :: "(64 word \<Rightarrow> bool) \<Rightarrow> 8 word \<times> type_flag \<Rightarrow> writer" where
  "WriteFlaggedType pow2 t = cat (EmitKind (fst t)) (WriteTypeFlag pow2 (snd t))"

definition WriteGlobal :: "('g \<Rightarrow> nat option) \<Rightarrow> 'g \<Rightarrow> writer" where
  "WriteGlobal symbols g =
     (case symbols g of None \<Rightarrow> Inl AssertFailed | Some i \<Rightarrow> Emit (word_of_nat i + 1 :: 32 word))"

definition WriteBlock :: "('g \<Rightarrow> nat option) \<Rightarrow> 'g \<Rightarrow> writer" where
  "WriteBlock symbols b = (case symbols b of None \<Rightarrow> Inl AssertFailed | Some i \<Rightarrow> EmitSize32 i)"

fun WriteExpr :: "('g \<Rightarrow> nat option) \<Rightarrow> 'g bexpr \<Rightarrow> writer" where
  "WriteExpr symbols (BSymbolOffset symbol offset) =
     cat (EmitKind 0)
      (cat (case symbol of Some g \<Rightarrow> WriteGlobal symbols g | None \<Rightarrow> Emit (0 :: 32 word)) (Emit offset))"

text \<open>\<^verbatim>\<open>GetInt\<close> asserts that the constant has at most 64 significant bits.\<close>

definition GetInt :: "int \<Rightarrow> (64 word) result" where
  "GetInt v = (if - (2 ^ 63) \<le> v \<and> v < 2 ^ 63 then returns (word_of_int v) else Inl AssertFailed)"

fun WriteConst :: "bconst \<Rightarrow> writer" where
  "WriteConst (BConstInt v) = cat (EmitKind 0) (case GetInt v of Inl e \<Rightarrow> Inl e | Inr w \<Rightarrow> Emit w)"
| "WriteConst (BConstFloat d) = cat (EmitKind 1) (Emit d)"

fun WriteValue :: "('g \<Rightarrow> nat option) \<Rightarrow> ('i \<times> nat \<Rightarrow> nat option) \<Rightarrow> ('g, 'i) bvalue \<Rightarrow> writer" where
  "WriteValue symbols imap (BInstRef r) =
     cat (EmitKind 0) (case imap r of None \<Rightarrow> Inl AssertFailed | Some i \<Rightarrow> EmitSize32 i)"
| "WriteValue symbols imap (BGlobal g) =
     cat (EmitKind 1) (case symbols g of None \<Rightarrow> Inl AssertFailed | Some i \<Rightarrow> EmitSize32 i)"
| "WriteValue symbols imap (BExpr e) = cat (EmitKind 2) (WriteExpr symbols e)"
| "WriteValue symbols imap (BConst c) = cat (EmitKind 3) (WriteConst c)"

text \<open>An operand that may be absent. The numbers in \<^verbatim>\<open>map\<close> begin with one.\<close>

definition WriteInstRef :: "('i \<times> nat \<Rightarrow> nat option) \<Rightarrow> ('i \<times> nat) option \<Rightarrow> writer" where
  "WriteInstRef imap r =
     (case r of
        None \<Rightarrow> Emit (0 :: 32 word)
      | Some r \<Rightarrow> (case imap r of None \<Rightarrow> Inl AssertFailed | Some i \<Rightarrow> EmitSize32 i))"

definition WriteDebugInfo :: "debug_info \<Rightarrow> writer" where
  "WriteDebugInfo d = cat (Emit (Location d)) (cat (EmitString (File d)) (EmitString (Definition d)))"

fun WriteAnnot :: "annot \<Rightarrow> writer" where
  "WriteAnnot (Probability n d) = cat (EmitKind 0) (cat (Emit n) (Emit d))"
| "WriteAnnot (CamlFrame allocs infos) =
     cat (EmitKind 1)
      (cat (cat (EmitSize8 (length allocs)) (wlist Emit allocs))
        (cat (EmitSize8 (length infos))
          (wlist (\<lambda>info. cat (EmitSize8 (length info)) (wlist WriteDebugInfo info)) infos)))"
| "WriteAnnot (CxxLSDA cleanup catch_all catches filters) =
     cat (EmitKind 2)
      (cat (EmitBool cleanup)
        (cat (EmitBool catch_all)
          (cat (cat (EmitSize8 (length catches)) (wlist EmitString catches))
            (cat (EmitSize8 (length filters)) (wlist EmitString filters)))))"

fun WriteItem :: "('g \<Rightarrow> nat option) \<Rightarrow> 'g bitem \<Rightarrow> writer" where
  "WriteItem symbols (BInt8 v) = cat (EmitKind 0) (Emit v)"
| "WriteItem symbols (BInt16 v) = cat (EmitKind 1) (Emit v)"
| "WriteItem symbols (BInt32 v) = cat (EmitKind 2) (Emit v)"
| "WriteItem symbols (BInt64 v) = cat (EmitKind 3) (Emit v)"
| "WriteItem symbols (BFloat64 v) = cat (EmitKind 4) (Emit v)"
| "WriteItem symbols (BExpr32 e) = cat (EmitKind 5) (WriteExpr symbols e)"
| "WriteItem symbols (BExpr64 e) = cat (EmitKind 6) (WriteExpr symbols e)"
| "WriteItem symbols (BSpace n) = cat (EmitKind 7) (Emit n)"
| "WriteItem symbols (BString s) = cat (EmitKind 8) (EmitString s)"

definition WriteAtom :: "('g \<Rightarrow> nat option) \<Rightarrow> 'g batom \<Rightarrow> writer" where
  "WriteAtom symbols a =
     cat (EmitAlign (atom_align a))
      (cat (EmitKind (atom_vis a))
        (cat (EmitSize32 (length (atom_items a))) (wlist (WriteItem symbols) (atom_items a))))"

definition WriteExtern :: "('g \<Rightarrow> nat option) \<Rightarrow> ('g, 'i) bextern \<Rightarrow> writer" where
  "WriteExtern symbols e =
     cat (EmitKind (ext_vis e))
      (cat (case ext_value e of
              Some v \<Rightarrow> cat (EmitBool True) (WriteValue symbols (\<lambda>_. None) v)
            | None \<Rightarrow> EmitBool False)
           (case ext_section e of
              Some s \<Rightarrow> cat (EmitBool True) (EmitString s)
            | None \<Rightarrow> EmitBool False))"

text \<open>\<^verbatim>\<open>Xtor::GetFunc\<close> casts the symbol to a function.\<close>

definition WriteXtor :: "('g \<Rightarrow> nat option) \<Rightarrow> ('g \<Rightarrow> bool) \<Rightarrow> 'g bxtor \<Rightarrow> writer" where
  "WriteXtor symbols is_func x =
     cat (EmitKind (xtor_kind x))
      (cat (Emit (xtor_priority x))
        (if is_func (xtor_func x)
         then case symbols (xtor_func x) of None \<Rightarrow> Inl AssertFailed | Some i \<Rightarrow> EmitSize32 i
         else Inl AssertFailed))"

subsection \<open>Reader\<close>

definition ReadSize8 :: "nat reader" where
  "ReadSize8 = rbind ReadData (\<lambda>n :: 8 word. rreturn (unat n))"

definition ReadSize16 :: "nat reader" where
  "ReadSize16 = rbind ReadData (\<lambda>n :: 16 word. rreturn (unat n))"

definition ReadSize32 :: "nat reader" where
  "ReadSize32 = rbind ReadData (\<lambda>n :: 32 word. rreturn (unat n))"

definition ReadKind :: "(8 word) reader" where
  "ReadKind = ReadData"

definition Align :: "(64 word \<Rightarrow> bool) \<Rightarrow> 64 word \<Rightarrow> (64 word) reader" where
  "Align pow2 v = (if pow2 v then rreturn v else rfail AssertFailed)"

definition ReadAlign :: "(64 word \<Rightarrow> bool) \<Rightarrow> (64 word option) reader" where
  "ReadAlign pow2 = rbind ReadData (\<lambda>align :: 32 word.
     if align \<noteq> 0 then rbind (Align pow2 (ucast align)) (\<lambda>a. rreturn (Some a)) else rreturn None)"

definition ReadTypeFlag :: "(64 word \<Rightarrow> bool) \<Rightarrow> type_flag reader" where
  "ReadTypeFlag pow2 = rbind ReadKind (\<lambda>k.
     if k = 0 then rreturn FlagNone
     else if k = 2 then rreturn FlagSExt
     else if k = 3 then rreturn FlagZExt
     else if k = 1 then
       rbind ReadData (\<lambda>size :: 16 word. rbind ReadData (\<lambda>al :: 16 word.
         rbind (Align pow2 (ucast al)) (\<lambda>align. rreturn (GetByVal (unat size) (unat align)))))
     else rfail FatalError)"

definition ReadFlaggedType :: "(64 word \<Rightarrow> bool) \<Rightarrow> (8 word \<times> type_flag) reader" where
  "ReadFlaggedType pow2 = rbind ReadKind (\<lambda>t. rbind (ReadTypeFlag pow2) (\<lambda>flag. rreturn (t, flag)))"

text \<open>A symbol that may be absent: the index plus one, or zero.\<close>

definition ReadGlobal :: "global_kind list \<Rightarrow> (nat option) reader" where
  "ReadGlobal globals = rbind ReadData (\<lambda>index :: 32 word.
     if index \<noteq> 0 then
       (if length globals \<le> unat (index - 1) then rfail FatalError else rreturn (Some (unat (index - 1))))
     else rreturn None)"

definition ReadIndex :: "global_kind list \<Rightarrow> nat reader" where
  "ReadIndex globals = rbind ReadSize32 (\<lambda>index.
     if length globals \<le> index then rfail FatalError else rreturn index)"

definition ReadBlock :: "global_kind list \<Rightarrow> nat reader" where
  "ReadBlock globals = rbind (ReadIndex globals) (\<lambda>index.
     if globals ! index = G_BLOCK then rreturn index else rfail AssertFailed)"

definition ReadExpr :: "global_kind list \<Rightarrow> (nat bexpr) reader" where
  "ReadExpr globals = rbind ReadKind (\<lambda>k.
     if k = 0 then
       rbind (ReadGlobal globals) (\<lambda>g. rbind ReadData (\<lambda>offset :: 64 word. rreturn (BSymbolOffset g offset)))
     else rfail FatalError)"

definition ReadConst :: "bconst reader" where
  "ReadConst = rbind ReadKind (\<lambda>k.
     if k = 0 then rbind ReadData (\<lambda>v :: 64 word. rreturn (BConstInt (sint v)))
     else if k = 1 then rbind ReadData (\<lambda>v :: 64 word. rreturn (BConstFloat v))
     else rfail FatalError)"

definition ReadInstRef :: "(nat \<times> nat) list \<Rightarrow> ((nat \<times> nat) option) reader" where
  "ReadInstRef imap = rbind ReadSize32 (\<lambda>index.
     if index \<noteq> 0 then
       (if length imap < index then rfail FatalError else rreturn (Some (imap ! (index - 1))))
     else rreturn None)"

definition ReadValue :: "global_kind list \<Rightarrow> (nat \<times> nat) list \<Rightarrow> ((nat, nat) bvalue option) reader" where
  "ReadValue globals imap = rbind ReadKind (\<lambda>k.
     if k = 0 then rbind (ReadInstRef imap) (\<lambda>r. rreturn (map_option BInstRef r))
     else if k = 1 then rbind (ReadIndex globals) (\<lambda>g. rreturn (Some (BGlobal g)))
     else if k = 2 then rbind (ReadExpr globals) (\<lambda>e. rreturn (Some (BExpr e)))
     else if k = 3 then rbind ReadConst (\<lambda>c. rreturn (Some (BConst c)))
     else rfail FatalError)"

definition ReadDebugInfo :: "debug_info reader" where
  "ReadDebugInfo = rbind ReadData (\<lambda>l :: 64 word. rbind ReadString (\<lambda>f. rbind ReadString (\<lambda>d.
     rreturn \<lparr>Location = l, File = f, Definition = d\<rparr>)))"

definition SetAnnot :: "annot_kind \<Rightarrow> annot result \<Rightarrow> annot_set \<Rightarrow> annot_set reader" where
  "SetAnnot k ctor annots =
     (case AnnotSet_Set k ctor annots of Inl e \<Rightarrow> rfail e | Inr (annots', b) \<Rightarrow> rreturn annots')"

definition ReadAnnot :: "annot_set \<Rightarrow> annot_set reader" where
  "ReadAnnot annots = rbind ReadKind (\<lambda>k.
     if k = 1 then
       rbind (rbind ReadSize8 (\<lambda>n. read_times n (ReadData :: (64 word) reader))) (\<lambda>allocs.
         rbind (rbind ReadSize8 (\<lambda>n. read_times n (rbind ReadSize8 (\<lambda>m. read_times m ReadDebugInfo)))) (\<lambda>infos.
           SetAnnot CAML_FRAME (returns (CamlFrame allocs infos)) annots))
     else if k = 0 then
       rbind ReadData (\<lambda>n :: 32 word. rbind ReadData (\<lambda>d :: 32 word.
         SetAnnot PROBABILITY (new_Probability n d) annots))
     else if k = 2 then
       rbind ReadBool (\<lambda>cleanup. rbind ReadBool (\<lambda>catch_all.
         rbind (rbind ReadSize8 (\<lambda>n. read_times n ReadString)) (\<lambda>catches.
           rbind (rbind ReadSize8 (\<lambda>n. read_times n ReadString)) (\<lambda>filters.
             SetAnnot CXX_LSDA (returns (CxxLSDA cleanup catch_all catches filters)) annots))))
     else rfail FatalError)"

fun ReadAnnots :: "nat \<Rightarrow> annot_set \<Rightarrow> annot_set reader" where
  "ReadAnnots 0 annots = rreturn annots"
| "ReadAnnots (Suc n) annots = rbind (ReadAnnot annots) (ReadAnnots n)"

definition ReadItem :: "global_kind list \<Rightarrow> (nat bitem) reader" where
  "ReadItem globals = rbind ReadKind (\<lambda>k.
     if k = 0 then rbind ReadData (\<lambda>v. rreturn (BInt8 v))
     else if k = 1 then rbind ReadData (\<lambda>v. rreturn (BInt16 v))
     else if k = 2 then rbind ReadData (\<lambda>v. rreturn (BInt32 v))
     else if k = 3 then rbind ReadData (\<lambda>v. rreturn (BInt64 v))
     else if k = 4 then rbind ReadData (\<lambda>v. rreturn (BFloat64 v))
     else if k = 5 then rbind (ReadExpr globals) (\<lambda>e. rreturn (BExpr32 e))
     else if k = 6 then rbind (ReadExpr globals) (\<lambda>e. rreturn (BExpr64 e))
     else if k = 7 then rbind ReadData (\<lambda>v. rreturn (BSpace v))
     else if k = 8 then rbind ReadString (\<lambda>v. rreturn (BString v))
     else rfail FatalError)"

text \<open>The atom exists already, with the name from the header of the file.\<close>

definition ReadAtom :: "(64 word \<Rightarrow> bool) \<Rightarrow> global_kind list \<Rightarrow> nat \<times> byte list \<Rightarrow> (nat batom) reader" where
  "ReadAtom pow2 globals h =
     rbind (ReadAlign pow2) (\<lambda>align. rbind ReadKind (\<lambda>vis.
       rbind (rbind ReadSize32 (\<lambda>n. read_times n (ReadItem globals))) (\<lambda>items.
         rreturn (BAtom (fst h) (snd h) align vis items))))"

text \<open>The value of an extern is dereferenced: an absent operand is an access through a null pointer.\<close>

definition ReadExtern :: "global_kind list \<Rightarrow> nat \<times> byte list \<Rightarrow> ((nat, nat) bextern) reader" where
  "ReadExtern globals h =
     rbind ReadKind (\<lambda>vis.
       rbind (rbind ReadBool (\<lambda>b.
           if b then rbind (ReadValue globals []) (\<lambda>v.
             case v of None \<Rightarrow> rfail BadIterator | Some v \<Rightarrow> rreturn (Some v))
           else rreturn None)) (\<lambda>v.
         rbind (rbind ReadBool (\<lambda>b. if b then rbind ReadString (\<lambda>s. rreturn (Some s)) else rreturn None)) (\<lambda>s.
           rreturn (BExtern (fst h) (snd h) vis v s))))"

definition ReadXtor :: "global_kind list \<Rightarrow> (nat bxtor) reader" where
  "ReadXtor globals =
     rbind ReadKind (\<lambda>k. rbind ReadData (\<lambda>priority :: 32 word. rbind (ReadIndex globals) (\<lambda>g.
       rreturn (BXtor k priority g))))"

end
