(* ===== verification/BitcodeCodec.thy ===== *)
theory BitcodeCodec
  imports Bitcode
begin

text \<open>
  The reader of each part of a program inverts its writer. The locale \<open>codec\<close> is the contract of a pair of them:
  from the bytes of a well-formed value the reader gives its view, the value with symbols and instructions renamed to
  their numbers, and it refuses each strict prefix. What follows from it for counted lists is proved once; the pairs
  of \<^verbatim>\<open>core/bitcode_writer.cpp\<close> and \<^verbatim>\<open>core/bitcode_reader.cpp\<close> are its interpretations, those that mention symbols
  in the locale \<open>symbol_table\<close>.
\<close>

subsection \<open>Sizes and kinds\<close>

lemma codes_size8: "n < 2 ^ 8 \<Longrightarrow> codes (EmitSize8 n) ReadSize8 n"
  and codes_size16: "n < 2 ^ 16 \<Longrightarrow> codes (EmitSize16 n) ReadSize16 n"
  and codes_size32: "n < 2 ^ 32 \<Longrightarrow> codes (EmitSize32 n) ReadSize32 n"
  using codes_map[OF codes_widths(1)[of "word_of_nat n"], of unat]
    codes_map[OF codes_widths(2)[of "word_of_nat n"], of unat]
    codes_map[OF codes_widths(3)[of "word_of_nat n"], of unat]
  by (simp_all add: EmitSize8_def ReadSize8_def EmitSize16_def ReadSize16_def EmitSize32_def ReadSize32_def
      unat_of_nat take_bit_nat_eq_self)

lemma codes_EmitKind [simp]: "codes (EmitKind k) ReadKind k"
  by (simp add: EmitKind_def ReadKind_def)

lemma codes_kind:
  assumes "codes w (f k) y"
  shows "codes (cat (EmitKind k) w) (rbind ReadKind f) y"
  by (rule codes_bind, rule codes_EmitKind, rule assms)

lemma codes_kind_only: "f k = rreturn y \<Longrightarrow> codes (EmitKind k) (rbind ReadKind f) y"
  by (rule codes_last, rule codes_EmitKind)

lemma codes_read:
  "f1 w8 = rreturn y \<Longrightarrow> codes (Emit w8) (rbind ReadData f1) y"
  "f2 w16 = rreturn y \<Longrightarrow> codes (Emit w16) (rbind ReadData f2) y"
  "f3 w32 = rreturn y \<Longrightarrow> codes (Emit w32) (rbind ReadData f3) y"
  "f4 w64 = rreturn y \<Longrightarrow> codes (Emit w64) (rbind ReadData f4) y"
  for w8 :: "8 word" and w16 :: "16 word" and w32 :: "32 word" and w64 :: "64 word"
  by (rule codes_last, rule codes_widths, assumption)+

lemma codes_read_string:
  "length s < 2 ^ 32 \<Longrightarrow> f s = rreturn y \<Longrightarrow> codes (EmitString s) (rbind ReadString f) y"
  by (rule codes_last, erule codes_string)

subsection \<open>The contract of a reader and its writer\<close>

locale codec =
  fixes wr :: "'a \<Rightarrow> writer" and rd :: "'b reader" and ok :: "'a \<Rightarrow> bool" and view :: "'a \<Rightarrow> 'b"
  assumes codes: "ok x \<Longrightarrow> codes (wr x) rd (view x)"
begin

lemma roundtrip: "ok x \<Longrightarrow> \<exists>bs. wr x = returns bs \<and> rd (bs @ rest) = returns (view x, rest)"
  using codes[of x] by (auto simp: codes_def)

lemma each: "list_all ok xs \<Longrightarrow> codes (wlist wr xs) (read_times (length xs) rd) (map view xs)"
  by (rule codes_list) (simp add: codes list_all_iff)

lemma counted8:
  "length xs < 2 ^ 8 \<Longrightarrow> list_all ok xs \<Longrightarrow>
   codes (cat (EmitSize8 (length xs)) (wlist wr xs)) (rbind ReadSize8 (\<lambda>n. read_times n rd)) (map view xs)"
  by (rule codes_bind, erule codes_size8, erule each)

lemma counted16:
  "length xs < 2 ^ 16 \<Longrightarrow> list_all ok xs \<Longrightarrow>
   codes (cat (EmitSize16 (length xs)) (wlist wr xs)) (rbind ReadSize16 (\<lambda>n. read_times n rd)) (map view xs)"
  by (rule codes_bind, erule codes_size16, erule each)

lemma counted32:
  "length xs < 2 ^ 32 \<Longrightarrow> list_all ok xs \<Longrightarrow>
   codes (cat (EmitSize32 (length xs)) (wlist wr xs)) (rbind ReadSize32 (\<lambda>n. read_times n rd)) (map view xs)"
  by (rule codes_bind, erule codes_size32, erule each)

end

subsection \<open>Values without symbols\<close>

definition wf_string :: "byte list \<Rightarrow> bool" where
  "wf_string s \<longleftrightarrow> length s < 2 ^ 32"

interpretation string_codec: codec EmitString ReadString wf_string "\<lambda>s. s"
  by unfold_locales (simp add: codes_string wf_string_def)

interpretation word64_codec: codec "Emit :: 64 word \<Rightarrow> writer" ReadData "\<lambda>_. True" "\<lambda>w. w"
  by unfold_locales simp

fun wf_flag :: "(64 word \<Rightarrow> bool) \<Rightarrow> type_flag \<Rightarrow> bool" where
  "wf_flag pow2 (FlagByVal sz al) = pow2 (ucast al)"
| "wf_flag pow2 _ = True"

lemma codes_flag:
  assumes "wf_flag pow2 f"
  shows "codes (WriteTypeFlag pow2 f) (ReadTypeFlag pow2) f"
proof (cases f)
  case (FlagByVal sz al)
  have al: "GetByVal (unat sz) (unat (ucast al :: 64 word)) = FlagByVal sz al"
    using unsigned_less[of al, where 'a = nat]
    by (simp add: GetByVal_def unsigned_ucast_eq take_bit_nat_eq_self)
  have "codes (cat (Emit sz) (Emit al)) (rbind ReadData (\<lambda>size :: 16 word. rbind ReadData (\<lambda>al :: 16 word.
      rbind (Align pow2 (ucast al)) (\<lambda>align. rreturn (GetByVal (unat size) (unat align)))))) f"
    by (rule codes_bind, rule codes_widths, rule codes_last, rule codes_widths)
      (use assms FlagByVal al in \<open>simp add: Align_def\<close>)
  then show ?thesis
    using assms FlagByVal unfolding ReadTypeFlag_def by (simp add: codes_kind)
qed (simp_all add: ReadTypeFlag_def codes_kind_only)

interpretation flag_codec: codec "WriteTypeFlag pow2" "ReadTypeFlag pow2" "wf_flag pow2" "\<lambda>f. f" for pow2
  by unfold_locales (rule codes_flag)

interpretation flagged_codec: codec "WriteFlaggedType pow2" "ReadFlaggedType pow2" "\<lambda>t. wf_flag pow2 (snd t)" "\<lambda>t. t"
  for pow2
  by unfold_locales
    (simp add: WriteFlaggedType_def ReadFlaggedType_def, rule codes_kind, rule codes_last, erule codes_flag, simp)

definition wf_align :: "(64 word \<Rightarrow> bool) \<Rightarrow> 64 word option \<Rightarrow> bool" where
  "wf_align pow2 a = (case a of None \<Rightarrow> True | Some v \<Rightarrow> pow2 v \<and> v \<noteq> 0 \<and> unat v < 2 ^ 32)"

lemma ucast_down_up:
  assumes "unat (v :: 'a::len word) < 2 ^ LENGTH('b::len)"
  shows "ucast (ucast v :: 'b word) = v"
  using assms by (simp add: word_unat_eq_iff unsigned_ucast_eq unsigned_take_bit_eq take_bit_nat_eq_self)

lemma codes_align: "wf_align pow2 a \<Longrightarrow> codes (EmitAlign a) (ReadAlign pow2) a"
proof (cases a)
  case (Some v)
  assume "wf_align pow2 a"
  then have v: "pow2 v" "v \<noteq> 0" "unat v < 2 ^ 32" using Some by (simp_all add: wf_align_def)
  have same: "ucast (ucast v :: 32 word) = v" by (rule ucast_down_up) (use v in simp)
  then have "(ucast v :: 32 word) \<noteq> 0" using v(2) by (metis unsigned_0)
  then show ?thesis
    unfolding Some EmitAlign_def ReadAlign_def
    by simp (rule codes_last, rule codes_widths, simp add: same Align_def v)
qed (simp add: EmitAlign_def ReadAlign_def, rule codes_last, rule codes_widths, simp)

fun wf_const :: "bconst \<Rightarrow> bool" where
  "wf_const (BConstInt v) = (- (2 ^ 63) \<le> v \<and> v < 2 ^ 63)"
| "wf_const (BConstFloat d) = True"

lemma codes_const: "wf_const c \<Longrightarrow> codes (WriteConst c) ReadConst c"
proof (cases c)
  case (BConstInt v)
  assume "wf_const c"
  then have v: "- (2 ^ 63) \<le> v" "v < 2 ^ 63" using BConstInt by simp_all
  have "signed_take_bit 63 v = v" using v by (simp add: signed_take_bit_int_eq_self)
  then have "sint (word_of_int v :: 64 word) = v" by (simp add: signed_of_int)
  then show ?thesis
    unfolding BConstInt WriteConst.simps ReadConst_def GetInt_def using v
    by simp (rule codes_kind, simp, rule codes_last, rule codes_widths, simp)
next
  case (BConstFloat d)
  show ?thesis unfolding BConstFloat WriteConst.simps ReadConst_def
    by (rule codes_kind, simp, rule codes_last, rule codes_widths, simp)
qed

interpretation const_codec: codec WriteConst ReadConst wf_const "\<lambda>c. c"
  by unfold_locales (rule codes_const)

subsection \<open>Annotations\<close>

definition wf_debug_info :: "debug_info \<Rightarrow> bool" where
  "wf_debug_info d \<longleftrightarrow> wf_string (File d) \<and> wf_string (Definition d)"

fun wf_annot :: "annot \<Rightarrow> bool" where
  "wf_annot (Probability n d) = (d \<noteq> 0)"
| "wf_annot (CamlFrame allocs infos) =
     (length allocs < 2 ^ 8 \<and> length infos < 2 ^ 8 \<and>
      list_all (\<lambda>info. length info < 2 ^ 8 \<and> list_all wf_debug_info info) infos)"
| "wf_annot (CxxLSDA cleanup catch_all catches filters) =
     (length catches < 2 ^ 8 \<and> length filters < 2 ^ 8 \<and> list_all wf_string catches \<and> list_all wf_string filters)"

interpretation debug_codec: codec WriteDebugInfo ReadDebugInfo wf_debug_info "\<lambda>d. d"
proof
  fix d assume "wf_debug_info d"
  then have "wf_string (File d)" "wf_string (Definition d)" by (simp_all add: wf_debug_info_def)
  then show "codes (WriteDebugInfo d) ReadDebugInfo d"
    unfolding WriteDebugInfo_def ReadDebugInfo_def
    by - (rule codes_bind, rule codes_widths, rule codes_bind, erule string_codec.codes,
        rule codes_last, erule string_codec.codes, cases d, simp)
qed

interpretation debug_list_codec: codec "\<lambda>info. cat (EmitSize8 (length info)) (wlist WriteDebugInfo info)"
  "rbind ReadSize8 (\<lambda>m. read_times m ReadDebugInfo)" "\<lambda>info. length info < 2 ^ 8 \<and> list_all wf_debug_info info" "\<lambda>d. d"
  by unfold_locales (use debug_codec.counted8 in simp)

lemma SetAnnot_fresh: "\<not> AnnotSet_Has k annots \<Longrightarrow> SetAnnot k (returns a) annots = rreturn (annots @ [a])"
  by (simp add: SetAnnot_def AnnotSet_Set_def AnnotSet_Has_def)

lemma codes_annot:
  assumes "wf_annot a" "\<not> AnnotSet_Has (GetKind a) annots"
  shows "codes (WriteAnnot a) (ReadAnnot annots) (annots @ [a])"
proof (cases a)
  case (Probability n d)
  then show ?thesis
    using assms unfolding ReadAnnot_def
    by simp (rule codes_kind, simp, rule codes_bind, rule codes_widths, rule codes_last, rule codes_widths,
        simp add: new_Probability_def SetAnnot_fresh)
next
  case (CamlFrame allocs infos)
  have "codes (cat (EmitSize8 (length allocs)) (wlist Emit allocs))
      (rbind ReadSize8 (\<lambda>n. read_times n (ReadData :: (64 word) reader))) allocs"
    using word64_codec.counted8[of allocs] assms CamlFrame by (simp add: list.pred_True)
  moreover have "codes (cat (EmitSize8 (length infos))
          (wlist (\<lambda>info. cat (EmitSize8 (length info)) (wlist WriteDebugInfo info)) infos))
      (rbind ReadSize8 (\<lambda>n. read_times n (rbind ReadSize8 (\<lambda>m. read_times m ReadDebugInfo)))) infos"
    using debug_list_codec.counted8[of infos] assms CamlFrame by simp
  ultimately show ?thesis
    using assms CamlFrame unfolding ReadAnnot_def
    by simp (rule codes_kind, simp, rule codes_bind, assumption, rule codes_last, assumption, simp add: SetAnnot_fresh)
next
  case (CxxLSDA cleanup catch_all catches filters)
  have "codes (cat (EmitSize8 (length catches)) (wlist EmitString catches))
      (rbind ReadSize8 (\<lambda>n. read_times n ReadString)) catches"
    using string_codec.counted8[of catches] assms CxxLSDA by simp
  moreover have "codes (cat (EmitSize8 (length filters)) (wlist EmitString filters))
      (rbind ReadSize8 (\<lambda>n. read_times n ReadString)) filters"
    using string_codec.counted8[of filters] assms CxxLSDA by simp
  ultimately show ?thesis
    using assms CxxLSDA unfolding ReadAnnot_def
    by simp (rule codes_kind, simp, rule codes_bind, rule codes_bool, rule codes_bind, rule codes_bool,
        rule codes_bind, assumption, rule codes_last, assumption, simp add: SetAnnot_fresh)
qed

definition wf_annots :: "annot_set \<Rightarrow> bool" where
  "wf_annots annots \<longleftrightarrow> length annots < 2 ^ 8 \<and> list_all wf_annot annots \<and> one_of_kind annots"

lemma codes_annots_from:
  assumes "list_all wf_annot annots" "one_of_kind (done @ annots)"
  shows "codes (wlist WriteAnnot annots) (ReadAnnots (length annots) done) (done @ annots)"
  using assms
proof (induction annots arbitrary: "done")
  case (Cons a annots)
  have fresh: "\<not> AnnotSet_Has (GetKind a) done"
    using Cons.prems(2) by (auto simp: AnnotSet_Has_def one_of_kind_def list_ex_iff image_iff)
  have "codes (wlist WriteAnnot annots) (ReadAnnots (length annots) (done @ [a])) (done @ a # annots)"
    using Cons.IH[of "done @ [a]"] Cons.prems by simp
  then show ?case
    by simp (rule codes_bind, rule codes_annot[OF _ fresh], use Cons.prems in simp_all)
qed simp

lemma codes_annots:
  "wf_annots annots \<Longrightarrow>
   codes (cat (EmitSize8 (length annots)) (wlist WriteAnnot annots)) (rbind ReadSize8 (\<lambda>n. ReadAnnots n [])) annots"
  unfolding wf_annots_def
  by (rule codes_bind, rule codes_size8, simp, use codes_annots_from[of annots "[]"] in simp)

subsection \<open>Values with symbols\<close>

fun wf_item :: "('g \<Rightarrow> bool) \<Rightarrow> 'g bitem \<Rightarrow> bool" where
  "wf_item known (BExpr32 e) = pred_bexpr known e"
| "wf_item known (BExpr64 e) = pred_bexpr known e"
| "wf_item known (BString s) = wf_string s"
| "wf_item known _ = True"

definition wf_atom :: "(64 word \<Rightarrow> bool) \<Rightarrow> ('g \<Rightarrow> bool) \<Rightarrow> 'g batom \<Rightarrow> bool" where
  "wf_atom pow2 known a \<longleftrightarrow> wf_align pow2 (atom_align a) \<and> length (atom_items a) < 2 ^ 32 \<and>
     list_all (wf_item known) (atom_items a)"

fun wf_value :: "('g \<Rightarrow> bool) \<Rightarrow> ('i \<times> nat \<Rightarrow> bool) \<Rightarrow> ('g, 'i) bvalue \<Rightarrow> bool" where
  "wf_value known visible (BInstRef r) = visible r"
| "wf_value known visible (BGlobal g) = known g"
| "wf_value known visible (BExpr e) = pred_bexpr known e"
| "wf_value known visible (BConst c) = wf_const c"

definition wf_extern :: "('g \<Rightarrow> bool) \<Rightarrow> ('g, 'i) bextern \<Rightarrow> bool" where
  "wf_extern known e \<longleftrightarrow>
     pred_option (wf_value known (\<lambda>_. False)) (ext_value e) \<and> pred_option wf_string (ext_section e)"

text \<open>The vector \<^verbatim>\<open>globals_\<close> of the reader has an entry for each number of the writer.\<close>

locale symbol_table =
  fixes symbols :: "'g \<Rightarrow> nat option" and globals :: "global_kind list"
  assumes numbered: "symbols g = Some i \<Longrightarrow> i < length globals"
    and injective: "symbols g = Some i \<Longrightarrow> symbols h = Some i \<Longrightarrow> g = h"
begin

definition number :: "'g \<Rightarrow> nat" where
  "number g = the (symbols g)"

definition known :: "'g \<Rightarrow> bool" where
  "known g \<longleftrightarrow> length globals < 2 ^ 32 \<and> symbols g \<noteq> None"

lemma known_number:
  assumes "known g"
  shows "symbols g = Some (number g)" "number g < length globals" "number g < 2 ^ 32" "Suc (number g) < 2 ^ 32"
  using assms numbered[of g "number g"] by (auto simp: known_def number_def)

lemma number_inject: "known g \<Longrightarrow> known h \<Longrightarrow> number g = number h \<longleftrightarrow> g = h"
  using known_number(1) injective by metis

lemma codes_global_some:
  assumes "known g"
  shows "codes (WriteGlobal symbols g) (ReadGlobal globals) (Some (number g))"
proof -
  have "word_of_nat (number g) + 1 = (word_of_nat (Suc (number g)) :: 32 word)" by simp
  then have u: "unat (word_of_nat (number g) + 1 :: 32 word) = Suc (number g)"
    using known_number(4)[OF assms] by (simp only: unat_of_nat) (simp add: take_bit_nat_eq_self)
  have "word_of_nat (number g) + 1 \<noteq> (0 :: 32 word)" using u by (metis Zero_not_Suc unsigned_0)
  then show ?thesis
    using known_number[OF assms] unfolding WriteGlobal_def ReadGlobal_def
    by simp (rule codes_last, rule codes_widths, simp add: unat_of_nat take_bit_nat_eq_self)
qed

lemma codes_index:
  assumes "known g"
  shows "codes (EmitSize32 (number g)) (ReadIndex globals) (number g)"
  using known_number[OF assms] unfolding ReadIndex_def
  by - (rule codes_last, rule codes_size32, simp_all)

lemma codes_block:
  assumes "known b" "globals ! number b = G_BLOCK"
  shows "codes (WriteBlock symbols b) (ReadBlock globals) (number b)"
  using known_number(1)[OF assms(1)] assms unfolding WriteBlock_def ReadBlock_def
  by simp (rule codes_last, erule codes_index, simp)

lemma codes_expr:
  assumes "pred_bexpr known e"
  shows "codes (WriteExpr symbols e) (ReadExpr globals) (map_bexpr number e)"
proof (cases e)
  case (BSymbolOffset symbol offset)
  have "codes (case symbol of Some g \<Rightarrow> WriteGlobal symbols g | None \<Rightarrow> Emit (0 :: 32 word)) (ReadGlobal globals)
      (map_option number symbol)"
  proof (cases symbol)
    case None
    then show ?thesis unfolding ReadGlobal_def by simp (rule codes_last, rule codes_widths, simp)
  qed (use assms BSymbolOffset codes_global_some in simp)
  then show ?thesis
    unfolding BSymbolOffset WriteExpr.simps ReadExpr_def
    by - (rule codes_kind, simp, rule codes_bind, assumption, rule codes_last, rule codes_widths, simp)
qed

lemma codes_item:
  assumes "wf_item known it"
  shows "codes (WriteItem symbols it) (ReadItem globals) (map_bitem number it)"
proof -
  have expr: "f (map_bexpr number e) = rreturn y \<Longrightarrow> pred_bexpr known e \<Longrightarrow>
      codes (WriteExpr symbols e) (rbind (ReadExpr globals) f) y" for f e and y :: "nat bitem"
    by (rule codes_last, erule codes_expr)
  show ?thesis
    using assms unfolding ReadItem_def
    by (cases it) (simp_all add: codes_kind codes_read codes_read_string expr wf_string_def)
qed

end

sublocale symbol_table \<subseteq> item: codec "WriteItem symbols" "ReadItem globals" "wf_item known" "map_bitem number"
  by unfold_locales (rule codes_item)

context symbol_table
begin

lemma codes_atom:
  assumes "wf_atom pow2 known a"
  shows "codes (WriteAtom symbols a) (ReadAtom pow2 globals (number (atom_id a), atom_name a)) (map_batom number a)"
proof -
  have "wf_align pow2 (atom_align a)" and items: "length (atom_items a) < 2 ^ 32" "list_all (wf_item known) (atom_items a)"
    using assms by (simp_all add: wf_atom_def)
  then show ?thesis
    unfolding WriteAtom_def ReadAtom_def
    by - (rule codes_bind, erule codes_align, rule codes_bind, rule codes_EmitKind,
        rule codes_last, erule (1) item.counted32, cases a, simp)
qed

end

text \<open>The instructions that the reader has met are the first of those that the writer has numbered.\<close>

locale inst_table = symbol_table symbols globals for symbols :: "'g \<Rightarrow> nat option" and globals +
  fixes imap :: "'i \<times> nat \<Rightarrow> nat option" and rmap :: "(nat \<times> nat) list" and inst_number :: "'i \<Rightarrow> nat"
  assumes met: "imap r = Some i \<Longrightarrow> 0 < i \<and> (i \<le> length rmap \<longrightarrow> rmap ! (i - 1) = (inst_number (fst r), snd r))"
begin

definition visible :: "'i \<times> nat \<Rightarrow> bool" where
  "visible r \<longleftrightarrow> length rmap < 2 ^ 32 \<and> (case imap r of None \<Rightarrow> False | Some i \<Rightarrow> i \<le> length rmap)"

definition ref :: "'i \<times> nat \<Rightarrow> nat \<times> nat" where
  "ref r = (inst_number (fst r), snd r)"

lemma codes_inst_ref:
  assumes "pred_option visible r"
  shows "codes (WriteInstRef imap r) (ReadInstRef rmap) (map_option ref r)"
proof (cases r)
  case None
  then show ?thesis
    unfolding WriteInstRef_def ReadInstRef_def ReadSize32_def
    by simp (rule codes_last, rule codes_map, rule codes_widths, simp)
next
  case (Some x)
  then obtain i where i: "imap x = Some i" "i \<le> length rmap" "length rmap < 2 ^ 32"
    using assms by (auto simp: visible_def split: option.splits)
  then show ?thesis
    using met[OF i(1)] unfolding Some WriteInstRef_def ReadInstRef_def
    by simp (rule codes_last, rule codes_size32, simp_all add: ref_def)
qed

lemma codes_value:
  assumes "wf_value known visible v"
  shows "codes (WriteValue symbols imap v) (ReadValue globals rmap) (Some (map_bvalue number inst_number v))"
proof (cases v)
  case (BInstRef r)
  then obtain i where i: "imap r = Some i" "visible r"
    using assms by (auto simp: visible_def split: option.splits)
  have "codes (EmitSize32 i) (ReadInstRef rmap) (Some (ref r))"
    using codes_inst_ref[of "Some r"] i by (simp add: WriteInstRef_def)
  then show ?thesis
    using i(1) unfolding BInstRef ReadValue_def
    by simp (rule codes_kind, simp, rule codes_last, assumption, cases r, simp add: ref_def)
next
  case (BGlobal g)
  then have "known g" using assms by simp
  then show ?thesis
    using known_number(1)[of g] unfolding BGlobal ReadValue_def
    by simp (rule codes_kind, simp, rule codes_last, erule codes_index, simp)
next
  case (BExpr e)
  then show ?thesis
    using assms unfolding ReadValue_def
    by simp (rule codes_kind, simp, rule codes_last, erule codes_expr, simp)
next
  case (BConst c)
  then show ?thesis
    using assms unfolding ReadValue_def
    by simp (rule codes_kind, simp, rule codes_last, erule codes_const, simp)
qed

end

text \<open>An extern has no instructions to refer to.\<close>

sublocale symbol_table \<subseteq> no_insts: inst_table symbols globals "\<lambda>_. None" "[]" "\<lambda>_. 0"
  by unfold_locales simp

context symbol_table
begin

lemma codes_extern:
  fixes e :: "('g, 'i) bextern"
  assumes "wf_extern known e"
  shows "codes (WriteExtern symbols e) (ReadExtern globals (number (ext_id e), ext_name e)) (map_bextern number (\<lambda>_. 0) e)"
proof -
  let ?rv = "rbind ReadBool (\<lambda>b. if b then rbind (ReadValue globals []) (\<lambda>v.
      case v of None \<Rightarrow> rfail BadIterator | Some v \<Rightarrow> rreturn (Some v)) else rreturn None)"
  let ?rs = "rbind ReadBool (\<lambda>b. if b then rbind ReadString (\<lambda>s. rreturn (Some s)) else rreturn None)"
  have "codes (case ext_value e of Some v \<Rightarrow> cat (EmitBool True) (WriteValue symbols (\<lambda>_. None) v) | None \<Rightarrow> EmitBool False)
      ?rv (map_option (map_bvalue number (\<lambda>_. 0)) (ext_value e))"
  proof (cases "ext_value e")
    case (Some v)
    have "no_insts.visible = (\<lambda>_ :: 'i \<times> nat. False)" by (simp add: no_insts.visible_def fun_eq_iff)
    then have "wf_value known no_insts.visible v" using assms Some by (simp add: wf_extern_def)
    then have "codes (WriteValue symbols (\<lambda>_. None) v) (ReadValue globals []) (Some (map_bvalue number (\<lambda>_. 0) v))"
      by (rule no_insts.codes_value)
    then show ?thesis
      unfolding Some by simp (rule codes_bind, rule codes_bool, simp, rule codes_last, assumption, simp)
  qed (simp, rule codes_last, rule codes_bool, simp)
  moreover have "codes (case ext_section e of Some s \<Rightarrow> cat (EmitBool True) (EmitString s) | None \<Rightarrow> EmitBool False)
      ?rs (ext_section e)"
  proof (cases "ext_section e")
    case (Some s)
    then have "wf_string s" using assms by (simp add: wf_extern_def)
    then show ?thesis
      unfolding Some by simp (rule codes_bind, rule codes_bool, simp, rule codes_last, erule string_codec.codes, simp)
  qed (simp, rule codes_last, rule codes_bool, simp)
  ultimately show ?thesis
    unfolding WriteExtern_def ReadExtern_def
    by - (rule codes_kind, rule codes_bind, assumption, rule codes_last, assumption, cases e, simp)
qed

lemma codes_xtor:
  assumes "known (xtor_func x)" "is_func (xtor_func x)"
  shows "codes (WriteXtor symbols is_func x) (ReadXtor globals) (map_bxtor number x)"
  using known_number(1)[OF assms(1)] assms(2) unfolding WriteXtor_def ReadXtor_def
  by simp (rule codes_kind, rule codes_bind, rule codes_widths, rule codes_last, rule codes_index[OF assms(1)], cases x, simp)

end

end
