(* ===== verification/BitcodeInst.thy ===== *)
theory BitcodeInst
  imports BitcodeCodec
begin

text \<open>
  Instructions and functions. The cases of \<^verbatim>\<open>BitcodeWriter::Write(Inst)\<close> and \<^verbatim>\<open>BitcodeReader::ReadInst\<close> are code that
  \<^verbatim>\<open>util/inst_gen/get_bitcode.cpp\<close> prints for each record of \<^verbatim>\<open>core/instructions.td\<close>. The model is that code as a
  function of the record: the list \<open>insts\<close> of records stands for the table, in the order of \<^verbatim>\<open>Inst::Kind\<close>, and a
  record determines which statements are run, one after the other. PHI instructions have cases of their own, with
  references to instructions that come later.
\<close>

subsection \<open>Records of the instruction table\<close>

datatype field_ty = TInst | TTypeFlag | TValue | TBlock | TInt | TUnsigned | TRegister | TCond | TCallingConv

record field_desc =
  Type :: field_ty
  IsOptional :: bool
  IsScalar :: bool
  IsList :: bool

record inst_desc =
  Name :: string
  NumTypes :: int
  NumReturns :: int
  Fields :: "field_desc list"
  HasCustomReader :: bool
  HasCustomWriter :: bool

text \<open>\<^verbatim>\<open>sizeof\<close> of the scalar types: \<^verbatim>\<open>Register\<close>, \<^verbatim>\<open>Cond\<close> and \<^verbatim>\<open>CallingConv\<close> are enumerations over \<^verbatim>\<open>uint8_t\<close>.\<close>

definition is_byte :: "field_ty \<Rightarrow> bool" where
  "is_byte t \<longleftrightarrow> t = TRegister \<or> t = TCond \<or> t = TCallingConv"

subsection \<open>Instructions\<close>

text \<open>The members of an instruction, one for each field of its record; a scalar is its bits.\<close>

datatype ('g, 'i) bfield =
    FInst "('i \<times> nat) option" | FInsts "('i \<times> nat) option list" | FFlags "type_flag list"
  | FValue "('g, 'i) bvalue option" | FBlock 'g | FBlocks "'g list"
  | FScalar "32 word" | FOptScalar "32 word option"

datatype ('g, 'i) binst =
    BInst (inst_id: 'i) (inst_annots: "annot list") (inst_kind: nat) (inst_types: "8 word list")
      (inst_fields: "('g, 'i) bfield list")
  | BPhi (inst_id: 'i) (inst_annots: "annot list") (phi_type: "8 word") (phi_incoming: "('g \<times> ('i \<times> nat)) list")

datatype ('g, 'i) bblock =
  BBlock (block_id: 'g) (block_name: "byte list") (block_vis: "8 word") (block_insts: "('g, 'i) binst list")

definition is_bphi :: "inst_desc \<Rightarrow> bool" where
  "is_bphi d \<longleftrightarrow> Name d = ''PHI''"

definition phi_kind :: "inst_desc list \<Rightarrow> nat" where
  "phi_kind insts = length (takeWhile (\<lambda>d. \<not> is_bphi d) insts)"

text \<open>\<^verbatim>\<open>GetNumRets\<close>, printed by \<^verbatim>\<open>util/inst_gen/get_class.cpp\<close>.\<close>

definition desc_rets :: "inst_desc \<Rightarrow> nat \<Rightarrow> nat" where
  "desc_rets d num_types =
     (if NumReturns d \<noteq> -1 then nat (NumReturns d)
      else if NumTypes d < 0 then num_types
      else nat (NumTypes d))"

fun BGetNumRets :: "inst_desc list \<Rightarrow> ('g, 'i) binst \<Rightarrow> nat" where
  "BGetNumRets insts (BPhi i annots t inc) = 1"
| "BGetNumRets insts (BInst i annots k types fs) =
     (if k < length insts then desc_rets (insts ! k) (length types) else 0)"

subsection \<open>Writer\<close>

definition WriteScalar :: "field_ty \<Rightarrow> 32 word \<Rightarrow> writer" where
  "WriteScalar t v = (if is_byte t then Emit (ucast v :: 8 word) else Emit v)"

text \<open>What \<^verbatim>\<open>GetWriter\<close> prints for a field. The members of the generated classes have the types of the fields: a member
  of another type does not exist.\<close>

definition WriteField ::
  "(64 word \<Rightarrow> bool) \<Rightarrow> ('g \<Rightarrow> nat option) \<Rightarrow> ('i \<times> nat \<Rightarrow> nat option) \<Rightarrow> field_desc \<Rightarrow> ('g, 'i) bfield \<Rightarrow> writer" where
  "WriteField pow2 symbols imap fd v =
     (if IsList fd then
        (if IsScalar fd then
           (case v of FFlags vs \<Rightarrow> cat (EmitSize16 (length vs)) (wlist (WriteTypeFlag pow2) vs) | _ \<Rightarrow> unreachable)
         else
           (case v of
              FInsts vs \<Rightarrow> cat (EmitSize16 (length vs)) (wlist (WriteInstRef imap) vs)
            | FBlocks vs \<Rightarrow> cat (EmitSize16 (length vs)) (wlist (WriteBlock symbols) vs)
            | _ \<Rightarrow> unreachable))
      else if IsScalar fd then
        (if IsOptional fd then
           (case v of
              FOptScalar (Some op) \<Rightarrow> WriteScalar (Type fd) (op + 1)
            | FOptScalar None \<Rightarrow> WriteScalar (Type fd) 0
            | _ \<Rightarrow> unreachable)
         else (case v of FScalar s \<Rightarrow> WriteScalar (Type fd) s | _ \<Rightarrow> unreachable))
      else
        (case v of
           FInst r \<Rightarrow> WriteInstRef imap r
         | FValue (Some x) \<Rightarrow> WriteValue symbols imap x
         | FValue None \<Rightarrow> Inl BadIterator
         | FBlock b \<Rightarrow> WriteBlock symbols b
         | _ \<Rightarrow> unreachable))"

fun WriteFields ::
  "(64 word \<Rightarrow> bool) \<Rightarrow> ('g \<Rightarrow> nat option) \<Rightarrow> ('i \<times> nat \<Rightarrow> nat option) \<Rightarrow> field_desc list \<Rightarrow> ('g, 'i) bfield list \<Rightarrow> writer"
where
  "WriteFields pow2 symbols imap [] [] = emits []"
| "WriteFields pow2 symbols imap (fd # fds) (v # vs) =
     cat (WriteField pow2 symbols imap fd v) (WriteFields pow2 symbols imap fds vs)"
| "WriteFields pow2 symbols imap _ _ = unreachable"

text \<open>\<^verbatim>\<open>GetType\<close> has an \<^verbatim>\<open>llvm_unreachable\<close> behind the types of the instruction.\<close>

definition WriteTypes :: "inst_desc \<Rightarrow> 8 word list \<Rightarrow> writer" where
  "WriteTypes d types =
     (if NumTypes d < 0 then cat (EmitSize8 (length types)) (wlist EmitKind types)
      else wlist (\<lambda>i. if i < length types then EmitKind (types ! i) else unreachable) [0..<nat (NumTypes d)])"

definition WriteIncoming ::
  "('g \<Rightarrow> nat option) \<Rightarrow> ('i \<times> nat \<Rightarrow> nat option) \<Rightarrow> 'g \<times> ('i \<times> nat) \<Rightarrow> writer" where
  "WriteIncoming symbols imap inc =
     cat (WriteBlock symbols (fst inc))
      (case imap (snd inc) of None \<Rightarrow> Inl AssertFailed | Some i \<Rightarrow> EmitSize32 i)"

definition WriteInst ::
  "inst_desc list \<Rightarrow> (64 word \<Rightarrow> bool) \<Rightarrow> ('g \<Rightarrow> nat option) \<Rightarrow> ('i \<times> nat \<Rightarrow> nat option) \<Rightarrow> ('g, 'i) binst \<Rightarrow> writer" where
  "WriteInst insts pow2 symbols imap x =
     cat (cat (EmitSize8 (length (inst_annots x))) (wlist WriteAnnot (inst_annots x)))
      (case x of
         BPhi i annots t incoming \<Rightarrow>
           cat (EmitSize8 (phi_kind insts))
            (cat (EmitKind t)
              (cat (EmitSize16 (length incoming)) (wlist (WriteIncoming symbols imap) incoming)))
       | BInst i annots k types fs \<Rightarrow>
           cat (EmitSize8 k)
            (if k < length insts \<and> \<not> HasCustomWriter (insts ! k)
             then cat (WriteTypes (insts ! k) types) (WriteFields pow2 symbols imap (Fields (insts ! k)) fs)
             else unreachable))"

subsection \<open>Reader\<close>

definition ReadScalar :: "field_ty \<Rightarrow> (32 word) reader" where
  "ReadScalar t =
     (if is_byte t then rbind ReadData (\<lambda>v :: 8 word. rreturn (ucast v)) else ReadData)"

text \<open>\<^verbatim>\<open>v - 1\<close> is computed in the type of the field.\<close>

definition minus_one :: "field_ty \<Rightarrow> 32 word \<Rightarrow> 32 word" where
  "minus_one t v = (if is_byte t then ucast (ucast (v - 1) :: 8 word) else v - 1)"

definition ReadField ::
  "(64 word \<Rightarrow> bool) \<Rightarrow> global_kind list \<Rightarrow> (nat \<times> nat) list \<Rightarrow> field_desc \<Rightarrow> ((nat, nat) bfield) reader" where
  "ReadField pow2 globals rmap fd =
     (if IsList fd then
        (if IsScalar fd then
           rbind (rbind ReadSize16 (\<lambda>n. read_times n (ReadTypeFlag pow2))) (\<lambda>vs. rreturn (FFlags vs))
         else if Type fd = TBlock then
           rbind (rbind ReadSize16 (\<lambda>n. read_times n (ReadBlock globals))) (\<lambda>vs. rreturn (FBlocks vs))
         else
           rbind (rbind ReadSize16 (\<lambda>n. read_times n (ReadInstRef rmap))) (\<lambda>vs. rreturn (FInsts vs)))
      else if IsScalar fd then
        (if IsOptional fd then
           rbind (ReadScalar (Type fd)) (\<lambda>v.
             rreturn (FOptScalar (if v \<noteq> 0 then Some (minus_one (Type fd) v) else None)))
         else rbind (ReadScalar (Type fd)) (\<lambda>v. rreturn (FScalar v)))
      else if Type fd = TBlock then rbind (ReadBlock globals) (\<lambda>b. rreturn (FBlock b))
      else if Type fd = TValue then rbind (ReadValue globals rmap) (\<lambda>v. rreturn (FValue v))
      else rbind (ReadInstRef rmap) (\<lambda>r. rreturn (FInst r)))"

fun ReadFields ::
  "(64 word \<Rightarrow> bool) \<Rightarrow> global_kind list \<Rightarrow> (nat \<times> nat) list \<Rightarrow> field_desc list \<Rightarrow> ((nat, nat) bfield list) reader"
where
  "ReadFields pow2 globals rmap [] = rreturn []"
| "ReadFields pow2 globals rmap (fd # fds) =
     rbind (ReadField pow2 globals rmap fd) (\<lambda>v. rbind (ReadFields pow2 globals rmap fds) (\<lambda>vs. rreturn (v # vs)))"

definition ReadTypes :: "inst_desc \<Rightarrow> (8 word list) reader" where
  "ReadTypes d =
     (if NumTypes d < 0 then rbind ReadSize8 (\<lambda>n. read_times n ReadKind)
      else read_times (nat (NumTypes d)) ReadKind)"

text \<open>\<^verbatim>\<open>PhiInst::Add\<close> replaces the value of a block that is there already.\<close>

fun phi_add :: "('g \<times> 'r) list \<Rightarrow> 'g \<Rightarrow> 'r \<Rightarrow> ('g \<times> 'r) list" where
  "phi_add [] b v = [(b, v)]"
| "phi_add ((b', v') # inc) b v = (if b' = b then (b', v) # inc else (b', v') # phi_add inc b v)"

text \<open>The state of the loops of \<^verbatim>\<open>Read(Func)\<close>: the values of \<^verbatim>\<open>map\<close>, the fixups (PHI, block, index), and the number of
  instructions created, which is the pointer to the next one.\<close>

record read_state =
  read_map :: "(nat \<times> nat) list"
  read_fixups :: "(nat \<times> nat \<times> nat) list"
  read_count :: nat

definition ReadIncoming ::
  "global_kind list \<Rightarrow> nat \<Rightarrow> (nat \<times> nat) list \<Rightarrow> (nat \<times> nat \<times> nat) list \<times> (nat \<times> nat \<times> nat) list \<Rightarrow>
   (unit \<times> (nat \<times> nat \<times> nat) list \<times> (nat \<times> nat \<times> nat) list) reader" where
  "ReadIncoming globals phi rm st =
     rbind (ReadBlock globals) (\<lambda>block. rbind ReadSize32 (\<lambda>index.
       if index \<noteq> 0 then
         (if length rm < index then rreturn ((), fst st, snd st @ [(phi, block, index - 1)])
          else rreturn ((), phi_add (fst st) block (rm ! (index - 1)), snd st))
       else rfail FatalError))"

definition ReadInst ::
  "inst_desc list \<Rightarrow> (64 word \<Rightarrow> bool) \<Rightarrow> global_kind list \<Rightarrow> read_state \<Rightarrow> ((nat, nat) binst \<times> (nat \<times> nat \<times> nat) list) reader" where
  "ReadInst insts pow2 globals st =
     rbind (rbind ReadSize8 (\<lambda>n. ReadAnnots n [])) (\<lambda>annots. rbind ReadSize8 (\<lambda>k.
       if k < length insts \<and> k = phi_kind insts then
         rbind ReadKind (\<lambda>t.
           rbind (rbind ReadSize16 (\<lambda>n. read_loop n (ReadIncoming globals (read_count st) (read_map st)) ([], read_fixups st)))
             (\<lambda>(_, inc, fixups). rreturn (BPhi (read_count st) annots t inc, fixups)))
       else if k < length insts \<and> \<not> HasCustomReader (insts ! k) then
         rbind (ReadTypes (insts ! k)) (\<lambda>types. rbind (ReadFields pow2 globals (read_map st) (Fields (insts ! k))) (\<lambda>fs.
           rreturn (BInst (read_count st) annots k types fs, read_fixups st)))
       else rfail FatalError))"

text \<open>The body of the loop over the instructions of a block.\<close>

definition ReadNext ::
  "inst_desc list \<Rightarrow> (64 word \<Rightarrow> bool) \<Rightarrow> global_kind list \<Rightarrow> read_state \<Rightarrow> ((nat, nat) binst \<times> read_state) reader" where
  "ReadNext insts pow2 globals st =
     rbind (ReadInst insts pow2 globals st) (\<lambda>(x, fixups').
       rreturn (x, \<lparr>read_map = read_map st @ map (Pair (read_count st)) [0..<BGetNumRets insts x], read_fixups = fixups',
                    read_count = Suc (read_count st)\<rparr>))"

text \<open>The loop over the blocks, whose names are known from the header.\<close>

fun ReadBlocks ::
  "inst_desc list \<Rightarrow> (64 word \<Rightarrow> bool) \<Rightarrow> global_kind list \<Rightarrow> (nat \<times> byte list \<times> 8 word) list \<Rightarrow> read_state \<Rightarrow>
   ((nat, nat) bblock list \<times> read_state) reader" where
  "ReadBlocks insts pow2 globals [] st = rreturn ([], st)"
| "ReadBlocks insts pow2 globals ((b, name, vis) # hs) st =
     rbind (rbind ReadSize32 (\<lambda>n. read_loop n (ReadNext insts pow2 globals) st)) (\<lambda>(xs, st').
       rbind (ReadBlocks insts pow2 globals hs st') (\<lambda>(bs, st'').
         rreturn (BBlock b name vis xs # bs, st'')))"

text \<open>The values of the fixups are added once all instructions are there. The test \<^verbatim>\<open>idx > map.size()\<close> lets the first index
  behind the vector through.\<close>

definition add_incoming ::
  "nat \<Rightarrow> nat \<Rightarrow> nat \<times> nat \<Rightarrow> (nat, nat) binst \<Rightarrow> (nat, nat) binst" where
  "add_incoming phi block v x =
     (case x of
        BPhi i annots t inc \<Rightarrow> if i = phi then BPhi i annots t (phi_add inc block v) else x
      | BInst i annots k types fs \<Rightarrow> x)"

definition map_insts :: "(('g, 'i) binst \<Rightarrow> ('g, 'i) binst) \<Rightarrow> ('g, 'i) bblock \<Rightarrow> ('g, 'i) bblock" where
  "map_insts f b = BBlock (block_id b) (block_name b) (block_vis b) (map f (block_insts b))"

fun apply_fixups ::
  "(nat \<times> nat) list \<Rightarrow> (nat \<times> nat \<times> nat) list \<Rightarrow> (nat, nat) bblock list \<Rightarrow> ((nat, nat) bblock list) result" where
  "apply_fixups rm [] bs = returns bs"
| "apply_fixups rm ((phi, block, idx) # fs) bs =
     (if length rm < idx then Inl FatalError
      else if idx = length rm then Inl BadIterator
      else apply_fixups rm fs (map (map_insts (add_incoming phi block (rm ! idx))) bs))"

definition ReadBody ::
  "inst_desc list \<Rightarrow> (64 word \<Rightarrow> bool) \<Rightarrow> global_kind list \<Rightarrow> (nat \<times> byte list \<times> 8 word) list \<Rightarrow>
   ((nat, nat) bblock list) reader" where
  "ReadBody insts pow2 globals hs =
     rbind (ReadBlocks insts pow2 globals hs \<lparr>read_map = [], read_fixups = [], read_count = 0\<rparr>) (\<lambda>(bs, st).
       case apply_fixups (read_map st) (read_fixups st) bs of Inl e \<Rightarrow> rfail e | Inr bs' \<Rightarrow> rreturn bs')"

subsection \<open>The body of a function\<close>

text \<open>\<^verbatim>\<open>emplace\<close> with the size of the map as the value: the number of a key is its position among the keys.\<close>

definition emplace :: "'a list \<Rightarrow> 'a \<Rightarrow> 'a list" where
  "emplace keys x = (if x \<in> set keys then keys else keys @ [x])"

definition emplace_all :: "'a list \<Rightarrow> 'a list" where
  "emplace_all xs = foldl emplace [] xs"

fun position :: "'a list \<Rightarrow> 'a \<Rightarrow> nat option" where
  "position [] x = None"
| "position (y # ys) x = (if y = x then Some 0 else map_option Suc (position ys x))"

definition inst_refs :: "inst_desc list \<Rightarrow> ('g, 'i) binst \<Rightarrow> ('i \<times> nat) list" where
  "inst_refs insts x = map (Pair (inst_id x)) [0..<BGetNumRets insts x]"

text \<open>\<^verbatim>\<open>map\<close> of the writer, for the blocks in reverse post-order.\<close>

definition inst_map :: "inst_desc list \<Rightarrow> ('g, 'i) bblock list \<Rightarrow> 'i \<times> nat \<Rightarrow> nat option" where
  "inst_map insts bs r =
     map_option Suc (position (emplace_all (concat (map (inst_refs insts) (concat (map block_insts bs))))) r)"

definition WriteBody ::
  "inst_desc list \<Rightarrow> (64 word \<Rightarrow> bool) \<Rightarrow> ('g \<Rightarrow> nat option) \<Rightarrow> ('g, 'i) bblock list \<Rightarrow> writer" where
  "WriteBody insts pow2 symbols bs =
     wlist (\<lambda>b. cat (EmitSize32 (length (block_insts b)))
                 (wlist (WriteInst insts pow2 symbols (inst_map insts bs)) (block_insts b))) bs"

end
