(* ===== verification/BitcodeBody.thy ===== *)
theory BitcodeBody
  imports BitcodeInst
begin

text \<open>
  The reader of instructions and function bodies inverts the writer: the fields that
  \<^verbatim>\<open>util/inst_gen/get_bitcode.cpp\<close> derives from a record, the references backwards through \<^verbatim>\<open>map\<close>, and the PHI
  instructions, whose references to later instructions pass through the fixups. \<open>reorder\<close> is what a PHI
  instruction becomes on the way: its backward references come first.
\<close>

interpretation kind_codec: codec EmitKind ReadKind "\<lambda>_. True" "\<lambda>k. k"
  by unfold_locales simp

subsection \<open>Well-formed instructions\<close>

definition wf_scalar :: "field_ty \<Rightarrow> 32 word \<Rightarrow> bool" where
  "wf_scalar t v \<longleftrightarrow> is_byte t \<longrightarrow> unat v < 2 ^ 8"

definition scalar_max :: "field_ty \<Rightarrow> nat" where
  "scalar_max t = (if is_byte t then 2 ^ 8 - 1 else 2 ^ 32 - 1)"

definition wf_field ::
  "(64 word \<Rightarrow> bool) \<Rightarrow> ('g \<Rightarrow> bool) \<Rightarrow> ('g \<Rightarrow> bool) \<Rightarrow> ('i \<times> nat \<Rightarrow> bool) \<Rightarrow> field_desc \<Rightarrow> ('g, 'i) bfield \<Rightarrow> bool" where
  "wf_field pow2 known is_block visible fd v =
     (if IsList fd then
        (if IsScalar fd then
           (case v of FFlags vs \<Rightarrow> length vs < 2 ^ 16 \<and> list_all (wf_flag pow2) vs | _ \<Rightarrow> False)
         else
           (case v of
              FInsts vs \<Rightarrow> Type fd = TInst \<and> length vs < 2 ^ 16 \<and> list_all (pred_option visible) vs
            | FBlocks vs \<Rightarrow> Type fd = TBlock \<and> length vs < 2 ^ 16 \<and> list_all is_block vs
            | _ \<Rightarrow> False))
      else if IsScalar fd then
        (if IsOptional fd then
           (case v of FOptScalar op \<Rightarrow> pred_option (\<lambda>w. unat w < scalar_max (Type fd)) op | _ \<Rightarrow> False)
         else (case v of FScalar s \<Rightarrow> wf_scalar (Type fd) s | _ \<Rightarrow> False))
      else
        (case v of
           FInst r \<Rightarrow> Type fd = TInst \<and> pred_option visible r
         | FValue x \<Rightarrow> Type fd = TValue \<and> x \<noteq> None \<and> pred_option (wf_value known visible) x
         | FBlock b \<Rightarrow> Type fd = TBlock \<and> is_block b
         | _ \<Rightarrow> False))"

definition wf_types :: "inst_desc \<Rightarrow> 8 word list \<Rightarrow> bool" where
  "wf_types d types \<longleftrightarrow> (if NumTypes d < 0 then length types < 2 ^ 8 else length types = nat (NumTypes d))"

definition wf_inst ::
  "inst_desc list \<Rightarrow> (64 word \<Rightarrow> bool) \<Rightarrow> ('g \<Rightarrow> bool) \<Rightarrow> ('g \<Rightarrow> bool) \<Rightarrow> ('i \<times> nat \<Rightarrow> bool) \<Rightarrow> ('i \<times> nat \<Rightarrow> bool) \<Rightarrow>
   ('g, 'i) binst \<Rightarrow> bool" where
  "wf_inst insts pow2 known is_block visible defined x \<longleftrightarrow> wf_annots (inst_annots x) \<and>
     (case x of
        BPhi i annots t inc \<Rightarrow>
          phi_kind insts < length insts \<and> phi_kind insts < 2 ^ 8 \<and> length inc < 2 ^ 16 \<and> distinct (map fst inc) \<and>
          list_all (\<lambda>p. is_block (fst p) \<and> defined (snd p)) inc
      | BInst i annots k types fs \<Rightarrow>
          k < length insts \<and> k < 2 ^ 8 \<and> k \<noteq> phi_kind insts \<and> \<not> HasCustomWriter (insts ! k) \<and>
          \<not> HasCustomReader (insts ! k) \<and> wf_types (insts ! k) types \<and>
          list_all2 (wf_field pow2 known is_block visible) (Fields (insts ! k)) fs)"

lemma codes_scalar: "wf_scalar t v \<Longrightarrow> codes (WriteScalar t v) (ReadScalar t) v"
proof (cases "is_byte t")
  case True
  assume "wf_scalar t v"
  then have "ucast (ucast v :: 8 word) = v" using True by (intro ucast_down_up) (simp add: wf_scalar_def)
  then show ?thesis using True unfolding WriteScalar_def ReadScalar_def
    by simp (rule codes_last, rule codes_widths, simp)
qed (simp add: WriteScalar_def ReadScalar_def)

lemma minus_one_plus:
  assumes "unat v < scalar_max t"
  shows "wf_scalar t (v + 1)" "v + 1 \<noteq> 0" "minus_one t (v + 1) = v"
proof -
  have le: "scalar_max t \<le> 2 ^ 32 - 1" by (simp add: scalar_max_def)
  have "unat (v + 1) = (unat v + 1) mod 2 ^ 32" by (simp add: unat_word_ariths)
  then have eq: "unat (v + 1) = Suc (unat v)" using assms le by simp
  then show "v + 1 \<noteq> 0" by (metis Zero_not_Suc unsigned_0)
  show "wf_scalar t (v + 1)" using assms by (simp add: wf_scalar_def scalar_max_def eq split: if_splits)
  show "minus_one t (v + 1) = v"
    using assms by (auto simp: minus_one_def scalar_max_def intro!: ucast_down_up)
qed

lemma wf_scalar_0 [simp]: "wf_scalar t 0"
  by (simp add: wf_scalar_def)

lemma codes_types:
  assumes "wf_types d types"
  shows "codes (WriteTypes d types) (ReadTypes d) types"
proof (cases "NumTypes d < 0")
  case True
  have "codes (cat (EmitSize8 (length types)) (wlist EmitKind types)) (rbind ReadSize8 (\<lambda>n. read_times n ReadKind)) types"
    using kind_codec.counted8[of types] assms True by (simp add: wf_types_def list.pred_True)
  then show ?thesis using True by (simp add: WriteTypes_def ReadTypes_def)
next
  case False
  have len: "length types = nat (NumTypes d)" using assms False by (simp add: wf_types_def)
  have "codes (wlist (\<lambda>i. if i < length types then EmitKind (types ! i) else unreachable) [0..<length types])
      (read_times (length [0..<length types]) ReadKind) (map ((!) types) [0..<length types])"
    by (rule codes_list) simp
  then show ?thesis using False by (simp add: WriteTypes_def ReadTypes_def len[symmetric] map_nth)
qed

lemma phi_add_fresh: "b \<notin> set (map fst inc) \<Longrightarrow> phi_add inc b v = inc @ [(b, v)]"
  by (induction inc b v rule: phi_add.induct) auto

subsection \<open>Fields\<close>

context symbol_table
begin

definition is_block :: "'g \<Rightarrow> bool" where
  "is_block b \<longleftrightarrow> known b \<and> globals ! number b = G_BLOCK"

lemma codes_is_block: "is_block b \<Longrightarrow> codes (WriteBlock symbols b) (ReadBlock globals) (number b)"
  unfolding is_block_def by (blast intro: codes_block)

end

context inst_table
begin

lemma list_all_codec:
  assumes "\<And>x. ok x \<Longrightarrow> codes (wr x) rd (view x)" "length xs < 2 ^ 16" "list_all ok xs" "f (map view xs) = rreturn y"
  shows "codes (cat (EmitSize16 (length xs)) (wlist wr xs)) (rbind (rbind ReadSize16 (\<lambda>n. read_times n rd)) f) y"
proof -
  have "codec wr rd ok view" by unfold_locales (rule assms(1))
  then show ?thesis
    by (intro codes_last[OF codec.counted16]) (use assms in simp_all)
qed

lemma ref_eq: "ref = map_prod inst_number id"
  by (auto simp: ref_def fun_eq_iff)

lemma codes_field_single:
  assumes "wf_field pow2 known is_block visible fd v" "\<not> IsList fd"
  shows "codes (WriteField pow2 symbols imap fd v) (ReadField pow2 globals rmap fd) (map_bfield number inst_number v)"
proof (cases "IsScalar fd")
  case True
  then show ?thesis
    using assms unfolding WriteField_def ReadField_def wf_field_def
    by (cases v) (auto simp: minus_one_plus split: option.splits if_splits intro!: codes_last[OF codes_scalar])
next
  case False
  then show ?thesis
    using assms unfolding WriteField_def ReadField_def wf_field_def
    by (cases v) (auto simp: ref_eq option.map_comp split: option.splits if_splits
        intro: codes_last[OF codes_inst_ref] codes_last[OF codes_value] codes_last[OF codes_is_block])
qed

lemma codes_field:
  assumes "wf_field pow2 known is_block visible fd v"
  shows "codes (WriteField pow2 symbols imap fd v) (ReadField pow2 globals rmap fd) (map_bfield number inst_number v)"
proof (cases "IsList fd")
  case True
  then show ?thesis
    using assms unfolding ReadField_def
    by (auto simp: WriteField_def wf_field_def ref_eq split: bfield.splits if_splits
        intro!: list_all_codec[OF codes_flag] list_all_codec[OF codes_inst_ref] list_all_codec[OF codes_is_block])
qed (rule codes_field_single[OF assms])

lemma codes_fields:
  assumes "list_all2 (wf_field pow2 known is_block visible) fds vs"
  shows "codes (WriteFields pow2 symbols imap fds vs) (ReadFields pow2 globals rmap fds) (map (map_bfield number inst_number) vs)"
  using assms
proof (induction rule: list_all2_induct)
  case (Cons fd fds v vs)
  then show ?case by simp (rule codes_bind, erule codes_field, rule codes_last, assumption, simp)
qed simp

subsection \<open>PHI instructions\<close>

definition backward :: "'i \<times> nat \<Rightarrow> bool" where
  "backward r \<longleftrightarrow> (case imap r of None \<Rightarrow> False | Some i \<Rightarrow> i \<le> length rmap)"

definition behind :: "('g \<times> ('i \<times> nat)) list \<Rightarrow> (nat \<times> (nat \<times> nat)) list" where
  "behind inc = map (map_prod number ref) (filter (\<lambda>p. backward (snd p)) inc)"

definition forward :: "nat \<Rightarrow> ('g \<times> ('i \<times> nat)) list \<Rightarrow> (nat \<times> nat \<times> nat) list" where
  "forward phi inc = map (\<lambda>p. (phi, number (fst p), the (imap (snd p)) - 1)) (filter (\<lambda>p. \<not> backward (snd p)) inc)"

definition defined :: "'i \<times> nat \<Rightarrow> bool" where
  "defined r \<longleftrightarrow> (case imap r of None \<Rightarrow> False | Some i \<Rightarrow> i < 2 ^ 32)"

lemma codes_incoming:
  assumes "list_all (\<lambda>p. is_block (fst p) \<and> defined (snd p)) inc" "distinct (map fst acc @ map (number \<circ> fst) inc)"
  shows "codes (wlist (WriteIncoming symbols imap) inc) (read_loop (length inc) (ReadIncoming globals phi rmap) (acc, fx))
    (replicate (length inc) (), acc @ behind inc, fx @ forward phi inc)"
  using assms
proof (induction inc arbitrary: acc fx)
  case (Cons p inc)
  obtain i where i: "imap (snd p) = Some i" "i < 2 ^ 32" "0 < i" "is_block (fst p)"
    using Cons.prems(1) met by (auto simp: defined_def split: option.splits)
  define acc' where "acc' = (if backward (snd p) then acc @ [(number (fst p), ref (snd p))] else acc)"
  define fx' where "fx' = (if backward (snd p) then fx else fx @ [(phi, number (fst p), i - 1)])"
  have fresh: "number (fst p) \<notin> set (map fst acc)" using Cons.prems(2) by auto
  have "codes (WriteIncoming symbols imap p) (ReadIncoming globals phi rmap (acc, fx)) ((), acc', fx')"
    unfolding WriteIncoming_def ReadIncoming_def i(1)
    by (rule codes_bind, rule codes_is_block[OF i(4)], unfold option.case, rule codes_last, rule codes_size32[OF i(2)])
      (use i(1,3) fresh met[OF i(1)] in \<open>auto simp: acc'_def fx'_def backward_def phi_add_fresh ref_def\<close>)
  moreover have "codes (wlist (WriteIncoming symbols imap) inc) (read_loop (length inc) (ReadIncoming globals phi rmap) (acc', fx'))
      (replicate (length inc) (), acc' @ behind inc, fx' @ forward phi inc)"
    by (rule Cons.IH) (use Cons.prems in \<open>auto simp: acc'_def\<close>)
  ultimately show ?case
    by simp (rule codes_bind, assumption, simp, rule codes_last, assumption,
        simp add: acc'_def fx'_def behind_def forward_def i(1) map_prod_def case_prod_unfold)
qed (simp add: behind_def forward_def)

subsection \<open>Instructions\<close>

definition read_view :: "nat \<Rightarrow> ('g, 'i) binst \<Rightarrow> (nat, nat) binst" where
  "read_view n x = (case x of
     BPhi i annots t inc \<Rightarrow> BPhi n annots t (behind inc)
   | BInst i annots k types fs \<Rightarrow> BInst n annots k types (map (map_bfield number inst_number) fs))"

definition fixups_of :: "nat \<Rightarrow> ('g, 'i) binst \<Rightarrow> (nat \<times> nat \<times> nat) list" where
  "fixups_of n x = (case x of BPhi i annots t inc \<Rightarrow> forward n inc | BInst i annots k types fs \<Rightarrow> [])"

lemma distinct_numbers:
  assumes "list_all (\<lambda>p. is_block (fst p) \<and> d p) inc" "distinct (map fst inc)"
  shows "distinct (map (number \<circ> fst) inc)"
proof -
  have "inj_on number (set (map fst inc))"
    using assms(1) by (auto simp: inj_on_def list_all_iff is_block_def number_inject)
  then show ?thesis using assms(2) by (simp add: distinct_map comp_inj_on)
qed

lemma codes_inst:
  assumes "wf_inst insts pow2 known is_block visible defined x" "read_map st = rmap"
  shows "codes (WriteInst insts pow2 symbols imap x) (ReadInst insts pow2 globals st)
    (read_view (read_count st) x, read_fixups st @ fixups_of (read_count st) x)"
proof (cases x)
  case (BPhi i annots t inc)
  have wf: "wf_annots annots" "phi_kind insts < length insts" "phi_kind insts < 2 ^ 8" "length inc < 2 ^ 16"
      "distinct (map fst inc)" "list_all (\<lambda>p. is_block (fst p) \<and> defined (snd p)) inc"
    using assms(1) by (simp_all add: BPhi wf_inst_def)
  have "codes (cat (EmitSize16 (length inc)) (wlist (WriteIncoming symbols imap) inc))
      (rbind ReadSize16 (\<lambda>n. read_loop n (ReadIncoming globals (read_count st) (read_map st)) ([], read_fixups st)))
      (replicate (length inc) (), behind inc, read_fixups st @ forward (read_count st) inc)"
    by (rule codes_bind, rule codes_size16[OF wf(4)])
      (use codes_incoming[OF wf(6), of "[]"] distinct_numbers[OF wf(6,5)] assms(2) in simp)
  then show ?thesis
    unfolding BPhi WriteInst_def ReadInst_def
    by simp (rule codes_bind, rule codes_annots[OF wf(1)], rule codes_bind, rule codes_size8[OF wf(3)],
        simp add: wf(2), rule codes_kind, rule codes_last, assumption, simp add: read_view_def fixups_of_def)
next
  case (BInst i annots k types fs)
  have wf: "wf_annots annots" "k < length insts" "k < 2 ^ 8" "k \<noteq> phi_kind insts" "\<not> HasCustomWriter (insts ! k)"
      "\<not> HasCustomReader (insts ! k)" "wf_types (insts ! k) types"
      "list_all2 (wf_field pow2 known is_block visible) (Fields (insts ! k)) fs"
    using assms(1) by (simp_all add: BInst wf_inst_def)
  show ?thesis
    unfolding BInst WriteInst_def ReadInst_def
    by (simp add: wf) (rule codes_bind, rule codes_annots[OF wf(1)], rule codes_bind, rule codes_size8[OF wf(3)],
        simp add: wf assms(2), rule codes_bind, rule codes_types[OF wf(7)], rule codes_last, rule codes_fields[OF wf(8)],
        simp add: read_view_def fixups_of_def)
qed

lemma GetNumRets_view [simp]: "BGetNumRets insts (read_view n x) = BGetNumRets insts x"
  by (cases x) (simp_all add: read_view_def)

lemma codes_next:
  assumes "wf_inst insts pow2 known is_block visible defined x" "read_map st = rmap"
  shows "codes (WriteInst insts pow2 symbols imap x) (ReadNext insts pow2 globals st)
    (read_view (read_count st) x,
     \<lparr>read_map = rmap @ map (Pair (read_count st)) [0..<BGetNumRets insts x],
      read_fixups = read_fixups st @ fixups_of (read_count st) x, read_count = Suc (read_count st)\<rparr>)"
  unfolding ReadNext_def by (rule codes_last, rule codes_inst[OF assms]) (simp add: assms(2))

end

end
