(* ===== verification/BitcodeFunc.thy ===== *)
theory BitcodeFunc
  imports BitcodeBody
begin

text \<open>
  The body of a function: what \<^verbatim>\<open>Read(Func)\<close> makes of the blocks that \<^verbatim>\<open>Write(Func)\<close> has written. The reader meets
  the instructions in the order of the file; at each of them its \<^verbatim>\<open>map\<close> holds the values of those before, so a
  reference is resolved at once when it points backwards, and through a fixup when a PHI points forwards.
\<close>

subsection \<open>Numbers of keys\<close>

lemma position_Some: "position xs x = Some k \<Longrightarrow> k < length xs \<and> xs ! k = x"
  by (induction xs arbitrary: k) (auto split: if_splits)

lemma position_None [simp]: "position xs x = None \<longleftrightarrow> x \<notin> set xs"
  by (induction xs) auto

lemma position_append: "x \<notin> set xs \<Longrightarrow> position (xs @ x # ys) x = Some (length xs)"
  by (induction xs) auto

lemma position_inject: "position xs x = Some k \<Longrightarrow> position xs y = Some k \<Longrightarrow> x = y"
  using position_Some by metis

lemma emplace_distinct: "distinct (ys @ xs) \<Longrightarrow> foldl emplace ys xs = ys @ xs"
  by (induction xs arbitrary: ys) (simp_all add: emplace_def)

lemma emplace_all_distinct [simp]: "distinct xs \<Longrightarrow> emplace_all xs = xs"
  using emplace_distinct[of "[]" xs] by (simp add: emplace_all_def)

subsection \<open>The instructions of a function\<close>

definition all_insts :: "('g, 'i) bblock list \<Rightarrow> ('g, 'i) binst list" where
  "all_insts bs = concat (map block_insts bs)"

definition all_refs :: "inst_desc list \<Rightarrow> ('g, 'i) binst list \<Rightarrow> ('i \<times> nat) list" where
  "all_refs insts xs = concat (map (inst_refs insts) xs)"

definition inst_pos :: "('g, 'i) binst list \<Rightarrow> 'i \<Rightarrow> nat" where
  "inst_pos xs i = the (position (map inst_id xs) i)"

definition before :: "('g, 'i) binst list \<Rightarrow> ('g, 'i) binst \<Rightarrow> ('g, 'i) binst list" where
  "before xs x = takeWhile (\<lambda>y. inst_id y \<noteq> inst_id x) xs"

definition visible_at :: "inst_desc list \<Rightarrow> ('g, 'i) bblock list \<Rightarrow> ('g, 'i) binst \<Rightarrow> 'i \<times> nat \<Rightarrow> bool" where
  "visible_at insts bs x r =
     (case inst_map insts bs r of
        None \<Rightarrow> False
      | Some i \<Rightarrow> i \<le> length (all_refs insts (before (all_insts bs) x)))"

definition wf_body ::
  "inst_desc list \<Rightarrow> (64 word \<Rightarrow> bool) \<Rightarrow> ('g \<Rightarrow> bool) \<Rightarrow> ('g \<Rightarrow> bool) \<Rightarrow> ('g, 'i) bblock list \<Rightarrow> bool" where
  "wf_body insts pow2 known is_block bs \<longleftrightarrow>
     distinct (map inst_id (all_insts bs)) \<and> length (all_refs insts (all_insts bs)) < 2 ^ 32 \<and>
     list_all (\<lambda>b. length (block_insts b) < 2 ^ 32) bs \<and>
     list_all (\<lambda>x. wf_inst insts pow2 known is_block (visible_at insts bs x) (\<lambda>r. inst_map insts bs r \<noteq> None) x)
       (all_insts bs)"

text \<open>A PHI instruction is read with its backward references first.\<close>

definition reorder :: "inst_desc list \<Rightarrow> ('g, 'i) bblock list \<Rightarrow> ('g, 'i) binst \<Rightarrow> ('g, 'i) binst" where
  "reorder insts bs x =
     (case x of
        BPhi i annots t inc \<Rightarrow>
          BPhi i annots t (filter (\<lambda>p. visible_at insts bs x (snd p)) inc @ filter (\<lambda>p. \<not> visible_at insts bs x (snd p)) inc)
      | BInst i annots k types fs \<Rightarrow> x)"

lemma all_refs_append [simp]: "all_refs insts (xs @ ys) = all_refs insts xs @ all_refs insts ys"
  and all_refs_Cons: "all_refs insts (x # xs) = inst_refs insts x @ all_refs insts xs"
  and all_refs_Nil [simp]: "all_refs insts [] = []"
  by (simp_all add: all_refs_def)

lemma fst_all_refs: "r \<in> set (all_refs insts xs) \<Longrightarrow> fst r \<in> inst_id ` set xs"
  by (auto simp: all_refs_def inst_refs_def)

lemma distinct_all_refs: "distinct (map inst_id xs) \<Longrightarrow> distinct (all_refs insts xs)"
proof (induction xs)
  case (Cons x xs)
  have "set (inst_refs insts x) \<inter> set (all_refs insts xs) = {}"
    using Cons.prems by (force simp: inst_refs_def dest: fst_all_refs)
  moreover have "distinct (inst_refs insts x)" by (simp add: inst_refs_def distinct_map inj_on_def)
  ultimately show ?case using Cons by (simp add: all_refs_Cons)
qed simp

lemma before_split: "distinct (map inst_id (p @ x # q)) \<Longrightarrow> before (p @ x # q) x = p"
  by (induction p) (auto simp: before_def)

lemma inst_pos_split: "distinct (map inst_id (p @ x # q)) \<Longrightarrow> inst_pos (p @ x # q) (inst_id x) = length p"
  using position_append[of "inst_id x" "map inst_id p" "map inst_id q"] by (auto simp: inst_pos_def)

lemma inst_map_eq:
  "distinct (map inst_id (all_insts bs)) \<Longrightarrow>
   inst_map insts bs r = map_option Suc (position (all_refs insts (all_insts bs)) r)"
  using distinct_all_refs[of "all_insts bs" insts] by (simp add: inst_map_def all_refs_def all_insts_def)

subsection \<open>The tables at each instruction\<close>

definition seen :: "inst_desc list \<Rightarrow> ('g, 'i) bblock list \<Rightarrow> nat \<Rightarrow> (nat \<times> nat) list" where
  "seen insts bs n = map (map_prod (inst_pos (all_insts bs)) id)
     (take n (emplace_all (concat (map (inst_refs insts) (concat (map block_insts bs))))))"

lemma seen_inst_table:
  assumes "symbol_table symbols globals"
  shows "inst_table symbols globals (inst_map insts bs) (seen insts bs n) (inst_pos (all_insts bs))"
proof (intro inst_table.intro[OF assms] inst_table_axioms.intro)
  fix r i assume "inst_map insts bs r = Some i"
  then obtain k where k: "position (emplace_all (concat (map (inst_refs insts) (concat (map block_insts bs))))) r = Some k"
      "i = Suc k"
    by (auto simp: inst_map_def)
  show "0 < i \<and> (i \<le> length (seen insts bs n) \<longrightarrow>
      seen insts bs n ! (i - 1) = (inst_pos (all_insts bs) (fst r), snd r))"
    using position_Some[OF k(1)] k(2) by (simp add: seen_def map_prod_def case_prod_unfold)
qed

lemma seen_prefix:
  assumes "distinct (map inst_id (all_insts bs))" "all_insts bs = p @ q"
  shows "seen insts bs (length (all_refs insts p)) = map (map_prod (inst_pos (all_insts bs)) id) (all_refs insts p)"
  using distinct_all_refs[OF assms(1), of insts] assms(2)
  by (simp add: seen_def all_insts_def[symmetric] all_refs_def[symmetric])

subsection \<open>Loops\<close>

lemma codes_loop_prefix:
  assumes "\<And>p x q. xs = p @ x # q \<Longrightarrow> codes (wr x) (rd (S (pre @ p))) (v x, S (pre @ p @ [x]))"
  shows "codes (wlist wr xs) (read_loop (length xs) rd (S pre)) (map v xs, S (pre @ xs))"
  using assms
proof (induction xs arbitrary: pre)
  case (Cons x xs)
  have hd: "codes (wr x) (rd (S pre)) (v x, S (pre @ [x]))" using Cons.prems[of "[]" x xs] by simp
  have tl: "codes (wlist wr xs) (read_loop (length xs) rd (S (pre @ [x]))) (map v xs, S ((pre @ [x]) @ xs))"
    by (rule Cons.IH) (use Cons.prems[of "x # p" for p] in simp)
  show ?case
    by simp (rule codes_bind, rule hd, simp, rule codes_last, rule tl, simp)
qed simp

sublocale symbol_table \<subseteq> at: inst_table symbols globals "inst_map insts bs" "seen insts bs n"
  "inst_pos (all_insts bs)" for insts and bs :: "('g, 'i) bblock list" and n
  by (rule seen_inst_table[OF symbol_table_axioms])

context symbol_table
begin

definition refs_before :: "inst_desc list \<Rightarrow> ('g, 'i) bblock list \<Rightarrow> ('g, 'i) binst \<Rightarrow> nat" where
  "refs_before insts bs x = length (all_refs insts (before (all_insts bs) x))"

definition count_before :: "('g, 'i) bblock list \<Rightarrow> ('g, 'i) binst \<Rightarrow> nat" where
  "count_before bs x = length (before (all_insts bs) x)"

definition view_at :: "inst_desc list \<Rightarrow> ('g, 'i) bblock list \<Rightarrow> ('g, 'i) binst \<Rightarrow> (nat, nat) binst" where
  "view_at insts bs x = at.read_view insts bs (refs_before insts bs x) (count_before bs x) x"

definition fixups_at :: "inst_desc list \<Rightarrow> ('g, 'i) bblock list \<Rightarrow> ('g, 'i) binst \<Rightarrow> (nat \<times> nat \<times> nat) list" where
  "fixups_at insts bs x = at.fixups_of insts bs (refs_before insts bs x) (count_before bs x) x"

definition state_after :: "inst_desc list \<Rightarrow> ('g, 'i) bblock list \<Rightarrow> ('g, 'i) binst list \<Rightarrow> read_state" where
  "state_after insts bs p =
     \<lparr>read_map = map (map_prod (inst_pos (all_insts bs)) id) (all_refs insts p),
      read_fixups = concat (map (fixups_at insts bs) p), read_count = length p\<rparr>"

lemma wf_inst_at:
  assumes "wf_body insts pow2 known is_block bs" "all_insts bs = p @ x # q"
  shows "wf_inst insts pow2 known is_block (at.visible insts bs (length (all_refs insts p))) (at.defined insts bs) x"
proof -
  have d: "distinct (map inst_id (all_insts bs))" and small: "length (all_refs insts (all_insts bs)) < 2 ^ 32"
    and wf: "wf_inst insts pow2 known is_block (visible_at insts bs x) (\<lambda>r. inst_map insts bs r \<noteq> None) x"
    using assms by (simp_all add: wf_body_def)
  have p: "before (all_insts bs) x = p" using before_split[of p x q] d by (simp add: assms(2))
  have len: "length (seen insts bs (length (all_refs insts p))) = length (all_refs insts p)"
    using seen_prefix[OF d assms(2)] by simp
  have "length (all_refs insts p) < 2 ^ 32" using small by (simp add: assms(2))
  then have "at.visible insts bs (length (all_refs insts p)) = visible_at insts bs x"
    by (simp add: fun_eq_iff at.visible_def visible_at_def p len split: option.splits)
  moreover have "at.defined insts bs r \<longleftrightarrow> inst_map insts bs r \<noteq> None" for r
    using small by (auto simp: at.defined_def inst_map_eq[OF d] dest!: position_Some split: option.splits)
  ultimately show ?thesis using wf by presburger
qed

lemma codes_next_at:
  assumes "wf_body insts pow2 known is_block bs" "all_insts bs = p @ x # q"
  shows "codes (WriteInst insts pow2 symbols (inst_map insts bs) x) (ReadNext insts pow2 globals (state_after insts bs p))
    (view_at insts bs x, state_after insts bs (p @ [x]))"
proof -
  have d: "distinct (map inst_id (all_insts bs))" using assms by (simp add: wf_body_def)
  have p: "before (all_insts bs) x = p" using before_split[of p x q] d by (simp add: assms(2))
  have pos: "inst_pos (all_insts bs) (inst_id x) = length p" using inst_pos_split[of p x q] d by (simp add: assms(2))
  have "read_map (state_after insts bs p) = seen insts bs (length (all_refs insts p))"
    using seen_prefix[OF d assms(2)] by (simp add: state_after_def)
  from at.codes_next[OF wf_inst_at[OF assms] this]
  show ?thesis
    by (simp add: state_after_def view_at_def fixups_at_def refs_before_def count_before_def p all_refs_Cons inst_refs_def
        seen_prefix[OF d assms(2)] pos map_prod_def comp_def)
qed

lemma codes_blocks:
  assumes "wf_body insts pow2 known is_block bs" "bs = bs1 @ bs2"
  shows "codes
    (wlist (\<lambda>b. cat (EmitSize32 (length (block_insts b))) (wlist (WriteInst insts pow2 symbols (inst_map insts bs)) (block_insts b))) bs2)
    (ReadBlocks insts pow2 globals (map (\<lambda>b. (number (block_id b), block_name b, block_vis b)) bs2)
      (state_after insts bs (all_insts bs1)))
    (map (\<lambda>b. BBlock (number (block_id b)) (block_name b) (block_vis b) (map (view_at insts bs) (block_insts b))) bs2,
     state_after insts bs (all_insts bs))"
  using assms(2)
proof (induction bs2 arbitrary: bs1)
  case (Cons b bs2)
  have len: "length (block_insts b) < 2 ^ 32" using assms(1) Cons.prems by (simp add: wf_body_def)
  have loop: "codes (wlist (WriteInst insts pow2 symbols (inst_map insts bs)) (block_insts b))
      (read_loop (length (block_insts b)) (ReadNext insts pow2 globals) (state_after insts bs (all_insts bs1)))
      (map (view_at insts bs) (block_insts b), state_after insts bs (all_insts bs1 @ block_insts b))"
  proof (rule codes_loop_prefix)
    fix p x q assume "block_insts b = p @ x # q"
    then have "all_insts bs = (all_insts bs1 @ p) @ x # (q @ all_insts bs2)" using Cons.prems by (simp add: all_insts_def)
    from codes_next_at[OF assms(1) this]
    show "codes (WriteInst insts pow2 symbols (inst_map insts bs) x)
        (ReadNext insts pow2 globals (state_after insts bs (all_insts bs1 @ p)))
        (view_at insts bs x, state_after insts bs (all_insts bs1 @ p @ [x]))" by simp
  qed
  have "bs = (bs1 @ [b]) @ bs2" using Cons.prems by simp
  from Cons.IH[OF this] show ?case
    by (simp add: all_insts_def del: map_map) (rule codes_bind, rule codes_bind, rule codes_size32[OF len],
        rule loop[unfolded all_insts_def], simp, rule codes_last, assumption, simp)
qed (simp add: all_insts_def)

end

subsection \<open>Fixups\<close>

abbreviation add_fixup :: "(nat \<times> nat) list \<Rightarrow> (nat, nat) binst \<Rightarrow> nat \<times> nat \<times> nat \<Rightarrow> (nat, nat) binst" where
  "add_fixup rm x f \<equiv> add_incoming (fst f) (fst (snd f)) (rm ! snd (snd f)) x"

lemma map_insts_comp [simp]: "map_insts f (map_insts g b) = map_insts (f \<circ> g) b"
  and map_insts_id [simp]: "map_insts (\<lambda>x. x) = (\<lambda>b. b)"
  by (simp_all add: map_insts_def fun_eq_iff)

lemma add_incoming_simps [simp]:
  "add_incoming n b v (BInst i annots k types fs) = BInst i annots k types fs"
  "add_incoming n b v (BPhi i annots t inc) = BPhi i annots t (if i = n then phi_add inc b v else inc)"
  by (simp_all add: add_incoming_def)

lemma apply_fixups_ok:
  "list_all (\<lambda>f. snd (snd f) < length rm) fs \<Longrightarrow>
   apply_fixups rm fs bs = returns (map (map_insts (\<lambda>x. foldl (add_fixup rm) x fs)) bs)"
  by (induction rm fs bs rule: apply_fixups.induct) (auto simp: comp_def)

lemma foldl_fixup_inst: "foldl (add_fixup rm) (BInst i annots k types fs) fx = BInst i annots k types fs"
  by (induction fx) simp_all

lemma foldl_fixup_phi:
  "foldl (add_fixup rm) (BPhi n annots t inc) fx =
   BPhi n annots t (foldl (\<lambda>inc f. phi_add inc (fst (snd f)) (rm ! snd (snd f))) inc (filter (\<lambda>f. fst f = n) fx))"
  by (induction fx arbitrary: inc) simp_all

lemma foldl_phi_add:
  "distinct (map fst inc @ map (\<lambda>f. fst (snd f)) fx) \<Longrightarrow>
   foldl (\<lambda>inc f. phi_add inc (fst (snd f)) (rm ! snd (snd f))) inc fx =
   inc @ map (\<lambda>f. (fst (snd f), rm ! snd (snd f))) fx"
  by (induction fx arbitrary: inc) (auto simp: phi_add_fresh)

context symbol_table
begin

lemma fst_fixups_at: "f \<in> set (fixups_at insts bs x) \<Longrightarrow> fst f = count_before bs x"
  by (auto simp: fixups_at_def at.fixups_of_def at.forward_def split: binst.splits)

lemma count_before_split:
  "distinct (map inst_id (all_insts bs)) \<Longrightarrow> all_insts bs = p @ x # q \<Longrightarrow> count_before bs x = length p"
  using before_split[of p x q] by (simp add: count_before_def)

lemma fixups_mine:
  assumes "distinct (map inst_id (all_insts bs))" "all_insts bs = p @ x # q"
  shows "filter (\<lambda>f. fst f = count_before bs x) (concat (map (fixups_at insts bs) (all_insts bs))) = fixups_at insts bs x"
proof -
  have x: "count_before bs x = length p" by (rule count_before_split[OF assms])
  have p: "count_before bs y \<noteq> length p" if y: "y \<in> set p" for y
  proof -
    obtain p1 p2 where "p = p1 @ y # p2" using split_list[OF y] by blast
    then show ?thesis using count_before_split[OF assms(1), of p1 y "p2 @ x # q"] assms(2) by simp
  qed
  have q: "count_before bs y \<noteq> length p" if y: "y \<in> set q" for y
  proof -
    obtain q1 q2 where "q = q1 @ y # q2" using split_list[OF y] by blast
    then show ?thesis using count_before_split[OF assms(1), of "p @ x # q1" y q2] assms(2) by simp
  qed
  have none: "filter (\<lambda>f. fst f = length p) (concat (map (fixups_at insts bs) xs)) = []"
    if h: "\<And>y. y \<in> set xs \<Longrightarrow> count_before bs y \<noteq> length p" for xs
    by (simp add: filter_empty_conv) (metis fst_conv fst_fixups_at h)
  have mine: "filter (\<lambda>f. fst f = length p) (fixups_at insts bs x) = fixups_at insts bs x"
    by (auto simp: filter_id_conv x dest: fst_fixups_at)
  show ?thesis by (simp add: assms(2) x none[OF p] none[OF q] mine)
qed

lemma fixups_in_range:
  assumes "wf_body insts pow2 known is_block bs" "x \<in> set (all_insts bs)" "f \<in> set (fixups_at insts bs x)"
  shows "snd (snd f) < length (all_refs insts (all_insts bs))"
proof -
  have d: "distinct (map inst_id (all_insts bs))" using assms(1) by (simp add: wf_body_def)
  have wf: "wf_inst insts pow2 known is_block (visible_at insts bs x) (\<lambda>r. inst_map insts bs r \<noteq> None) x"
    using assms(1,2) by (simp add: wf_body_def list_all_iff)
  show ?thesis
  proof (cases x)
    case (BPhi i annots t inc)
    then obtain p where p: "p \<in> set inc" "snd (snd f) = the (inst_map insts bs (snd p)) - 1"
      using assms(3) by (auto simp: fixups_at_def at.fixups_of_def at.forward_def)
    then obtain k where "inst_map insts bs (snd p) = Some k"
      using wf by (auto simp: BPhi wf_inst_def list_all_iff)
    then show ?thesis using p(2) by (auto simp: inst_map_eq[OF d] dest: position_Some)
  qed (use assms(3) in \<open>simp add: fixups_at_def at.fixups_of_def\<close>)
qed

lemma seen_all_nth:
  assumes "distinct (map inst_id (all_insts bs))" "inst_map insts bs r = Some i"
  shows "map (map_prod (inst_pos (all_insts bs)) id) (all_refs insts (all_insts bs)) ! (i - 1) =
    map_prod (inst_pos (all_insts bs)) id r"
  using assms(2) by (auto simp: inst_map_eq[OF assms(1)] dest!: position_Some)

lemma inst_after_fixups:
  assumes "wf_body insts pow2 known is_block bs" "x \<in> set (all_insts bs)"
  shows "foldl (add_fixup (map (map_prod (inst_pos (all_insts bs)) id) (all_refs insts (all_insts bs)))) (view_at insts bs x)
      (concat (map (fixups_at insts bs) (all_insts bs))) =
    map_binst number (inst_pos (all_insts bs)) (reorder insts bs x)"
proof -
  obtain p q where pq: "all_insts bs = p @ x # q" using split_list[OF assms(2)] by blast
  have d: "distinct (map inst_id (all_insts bs))" using assms(1) by (simp add: wf_body_def)
  have pos: "inst_pos (all_insts bs) (inst_id x) = count_before bs x"
    using inst_pos_split[of p x q] count_before_split[OF d pq] d by (simp add: pq)
  show ?thesis
  proof (cases x)
    case (BInst i annots k types fs)
    then show ?thesis
      using pos by (simp add: view_at_def at.read_view_def foldl_fixup_inst reorder_def)
  next
    case (BPhi i annots t inc)
    let ?n = "refs_before insts bs x" and ?rm = "map (map_prod (inst_pos (all_insts bs)) id) (all_refs insts (all_insts bs))"
    have bw: "at.backward insts bs ?n = visible_at insts bs x"
      unfolding fun_eq_iff at.backward_def visible_at_def refs_before_def
      using seen_prefix[OF d pq] before_split[of p x q] d by (simp add: pq split: option.splits)
    have wf: "list_all (\<lambda>p. is_block (fst p) \<and> inst_map insts bs (snd p) \<noteq> None) inc" "distinct (map fst inc)"
    proof -
      have "wf_inst insts pow2 known is_block (visible_at insts bs x) (\<lambda>r. inst_map insts bs r \<noteq> None) x"
        using assms by (simp add: wf_body_def list_all_iff)
      then show "list_all (\<lambda>p. is_block (fst p) \<and> inst_map insts bs (snd p) \<noteq> None) inc" "distinct (map fst inc)"
        by (simp_all add: BPhi wf_inst_def)
    qed
    have nums: "distinct (map (number \<circ> fst) inc)" by (rule at.distinct_numbers[OF wf])
    let ?add = "\<lambda>inc f. phi_add inc (fst (snd f)) (?rm ! snd (snd f))"
    have "distinct (map fst (at.behind insts bs ?n inc) @ map (\<lambda>f. fst (snd f)) (at.forward insts bs ?n (count_before bs x) inc))"
      using nums by (auto simp: at.behind_def at.forward_def comp_def distinct_map inj_on_def intro: distinct_filter)
    then have "foldl ?add (at.behind insts bs ?n inc) (at.forward insts bs ?n (count_before bs x) inc) =
        at.behind insts bs ?n inc @
        map (\<lambda>f. (fst (snd f), ?rm ! snd (snd f))) (at.forward insts bs ?n (count_before bs x) inc)"
      by (rule foldl_phi_add)
    also have "\<dots> = map (map_prod number (map_prod (inst_pos (all_insts bs)) id))
        (filter (\<lambda>p. visible_at insts bs x (snd p)) inc @ filter (\<lambda>p. \<not> visible_at insts bs x (snd p)) inc)"
      using wf(1) seen_all_nth[OF d]
      by (auto simp: at.behind_def at.forward_def bw at.ref_eq list_all_iff map_prod_def case_prod_unfold)
    finally show ?thesis
      using fixups_mine[OF d pq] pos
      by (simp add: BPhi view_at_def at.read_view_def foldl_fixup_phi reorder_def fixups_at_def at.fixups_of_def)
  qed
qed

lemma codes_body:
  assumes "wf_body insts pow2 known is_block bs"
  shows "codes (WriteBody insts pow2 symbols bs)
    (ReadBody insts pow2 globals (map (\<lambda>b. (number (block_id b), block_name b, block_vis b)) bs))
    (map (\<lambda>b. map_bblock number (inst_pos (all_insts bs)) (map_insts (reorder insts bs) b)) bs)"
proof -
  let ?rm = "map (map_prod (inst_pos (all_insts bs)) id) (all_refs insts (all_insts bs))"
  let ?fx = "concat (map (fixups_at insts bs) (all_insts bs))"
  let ?bs = "map (\<lambda>b. BBlock (number (block_id b)) (block_name b) (block_vis b) (map (view_at insts bs) (block_insts b))) bs"
  have "list_all (\<lambda>f. snd (snd f) < length ?rm) ?fx"
    using fixups_in_range[OF assms] by (auto simp: list_all_iff)
  then have "apply_fixups ?rm ?fx ?bs = returns (map (map_insts (\<lambda>x. foldl (add_fixup ?rm) x ?fx)) ?bs)"
    by (rule apply_fixups_ok)
  also have "map (map_insts (\<lambda>x. foldl (add_fixup ?rm) x ?fx)) ?bs =
      map (\<lambda>b. map_bblock number (inst_pos (all_insts bs)) (map_insts (reorder insts bs) b)) bs"
    using inst_after_fixups[OF assms]
    by (auto simp: map_insts_def all_insts_def bblock.map_sel intro!: bblock.expand)
  finally have "apply_fixups ?rm ?fx ?bs =
      returns (map (\<lambda>b. map_bblock number (inst_pos (all_insts bs)) (map_insts (reorder insts bs) b)) bs)" .
  moreover have start: "state_after insts bs (all_insts []) = \<lparr>read_map = [], read_fixups = [], read_count = 0\<rparr>"
    by (simp add: state_after_def all_insts_def)
  ultimately show ?thesis
    unfolding WriteBody_def ReadBody_def
    by - (rule codes_last, rule codes_blocks[OF assms, of "[]" bs, unfolded start], simp, simp add: state_after_def)
qed

end

end
