(* ===== verification/BitcodeProg.thy ===== *)
theory BitcodeProg
  imports BitcodeFunc
begin

text \<open>
  Whole programs: the header with the names of all symbols, from which the writer numbers them and the reader creates
  them, then the contents of data, functions, externs and constructors (\<^verbatim>\<open>BitcodeWriter::Write(Prog)\<close>,
  \<^verbatim>\<open>BitcodeReader::Read\<close>). The order in which the writer visits the blocks of a function, LLVM's
  \<^verbatim>\<open>ReversePostOrderTraversal\<close>, is the parameter \<open>rpot\<close> on the list of its blocks. The names of the symbols of a
  program are distinct; what \<^verbatim>\<open>Prog::insertGlobal\<close> does to a file that repeats a name is not modelled.
\<close>

subsection \<open>Programs\<close>

record stack_object =
  Index :: "32 word"
  Size :: "32 word"
  Alignment :: "64 word"

datatype ('g, 'i) bfunc =
  BFunc (func_id: 'g) (func_name: "byte list") (func_align: "64 word option") (func_vis: "8 word") (func_cc: "8 word")
    (func_vararg: bool) (func_noinline: bool) (func_cpu: "byte list") (func_tune: "byte list")
    (func_features: "byte list") (func_objects: "stack_object list") (func_params: "(8 word \<times> type_flag) list")
    (func_personality: "'g option") (func_blocks: "('g, 'i) bblock list")

datatype 'g bobject = BObject (obj_tls: bool) (obj_atoms: "'g batom list")

datatype 'g bdata = BData (data_name: "byte list") (data_objects: "'g bobject list")

datatype ('g, 'i) bprog =
  BProg (prog_name: "byte list") (prog_externs: "('g, 'i) bextern list") (prog_data: "'g bdata list")
    (prog_funcs: "('g, 'i) bfunc list") (prog_xtors: "'g bxtor list")

definition kLLIRMagic :: "32 word" where
  "kLLIRMagic = 0x52494C4C"

subsection \<open>Writer\<close>

type_synonym ('g, 'i) traversal = "('g, 'i) bblock list \<Rightarrow> ('g, 'i) bblock list"

text \<open>The symbols in the order in which the header is written, with the kind the reader gives them.\<close>

definition extern_symbols :: "('g, 'i) bextern \<Rightarrow> ('g \<times> global_kind) list" where
  "extern_symbols e = [(ext_id e, G_EXTERN)]"

definition object_symbols :: "'g bobject \<Rightarrow> ('g \<times> global_kind) list" where
  "object_symbols obj = concat (map (\<lambda>a. [(atom_id a, G_ATOM)]) (obj_atoms obj))"

definition data_symbols :: "'g bdata \<Rightarrow> ('g \<times> global_kind) list" where
  "data_symbols d = concat (map object_symbols (data_objects d))"

definition func_symbols :: "('g, 'i) traversal \<Rightarrow> ('g, 'i) bfunc \<Rightarrow> ('g \<times> global_kind) list" where
  "func_symbols rpot f =
     (func_id f, G_FUNC) # concat (map (\<lambda>b. [(block_id b, G_BLOCK)]) (rpot (func_blocks f)))"

definition symbol_list :: "('g, 'i) traversal \<Rightarrow> ('g, 'i) bprog \<Rightarrow> ('g \<times> global_kind) list" where
  "symbol_list rpot p =
     concat (map extern_symbols (prog_externs p)) @ concat (map data_symbols (prog_data p)) @
     concat (map (func_symbols rpot) (prog_funcs p))"

definition prog_symbols :: "('g, 'i) traversal \<Rightarrow> ('g, 'i) bprog \<Rightarrow> 'g \<Rightarrow> nat option" where
  "prog_symbols rpot p = position (emplace_all (map fst (symbol_list rpot p)))"

definition counted :: "('a \<Rightarrow> writer) \<Rightarrow> 'a list \<Rightarrow> writer" where
  "counted wr xs = cat (EmitSize32 (length xs)) (wlist wr xs)"

definition WriteHeader :: "('g, 'i) traversal \<Rightarrow> ('g, 'i) bprog \<Rightarrow> writer" where
  "WriteHeader rpot p =
     cat (counted (\<lambda>e. EmitString (ext_name e)) (prog_externs p))
      (cat (counted (\<lambda>d. cat (EmitString (data_name d))
              (counted (\<lambda>obj. counted (\<lambda>a. EmitString (atom_name a)) (obj_atoms obj)) (data_objects d))) (prog_data p))
        (counted (\<lambda>f. cat (EmitString (func_name f))
            (counted (\<lambda>b. cat (EmitString (block_name b)) (EmitKind (block_vis b))) (rpot (func_blocks f)))) (prog_funcs p)))"

text \<open>The alignment of a stack object is emitted as a byte and its index in sixteen bits.\<close>

definition WriteStackObject :: "stack_object \<Rightarrow> writer" where
  "WriteStackObject obj =
     cat (Emit (ucast (Index obj) :: 16 word)) (cat (Emit (Size obj)) (Emit (ucast (Alignment obj) :: 8 word)))"

definition WriteFunc ::
  "inst_desc list \<Rightarrow> (64 word \<Rightarrow> bool) \<Rightarrow> ('g, 'i) traversal \<Rightarrow> ('g \<Rightarrow> nat option) \<Rightarrow> ('g, 'i) bfunc \<Rightarrow> writer" where
  "WriteFunc insts pow2 rpot symbols f =
     cat (EmitAlign (func_align f))
      (cat (EmitKind (func_vis f)) (cat (EmitKind (func_cc f))
        (cat (EmitBool (func_vararg f)) (cat (EmitBool (func_noinline f))
          (cat (EmitString (func_cpu f)) (cat (EmitString (func_tune f)) (cat (EmitString (func_features f))
            (cat (cat (EmitSize16 (length (func_objects f))) (wlist WriteStackObject (func_objects f)))
              (cat (cat (EmitSize16 (length (func_params f))) (wlist (WriteFlaggedType pow2) (func_params f)))
                (cat (case func_personality f of Some g \<Rightarrow> WriteGlobal symbols g | None \<Rightarrow> Emit (0 :: 32 word))
                  (WriteBody insts pow2 symbols (rpot (func_blocks f)))))))))))))"

definition WriteObject :: "('g \<Rightarrow> nat option) \<Rightarrow> 'g bobject \<Rightarrow> writer" where
  "WriteObject symbols obj = cat (EmitBool (obj_tls obj)) (wlist (WriteAtom symbols) (obj_atoms obj))"

definition WriteProg ::
  "inst_desc list \<Rightarrow> (64 word \<Rightarrow> bool) \<Rightarrow> ('g, 'i) traversal \<Rightarrow> ('g, 'i) bprog \<Rightarrow> writer" where
  "WriteProg insts pow2 rpot p =
     (let symbols = prog_symbols rpot p in
      cat (Emit kLLIRMagic)
       (cat (EmitString (prog_name p))
         (cat (WriteHeader rpot p)
           (cat (wlist (\<lambda>d. wlist (WriteObject symbols) (data_objects d)) (prog_data p))
             (cat (wlist (WriteFunc insts pow2 rpot symbols) (prog_funcs p))
               (cat (wlist (WriteExtern symbols) (prog_externs p))
                 (counted (WriteXtor symbols (\<lambda>g. g \<in> func_id ` set (prog_funcs p))) (prog_xtors p))))))))"

subsection \<open>Reader\<close>

definition ReadCounted :: "('s \<Rightarrow> ('a \<times> 's) reader) \<Rightarrow> 's \<Rightarrow> ('a list \<times> 's) reader" where
  "ReadCounted rd st = rbind ReadSize32 (\<lambda>n. read_loop n rd st)"

text \<open>A symbol that is created gets the next place of \<^verbatim>\<open>globals_\<close>.\<close>

definition ReadName :: "global_kind \<Rightarrow> global_kind list \<Rightarrow> ((nat \<times> byte list) \<times> global_kind list) reader" where
  "ReadName k globals = rbind ReadString (\<lambda>name. rreturn ((length globals, name), globals @ [k]))"

definition ReadBlockName ::
  "global_kind list \<Rightarrow> ((nat \<times> byte list \<times> 8 word) \<times> global_kind list) reader" where
  "ReadBlockName globals = rbind ReadString (\<lambda>name. rbind ReadKind (\<lambda>vis.
     rreturn ((length globals, name, vis), globals @ [G_BLOCK])))"

definition ReadDataHeader ::
  "global_kind list \<Rightarrow> ((byte list \<times> (nat \<times> byte list) list list) \<times> global_kind list) reader" where
  "ReadDataHeader globals = rbind ReadString (\<lambda>name.
     rbind (ReadCounted (ReadCounted (ReadName G_ATOM)) globals) (\<lambda>(objs, globals'). rreturn ((name, objs), globals')))"

definition ReadFuncHeader ::
  "global_kind list \<Rightarrow> ((nat \<times> byte list \<times> (nat \<times> byte list \<times> 8 word) list) \<times> global_kind list) reader" where
  "ReadFuncHeader globals = rbind (ReadName G_FUNC globals) (\<lambda>((i, name), globals').
     rbind (ReadCounted ReadBlockName globals') (\<lambda>(blocks, globals''). rreturn ((i, name, blocks), globals'')))"

text \<open>\<^verbatim>\<open>GetOrCreateData\<close>: objects are added to the data segment of the name, if there is one.\<close>

fun add_data :: "(byte list \<times> 'o list) list \<Rightarrow> byte list \<times> 'o list \<Rightarrow> (byte list \<times> 'o list) list" where
  "add_data [] (name, objs) = [(name, objs)]"
| "add_data ((name', objs') # ds) (name, objs) =
     (if name' = name then (name', objs' @ objs) # ds else (name', objs') # add_data ds (name, objs))"

definition AddStackObject :: "32 word \<Rightarrow> 32 word \<Rightarrow> 64 word \<Rightarrow> stack_object list \<Rightarrow> (stack_object list) result" where
  "AddStackObject index sz align objs =
     (if index \<in> set (map Index objs) then Inl FatalError
      else returns (objs @ [\<lparr>Index = index, Size = sz, Alignment = align\<rparr>]))"

definition ReadStackObject :: "(64 word \<Rightarrow> bool) \<Rightarrow> stack_object list \<Rightarrow> (unit \<times> stack_object list) reader" where
  "ReadStackObject pow2 objs =
     rbind ReadData (\<lambda>index :: 16 word. rbind ReadData (\<lambda>sz :: 32 word. rbind ReadData (\<lambda>align :: 8 word.
       rbind (Align pow2 (ucast align)) (\<lambda>a.
         case AddStackObject (ucast index) sz a objs of Inl e \<Rightarrow> rfail e | Inr objs' \<Rightarrow> rreturn ((), objs')))))"

definition ReadFunc ::
  "inst_desc list \<Rightarrow> (64 word \<Rightarrow> bool) \<Rightarrow> global_kind list \<Rightarrow> nat \<times> byte list \<times> (nat \<times> byte list \<times> 8 word) list \<Rightarrow>
   ((nat, nat) bfunc) reader" where
  "ReadFunc insts pow2 globals h =
     rbind (ReadAlign pow2) (\<lambda>align. rbind ReadKind (\<lambda>vis. rbind ReadKind (\<lambda>cc.
       rbind ReadBool (\<lambda>vararg. rbind ReadBool (\<lambda>noinline.
         rbind ReadString (\<lambda>cpu. rbind ReadString (\<lambda>tune. rbind ReadString (\<lambda>features.
           rbind (rbind ReadSize16 (\<lambda>n. read_loop n (ReadStackObject pow2) [])) (\<lambda>(_, objects).
             rbind (rbind ReadSize16 (\<lambda>n. read_times n (ReadFlaggedType pow2))) (\<lambda>params.
               rbind (ReadGlobal globals) (\<lambda>pers.
                 rbind (ReadBody insts pow2 globals (snd (snd h))) (\<lambda>blocks.
                   rreturn (BFunc (fst h) (fst (snd h)) align vis cc vararg noinline cpu tune features objects params
                     pers blocks)))))))))))))"

fun read_each :: "('a \<Rightarrow> 'b reader) \<Rightarrow> 'a list \<Rightarrow> ('b list) reader" where
  "read_each rd [] = rreturn []"
| "read_each rd (x # xs) = rbind (rd x) (\<lambda>y. rbind (read_each rd xs) (\<lambda>ys. rreturn (y # ys)))"

definition ReadObject ::
  "(64 word \<Rightarrow> bool) \<Rightarrow> global_kind list \<Rightarrow> (nat \<times> byte list) list \<Rightarrow> (nat bobject) reader" where
  "ReadObject pow2 globals hs =
     rbind ReadBool (\<lambda>tls. rbind (read_each (ReadAtom pow2 globals) hs) (\<lambda>atoms. rreturn (BObject tls atoms)))"

definition ReadProg :: "inst_desc list \<Rightarrow> (64 word \<Rightarrow> bool) \<Rightarrow> ((nat, nat) bprog) reader" where
  "ReadProg insts pow2 =
     rbind ReadData (\<lambda>magic. if magic \<noteq> kLLIRMagic then rfail FatalError else
       rbind ReadString (\<lambda>name.
         rbind (ReadCounted (ReadName G_EXTERN) []) (\<lambda>(exts, globals1).
         rbind (ReadCounted ReadDataHeader globals1) (\<lambda>(datas, globals2).
         rbind (ReadCounted ReadFuncHeader globals2) (\<lambda>(funcs, globals).
           rbind (read_each (\<lambda>(n, objs). rbind (read_each (ReadObject pow2 globals) objs) (\<lambda>objs. rreturn (BData n objs)))
               (foldl add_data [] datas)) (\<lambda>data.
           rbind (read_each (ReadFunc insts pow2 globals) funcs) (\<lambda>fs.
           rbind (read_each (ReadExtern globals) exts) (\<lambda>es.
           rbind (rbind ReadSize32 (\<lambda>n. read_times n (ReadXtor globals))) (\<lambda>xs.
             rreturn (BProg name es data fs xs))))))))))"

end
