(* ===== verification/BitcodeRound.thy ===== *)
theory BitcodeRound
  imports BitcodeProg
begin

text \<open>
  Reading what was written. For a well-formed program the reader takes exactly the bytes of the writer and gives the
  program with its symbols and instructions renamed to their numbers, its blocks in the order of the traversal and the
  incoming values of its PHI instructions rearranged; a file that is cut short anywhere is refused. \<open>wf_prog\<close> says what
  the format can hold: sizes that fit their fields, indices of stack objects below \<open>2 ^ 16\<close> and alignments of stack
  objects below \<open>2 ^ 8\<close>, references to symbols of the program, and operands that come before their uses.
\<close>

subsection \<open>Well-formed programs\<close>

definition wf_stack_objects :: "(64 word \<Rightarrow> bool) \<Rightarrow> stack_object list \<Rightarrow> bool" where
  "wf_stack_objects pow2 objs \<longleftrightarrow> length objs < 2 ^ 16 \<and> distinct (map Index objs) \<and>
     list_all (\<lambda>obj. unat (Index obj) < 2 ^ 16 \<and> pow2 (Alignment obj) \<and> unat (Alignment obj) < 2 ^ 8) objs"

definition wf_func ::
  "inst_desc list \<Rightarrow> (64 word \<Rightarrow> bool) \<Rightarrow> ('g, 'i) traversal \<Rightarrow> ('g \<Rightarrow> bool) \<Rightarrow> ('g \<Rightarrow> bool) \<Rightarrow> ('g, 'i) bfunc \<Rightarrow> bool" where
  "wf_func insts pow2 rpot known is_block f \<longleftrightarrow>
     wf_align pow2 (func_align f) \<and> wf_string (func_cpu f) \<and> wf_string (func_tune f) \<and> wf_string (func_features f) \<and>
     wf_stack_objects pow2 (func_objects f) \<and> length (func_params f) < 2 ^ 16 \<and>
     list_all (\<lambda>t. wf_flag pow2 (snd t)) (func_params f) \<and> pred_option known (func_personality f) \<and>
     wf_body insts pow2 known is_block (rpot (func_blocks f))"

definition wf_header :: "('g, 'i) traversal \<Rightarrow> ('g, 'i) bprog \<Rightarrow> bool" where
  "wf_header rpot p \<longleftrightarrow>
     length (prog_externs p) < 2 ^ 32 \<and> list_all (\<lambda>e. wf_string (ext_name e)) (prog_externs p) \<and>
     length (prog_data p) < 2 ^ 32 \<and>
     list_all (\<lambda>d. wf_string (data_name d) \<and> length (data_objects d) < 2 ^ 32 \<and>
       list_all (\<lambda>obj. length (obj_atoms obj) < 2 ^ 32 \<and> list_all (\<lambda>a. wf_string (atom_name a)) (obj_atoms obj))
         (data_objects d)) (prog_data p) \<and>
     length (prog_funcs p) < 2 ^ 32 \<and>
     list_all (\<lambda>f. wf_string (func_name f) \<and> length (rpot (func_blocks f)) < 2 ^ 32 \<and>
       list_all (\<lambda>b. wf_string (block_name b)) (rpot (func_blocks f))) (prog_funcs p)"

definition wf_prog ::
  "inst_desc list \<Rightarrow> (64 word \<Rightarrow> bool) \<Rightarrow> ('g, 'i) traversal \<Rightarrow> ('g, 'i) bprog \<Rightarrow> bool" where
  "wf_prog insts pow2 rpot p \<longleftrightarrow>
     (let known = (\<lambda>g. prog_symbols rpot p g \<noteq> None); is_block = (\<lambda>g. (g, G_BLOCK) \<in> set (symbol_list rpot p)) in
      wf_string (prog_name p) \<and> wf_header rpot p \<and>
      distinct (map fst (symbol_list rpot p)) \<and> length (symbol_list rpot p) < 2 ^ 32 \<and>
      distinct (map data_name (prog_data p)) \<and>
      list_all (\<lambda>d. list_all (\<lambda>obj. list_all (wf_atom pow2 known) (obj_atoms obj)) (data_objects d)) (prog_data p) \<and>
      list_all (wf_func insts pow2 rpot known is_block) (prog_funcs p) \<and>
      list_all (wf_extern known) (prog_externs p) \<and>
      length (prog_xtors p) < 2 ^ 32 \<and> list_all (\<lambda>x. xtor_func x \<in> func_id ` set (prog_funcs p)) (prog_xtors p))"

subsection \<open>What is read\<close>

definition renumber_func ::
  "inst_desc list \<Rightarrow> ('g, 'i) traversal \<Rightarrow> ('g \<Rightarrow> nat) \<Rightarrow> ('g, 'i) bfunc \<Rightarrow> (nat, nat) bfunc" where
  "renumber_func insts rpot number f =
     (let bs = rpot (func_blocks f) in
      BFunc (number (func_id f)) (func_name f) (func_align f) (func_vis f) (func_cc f) (func_vararg f) (func_noinline f)
        (func_cpu f) (func_tune f) (func_features f) (func_objects f) (func_params f)
        (map_option number (func_personality f))
        (map (\<lambda>b. map_bblock number (inst_pos (all_insts bs)) (map_insts (reorder insts bs) b)) bs))"

definition renumber :: "inst_desc list \<Rightarrow> ('g, 'i) traversal \<Rightarrow> ('g, 'i) bprog \<Rightarrow> (nat, nat) bprog" where
  "renumber insts rpot p =
     (let number = (\<lambda>g. the (prog_symbols rpot p g)) in
      BProg (prog_name p) (map (map_bextern number (\<lambda>_. 0)) (prog_externs p)) (map (map_bdata number) (prog_data p))
        (map (renumber_func insts rpot number) (prog_funcs p)) (map (map_bxtor number) (prog_xtors p)))"

subsection \<open>The table of symbols\<close>

lemma foldl_emplace_length: "length (foldl emplace ys xs) \<le> length ys + length xs"
proof (induction xs arbitrary: ys)
  case (Cons x xs)
  have "length (emplace ys x) \<le> Suc (length ys)" by (simp add: emplace_def)
  then show ?case using Cons.IH[of "emplace ys x"] by simp
qed simp

interpretation prog: symbol_table "prog_symbols rpot p" "map snd (symbol_list rpot p)"
  for rpot :: "('g, 'i) traversal" and p :: "('g, 'i) bprog"
proof
  fix g h i assume i: "prog_symbols rpot p g = Some i"
  have "length (emplace_all (map fst (symbol_list rpot p))) \<le> length (symbol_list rpot p)"
    using foldl_emplace_length[of "[]" "map fst (symbol_list rpot p)"] by (simp add: emplace_all_def)
  then show "i < length (map snd (symbol_list rpot p))"
    using i by (auto simp: prog_symbols_def dest: position_Some)
  show "g = h" if "prog_symbols rpot p h = Some i"
    using i that position_inject unfolding prog_symbols_def by metis
qed

abbreviation "number_in rpot p \<equiv> symbol_table.number (prog_symbols rpot p)"
abbreviation "block_in rpot p \<equiv> symbol_table.is_block (prog_symbols rpot p) (map snd (symbol_list rpot p))"
abbreviation "known_in rpot p \<equiv> symbol_table.known (prog_symbols rpot p) (map snd (symbol_list rpot p))"

lemma symbol_at:
  assumes "distinct (map fst (symbol_list rpot p))" "symbol_list rpot p = A @ (g, k) # B"
  shows "prog_symbols rpot p g = Some (length A)"
  using assms position_append[of g "map fst A" "map fst B"] unfolding prog_symbols_def by simp

lemma number_at:
  assumes "distinct (map fst (symbol_list rpot p))" "symbol_list rpot p = A @ (g, k) # B"
  shows "number_in rpot p g = length A"
  using symbol_at[OF assms] by (simp add: prog.number_def)

lemma block_symbol:
  assumes "distinct (map fst (symbol_list rpot p))" "length (symbol_list rpot p) < 2 ^ 32"
  shows "block_in rpot p g \<longleftrightarrow> (g, G_BLOCK) \<in> set (symbol_list rpot p)"
proof
  assume "(g, G_BLOCK) \<in> set (symbol_list rpot p)"
  then obtain A B where AB: "symbol_list rpot p = A @ (g, G_BLOCK) # B" by (auto dest: split_list)
  show "block_in rpot p g"
    using symbol_at[OF assms(1) AB] number_at[OF assms(1) AB] assms(2)
    by (simp add: prog.is_block_def prog.known_def) (simp add: AB nth_append)
next
  assume b: "block_in rpot p g"
  then obtain i where i: "prog_symbols rpot p g = Some i" "map snd (symbol_list rpot p) ! i = G_BLOCK"
    by (auto simp: prog.is_block_def prog.known_def prog.number_def)
  then have "i < length (symbol_list rpot p)" "fst (symbol_list rpot p ! i) = g"
    using assms(1) position_Some[of "map fst (symbol_list rpot p)" g i] by (auto simp: prog_symbols_def)
  then show "(g, G_BLOCK) \<in> set (symbol_list rpot p)" using i(2) by (metis nth_map nth_mem prod.collapse)
qed

lemma known_symbol:
  "length (symbol_list rpot p) < 2 ^ 32 \<Longrightarrow> known_in rpot p = (\<lambda>g. prog_symbols rpot p g \<noteq> None)"
  by (simp add: fun_eq_iff prog.known_def)

subsection \<open>The header\<close>

lemma header_loop_from:
  assumes "\<And>x A B. x \<in> set xs \<Longrightarrow> L = A @ sy x @ B \<Longrightarrow> codes (wr x) (rd (map snd A)) (v x, map snd (A @ sy x))"
    "L = A @ concat (map sy xs) @ B"
  shows "codes (wlist wr xs) (read_loop (length xs) rd (map snd A)) (map v xs, map snd (A @ concat (map sy xs)))"
  using assms
proof (induction xs arbitrary: A)
  case (Cons x xs)
  have hd: "codes (wr x) (rd (map snd A)) (v x, map snd (A @ sy x))" by (rule Cons.prems(1)) (use Cons.prems(2) in simp_all)
  have tl: "codes (wlist wr xs) (read_loop (length xs) rd (map snd (A @ sy x)))
      (map v xs, map snd ((A @ sy x) @ concat (map sy xs)))"
    by (rule Cons.IH) (use Cons.prems in simp_all)
  show ?case
    by simp (rule codes_bind, rule hd, simp, rule codes_last, rule tl[simplified], simp)
qed simp

lemma header_loop:
  assumes "\<And>x A B. x \<in> set xs \<Longrightarrow> L = A @ sy x @ B \<Longrightarrow> codes (wr x) (rd (map snd A)) (v x, map snd (A @ sy x))"
    "L = A @ concat (map sy xs) @ B" "length xs < 2 ^ 32"
  shows "codes (counted wr xs) (ReadCounted rd (map snd A)) (map v xs, map snd (A @ concat (map sy xs)))"
  unfolding counted_def ReadCounted_def
  by (rule codes_bind, rule codes_size32[OF assms(3)], rule header_loop_from[OF assms(1,2)])

lemma codes_name:
  assumes "wf_string name"
  shows "codes (EmitString name) (ReadName k globals) ((length globals, name), globals @ [k])"
  unfolding ReadName_def by (rule codes_last, rule string_codec.codes[OF assms], simp)

lemma codes_object_names:
  assumes "distinct (map fst (symbol_list rpot p))" "symbol_list rpot p = A @ object_symbols obj @ B"
    "length (obj_atoms obj) < 2 ^ 32" "list_all (\<lambda>a. wf_string (atom_name a)) (obj_atoms obj)"
  shows "codes (counted (\<lambda>a. EmitString (atom_name a)) (obj_atoms obj)) (ReadCounted (ReadName G_ATOM) (map snd A))
    (map (\<lambda>a. (number_in rpot p (atom_id a), atom_name a)) (obj_atoms obj), map snd (A @ object_symbols obj))"
  unfolding object_symbols_def
proof (rule header_loop[where L = "symbol_list rpot p" and B = B])
  fix a A' B' assume a: "a \<in> set (obj_atoms obj)" and "symbol_list rpot p = A' @ [(atom_id a, G_ATOM)] @ B'"
  then have "number_in rpot p (atom_id a) = length A'" using number_at[OF assms(1)] by auto
  moreover have "wf_string (atom_name a)" using assms(4) a by (simp add: list_all_iff)
  ultimately show "codes (EmitString (atom_name a)) (ReadName G_ATOM (map snd A'))
      ((number_in rpot p (atom_id a), atom_name a), map snd (A' @ [(atom_id a, G_ATOM)]))"
    using codes_name[of "atom_name a" G_ATOM "map snd A'"] by simp
qed (use assms in \<open>simp_all add: object_symbols_def\<close>)

lemma codes_data_names:
  assumes "distinct (map fst (symbol_list rpot p))" "symbol_list rpot p = A @ data_symbols d @ B"
    "wf_string (data_name d) \<and> length (data_objects d) < 2 ^ 32 \<and>
       list_all (\<lambda>obj. length (obj_atoms obj) < 2 ^ 32 \<and> list_all (\<lambda>a. wf_string (atom_name a)) (obj_atoms obj))
         (data_objects d)"
  shows "codes (cat (EmitString (data_name d)) (counted (\<lambda>obj. counted (\<lambda>a. EmitString (atom_name a)) (obj_atoms obj)) (data_objects d)))
    (ReadDataHeader (map snd A))
    ((data_name d, map (\<lambda>obj. map (\<lambda>a. (number_in rpot p (atom_id a), atom_name a)) (obj_atoms obj)) (data_objects d)),
     map snd (A @ data_symbols d))"
proof -
  have "codes (counted (\<lambda>obj. counted (\<lambda>a. EmitString (atom_name a)) (obj_atoms obj)) (data_objects d))
      (ReadCounted (ReadCounted (ReadName G_ATOM)) (map snd A))
      (map (\<lambda>obj. map (\<lambda>a. (number_in rpot p (atom_id a), atom_name a)) (obj_atoms obj)) (data_objects d),
       map snd (A @ concat (map object_symbols (data_objects d))))"
    by (rule header_loop[where L = "symbol_list rpot p" and B = B])
      (use assms codes_object_names[OF assms(1)] in \<open>auto simp: list_all_iff data_symbols_def\<close>)
  then show ?thesis
    unfolding ReadDataHeader_def data_symbols_def
    by - (rule codes_bind, rule string_codec.codes, simp add: assms(3), rule codes_last, assumption, simp)
qed

lemma codes_func_names:
  assumes "distinct (map fst (symbol_list rpot p))" "symbol_list rpot p = A @ func_symbols rpot f @ B"
    "wf_string (func_name f) \<and> length (rpot (func_blocks f)) < 2 ^ 32 \<and>
       list_all (\<lambda>b. wf_string (block_name b)) (rpot (func_blocks f))"
  shows "codes (cat (EmitString (func_name f))
      (counted (\<lambda>b. cat (EmitString (block_name b)) (EmitKind (block_vis b))) (rpot (func_blocks f))))
    (ReadFuncHeader (map snd A))
    ((number_in rpot p (func_id f), func_name f,
      map (\<lambda>b. (number_in rpot p (block_id b), block_name b, block_vis b)) (rpot (func_blocks f))),
     map snd (A @ func_symbols rpot f))"
proof -
  have "codes (counted (\<lambda>b. cat (EmitString (block_name b)) (EmitKind (block_vis b))) (rpot (func_blocks f)))
      (ReadCounted ReadBlockName (map snd (A @ [(func_id f, G_FUNC)])))
      (map (\<lambda>b. (number_in rpot p (block_id b), block_name b, block_vis b)) (rpot (func_blocks f)),
       map snd ((A @ [(func_id f, G_FUNC)]) @ concat (map (\<lambda>b. [(block_id b, G_BLOCK)]) (rpot (func_blocks f)))))"
  proof (rule header_loop[where L = "symbol_list rpot p" and B = B])
    fix b A' B' assume b: "b \<in> set (rpot (func_blocks f))" and "symbol_list rpot p = A' @ [(block_id b, G_BLOCK)] @ B'"
    then have n: "number_in rpot p (block_id b) = length A'" using number_at[OF assms(1)] by auto
    have w: "wf_string (block_name b)" using assms(3) b by (simp add: list_all_iff)
    show "codes (cat (EmitString (block_name b)) (EmitKind (block_vis b))) (ReadBlockName (map snd A'))
        ((number_in rpot p (block_id b), block_name b, block_vis b), map snd (A' @ [(block_id b, G_BLOCK)]))"
      unfolding ReadBlockName_def
      by (rule codes_bind, rule string_codec.codes[OF w], rule codes_last, rule codes_EmitKind, simp add: n)
  qed (use assms in \<open>simp_all add: func_symbols_def\<close>)
  moreover have "number_in rpot p (func_id f) = length A"
    using number_at[OF assms(1), of A "func_id f"] assms(2) by (simp add: func_symbols_def)
  moreover have w: "wf_string (func_name f)" using assms(3) by simp
  ultimately show ?thesis
    unfolding ReadFuncHeader_def func_symbols_def
    by simp (rule codes_bind, rule codes_name[OF w], simp, rule codes_last, assumption, simp)
qed

lemma codes_extern_names:
  fixes p :: "('g, 'i) bprog"
  assumes "distinct (map fst (symbol_list rpot p))" "symbol_list rpot p = concat (map extern_symbols (prog_externs p)) @ B"
    "length (prog_externs p) < 2 ^ 32" "list_all (\<lambda>e. wf_string (ext_name e)) (prog_externs p)"
  shows "codes (counted (\<lambda>e. EmitString (ext_name e)) (prog_externs p)) (ReadCounted (ReadName G_EXTERN) [])
    (map (\<lambda>e. (number_in rpot p (ext_id e), ext_name e)) (prog_externs p),
     map snd (concat (map extern_symbols (prog_externs p))))"
proof -
  have "codes (counted (\<lambda>e. EmitString (ext_name e)) (prog_externs p)) (ReadCounted (ReadName G_EXTERN) (map snd ([] :: ('g \<times> global_kind) list)))
    (map (\<lambda>e. (number_in rpot p (ext_id e), ext_name e)) (prog_externs p),
     map snd ([] @ concat (map extern_symbols (prog_externs p))))"
  proof (rule header_loop[where L = "symbol_list rpot p" and B = B])
    fix e A' B' assume e: "e \<in> set (prog_externs p)" and "symbol_list rpot p = A' @ extern_symbols e @ B'"
    then have "number_in rpot p (ext_id e) = length A'" using number_at[OF assms(1)] by (auto simp: extern_symbols_def)
    moreover have "wf_string (ext_name e)" using assms(4) e by (simp add: list_all_iff)
    ultimately show "codes (EmitString (ext_name e)) (ReadName G_EXTERN (map snd A'))
        ((number_in rpot p (ext_id e), ext_name e), map snd (A' @ extern_symbols e))"
      using codes_name[of "ext_name e" G_EXTERN "map snd A'"] by (simp add: extern_symbols_def)
  qed (use assms in simp_all)
  then show ?thesis by simp
qed

subsection \<open>Contents\<close>

lemma cat_assoc: "cat (cat a b) c = cat a (cat b c)"
  by (auto simp: cat_def split: sum.splits)

lemma codes_each:
  assumes "\<And>x. x \<in> set xs \<Longrightarrow> codes (wr x) (rd (h x)) (v x)"
  shows "codes (wlist wr xs) (read_each rd (map h xs)) (map v xs)"
  using assms
proof (induction xs)
  case (Cons x xs)
  have tl: "codes (wlist wr xs) (read_each rd (map h xs)) (map v xs)" by (rule Cons.IH) (simp add: Cons.prems)
  show ?case by simp (rule codes_bind, rule Cons.prems, simp, rule codes_last, rule tl, simp)
qed simp

lemma foldl_add_data:
  assumes "distinct (map fst (acc @ xs))"
  shows "foldl add_data acc xs = acc @ xs"
proof -
  have new: "n \<notin> set (map fst ds) \<Longrightarrow> add_data ds (n, os) = ds @ [(n, os)]" for n and os :: "'a list" and ds
    by (induction ds "(n, os)" rule: add_data.induct) auto
  show ?thesis
    using assms
  proof (induction xs arbitrary: acc)
    case (Cons x xs)
    then show ?case using new[of "fst x" acc "snd x"] by simp
  qed simp
qed

lemma codes_stack_objects:
  assumes "wf_stack_objects pow2 objs"
  shows "codes (cat (EmitSize16 (length objs)) (wlist WriteStackObject objs))
    (rbind ReadSize16 (\<lambda>n. read_loop n (ReadStackObject pow2) [])) (map (\<lambda>_. ()) objs, objs)"
proof -
  have "codes (wlist WriteStackObject objs) (read_loop (length objs) (ReadStackObject pow2) (id []))
      (map (\<lambda>_. ()) objs, id ([] @ objs))"
  proof (rule codes_loop_prefix)
    fix p x q assume objs: "objs = p @ x # q"
    then have x: "unat (Index x) < 2 ^ 16" "pow2 (Alignment x)" "unat (Alignment x) < 2 ^ 8" "Index x \<notin> set (map Index p)"
      using assms by (auto simp: wf_stack_objects_def)
    have i: "ucast (ucast (Index x) :: 16 word) = Index x" by (rule ucast_down_up) (use x in simp)
    have a: "ucast (ucast (Alignment x) :: 8 word) = Alignment x" by (rule ucast_down_up) (use x in simp)
    have add: "AddStackObject (Index x) (Size x) (Alignment x) p = returns (p @ [x])"
      using x(4) by (cases x) (simp add: AddStackObject_def)
    show "codes (WriteStackObject x) (ReadStackObject pow2 (id ([] @ p))) ((), id ([] @ p @ [x]))"
      unfolding WriteStackObject_def ReadStackObject_def
      by (rule codes_bind, rule codes_widths, rule codes_bind, rule codes_widths, rule codes_last, rule codes_widths)
        (simp add: i a Align_def x add)
  qed
  moreover have "length objs < 2 ^ 16" using assms by (simp add: wf_stack_objects_def)
  ultimately show ?thesis by - (rule codes_bind, erule codes_size16, simp)
qed

context symbol_table
begin

lemma codes_personality:
  assumes "pred_option known g"
  shows "codes (case g of Some g \<Rightarrow> WriteGlobal symbols g | None \<Rightarrow> Emit (0 :: 32 word)) (ReadGlobal globals) (map_option number g)"
proof (cases g)
  case None
  then show ?thesis unfolding ReadGlobal_def by simp (rule codes_last, rule codes_widths, simp)
qed (use assms codes_global_some in simp)

lemma codes_func:
  assumes "wf_func insts pow2 rpot known is_block f"
  shows "codes (WriteFunc insts pow2 rpot symbols f)
    (ReadFunc insts pow2 globals
      (number (func_id f), func_name f, map (\<lambda>b. (number (block_id b), block_name b, block_vis b)) (rpot (func_blocks f))))
    (renumber_func insts rpot number f)"
proof -
  have wf: "wf_align pow2 (func_align f)" "wf_string (func_cpu f)" "wf_string (func_tune f)" "wf_string (func_features f)"
    "wf_stack_objects pow2 (func_objects f)" "length (func_params f) < 2 ^ 16"
    "list_all (\<lambda>t. wf_flag pow2 (snd t)) (func_params f)" "pred_option known (func_personality f)"
    "wf_body insts pow2 known is_block (rpot (func_blocks f))"
    using assms by (simp_all add: wf_func_def)
  show ?thesis
    unfolding WriteFunc_def ReadFunc_def
    by (rule codes_bind, rule codes_align[OF wf(1)], rule codes_bind, rule codes_EmitKind, rule codes_bind, rule codes_EmitKind,
        rule codes_bind, rule codes_bool, rule codes_bind, rule codes_bool,
        rule codes_bind, rule string_codec.codes[OF wf(2)], rule codes_bind, rule string_codec.codes[OF wf(3)],
        rule codes_bind, rule string_codec.codes[OF wf(4)],
        rule codes_bind, rule codes_stack_objects[OF wf(5)], unfold prod.case,
        rule codes_bind, rule flagged_codec.counted16[OF wf(6,7)],
        rule codes_bind, rule codes_personality[OF wf(8)], rule codes_last)
      (simp, rule codes_body[OF wf(9)], simp add: renumber_func_def Let_def)
qed

lemma codes_object:
  assumes "list_all (wf_atom pow2 known) (obj_atoms obj)"
  shows "codes (WriteObject symbols obj)
    (ReadObject pow2 globals (map (\<lambda>a. (number (atom_id a), atom_name a)) (obj_atoms obj))) (map_bobject number obj)"
proof -
  have "codes (wlist (WriteAtom symbols) (obj_atoms obj))
      (read_each (ReadAtom pow2 globals) (map (\<lambda>a. (number (atom_id a), atom_name a)) (obj_atoms obj)))
      (map (map_batom number) (obj_atoms obj))"
    by (rule codes_each, rule codes_atom) (use assms in \<open>simp add: list_all_iff\<close>)
  then show ?thesis
    unfolding WriteObject_def ReadObject_def
    by - (rule codes_bind, rule codes_bool, rule codes_last, assumption, cases obj, simp)
qed

end

subsection \<open>The file\<close>

lemma codes_data:
  assumes "symbol_table symbols globals"
    "list_all (\<lambda>obj. list_all (wf_atom pow2 (symbol_table.known symbols globals)) (obj_atoms obj)) (data_objects d)"
  shows "codes (wlist (WriteObject symbols) (data_objects d))
    ((\<lambda>(n, objs). rbind (read_each (ReadObject pow2 globals) objs) (\<lambda>objs. rreturn (BData n objs)))
      (data_name d, map (\<lambda>obj. map (\<lambda>a. (symbol_table.number symbols (atom_id a), atom_name a)) (obj_atoms obj)) (data_objects d)))
    (map_bdata (symbol_table.number symbols) d)"
proof -
  have "codes (wlist (WriteObject symbols) (data_objects d))
      (read_each (ReadObject pow2 globals)
        (map (\<lambda>obj. map (\<lambda>a. (symbol_table.number symbols (atom_id a), atom_name a)) (obj_atoms obj)) (data_objects d)))
      (map (map_bobject (symbol_table.number symbols)) (data_objects d))"
    by (rule codes_each, rule symbol_table.codes_object[OF assms(1)]) (use assms(2) in \<open>simp add: list_all_iff\<close>)
  then show ?thesis by (cases d) (simp, rule codes_last, assumption, simp)
qed

lemma codes_xtors:
  assumes "symbol_table symbols globals" "length xs < 2 ^ 32"
    "list_all (\<lambda>x. symbol_table.known symbols globals (xtor_func x) \<and> is_func (xtor_func x)) xs"
  shows "codes (counted (WriteXtor symbols is_func) xs) (rbind ReadSize32 (\<lambda>n. read_times n (ReadXtor globals)))
    (map (map_bxtor (symbol_table.number symbols)) xs)"
  unfolding counted_def
  by (rule codes_bind, rule codes_size32[OF assms(2)], rule codes_list, rule symbol_table.codes_xtor[OF assms(1)])
    (use assms(3) in \<open>simp_all add: list_all_iff\<close>)

lemma func_known:
  assumes "length (symbol_list rpot p) < 2 ^ 32" "g \<in> func_id ` set (prog_funcs p)" "distinct (map fst (symbol_list rpot p))"
  shows "known_in rpot p g"
proof -
  have "(g, G_FUNC) \<in> set (symbol_list rpot p)" using assms(2) by (auto simp: symbol_list_def func_symbols_def)
  then obtain A B where AB: "symbol_list rpot p = A @ (g, G_FUNC) # B" by (auto dest: split_list)
  show ?thesis unfolding known_symbol[OF assms(1)] symbol_at[OF assms(3) AB] by simp
qed

lemma codes_prog:
  fixes p :: "('g, 'i) bprog"
  assumes "wf_prog insts pow2 rpot p"
  shows "codes (WriteProg insts pow2 rpot p) (ReadProg insts pow2) (renumber insts rpot p)"
proof -
  let ?L = "symbol_list rpot p" and ?N = "number_in rpot p" and ?gl = "map snd (symbol_list rpot p)"
  let ?s = "prog_symbols rpot p"
  have d: "distinct (map fst ?L)" and small: "length ?L < 2 ^ 32" and name: "wf_string (prog_name p)"
    and h: "wf_header rpot p" and dn: "distinct (map data_name (prog_data p))"
    and xs: "length (prog_xtors p) < 2 ^ 32" "list_all (\<lambda>x. xtor_func x \<in> func_id ` set (prog_funcs p)) (prog_xtors p)"
    using assms by (simp_all add: wf_prog_def Let_def)
  have known: "(\<lambda>g. ?s g \<noteq> None) = known_in rpot p" using known_symbol[OF small] by simp
  have block: "(\<lambda>g. (g, G_BLOCK) \<in> set ?L) = block_in rpot p" using block_symbol[OF d small] by (simp add: fun_eq_iff)
  have wf: "list_all (\<lambda>d. list_all (\<lambda>obj. list_all (wf_atom pow2 (known_in rpot p)) (obj_atoms obj)) (data_objects d)) (prog_data p)"
    "list_all (wf_func insts pow2 rpot (known_in rpot p) (block_in rpot p)) (prog_funcs p)"
    "list_all (wf_extern (known_in rpot p)) (prog_externs p)"
    using assms unfolding wf_prog_def Let_def known block by blast+
  let ?data = "map (\<lambda>d. (data_name d, map (\<lambda>obj. map (\<lambda>a. (?N (atom_id a), atom_name a)) (obj_atoms obj)) (data_objects d)))
    (prog_data p)"
  let ?e = "concat (map extern_symbols (prog_externs p))" and ?d = "concat (map data_symbols (prog_data p))"
  have exts: "codes (counted (\<lambda>e. EmitString (ext_name e)) (prog_externs p)) (ReadCounted (ReadName G_EXTERN) [])
      (map (\<lambda>e. (?N (ext_id e), ext_name e)) (prog_externs p), map snd ?e)"
    by (rule codes_extern_names[OF d]) (use h in \<open>simp_all add: wf_header_def symbol_list_def\<close>)
  have datas: "codes (counted (\<lambda>d. cat (EmitString (data_name d))
        (counted (\<lambda>obj. counted (\<lambda>a. EmitString (atom_name a)) (obj_atoms obj)) (data_objects d))) (prog_data p))
      (ReadCounted ReadDataHeader (map snd ?e)) (?data, map snd (?e @ ?d))"
    by (rule header_loop[where L = ?L and B = "concat (map (func_symbols rpot) (prog_funcs p))"])
      (use h codes_data_names[OF d] in \<open>auto simp: wf_header_def symbol_list_def list_all_iff\<close>)
  have funcs: "codes (counted (\<lambda>f. cat (EmitString (func_name f))
        (counted (\<lambda>b. cat (EmitString (block_name b)) (EmitKind (block_vis b))) (rpot (func_blocks f)))) (prog_funcs p))
      (ReadCounted ReadFuncHeader (map snd (?e @ ?d)))
      (map (\<lambda>f. (?N (func_id f), func_name f, map (\<lambda>b. (?N (block_id b), block_name b, block_vis b)) (rpot (func_blocks f))))
        (prog_funcs p), map snd ((?e @ ?d) @ concat (map (func_symbols rpot) (prog_funcs p))))"
    by (rule header_loop[where L = ?L and B = "[]"])
      (use h codes_func_names[OF d] in \<open>auto simp: wf_header_def symbol_list_def list_all_iff\<close>)
  have all: "map snd ((?e @ ?d) @ concat (map (func_symbols rpot) (prog_funcs p))) = ?gl"
    by (simp add: symbol_list_def)
  have merge: "foldl add_data [] ?data = ?data" by (rule foldl_add_data[of "[]", simplified]) (simp add: dn comp_def)
  have data: "codes (wlist (\<lambda>d. wlist (WriteObject ?s) (data_objects d)) (prog_data p))
      (read_each (\<lambda>(n, objs). rbind (read_each (ReadObject pow2 ?gl) objs) (\<lambda>objs. rreturn (BData n objs))) ?data)
      (map (map_bdata ?N) (prog_data p))"
    by (rule codes_each, rule codes_data[OF prog.symbol_table_axioms]) (use wf(1) in \<open>simp add: list_all_iff\<close>)
  have fs: "codes (wlist (WriteFunc insts pow2 rpot ?s) (prog_funcs p))
      (read_each (ReadFunc insts pow2 ?gl)
        (map (\<lambda>f. (?N (func_id f), func_name f, map (\<lambda>b. (?N (block_id b), block_name b, block_vis b)) (rpot (func_blocks f))))
          (prog_funcs p)))
      (map (renumber_func insts rpot ?N) (prog_funcs p))"
    by (rule codes_each, rule prog.codes_func) (use wf(2) in \<open>simp add: list_all_iff\<close>)
  have es: "codes (wlist (WriteExtern ?s) (prog_externs p))
      (read_each (ReadExtern ?gl) (map (\<lambda>e. (?N (ext_id e), ext_name e)) (prog_externs p)))
      (map (map_bextern ?N (\<lambda>_. 0)) (prog_externs p))"
    by (rule codes_each, rule prog.codes_extern) (use wf(3) in \<open>simp add: list_all_iff\<close>)
  have xtors: "codes (counted (WriteXtor ?s (\<lambda>g. g \<in> func_id ` set (prog_funcs p))) (prog_xtors p))
      (rbind ReadSize32 (\<lambda>n. read_times n (ReadXtor ?gl))) (map (map_bxtor ?N) (prog_xtors p))"
    by (rule codes_xtors[OF prog.symbol_table_axioms xs(1)]) (use xs(2) func_known[OF small _ d] in \<open>simp add: list_all_iff\<close>)
  have number: "(\<lambda>g. the (?s g)) = ?N" by (simp add: fun_eq_iff prog.number_def)
  show ?thesis
    unfolding WriteProg_def ReadProg_def WriteHeader_def Let_def cat_assoc
    by (rule codes_bind, rule codes_widths(3), simp, rule codes_bind, rule string_codec.codes[OF name],
        rule codes_bind, rule exts, unfold prod.case, rule codes_bind, rule datas, unfold prod.case,
        rule codes_bind, rule funcs, unfold prod.case all merge,
        rule codes_bind, rule data, rule codes_bind, rule fs, rule codes_bind, rule es, rule codes_last, rule xtors)
      (simp add: renumber_def number Let_def)
qed

end
