(* ===== verification/InstTable.thy ===== *)
theory InstTable
  imports BitcodeInst
begin

text \<open>
  The instruction table of \<^verbatim>\<open>core/instructions.td\<close>: the fields and types of each record that defines an instruction,
  with the inherited values written out. The order is the one of \<^verbatim>\<open>getAllDerivedDefinitions\<close>, which is sorted by
  name, and gives the enumerators of \<^verbatim>\<open>Inst::Kind\<close> their numbers.
\<close>

definition field :: "field_ty \<Rightarrow> field_desc" where
  "field t = \<lparr>Type = t, IsOptional = False, IsScalar = False, IsList = False\<rparr>"

definition scalar :: "field_ty \<Rightarrow> field_desc" where
  "scalar t = (field t)\<lparr>IsScalar := True\<rparr>"

definition f_inst :: field_desc where
  "f_inst = field TInst"

definition f_opt_inst :: field_desc where
  "f_opt_inst = (field TInst)\<lparr>IsOptional := True\<rparr>"

definition f_insts :: field_desc where
  "f_insts = (field TInst)\<lparr>IsList := True\<rparr>"

definition f_flags :: field_desc where
  "f_flags = (scalar TTypeFlag)\<lparr>IsList := True\<rparr>"

definition f_value :: field_desc where
  "f_value = field TValue"

definition f_block :: field_desc where
  "f_block = field TBlock"

definition f_blocks :: field_desc where
  "f_blocks = (field TBlock)\<lparr>IsList := True\<rparr>"

definition f_int :: field_desc where
  "f_int = scalar TInt"

definition f_unsigned :: field_desc where
  "f_unsigned = scalar TUnsigned"

definition f_opt_unsigned :: field_desc where
  "f_opt_unsigned = (scalar TUnsigned)\<lparr>IsOptional := True\<rparr>"

definition f_reg :: field_desc where
  "f_reg = scalar TRegister"

definition f_cond :: field_desc where
  "f_cond = scalar TCond"

definition f_cc :: field_desc where
  "f_cc = scalar TCallingConv"

definition f_opt_cc :: field_desc where
  "f_opt_cc = (scalar TCallingConv)\<lparr>IsOptional := True\<rparr>"

definition desc :: "string \<Rightarrow> int \<Rightarrow> field_desc list \<Rightarrow> inst_desc" where
  "desc name types fs =
     \<lparr>Name = name, NumTypes = types, NumReturns = -1, Fields = fs, HasCustomReader = False, HasCustomWriter = False\<rparr>"

definition custom_desc :: "string \<Rightarrow> int \<Rightarrow> field_desc list \<Rightarrow> inst_desc" where
  "custom_desc name types fs = (desc name types fs)\<lparr>HasCustomReader := True, HasCustomWriter := True\<rparr>"

definition instructions :: "inst_desc list" where
  "instructions = [
    desc ''AARCH64_CLI'' 0 [], desc ''AARCH64_DMB'' 0 [], desc ''AARCH64_ISB'' 0 [],
    desc ''AARCH64_LOAD_LINK'' 1 [f_inst], desc ''AARCH64_OUT'' 0 [f_inst, f_inst], desc ''AARCH64_STI'' 0 [],
    desc ''AARCH64_STORE_COND'' 1 [f_inst, f_inst], desc ''AARCH64_WFI'' 0 [], desc ''ABS'' 1 [f_inst],
    desc ''ADD'' 1 [f_inst, f_inst], desc ''ALLOCA'' 1 [f_inst, f_unsigned], desc ''AND'' 1 [f_inst, f_inst],
    desc ''ARG'' 1 [f_unsigned], desc ''BIT_CAST'' 1 [f_inst], desc ''BYTE_SWAP'' 1 [f_inst],
    desc ''CALL'' (- 1) [f_inst, f_insts, f_flags, f_cc, f_opt_unsigned, f_block],
    desc ''CLONE'' 1 [f_inst, f_inst, f_inst, f_inst, f_inst, f_inst, f_inst], desc ''CLZ'' 1 [f_inst],
    desc ''CMP'' 1 [f_inst, f_inst, f_cond], desc ''COPY_SIGN'' 1 [f_inst, f_inst], desc ''COS'' 1 [f_inst],
    desc ''CTZ'' 1 [f_inst], desc ''DEBUG_TRAP'' 0 [], desc ''EXP'' 1 [f_inst], desc ''EXP2'' 1 [f_inst],
    desc ''FRAME'' 1 [f_unsigned, f_int],
    desc ''FRAME_CALL'' (- 1) [f_inst, f_insts, f_flags, f_cc, f_opt_unsigned, f_inst, f_block],
    desc ''F_CEIL'' 1 [f_inst], desc ''F_EXT'' 1 [f_inst], desc ''F_FLOOR'' 1 [f_inst], desc ''GET'' 1 [f_reg],
    desc ''INVOKE'' (- 1) [f_inst, f_insts, f_flags, f_cc, f_opt_unsigned, f_block, f_block],
    desc ''JUMP'' 0 [f_block], desc ''JUMP_COND'' 0 [f_inst, f_block, f_block],
    desc ''LANDING_PAD'' (- 1) [f_opt_cc], desc ''LOAD'' 1 [f_inst], desc ''LOG'' 1 [f_inst],
    desc ''LOG10'' 1 [f_inst], desc ''LOG2'' 1 [f_inst], desc ''MOV'' 1 [f_value],
    desc ''MUL'' 1 [f_inst, f_inst], desc ''MUL_H_S'' 1 [f_inst, f_inst], desc ''MUL_H_U'' 1 [f_inst, f_inst],
    desc ''NEG'' 1 [f_inst], desc ''OR'' 1 [f_inst, f_inst], desc ''O_S_ADD'' 1 [f_inst, f_inst],
    desc ''O_S_MUL'' 1 [f_inst, f_inst], desc ''O_S_SUB'' 1 [f_inst, f_inst], desc ''O_U_ADD'' 1 [f_inst, f_inst],
    desc ''O_U_MUL'' 1 [f_inst, f_inst], desc ''O_U_SUB'' 1 [f_inst, f_inst], custom_desc ''PHI'' 0 [],
    desc ''POP_COUNT'' 1 [f_inst], desc ''POW'' 1 [f_inst, f_inst], desc ''PPC_FENCE'' 0 [],
    desc ''PPC_I_FENCE'' 0 [], desc ''PPC_LOAD_LINK'' 1 [f_inst], desc ''PPC_STORE_COND'' 1 [f_inst, f_inst],
    desc ''RAISE'' 0 [f_opt_cc, f_inst, f_inst, f_insts], desc ''RETURN'' 0 [f_insts],
    desc ''RISCV_CMP_XCHG'' 1 [f_inst, f_inst, f_inst], desc ''RISCV_FENCE'' 0 [], desc ''RISCV_GP'' 0 [],
    desc ''RISCV_XCHG'' 1 [f_inst, f_inst], desc ''ROTL'' 1 [f_inst, f_inst], desc ''ROTR'' 1 [f_inst, f_inst],
    desc ''SELECT'' 1 [f_inst, f_inst, f_inst], desc ''SET'' 0 [f_reg, f_inst], desc ''SIN'' 1 [f_inst],
    desc ''SLL'' 1 [f_inst, f_inst], desc ''SPAWN'' 0 [f_inst, f_inst], desc ''SQRT'' 1 [f_inst],
    desc ''SRA'' 1 [f_inst, f_inst], desc ''SRL'' 1 [f_inst, f_inst], desc ''STORE'' 0 [f_inst, f_inst],
    desc ''SUB'' 1 [f_inst, f_inst], desc ''SWITCH'' 0 [f_inst, f_blocks],
    desc ''SYSCALL'' (- 1) [f_inst, f_insts], desc ''S_DIV'' 1 [f_inst, f_inst], desc ''S_EXT'' 1 [f_inst],
    desc ''S_REM'' 1 [f_inst, f_inst],
    (desc ''TAIL_CALL'' (- 1) [f_inst, f_insts, f_flags, f_cc, f_opt_unsigned])\<lparr>NumReturns := 0\<rparr>,
    desc ''TRAP'' 0 [], desc ''TRUNC'' 1 [f_inst], desc ''UNDEF'' 1 [], desc ''U_DIV'' 1 [f_inst, f_inst],
    desc ''U_REM'' 1 [f_inst, f_inst], desc ''VA_START'' 0 [f_inst], desc ''X86_BARRIER'' 0 [],
    desc ''X86_CLI'' 0 [], desc ''X86_CMP_XCHG'' 1 [f_inst, f_inst, f_inst],
    desc ''X86_CPU_ID'' 4 [f_inst, f_opt_inst], desc ''X86_FN_CL_EX'' 0 [], desc ''X86_FN_ST_CW'' 0 [f_inst],
    desc ''X86_FN_ST_ENV'' 0 [f_inst], desc ''X86_FN_ST_SW'' 0 [f_inst], desc ''X86_F_LD_CW'' 0 [f_inst],
    desc ''X86_F_LD_ENV'' 0 [f_inst], desc ''X86_F_RESTORE'' 0 [f_inst], desc ''X86_F_SAVE'' 0 [f_inst],
    desc ''X86_F_X_RESTORE'' 0 [f_inst], desc ''X86_F_X_SAVE'' 0 [f_inst], desc ''X86_GET_XCR'' 2 [f_inst],
    desc ''X86_HLT'' 0 [], desc ''X86_IN'' 1 [f_inst], desc ''X86_INT'' 0 [f_unsigned, f_insts],
    desc ''X86_LDM_XCSR'' 0 [f_inst], desc ''X86_LGDT'' 0 [f_inst], desc ''X86_LIDT'' 0 [f_inst],
    desc ''X86_LTR'' 0 [f_inst], desc ''X86_L_FENCE'' 0 [], desc ''X86_M_FENCE'' 0 [], desc ''X86_NOP'' 0 [],
    desc ''X86_OUT'' 0 [f_inst, f_inst], desc ''X86_PAUSE'' 0 [], desc ''X86_RD_MSR'' 2 [f_inst],
    desc ''X86_RD_TSC'' 1 [], desc ''X86_SPIN'' 0 [], desc ''X86_STI'' 0 [], desc ''X86_STM_XCSR'' 0 [f_inst],
    desc ''X86_S_FENCE'' 0 [], desc ''X86_WR_MSR'' 0 [f_inst, f_inst, f_inst],
    desc ''X86_XCHG'' 1 [f_inst, f_inst], desc ''X86_X_RESTORE'' 0 [f_inst, f_inst],
    desc ''X86_X_SAVE'' 0 [f_inst, f_inst], desc ''X86_X_SAVE_OPT'' 0 [f_inst, f_inst], desc ''X86_YIELD'' 0 [],
    desc ''XOR'' 1 [f_inst, f_inst], desc ''X_EXT'' 1 [f_inst], desc ''Z_EXT'' 1 [f_inst]
  ]"

lemmas table_defs = field_def scalar_def f_inst_def f_opt_inst_def f_insts_def f_flags_def f_value_def f_block_def
  f_blocks_def f_int_def f_unsigned_def f_opt_unsigned_def f_reg_def f_cond_def f_cc_def f_opt_cc_def desc_def
  custom_desc_def

text \<open>Kinds fit the byte they are stored in, and the one record with code of its own is the PHI instruction.\<close>

lemma table_length: "length instructions = 130"
  by (simp add: instructions_def)

lemma phi_number: "phi_kind instructions = 51"
  by (simp add: instructions_def phi_kind_def is_bphi_def table_defs)

lemma custom_only_phi:
  "list_all (\<lambda>d. (HasCustomReader d \<longleftrightarrow> is_bphi d) \<and> (HasCustomWriter d \<longleftrightarrow> is_bphi d)) instructions"
  by (simp add: instructions_def is_bphi_def table_defs)

end
