(* ===== verification/BitcodeFile.thy ===== *)
theory BitcodeFile
  imports BitcodeRound InstTable "HOL-Library.Multiset"
begin

text \<open>
  What the two halves of the binary format promise each other, on the instruction table of the program: files can be
  read back, files cut short are refused, and where the format is too narrow for what the writer puts into it.
\<close>

subsection \<open>A program\<close>

text \<open>The test of \<^verbatim>\<open>llvm::isPowerOf2_64\<close>.\<close>

definition is_pow2 :: "64 word \<Rightarrow> bool" where
  "is_pow2 v \<longleftrightarrow> v \<noteq> 0 \<and> v AND (v - 1) = 0"

text \<open>A loop: the PHI of the second block has a value from behind it.\<close>

definition sample_entry :: "(nat, nat) bblock" where
  "sample_entry = BBlock 20 [98, 48] 0
     [BInst 1 [] 39 [3] [FValue (Some (BConst (BConstInt (-5))))], BInst 2 [] 32 [] [FBlock 21]]"

definition sample_loop :: "(nat, nat) bblock" where
  "sample_loop = BBlock 21 [98, 49] 0
     [BPhi 3 [] 3 [(21, (4, 0)), (20, (1, 0))],
      BInst 4 [Probability 1 2] 9 [3] [FInst (Some (3, 0)), FInst (Some (1, 0))],
      BInst 5 [] 32 [] [FBlock 21]]"

definition sample_bfunc :: "(nat, nat) bfunc" where
  "sample_bfunc = BFunc 12 [102] (Some 16) 1 0 False True [] [] [43] [\<lparr>Index = 0, Size = 16, Alignment = 8\<rparr>]
     [(3, FlagNone), (2, FlagByVal 24 8)] (Some 10) [sample_entry, sample_loop]"

definition sample_bprog :: "(nat, nat) bprog" where
  "sample_bprog = BProg [109] [BExtern 10 [101] 2 None (Some [46, 116])]
     [BData [46, 100] [BObject False [BAtom 11 [97] (Some 8) 1 [BInt32 7, BExpr64 (BSymbolOffset (Some 10) 4), BString [1, 2]]]]]
     [sample_bfunc] [BXtor 0 65535 12]"

lemmas sample_defs = sample_bprog_def sample_bfunc_def sample_entry_def sample_loop_def

lemma file_symbols:
  "symbol_list (\<lambda>bs. bs) sample_bprog =
     [(10, G_EXTERN), (11, G_ATOM), (12, G_FUNC), (20, G_BLOCK), (21, G_BLOCK)]"
  by (simp add: sample_defs symbol_list_def extern_symbols_def data_symbols_def object_symbols_def func_symbols_def)

lemma file_numbers:
  "prog_symbols (\<lambda>bs. bs) sample_bprog = position [10, 11, 12, 20, 21]"
  by (simp add: prog_symbols_def file_symbols)

lemma table_at:
  "instructions ! 9 = desc ''ADD'' 1 [f_inst, f_inst]" "instructions ! 32 = desc ''JUMP'' 0 [f_block]"
  "instructions ! 39 = desc ''MOV'' 1 [f_value]"
  by (simp_all add: instructions_def)

lemma sample_insts:
  "all_insts [sample_entry, sample_loop] = block_insts sample_entry @ block_insts sample_loop"
  by (simp add: all_insts_def)

lemma sample_map:
  "inst_map instructions [sample_entry, sample_loop] = (\<lambda>r. map_option Suc (position [(1, 0), (3, 0), (4, 0)] r))"
  by (simp add: fun_eq_iff inst_map_def sample_defs inst_refs_def table_length table_at desc_rets_def desc_def emplace_all_def
      emplace_def)

lemma sample_body:
  "wf_body instructions is_pow2 (\<lambda>g. prog_symbols (\<lambda>bs. bs) sample_bprog g \<noteq> None)
    (\<lambda>g. (g, G_BLOCK) \<in> set (symbol_list (\<lambda>bs. bs) sample_bprog)) [sample_entry, sample_loop]"
  unfolding wf_body_def sample_insts sample_map visible_at_def file_symbols file_numbers
  by (simp add: sample_defs wf_inst_def table_length table_at phi_number wf_types_def wf_field_def desc_def table_defs
      all_refs_def inst_refs_def desc_rets_def before_def wf_annots_def one_of_kind_def)

lemma sample_wf: "wf_prog instructions is_pow2 (\<lambda>bs. bs) sample_bprog"
proof -
  have "wf_func instructions is_pow2 (\<lambda>bs. bs) (\<lambda>g. prog_symbols (\<lambda>bs. bs) sample_bprog g \<noteq> None)
      (\<lambda>g. (g, G_BLOCK) \<in> set (symbol_list (\<lambda>bs. bs) sample_bprog)) sample_bfunc"
    unfolding wf_func_def
    by (intro conjI) (use sample_body in \<open>simp_all add: sample_bfunc_def file_numbers wf_align_def wf_string_def
      wf_stack_objects_def is_pow2_def\<close>)
  moreover have "prog_name sample_bprog = [109]" "prog_funcs sample_bprog = [sample_bfunc]"
    "prog_externs sample_bprog = [BExtern 10 [101] 2 None (Some [46, 116])]" "prog_xtors sample_bprog = [BXtor 0 65535 12]"
    "prog_data sample_bprog = [BData [46, 100] [BObject False
      [BAtom 11 [97] (Some 8) 1 [BInt32 7, BExpr64 (BSymbolOffset (Some 10) 4), BString [1, 2]]]]]"
    "func_name sample_bfunc = [102]" "func_blocks sample_bfunc = [sample_entry, sample_loop]" "func_id sample_bfunc = 12"
    "block_name sample_entry = [98, 48]" "block_name sample_loop = [98, 49]"
    by (simp_all add: sample_defs)
  ultimately show ?thesis
    unfolding wf_prog_def Let_def wf_header_def
    by (intro conjI) (simp_all add: file_symbols file_numbers wf_string_def wf_atom_def wf_align_def is_pow2_def wf_extern_def)
qed

subsection \<open>Properties\<close>

text \<open>C1: Every well-formed program can be written, and the reader gets it back from the file, whatever follows in the
  buffer: all names, attributes, data, instructions with their annotations, types and operands, externs and
  constructors are those of the program, with each symbol and each instruction renamed to its number.\<close>
theorem bitcode_roundtrip:
  assumes "wf_prog insts pow2 rpot p"
  shows "\<exists>bs. WriteProg insts pow2 rpot p = returns bs \<and>
    (\<forall>rest. ReadProg insts pow2 (bs @ rest) = returns (renumber insts rpot p, rest))"
  using codes_prog[OF assms] by (auto simp: codes_def)

lemma bitcode_roundtrip_witness:
  "\<exists>bs. WriteProg instructions is_pow2 (\<lambda>bs. bs) sample_bprog = returns bs \<and>
    ReadProg instructions is_pow2 (bs @ [7]) = returns (renumber instructions (\<lambda>bs. bs) sample_bprog, [7])"
  using bitcode_roundtrip[OF sample_wf] by blast

text \<open>C35: A file that is cut anywhere before its end is refused with the fatal error of the reader, never read in part and
  never with an access outside of the buffer.\<close>
theorem truncated_file_refused:
  assumes "wf_prog insts pow2 rpot p" "WriteProg insts pow2 rpot p = returns (bs @ missing)" "missing \<noteq> []"
  shows "ReadProg insts pow2 bs = Inl FatalError"
  using codes_prog[OF assms(1)] assms(2,3) by (auto simp: codes_def)

lemma truncated_file_refused_witness: "ReadProg instructions is_pow2 [] = Inl FatalError"
proof -
  obtain bs where bs: "WriteProg instructions is_pow2 (\<lambda>bs. bs) sample_bprog = returns bs"
      "ReadProg instructions is_pow2 (bs @ []) = returns (renumber instructions (\<lambda>bs. bs) sample_bprog, [])"
    using codes_prog[OF sample_wf] unfolding codes_def by blast
  have "ReadProg instructions is_pow2 [] = Inl FatalError"
    by (simp add: ReadProg_def rbind_def ReadData_def)
  then have "bs \<noteq> []" using bs(2) by auto
  then show ?thesis using truncated_file_refused[OF sample_wf, of "[]" bs] bs(1) by simp
qed


text \<open>C37: The writer emits the alignment of a stack object as a byte: an object aligned to \<open>256\<close> bytes or more is written
  without complaint, and the reader stops at it with a failed assertion.\<close>
theorem stack_alignment_lost:
  assumes "2 ^ 8 dvd unat (Alignment obj)" "\<not> pow2 0"
  shows "\<exists>bs. WriteStackObject obj = returns bs \<and> ReadStackObject pow2 objs (bs @ rest) = Inl AssertFailed"
proof -
  have "ucast (Alignment obj) = (0 :: 8 word)"
    using assms(1) by (simp add: word_unat_eq_iff unsigned_ucast_eq unsigned_take_bit_eq take_bit_eq_mod dvd_eq_mod_eq_0)
  then have w: "WriteStackObject obj = cat (Emit (ucast (Index obj) :: 16 word)) (cat (Emit (Size obj)) (Emit (0 :: 8 word)))"
    by (simp add: WriteStackObject_def)
  have "codes (WriteStackObject obj)
      (rbind ReadData (\<lambda>i :: 16 word. rbind ReadData (\<lambda>sz :: 32 word. rbind ReadData (\<lambda>a :: 8 word. rreturn (i, sz, a)))))
      (ucast (Index obj), Size obj, 0)"
    unfolding w by (rule codes_bind, rule codes_widths, rule codes_bind, rule codes_widths, rule codes_last, rule codes_widths, simp)
  then obtain bs where bs: "WriteStackObject obj = returns bs" "rbind ReadData (\<lambda>i :: 16 word. rbind ReadData (\<lambda>sz :: 32 word.
      rbind ReadData (\<lambda>a :: 8 word. rreturn (i, sz, a)))) (bs @ rest) = returns ((ucast (Index obj), Size obj, 0), rest)"
    by (auto simp: codes_def)
  have "ReadStackObject pow2 objs (bs @ rest) = Inl AssertFailed"
    using bs(2) assms(2) unfolding ReadStackObject_def rbind_def
    by (auto simp: rreturn_def rfail_def Align_def split: sum.splits prod.splits)
  then show ?thesis using bs(1) by blast
qed

lemma stack_alignment_lost_witness:
  "\<exists>bs. WriteStackObject \<lparr>Index = 0, Size = 64, Alignment = 256\<rparr> = returns bs \<and>
    ReadStackObject is_pow2 [] (bs @ []) = Inl AssertFailed"
  by (rule stack_alignment_lost) (simp_all add: is_pow2_def)

end
