(* ===== verification/BitcodeValid.thy ===== *)
theory BitcodeValid
  imports BitcodeFile
begin

text \<open>
  What the reader guarantees for any bytes: a file that it accepts is a program whose references are all resolved. Every
  symbol that is mentioned was created from the header, what is used as a block is one, and every operand of an
  instruction is a value of an instruction of the same function. \<open>yields\<close> is the partial correctness of a reader.
\<close>

definition yields :: "'a reader \<Rightarrow> ('a \<Rightarrow> bool) \<Rightarrow> bool" where
  "yields rd P \<longleftrightarrow> (\<forall>s x r. rd s = returns (x, r) \<longrightarrow> P x)"

lemma yieldsD: "yields rd P \<Longrightarrow> rd s = returns (x, r) \<Longrightarrow> P x"
  unfolding yields_def by blast

lemma yields_return [simp]: "yields (rreturn x) P \<longleftrightarrow> P x"
  by (simp add: yields_def rreturn_def)

lemma yields_fail [simp]: "yields (rfail e) P"
  by (simp add: yields_def rfail_def)

lemma yields_any [simp]: "yields rd (\<lambda>_. True)"
  by (simp add: yields_def)

lemma yields_bind:
  assumes "yields r Q" "\<And>x. Q x \<Longrightarrow> yields (f x) P"
  shows "yields (rbind r f) P"
  using assms by (fastforce simp: yields_def rbind_def split: sum.splits prod.splits)

lemma yields_then: "(\<And>x. yields (f x) P) \<Longrightarrow> yields (rbind r f) P"
  by (rule yields_bind[of _ "\<lambda>_. True"]) simp_all

lemma yields_weaken: "yields r Q \<Longrightarrow> (\<And>x. Q x \<Longrightarrow> P x) \<Longrightarrow> yields r P"
  by (auto simp: yields_def)

lemma yields_times:
  assumes "yields rd P"
  shows "yields (read_times n rd) (list_all P)"
proof (induction n)
  case (Suc n)
  show ?case by simp (rule yields_bind[OF assms], rule yields_bind[OF Suc.IH], simp)
qed simp

lemma yields_counted:
  assumes "yields rd P"
  shows "yields (rbind r (\<lambda>n. read_times n rd)) (list_all P)"
  by (rule yields_then) (rule yields_times[OF assms])

lemma yields_loop:
  assumes "\<And>st. I st \<Longrightarrow> yields (rd st) (\<lambda>(x, st'). Q x \<and> I st')" "I st"
  shows "yields (read_loop n rd st) (\<lambda>(xs, st'). list_all Q xs \<and> I st')"
  using assms(2)
proof (induction n arbitrary: st)
  case (Suc n)
  show ?case
    by simp (rule yields_bind[OF assms(1)[OF Suc.prems]], clarsimp, rule yields_bind[OF Suc.IH], assumption, clarsimp)
qed simp

lemma yields_each:
  assumes "\<And>x. yields (rd x) (P x)"
  shows "yields (read_each rd xs) (list_all2 P xs)"
proof (induction xs)
  case (Cons x xs)
  show ?case by simp (rule yields_bind[OF assms], rule yields_bind[OF Cons.IH], simp)
qed simp

text \<open>The primitives, of whose values nothing needs to be known.\<close>

lemmas yields_skip = yields_then[where r = ReadData] yields_then[where r = ReadString] yields_then[where r = ReadKind]
  yields_then[where r = ReadConst] yields_then[where r = ReadSize8] yields_then[where r = ReadSize16]
  yields_then[where r = ReadSize32] yields_then[where r = "ReadScalar t" for t] yields_then[where r = ReadBool]

subsection \<open>Uses\<close>

fun field_uses :: "('g, 'i) bfield \<Rightarrow> ('i \<times> nat) set" where
  "field_uses (FInst r) = set_option r"
| "field_uses (FInsts rs) = \<Union> (set_option ` set rs)"
| "field_uses (FValue (Some (BInstRef r))) = {r}"
| "field_uses _ = {}"

fun field_targets :: "('g, 'i) bfield \<Rightarrow> 'g set" where
  "field_targets (FBlock b) = {b}"
| "field_targets (FBlocks bs) = set bs"
| "field_targets _ = {}"

fun inst_uses :: "('g, 'i) binst \<Rightarrow> ('i \<times> nat) set" where
  "inst_uses (BInst i annots k types fs) = \<Union> (field_uses ` set fs)"
| "inst_uses (BPhi i annots t inc) = snd ` set inc"

fun inst_targets :: "('g, 'i) binst \<Rightarrow> 'g set" where
  "inst_targets (BInst i annots k types fs) = \<Union> (field_targets ` set fs)"
| "inst_targets (BPhi i annots t inc) = fst ` set inc"

definition valid_body :: "inst_desc list \<Rightarrow> (nat \<Rightarrow> bool) \<Rightarrow> (nat, nat) binst list \<Rightarrow> bool" where
  "valid_body insts is_block xs \<longleftrightarrow> map inst_id xs = [0..<length xs] \<and>
     (\<forall>x \<in> set xs. inst_uses x \<subseteq> set (all_refs insts xs) \<and> (\<forall>b \<in> inst_targets x. is_block b))"

subsection \<open>Values\<close>

abbreviation below :: "global_kind list \<Rightarrow> nat set" where
  "below globals \<equiv> {..<length globals}"

lemma yields_ReadGlobal: "yields (ReadGlobal globals) (\<lambda>g. set_option g \<subseteq> below globals)"
  unfolding ReadGlobal_def by (rule yields_then) (simp add: not_le)

lemma yields_ReadIndex: "yields (ReadIndex globals) (\<lambda>g. g < length globals)"
  unfolding ReadIndex_def by (rule yields_then) (simp add: not_le)

lemma yields_ReadBlock: "yields (ReadBlock globals) (\<lambda>g. g < length globals \<and> globals ! g = G_BLOCK)"
  unfolding ReadBlock_def by (rule yields_bind[OF yields_ReadIndex]) simp

lemma yields_ReadExpr: "yields (ReadExpr globals) (\<lambda>e. set_bexpr e \<subseteq> below globals)"
  unfolding ReadExpr_def
  by (rule yields_then) (auto intro!: yields_bind[OF yields_ReadGlobal] yields_skip)

lemma yields_ReadInstRef: "yields (ReadInstRef rmap) (\<lambda>r. set_option r \<subseteq> set rmap)"
  unfolding ReadInstRef_def by (rule yields_then) (auto simp: not_less)

lemma yields_ReadValue:
  "yields (ReadValue globals rmap) (\<lambda>v. \<forall>x. v = Some x \<longrightarrow> set1_bvalue x \<subseteq> below globals \<and>
     field_uses (FValue (Some x)) \<subseteq> set rmap)"
  unfolding ReadValue_def
  by (rule yields_then)
    (auto intro!: yields_bind[OF yields_ReadInstRef] yields_bind[OF yields_ReadIndex] yields_bind[OF yields_ReadExpr]
      yields_skip)

lemma yields_ReadItem: "yields (ReadItem globals) (\<lambda>it. set_bitem it \<subseteq> below globals)"
  unfolding ReadItem_def
  by (rule yields_then) (auto intro!: yields_bind[OF yields_ReadExpr] yields_skip)

lemma yields_ReadAtom:
  "yields (ReadAtom pow2 globals h) (\<lambda>a. atom_id a = fst h \<and> (fst h < length globals \<longrightarrow> set_batom a \<subseteq> below globals))"
  unfolding ReadAtom_def
  by (rule yields_then, rule yields_then, rule yields_bind[OF yields_counted[OF yields_ReadItem]])
    (auto simp: list_all_iff)

lemma yields_ReadExtern:
  "yields (ReadExtern globals h) (\<lambda>e. ext_id e = fst h \<and> (fst h < length globals \<longrightarrow> set1_bextern e \<subseteq> below globals))"
proof -
  have v: "yields (rbind ReadBool (\<lambda>b. if b then rbind (ReadValue globals []) (\<lambda>v. case v of None \<Rightarrow> rfail BadIterator
      | Some v \<Rightarrow> rreturn (Some v)) else rreturn None)) (\<lambda>v. \<forall>x. v = Some x \<longrightarrow> set1_bvalue x \<subseteq> below globals)"
    by (rule yields_then) (auto intro!: yields_bind[OF yields_ReadValue] split: option.splits)
  show ?thesis
    unfolding ReadExtern_def
    by (rule yields_then, rule yields_bind[OF v], rule yields_then) auto
qed

lemma yields_ReadXtor: "yields (ReadXtor globals) (\<lambda>x. set_bxtor x \<subseteq> below globals)"
  unfolding ReadXtor_def by (rule yields_then, rule yields_then, rule yields_bind[OF yields_ReadIndex]) simp

subsection \<open>Instructions\<close>

definition good_field :: "global_kind list \<Rightarrow> (nat \<times> nat) list \<Rightarrow> (nat, nat) bfield \<Rightarrow> bool" where
  "good_field globals rmap v \<longleftrightarrow> set1_bfield v \<subseteq> below globals \<and> field_uses v \<subseteq> set rmap \<and>
     (\<forall>b \<in> field_targets v. globals ! b = G_BLOCK)"

lemma good_fields:
  "set_option r \<subseteq> set rmap \<Longrightarrow> good_field globals rmap (FInst r)"
  "list_all (\<lambda>r. set_option r \<subseteq> set rmap) rs \<Longrightarrow> good_field globals rmap (FInsts rs)"
  "list_all (\<lambda>b. b < length globals \<and> globals ! b = G_BLOCK) bs \<Longrightarrow> good_field globals rmap (FBlocks bs)"
  "b < length globals \<Longrightarrow> globals ! b = G_BLOCK \<Longrightarrow> good_field globals rmap (FBlock b)"
  "good_field globals rmap (FFlags fl)" "good_field globals rmap (FScalar w)" "good_field globals rmap (FOptScalar ow)"
  by (auto simp: good_field_def list_all_iff)

lemma good_value:
  "\<forall>x. v = Some x \<longrightarrow> set1_bvalue x \<subseteq> below globals \<and> field_uses (FValue (Some x)) \<subseteq> set rmap \<Longrightarrow>
   good_field globals rmap (FValue v)"
  by (cases v) (simp_all add: good_field_def)

lemma yields_ReadField: "yields (ReadField pow2 globals rmap fd) (good_field globals rmap)"
  unfolding ReadField_def
  by (auto simp: good_fields good_value
      intro!: yields_bind[OF yields_counted[OF yields_ReadBlock]] yields_bind[OF yields_counted[OF yields_ReadInstRef]]
        yields_bind[OF yields_ReadBlock] yields_bind[OF yields_ReadValue] yields_bind[OF yields_ReadInstRef] yields_skip
        yields_bind[OF yields_counted[OF yields_any[of "ReadTypeFlag pow2"]]])

lemma yields_ReadFields: "yields (ReadFields pow2 globals rmap fds) (list_all (good_field globals rmap))"
  by (induction fds) (auto intro!: yields_bind[OF yields_ReadField] intro: yields_bind)

definition good_fixup :: "global_kind list \<Rightarrow> nat \<times> nat \<times> nat \<Rightarrow> bool" where
  "good_fixup globals f \<longleftrightarrow> fst (snd f) < length globals \<and> globals ! fst (snd f) = G_BLOCK"

definition good_inst :: "global_kind list \<Rightarrow> (nat \<times> nat) list \<Rightarrow> (nat, nat) binst \<Rightarrow> bool" where
  "good_inst globals rmap x \<longleftrightarrow> set1_binst x \<subseteq> below globals \<and> inst_uses x \<subseteq> set rmap \<and>
     (\<forall>b \<in> inst_targets x. globals ! b = G_BLOCK)"

lemma phi_add_values: "set (phi_add inc b v) \<subseteq> insert (b, v) (set inc)"
  by (induction inc b v rule: phi_add.induct) auto

lemma good_phi_iff:
  "good_inst globals rmap (BPhi i annots t inc) \<longleftrightarrow>
   (\<forall>(b, r) \<in> set inc. b < length globals \<and> globals ! b = G_BLOCK \<and> r \<in> set rmap)"
  by (auto simp: good_inst_def prod_set_defs)

lemma yields_incoming:
  "yields (read_loop n (ReadIncoming globals phi rmap) ([], fx)) (\<lambda>(_, inc, fx').
     good_inst globals rmap (BPhi i annots t inc) \<and> (list_all (good_fixup globals) fx \<longrightarrow> list_all (good_fixup globals) fx'))"
proof -
  let ?I = "\<lambda>(inc, fx'). good_inst globals rmap (BPhi i annots t inc) \<and>
    (list_all (good_fixup globals) fx \<longrightarrow> list_all (good_fixup globals) fx')"
  have "yields (read_loop n (ReadIncoming globals phi rmap) ([], fx)) (\<lambda>(xs, st'). list_all (\<lambda>_. True) xs \<and> ?I st')"
  proof (rule yields_loop)
    fix st assume I: "?I st"
    obtain inc fx' where st: "st = (inc, fx')" by fastforce
    have add: "good_inst globals rmap (BPhi i annots t (phi_add inc b v))"
      if "b < length globals" "globals ! b = G_BLOCK" "v \<in> set rmap" for b v
      using I that phi_add_values[of inc b v] unfolding st by (fastforce simp: good_phi_iff)
    show "yields (ReadIncoming globals phi rmap st) (\<lambda>(x, st'). True \<and> ?I st')"
      unfolding ReadIncoming_def
      by (rule yields_bind[OF yields_ReadBlock], rule yields_then) (use I add in \<open>auto simp: st good_fixup_def not_less\<close>)
  qed (simp add: good_phi_iff)
  then show ?thesis by (rule yields_weaken) auto
qed

lemma good_binst:
  "list_all (good_field globals rmap) fs \<Longrightarrow> good_inst globals rmap (BInst i annots k types fs)"
  by (force simp: good_inst_def good_field_def list_all_iff)

lemma yields_ReadInst:
  "yields (ReadInst insts pow2 globals st) (\<lambda>(x, fx). inst_id x = read_count st \<and> good_inst globals (read_map st) x \<and>
     (list_all (good_fixup globals) (read_fixups st) \<longrightarrow> list_all (good_fixup globals) fx))"
proof -
  have phi: "yields (rbind ReadSize16 (\<lambda>n. read_loop n (ReadIncoming globals (read_count st) (read_map st)) ([], read_fixups st)))
    (\<lambda>(_, inc, fx'). good_inst globals (read_map st) (BPhi (read_count st) annots t inc) \<and>
      (list_all (good_fixup globals) (read_fixups st) \<longrightarrow> list_all (good_fixup globals) fx'))" for annots t
    by (rule yields_then) (rule yields_incoming)
  show ?thesis
    unfolding ReadInst_def
    by (rule yields_then, rule yields_then)
      (auto intro!: yields_skip yields_bind[OF phi] yields_then[where r = "ReadTypes d" for d] yields_bind[OF yields_ReadFields]
        good_binst)
qed

subsection \<open>Function bodies\<close>

lemma yields_loop_acc:
  assumes "\<And>xs st. S xs st \<Longrightarrow> yields (rd st) (\<lambda>(x, st'). S (xs @ [x]) st')" "S xs st"
  shows "yields (read_loop n rd st) (\<lambda>(ys, st'). S (xs @ ys) st')"
  using assms(2)
proof (induction n arbitrary: xs st)
  case (Suc n)
  show ?case
    by simp (rule yields_bind[OF assms(1)[OF Suc.prems]], clarsimp, rule yields_bind[OF Suc.IH], assumption, clarsimp)
qed simp

definition good_insts :: "inst_desc list \<Rightarrow> global_kind list \<Rightarrow> (nat, nat) binst list \<Rightarrow> bool" where
  "good_insts insts globals xs \<longleftrightarrow> map inst_id xs = [0..<length xs] \<and>
     (\<forall>x \<in> set xs. good_inst globals (all_refs insts xs) x)"

definition reads :: "inst_desc list \<Rightarrow> global_kind list \<Rightarrow> (nat, nat) binst list \<Rightarrow> read_state \<Rightarrow> bool" where
  "reads insts globals xs st \<longleftrightarrow> good_insts insts globals xs \<and> read_map st = all_refs insts xs \<and>
     read_count st = length xs \<and> list_all (good_fixup globals) (read_fixups st)"

lemma good_inst_append: "good_inst globals rm x \<Longrightarrow> good_inst globals (rm @ rm') x"
  by (auto simp: good_inst_def)

lemma yields_ReadNext:
  assumes "reads insts globals xs st"
  shows "yields (ReadNext insts pow2 globals st) (\<lambda>(x, st'). reads insts globals (xs @ [x]) st')"
proof -
  have st: "read_map st = all_refs insts xs" "read_count st = length xs" "list_all (good_fixup globals) (read_fixups st)"
    "map inst_id xs = [0..<length xs]" "\<And>x. x \<in> set xs \<Longrightarrow> good_inst globals (all_refs insts xs) x"
    using assms by (simp_all add: reads_def good_insts_def)
  have "reads insts globals (xs @ [x]) \<lparr>read_map = read_map st @ map (Pair (read_count st)) [0..<BGetNumRets insts x],
      read_fixups = fx, read_count = Suc (read_count st)\<rparr>"
    if x: "inst_id x = read_count st" "good_inst globals (read_map st) x" "list_all (good_fixup globals) fx" for x fx
    using st x by (auto simp: reads_def good_insts_def all_refs_Cons inst_refs_def intro: good_inst_append)
  then show ?thesis
    unfolding ReadNext_def by (intro yields_bind[OF yields_ReadInst]) (auto simp: st(3))
qed

lemma yields_ReadBlocks:
  assumes "reads insts globals xs st"
  shows "yields (ReadBlocks insts pow2 globals hs st)
    (\<lambda>(bs, st'). reads insts globals (xs @ all_insts bs) st' \<and> map block_id bs = map fst hs)"
  using assms
proof (induction hs arbitrary: xs st)
  case (Cons h hs)
  obtain b name vis where h: "h = (b, name, vis)" by (metis prod_cases3)
  have loop: "yields (rbind ReadSize32 (\<lambda>n. read_loop n (ReadNext insts pow2 globals) st))
      (\<lambda>(ys, st'). reads insts globals (xs @ ys) st')"
    by (rule yields_then) (rule yields_loop_acc[OF yields_ReadNext Cons.prems])
  show ?case
    unfolding h by simp (rule yields_bind[OF loop], clarsimp, rule yields_bind[OF Cons.IH], assumption,
      clarsimp simp: all_insts_def)
qed (simp add: all_insts_def)

lemma all_refs_map:
  assumes "\<And>x. x \<in> set xs \<Longrightarrow> inst_id (f x) = inst_id x \<and> BGetNumRets insts (f x) = BGetNumRets insts x"
  shows "all_refs insts (map f xs) = all_refs insts xs"
  using assms by (induction xs) (simp_all add: all_refs_Cons inst_refs_def)

lemma add_incoming_same: "inst_id (add_incoming phi b v x) = inst_id x \<and> BGetNumRets insts (add_incoming phi b v x) = BGetNumRets insts x"
  by (cases x) simp_all

lemma add_incoming_good:
  assumes "good_inst globals rm x" "good_fixup globals (phi, b, i)" "v \<in> set rm"
  shows "good_inst globals rm (add_incoming phi b v x)"
proof (cases x)
  case (BPhi n annots t inc)
  then show ?thesis
    using assms phi_add_values[of inc b v] by (fastforce simp: good_phi_iff good_fixup_def)
qed (use assms in simp)

lemma all_insts_map: "all_insts (map (map_insts f) bs) = map f (all_insts bs)"
  by (induction bs) (simp_all add: all_insts_def map_insts_def)

lemma apply_fixups_good:
  assumes "apply_fixups (all_refs insts (all_insts bs)) fs bs = returns bs'" "good_insts insts globals (all_insts bs)"
    "list_all (good_fixup globals) fs"
  shows "good_insts insts globals (all_insts bs') \<and> map block_id bs' = map block_id bs"
  using assms
proof (induction fs arbitrary: bs)
  case (Cons f fs)
  obtain phi b i where f: "f = (phi, b, i)" by (metis prod_cases3)
  let ?rm = "all_refs insts (all_insts bs)"
  let ?bs = "map (map_insts (add_incoming phi b (?rm ! i))) bs"
  have i: "i < length ?rm" and next_step: "apply_fixups ?rm fs ?bs = returns bs'"
    using Cons.prems(1) by (auto simp: f split: if_splits)
  have refs: "all_refs insts (all_insts ?bs) = ?rm"
    unfolding all_insts_map by (rule all_refs_map) (rule add_incoming_same)
  have "good_insts insts globals (all_insts ?bs)"
    using Cons.prems(2,3) refs i add_incoming_good[of globals ?rm _ phi b i "?rm ! i"]
    unfolding good_insts_def refs by (auto simp: all_insts_map add_incoming_same f comp_def)
  from Cons.IH[of ?bs, unfolded refs, OF next_step this] show ?case
    using Cons.prems(3) by (simp add: map_insts_def comp_def)
qed simp

lemma yields_ReadBody:
  "yields (ReadBody insts pow2 globals hs)
    (\<lambda>bs. good_insts insts globals (all_insts bs) \<and> map block_id bs = map fst hs)"
proof -
  have "reads insts globals [] \<lparr>read_map = [], read_fixups = [], read_count = 0\<rparr>"
    by (simp add: reads_def good_insts_def)
  from yields_ReadBlocks[OF this, of pow2 hs] show ?thesis
    unfolding ReadBody_def
    by (rule yields_bind) (use apply_fixups_good in \<open>fastforce simp: reads_def split: sum.splits\<close>)
qed

definition good_func :: "inst_desc list \<Rightarrow> global_kind list \<Rightarrow> nat \<times> byte list \<times> (nat \<times> byte list \<times> 8 word) list \<Rightarrow> (nat, nat) bfunc \<Rightarrow> bool" where
  "good_func insts globals h f \<longleftrightarrow> func_id f = fst h \<and> map block_id (func_blocks f) = map fst (snd (snd h)) \<and>
     good_insts insts globals (all_insts (func_blocks f)) \<and> set_option (func_personality f) \<subseteq> below globals"

lemma yields_ReadFunc: "yields (ReadFunc insts pow2 globals h) (good_func insts globals h)"
proof -
  have stack: "yields (rbind (rbind ReadSize16 (\<lambda>n. read_loop n (ReadStackObject pow2) [])) f) P"
    if "\<And>x. yields (f x) P" for f and P :: "(nat, nat) bfunc \<Rightarrow> bool"
    by (rule yields_then) (rule that)
  show ?thesis
    unfolding ReadFunc_def
    by (rule yields_then, rule yields_then, rule yields_then, rule yields_then, rule yields_then, rule yields_then,
        rule yields_then, rule yields_then, rule yields_then, clarsimp, rule yields_then,
        rule yields_bind[OF yields_ReadGlobal], rule yields_bind[OF yields_ReadBody])
      (simp add: good_func_def)
qed

subsection \<open>The header\<close>

definition creates :: "global_kind list \<Rightarrow> (nat \<times> global_kind) list \<Rightarrow> global_kind list \<Rightarrow> bool" where
  "creates globals L globals' \<longleftrightarrow> globals' = globals @ map snd L \<and> map fst L = [length globals..<length globals']"

lemma creates_trans: "creates g L g' \<Longrightarrow> creates g' L' g'' \<Longrightarrow> creates g (L @ L') g''"
  using upt_add_eq_append[of "length g" "length g + length L" "length L'"] by (auto simp: creates_def add.assoc)

lemma creates_Nil [simp]: "creates g [] g" and creates_one: "creates g [(length g, k)] (g @ [k])"
  by (simp_all add: creates_def)

lemma creates_all:
  assumes "creates [] L globals"
  shows "distinct (map fst L)" "fst ` set L = below globals" "b < length globals \<Longrightarrow> (b, globals ! b) \<in> set L"
proof -
  have L: "globals = map snd L" "map fst L = [0..<length globals]" using assms by (simp_all add: creates_def)
  show "distinct (map fst L)" by (simp add: L(2))
  show "fst ` set L = below globals" using arg_cong[OF L(2), of set] by (auto simp: atLeast0LessThan)
  assume b: "b < length globals"
  then have len: "b < length L" by (simp add: L(1))
  have "fst (L ! b) = b" using arg_cong[OF L(2), of "\<lambda>xs. xs ! b"] len b by simp
  moreover have "snd (L ! b) = globals ! b" using len by (simp add: L(1))
  ultimately show "(b, globals ! b) \<in> set L" using nth_mem[OF len] by (metis prod.collapse)
qed

lemma yields_created:
  assumes "\<And>g. yields (rd g) (\<lambda>(x, g'). creates g (f x) g')"
  shows "yields (ReadCounted rd g) (\<lambda>(xs, g'). creates g (concat (map f xs)) g')"
proof -
  have step: "yields (rd st) (\<lambda>(x, st'). creates g (concat (map f (xs @ [x]))) st')" if "creates g (concat (map f xs)) st" for xs st
    by (rule yields_weaken[OF assms]) (use that creates_trans in fastforce)
  show ?thesis
    unfolding ReadCounted_def
    by (rule yields_then) (use yields_loop_acc[of "\<lambda>xs st. creates g (concat (map f xs)) st" rd "[]" g, OF step] in simp)
qed

definition atom_header :: "nat \<times> byte list \<Rightarrow> (nat \<times> global_kind) list" where
  "atom_header = (\<lambda>h. [(fst h, G_ATOM)])"

definition data_header :: "byte list \<times> (nat \<times> byte list) list list \<Rightarrow> (nat \<times> global_kind) list" where
  "data_header h = concat (map (\<lambda>hs. concat (map atom_header hs)) (snd h))"

definition func_header :: "nat \<times> byte list \<times> (nat \<times> byte list \<times> 8 word) list \<Rightarrow> (nat \<times> global_kind) list" where
  "func_header h = (fst h, G_FUNC) # concat (map (\<lambda>b. [(fst b, G_BLOCK)]) (snd (snd h)))"

lemma yields_ReadName: "yields (ReadName k g) (\<lambda>(h, g'). creates g [(fst h, k)] g')"
  unfolding ReadName_def by (rule yields_then) (simp add: creates_one)

lemma yields_ReadDataHeader: "yields (ReadDataHeader g) (\<lambda>(h, g'). creates g (data_header h) g')"
  unfolding ReadDataHeader_def
  by (rule yields_then, rule yields_bind[OF yields_created[OF yields_created[OF yields_ReadName]]])
    (simp add: data_header_def atom_header_def split: prod.splits)

lemma yields_ReadBlockName: "yields (ReadBlockName g) (\<lambda>(h, g'). creates g [(fst h, G_BLOCK)] g')"
  unfolding ReadBlockName_def by (rule yields_then, rule yields_then) (simp add: creates_one)

lemma yields_ReadFuncHeader: "yields (ReadFuncHeader g) (\<lambda>(h, g'). creates g (func_header h) g')"
  unfolding ReadFuncHeader_def
  by (rule yields_bind[OF yields_ReadName], clarsimp, rule yields_bind[OF yields_created[OF yields_ReadBlockName]])
    (auto simp: func_header_def dest: creates_trans)

lemma add_data_symbols:
  "mset (concat (map data_header (add_data ds h))) = mset (concat (map data_header ds)) + mset (data_header h)"
  by (induction ds h rule: add_data.induct) (simp_all add: data_header_def)

lemma merged_symbols:
  "mset (concat (map data_header (foldl add_data acc ds))) =
   mset (concat (map data_header acc)) + mset (concat (map data_header ds))"
  by (induction ds arbitrary: acc) (simp_all add: add_data_symbols)

subsection \<open>The file\<close>

lemma list_all2_map: "list_all2 (\<lambda>h x. g x = f h) hs xs \<Longrightarrow> map g xs = map f hs"
  by (induction rule: list_all2_induct) simp_all

lemma list_all2_right: "list_all2 P xs ys \<Longrightarrow> y \<in> set ys \<Longrightarrow> (\<And>x. x \<in> set xs \<Longrightarrow> P x y \<Longrightarrow> R) \<Longrightarrow> R"
  by (induction rule: list_all2_induct) auto

definition good_object :: "global_kind list \<Rightarrow> (nat \<times> byte list) list \<Rightarrow> nat bobject \<Rightarrow> bool" where
  "good_object globals hs obj \<longleftrightarrow> object_symbols obj = concat (map atom_header hs) \<and>
     ((\<forall>h \<in> set hs. fst h < length globals) \<longrightarrow> set_bobject obj \<subseteq> below globals)"

lemma yields_ReadObject: "yields (ReadObject pow2 globals hs) (good_object globals hs)"
proof -
  have "good_object globals hs (BObject tls atoms)"
    if a: "list_all2 (\<lambda>h a. atom_id a = fst h \<and> (fst h < length globals \<longrightarrow> set_batom a \<subseteq> below globals)) hs atoms" for tls atoms
  proof -
    have "map atom_id atoms = map fst hs" by (rule list_all2_map) (use a in \<open>auto elim: list_all2_mono\<close>)
    from arg_cong[OF this, of "map (\<lambda>i. (i, G_ATOM))"]
    have "object_symbols (BObject tls atoms) = concat (map atom_header hs)"
      by (simp add: object_symbols_def atom_header_def comp_def)
    moreover have "(\<forall>h \<in> set hs. fst h < length globals) \<longrightarrow> set_bobject (BObject tls atoms) \<subseteq> below globals"
      using a by (fastforce simp: list_all2_conv_all_nth in_set_conv_nth)
    ultimately show ?thesis by (simp add: good_object_def)
  qed
  then show ?thesis
    unfolding ReadObject_def by (intro yields_then yields_bind[OF yields_each[OF yields_ReadAtom]]) simp
qed

definition good_data :: "global_kind list \<Rightarrow> byte list \<times> (nat \<times> byte list) list list \<Rightarrow> nat bdata \<Rightarrow> bool" where
  "good_data globals h d \<longleftrightarrow> data_symbols d = data_header h \<and>
     (fst ` set (data_header h) \<subseteq> below globals \<longrightarrow> set_bdata d \<subseteq> below globals)"

lemma yields_data:
  "yields ((\<lambda>(n, objs). rbind (read_each (ReadObject pow2 globals) objs) (\<lambda>objs. rreturn (BData n objs))) h)
    (good_data globals h)"
proof -
  have "good_data globals h (BData n objs)" if a: "list_all2 (good_object globals) (snd h) objs" for n objs
  proof -
    have "map object_symbols objs = map (\<lambda>hs. concat (map atom_header hs)) (snd h)"
      by (rule list_all2_map) (use a in \<open>auto simp: good_object_def elim: list_all2_mono\<close>)
    then have "data_symbols (BData n objs) = data_header h" by (simp add: data_symbols_def data_header_def)
    moreover have "set_bdata (BData n objs) \<subseteq> below globals" if s: "fst ` set (data_header h) \<subseteq> below globals"
    proof
      fix g assume "g \<in> set_bdata (BData n objs)"
      then obtain obj where obj: "obj \<in> set objs" "g \<in> set_bobject obj" by auto
      have "\<exists>hs \<in> set (snd h). good_object globals hs obj"
        using a obj(1) by (induction rule: list_all2_induct) auto
      then obtain hs where hs: "hs \<in> set (snd h)" "good_object globals hs obj" by blast
      have "\<forall>h \<in> set hs. fst h < length globals" using s hs(1) by (force simp: data_header_def atom_header_def)
      then show "g \<in> below globals" using hs(2) obj(2) by (auto simp: good_object_def)
    qed
    ultimately show ?thesis by (simp add: good_data_def)
  qed
  then show ?thesis by (cases h) (auto intro!: yields_bind[OF yields_each[OF yields_ReadObject]])
qed

lemma inst_targets_set: "inst_targets x \<subseteq> set1_binst x"
proof (cases x)
  case (BInst i annots k types fs)
  have "field_targets v \<subseteq> set1_bfield v" for v :: "('a, 'b) bfield" by (cases v rule: field_targets.cases) auto
  then show ?thesis using BInst by fastforce
qed (auto simp: prod_set_defs)

lemma set1_block: "set1_bblock b = insert (block_id b) (\<Union> (set1_binst ` set (block_insts b)))"
  by (cases b) simp

lemma set1_func:
  "set1_bfunc f = insert (func_id f) (set_option (func_personality f) \<union> block_id ` set (func_blocks f) \<union>
     \<Union> (set1_binst ` set (all_insts (func_blocks f))))"
  by (cases f) (auto simp: set1_block all_insts_def)

definition valid_prog :: "inst_desc list \<Rightarrow> (nat, nat) bprog \<Rightarrow> bool" where
  "valid_prog insts p \<longleftrightarrow>
     distinct (map fst (symbol_list (\<lambda>bs. bs) p)) \<and> set1_bprog p \<subseteq> fst ` set (symbol_list (\<lambda>bs. bs) p) \<and>
     (\<forall>f \<in> set (prog_funcs p).
        valid_body insts (\<lambda>b. (b, G_BLOCK) \<in> set (symbol_list (\<lambda>bs. bs) p)) (all_insts (func_blocks f)))"

lemma read_prog_valid:
  assumes L: "creates [] (map (\<lambda>h. (fst h, G_EXTERN)) exts @ concat (map data_header datas) @
      concat (map func_header funcs)) globals"
    and es: "list_all2 (\<lambda>h e. ext_id e = fst h \<and> (fst h < length globals \<longrightarrow> set1_bextern e \<subseteq> below globals)) exts es"
    and ds: "list_all2 (good_data globals) (foldl add_data [] datas) ds"
    and fs: "list_all2 (good_func insts globals) funcs fs"
    and xs: "list_all (\<lambda>x. set_bxtor x \<subseteq> below globals) xs"
  shows "valid_prog insts (BProg name es ds fs xs)"
proof -
  let ?L = "map (\<lambda>h. (fst h, G_EXTERN)) exts @ concat (map data_header datas) @ concat (map func_header funcs)"
  let ?S = "symbol_list (\<lambda>bs. bs) (BProg name es ds fs xs)"
  have "map ext_id es = map fst exts" by (rule list_all2_map) (use es in \<open>auto elim: list_all2_mono\<close>)
  from arg_cong[OF this, of "map (\<lambda>i. (i, G_EXTERN))"]
  have 1: "concat (map extern_symbols es) = map (\<lambda>h. (fst h, G_EXTERN)) exts"
    by (simp add: extern_symbols_def[abs_def] comp_def)
  have "map data_symbols ds = map data_header (foldl add_data [] datas)"
    by (rule list_all2_map) (use ds in \<open>auto simp: good_data_def elim: list_all2_mono\<close>)
  then have 2: "mset (concat (map data_symbols ds)) = mset (concat (map data_header datas))"
    using merged_symbols[of "[]" datas] by simp
  have "map (func_symbols (\<lambda>bs. bs)) fs = map func_header funcs"
  proof (rule list_all2_map, rule list_all2_mono[OF fs])
    fix h :: "nat \<times> byte list \<times> (nat \<times> byte list \<times> 8 word) list" and f assume "good_func insts globals h f"
    then have f: "func_id f = fst h" "map block_id (func_blocks f) = map fst (snd (snd h))" by (simp_all add: good_func_def)
    from arg_cong[OF f(2), of "map (\<lambda>i. (i, G_BLOCK))"] f(1)
    show "func_symbols (\<lambda>bs. bs) f = func_header h" by (simp add: func_symbols_def func_header_def comp_def)
  qed
  then have S: "mset ?S = mset ?L" using 1 2 by (simp add: symbol_list_def)
  have set: "set ?S = set ?L" using S by (metis set_mset_mset)
  have "mset (map fst ?S) = mset (map fst ?L)" by (simp only: mset_map S)
  then have dist: "distinct (map fst ?S)" using creates_all(1)[OF L] by (metis mset_eq_imp_distinct_iff)
  have below: "fst ` set ?S = below globals" unfolding set by (rule creates_all(2)[OF L])
  have ex: "\<forall>h \<in> set exts. fst h < length globals"
    using creates_all(2)[OF L] by force
  have e: "\<forall>e \<in> set es. set1_bextern e \<subseteq> below globals"
  proof
    fix e assume "e \<in> set es"
    then obtain h where "h \<in> set exts" "fst h < length globals \<longrightarrow> set1_bextern e \<subseteq> below globals"
      by (rule list_all2_right[OF es]) blast
    then show "set1_bextern e \<subseteq> below globals" using ex by blast
  qed
  have "set (concat (map data_header (foldl add_data [] datas))) = set (concat (map data_header datas))"
    using arg_cong[OF merged_symbols[of "[]" datas], of set_mset] by simp
  then have merged: "set (concat (map data_header datas)) = set (concat (map data_header (foldl add_data [] datas)))" ..
  have hs: "fst ` set (data_header h) \<subseteq> below globals" if h: "h \<in> set (foldl add_data [] datas)" for h
  proof -
    have "set (data_header h) \<subseteq> set (concat (map data_header datas))"
      using h unfolding merged by auto
    then have "fst ` set (data_header h) \<subseteq> fst ` set ?L" by auto
    then show ?thesis unfolding creates_all(2)[OF L] .
  qed
  have d: "\<forall>d \<in> set ds. set_bdata d \<subseteq> below globals"
  proof
    fix d assume "d \<in> set ds"
    then obtain h where h: "h \<in> set (foldl add_data [] datas)" "good_data globals h d" by (rule list_all2_right[OF ds])
    then show "set_bdata d \<subseteq> below globals" using hs[OF h(1)] by (simp add: good_data_def)
  qed
  have f: "set1_bfunc f \<subseteq> below globals \<and>
      valid_body insts (\<lambda>b. (b, G_BLOCK) \<in> set ?S) (all_insts (func_blocks f))" if f: "f \<in> set fs" for f
  proof -
    obtain h where h: "h \<in> set funcs" "good_func insts globals h f"
      by (rule list_all2_right[OF fs f])
    let ?xs = "all_insts (func_blocks f)"
    have good: "map inst_id ?xs = [0..<length ?xs]" "\<And>x. x \<in> set ?xs \<Longrightarrow> good_inst globals (all_refs insts ?xs) x"
      using h(2) by (simp_all add: good_func_def good_insts_def)
    have "block_id ` set (func_blocks f) = fst ` set (snd (snd h))"
      using h(2) by (metis good_func_def set_map)
    moreover have "insert (fst h) (fst ` set (snd (snd h))) \<subseteq> fst ` set (func_header h)"
      by (force simp: func_header_def image_iff)
    moreover have "fst ` set (func_header h) \<subseteq> below globals"
      using h(1) creates_all(2)[OF L] by auto
    moreover have "func_id f = fst h" using h(2) by (simp add: good_func_def)
    ultimately have "insert (func_id f) (block_id ` set (func_blocks f)) \<subseteq> below globals"
      by (metis order_trans)
    moreover have "\<Union> (set1_binst ` set ?xs) \<subseteq> below globals"
      using good(2) by (intro UN_least) (simp add: good_inst_def)
    moreover have "set_option (func_personality f) \<subseteq> below globals"
      using h(2) by (simp add: good_func_def)
    ultimately have "set1_bfunc f \<subseteq> below globals" unfolding set1_func by blast
    moreover have "(b, G_BLOCK) \<in> set ?S" if x: "x \<in> set ?xs" "b \<in> inst_targets x" for x b
    proof -
      have "b < length globals" "globals ! b = G_BLOCK"
        using good(2)[OF x(1)] x(2) inst_targets_set[of x] by (auto simp: good_inst_def)
      then show ?thesis using creates_all(3)[OF L] unfolding set by metis
    qed
    ultimately show ?thesis using good by (auto simp: valid_body_def good_inst_def)
  qed
  have "set1_bprog (BProg name es ds fs xs) \<subseteq> below globals"
    using e d f xs by (fastforce simp: list_all_iff)
  then show ?thesis using dist below f by (simp add: valid_prog_def)
qed

lemma yields_ReadProg: "yields (ReadProg insts pow2) (valid_prog insts)"
proof -
  have trans: "creates [] (a @ b @ c) g" if "creates [] a g1" "creates g1 b g2" "creates g2 c g" for a b c g1 g2 g
    using creates_trans[OF that(1) creates_trans[OF that(2,3)]] .
  show ?thesis
    unfolding ReadProg_def
    by (rule yields_then, simp, rule impI, rule yields_then,
        rule yields_bind[OF yields_created[OF yields_ReadName]], clarsimp,
        rule yields_bind[OF yields_created[OF yields_ReadDataHeader]], clarsimp,
        rule yields_bind[OF yields_created[OF yields_ReadFuncHeader]], clarsimp,
        rule yields_bind[OF yields_each[OF yields_data]],
        rule yields_bind[OF yields_each[OF yields_ReadFunc]],
        rule yields_bind[OF yields_each[OF yields_ReadExtern]],
        rule yields_bind[OF yields_counted[OF yields_ReadXtor]])
      (auto intro: read_prog_valid trans)
qed

text \<open>C34: Whatever the bytes are, a program that the reader returns is resolved: its symbols are distinct, every symbol that
  is mentioned anywhere is one of them, block operands are blocks, the instructions of a function are numbered in order, and
  every operand is a value of an instruction of its function.\<close>
theorem read_program_valid:
  assumes "ReadProg insts pow2 bs = returns (p, rest)"
  shows "valid_prog insts p"
  using yieldsD[OF yields_ReadProg assms] .

lemma read_program_valid_witness:
  "valid_prog instructions (renumber instructions (\<lambda>bs. bs) sample_bprog)"
proof -
  obtain bs where "ReadProg instructions is_pow2 (bs @ []) = returns (renumber instructions (\<lambda>bs. bs) sample_bprog, [])"
    using codes_prog[OF sample_wf] unfolding codes_def by blast
  then show ?thesis by (rule read_program_valid)
qed

end
