(* ===== verification/Spec2Isabelle.thy ===== *)
theory Spec2Isabelle
  imports SccpCompare SccpSolution BitSet UnionFind WorkQueue TagAnalysis TagPhi PtaSpec PtaCycles BitcodeValid
begin

text \<open>
  A verification library for llir-opt, a link-time optimiser that reads programs in the intermediate
  representation LLIR, transforms them by a list of passes and emits machine code through LLVM. The
  library models the binary format in which programs are stored, the two data-flow analyses that decide what
  the optimiser may assume about a value, the containers they run on, and the representation of types and of
  initialised data below them.

  \<^bold>\<open>Parts and how they interact.\<close> A program is a list of functions of blocks of instructions, with data in
  objects made of atoms made of items. Sparse conditional constant propagation
  (\<^verbatim>\<open>src/passes/sccp\<close>, run by \<^verbatim>\<open>src/passes/sccp.cpp\<close>) assigns to every register an element of a lattice and
  to every block whether it can run; its solver calls the evaluators of unary, binary and comparison
  instructions and the loader of constant data, and joins values at PHIs, arguments and returns. The tag
  analysis (\<^verbatim>\<open>src/passes/tags\<close>) assigns to every register of an OCaml program a type that tells integers
  from heap pointers; its state keeps queues of instructions to revisit, its transfer functions are the
  tables of \<^verbatim>\<open>step.cpp\<close> and the rules of \<^verbatim>\<open>eval\<close>. The containers of \<^verbatim>\<open>src/core/adt\<close> (sparse bit sets, a
  union-find with merged elements, a queue without duplicates) are those the points-to solver works on. The
  bitcode writer and reader (\<^verbatim>\<open>src/core/bitcode_writer.cpp\<close>, \<^verbatim>\<open>src/core/bitcode_reader.cpp\<close>) turn a program into a
  file and back, by code that is in part printed from the instruction table by \<^verbatim>\<open>src/util/inst_gen\<close>.

  \<^bold>\<open>Theories and sources.\<close>
  \<^item> \<open>Prelude\<close>: results with the ways an operation fails (\<^verbatim>\<open>llvm_unreachable\<close>, a failed assertion, an iterator
    or an index outside of its container, a reported fatal error) and bit lemmas shared by all.
  \<^item> \<open>Types\<close>: \<^verbatim>\<open>core/type.cpp\<close>, \<^verbatim>\<open>core/cond.cpp\<close>, \<^verbatim>\<open>core/global.cpp\<close>, \<^verbatim>\<open>core/calling_conv.cpp\<close>.
  \<^item> \<open>ApInt\<close>, \<open>ApFloat\<close>: the integers and floats of LLVM, which are not part of the sources, as records of
    operations with the laws of the documentation as locales \<open>apint\<close>, \<open>apfloat\<close> and \<open>numbers\<close>; bit vectors
    and doubles interpret them.
  \<^item> \<open>SccpLattice\<close>, \<open>SccpEval\<close>, \<open>SccpEvalSound\<close>, \<open>SccpCompare\<close>: \<^verbatim>\<open>lattice.cpp\<close>, \<^verbatim>\<open>eval.cpp\<close> and \<^verbatim>\<open>compare.cpp\<close>;
    what a lattice element stands for (\<open>in_gamma\<close>), soundness of the bound, of the truth tests and of every
    transfer function, precision on constants, and the height of the lattice.
  \<^item> \<open>Items\<close>: \<^verbatim>\<open>core/item.cpp\<close> and the loads and stores of \<^verbatim>\<open>core/object.cpp\<close> against the bytes of an object.
  \<^item> \<open>SccpProg\<close>, \<open>SccpLoad\<close>, \<open>SccpLoadSound\<close>: what the solver reads of a program, and \<^verbatim>\<open>load.cpp\<close>.
  \<^item> \<open>SccpSolver\<close>: \<^verbatim>\<open>solver.cpp\<close>, \<^verbatim>\<open>solver.h\<close> and \<^verbatim>\<open>x86.cpp\<close>, one definition for each visitor and for each loop
    over callers. \<open>SccpSolved\<close> proves what every visit keeps through the locale \<open>step_invariant\<close>,
    \<open>SccpSettled\<close> that nothing is left unsettled when the worklists are empty, \<open>SccpRun\<close> that a run of a
    function stays inside of a settled solution, and \<open>SccpSolution\<close> puts them together for \<open>solve\<close>.
  \<^item> \<open>OrdMap\<close>, \<open>BitNode\<close>, \<open>BitSet\<close>: \<^verbatim>\<open>core/adt/bitset.h\<close>, a map of chunks of 128 bits, refined to sets.
  \<^item> \<open>UnionFind\<close>: \<^verbatim>\<open>core/adt/union_find.h\<close>; \<open>WorkQueue\<close>: \<^verbatim>\<open>core/adt/queue.h\<close>.
  \<^item> \<open>MaskedType\<close>, \<open>TaggedType\<close>, \<open>TagStep\<close>, \<open>TagPhi\<close>, \<open>TagAnalysis\<close>: \<^verbatim>\<open>masked_type.cpp\<close>, \<^verbatim>\<open>tagged_type.cpp\<close>,
    \<^verbatim>\<open>step.cpp\<close> with \<^verbatim>\<open>eval/*.cpp\<close>, and \<^verbatim>\<open>register_analysis.cpp\<close>.

  \<^item> \<open>Annot\<close>: \<^verbatim>\<open>core/annot.cpp\<close>. \<open>ByteStream\<close>, \<open>Bitcode\<close>, \<open>BitcodeInst\<close>, \<open>BitcodeProg\<close>: the writer and the reader, from
    the integers up to whole files; \<open>InstTable\<close>: \<^verbatim>\<open>core/instructions.td\<close>. The relation \<open>codes\<close> of \<open>ByteStream\<close>
    says that a reader takes exactly the bytes of a writer and refuses each of their strict prefixes; the
    locales \<open>codec\<close>, \<open>symbol_table\<close> and \<open>inst_table\<close> of \<open>BitcodeCodec\<close> state it for values with references to
    symbols and instructions. \<open>BitcodeBody\<close> and \<open>BitcodeFunc\<close> prove it for instructions and functions,
    \<open>BitcodeRound\<close> for files, and \<open>BitcodeFile\<close> states the round trip and its limits. \<open>BitcodeValid\<close> shows that what
    the reader returns for any bytes is resolved.

  \<^bold>\<open>Conventions.\<close> Machine integers keep their width: 32-bit identifiers, 64-bit words and offsets are
  words, sizes are natural numbers. A function that can fail returns \<open>failure + 'a\<close>. Objects identified by
  their address are numbers. A loop that may run forever is a partial function whose result \<open>None\<close> is not
  returning (\<open>drain\<close>, \<open>solve_loop\<close>, the loops of the tag analysis and the reverse iterator of a bit set);
  every other loop is total with a termination proof. No fuel is used.

  \<^bold>\<open>Parameters.\<close> The operations of \<^verbatim>\<open>APInt\<close> and \<^verbatim>\<open>APFloat\<close>, the merge of union-find elements, bit counting, the
  subtarget of a function, the test of \<^verbatim>\<open>llvm::Align\<close>, LLVM's order of the blocks of a function and the program
  itself are arguments. The theorems about them name the law they
  use as a hypothesis, and each has a witness on a concrete instance.

  \<^bold>\<open>Not modelled.\<close> The lists of use links and the ownership of instructions, blocks and items (the models
  take a program as a record), the textual form, the renaming of symbols that share a name, code generation
  (calls into LLVM), the passes that rewrite blocks, and what the generator of instructions prints besides the
  readers and writers of bitcode. The solvers are shown to stop only where a bound exists in
  the code: a bounded number of changes for one register that absorbs values by the bound
  (\<open>LUB_chain_bounded\<close>), the loops over callers; that the whole solver stops is not proved, since its
  transfer functions are not monotone.
\<close>

end
